(* ===== verification/Prelude.thy ===== *)
theory Prelude
  imports Main "HOL-Library.Monad_Syntax" "HOL-Library.Word"
begin

text \<open>
  Shared vocabulary of the development: the result of a Riva function call
  (\<^verbatim>\<open>dev/inc/gcc/Std/Function.h\<close>), 32-bit machine arithmetic (Riva is a 32-bit x86
  system: \<^verbatim>\<open>long\<close>, \<^verbatim>\<open>unsigned long\<close> and \<^verbatim>\<open>int32_t\<close> have 32 bits), the option monad that
  stands for undefined behaviour, and generic list lemmas.

  In every model of this development the outer \<^typ>\<open>'a option\<close> says whether the C code has
  a defined behaviour: \<^const>\<open>None\<close> is a NULL or wild pointer access, an array access out of
  bounds, a lock that can never be obtained, an exhausted heap, or a loop that does not end.
\<close>

section \<open>Results of Riva functions\<close>

text \<open>
  A Riva function returns one of four status codes (\<^verbatim>\<open>SUSPEND\<close> -1, \<^verbatim>\<open>SUCCESS\<close> 0,
  \<^verbatim>\<open>FAILURE\<close> 1, \<^verbatim>\<open>MESSAGE\<close> 2) and leaves a value in its result structure; a suspended
  call leaves a generator state as well.
\<close>

datatype ('r, 'm, 'g) reply = SUSPEND 'r 'g | SUCCESS 'r | FAILURE | MESSAGE 'm

text \<open>What a caller that accepts \<^verbatim>\<open>SUSPEND\<close> and \<^verbatim>\<open>SUCCESS\<close> alike reads off a reply.\<close>

fun returned :: "('r, 'm, 'g) reply \<Rightarrow> 'r option" where
  "returned (SUSPEND r g) = Some r"
| "returned (SUCCESS r) = Some r"
| "returned FAILURE = None"
| "returned (MESSAGE m) = None"

text \<open>
  Calls made by the code through \<^verbatim>\<open>Std$Function$call\<close> reach arbitrary user functions. They are
  parameters of the model: a function from the argument values to the reply.
\<close>

type_synonym 'v fun1 = "'v \<Rightarrow> ('v, 'v, unit) reply"
type_synonym 'v fun2 = "'v \<Rightarrow> 'v \<Rightarrow> ('v, 'v, unit) reply"

text \<open>Running a generator to its end: the results in order, and the message that ended it, if any.\<close>

partial_function (option) run_out ::
  "('g \<Rightarrow> ('r, 'm, 'g) reply option) \<Rightarrow> ('r, 'm, 'g) reply \<Rightarrow> ('r list \<times> 'm option) option" where
  "run_out resume r =
     (case r of
        FAILURE \<Rightarrow> Some ([], None)
      | MESSAGE m \<Rightarrow> Some ([], Some m)
      | SUCCESS x \<Rightarrow> Some ([x], None)
      | SUSPEND x g \<Rightarrow> do {
          r \<leftarrow> resume g;
          (xs, m) \<leftarrow> run_out resume r;
          Some (x # xs, m) })"

declare run_out.simps [code]

lemma run_out_more:
  "resume g = Some r \<Longrightarrow> run_out resume r = Some (xs, m) \<Longrightarrow> run_out resume (SUSPEND x g) = Some (x # xs, m)"
  by (simp add: run_out.simps[of resume "SUSPEND x g"])

lemma run_out_simps [simp]:
  "run_out resume FAILURE = Some ([], None)"
  "run_out resume (MESSAGE msg) = Some ([], Some msg)"
  "run_out resume (SUCCESS x) = Some ([x], None)"
  by (simp_all add: run_out.simps)

section \<open>32-bit arithmetic\<close>

definition u32 :: "nat \<Rightarrow> nat" where
  "u32 n = n mod 2 ^ 32"

definition inc32 :: "nat \<Rightarrow> nat" where
  "inc32 n = u32 (n + 1)"

primrec dec32 :: "nat \<Rightarrow> nat" where
  "dec32 0 = 2 ^ 32 - 1"
| "dec32 (Suc n) = n"

definition sub32 :: "nat \<Rightarrow> nat \<Rightarrow> nat" where
  "sub32 m n = u32 (m + 2 ^ 32 - n)"

text \<open>Conversion of a \<^verbatim>\<open>long\<close> to \<^verbatim>\<open>unsigned long\<close>, and wrap-around of a \<^verbatim>\<open>long\<close>.\<close>

definition ul :: "int \<Rightarrow> nat" where
  "ul i = nat (i mod 2 ^ 32)"

definition s32 :: "int \<Rightarrow> int" where
  "s32 i = (i + 2 ^ 31) mod 2 ^ 32 - 2 ^ 31"

lemma u32_id [simp]: "n < 4294967296 \<Longrightarrow> u32 n = n"
  by (simp add: u32_def)

lemma inc32_Suc [simp]: "n < 4294967295 \<Longrightarrow> inc32 n = Suc n"
  by (simp add: inc32_def)

lemma sub32_le [simp]: "n \<le> m \<Longrightarrow> m < 4294967296 \<Longrightarrow> sub32 m n = m - n"
  by (simp add: sub32_def u32_def mod_if)

lemma dec32_pos: "0 < n \<Longrightarrow> dec32 n = n - 1"
  by (cases n) auto

lemma dec32_numeral [simp]: "dec32 (numeral k) = pred_numeral k"
  by (simp add: numeral_eq_Suc)

lemma dec32_One [simp]: "dec32 1 = 0"
  unfolding One_nat_def by (rule dec32.simps(2))

lemma ul_id [simp]: "0 \<le> i \<Longrightarrow> i < 4294967296 \<Longrightarrow> ul i = nat i"
  by (simp add: ul_def)

lemma ul_int [simp]: "n < 4294967296 \<Longrightarrow> ul (int n) = n"
  by (simp add: ul_def)

lemma s32_id [simp]: "- 2147483648 \<le> i \<Longrightarrow> i < 2147483648 \<Longrightarrow> s32 i = i"
  by (simp add: s32_def)

lemma nat_Suc_int [simp]: "nat (1 + int n) = Suc n" "nat (int n + 1) = Suc n"
  by simp_all

section \<open>Generic lemmas\<close>

named_theorems loops \<open>unfolding equations of pointer loops, applied one step at a time\<close>

lemma bind_Some_iff:
  "Option.bind m f = Some y \<longleftrightarrow> (\<exists>x. m = Some x \<and> f x = Some y)"
  by (cases m) auto

lemma nth_split:
  assumes "i < length xs"
  shows "xs = take i xs @ xs ! i # drop (Suc i) xs"
  using assms by (simp add: id_take_nth_drop)

lemma split_at:
  assumes "1 \<le> n" and "n \<le> length xs"
  obtains as x bs where "xs = as @ x # bs" and "length as = n - 1"
proof
  show "xs = take (n - 1) xs @ xs ! (n - 1) # drop (Suc (n - 1)) xs"
    using assms by (intro nth_split) auto
  show "length (take (n - 1) xs) = n - 1" using assms by simp
qed

end
