(* ===== verification/ListHeap.thy ===== *)
theory ListHeap
  imports Prelude
begin

text \<open>
  The memory that holds list nodes (\<^verbatim>\<open>Agg$List$node\<close> of \<^verbatim>\<open>dev/inc/gcc/Agg/List.h\<close>), its
  allocator \<^verbatim>\<open>new(_node)\<close> (\<^verbatim>\<open>Riva$Memory$alloc\<close>, which returns zeroed memory), and the predicate
  \<open>chain\<close> that says which values a doubly linked sequence of nodes holds.
\<close>

section \<open>Nodes and memory\<close>

type_synonym ptr = nat \<comment> \<open>0 is NULL\<close>

record 'v node =
  Value :: 'v
  Next :: ptr
  Prev :: ptr

record 'v heap =
  Nodes :: "ptr \<Rightarrow> 'v node option"
  Fresh :: ptr

text \<open>
  A node takes 12 bytes of a 32-bit address space, so there are at most \<open>2 ^ 32 div 12\<close> of
  them: the allocator of the model stops there.
\<close>

definition max_nodes :: nat where
  "max_nodes = 357913941"

definition load :: "'v heap \<Rightarrow> ptr \<Rightarrow> 'v node option" where
  "load h p = (if p = 0 then None else Nodes h p)"

definition get_next :: "'v heap \<Rightarrow> ptr \<Rightarrow> ptr option" where
  "get_next h p = map_option Next (load h p)"

definition get_prev :: "'v heap \<Rightarrow> ptr \<Rightarrow> ptr option" where
  "get_prev h p = map_option Prev (load h p)"

definition get_value :: "'v heap \<Rightarrow> ptr \<Rightarrow> 'v option" where
  "get_value h p = map_option Value (load h p)"

definition store :: "'v heap \<Rightarrow> ptr \<Rightarrow> 'v node \<Rightarrow> 'v heap" where
  "store h p nd = h\<lparr>Nodes := (Nodes h)(p \<mapsto> nd)\<rparr>"

definition set_next :: "'v heap \<Rightarrow> ptr \<Rightarrow> ptr \<Rightarrow> 'v heap option" where
  "set_next h p q = map_option (\<lambda>nd. store h p (nd\<lparr>Next := q\<rparr>)) (load h p)"

definition set_prev :: "'v heap \<Rightarrow> ptr \<Rightarrow> ptr \<Rightarrow> 'v heap option" where
  "set_prev h p q = map_option (\<lambda>nd. store h p (nd\<lparr>Prev := q\<rparr>)) (load h p)"

definition set_value :: "'v heap \<Rightarrow> ptr \<Rightarrow> 'v \<Rightarrow> 'v heap option" where
  "set_value h p v = map_option (\<lambda>nd. store h p (nd\<lparr>Value := v\<rparr>)) (load h p)"

text \<open>\<^verbatim>\<open>Node = new(_node); Node->Value = v\<close>: the links of a new node are NULL.\<close>

definition new_node :: "'v heap \<Rightarrow> 'v \<Rightarrow> (ptr \<times> 'v heap) option" where
  "new_node h v =
     (if Fresh h < max_nodes
      then Some (Fresh h,
             (store h (Fresh h) \<lparr>Value = v, Next = 0, Prev = 0\<rparr>)\<lparr>Fresh := Suc (Fresh h)\<rparr>)
      else None)"

definition empty_heap :: "'v heap" where
  "empty_heap = \<lparr>Nodes = (\<lambda>_. None), Fresh = 1\<rparr>"

definition heap_ok :: "'v heap \<Rightarrow> bool" where
  "heap_ok h \<longleftrightarrow> 0 < Fresh h \<and> Fresh h \<le> max_nodes \<and>
     (\<forall>p. Nodes h p \<noteq> None \<longrightarrow> 0 < p \<and> p < Fresh h)"

text \<open>\<open>room h n\<close>: the allocator can deliver \<open>n\<close> more nodes.\<close>

definition room :: "'v heap \<Rightarrow> nat \<Rightarrow> bool" where
  "room h n \<longleftrightarrow> Fresh h + n \<le> max_nodes"

lemma heap_ok_empty [simp]: "heap_ok empty_heap"
  by (simp add: heap_ok_def empty_heap_def max_nodes_def)

lemma heap_ok_null [simp]: "heap_ok h \<Longrightarrow> Nodes h 0 = None"
  by (auto simp: heap_ok_def)

lemma heap_ok_fresh: "heap_ok h \<Longrightarrow> Fresh h \<le> p \<Longrightarrow> Nodes h p = None"
  by (meson heap_ok_def not_le)

lemma heap_ok_load [simp]: "heap_ok h \<Longrightarrow> load h p = Nodes h p"
  by (simp add: load_def)

lemma heap_ok_dom: "heap_ok h \<Longrightarrow> Nodes h p = Some nd \<Longrightarrow> 0 < p \<and> p < Fresh h"
  by (auto simp: heap_ok_def)

lemma Nodes_store [simp]: "Nodes (store h p nd) = (Nodes h)(p \<mapsto> nd)"
  by (simp add: store_def)

lemma Fresh_store [simp]: "Fresh (store h p nd) = Fresh h"
  by (simp add: store_def)

lemma heap_ok_store [simp]:
  "heap_ok h \<Longrightarrow> Nodes h p = Some nd' \<Longrightarrow> heap_ok (store h p nd)"
  by (auto simp: heap_ok_def)

lemma heap_ok_alloc [simp]:
  "heap_ok h \<Longrightarrow> Fresh h < max_nodes \<Longrightarrow>
   heap_ok ((store h (Fresh h) nd)\<lparr>Fresh := Suc (Fresh h)\<rparr>)"
  by (auto simp: heap_ok_def less_Suc_eq)

section \<open>Doubly linked chains\<close>

text \<open>
  \<open>chain m a xs b\<close>: the nodes and values \<open>xs\<close> lie in memory \<open>m\<close> one after the other, the
  first one's \<^verbatim>\<open>Prev\<close> is \<open>a\<close> and the last one's \<^verbatim>\<open>Next\<close> is \<open>b\<close>.
\<close>

definition first :: "(ptr \<times> 'v) list \<Rightarrow> ptr \<Rightarrow> ptr" where
  "first xs b = (case xs of [] \<Rightarrow> b | x # _ \<Rightarrow> fst x)"

definition final :: "(ptr \<times> 'v) list \<Rightarrow> ptr \<Rightarrow> ptr" where
  "final xs a = (if xs = [] then a else fst (last xs))"

fun chain :: "(ptr \<Rightarrow> 'v node option) \<Rightarrow> ptr \<Rightarrow> (ptr \<times> 'v) list \<Rightarrow> ptr \<Rightarrow> bool" where
  "chain m a [] b \<longleftrightarrow> True"
| "chain m a (x # xs) b \<longleftrightarrow>
     m (fst x) = Some \<lparr>Value = snd x, Next = first xs b, Prev = a\<rparr> \<and> chain m (fst x) xs b"

lemma first_simps [simp]: "first [] b = b" "first (x # xs) b = fst x"
  by (simp_all add: first_def)

lemma final_simps [simp]: "final [] a = a" "final (xs @ [x]) a = fst x" "final [x] a = fst x"
  by (simp_all add: final_def)

lemma final_Cons: "final (x # xs) a = final xs (fst x)"
  by (simp add: final_def)

lemma first_append [simp]: "first (xs @ ys) b = first xs (first ys b)"
  by (cases xs) auto

lemma final_append [simp]: "final (xs @ ys) a = final ys (final xs a)"
  by (simp add: final_def)

lemma final_Cons_Cons [simp]: "final (x # y # xs) a = final (y # xs) a"
  by (simp add: final_def)

lemma chain_append [simp]:
  "chain m a (xs @ ys) b \<longleftrightarrow> chain m a xs (first ys b) \<and> chain m (final xs a) ys b"
  by (induction xs arbitrary: a) (auto simp: final_Cons)

lemma chain_upd [simp]:
  "p \<notin> fst ` set xs \<Longrightarrow> chain (m(p := nd)) a xs b = chain m a xs b"
  by (induction xs arbitrary: a) auto

lemma chain_dom: "chain m a xs b \<Longrightarrow> x \<in> set xs \<Longrightarrow> \<exists>nd. m (fst x) = Some nd"
  by (induction xs arbitrary: a) auto

lemma chain_cong:
  "(\<And>p. p \<in> fst ` set xs \<Longrightarrow> m p = m' p) \<Longrightarrow> chain m a xs b = chain m' a xs b"
  by (induction xs arbitrary: a) auto

lemma chain_nth:
  assumes "chain m a xs b" and "i < length xs"
  shows "m (fst (xs ! i)) =
     Some \<lparr>Value = snd (xs ! i),
           Next = (if Suc i < length xs then fst (xs ! Suc i) else b),
           Prev = (if i = 0 then a else fst (xs ! (i - 1)))\<rparr>"
  using assms
proof (induction xs arbitrary: a i)
  case Nil
  then show ?case by simp
next
  case (Cons x xs)
  then show ?case by (cases i) (auto simp: first_def split: list.splits)
qed

lemma final_nth: "xs \<noteq> [] \<Longrightarrow> final xs a = fst (xs ! (length xs - 1))"
  by (simp add: final_def last_conv_nth)

lemma first_nth: "xs \<noteq> [] \<Longrightarrow> first xs b = fst (xs ! 0)"
  by (cases xs) auto

lemma chain_fresh:
  "heap_ok h \<Longrightarrow> chain (Nodes h) a xs b \<Longrightarrow> Fresh h \<notin> fst ` set xs"
  using chain_dom heap_ok_fresh by fastforce

lemma chain_nonnull:
  "heap_ok h \<Longrightarrow> chain (Nodes h) a xs b \<Longrightarrow> 0 \<notin> fst ` set xs"
  using chain_dom heap_ok_null by fastforce

lemma first_null:
  "heap_ok h \<Longrightarrow> chain (Nodes h) a xs b \<Longrightarrow> first xs 0 = 0 \<longleftrightarrow> xs = []"
  using chain_nonnull[of h a xs b] by (cases xs) (auto simp: image_iff)

lemma final_null:
  "heap_ok h \<Longrightarrow> chain (Nodes h) a xs b \<Longrightarrow> final xs 0 = 0 \<longleftrightarrow> xs = []"
  using chain_nonnull[of h a xs b] last_in_set[of xs] by (force simp: final_def image_iff)

lemma chain_length:
  assumes "heap_ok h" and "chain (Nodes h) a xs b" and "distinct (map fst xs)"
  shows "length xs < max_nodes"
proof -
  have "fst ` set xs \<subseteq> {1..<Fresh h}"
    using assms(1,2) chain_dom heap_ok_dom by fastforce
  then have "card (set (map fst xs)) \<le> card {1..<Fresh h}"
    by (intro card_mono) auto
  then have "length xs \<le> Fresh h - 1"
    using assms(3) by (metis card_atLeastLessThan distinct_card length_map)
  moreover have "0 < Fresh h" "Fresh h \<le> max_nodes" using assms(1) by (auto simp: heap_ok_def)
  ultimately show ?thesis by simp
qed

text \<open>Redirecting the outer links of a chain.\<close>

lemma relink_first:
  assumes "heap_ok h" and "chain (Nodes h) a ys b" and "ys \<noteq> []" and "distinct (map fst ys)"
  obtains h' nd where "set_prev h (first ys z) a' = Some h'" and "chain (Nodes h') a' ys b"
    and "Nodes h' = (Nodes h)(first ys z \<mapsto> nd)" and "heap_ok h'" and "Fresh h' = Fresh h"
proof -
  obtain y zs where ys: "ys = y # zs" using assms(3) by (cases ys) auto
  have y: "Nodes h (fst y) = Some \<lparr>Value = snd y, Next = first zs b, Prev = a\<rparr>" "fst y \<notin> fst ` set zs"
    using assms(2,4) ys by auto
  let ?nd = "\<lparr>Value = snd y, Next = first zs b, Prev = a'\<rparr>"
  show ?thesis
    by (rule that[of "store h (fst y) ?nd" ?nd])
      (use assms(1,2) y ys in \<open>auto simp: set_prev_def\<close>)
qed

lemma relink_final:
  assumes "heap_ok h" and "chain (Nodes h) a ys b" and "ys \<noteq> []" and "distinct (map fst ys)"
  obtains h' nd where "set_next h (final ys z) b' = Some h'" and "chain (Nodes h') a ys b'"
    and "Nodes h' = (Nodes h)(final ys z \<mapsto> nd)" and "heap_ok h'" and "Fresh h' = Fresh h"
proof -
  obtain y zs where ys: "ys = zs @ [y]" using assms(3) by (cases ys rule: rev_cases) auto
  have y: "Nodes h (fst y) = Some \<lparr>Value = snd y, Next = b, Prev = final zs a\<rparr>" "fst y \<notin> fst ` set zs"
    using assms(2,4) ys by auto
  let ?nd = "\<lparr>Value = snd y, Next = b', Prev = final zs a\<rparr>"
  show ?thesis
    by (rule that[of "store h (fst y) ?nd" ?nd])
      (use assms(1,2) y ys in \<open>auto simp: set_next_def\<close>)
qed

lemma chain_get_prev:
  "heap_ok h \<Longrightarrow> chain (Nodes h) a (x # xs) b \<Longrightarrow> get_prev h (fst x) = Some a"
  by (simp add: get_prev_def)

lemma chain_get_next:
  "heap_ok h \<Longrightarrow> chain (Nodes h) a (x # xs) b \<Longrightarrow> get_next h (fst x) = Some (first xs b)"
  by (simp add: get_next_def)

lemma chain_get_value:
  "heap_ok h \<Longrightarrow> chain (Nodes h) a (x # xs) b \<Longrightarrow> get_value h (fst x) = Some (snd x)"
  by (simp add: get_value_def)

lemma final_in: "xs \<noteq> [] \<Longrightarrow> final xs a \<in> fst ` set xs"
  by (simp add: final_def)

lemma first_in: "xs \<noteq> [] \<Longrightarrow> first xs a \<in> fst ` set xs"
  by (cases xs) auto

lemma first_nonempty: "xs \<noteq> [] \<Longrightarrow> first xs a = first xs b"
  by (cases xs) auto

lemma final_nonempty: "xs \<noteq> [] \<Longrightarrow> final xs a = final xs b"
  by (simp add: final_def)

end
