(* ===== verification/ListCore.thy ===== *)
theory ListCore
  imports ListHeap
begin

text \<open>
  The list structure of \<^verbatim>\<open>dev/src/lib/Agg/List.c\<close> (the THREADED build, as \<^verbatim>\<open>ThrList.c\<close> compiles
  it), its reader/writer lock, and the representation invariant of lists.
\<close>

section \<open>The list structure\<close>

text \<open>
  \<open>Cache\<close> is the node last reached by an index access and \<open>Index\<close> its 1-based position;
  \<open>Array\<close> is the index array: its first cell is the node of position \<open>Lower\<close>, its last one the
  node of position \<open>Upper\<close>. The code advances the array pointer (\<^verbatim>\<open>++List->Array\<close>) but never
  moves it back, so the model keeps the cells from the pointer on. \<open>Access\<close> counts the slow
  accesses left before the index array is built. \<open>Lock\<close> is 0 for a free lock, -1 for a
  writer, and the number of readers otherwise.
\<close>

record lst =
  Head :: ptr
  Tail :: ptr
  Cache :: ptr
  Array :: "ptr list option"
  Length :: nat
  Index :: nat
  Lower :: nat
  Upper :: nat
  Access :: nat
  Lock :: int

text \<open>
  \<^verbatim>\<open>RDLOCK\<close>, \<^verbatim>\<open>WRLOCK\<close>, \<^verbatim>\<open>UNLOCK\<close> as one thread sees them: asking for a lock that this thread
  already holds in a conflicting way never returns, and unlocking a free lock is undefined.
\<close>

definition rdlock :: "lst \<Rightarrow> lst option" where
  "rdlock l = (if Lock l < 0 then None else Some (l\<lparr>Lock := Lock l + 1\<rparr>))"

definition wrlock :: "lst \<Rightarrow> lst option" where
  "wrlock l = (if Lock l = 0 then Some (l\<lparr>Lock := -1\<rparr>) else None)"

definition unlock :: "lst \<Rightarrow> lst option" where
  "unlock l =
     (if Lock l = 0 then None
      else if Lock l < 0 then Some (l\<lparr>Lock := 0\<rparr>)
      else Some (l\<lparr>Lock := Lock l - 1\<rparr>))"

lemma unlock_simps [simp]:
  "Lock l = -1 \<Longrightarrow> unlock l = Some (l\<lparr>Lock := 0\<rparr>)"
  "Lock l = 1 \<Longrightarrow> unlock l = Some (l\<lparr>Lock := 0\<rparr>)"
  by (simp_all add: unlock_def)

lemma lock_simps [simp]:
  "Lock l = 0 \<Longrightarrow> wrlock l = Some (l\<lparr>Lock := -1\<rparr>)"
  "Lock l = 0 \<Longrightarrow> rdlock l = Some (l\<lparr>Lock := 1\<rparr>)"
  by (simp_all add: wrlock_def rdlock_def)

text \<open>\<^verbatim>\<open>new(_list)\<close>: zeroed memory.\<close>

definition zero_list :: lst where
  "zero_list = \<lparr>Head = 0, Tail = 0, Cache = 0, Array = None, Length = 0, Index = 0,
     Lower = 0, Upper = 0, Access = 0, Lock = 0\<rparr>"

section \<open>Representation invariant\<close>

definition cache_ok :: "lst \<Rightarrow> (ptr \<times> 'v) list \<Rightarrow> bool" where
  "cache_ok l xs \<longleftrightarrow>
     (if xs = [] then Cache l = 0 \<and> Index l \<le> 1
      else 1 \<le> Index l \<and> Index l \<le> length xs \<and> Cache l = fst (xs ! (Index l - 1)))"

definition window :: "ptr list \<Rightarrow> nat \<Rightarrow> nat \<Rightarrow> (ptr \<times> 'v) list \<Rightarrow> bool" where
  "window a lo up xs \<longleftrightarrow> 1 \<le> lo \<and> up \<le> length xs \<and>
     (\<forall>i. lo \<le> i \<and> i \<le> up \<longrightarrow> i - lo < length a \<and> a ! (i - lo) = fst (xs ! (i - 1)))"

definition array_ok :: "lst \<Rightarrow> (ptr \<times> 'v) list \<Rightarrow> bool" where
  "array_ok l xs \<longleftrightarrow> (\<forall>a. Array l = Some a \<longrightarrow> window a (Lower l) (Upper l) xs)"

text \<open>
  \<open>lbase h l xs\<close>: the nodes and values of \<open>l\<close> are \<open>xs\<close>, whatever its cache and lock;
  \<open>lrep h l xs\<close>: the cache is right too, whatever the lock;
  \<open>is_list h l vs\<close>: an unlocked list with the values \<open>vs\<close>.
\<close>

definition lbase :: "'v heap \<Rightarrow> lst \<Rightarrow> (ptr \<times> 'v) list \<Rightarrow> bool" where
  "lbase h l xs \<longleftrightarrow> heap_ok h \<and> chain (Nodes h) 0 xs 0 \<and> distinct (map fst xs) \<and>
     Head l = first xs 0 \<and> Tail l = final xs 0 \<and> Length l = length xs \<and> array_ok l xs"

definition lrep :: "'v heap \<Rightarrow> lst \<Rightarrow> (ptr \<times> 'v) list \<Rightarrow> bool" where
  "lrep h l xs \<longleftrightarrow> heap_ok h \<and> chain (Nodes h) 0 xs 0 \<and> distinct (map fst xs) \<and>
     Head l = first xs 0 \<and> Tail l = final xs 0 \<and> Length l = length xs \<and>
     cache_ok l xs \<and> array_ok l xs"

definition is_list :: "'v heap \<Rightarrow> lst \<Rightarrow> 'v list \<Rightarrow> bool" where
  "is_list h l vs \<longleftrightarrow> Lock l = 0 \<and> (\<exists>xs. lrep h l xs \<and> map snd xs = vs)"

text \<open>\<open>frame h h' S\<close>: an operation that took \<open>h\<close> to \<open>h'\<close> wrote at most the old nodes in \<open>S\<close>.\<close>

definition frame :: "'v heap \<Rightarrow> 'v heap \<Rightarrow> ptr set \<Rightarrow> bool" where
  "frame h h' S \<longleftrightarrow> Fresh h \<le> Fresh h' \<and> (\<forall>p. p < Fresh h \<longrightarrow> p \<notin> S \<longrightarrow> Nodes h' p = Nodes h p)"

lemma frame_refl [simp]: "frame h h S"
  by (simp add: frame_def)

lemma frame_trans: "frame h h' S \<Longrightarrow> frame h' h'' T \<Longrightarrow> T \<subseteq> S \<union> {Fresh h..} \<Longrightarrow> frame h h'' S"
  unfolding frame_def using order_trans less_le_trans
  by (metis UnE atLeast_iff linorder_not_le subset_iff)

lemma cache_ok_Lock [simp]: "cache_ok (l\<lparr>Lock := k\<rparr>) xs = cache_ok l xs"
  by (simp add: cache_ok_def)

lemma array_ok_Lock [simp]: "array_ok (l\<lparr>Lock := k\<rparr>) xs = array_ok l xs"
  by (simp add: array_ok_def)

lemma lrep_Lock [simp]: "lrep h (l\<lparr>Lock := k\<rparr>) xs = lrep h l xs"
  by (simp add: lrep_def)

lemma array_ok_Access [simp]: "array_ok (l\<lparr>Access := k\<rparr>) xs = array_ok l xs"
  by (simp add: array_ok_def)

lemma cache_ok_Access [simp]: "cache_ok (l\<lparr>Access := k\<rparr>) xs = cache_ok l xs"
  by (simp add: cache_ok_def)

lemma array_ok_None [simp]: "Array l = None \<Longrightarrow> array_ok l xs"
  by (simp add: array_ok_def)

lemma lrep_base: "lrep h l xs \<longleftrightarrow> lbase h l xs \<and> cache_ok l xs"
  by (auto simp: lrep_def lbase_def)

lemma lrep_lbase: "lrep h l xs \<Longrightarrow> lbase h l xs"
  by (simp add: lrep_base)

text \<open>The reset that ends most operations makes the cache right whatever it was.\<close>

lemma lbase_recache [simp]:
  "lbase h l xs \<Longrightarrow> lrep h (l\<lparr>Index := 1, Cache := Head l, Access := k\<rparr>) xs"
  by (auto simp: lrep_def lbase_def cache_ok_def array_ok_def first_nth Suc_le_eq)

lemma lbase_length: "lbase h l xs \<Longrightarrow> length xs < max_nodes"
  unfolding lbase_def using chain_length by blast

lemma lbase_Head_null: "lbase h l xs \<Longrightarrow> Head l = 0 \<longleftrightarrow> xs = []"
  using first_null[of h 0 xs 0] by (simp add: lbase_def)

lemma lbase_Tail_null: "lbase h l xs \<Longrightarrow> Tail l = 0 \<longleftrightarrow> xs = []"
  using final_null[of h 0 xs 0] by (simp add: lbase_def)

lemma lbase_Lock [simp]: "lbase h (l\<lparr>Lock := k\<rparr>) xs = lbase h l xs"
  by (simp add: lbase_def)

lemma lrep_heap_ok: "lrep h l xs \<Longrightarrow> heap_ok h"
  by (simp add: lrep_def)

lemma lrep_length: "lrep h l xs \<Longrightarrow> length xs < max_nodes"
  unfolding lrep_def using chain_length by blast

lemma lrep_dom:
  "lrep h l xs \<Longrightarrow> p \<in> fst ` set xs \<Longrightarrow> 0 < p \<and> p < Fresh h"
  unfolding lrep_def using chain_dom heap_ok_dom by (metis imageE)

lemma lrep_Head_null: "lrep h l xs \<Longrightarrow> Head l = 0 \<longleftrightarrow> xs = []"
  using first_null[of h 0 xs 0] by (simp add: lrep_def)

lemma lrep_Tail_null: "lrep h l xs \<Longrightarrow> Tail l = 0 \<longleftrightarrow> xs = []"
  using final_null[of h 0 xs 0] by (simp add: lrep_def)

lemma lrep_cong:
  assumes "lrep h l xs" and "heap_ok h'" and "\<And>p. p \<in> fst ` set xs \<Longrightarrow> Nodes h' p = Nodes h p"
  shows "lrep h' l xs"
  using assms chain_cong[of xs "Nodes h'" "Nodes h"] by (auto simp: lrep_def)

text \<open>Lists whose nodes an operation does not own keep their contents.\<close>

lemma lrep_frame:
  assumes "lrep h l xs" and "frame h h' S" and "heap_ok h'" and "fst ` set xs \<inter> S = {}"
  shows "lrep h' l xs"
proof (rule lrep_cong[OF assms(1,3)])
  fix p assume p: "p \<in> fst ` set xs"
  with assms(4) lrep_dom[OF assms(1) p] assms(2) show "Nodes h' p = Nodes h p"
    by (auto simp: frame_def)
qed

lemma is_listI: "Lock l = 0 \<Longrightarrow> lrep h l xs \<Longrightarrow> map snd xs = vs \<Longrightarrow> is_list h l vs"
  by (auto simp: is_list_def)

lemma is_listE:
  assumes "is_list h l vs"
  obtains xs where "Lock l = 0" and "lrep h l xs" and "map snd xs = vs"
  using assms by (auto simp: is_list_def)

lemma is_list_length: "is_list h l vs \<Longrightarrow> Length l = length vs"
  by (auto simp: is_list_def lrep_def)

text \<open>\<open>rep h l xs\<close>: an unlocked list, with its nodes; what the operations keep.\<close>

definition rep :: "'v heap \<Rightarrow> lst \<Rightarrow> (ptr \<times> 'v) list \<Rightarrow> bool" where
  "rep h l xs \<longleftrightarrow> lrep h l xs \<and> Lock l = 0"

lemma is_list_rep: "is_list h l vs \<longleftrightarrow> (\<exists>xs. rep h l xs \<and> map snd xs = vs)"
  by (auto simp: is_list_def rep_def)

lemma rep_Lock0 [simp]: "rep h (l\<lparr>Lock := 0\<rparr>) xs = lrep h l xs"
  by (simp add: rep_def)

lemma rep_frame:
  "rep h l xs \<Longrightarrow> frame h h' S \<Longrightarrow> heap_ok h' \<Longrightarrow> fst ` set xs \<inter> S = {} \<Longrightarrow> rep h' l xs"
  using lrep_frame by (auto simp: rep_def)

lemma frame_step:
  assumes "frame h h1 S" and "frame h1 h' T" and "T \<subseteq> S \<union> {Fresh h..}"
  shows "frame h h' S"
  using assms by (rule frame_trans)

section \<open>A sample list\<close>

text \<open>The list of 10, 20, 30 in an otherwise empty memory, for the concrete instances below.\<close>

definition sample_heap :: "nat heap" where
  "sample_heap = \<lparr>Nodes = [1 \<mapsto> \<lparr>Value = 10, Next = 2, Prev = 0\<rparr>,
      2 \<mapsto> \<lparr>Value = 20, Next = 3, Prev = 1\<rparr>, 3 \<mapsto> \<lparr>Value = 30, Next = 0, Prev = 2\<rparr>], Fresh = 4\<rparr>"

definition sample_list :: lst where
  "sample_list = zero_list\<lparr>Head := 1, Tail := 3, Cache := 1, Length := 3, Index := 1, Access := 4\<rparr>"

abbreviation sample_nodes :: "(ptr \<times> nat) list" where
  "sample_nodes \<equiv> [(1, 10), (2, 20), (3, 30)]"

lemma sample_rep: "rep sample_heap sample_list sample_nodes"
  by (auto simp: rep_def lrep_def sample_heap_def sample_list_def zero_list_def heap_ok_def
      max_nodes_def cache_ok_def split: if_splits)

lemma sample_room [simp]: "n \<le> 357913937 \<Longrightarrow> room sample_heap n"
  by (simp add: room_def sample_heap_def max_nodes_def)

lemma sample_fields [simp]:
  "Array sample_list = None" "Lock sample_list = 0" "Length sample_list = 3"
  by (simp_all add: sample_list_def zero_list_def)

end
