(* ===== verification/ListBuild.thy ===== *)
theory ListBuild
  imports ListCore
begin

text \<open>
  The operations of \<^verbatim>\<open>dev/src/lib/Agg/List.c\<close> that make a list: \<^verbatim>\<open>_new0\<close>, \<^verbatim>\<open>_new\<close>, \<^verbatim>\<open>_newv\<close>,
  \<^verbatim>\<open>New\<close>, \<^verbatim>\<open>Make\<close>, \<^verbatim>\<open>empty\<close>, \<^verbatim>\<open>copy\<close> and \<^verbatim>\<open>+\<close>. All of them grow a chain of new nodes at its end;
  the lemmas reduce the loops to \<open>append_nodes\<close> and its specification.
\<close>

section \<open>Definitions\<close>

text \<open>\<^verbatim>\<open>_node *Prev = Node; Node = new(_node); (Node->Prev = Prev)->Next = Node; Node->Value = v\<close>\<close>

definition link_new :: "'v heap \<Rightarrow> ptr \<Rightarrow> 'v \<Rightarrow> (ptr \<times> 'v heap) option" where
  "link_new h node v = do {
     (q, h) \<leftarrow> new_node h v;
     h \<leftarrow> set_prev h q node;
     h \<leftarrow> set_next h node q;
     Some (q, h) }"

fun append_nodes :: "'v heap \<Rightarrow> ptr \<Rightarrow> 'v list \<Rightarrow> (ptr \<times> 'v heap) option" where
  "append_nodes h node [] = Some (node, h)"
| "append_nodes h node (v # vs) = do {
     (q, h) \<leftarrow> link_new h node v;
     append_nodes h q vs }"

definition new0_list :: lst where
  "new0_list = zero_list\<lparr>Access := 4\<rparr>"

definition newv_list :: "'v heap \<Rightarrow> 'v list \<Rightarrow> (lst \<times> 'v heap) option" where
  "newv_list h vs =
     (case vs of [] \<Rightarrow> Some (zero_list\<lparr>Access := 4\<rparr>, h)
      | v # vs' \<Rightarrow> do {
          (p, h) \<leftarrow> new_node h v;
          (t, h) \<leftarrow> append_nodes h p vs';
          Some (zero_list\<lparr>Head := p, Cache := p, Index := 1, Tail := t,
                  Length := length vs, Access := 4\<rparr>, h) })"

text \<open>The variadic \<^verbatim>\<open>_new\<close> and the Wrapl function \<^verbatim>\<open>Make\<close> have the body of \<^verbatim>\<open>_newv\<close>.\<close>

definition new_list :: "'v heap \<Rightarrow> 'v list \<Rightarrow> (lst \<times> 'v heap) option" where
  "new_list h vs = newv_list h vs"

definition Make :: "'v heap \<Rightarrow> 'v list \<Rightarrow> (lst \<times> 'v heap) option" where
  "Make h vs = newv_list h vs"

text \<open>
  \<^verbatim>\<open>New\<close>: \<open>None\<close> for no argument, else the size and the value (\<^verbatim>\<open>NIL\<close> unless a second
  argument is given). The first node is made before the size is looked at.
\<close>

definition New_list :: "'v heap \<Rightarrow> 'v \<Rightarrow> (int \<times> 'v option) option \<Rightarrow> (lst \<times> 'v heap) option" where
  "New_list h nil args =
     (case args of None \<Rightarrow> Some (zero_list\<lparr>Access := 4\<rparr>, h)
      | Some (sz, arg) \<Rightarrow> do {
          let v = (case arg of None \<Rightarrow> nil | Some x \<Rightarrow> x);
          (p, h) \<leftarrow> new_node h v;
          (t, h) \<leftarrow> append_nodes h p (replicate (nat (sz - 1)) v);
          Some (zero_list\<lparr>Head := p, Cache := p, Index := 1, Tail := t,
                  Length := ul sz, Access := 4\<rparr>, h) })"

definition empty_fields :: "lst \<Rightarrow> lst" where
  "empty_fields l = l\<lparr>Head := 0, Tail := 0, Cache := 0, Index := 0, Lower := 0, Upper := 0,
     Array := None, Length := 0, Access := 4\<rparr>"

definition empty_list :: "lst \<Rightarrow> lst option" where
  "empty_list l = do { l \<leftarrow> wrlock l; unlock (empty_fields l) }"

definition empty_list_c :: "lst \<Rightarrow> lst option" where
  "empty_list_c l = do { l \<leftarrow> wrlock l; unlock (empty_fields l) }"

text \<open>\<^verbatim>\<open>while (Temp = Temp->Next) {...}\<close> and \<^verbatim>\<open>for (; Temp; Temp = Temp->Next) {...}\<close>.\<close>

partial_function (option) copy_rest :: "'v heap \<Rightarrow> ptr \<Rightarrow> ptr \<Rightarrow> (ptr \<times> 'v heap) option" where
  "copy_rest h node temp = do {
     t \<leftarrow> get_next h temp;
     if t = 0 then Some (node, h)
     else do {
       v \<leftarrow> get_value h t;
       (q, h) \<leftarrow> link_new h node v;
       copy_rest h q t } }"

partial_function (option) copy_all :: "'v heap \<Rightarrow> ptr \<Rightarrow> ptr \<Rightarrow> (ptr \<times> 'v heap) option" where
  "copy_all h node t =
     (if t = 0 then Some (node, h)
      else do {
        v \<leftarrow> get_value h t;
        (q, h) \<leftarrow> link_new h node v;
        t \<leftarrow> get_next h t;
        copy_all h q t })"

definition copy_list :: "'v heap \<Rightarrow> lst \<Rightarrow> (lst \<times> lst \<times> 'v heap) option" where
  "copy_list h l0 = do {
     l0 \<leftarrow> rdlock l0;
     (l, h) \<leftarrow>
       (if Head l0 \<noteq> 0 then do {
          v \<leftarrow> get_value h (Head l0);
          (p, h) \<leftarrow> new_node h v;
          (t, h) \<leftarrow> copy_rest h p (Head l0);
          Some (zero_list\<lparr>Head := p, Cache := t, Index := Length l0, Tail := t\<rparr>, h) }
        else Some (zero_list, h));
     let l = l\<lparr>Length := Length l0\<rparr>;
     l0 \<leftarrow> unlock l0;
     Some (l\<lparr>Access := 4\<rparr>, l0, h) }"

definition concat_list :: "'v heap \<Rightarrow> lst \<Rightarrow> lst \<Rightarrow> (lst \<times> lst \<times> lst \<times> 'v heap) option" where
  "concat_list h l0 l1 = do {
     l0 \<leftarrow> rdlock l0;
     l1 \<leftarrow> rdlock l1;
     (l, h) \<leftarrow>
       (if Head l0 \<noteq> 0 then do {
          v \<leftarrow> get_value h (Head l0);
          (p, h) \<leftarrow> new_node h v;
          (c, h) \<leftarrow> copy_rest h p (Head l0);
          (t, h) \<leftarrow> copy_all h c (Head l1);
          Some (zero_list\<lparr>Head := p, Cache := c, Index := Length l0, Tail := t\<rparr>, h) }
        else if Head l1 \<noteq> 0 then do {
          v \<leftarrow> get_value h (Head l1);
          (p, h) \<leftarrow> new_node h v;
          (t, h) \<leftarrow> copy_rest h p (Head l1);
          Some (zero_list\<lparr>Head := p, Cache := p, Index := 1, Tail := t\<rparr>, h) }
        else Some (zero_list, h));
     let l = l\<lparr>Length := u32 (Length l0 + Length l1)\<rparr>;
     l1 \<leftarrow> unlock l1;
     l0 \<leftarrow> unlock l0;
     Some (l\<lparr>Access := 4\<rparr>, l0, l1, h) }"

section \<open>Growing a chain at its end\<close>

text \<open>\<open>makes h h' l vs\<close>: \<open>l\<close> is a new list of the values \<open>vs\<close>, made of new nodes only.\<close>

definition makes :: "'v heap \<Rightarrow> 'v heap \<Rightarrow> lst \<Rightarrow> 'v list \<Rightarrow> bool" where
  "makes h h' l vs \<longleftrightarrow> Lock l = 0 \<and> Access l = 4 \<and> frame h h' {} \<and>
     (\<exists>xs. lrep h' l xs \<and> map snd xs = vs \<and> (\<forall>p \<in> fst ` set xs. Fresh h \<le> p))"

lemma makes_is_list: "makes h h' l vs \<Longrightarrow> is_list h' l vs"
  by (auto simp: makes_def is_list_def)

lemma makes_heap_ok: "makes h h' l vs \<Longrightarrow> heap_ok h'"
  by (auto simp: makes_def lrep_def)

lemma makes_keeps:
  assumes "makes h h' l vs" and "lrep h l2 xs"
  shows "lrep h' l2 xs"
proof (rule lrep_frame[OF assms(2)])
  show "frame h h' {}" using assms(1) by (simp add: makes_def)
  show "heap_ok h'" by (rule makes_heap_ok[OF assms(1)])
qed simp

lemma new_node_spec:
  assumes "heap_ok h" and "room h (Suc n)"
  obtains h' where "new_node h v = Some (Fresh h, h')"
    and "Nodes h' = (Nodes h)(Fresh h \<mapsto> \<lparr>Value = v, Next = 0, Prev = 0\<rparr>)"
    and "Fresh h' = Suc (Fresh h)" and "heap_ok h'" and "room h' n" and "frame h h' {}"
    and "Fresh h \<noteq> 0"
proof
  let ?h = "(store h (Fresh h) \<lparr>Value = v, Next = 0, Prev = 0\<rparr>)\<lparr>Fresh := Suc (Fresh h)\<rparr>"
  show "new_node h v = Some (Fresh h, ?h)" using assms(2) by (simp add: new_node_def room_def)
  show "heap_ok ?h" using assms by (simp add: room_def)
  show "room ?h n" using assms(2) by (simp add: room_def)
  show "Fresh h \<noteq> 0" using assms(1) by (simp add: heap_ok_def)
qed (auto simp: frame_def)

lemma link_new_spec:
  assumes "heap_ok h" and "room h (Suc n)"
    and p: "Nodes h p = Some \<lparr>Value = v, Next = b, Prev = a\<rparr>"
  obtains h' where "link_new h p w = Some (Fresh h, h')"
    and "Nodes h' = (Nodes h)(p \<mapsto> \<lparr>Value = v, Next = Fresh h, Prev = a\<rparr>,
                              Fresh h \<mapsto> \<lparr>Value = w, Next = 0, Prev = p\<rparr>)"
    and "Fresh h' = Suc (Fresh h)" and "heap_ok h'" and "room h' n" and "frame h h' {p}"
proof -
  from new_node_spec[OF assms(1,2), of w] obtain h1 where
    h1: "new_node h w = Some (Fresh h, h1)" "heap_ok h1" "room h1 n" "frame h h1 {}"
      "Nodes h1 = (Nodes h)(Fresh h \<mapsto> \<lparr>Value = w, Next = 0, Prev = 0\<rparr>)"
      "Fresh h1 = Suc (Fresh h)" by blast
  have ne: "p \<noteq> Fresh h" using heap_ok_dom[OF assms(1) p] by simp
  let ?h = "store (store h1 (Fresh h) \<lparr>Value = w, Next = 0, Prev = p\<rparr>)
              p \<lparr>Value = v, Next = Fresh h, Prev = a\<rparr>"
  have ok: "heap_ok (store h1 (Fresh h) \<lparr>Value = w, Next = 0, Prev = p\<rparr>)"
    using h1 by (intro heap_ok_store) auto
  show ?thesis
  proof (rule that[of ?h])
    show "link_new h p w = Some (Fresh h, ?h)"
      using h1 ne p ok by (simp add: link_new_def set_prev_def set_next_def)
    show "heap_ok ?h" using ok ne p h1 by (intro heap_ok_store) auto
    show "room ?h n" using h1 by (simp add: room_def)
    show "frame h ?h {p}" using h1 ne by (auto simp: frame_def)
  qed (use h1 ne in auto)
qed

text \<open>
  The allocator hands out consecutive addresses, so the nodes of a chain that grew by \<open>vs\<close>
  are the next \<open>length vs\<close> ones.
\<close>

definition fresh_nodes :: "'v heap \<Rightarrow> 'v list \<Rightarrow> (ptr \<times> 'v) list" where
  "fresh_nodes h vs = zip [Fresh h..<Fresh h + length vs] vs"

lemma fresh_nodes_simps [simp]:
  "map snd (fresh_nodes h vs) = vs"
  "map fst (fresh_nodes h vs) = [Fresh h..<Fresh h + length vs]"
  "length (fresh_nodes h vs) = length vs"
  "fresh_nodes h [] = []"
  by (simp_all add: fresh_nodes_def)

lemma fresh_nodes_nil [simp]: "fresh_nodes h vs = [] \<longleftrightarrow> vs = []"
  by (metis fresh_nodes_simps(3) length_0_conv)

lemma fresh_nodes_nth [simp]: "i < length vs \<Longrightarrow> fst (fresh_nodes h vs ! i) = Fresh h + i"
  by (simp add: fresh_nodes_def)

lemma fresh_nodes_Cons:
  "Fresh h' = Suc (Fresh h) \<Longrightarrow> fresh_nodes h (v # vs) = (Fresh h, v) # fresh_nodes h' vs"
  by (simp add: fresh_nodes_def upt_conv_Cons del: upt_Suc)

lemma fresh_nodes_ge: "q \<in> fst ` set (fresh_nodes h vs) \<Longrightarrow> Fresh h \<le> q"
  by (metis atLeastLessThan_iff fresh_nodes_simps(2) list.set_map set_upt)

lemma append_nodes_spec:
  assumes "heap_ok h" and "room h (length vs)"
    and "Nodes h p = Some \<lparr>Value = v, Next = 0, Prev = a\<rparr>"
  shows "\<exists>h'. append_nodes h p vs = Some (final (fresh_nodes h vs) p, h') \<and>
    chain (Nodes h') a ((p, v) # fresh_nodes h vs) 0 \<and> heap_ok h' \<and>
    Fresh h' = Fresh h + length vs \<and> frame h h' {p}"
  using assms
proof (induction vs arbitrary: h p v a)
  case Nil
  then show ?case by (simp add: fresh_nodes_def)
next
  case (Cons w vs)
  have rm: "room h (Suc (length vs))" using Cons.prems(2) by simp
  from link_new_spec[OF Cons.prems(1) rm Cons.prems(3), of w] obtain h1 where
    h1: "link_new h p w = Some (Fresh h, h1)"
      "Nodes h1 = (Nodes h)(p \<mapsto> \<lparr>Value = v, Next = Fresh h, Prev = a\<rparr>,
                            Fresh h \<mapsto> \<lparr>Value = w, Next = 0, Prev = p\<rparr>)"
      "Fresh h1 = Suc (Fresh h)" "heap_ok h1" "room h1 (length vs)" "frame h h1 {p}" by blast
  have ne: "p < Fresh h" using heap_ok_dom[OF Cons.prems(1,3)] by simp
  from Cons.IH[OF h1(4,5), of "Fresh h" w p] h1(2) obtain h' where
    h': "append_nodes h1 (Fresh h) vs = Some (final (fresh_nodes h1 vs) (Fresh h), h')"
      "chain (Nodes h') p ((Fresh h, w) # fresh_nodes h1 vs) 0" "heap_ok h'"
      "Fresh h' = Fresh h1 + length vs" "frame h1 h' {Fresh h}" by auto
  have "Nodes h' p = Nodes h1 p" using h'(5) h1(3) ne by (auto simp: frame_def)
  then have "chain (Nodes h') a ((p, v) # (Fresh h, w) # fresh_nodes h1 vs) 0"
    using h'(2) h1(2) ne by auto
  moreover have "frame h h' {p}" using h1(6) h'(5) by (rule frame_trans) auto
  ultimately show ?case using h1 h'
    by (simp add: fresh_nodes_Cons[OF h1(3)] final_Cons)
qed

lemma copy_all_append:
  assumes "heap_ok h" and "room h (length ys)" and "chain (Nodes h) b ys 0"
    and "Nodes h p = Some \<lparr>Value = v, Next = 0, Prev = a\<rparr>" and "p \<notin> fst ` set ys"
  shows "copy_all h p (first ys 0) = append_nodes h p (map snd ys)"
  using assms
proof (induction ys arbitrary: h p v a b)
  case Nil
  then show ?case by (simp add: copy_all.simps)
next
  case (Cons y ys)
  have rm: "room h (Suc (length ys))" using Cons.prems(2) by simp
  from link_new_spec[OF Cons.prems(1) rm Cons.prems(4), of "snd y"] obtain h1 where
    h1: "link_new h p (snd y) = Some (Fresh h, h1)"
      "Nodes h1 = (Nodes h)(p \<mapsto> \<lparr>Value = v, Next = Fresh h, Prev = a\<rparr>,
                            Fresh h \<mapsto> \<lparr>Value = snd y, Next = 0, Prev = p\<rparr>)"
      "Fresh h1 = Suc (Fresh h)" "heap_ok h1" "room h1 (length ys)" by blast
  have F: "Fresh h \<notin> fst ` set (y # ys)"
    using chain_fresh[OF Cons.prems(1,3)] .
  have ch: "chain (Nodes h1) b (y # ys) 0"
    unfolding h1(2) using Cons.prems(3,5) F by (simp del: chain.simps)
  have "copy_all h1 (Fresh h) (first ys 0) = append_nodes h1 (Fresh h) (map snd ys)"
  proof (rule Cons.IH[OF h1(4,5)])
    show "chain (Nodes h1) (fst y) ys 0" using ch by simp
    show "Nodes h1 (Fresh h) = Some \<lparr>Value = snd y, Next = 0, Prev = p\<rparr>" by (simp add: h1(2))
    show "Fresh h \<notin> fst ` set ys" using F by simp
  qed
  moreover have "fst y \<noteq> 0" using Cons.prems(1,3) chain_nonnull by fastforce
  ultimately show ?case
    using h1 ch Cons.prems(1,3)
    by (subst copy_all.simps) (simp add: get_value_def get_next_def)
qed

lemma copy_rest_all:
  assumes "heap_ok h" and "room h (length ys)" and "chain (Nodes h) b (y # ys) 0"
    and "Nodes h p = Some \<lparr>Value = v, Next = 0, Prev = a\<rparr>" and "p \<notin> fst ` set (y # ys)"
  shows "copy_rest h p (fst y) = append_nodes h p (map snd ys)"
  using assms
proof (induction ys arbitrary: y h p v a b)
  case Nil
  then show ?case by (subst copy_rest.simps) (simp add: get_next_def)
next
  case (Cons z ys)
  have rm: "room h (Suc (length ys))" using Cons.prems(2) by simp
  from link_new_spec[OF Cons.prems(1) rm Cons.prems(4), of "snd z"] obtain h1 where
    h1: "link_new h p (snd z) = Some (Fresh h, h1)"
      "Nodes h1 = (Nodes h)(p \<mapsto> \<lparr>Value = v, Next = Fresh h, Prev = a\<rparr>,
                            Fresh h \<mapsto> \<lparr>Value = snd z, Next = 0, Prev = p\<rparr>)"
      "Fresh h1 = Suc (Fresh h)" "heap_ok h1" "room h1 (length ys)" by blast
  have F: "Fresh h \<notin> fst ` set (y # z # ys)"
    using chain_fresh[OF Cons.prems(1,3)] .
  have ch: "chain (Nodes h1) (fst y) (z # ys) 0"
    unfolding h1(2) using conjunct2[OF iffD1[OF chain.simps(2) Cons.prems(3)]] Cons.prems(5) F
    by (simp del: chain.simps)
  have "copy_rest h1 (Fresh h) (fst z) = append_nodes h1 (Fresh h) (map snd ys)"
    by (rule Cons.IH[OF h1(4,5) ch, of _ "snd z" p]) (use h1(2) F in auto)
  moreover have "fst z \<noteq> 0" using Cons.prems(1,3) chain_nonnull by fastforce
  ultimately show ?case
    using h1 Cons.prems(1,3)
    by (subst copy_rest.simps) (simp add: get_value_def get_next_def)
qed


section \<open>What the constructors make\<close>

text \<open>\<open>grown h h' vs\<close>: the heap \<open>h'\<close> is \<open>h\<close> and a new closed chain of the values \<open>vs\<close>.\<close>

definition grown :: "'v heap \<Rightarrow> 'v heap \<Rightarrow> 'v list \<Rightarrow> bool" where
  "grown h h' vs \<longleftrightarrow> chain (Nodes h') 0 (fresh_nodes h vs) 0 \<and> heap_ok h' \<and> frame h h' {} \<and>
     Fresh h' = Fresh h + length vs"

lemma grown_nil [simp]: "heap_ok h \<Longrightarrow> grown h h []"
  by (simp add: grown_def fresh_nodes_def)

lemma build_nodes:
  assumes "heap_ok h" and "room h (Suc (length vs))"
  obtains h1 h' where "new_node h v = Some (Fresh h, h1)"
    and "append_nodes h1 (Fresh h) vs = Some (Fresh h + length vs, h')"
    and "grown h h' (v # vs)" and "heap_ok h1" and "room h1 (length vs)" and "frame h h1 {}"
    and "Nodes h1 (Fresh h) = Some \<lparr>Value = v, Next = 0, Prev = 0\<rparr>"
    and "Fresh h1 = Suc (Fresh h)"
proof -
  from new_node_spec[OF assms, of v] obtain h1 where
    h1: "new_node h v = Some (Fresh h, h1)"
      "Nodes h1 = (Nodes h)(Fresh h \<mapsto> \<lparr>Value = v, Next = 0, Prev = 0\<rparr>)"
      "Fresh h1 = Suc (Fresh h)" "heap_ok h1" "room h1 (length vs)" "frame h h1 {}" by blast
  from append_nodes_spec[OF h1(4,5), of "Fresh h" v 0] h1(2) obtain h' where
    h': "append_nodes h1 (Fresh h) vs = Some (final (fresh_nodes h1 vs) (Fresh h), h')"
      "chain (Nodes h') 0 ((Fresh h, v) # fresh_nodes h1 vs) 0" "heap_ok h'"
      "Fresh h' = Fresh h1 + length vs" "frame h1 h' {Fresh h}" by auto
  have "final (fresh_nodes h1 vs) (Fresh h) = Fresh h + length vs"
    using h1(3) by (cases "vs = []") (simp_all add: final_nth)
  moreover have "frame h h' {}" using h1(6) h'(5) by (rule frame_trans) auto
  ultimately show ?thesis using h1 h'
    by (intro that[of h1 h']) (simp_all add: grown_def fresh_nodes_Cons[OF h1(3)])
qed

lemma grown_makes:
  assumes "grown h h' vs" and "Length l = length vs" and "Array l = None"
    and "Lock l = 0" and "Access l = 4"
    and "if vs = [] then Head l = 0 \<and> Tail l = 0 \<and> Cache l = 0 \<and> Index l \<le> 1
         else Head l = Fresh h \<and> Tail l = Fresh h + length vs - 1 \<and>
              1 \<le> Index l \<and> Index l \<le> length vs \<and> Cache l = Fresh h + Index l - 1"
  shows "makes h h' l vs"
proof -
  have "lrep h' l (fresh_nodes h vs)"
    using assms by (cases "vs = []")
      (auto simp: grown_def lrep_def cache_ok_def first_nth final_nth)
  moreover have "\<forall>p \<in> fst ` set (fresh_nodes h vs). Fresh h \<le> p" using fresh_nodes_ge by blast
  ultimately show ?thesis using assms(1,4,5) fresh_nodes_simps(1)
    unfolding makes_def grown_def by blast
qed

lemma newv_list_spec:
  assumes "heap_ok h" and "room h (length vs)"
  shows "\<exists>l h'. newv_list h vs = Some (l, h') \<and> makes h h' l vs"
proof (cases vs)
  case Nil
  then show ?thesis using assms(1)
    by (auto simp: newv_list_def zero_list_def intro!: grown_makes)
next
  case (Cons v vs')
  with assms(2) have "room h (Suc (length vs'))" by simp
  from build_nodes[OF assms(1) this, of v] obtain h1 h' where
    "new_node h v = Some (Fresh h, h1)" "grown h h' (v # vs')"
    "append_nodes h1 (Fresh h) vs' = Some (Fresh h + length vs', h')" by blast
  then show ?thesis using Cons
    by (auto simp: newv_list_def zero_list_def intro!: grown_makes)
qed

text \<open>\<^verbatim>\<open>New\<close> makes a list of \<open>n\<close> equal elements, if \<open>n\<close> is positive.\<close>

lemma New_list_spec:
  assumes "heap_ok h" and "room h n" and "0 < n"
  shows "\<exists>l h'. New_list h nil (Some (int n, arg)) = Some (l, h') \<and>
     makes h h' l (replicate n (case arg of None \<Rightarrow> nil | Some v \<Rightarrow> v))"
proof -
  let ?v = "case arg of None \<Rightarrow> nil | Some v \<Rightarrow> v"
  from assms(3) obtain k where k: "n = Suc k" by (cases n) auto
  with assms(2) have "room h (Suc (length (replicate k ?v)))" by simp
  from build_nodes[OF assms(1) this, of ?v] obtain h1 h' where
    "new_node h ?v = Some (Fresh h, h1)" "grown h h' (?v # replicate k ?v)"
    "append_nodes h1 (Fresh h) (replicate k ?v) = Some (Fresh h + length (replicate k ?v), h')"
    by blast
  moreover have "n < 4294967296" using assms(1,2) by (simp add: heap_ok_def room_def max_nodes_def)
  ultimately show ?thesis using k
    by (auto simp: New_list_def zero_list_def intro!: grown_makes)
qed

text \<open>
  For a size below 1 it still makes one node: a list of length 0 that holds one, which no
  sequence of values represents.
\<close>

lemma New_list_zero:
  assumes "heap_ok h" and "room h 1"
  shows "\<exists>l h'. New_list h nil (Some (0, arg)) = Some (l, h') \<and>
     Length l = 0 \<and> Head l \<noteq> 0 \<and> (\<forall>vs. \<not> is_list h' l vs)"
proof -
  let ?v = "case arg of None \<Rightarrow> nil | Some v \<Rightarrow> v"
  from assms(2) have "room h (Suc (length ([] :: 'a list)))" by simp
  from build_nodes[OF assms(1) this, of ?v] obtain h1 where
    n: "new_node h ?v = Some (Fresh h, h1)" by auto
  have "Fresh h \<noteq> 0" using assms(1) by (simp add: heap_ok_def)
  with n show ?thesis
    by (auto simp: New_list_def zero_list_def is_list_def lrep_def)
qed

lemma copy_list_spec:
  assumes "lrep h l0 xs" and "Lock l0 = 0" and "room h (length xs)"
  shows "\<exists>l h'. copy_list h l0 = Some (l, l0, h') \<and> makes h h' l (map snd xs)"
proof (cases xs)
  case Nil
  then show ?thesis using assms lrep_Head_null[OF assms(1)]
    by (auto simp: copy_list_def zero_list_def lrep_def intro!: grown_makes)
next
  case (Cons x ys)
  have ok: "heap_ok h" using assms(1) by (simp add: lrep_def)
  have rm: "room h (Suc (length (map snd ys)))" using assms(3) Cons by simp
  from build_nodes[OF ok rm, of "snd x"] obtain h1 h' where
    h1: "new_node h (snd x) = Some (Fresh h, h1)" "grown h h' (snd x # map snd ys)"
      "append_nodes h1 (Fresh h) (map snd ys) = Some (Fresh h + length (map snd ys), h')"
      "heap_ok h1" "room h1 (length (map snd ys))" "frame h h1 {}"
      "Nodes h1 (Fresh h) = Some \<lparr>Value = snd x, Next = 0, Prev = 0\<rparr>" by blast
  have ch: "chain (Nodes h1) 0 (x # ys) 0"
    using lrep_frame[OF assms(1) h1(6,4)] Cons by (simp add: lrep_def)
  have "copy_rest h1 (Fresh h) (fst x) = append_nodes h1 (Fresh h) (map snd ys)"
    using h1(4,5,7) ch chain_fresh[OF ok, of 0 xs 0] assms(1) Cons
    by (intro copy_rest_all[where b = 0]) (auto simp: lrep_def)
  moreover have "Head l0 = fst x" "Head l0 \<noteq> 0" "Nodes h (fst x) = Some \<lparr>Value = snd x, Next = first ys 0, Prev = 0\<rparr>"
    "Length l0 = Suc (length ys)"
    using assms(1) lrep_Head_null[OF assms(1)] Cons by (auto simp: lrep_def)
  ultimately show ?thesis using h1 Cons assms(2) ok
    by (auto simp: copy_list_def get_value_def zero_list_def intro!: grown_makes)
qed

lemma append_nodes_append:
  "append_nodes h p (us @ vs) = do { (c, h) \<leftarrow> append_nodes h p us; append_nodes h c vs }"
  by (induction us arbitrary: h p) (auto split: bind_splits)

lemma chain_last:
  "chain m a xs b \<Longrightarrow> xs \<noteq> [] \<Longrightarrow> \<exists>v c. m (final xs a) = Some \<lparr>Value = v, Next = b, Prev = c\<rparr>"
  by (cases xs rule: rev_cases) auto

text \<open>The concatenation starts as a copy of the first list and goes on with the second.\<close>

lemma concat_copy:
  assumes "heap_ok h" and "lrep h l0 (x # xs)" and "lrep h l1 ys"
    and "room h (Suc (length xs + length ys))"
  obtains h1 h2 h' where "new_node h (snd x) = Some (Fresh h, h1)"
    and "copy_rest h1 (Fresh h) (fst x) = Some (Fresh h + length xs, h2)"
    and "copy_all h2 (Fresh h + length xs) (first ys 0) = Some (Fresh h + (length xs + length ys), h')"
    and "grown h h' (snd x # map snd (xs @ ys))"
proof -
  let ?us = "map snd xs" and ?vs = "map snd ys"
  have rm: "room h (Suc (length (?us @ ?vs)))" using assms(4) by simp
  from build_nodes[OF assms(1) rm, of "snd x"] obtain h1 h' where
    h1: "new_node h (snd x) = Some (Fresh h, h1)" "grown h h' (snd x # ?us @ ?vs)"
      "append_nodes h1 (Fresh h) (?us @ ?vs) = Some (Fresh h + length (?us @ ?vs), h')"
      "heap_ok h1" "room h1 (length (?us @ ?vs))" "frame h h1 {}"
      "Nodes h1 (Fresh h) = Some \<lparr>Value = snd x, Next = 0, Prev = 0\<rparr>"
      "Fresh h1 = Suc (Fresh h)" by blast
  have r1: "room h1 (length ?us)" using h1(5) by (simp add: room_def)
  from append_nodes_spec[OF h1(4) r1 h1(7)] obtain h2 where
    h2: "append_nodes h1 (Fresh h) ?us = Some (final (fresh_nodes h1 ?us) (Fresh h), h2)"
      "chain (Nodes h2) 0 ((Fresh h, snd x) # fresh_nodes h1 ?us) 0" "heap_ok h2"
      "Fresh h2 = Fresh h1 + length ?us" "frame h1 h2 {Fresh h}" by blast
  have c: "final (fresh_nodes h1 ?us) (Fresh h) = Fresh h + length xs"
    using h1(8) by (cases "xs = []") (simp_all add: final_nth)
  have l0: "lrep h1 l0 (x # xs)" and l1: "lrep h1 l1 ys"
    using lrep_frame[OF assms(2) h1(6,4)] lrep_frame[OF assms(3) h1(6,4)] by simp_all
  have F: "Fresh h \<notin> fst ` set (x # xs)" "Fresh h \<notin> fst ` set ys" "Fresh h + length xs \<notin> fst ` set ys"
    using lrep_dom[OF assms(2)] lrep_dom[OF assms(3)] by (meson less_irrefl not_add_less1)+
  have "copy_rest h1 (Fresh h) (fst x) = append_nodes h1 (Fresh h) ?us"
    using h1(4,7) r1 l0 F(1) by (intro copy_rest_all[where b = 0]) (auto simp: lrep_def)
  then have 1: "copy_rest h1 (Fresh h) (fst x) = Some (Fresh h + length xs, h2)"
    using h2(1) c by simp
  have "lrep h2 l1 ys" using lrep_frame[OF l1 h2(5,3)] F(2) by simp
  moreover from chain_last[OF h2(2)] c obtain w b where
    "Nodes h2 (Fresh h + length xs) = Some \<lparr>Value = w, Next = 0, Prev = b\<rparr>"
    by (auto simp: final_Cons)
  moreover have "room h2 (length ys)" using h1(5) h2(4) by (simp add: room_def)
  ultimately have "copy_all h2 (Fresh h + length xs) (first ys 0) = append_nodes h2 (Fresh h + length xs) ?vs"
    using h2(3) F(3) by (intro copy_all_append[where b = 0]) (auto simp: lrep_def)
  moreover have "append_nodes h2 (Fresh h + length xs) ?vs = Some (Fresh h + (length xs + length ys), h')"
    using h1(3) h2(1) c by (simp add: append_nodes_append)
  ultimately show ?thesis using that[OF h1(1) 1] h1(2) by simp
qed

lemma concat_list_spec:
  assumes "lrep h l0 xs" and "Lock l0 = 0" and "lrep h l1 ys" and "Lock l1 = 0"
    and "room h (length xs + length ys)"
  shows "\<exists>l h'. concat_list h l0 l1 = Some (l, l0, l1, h') \<and> makes h h' l (map snd (xs @ ys))"
proof (cases xs)
  case Nil
  have ok: "heap_ok h" using assms(1) by (simp add: lrep_def)
  have 0: "Head l0 = 0" "Length l0 = 0" using Nil assms(1) lrep_Head_null[OF assms(1)]
    by (auto simp: lrep_def)
  show ?thesis
  proof (cases ys)
    case Nil
    then show ?thesis using 0 \<open>xs = []\<close> assms(2-4) lrep_Head_null[OF assms(3)] ok
      by (auto simp: concat_list_def zero_list_def lrep_def intro!: grown_makes)
  next
    case (Cons y zs)
    have rm: "room h (Suc (length (map snd zs)))" using assms(5) Cons by (simp add: room_def)
    from build_nodes[OF ok rm, of "snd y"] obtain h1 h' where
      h1: "new_node h (snd y) = Some (Fresh h, h1)" "grown h h' (snd y # map snd zs)"
        "append_nodes h1 (Fresh h) (map snd zs) = Some (Fresh h + length (map snd zs), h')"
        "heap_ok h1" "room h1 (length (map snd zs))" "frame h h1 {}"
        "Nodes h1 (Fresh h) = Some \<lparr>Value = snd y, Next = 0, Prev = 0\<rparr>" by blast
    have ch: "chain (Nodes h1) 0 (y # zs) 0"
      using lrep_frame[OF assms(3) h1(6,4)] Cons by (simp add: lrep_def)
    have "copy_rest h1 (Fresh h) (fst y) = append_nodes h1 (Fresh h) (map snd zs)"
      using h1(4,5,7) ch chain_fresh[OF ok, of 0 ys 0] assms(3) Cons
      by (intro copy_rest_all[where b = 0]) (auto simp: lrep_def)
    moreover have "Head l1 = fst y" "Head l1 \<noteq> 0" "Length l1 = Suc (length zs)"
      "Nodes h (fst y) = Some \<lparr>Value = snd y, Next = first zs 0, Prev = 0\<rparr>"
      using assms(3) lrep_Head_null[OF assms(3)] Cons by (auto simp: lrep_def)
    moreover have "length zs < 357913940" using lrep_length[OF assms(3)] Cons
      by (simp add: max_nodes_def)
    ultimately show ?thesis using h1 \<open>xs = []\<close> Cons assms(2,4) ok 0
      by (auto simp: concat_list_def get_value_def zero_list_def intro!: grown_makes)
  qed
next
  case (Cons x xs')
  have ok: "heap_ok h" using assms(1) by (simp add: lrep_def)
  from concat_copy[OF ok assms(1)[unfolded Cons] assms(3)] assms(5) Cons obtain h1 h2 h' where
    h1: "new_node h (snd x) = Some (Fresh h, h1)"
      "copy_rest h1 (Fresh h) (fst x) = Some (Fresh h + length xs', h2)"
      "copy_all h2 (Fresh h + length xs') (first ys 0) = Some (Fresh h + (length xs' + length ys), h')"
      "grown h h' (snd x # map snd (xs' @ ys))" by auto
  have "Head l0 = fst x" "Head l0 \<noteq> 0" "Length l0 = Suc (length xs')"
    "Nodes h (fst x) = Some \<lparr>Value = snd x, Next = first xs' 0, Prev = 0\<rparr>"
    "Head l1 = first ys 0" "Length l1 = length ys"
    using assms(1,3) lrep_Head_null[OF assms(1)] Cons by (auto simp: lrep_def)
  moreover have "Suc (length xs' + length ys) < 4294967296"
    using assms(5) Cons ok by (simp add: room_def max_nodes_def heap_ok_def)
  ultimately show ?thesis using h1 Cons assms(2,4) ok
    by (auto simp: concat_list_def get_value_def zero_list_def intro!: grown_makes)
qed

lemma empty_list_spec:
  assumes "Lock l = 0" and "heap_ok h"
  shows "\<exists>l'. empty_list l = Some l' \<and> empty_list_c l = Some l' \<and> is_list h l' [] \<and> Access l' = 4"
  using assms by (auto simp: empty_list_def empty_list_c_def empty_fields_def is_list_def lrep_def cache_ok_def)

section \<open>Properties\<close>

text \<open>
  \<^verbatim>\<open>_newv\<close>, \<^verbatim>\<open>_new\<close> and \<^verbatim>\<open>Make\<close> return a new unlocked list that holds exactly the given
  values in order; they only use new nodes, so every other list in memory is unchanged.
\<close>

theorem list_new_correct:
  assumes "heap_ok h" and "room h (length vs)"
  shows "\<exists>l h'. newv_list h vs = Some (l, h') \<and> new_list h vs = Some (l, h') \<and>
     Make h vs = Some (l, h') \<and> makes h h' l vs \<and> (\<forall>l2 xs. rep h l2 xs \<longrightarrow> rep h' l2 xs)"
proof -
  from newv_list_spec[OF assms] obtain l h' where
    "newv_list h vs = Some (l, h')" "makes h h' l vs" by blast
  then show ?thesis using makes_keeps unfolding new_list_def Make_def rep_def by blast
qed

lemma list_new_correct_witness:
  "\<exists>l h'. newv_list sample_heap [40, 50] = Some (l, h') \<and> is_list h' l [40, 50] \<and>
     rep h' sample_list sample_nodes"
proof -
  have "heap_ok sample_heap" using sample_rep by (simp add: rep_def lrep_def)
  from list_new_correct[OF this, of "[40, 50]"] sample_rep show ?thesis
    using makes_is_list by fastforce
qed

text \<open>
  \<^verbatim>\<open>New(n, v)\<close> makes the list of \<open>n\<close> times \<open>v\<close> for a positive \<open>n\<close>; for \<open>n = 0\<close> it leaves a
  node in a list of length 0, which represents no sequence at all.
\<close>

theorem list_New_size:
  assumes "heap_ok h" and "room h (Suc n)"
  shows "\<exists>l h'. New_list h nil (Some (int n, Some v)) = Some (l, h') \<and>
     (if n = 0 then Length l = 0 \<and> Head l \<noteq> 0 \<and> (\<forall>vs. \<not> is_list h' l vs)
      else makes h h' l (replicate n v))"
proof (cases "n = 0")
  case True
  then show ?thesis using New_list_zero[OF assms(1), of nil "Some v"] assms(2) by simp
next
  case False
  then show ?thesis using New_list_spec[OF assms(1), of n nil "Some v"] assms(2)
    by (simp add: room_def)
qed

lemma list_New_size_witness:
  "\<exists>l h'. New_list sample_heap 0 (Some (0, Some 7)) = Some (l, h') \<and> Length l = 0 \<and> Head l \<noteq> 0"
proof -
  have "heap_ok sample_heap" using sample_rep by (simp add: rep_def lrep_def)
  from list_New_size[OF this, of 0 0 7] show ?thesis by auto
qed

text \<open>
  \<^verbatim>\<open>copy\<close> and \<^verbatim>\<open>+\<close> return new lists with the values of the operands, and leave the operands
  as they were, unlocked.
\<close>

theorem list_copy_concat_correct:
  assumes "rep h l0 xs" and "rep h l1 ys" and "room h (length xs + length ys)"
  shows "(\<exists>l h'. copy_list h l0 = Some (l, l0, h') \<and> makes h h' l (map snd xs) \<and> rep h' l0 xs) \<and>
    (\<exists>l h'. concat_list h l0 l1 = Some (l, l0, l1, h') \<and>
       makes h h' l (map snd xs @ map snd ys) \<and> rep h' l0 xs \<and> rep h' l1 ys)"
proof -
  have "room h (length xs)" using assms(3) by (simp add: room_def)
  then show ?thesis
    using copy_list_spec[of h l0 xs] concat_list_spec[of h l0 xs l1 ys] assms makes_keeps
    unfolding rep_def map_append by blast
qed

lemma list_copy_concat_correct_witness:
  "\<exists>l h'. concat_list sample_heap sample_list sample_list = Some (l, sample_list, sample_list, h') \<and>
     is_list h' l [10, 20, 30, 10, 20, 30]"
  using list_copy_concat_correct[OF sample_rep sample_rep] makes_is_list by fastforce

end
