(* ===== verification/ListDeque.thy ===== *)
theory ListDeque
  imports ListBuild
begin

text \<open>
  Both ends of a list (\<^verbatim>\<open>dev/src/lib/Agg/List.c\<close>): the Wrapl methods \<^verbatim>\<open>push\<close>, \<^verbatim>\<open>put\<close>, \<^verbatim>\<open>pop\<close>,
  \<^verbatim>\<open>pull\<close> and the C functions \<^verbatim>\<open>_push\<close>, \<^verbatim>\<open>_put\<close>, \<^verbatim>\<open>_pop\<close>, \<^verbatim>\<open>_pull\<close>. The lemmas show that they keep
  the representation and act as cons, snoc, tail and butlast on the values; the exact
  condition under which the bookkeeping of the index array wraps around is stated.
\<close>

section \<open>Definitions\<close>

text \<open>The reset that ends most operations.\<close>

definition recache :: "lst \<Rightarrow> lst" where
  "recache l = l\<lparr>Index := 1, Cache := Head l, Access := 4\<rparr>"

definition push_node :: "'v heap \<Rightarrow> lst \<Rightarrow> 'v \<Rightarrow> ('v heap \<times> lst) option" where
  "push_node h l v = do {
     (p, h) \<leftarrow> new_node h v;
     h \<leftarrow> set_next h p (Head l);
     (h, l) \<leftarrow>
       (if Head l \<noteq> 0 then do { h \<leftarrow> set_prev h (Head l) p; Some (h, l) }
        else Some (h, l\<lparr>Tail := p\<rparr>));
     let l = l\<lparr>Head := p, Length := inc32 (Length l)\<rparr>;
     Some (h, if Array l \<noteq> None
              then l\<lparr>Lower := inc32 (Lower l), Upper := inc32 (Upper l)\<rparr> else l) }"

fun push_nodes :: "'v heap \<Rightarrow> lst \<Rightarrow> 'v list \<Rightarrow> ('v heap \<times> lst) option" where
  "push_nodes h l [] = Some (h, l)"
| "push_nodes h l (v # vs) = do { (h, l) \<leftarrow> push_node h l v; push_nodes h l vs }"

definition push_method :: "'v heap \<Rightarrow> lst \<Rightarrow> 'v list \<Rightarrow> ('v heap \<times> lst) option" where
  "push_method h l vs = do {
     l \<leftarrow> wrlock l;
     (h, l) \<leftarrow> push_nodes h l vs;
     l \<leftarrow> unlock (recache l);
     Some (h, l) }"

definition push_c :: "'v heap \<Rightarrow> lst \<Rightarrow> 'v \<Rightarrow> ('v heap \<times> lst) option" where
  "push_c h l v = do {
     l \<leftarrow> wrlock l;
     (h, l) \<leftarrow> push_node h l v;
     l \<leftarrow> unlock (recache l);
     Some (h, l) }"

definition put_node :: "'v heap \<Rightarrow> lst \<Rightarrow> 'v \<Rightarrow> ('v heap \<times> lst) option" where
  "put_node h l v = do {
     (p, h) \<leftarrow> new_node h v;
     h \<leftarrow> set_prev h p (Tail l);
     (h, l) \<leftarrow>
       (if Tail l \<noteq> 0 then do { h \<leftarrow> set_next h (Tail l) p; Some (h, l) }
        else Some (h, l\<lparr>Head := p\<rparr>));
     Some (h, l\<lparr>Tail := p, Length := inc32 (Length l)\<rparr>) }"

fun put_nodes :: "'v heap \<Rightarrow> lst \<Rightarrow> 'v list \<Rightarrow> ('v heap \<times> lst) option" where
  "put_nodes h l [] = Some (h, l)"
| "put_nodes h l (v # vs) = do { (h, l) \<leftarrow> put_node h l v; put_nodes h l vs }"

definition put_method :: "'v heap \<Rightarrow> lst \<Rightarrow> 'v list \<Rightarrow> ('v heap \<times> lst) option" where
  "put_method h l vs = do {
     l \<leftarrow> wrlock l;
     (h, l) \<leftarrow> put_nodes h l vs;
     l \<leftarrow> unlock (recache l);
     Some (h, l) }"

definition put_c :: "'v heap \<Rightarrow> lst \<Rightarrow> 'v \<Rightarrow> ('v heap \<times> lst) option" where
  "put_c h l v = do {
     l \<leftarrow> wrlock l;
     (h, l) \<leftarrow> put_node h l v;
     l \<leftarrow> unlock (recache l);
     Some (h, l) }"

text \<open>
  \<^verbatim>\<open>if (List->Array) {if (List->Lower > 1) --List->Lower; else ++List->Array; --List->Upper;}\<close>
\<close>

definition shrink_front :: "lst \<Rightarrow> lst" where
  "shrink_front l =
     (case Array l of None \<Rightarrow> l
      | Some a \<Rightarrow>
          (let l = (if 1 < Lower l then l\<lparr>Lower := dec32 (Lower l)\<rparr> else l\<lparr>Array := Some (tl a)\<rparr>)
           in l\<lparr>Upper := dec32 (Upper l)\<rparr>))"

text \<open>\<^verbatim>\<open>if (List->Array) {if (List->Upper > List->Length) --List->Upper;}\<close>\<close>

definition shrink_back :: "lst \<Rightarrow> lst" where
  "shrink_back l =
     (if Array l \<noteq> None \<and> Length l < Upper l then l\<lparr>Upper := dec32 (Upper l)\<rparr> else l)"

text \<open>The unlinking of the first and of the last node, given the node.\<close>

definition unlink_first :: "'v heap \<Rightarrow> lst \<Rightarrow> ptr \<Rightarrow> ('v heap \<times> lst) option" where
  "unlink_first h l node = do {
     n \<leftarrow> get_next h node;
     (h, l) \<leftarrow>
       (if n \<noteq> 0 then do { h \<leftarrow> set_prev h n 0; Some (h, l\<lparr>Head := n\<rparr>) }
        else Some (h, l\<lparr>Head := n, Tail := 0\<rparr>));
     Some (h, shrink_front (l\<lparr>Length := dec32 (Length l)\<rparr>)) }"

definition unlink_last :: "'v heap \<Rightarrow> lst \<Rightarrow> ptr \<Rightarrow> ('v heap \<times> lst) option" where
  "unlink_last h l node = do {
     p \<leftarrow> get_prev h node;
     (h, l) \<leftarrow>
       (if p \<noteq> 0 then do { h \<leftarrow> set_next h p 0; Some (h, l\<lparr>Tail := p\<rparr>) }
        else Some (h, l\<lparr>Tail := p, Head := 0\<rparr>));
     Some (h, shrink_back (l\<lparr>Length := dec32 (Length l)\<rparr>)) }"

definition pop_method :: "'v heap \<Rightarrow> lst \<Rightarrow> (('v, unit, unit) reply \<times> 'v heap \<times> lst) option" where
  "pop_method h l = do {
     l \<leftarrow> wrlock l;
     let node = Head l;
     if node = 0 then do { l \<leftarrow> unlock l; Some (FAILURE, h, l) }
     else do {
       (h, l) \<leftarrow> unlink_first h l node;
       l \<leftarrow> unlock (recache l);
       v \<leftarrow> get_value h node;
       Some (SUCCESS v, h, l) } }"

definition pull_method :: "'v heap \<Rightarrow> lst \<Rightarrow> (('v, unit, unit) reply \<times> 'v heap \<times> lst) option" where
  "pull_method h l = do {
     l \<leftarrow> wrlock l;
     let node = Tail l;
     if node = 0 then do { l \<leftarrow> unlock l; Some (FAILURE, h, l) }
     else do {
       (h, l) \<leftarrow> unlink_last h l node;
       l \<leftarrow> unlock (recache l);
       v \<leftarrow> get_value h node;
       Some (SUCCESS v, h, l) } }"

text \<open>The C functions return the value, or a null object for an empty list.\<close>

definition pop_c :: "'v heap \<Rightarrow> lst \<Rightarrow> ('v option \<times> 'v heap \<times> lst) option" where
  "pop_c h l = do {
     l \<leftarrow> wrlock l;
     let node = Head l;
     if node = 0 then do { l \<leftarrow> unlock l; Some (None, h, l) }
     else do {
       (h, l) \<leftarrow> unlink_first h l node;
       l \<leftarrow> unlock (recache l);
       v \<leftarrow> get_value h node;
       Some (Some v, h, l) } }"

definition pull_c :: "'v heap \<Rightarrow> lst \<Rightarrow> ('v option \<times> 'v heap \<times> lst) option" where
  "pull_c h l = do {
     l \<leftarrow> wrlock l;
     let node = Tail l;
     if node = 0 then do { l \<leftarrow> unlock l; Some (None, h, l) }
     else do {
       (h, l) \<leftarrow> unlink_last h l node;
       l \<leftarrow> unlock (recache l);
       v \<leftarrow> get_value h node;
       Some (Some v, h, l) } }"

section \<open>The index array under pushes and pops\<close>

lemma window_push:
  assumes "window a lo up xs" and "lo < 4294967295" and "length xs < 4294967295"
  shows "window a (inc32 lo) (inc32 up) (x # xs)"
proof -
  have up: "up < 4294967295" using assms(1,3) by (simp add: window_def)
  show ?thesis unfolding window_def
  proof (intro conjI allI impI; (elim conjE)?)
    fix i assume i: "inc32 lo \<le> i" "i \<le> inc32 up"
    then obtain j where j: "i = Suc j" using assms(2) by (cases i) auto
    with i assms(2) up have "lo \<le> j \<and> j \<le> up" by simp
    with assms(1) have "1 \<le> lo" "j - lo < length a \<and> a ! (j - lo) = fst (xs ! (j - 1))"
      by (auto simp: window_def)
    with j \<open>lo \<le> j \<and> j \<le> up\<close> assms(2)
    show "i - inc32 lo < length a" "a ! (i - inc32 lo) = fst ((x # xs) ! (i - 1))"
      by (auto simp: nth_Cons split: nat.splits)
  qed (use assms up in \<open>auto simp: window_def\<close>)
qed

lemma window_snoc: "window a lo up xs \<Longrightarrow> window a lo up (xs @ ys)"
  by (auto simp: window_def nth_append)

lemma window_shrink: "window a lo up xs \<Longrightarrow> up' \<le> up \<Longrightarrow> window a lo up' xs"
  by (auto simp: window_def)

lemma window_take: "window a lo up xs \<Longrightarrow> up \<le> n \<Longrightarrow> window a lo up (take n xs)"
  by (auto simp: window_def)

lemma window_tl_array:
  assumes "window a 1 up (x # xs)"
  shows "window (tl a) 1 (up - 1) xs"
  unfolding window_def
proof (intro conjI allI impI; (elim conjE)?)
  fix i assume i: "1 \<le> i" "i \<le> up - 1"
  then have "Suc i - 1 < length a \<and> a ! (Suc i - 1) = fst ((x # xs) ! (Suc i - 1))"
    using assms unfolding window_def by (elim conjE allE[of _ "Suc i"]) auto
  with i show "i - 1 < length (tl a)" "tl a ! (i - 1) = fst (xs ! (i - 1))"
    by (auto simp: nth_tl nth_Cons split: nat.splits)
qed (use assms in \<open>auto simp: window_def\<close>)

lemma window_tl_lower:
  assumes "window a lo up (x # xs)" and "1 < lo"
  shows "window a (lo - 1) (up - 1) xs"
  unfolding window_def
proof (intro conjI allI impI; (elim conjE)?)
  fix i assume i: "lo - 1 \<le> i" "i \<le> up - 1"
  with assms(2) have "lo \<le> Suc i \<and> Suc i \<le> up" "1 \<le> i" by auto
  with assms(1) have "Suc i - lo < length a \<and> a ! (Suc i - lo) = fst ((x # xs) ! (Suc i - 1))"
    by (auto simp: window_def)
  with i \<open>1 \<le> i\<close> assms(2) show "i - (lo - 1) < length a" "a ! (i - (lo - 1)) = fst (xs ! (i - 1))"
    by (auto simp: nth_Cons Suc_diff_le split: nat.splits)
qed (use assms in \<open>auto simp: window_def\<close>)

text \<open>
  \<open>low_room l n\<close>: \<open>n\<close> pushes do not wrap \<open>Lower\<close> around; \<open>window_open l\<close>: a removal at the front
  does not wrap \<open>Upper\<close> around.
\<close>

definition low_room :: "lst \<Rightarrow> nat \<Rightarrow> bool" where
  "low_room l n \<longleftrightarrow> Array l = None \<or> Lower l + n < 2 ^ 32"

definition window_open :: "lst \<Rightarrow> bool" where
  "window_open l \<longleftrightarrow> Array l = None \<or> 0 < Upper l"

section \<open>One node pushed, put, popped, pulled\<close>

lemma recache_lrep [simp]: "lbase h l xs \<Longrightarrow> lrep h (recache l) xs"
  unfolding recache_def by (rule lbase_recache)

lemma recache_simps [simp]:
  "Lock (recache l) = Lock l" "Array (recache l) = Array l" "Lower (recache l) = Lower l"
  "Upper (recache l) = Upper l" "Access (recache l) = 4" "Length (recache l) = Length l"
  by (simp_all add: recache_def)

lemma push_node_spec:
  assumes "lbase h l xs" and "room h (Suc n)" and "low_room l (Suc n)"
  obtains h' l' where "push_node h l v = Some (h', l')" and "lbase h' l' ((Fresh h, v) # xs)"
    and "Lock l' = Lock l" and "low_room l' n" and "room h' n" and "frame h h' (fst ` set xs)"
proof -
  have ok: "heap_ok h" using assms(1) by (simp add: lbase_def)
  from new_node_spec[OF ok assms(2), of v] obtain h1 where
    h1: "new_node h v = Some (Fresh h, h1)"
      "Nodes h1 = (Nodes h)(Fresh h \<mapsto> \<lparr>Value = v, Next = 0, Prev = 0\<rparr>)"
      "Fresh h1 = Suc (Fresh h)" "heap_ok h1" "room h1 n" "frame h h1 {}" by blast
  have F: "Fresh h \<notin> fst ` set xs" using chain_fresh[OF ok] assms(1) by (auto simp: lbase_def)
  let ?h2 = "store h1 (Fresh h) \<lparr>Value = v, Next = Head l, Prev = 0\<rparr>"
  have ok2: "heap_ok ?h2" using h1 by (intro heap_ok_store) auto
  have len: "length xs < 4294967295" using lbase_length[OF assms(1)] by (simp add: max_nodes_def)
  let ?l = "\<lambda>t. l\<lparr>Tail := t, Head := Fresh h, Length := Suc (length xs)\<rparr>"
  let ?l' = "\<lambda>t. if Array l \<noteq> None
      then (?l t)\<lparr>Lower := inc32 (Lower l), Upper := inc32 (Upper l)\<rparr> else ?l t"
  have arr: "array_ok (?l' t) ((Fresh h, v) # xs)" for t
    using assms(1,3) len
    by (auto simp: array_ok_def lbase_def low_room_def intro!: window_push simp del: inc32_Suc)
  have low: "low_room (?l' t) n" for t
    using assms(3) by (auto simp: low_room_def)
  show ?thesis
  proof (cases xs)
    case Nil
    show ?thesis
    proof (rule that[of ?h2 "?l' (Fresh h)"])
      show "push_node h l v = Some (?h2, ?l' (Fresh h))"
        using h1 Nil assms(1) len by (simp add: push_node_def set_next_def lbase_def)
      show "lbase ?h2 (?l' (Fresh h)) ((Fresh h, v) # xs)"
        using h1 Nil assms(1) ok2 arr[of "Fresh h"] by (simp add: lbase_def final_Cons)
      show "frame h ?h2 (fst ` set xs)" using h1 by (auto simp: frame_def)
    qed (use h1 low in \<open>auto simp: room_def\<close>)
  next
    case (Cons x ys)
    let ?h3 = "store ?h2 (fst x) \<lparr>Value = snd x, Next = first ys 0, Prev = Fresh h\<rparr>"
    have x: "Nodes h (fst x) = Some \<lparr>Value = snd x, Next = first ys 0, Prev = 0\<rparr>" "Head l = fst x"
      "fst x \<noteq> 0" "fst x \<noteq> Fresh h" "fst x \<notin> fst ` set ys"
      using assms(1) Cons F lbase_Head_null[OF assms(1)] by (auto simp: lbase_def)
    have ok3: "heap_ok ?h3" using x h1 ok2 by (intro heap_ok_store[OF ok2]) auto
    show ?thesis
    proof (rule that[of ?h3 "?l' (Tail l)"])
      show "push_node h l v = Some (?h3, ?l' (Tail l))"
        using h1 x assms(1) len ok2 by (simp add: push_node_def set_next_def set_prev_def lbase_def)
      show "lbase ?h3 (?l' (Tail l)) ((Fresh h, v) # xs)"
        using h1 x Cons assms(1) ok3 F arr[of "Tail l"] by (simp add: lbase_def final_Cons)
      show "frame h ?h3 (fst ` set xs)" using h1 Cons by (auto simp: frame_def)
    qed (use h1 low in \<open>auto simp: room_def\<close>)
  qed
qed

lemma put_node_spec:
  assumes "lbase h l xs" and "room h (Suc n)"
  obtains h' l' where "put_node h l v = Some (h', l')" and "lbase h' l' (xs @ [(Fresh h, v)])"
    and "Lock l' = Lock l" and "room h' n" and "frame h h' (fst ` set xs)"
    and "Array l' = Array l" and "Lower l' = Lower l" and "Upper l' = Upper l"
proof -
  have ok: "heap_ok h" using assms(1) by (simp add: lbase_def)
  from new_node_spec[OF ok assms(2), of v] obtain h1 where
    h1: "new_node h v = Some (Fresh h, h1)"
      "Nodes h1 = (Nodes h)(Fresh h \<mapsto> \<lparr>Value = v, Next = 0, Prev = 0\<rparr>)"
      "Fresh h1 = Suc (Fresh h)" "heap_ok h1" "room h1 n" "frame h h1 {}" by blast
  have F: "Fresh h \<notin> fst ` set xs" using chain_fresh[OF ok] assms(1) by (auto simp: lbase_def)
  let ?h2 = "store h1 (Fresh h) \<lparr>Value = v, Next = 0, Prev = Tail l\<rparr>"
  have ok2: "heap_ok ?h2" using h1 by (intro heap_ok_store) auto
  have len: "length xs < 4294967295" using lbase_length[OF assms(1)] by (simp add: max_nodes_def)
  let ?l = "\<lambda>t. l\<lparr>Head := t, Tail := Fresh h, Length := Suc (length xs)\<rparr>"
  have arr: "array_ok (?l t) (xs @ [(Fresh h, v)])" for t
    using assms(1) window_snoc by (auto simp: array_ok_def lbase_def)
  show ?thesis
  proof (cases xs rule: rev_cases)
    case Nil
    show ?thesis
    proof (rule that[of ?h2 "?l (Fresh h)"])
      show "put_node h l v = Some (?h2, ?l (Fresh h))"
        using h1 Nil assms(1) len by (simp add: put_node_def set_prev_def lbase_def)
      show "lbase ?h2 (?l (Fresh h)) (xs @ [(Fresh h, v)])"
        using h1 Nil assms(1) ok2 arr[of "Fresh h"] by (simp add: lbase_def)
      show "frame h ?h2 (fst ` set xs)" using h1 by (auto simp: frame_def)
    qed (use h1 in \<open>auto simp: room_def\<close>)
  next
    case (snoc ys x)
    let ?h3 = "store ?h2 (fst x) \<lparr>Value = snd x, Next = Fresh h, Prev = final ys 0\<rparr>"
    have x: "Nodes h (fst x) = Some \<lparr>Value = snd x, Next = 0, Prev = final ys 0\<rparr>" "Tail l = fst x"
      "fst x \<noteq> 0" "fst x \<noteq> Fresh h" "fst x \<notin> fst ` set ys"
      using assms(1) snoc F lbase_Tail_null[OF assms(1)] by (auto simp: lbase_def)
    have ok3: "heap_ok ?h3" using x h1 ok2 by (intro heap_ok_store[OF ok2]) auto
    show ?thesis
    proof (rule that[of ?h3 "?l (Head l)"])
      show "put_node h l v = Some (?h3, ?l (Head l))"
        using h1 x assms(1) len ok2 by (simp add: put_node_def set_next_def set_prev_def lbase_def)
      show "lbase ?h3 (?l (Head l)) (xs @ [(Fresh h, v)])"
        using h1 x snoc assms(1) ok3 F arr[of "Head l"] by (simp add: lbase_def)
      show "frame h ?h3 (fst ` set xs)" using h1 snoc by (auto simp: frame_def)
    qed (use h1 in \<open>auto simp: room_def\<close>)
  qed
qed

lemma shrink_front_simps [simp]:
  "Lock (shrink_front l) = Lock l" "Head (shrink_front l) = Head l" "Tail (shrink_front l) = Tail l"
  "Length (shrink_front l) = Length l" "Index (shrink_front l) = Index l"
  "Cache (shrink_front l) = Cache l" "Array (shrink_front l) = None \<longleftrightarrow> Array l = None"
  by (auto simp: shrink_front_def Let_def split: option.splits)

lemma shrink_back_simps [simp]:
  "Lock (shrink_back l) = Lock l" "Head (shrink_back l) = Head l" "Tail (shrink_back l) = Tail l"
  "Length (shrink_back l) = Length l" "Index (shrink_back l) = Index l"
  "Cache (shrink_back l) = Cache l" "Array (shrink_back l) = Array l" "Lower (shrink_back l) = Lower l"
  by (auto simp: shrink_back_def)

lemma shrink_front_ok:
  assumes "array_ok l (x # xs)" and "window_open l"
  shows "array_ok (shrink_front l) xs"
proof (cases "Array l")
  case None
  then show ?thesis by (simp add: shrink_front_def)
next
  case (Some a)
  with assms have w: "window a (Lower l) (Upper l) (x # xs)" and up: "0 < Upper l"
    by (auto simp: array_ok_def window_open_def)
  show ?thesis
  proof (cases "1 < Lower l")
    case True
    then show ?thesis using Some window_tl_lower[OF w] up
      by (auto simp: shrink_front_def array_ok_def dec32_pos)
  next
    case False
    with w have "Lower l = 1" by (simp add: window_def)
    then show ?thesis using Some w up window_tl_array[of a "Upper l" x xs]
      by (auto simp: shrink_front_def array_ok_def dec32_pos)
  qed
qed

lemma shrink_back_ok:
  assumes "array_ok l (xs @ [x])" and "Length l = length xs"
  shows "array_ok (shrink_back l) xs"
proof (cases "Array l")
  case None
  then show ?thesis by (simp add: shrink_back_def)
next
  case (Some a)
  with assms(1) have w: "window a (Lower l) (Upper l) (xs @ [x])" by (simp add: array_ok_def)
  show ?thesis
  proof (cases "Length l < Upper l")
    case True
    with w assms(2) have "Upper l = Suc (length xs)" by (simp add: window_def)
    then show ?thesis using True Some window_take[OF window_shrink[OF w, of "length xs"], of "length xs"]
      by (auto simp: shrink_back_def array_ok_def)
  next
    case False
    then show ?thesis using Some window_take[OF w, of "length xs"] assms(2)
      by (auto simp: shrink_back_def array_ok_def)
  qed
qed

lemma unlink_first_spec:
  assumes "lbase h l (x # xs)"
  obtains h' l' where "unlink_first h l (fst x) = Some (h', l')"
    and "window_open l \<Longrightarrow> lbase h' l' xs" and "heap_ok h'"
    and "chain (Nodes h') 0 xs 0" and "Head l' = first xs 0" and "Tail l' = final xs 0"
    and "Length l' = length xs"
    and "l' = shrink_front (l\<lparr>Head := first xs 0, Tail := final xs 0, Length := length xs\<rparr>)"
    and "get_value h' (fst x) = Some (snd x)"
    and "get_next h' (fst x) = Some (first xs 0)"
    and "frame h h' (fst ` set (x # xs))" and "Fresh h' = Fresh h"
proof -
  have ok: "heap_ok h" using assms by (simp add: lbase_def)
  have x: "Nodes h (fst x) = Some \<lparr>Value = snd x, Next = first xs 0, Prev = 0\<rparr>" "fst x \<notin> fst ` set xs"
    using assms by (auto simp: lbase_def)
  let ?l = "\<lambda>t. shrink_front (l\<lparr>Head := first xs 0, Tail := t, Length := length xs\<rparr>)"
  have arr: "window_open l \<Longrightarrow> array_ok (?l t) xs" for t
    by (rule shrink_front_ok[of _ x]) (use assms in \<open>auto simp: array_ok_def window_open_def lbase_def\<close>)
  have nx: "get_next h (fst x) = Some (first xs 0)" using x ok by (simp add: get_next_def)
  show ?thesis
  proof (cases xs)
    case Nil
    show ?thesis
    proof (rule that[of h "?l 0"])
      show "unlink_first h l (fst x) = Some (h, ?l 0)"
        using nx Nil assms by (simp add: unlink_first_def lbase_def)
    qed (use Nil assms x nx ok arr[of 0] in \<open>auto simp: lbase_def get_value_def\<close>)
  next
    case (Cons y ys)
    let ?h = "store h (fst y) \<lparr>Value = snd y, Next = first ys 0, Prev = 0\<rparr>"
    have y: "Nodes h (fst y) = Some \<lparr>Value = snd y, Next = first ys 0, Prev = fst x\<rparr>"
      "fst y \<noteq> 0" "fst y \<notin> fst ` set ys" "fst y \<noteq> fst x" "Tail l = final xs 0"
      using assms Cons ok heap_ok_null[OF ok] by (auto simp: lbase_def final_Cons)
    have ok': "heap_ok ?h" using ok y(1) by (rule heap_ok_store)
    have l: "l\<lparr>Head := fst y, Length := length xs\<rparr> = l\<lparr>Head := first xs 0, Tail := final xs 0, Length := length xs\<rparr>"
      using Cons y(5) by simp
    show ?thesis
    proof (rule that[of ?h "?l (final xs 0)"])
      show "unlink_first h l (fst x) = Some (?h, ?l (final xs 0))"
        using nx Cons assms y(1,2) ok unfolding l[symmetric]
        by (simp add: unlink_first_def set_prev_def lbase_def)
      show "window_open l \<Longrightarrow> lbase ?h (?l (final xs 0)) xs"
        using Cons assms y ok' arr[of "final xs 0"] by (simp add: lbase_def)
      show "frame h ?h (fst ` set (x # xs))" using Cons by (auto simp: frame_def)
    qed (use Cons assms x y ok ok' in \<open>auto simp: lbase_def get_value_def get_next_def\<close>)
  qed
qed

lemma unlink_last_spec:
  assumes "lbase h l (xs @ [x])"
  obtains h' l' where "unlink_last h l (fst x) = Some (h', l')"
    and "lbase h' l' xs" and "Lock l' = Lock l"
    and "get_value h' (fst x) = Some (snd x)" and "get_next h' (fst x) = Some 0"
    and "frame h h' (fst ` set (xs @ [x]))" and "Fresh h' = Fresh h"
    and "Index l' = Index l" and "Cache l' = Cache l"
proof -
  have ok: "heap_ok h" using assms by (simp add: lbase_def)
  have x: "Nodes h (fst x) = Some \<lparr>Value = snd x, Next = 0, Prev = final xs 0\<rparr>" "fst x \<notin> fst ` set xs"
    using assms by (auto simp: lbase_def)
  let ?l = "\<lambda>t. shrink_back (l\<lparr>Tail := final xs 0, Head := t, Length := length xs\<rparr>)"
  have arr: "array_ok (?l t) xs" for t
    by (rule shrink_back_ok[of _ _ x]) (use assms in \<open>auto simp: array_ok_def lbase_def\<close>)
  have pv: "get_prev h (fst x) = Some (final xs 0)" using x ok by (simp add: get_prev_def)
  show ?thesis
  proof (cases xs rule: rev_cases)
    case Nil
    show ?thesis
    proof (rule that[of h "?l 0"])
      show "unlink_last h l (fst x) = Some (h, ?l 0)"
        using pv Nil assms by (simp add: unlink_last_def lbase_def)
    qed (use Nil assms x ok arr[of 0] in \<open>auto simp: lbase_def get_value_def get_next_def\<close>)
  next
    case (snoc ys y)
    let ?h = "store h (fst y) \<lparr>Value = snd y, Next = 0, Prev = final ys 0\<rparr>"
    have y: "Nodes h (fst y) = Some \<lparr>Value = snd y, Next = fst x, Prev = final ys 0\<rparr>"
      "fst y \<noteq> 0" "fst y \<notin> fst ` set ys" "fst y \<noteq> fst x" "Head l = first xs 0"
      using assms snoc ok heap_ok_null[OF ok] by (auto simp: lbase_def)
    have ok': "heap_ok ?h" using ok y(1) by (rule heap_ok_store)
    have l: "l\<lparr>Tail := fst y, Length := length xs\<rparr> = l\<lparr>Tail := final xs 0, Head := first xs 0, Length := length xs\<rparr>"
      using snoc y(5) by simp
    show ?thesis
    proof (rule that[of ?h "?l (first xs 0)"])
      show "unlink_last h l (fst x) = Some (?h, ?l (first xs 0))"
        using pv snoc assms y(1,2) ok unfolding l[symmetric]
        by (simp add: unlink_last_def set_next_def lbase_def)
      show "lbase ?h (?l (first xs 0)) xs"
        using snoc assms y ok' arr[of "first xs 0"] by (simp add: lbase_def)
      show "frame h ?h (fst ` set (xs @ [x]))" using snoc by (auto simp: frame_def)
    qed (use snoc assms x y ok ok' in \<open>auto simp: lbase_def get_value_def get_next_def\<close>)
  qed
qed

section \<open>The operations on a whole list\<close>

lemma push_nodes_spec:
  assumes "lbase h l xs" and "room h (length vs)" and "low_room l (length vs)"
  shows "\<exists>h' l' ys. push_nodes h l vs = Some (h', l') \<and> lbase h' l' (ys @ xs) \<and>
     map snd ys = rev vs \<and> Lock l' = Lock l \<and> frame h h' (fst ` set xs)"
  using assms
proof (induction vs arbitrary: h l xs)
  case Nil
  then show ?case by (intro exI[of _ "[]"] exI) auto
next
  case (Cons v vs)
  from Cons.prems(2,3) have "room h (Suc (length vs))" "low_room l (Suc (length vs))" by simp_all
  from push_node_spec[OF Cons.prems(1) this, of v] obtain h1 l1 where
    1: "push_node h l v = Some (h1, l1)" "lbase h1 l1 ((Fresh h, v) # xs)"
      "Lock l1 = Lock l" "low_room l1 (length vs)" "room h1 (length vs)" "frame h h1 (fst ` set xs)"
    by blast
  from Cons.IH[OF 1(2,5,4)] obtain h' l' ys where
    2: "push_nodes h1 l1 vs = Some (h', l')" "lbase h' l' (ys @ (Fresh h, v) # xs)"
      "map snd ys = rev vs" "Lock l' = Lock l1" "frame h1 h' (fst ` set ((Fresh h, v) # xs))" by blast
  have "frame h h' (fst ` set xs)" by (rule frame_step[OF 1(6) 2(5)]) auto
  with 1 2 show ?case by (intro exI[of _ h'] exI[of _ l'] exI[of _ "ys @ [(Fresh h, v)]"]) simp
qed

lemma put_nodes_spec:
  assumes "lbase h l xs" and "room h (length vs)"
  shows "\<exists>h' l' ys. put_nodes h l vs = Some (h', l') \<and> lbase h' l' (xs @ ys) \<and>
     map snd ys = vs \<and> Lock l' = Lock l \<and> frame h h' (fst ` set xs)"
  using assms
proof (induction vs arbitrary: h l xs)
  case Nil
  then show ?case by (intro exI[of _ "[]"] exI) auto
next
  case (Cons v vs)
  from Cons.prems(2) have "room h (Suc (length vs))" by simp
  from put_node_spec[OF Cons.prems(1) this, of v] obtain h1 l1 where
    1: "put_node h l v = Some (h1, l1)" "lbase h1 l1 (xs @ [(Fresh h, v)])"
      "Lock l1 = Lock l" "room h1 (length vs)" "frame h h1 (fst ` set xs)" by blast
  from Cons.IH[OF 1(2,4)] obtain h' l' ys where
    2: "put_nodes h1 l1 vs = Some (h', l')" "lbase h' l' ((xs @ [(Fresh h, v)]) @ ys)"
      "map snd ys = vs" "Lock l' = Lock l1" "frame h1 h' (fst ` set (xs @ [(Fresh h, v)]))" by blast
  have "frame h h' (fst ` set xs)" by (rule frame_step[OF 1(5) 2(5)]) auto
  with 1 2 show ?case by (intro exI[of _ h'] exI[of _ l'] exI[of _ "(Fresh h, v) # ys"]) simp
qed

lemma rep_recache [simp]: "lbase h l xs \<Longrightarrow> rep h ((recache l)\<lparr>Lock := 0\<rparr>) xs"
  by (simp add: rep_def)

lemma push_method_spec:
  assumes "rep h l xs" and "room h (length vs)" and "low_room l (length vs)"
  shows "\<exists>h' l' ys. push_method h l vs = Some (h', l') \<and> rep h' l' (ys @ xs) \<and>
     map snd ys = rev vs \<and> frame h h' (fst ` set xs)"
proof -
  have "lbase h (l\<lparr>Lock := -1\<rparr>) xs" "low_room (l\<lparr>Lock := -1\<rparr>) (length vs)" "Lock l = 0"
    using assms by (simp_all add: rep_def lrep_base low_room_def)
  moreover from push_nodes_spec[OF this(1) assms(2) this(2)] obtain h' l' ys where
    "push_nodes h (l\<lparr>Lock := -1\<rparr>) vs = Some (h', l')" "lbase h' l' (ys @ xs)"
    "map snd ys = rev vs" "Lock l' = -1" "frame h h' (fst ` set xs)" by auto
  ultimately show ?thesis
    by (intro exI[of _ h'] exI[of _ "(recache l')\<lparr>Lock := 0\<rparr>"] exI[of _ ys])
      (simp add: push_method_def)
qed

lemma put_method_spec:
  assumes "rep h l xs" and "room h (length vs)"
  shows "\<exists>h' l' ys. put_method h l vs = Some (h', l') \<and> rep h' l' (xs @ ys) \<and>
     map snd ys = vs \<and> frame h h' (fst ` set xs)"
proof -
  have "lbase h (l\<lparr>Lock := -1\<rparr>) xs" "Lock l = 0"
    using assms by (simp_all add: rep_def lrep_base)
  moreover from put_nodes_spec[OF this(1) assms(2)] obtain h' l' ys where
    "put_nodes h (l\<lparr>Lock := -1\<rparr>) vs = Some (h', l')" "lbase h' l' (xs @ ys)"
    "map snd ys = vs" "Lock l' = -1" "frame h h' (fst ` set xs)" by auto
  ultimately show ?thesis
    by (intro exI[of _ h'] exI[of _ "(recache l')\<lparr>Lock := 0\<rparr>"] exI[of _ ys])
      (simp add: put_method_def)
qed

text \<open>The C functions do what the methods do with one value.\<close>

lemma push_c_method: "push_c h l v = push_method h l [v]"
  by (simp add: push_c_def push_method_def)

lemma put_c_method: "put_c h l v = put_method h l [v]"
  by (simp add: put_c_def put_method_def)

lemma pop_c_method:
  "pop_c h l = map_option (\<lambda>(r, h', l'). (returned r, h', l')) (pop_method h l)"
  by (auto simp: pop_c_def pop_method_def Let_def split: bind_splits)

lemma pull_c_method:
  "pull_c h l = map_option (\<lambda>(r, h', l'). (returned r, h', l')) (pull_method h l)"
  by (auto simp: pull_c_def pull_method_def Let_def split: bind_splits)

lemma window_open_Lock [simp]: "window_open (l\<lparr>Lock := k\<rparr>) = window_open l"
  by (simp add: window_open_def)

text \<open>
  A pop always returns the first value and unlinks its node; the index array survives it
  exactly if the window is open.
\<close>

lemma pop_method_spec:
  assumes "rep h l (x # xs)"
  shows "\<exists>h' l'. pop_method h l = Some (SUCCESS (snd x), h', l') \<and>
     frame h h' (fst ` set (x # xs)) \<and> (rep h' l' xs \<longleftrightarrow> window_open l)"
proof -
  let ?l = "l\<lparr>Lock := -1\<rparr>"
  have b: "lbase h ?l (x # xs)" and L: "Lock l = 0" "Head l = fst x" "Head l \<noteq> 0"
    and len: "length xs < 4294967295"
    using assms lrep_Head_null[of h l "x # xs"] lrep_length[of h l "x # xs"]
    by (auto simp: rep_def lrep_base lbase_def max_nodes_def)
  from unlink_first_spec[OF b] obtain h' l' where
    u: "unlink_first h ?l (fst x) = Some (h', l')" "window_open ?l \<Longrightarrow> lbase h' l' xs"
      "l' = shrink_front (?l\<lparr>Head := first xs 0, Tail := final xs 0, Length := length xs\<rparr>)"
      "get_value h' (fst x) = Some (snd x)" "frame h h' (fst ` set (x # xs))" by blast
  have "\<not> window_open l \<Longrightarrow> \<not> array_ok ((recache l')\<lparr>Lock := 0\<rparr>) xs"
    using u(3) len by (auto simp: window_open_def array_ok_def shrink_front_def window_def Let_def)
  then have "\<not> window_open l \<Longrightarrow> \<not> rep h' ((recache l')\<lparr>Lock := 0\<rparr>) xs"
    by (simp add: rep_def lrep_def)
  with u(2) have "rep h' ((recache l')\<lparr>Lock := 0\<rparr>) xs \<longleftrightarrow> window_open l" by auto
  moreover have "pop_method h l = Some (SUCCESS (snd x), h', (recache l')\<lparr>Lock := 0\<rparr>)"
    using u L by (simp add: pop_method_def)
  ultimately show ?thesis using u(5) by blast
qed

lemma pop_method_empty: "rep h l [] \<Longrightarrow> pop_method h l = Some (FAILURE, h, l)"
  by (simp add: pop_method_def rep_def lrep_def)

lemma pull_method_spec:
  assumes "rep h l (xs @ [x])"
  shows "\<exists>h' l'. pull_method h l = Some (SUCCESS (snd x), h', l') \<and>
     frame h h' (fst ` set (xs @ [x])) \<and> rep h' l' xs"
proof -
  let ?l = "l\<lparr>Lock := -1\<rparr>"
  have b: "lbase h ?l (xs @ [x])" and L: "Lock l = 0" "Tail l = fst x" "Tail l \<noteq> 0"
    using assms lrep_Tail_null[of h l "xs @ [x]"]
    by (auto simp: rep_def lrep_base lbase_def)
  from unlink_last_spec[OF b] obtain h' l' where
    u: "unlink_last h ?l (fst x) = Some (h', l')" "lbase h' l' xs" "Lock l' = Lock ?l"
      "get_value h' (fst x) = Some (snd x)" "frame h h' (fst ` set (xs @ [x]))" by blast
  then show ?thesis using L
    by (intro exI[of _ h'] exI[of _ "(recache l')\<lparr>Lock := 0\<rparr>"])
      (simp add: pull_method_def rep_def)
qed

lemma pull_method_empty: "rep h l [] \<Longrightarrow> pull_method h l = Some (FAILURE, h, l)"
  by (simp add: pull_method_def rep_def lrep_def)

section \<open>Properties\<close>

text \<open>
  C3: \<^verbatim>\<open>push\<close> adds its arguments at the front (the last one first), \<^verbatim>\<open>put\<close> adds them at the back in
  order; both write only nodes of the list and new ones, and release the lock.
\<close>

theorem list_push_put_correct:
  assumes "rep h l xs" and "room h (length vs)" and "low_room l (length vs)"
  shows "(\<exists>h' l' ys. push_method h l vs = Some (h', l') \<and> rep h' l' (ys @ xs) \<and>
       map snd ys = rev vs \<and> frame h h' (fst ` set xs)) \<and>
    (\<exists>h' l' ys. put_method h l vs = Some (h', l') \<and> rep h' l' (xs @ ys) \<and>
       map snd ys = vs \<and> frame h h' (fst ` set xs))"
  using push_method_spec[OF assms] put_method_spec[OF assms(1,2)] by blast

lemma list_push_put_correct_witness:
  "\<exists>h' l'. push_method sample_heap sample_list [40, 50] = Some (h', l') \<and>
     is_list h' l' [50, 40, 10, 20, 30]"
proof -
  have "low_room sample_list (length [40, 50 :: nat])" by (simp add: low_room_def)
  from conjunct1[OF list_push_put_correct[OF sample_rep _ this]] obtain h' l' ys where
    "push_method sample_heap sample_list [40, 50] = Some (h', l')" "rep h' l' (ys @ sample_nodes)"
    "map snd ys = rev [40, 50]" using sample_room by fastforce
  then show ?thesis
    by (intro exI[of _ h'] exI[of _ l']) (auto simp: is_list_rep intro!: exI[of _ "ys @ sample_nodes"])
qed

text \<open>
  C2: \<^verbatim>\<open>pop\<close> takes the first value off, \<^verbatim>\<open>pull\<close> the last one, and both fail on an empty list.
  \<^verbatim>\<open>pull\<close> always keeps the representation; \<^verbatim>\<open>pop\<close> keeps it exactly if there is no index array or
  the array's \<^verbatim>\<open>Upper\<close> is not 0 (else \<^verbatim>\<open>--Upper\<close> wraps around).
\<close>

theorem list_pop_pull_correct:
  assumes "rep h l xs"
  shows "if xs = []
    then pop_method h l = Some (FAILURE, h, l) \<and> pull_method h l = Some (FAILURE, h, l)
    else (\<exists>h' l'. pop_method h l = Some (SUCCESS (snd (hd xs)), h', l') \<and>
            (rep h' l' (tl xs) \<longleftrightarrow> Array l = None \<or> 0 < Upper l)) \<and>
         (\<exists>h' l'. pull_method h l = Some (SUCCESS (snd (last xs)), h', l') \<and> rep h' l' (butlast xs))"
proof (cases "xs = []")
  case True
  then show ?thesis using assms pop_method_empty[of h l] pull_method_empty[of h l] by simp
next
  case False
  then have "xs = hd xs # tl xs" "xs = butlast xs @ [last xs]" by simp_all
  with assms pop_method_spec[of h l "hd xs" "tl xs"] pull_method_spec[of h l "butlast xs" "last xs"]
  show ?thesis using False by (auto simp: window_open_def)
qed

lemma list_pop_pull_correct_witness:
  "\<exists>h' l'. pop_method sample_heap sample_list = Some (SUCCESS 10, h', l') \<and>
     rep h' l' [(2, 20), (3, 30)]"
  using list_pop_pull_correct[OF sample_rep] by auto

end
