(* ===== verification/ListIndex.thy ===== *)
theory ListIndex
  imports ListDeque
begin

text \<open>
  Access by position in \<^verbatim>\<open>dev/src/lib/Agg/List.c\<close>: the index array (\<^verbatim>\<open>build_index_array\<close>), the
  search for the node of a position from the head, the tail, the cached node or the array
  (\<^verbatim>\<open>_find_node\<close> and the same code in \<^verbatim>\<open>[]\<close>, \<^verbatim>\<open>delete\<close>, \<^verbatim>\<open>insert\<close>, \<^verbatim>\<open>splice\<close>), the method
  \<^verbatim>\<open>[]\<close> with one and with two positions. The locale \<open>node_finder\<close> states what a search promises
  to its callers.
\<close>

section \<open>Definitions\<close>

text \<open>
  \<^verbatim>\<open>while (Node) Node = (*Address++ = Node)->Next\<close>. The array has room for \<^verbatim>\<open>List->Length\<close>
  pointers; more nodes than that are written past its end.
\<close>

partial_function (option) node_ptrs :: "'v heap \<Rightarrow> ptr \<Rightarrow> ptr list option" where
  "node_ptrs h p =
     (if p = 0 then Some []
      else do { n \<leftarrow> get_next h p; ps \<leftarrow> node_ptrs h n; Some (p # ps) })"

definition build_index_array :: "'v heap \<Rightarrow> lst \<Rightarrow> lst option" where
  "build_index_array h l = do {
     ps \<leftarrow> node_ptrs h (Head l);
     if length ps \<le> Length l
     then Some (l\<lparr>Array := Some (ps @ replicate (Length l - length ps) 0),
                  Lower := 1, Upper := Length l\<rparr>)
     else None }"

fun walk_next :: "'v heap \<Rightarrow> ptr \<Rightarrow> nat \<Rightarrow> ptr option" where
  "walk_next h p 0 = Some p"
| "walk_next h p (Suc n) = do { q \<leftarrow> get_next h p; walk_next h q n }"

fun walk_prev :: "'v heap \<Rightarrow> ptr \<Rightarrow> nat \<Rightarrow> ptr option" where
  "walk_prev h p 0 = Some p"
| "walk_prev h p (Suc n) = do { q \<leftarrow> get_prev h p; walk_prev h q n }"

text \<open>How often \<^verbatim>\<open>do ... while (--Steps)\<close> runs: a counter that starts at 0 wraps around.\<close>

definition loop_count :: "int \<Rightarrow> nat" where
  "loop_count steps = (if ul steps = 0 then 2 ^ 32 else ul steps)"

definition walk_to :: "'v heap \<Rightarrow> lst \<Rightarrow> int \<Rightarrow> ptr option" where
  "walk_to h l i =
     (let c = int (Index l); n = int (Length l) in
      if 2 * i < c then walk_next h (Head l) (loop_count (i - 1))
      else if i < c then walk_prev h (Cache l) (loop_count (c - i))
      else if 2 * i < c + n then walk_next h (Cache l) (loop_count (i - c))
      else walk_prev h (Tail l) (loop_count (n - i)))"

definition in_window :: "lst \<Rightarrow> int \<Rightarrow> bool" where
  "in_window l i \<longleftrightarrow> Array l \<noteq> None \<and> Lower l \<le> ul i \<and> ul i \<le> Upper l"

definition array_read :: "lst \<Rightarrow> nat \<Rightarrow> ptr option" where
  "array_read l k =
     (case Array l of None \<Rightarrow> None | Some a \<Rightarrow> if k < length a then Some (a ! k) else None)"

definition seek :: "'v heap \<Rightarrow> lst \<Rightarrow> int \<Rightarrow> (ptr \<times> lst) option" where
  "seek h l i =
     (let c = int (Index l) in
      if i - c = -1 then do {
        p \<leftarrow> get_prev h (Cache l); Some (p, l\<lparr>Index := ul i, Cache := p\<rparr>) }
      else if i - c = 0 then Some (Cache l, l)
      else if i - c = 1 then do {
        p \<leftarrow> get_next h (Cache l); Some (p, l\<lparr>Index := ul i, Cache := p\<rparr>) }
      else if in_window l i then do {
        p \<leftarrow> array_read l (ul i - Lower l); Some (p, l) }
      else
        (let l = l\<lparr>Access := dec32 (Access l)\<rparr> in
         if Access l = 0 then do {
           l \<leftarrow> build_index_array h l;
           p \<leftarrow> array_read l (ul i - 1);
           Some (p, l) }
         else do {
           p \<leftarrow> walk_to h l i;
           Some (p, l\<lparr>Index := ul i, Cache := p\<rparr>) }))"

definition find_node :: "'v heap \<Rightarrow> lst \<Rightarrow> int \<Rightarrow> (ptr \<times> lst) option" where
  "find_node h l i =
     (if i = 1 then Some (Head l, l)
      else if i = int (Length l) then Some (Tail l, l)
      else seek h l i)"

text \<open>\<^verbatim>\<open>if (Index <= 0) Index += Length + 1\<close>: positions from the end.\<close>

definition resolve :: "lst \<Rightarrow> int \<Rightarrow> int" where
  "resolve l i = (if i \<le> 0 then i + int (Length l) + 1 else i)"

text \<open>
  \<^verbatim>\<open>list[n]\<close> returns a reference to the value of a node (here the node) and the value. The
  positions 1 and \<open>Length\<close> are served under the read lock.
\<close>

definition index_method ::
  "'v heap \<Rightarrow> lst \<Rightarrow> int \<Rightarrow> ((ptr \<times> 'v, unit, unit) reply \<times> lst) option" where
  "index_method h l i = do {
     l \<leftarrow> rdlock l;
     let i = resolve l i;
     let n = int (Length l);
     if i < 1 \<or> n < i then do { l \<leftarrow> unlock l; Some (FAILURE, l) }
     else if i = 1 then do {
       v \<leftarrow> get_value h (Head l); l \<leftarrow> unlock l; Some (SUCCESS (Head l, v), l) }
     else if i = n then do {
       v \<leftarrow> get_value h (Tail l); l \<leftarrow> unlock l; Some (SUCCESS (Tail l, v), l) }
     else do {
       l \<leftarrow> unlock l;
       l \<leftarrow> wrlock l;
       (p, l) \<leftarrow> seek h l i;
       v \<leftarrow> get_value h p;
       l \<leftarrow> unlock l;
       Some (SUCCESS (p, v), l) } }"

text \<open>\<^verbatim>\<open>for (Temp = Head->Next; Temp != Tail; Temp = Temp->Next) {...}\<close>\<close>

partial_function (option) copy_until ::
  "'v heap \<Rightarrow> ptr \<Rightarrow> ptr \<Rightarrow> ptr \<Rightarrow> (ptr \<times> 'v heap) option" where
  "copy_until h node t stop =
     (if t = stop then Some (node, h)
      else do {
        v \<leftarrow> get_value h t;
        (q, h) \<leftarrow> link_new h node v;
        t \<leftarrow> get_next h t;
        copy_until h q t stop })"

definition slice_method ::
  "'v heap \<Rightarrow> lst \<Rightarrow> int \<Rightarrow> int \<Rightarrow> ((lst, unit, unit) reply \<times> 'v heap \<times> lst) option" where
  "slice_method h l i j = do {
     l \<leftarrow> rdlock l;
     let n = int (Length l);
     let i = resolve l i;
     if i < 1 \<or> n < i then do { l \<leftarrow> unlock l; Some (FAILURE, h, l) } else do {
     let j = resolve l j;
     if j < i \<or> n + 1 < j then do { l \<leftarrow> unlock l; Some (FAILURE, h, l) }
     else if i = j then do { l \<leftarrow> unlock l; Some (SUCCESS (zero_list\<lparr>Access := 4\<rparr>), h, l) }
     else do {
       l \<leftarrow> unlock l;
       l \<leftarrow> wrlock l;
       (hd, l) \<leftarrow> find_node h l i;
       (tl, l) \<leftarrow> (if j \<le> n then find_node h l j else Some (0, l));
       v \<leftarrow> get_value h hd;
       (p, h) \<leftarrow> new_node h v;
       (t, h) \<leftarrow>
         (if hd \<noteq> tl then do { q \<leftarrow> get_next h hd; copy_until h p q tl } else Some (p, h));
       l \<leftarrow> unlock l;
       Some (SUCCESS (zero_list\<lparr>Head := p, Cache := p, Index := 1, Length := ul (j - i),
                        Tail := t, Access := 4\<rparr>), h, l) } } }"

section \<open>Walking along a chain\<close>

lemma walk_numeral [simp]:
  "walk_next h p (numeral k) = do { q \<leftarrow> get_next h p; walk_next h q (pred_numeral k) }"
  "walk_prev h p (numeral k) = do { q \<leftarrow> get_prev h p; walk_prev h q (pred_numeral k) }"
  by (simp_all add: numeral_eq_Suc)

lemma walk_next_spec:
  assumes "heap_ok h" and "chain (Nodes h) a xs b" and "i + k < length xs"
  shows "walk_next h (fst (xs ! i)) k = Some (fst (xs ! (i + k)))"
  using assms(3)
proof (induction k arbitrary: i)
  case 0
  then show ?case by simp
next
  case (Suc k)
  then have "get_next h (fst (xs ! i)) = Some (fst (xs ! Suc i))"
    using chain_nth[OF assms(2), of i] assms(1) by (simp add: get_next_def)
  with Suc.IH[of "Suc i"] Suc.prems show ?case by simp
qed

lemma walk_prev_spec:
  assumes "heap_ok h" and "chain (Nodes h) a xs b" and "k \<le> i" and "i < length xs"
  shows "walk_prev h (fst (xs ! i)) k = Some (fst (xs ! (i - k)))"
  using assms(3,4)
proof (induction k arbitrary: i)
  case 0
  then show ?case by simp
next
  case (Suc k)
  then have "get_prev h (fst (xs ! i)) = Some (fst (xs ! (i - 1)))"
    using chain_nth[OF assms(2), of i] assms(1) by (auto simp: get_prev_def)
  with Suc.IH[of "i - 1"] Suc.prems show ?case by simp
qed

lemma loop_count_pos [simp]: "0 < n \<Longrightarrow> n < 4294967296 \<Longrightarrow> loop_count (int n) = n"
  by (simp add: loop_count_def)

text \<open>Whatever way is chosen, the walk ends at the node of the position.\<close>

lemma lrep_facts:
  assumes "lrep h l xs" and "xs \<noteq> []"
  shows "heap_ok h" and "chain (Nodes h) 0 xs 0" and "Length l = length xs"
    and "Head l = fst (xs ! 0)" and "Tail l = fst (xs ! (length xs - 1))"
    and "Cache l = fst (xs ! (Index l - 1))" and "1 \<le> Index l" and "Index l \<le> length xs"
  using assms by (auto simp: lrep_def cache_ok_def first_nth final_nth)

lemma walk_to_spec:
  assumes "lrep h l xs" and "1 < n" and "n < length xs" and "n \<noteq> Index l"
  shows "walk_to h l (int n) = Some (fst (xs ! (n - 1)))"
proof -
  have ne: "xs \<noteq> []" using assms(3) by auto
  note f = lrep_facts[OF assms(1) ne]
  note ok = f(1,2) and L = f(3) and ht = f(4,5) and c = f(6-8)
  have len: "length xs < 4294967296" using lrep_length[OF assms(1)] by (simp add: max_nodes_def)
  have diff: "loop_count (int j - int k) = j - k" if "k < j" "j < 4294967296" for j k
    using loop_count_pos[of "j - k"] that by (simp add: of_nat_diff)
  have one: "loop_count (int n - 1) = n - 1" using diff[of 1 n] assms(2,3) len by simp
  consider "2 * n < Index l" | "n < Index l" "\<not> 2 * n < Index l"
    | "Index l < n" "2 * n < Index l + length xs"
    | "Index l < n" "\<not> 2 * n < Index l + length xs"
    using assms(4) by linarith
  then show ?thesis
  proof cases
    case 1
    then show ?thesis using walk_next_spec[OF ok, of 0 "n - 1"] assms(2,3) ht
      by (simp add: walk_to_def Let_def one)
  next
    case 2
    then show ?thesis using walk_prev_spec[OF ok, of "Index l - n" "Index l - 1"] c len assms(2,3) diff
      by (simp add: walk_to_def Let_def)
  next
    case 3
    then show ?thesis using walk_next_spec[OF ok, of "Index l - 1" "n - Index l"] c len assms(2,3) L diff
      by (simp add: walk_to_def Let_def)
  next
    case 4
    then show ?thesis using walk_prev_spec[OF ok, of "length xs - n" "length xs - 1"] len assms(2,3) L ht diff
      by (simp add: walk_to_def Let_def)
  qed
qed

lemma node_ptrs_spec:
  "heap_ok h \<Longrightarrow> chain (Nodes h) a xs 0 \<Longrightarrow> node_ptrs h (first xs 0) = Some (map fst xs)"
proof (induction xs arbitrary: a)
  case Nil
  then show ?case by (simp add: node_ptrs.simps)
next
  case (Cons x xs)
  then have "fst x \<noteq> 0" using chain_nonnull by fastforce
  with Cons show ?case by (subst node_ptrs.simps) (auto simp: get_next_def)
qed

lemma build_index_array_spec:
  assumes "lrep h l xs"
  obtains l' where "build_index_array h l = Some l'" and "lrep h l' xs"
    and "Array l' = Some (map fst xs)" and "Lower l' = 1" and "Upper l' = length xs"
    and "Lock l' = Lock l" and "Access l' = Access l"
proof -
  have "node_ptrs h (Head l) = Some (map fst xs)"
    using assms node_ptrs_spec[of h 0 xs] by (simp add: lrep_def)
  moreover have "Length l = length xs" using assms by (simp add: lrep_def)
  moreover have "lrep h (l\<lparr>Array := Some (map fst xs), Lower := 1, Upper := length xs\<rparr>) xs"
    using assms by (auto simp: lrep_def cache_ok_def array_ok_def window_def)
  ultimately show ?thesis
    by (intro that[of "l\<lparr>Array := Some (map fst xs), Lower := 1, Upper := length xs\<rparr>"])
      (auto simp: build_index_array_def)
qed

lemma lrep_cache_move:
  assumes "lrep h l xs" and "1 \<le> n" and "n \<le> length xs"
  shows "lrep h (l\<lparr>Index := n, Cache := fst (xs ! (n - 1))\<rparr>) xs"
  using assms by (auto simp: lrep_def cache_ok_def array_ok_def)

lemma in_window_read:
  assumes "lrep h l xs" and "in_window l (int n)" and "n < 4294967296"
  shows "array_read l (n - Lower l) = Some (fst (xs ! (n - 1)))"
  using assms by (auto simp: lrep_def array_ok_def in_window_def array_read_def window_def)

lemma seek_spec:
  assumes "lrep h l xs" and "1 < n" and "n < length xs"
  shows "\<exists>l'. seek h l (int n) = Some (fst (xs ! (n - 1)), l') \<and> lrep h l' xs \<and> Lock l' = Lock l"
proof -
  have ne: "xs \<noteq> []" using assms(3) by auto
  note f = lrep_facts[OF assms(1) ne]
  note ok = f(1,2) and c = f(6-8)
  have len: "n < 4294967296" using lrep_length[OF assms(1)] assms(3) by (simp add: max_nodes_def)
  have mv: "lrep h (l\<lparr>Index := n, Cache := fst (xs ! (n - 1))\<rparr>) xs"
    using assms by (intro lrep_cache_move) auto
  have acc: "lrep h (l\<lparr>Access := k\<rparr>) xs" for k using assms(1) by (simp add: lrep_def)
  consider "Suc n = Index l" | "n = Index l" | "n = Suc (Index l)"
    | "Suc n \<noteq> Index l" "n \<noteq> Index l" "n \<noteq> Suc (Index l)" by blast
  then show ?thesis
  proof cases
    case 1
    then have "get_prev h (Cache l) = Some (fst (xs ! (n - 1)))"
      using chain_nth[OF ok(2), of n] ok(1) c assms(2,3) by (simp add: get_prev_def flip: 1)
    then show ?thesis using mv len by (simp add: seek_def flip: 1)
  next
    case 2
    then show ?thesis using assms(1) c by (simp add: seek_def)
  next
    case 3
    then have "get_next h (Cache l) = Some (fst (xs ! (n - 1)))"
      using chain_nth[OF ok(2), of "Index l - 1"] ok(1) c assms(2,3) by (simp add: get_next_def)
    then show ?thesis using mv len 3 by (simp add: seek_def nat_add_distrib)
  next
    case 4
    then have ne4: "int n - int (Index l) \<noteq> -1" "int n - int (Index l) \<noteq> 0"
      "int n - int (Index l) \<noteq> 1" by linarith+
    let ?l = "l\<lparr>Access := dec32 (Access l)\<rparr>"
    show ?thesis
    proof (cases "in_window l (int n)")
      case True
      then show ?thesis using ne4 in_window_read[OF assms(1) True len] assms(1) len
        by (auto simp: seek_def)
    next
      case False
      show ?thesis
      proof (cases "Access ?l = 0")
        case True
        from build_index_array_spec[OF acc] obtain l' where
          "build_index_array h ?l = Some l'" "lrep h l' xs" "Array l' = Some (map fst xs)"
          "Lock l' = Lock ?l" by blast
        then show ?thesis using ne4 False True assms(2,3) len
          by (auto simp: seek_def array_read_def)
      next
        case f: False
        have "walk_to h ?l (int n) = Some (fst (xs ! (n - 1)))"
          by (rule walk_to_spec[OF acc assms(2,3)]) (use 4 in simp)
        moreover have "lrep h (?l\<lparr>Index := n, Cache := fst (xs ! (n - 1))\<rparr>) xs"
          using acc assms by (intro lrep_cache_move) auto
        ultimately show ?thesis using ne4 False f len by (auto simp: seek_def)
      qed
    qed
  qed
qed

lemma find_node_spec:
  assumes "lrep h l xs" and "1 \<le> n" and "n \<le> length xs"
  shows "\<exists>l'. find_node h l (int n) = Some (fst (xs ! (n - 1)), l') \<and> lrep h l' xs \<and> Lock l' = Lock l"
proof -
  have ne: "xs \<noteq> []" using assms(2,3) by auto
  note ht = lrep_facts(3-5)[OF assms(1) ne]
  consider "n = 1" | "n = length xs" "n \<noteq> 1" | "1 < n" "n < length xs" using assms(2,3) by linarith
  then show ?thesis
    by cases (use assms(1) ht seek_spec[OF assms(1), of n] in \<open>auto simp: find_node_def\<close>)
qed

section \<open>The interface of a search\<close>

text \<open>
  What the operations that work at a position need from the code that finds its node: the
  node, and a list that is still represented by the same nodes under the same lock. \<open>pos\<close>
  says which positions of a list of a given length a search accepts.
\<close>

locale node_finder =
  fixes find :: "'v heap \<Rightarrow> lst \<Rightarrow> int \<Rightarrow> (ptr \<times> lst) option"
    and pos :: "nat \<Rightarrow> nat \<Rightarrow> bool"
  assumes find_nth: "lrep h l xs \<Longrightarrow> pos n (length xs) \<Longrightarrow>
      \<exists>l'. find h l (int n) = Some (fst (xs ! (n - 1)), l') \<and> lrep h l' xs \<and> Lock l' = Lock l"
    and pos_range: "pos n k \<Longrightarrow> 1 \<le> n \<and> n \<le> k"
begin

lemma find_split:
  assumes "lrep h l xs" and "pos n (length xs)"
  obtains as x bs l' where "xs = as @ x # bs" and "length as = n - 1"
    and "find h l (int n) = Some (fst x, l')" and "lrep h l' (as @ x # bs)" and "Lock l' = Lock l"
proof -
  from pos_range[OF assms(2)] obtain as x bs where
    s: "xs = as @ x # bs" "length as = n - 1" using split_at by metis
  then have "xs ! (n - 1) = x" by (metis nth_append_length)
  with find_nth[OF assms] s that show ?thesis by metis
qed

lemma find_value:
  assumes "lrep h l xs" and "pos n (length xs)"
  shows "\<exists>l'. find h l (int n) = Some (fst (xs ! (n - 1)), l') \<and> lrep h l' xs \<and>
     Lock l' = Lock l \<and> get_value h (fst (xs ! (n - 1))) = Some (snd (xs ! (n - 1)))"
proof -
  have "n - 1 < length xs" using pos_range[OF assms(2)] by auto
  then have "get_value h (fst (xs ! (n - 1))) = Some (snd (xs ! (n - 1)))"
    using assms(1) chain_nth[of "Nodes h" 0 xs 0 "n - 1"] by (simp add: get_value_def lrep_def)
  with find_nth[OF assms] show ?thesis by blast
qed

end

interpretation seek: node_finder seek "\<lambda>n k. 1 < n \<and> n < k"
  by unfold_locales (elim conjE, rule seek_spec, auto)

interpretation node_at: node_finder find_node "\<lambda>n k. 1 \<le> n \<and> n \<le> k"
  by unfold_locales (elim conjE, rule find_node_spec, auto)

section \<open>Indexing and slicing\<close>

text \<open>The 1-based position a legal index denotes, from the front or from the back.\<close>

definition position :: "int \<Rightarrow> nat \<Rightarrow> nat" where
  "position i n = (if i \<le> 0 then nat (i + int n + 1) else nat i)"

lemma resolve_position:
  assumes "Length l = n" and "1 \<le> resolve l i"
  shows "resolve l i = int (position i n)" and "1 \<le> position i n"
  using assms by (auto simp: resolve_def position_def split: if_splits)

lemma resolve_Lock [simp]: "resolve (l\<lparr>Lock := k\<rparr>) i = resolve l i"
  by (simp add: resolve_def)

lemma index_method_spec:
  assumes "rep h l xs" and "n = position i (length xs)" and "1 \<le> resolve l i" and "n \<le> length xs"
  shows "\<exists>l'. index_method h l i = Some (SUCCESS (xs ! (n - 1)), l') \<and> rep h l' xs"
proof -
  have L: "Length l = length xs" "Lock l = 0" "lrep h l xs" using assms(1) by (auto simp: rep_def lrep_def)
  note r = resolve_position[OF L(1) assms(3), folded assms(2)]
  have ne: "xs \<noteq> []" using r(2) assms(4) by auto
  note f = lrep_facts[OF L(3) ne]
  have v: "k < length xs \<Longrightarrow> get_value h (fst (xs ! k)) = Some (snd (xs ! k))" for k
    using chain_nth[OF f(2), of k] f(1) by (simp add: get_value_def)
  have z: "l\<lparr>Lock := 0\<rparr> = l" using L(2) by simp
  consider "n = 1" | "n = length xs" "n \<noteq> 1" | "1 < n" "n < length xs" using r(2) assms(4) by linarith
  then show ?thesis
  proof cases
    case 1
    then show ?thesis using L r assms(1) f v[of 0] ne z by (simp add: index_method_def Let_def)
  next
    case 2
    then show ?thesis using L r assms(1) f v[of "n - 1"] ne z by (simp add: index_method_def Let_def)
  next
    case 3
    have "lrep h (l\<lparr>Lock := -1\<rparr>) xs" using L(3) by simp
    from seek.find_value[OF this, of n] 3 obtain l' where
      "seek h (l\<lparr>Lock := -1\<rparr>) (int n) = Some (fst (xs ! (n - 1)), l')" "lrep h l' xs"
      "Lock l' = -1" "get_value h (fst (xs ! (n - 1))) = Some (snd (xs ! (n - 1)))" by auto
    then show ?thesis using L r 3 by (simp add: index_method_def Let_def rep_def)
  qed
qed

lemma index_method_out:
  assumes "rep h l xs" and "resolve l i < 1 \<or> int (length xs) < resolve l i"
  shows "index_method h l i = Some (FAILURE, l)"
  using assms by (auto simp: index_method_def Let_def rep_def lrep_def)

lemma copy_until_append:
  assumes "heap_ok h" and "room h (length ys)" and "chain (Nodes h) b ys e" and "e \<notin> fst ` set ys"
    and "Nodes h p = Some \<lparr>Value = v, Next = 0, Prev = a\<rparr>" and "p \<notin> fst ` set ys"
  shows "copy_until h p (first ys e) e = append_nodes h p (map snd ys)"
  using assms
proof (induction ys arbitrary: h p v a b)
  case Nil
  then show ?case by (simp add: copy_until.simps)
next
  case (Cons y ys)
  have rm: "room h (Suc (length ys))" using Cons.prems(2) by simp
  from link_new_spec[OF Cons.prems(1) rm Cons.prems(5), of "snd y"] obtain h1 where
    h1: "link_new h p (snd y) = Some (Fresh h, h1)"
      "Nodes h1 = (Nodes h)(p \<mapsto> \<lparr>Value = v, Next = Fresh h, Prev = a\<rparr>,
                            Fresh h \<mapsto> \<lparr>Value = snd y, Next = 0, Prev = p\<rparr>)"
      "Fresh h1 = Suc (Fresh h)" "heap_ok h1" "room h1 (length ys)" by blast
  have F: "Fresh h \<notin> fst ` set (y # ys)"
    using chain_fresh[OF Cons.prems(1,3)] .
  have ch: "chain (Nodes h1) b (y # ys) e"
    unfolding h1(2) using Cons.prems(3,6) F by (simp del: chain.simps)
  have "copy_until h1 (Fresh h) (first ys e) e = append_nodes h1 (Fresh h) (map snd ys)"
  proof (rule Cons.IH[OF h1(4,5)])
    show "chain (Nodes h1) (fst y) ys e" using ch by simp
    show "Nodes h1 (Fresh h) = Some \<lparr>Value = snd y, Next = 0, Prev = p\<rparr>" by (simp add: h1(2))
  qed (use F Cons.prems(4) in auto)
  then show ?case
    using h1 ch Cons.prems(1,3,4)
    by (subst copy_until.simps) (auto simp: get_value_def get_next_def)
qed

text \<open>Cutting a list at two positions.\<close>

lemma cut_at:
  assumes "1 \<le> n" and "n < m" and "m \<le> Suc (length xs)"
  obtains as y ys cs where "xs = as @ y # ys @ cs" and "length as = n - 1"
    and "length ys = m - n - 1"
proof -
  let ?b = "drop n xs"
  have "xs = take (n - 1) xs @ xs ! (n - 1) # ?b"
    using nth_split[of "n - 1" xs] assms by simp
  then have "xs = take (n - 1) xs @ xs ! (n - 1) # take (m - n - 1) ?b @ drop (m - n - 1) ?b"
    by (metis append_take_drop_id)
  moreover have "length (take (n - 1) xs) = n - 1" "length (take (m - n - 1) ?b) = m - n - 1"
    using assms by auto
  ultimately show ?thesis by (rule that)
qed

lemma slice_nodes:
  assumes "lrep h l (as @ y # ys @ cs)" and "room h (Suc (length ys))"
  obtains h1 h' where "new_node h (snd y) = Some (Fresh h, h1)"
    and "get_next h1 (fst y) = Some (first ys (first cs 0))"
    and "copy_until h1 (Fresh h) (first ys (first cs 0)) (first cs 0) =
           Some (Fresh h + length ys, h')"
    and "grown h h' (snd y # map snd ys)" and "fst y \<noteq> first cs 0"
    and "get_value h (fst y) = Some (snd y)"
proof -
  have ok: "heap_ok h" using assms(1) by (simp add: lrep_def)
  have rm: "room h (Suc (length (map snd ys)))" using assms(2) by simp
  from build_nodes[OF ok rm, of "snd y"] obtain h1 h' where
    h1: "new_node h (snd y) = Some (Fresh h, h1)" "grown h h' (snd y # map snd ys)"
      "append_nodes h1 (Fresh h) (map snd ys) = Some (Fresh h + length (map snd ys), h')"
      "heap_ok h1" "room h1 (length (map snd ys))" "frame h h1 {}"
      "Nodes h1 (Fresh h) = Some \<lparr>Value = snd y, Next = 0, Prev = 0\<rparr>" by blast
  have l1: "lrep h1 l (as @ y # ys @ cs)" using lrep_frame[OF assms(1) h1(6,4)] by simp
  have nn: "0 \<notin> fst ` set (as @ y # ys @ cs)" and F: "Fresh h \<notin> fst ` set (as @ y # ys @ cs)"
    and di: "distinct (map fst (as @ y # ys @ cs))"
    using assms(1) chain_nonnull[of h] chain_fresh[of h] unfolding lrep_def by blast+
  have e: "first cs 0 \<notin> fst ` set ys" "fst y \<noteq> first cs 0"
    using nn di by (cases cs; auto)+
  have "copy_until h1 (Fresh h) (first ys (first cs 0)) (first cs 0) = append_nodes h1 (Fresh h) (map snd ys)"
    using h1(4,5,7) l1 e F by (intro copy_until_append[where b = "fst y"]) (auto simp: lrep_def)
  moreover have "Nodes h1 (fst y) = Some \<lparr>Value = snd y, Next = first ys (first cs 0), Prev = final as 0\<rparr>"
    "Nodes h (fst y) = Some \<lparr>Value = snd y, Next = first ys (first cs 0), Prev = final as 0\<rparr>"
    using l1 assms(1) by (simp_all add: lrep_def)
  ultimately show ?thesis using h1 e ok
    by (intro that[of h1 h']) (simp_all add: get_next_def get_value_def)
qed

lemma slice_method_spec:
  assumes "rep h l xs" and "n = position i (length xs)" and "m = position j (length xs)"
    and "1 \<le> resolve l i" and "1 \<le> resolve l j" and "n \<le> m" and "n \<le> length xs"
    and "m \<le> Suc (length xs)" and "room h (m - n)"
  shows "\<exists>l2 h' l'. slice_method h l i j = Some (SUCCESS l2, h', l') \<and> rep h' l' xs \<and>
    makes h h' l2 (take (m - n) (drop (n - 1) (map snd xs)))"
proof -
  have L: "Length l = length xs" "Lock l = 0" "lrep h l xs" and ok: "heap_ok h"
    using assms(1) by (auto simp: rep_def lrep_def)
  note ri = resolve_position[OF L(1) assms(4), folded assms(2)]
  note rj = resolve_position[OF L(1) assms(5), folded assms(3)]
  have z: "l\<lparr>Lock := 0\<rparr> = l" using L(2) by simp
  show ?thesis
  proof (cases "n = m")
    case True
    have "makes h h (zero_list\<lparr>Access := 4\<rparr>) []"
      using ok by (intro grown_makes) (auto simp: zero_list_def)
    with True show ?thesis using L ri rj assms z by (simp add: slice_method_def Let_def)
  next
    case False
    have "n < m" using False assms(6) by simp
    from cut_at[OF ri(2) this assms(8)] obtain as y ys cs where
      s: "xs = as @ y # ys @ cs" "length as = n - 1" "length ys = m - n - 1" by blast
    have "lrep h (l\<lparr>Lock := -1\<rparr>) xs" using L(3) by simp
    from node_at.find_nth[OF this, of n] ri(2) assms(7) s obtain l1 where
      l1: "find_node h (l\<lparr>Lock := -1\<rparr>) (int n) = Some (fst y, l1)" "lrep h l1 xs" "Lock l1 = -1"
      by (auto simp: nth_append)
    have lx: "length xs = m - 1 + length cs" using s \<open>n < m\<close> ri(2) by simp
    have "\<exists>l2. (if int m \<le> int (length xs) then find_node h l1 (int m) else Some (0, l1)) =
      Some (first cs 0, l2) \<and> lrep h l2 xs \<and> Lock l2 = -1"
    proof (cases "m \<le> length xs")
      case True
      then have "cs \<noteq> []" using lx \<open>n < m\<close> by auto
      then obtain c cs' where c: "cs = c # cs'" by (cases cs) auto
      have m: "m - 1 = length (as @ y # ys)" using s False assms(6) ri(2) by auto
      have "xs ! (m - 1) = c" unfolding m using s(1) c by (auto simp: nth_append)
      then show ?thesis using True node_at.find_nth[OF l1(2), of m] rj(2) l1(3) c by auto
    next
      case False
      with lx assms(8) \<open>n < m\<close> have "length cs = 0" by linarith
      then have "cs = []" by simp
      then show ?thesis using False l1 by simp
    qed
    then obtain l2 where l2: "(if int m \<le> int (length xs) then find_node h l1 (int m) else Some (0, l1)) =
      Some (first cs 0, l2)" "lrep h l2 xs" "Lock l2 = -1" by blast
    have mn: "m - n = Suc (length ys)" using s(3) \<open>n < m\<close> by linarith
    have "room h (Suc (length ys))" using assms(9) unfolding mn .
    from slice_nodes[OF l2(2)[unfolded s(1)] this] obtain h1 h' where
      c: "new_node h (snd y) = Some (Fresh h, h1)"
        "get_next h1 (fst y) = Some (first ys (first cs 0))"
        "copy_until h1 (Fresh h) (first ys (first cs 0)) (first cs 0) = Some (Fresh h + length ys, h')"
        "grown h h' (snd y # map snd ys)" "fst y \<noteq> first cs 0"
        "get_value h (fst y) = Some (snd y)" by blast
    let ?l2 = "zero_list\<lparr>Head := Fresh h, Cache := Fresh h, Index := 1, Length := m - n,
                 Tail := Fresh h + length ys, Access := 4\<rparr>"
    have len: "int m - int n = int (m - n)" "m - n < 4294967296" "m - n = Suc (length ys)"
      using \<open>n < m\<close> assms(8) lrep_length[OF L(3)] mn by (auto simp: max_nodes_def)
    have mk: "makes h h' ?l2 (snd y # map snd ys)"
      using c(4) len(3) by (intro grown_makes) (auto simp: zero_list_def)
    have "rep h' (l2\<lparr>Lock := 0\<rparr>) xs" using makes_keeps[OF mk l2(2)] by simp
    moreover have "take (m - n) (drop (n - 1) (map snd xs)) = snd y # map snd ys"
      using s len(3) by simp
    moreover have "slice_method h l i j = Some (SUCCESS ?l2, h', l2\<lparr>Lock := 0\<rparr>)"
      using L ri rj assms(6-8) False l1(1) l2 c len by (simp add: slice_method_def Let_def del: bind_eq_Some_conv)
    ultimately show ?thesis using mk by simp
  qed
qed

lemma slice_method_out:
  assumes "rep h l xs" and "resolve l i < 1 \<or> int (length xs) < resolve l i \<or>
    resolve l j < resolve l i \<or> int (length xs) + 1 < resolve l j"
  shows "slice_method h l i j = Some (FAILURE, h, l)"
  using assms by (auto simp: slice_method_def Let_def rep_def lrep_def)

section \<open>Properties\<close>

text \<open>
  C1: \<^verbatim>\<open>list[i]\<close> returns the node and the value at the position that \<open>i\<close> denotes, from the
  front or from the back, whichever of the cached node, the index array, the head or the tail
  it starts from, and fails exactly outside the list; the list stays represented by the same
  nodes and is unlocked.
\<close>

theorem list_index_correct:
  assumes "rep h l xs"
  shows "if 1 \<le> resolve l i \<and> resolve l i \<le> int (length xs)
    then \<exists>l'. index_method h l i = Some (SUCCESS (xs ! (position i (length xs) - 1)), l') \<and> rep h l' xs
    else index_method h l i = Some (FAILURE, l)"
proof -
  have "Length l = length xs" using assms by (simp add: rep_def lrep_def)
  then show ?thesis
    using resolve_position[of l "length xs" i] index_method_spec[OF assms refl, of i]
      index_method_out[OF assms, of i] by fastforce
qed

lemma list_index_correct_witness:
  "\<exists>l'. index_method sample_heap sample_list (- 2) = Some (SUCCESS (2, 20), l') \<and>
     rep sample_heap l' sample_nodes"
  using list_index_correct[OF sample_rep, of "- 2"] by (simp add: resolve_def position_def)

text \<open>
  \<^verbatim>\<open>list[i, j]\<close> returns a new list of the values from position \<open>i\<close> up to but not including
  \<open>j\<close>, and keeps the list.
\<close>

theorem list_slice_correct:
  assumes "rep h l xs" and "1 \<le> resolve l i" and "resolve l i \<le> int (length xs)"
    and "resolve l i \<le> resolve l j" and "resolve l j \<le> int (length xs) + 1"
    and "room h (position j (length xs) - position i (length xs))"
  shows "\<exists>l2 h' l'. slice_method h l i j = Some (SUCCESS l2, h', l') \<and> rep h' l' xs \<and>
    makes h h' l2 (take (position j (length xs) - position i (length xs))
                     (drop (position i (length xs) - 1) (map snd xs)))"
proof -
  have L: "Length l = length xs" and j: "1 \<le> resolve l j"
    using assms by (auto simp: rep_def lrep_def)
  note r = resolve_position[OF L assms(2)] resolve_position[OF L j]
  show ?thesis by (rule slice_method_spec[OF assms(1) refl refl assms(2) j _ _ _ assms(6)])
      (use r assms in auto)
qed

lemma list_slice_correct_witness:
  "\<exists>l2 h' l'. slice_method sample_heap sample_list 2 0 = Some (SUCCESS l2, h', l') \<and>
     is_list h' l2 [20, 30]"
  using list_slice_correct[OF sample_rep, of 2 0] makes_is_list
  by (fastforce simp: resolve_def position_def)

end
