(* ===== verification/ListEdit.thy ===== *)
theory ListEdit
  imports ListIndex
begin

text \<open>
  Edits at a position in \<^verbatim>\<open>dev/src/lib/Agg/List.c\<close>: \<^verbatim>\<open>delete\<close>, \<^verbatim>\<open>insert\<close> and \<^verbatim>\<open>splice\<close>. They share
  the search of \<^verbatim>\<open>_find_node\<close> without its changes to the cache (\<open>locate\<close>, a second instance of
  the locale \<open>node_finder\<close>).
\<close>

section \<open>Definitions\<close>

text \<open>The \<^verbatim>\<open>switch\<close> and the chain of \<^verbatim>\<open>else if\<close> that the three methods repeat.\<close>

definition locate :: "'v heap \<Rightarrow> lst \<Rightarrow> int \<Rightarrow> ptr option" where
  "locate h l i =
     (let c = int (Index l) in
      if i - c = -1 then get_prev h (Cache l)
      else if i - c = 0 then Some (Cache l)
      else if i - c = 1 then get_next h (Cache l)
      else if in_window l i then array_read l (ul i - Lower l)
      else walk_to h l i)"

definition delete_node :: "'v heap \<Rightarrow> lst \<Rightarrow> ptr \<Rightarrow> int \<Rightarrow> ('v \<times> 'v heap \<times> lst) option" where
  "delete_node h l node i = do {
     n \<leftarrow> get_next h node;
     p \<leftarrow> get_prev h node;
     h \<leftarrow> set_next h p n;
     h \<leftarrow> set_prev h n p;
     v \<leftarrow> get_value h node;
     Some (v, h, l\<lparr>Length := dec32 (Length l), Index := ul i, Cache := n, Array := None,
                   Access := 4\<rparr>) }"

definition delete_method ::
  "'v heap \<Rightarrow> lst \<Rightarrow> int \<Rightarrow> (('v, unit, unit) reply \<times> 'v heap \<times> lst) option" where
  "delete_method h l i = do {
     l \<leftarrow> wrlock l;
     let n = int (Length l);
     let i = resolve l i;
     if i < 1 \<or> n < i then do { l \<leftarrow> unlock l; Some (FAILURE, h, l) }
     else if i = 1 then do {
       let node = Head l;
       (h, l) \<leftarrow> unlink_first h l node;
       let l = l\<lparr>Index := dec32 (Index l)\<rparr>;
       let l = (if Index l = 0 then l\<lparr>Index := 1, Cache := Head l\<rparr> else l);
       l \<leftarrow> unlock (l\<lparr>Access := 4\<rparr>);
       v \<leftarrow> get_value h node;
       Some (SUCCESS v, h, l) }
     else if i = n then do {
       let node = Tail l;
       (h, l) \<leftarrow> unlink_last h l node;
       let l = (if int (Index l) = n then l\<lparr>Index := 1, Cache := Head l\<rparr> else l);
       l \<leftarrow> unlock (l\<lparr>Access := 4\<rparr>);
       v \<leftarrow> get_value h node;
       Some (SUCCESS v, h, l) }
     else do {
       node \<leftarrow> locate h l i;
       (v, h, l) \<leftarrow> delete_node h l node i;
       l \<leftarrow> unlock l;
       Some (SUCCESS v, h, l) } }"

text \<open>
  \<^verbatim>\<open>for (int I = Count; --I >= 0;) {...}\<close>: the values come in reverse, each one before the
  node inserted last.
\<close>

fun insert_loop :: "'v heap \<Rightarrow> lst \<Rightarrow> ptr \<Rightarrow> 'v list \<Rightarrow> ('v heap \<times> lst) option" where
  "insert_loop h l node [] = Some (h, l)"
| "insert_loop h l node (v # vs) = do {
     (q, h) \<leftarrow> new_node h v;
     p \<leftarrow> get_prev h node;
     h \<leftarrow> set_prev h q p;
     h \<leftarrow> set_next h p q;
     h \<leftarrow> set_next h q node;
     h \<leftarrow> set_prev h node q;
     insert_loop h (l\<lparr>Length := inc32 (Length l)\<rparr>) q vs }"

definition insert_nodes :: "'v heap \<Rightarrow> lst \<Rightarrow> ptr \<Rightarrow> 'v list \<Rightarrow> ('v heap \<times> lst) option" where
  "insert_nodes h l node vs = do {
     (h, l) \<leftarrow> insert_loop h l node (rev vs);
     Some (h, l\<lparr>Array := None, Access := 4, Index := 1, Cache := Head l\<rparr>) }"

definition insert_method ::
  "'v heap \<Rightarrow> lst \<Rightarrow> int \<Rightarrow> 'v list \<Rightarrow> ((unit, unit, unit) reply \<times> 'v heap \<times> lst) option" where
  "insert_method h l i vs = do {
     l \<leftarrow> wrlock l;
     let n = int (Length l);
     let i = resolve l i;
     if i < 1 \<or> n + 1 < i then do { l \<leftarrow> unlock l; Some (FAILURE, h, l) }
     else if i = 1 then do {
       (h, l) \<leftarrow> push_nodes h l vs;
       l \<leftarrow> unlock (recache l);
       Some (SUCCESS (), h, l) }
     else if i = n + 1 then do {
       (h, l) \<leftarrow> put_nodes h l vs;
       l \<leftarrow> unlock (recache l);
       Some (SUCCESS (), h, l) }
     else do {
       node \<leftarrow> (if i = n then Some (Tail l) else locate h l i);
       (h, l) \<leftarrow> insert_nodes h l node vs;
       l \<leftarrow> unlock l;
       Some (SUCCESS (), h, l) } }"

definition splice_nodes ::
  "'v heap \<Rightarrow> lst \<Rightarrow> ptr \<Rightarrow> nat \<Rightarrow> ptr \<Rightarrow> ptr \<Rightarrow> ('v heap \<times> lst) option" where
  "splice_nodes h l nx len ph pt = do {
     p \<leftarrow> get_prev h nx;
     h \<leftarrow> set_prev h ph p;
     p \<leftarrow> get_prev h nx;
     h \<leftarrow> set_next h p ph;
     h \<leftarrow> set_next h pt nx;
     h \<leftarrow> set_prev h nx pt;
     Some (h, l\<lparr>Array := None, Index := 1, Cache := Head l, Access := 4,
                Length := u32 (Length l + len)\<rparr>) }"

text \<open>
  \<open>splice_method h l i src\<close>: the nodes of \<open>src\<close>, a list other than \<open>l\<close>, go before position \<open>i\<close>
  of \<open>l\<close>. The third component of the result is \<open>src\<close> afterwards.
\<close>

definition splice_method ::
  "'v heap \<Rightarrow> lst \<Rightarrow> int \<Rightarrow> lst \<Rightarrow> ((unit, unit, unit) reply \<times> 'v heap \<times> lst \<times> lst) option" where
  "splice_method h l i src = do {
     l \<leftarrow> wrlock l;
     let n = int (Length l);
     let i = resolve l i;
     if i < 1 \<or> n + 1 < i then do { l \<leftarrow> unlock l; Some (FAILURE, h, l, src) } else do {
     src \<leftarrow> wrlock src;
     let len = Length src;
     if len = 0 then do {
       src \<leftarrow> unlock src; l \<leftarrow> unlock l; Some (SUCCESS (), h, l, src) } else do {
     let ph = Head src;
     let pt = Tail src;
     src \<leftarrow> unlock (empty_fields src);
     if i = 1 then do {
       h \<leftarrow> set_next h pt (Head l);
       h \<leftarrow> set_prev h (Head l) pt;
       let l = l\<lparr>Head := ph\<rparr>;
       let l = (if Array l \<noteq> None
                then l\<lparr>Lower := u32 (Lower l + nat n), Upper := u32 (Upper l + nat n)\<rparr> else l);
       l \<leftarrow> unlock (l\<lparr>Index := 1, Cache := ph, Access := 4, Length := u32 (Length l + len)\<rparr>);
       Some (SUCCESS (), h, l, src) }
     else if i = n + 1 then do {
       h \<leftarrow> set_prev h ph (Tail l);
       h \<leftarrow> set_next h (Tail l) ph;
       l \<leftarrow> unlock (l\<lparr>Tail := pt, Index := 1, Cache := ph, Access := 4,
                        Length := u32 (Length l + len)\<rparr>);
       Some (SUCCESS (), h, l, src) }
     else do {
       nx \<leftarrow> (if i = n then Some (Tail l) else locate h l i);
       (h, l) \<leftarrow> splice_nodes h l nx len ph pt;
       l \<leftarrow> unlock l;
       Some (SUCCESS (), h, l, src) } } } }"

section \<open>The search\<close>

lemma locate_spec:
  assumes "lrep h l xs" and "1 < n" and "n < length xs"
  shows "locate h l (int n) = Some (fst (xs ! (n - 1)))"
proof -
  have ne: "xs \<noteq> []" using assms(3) by auto
  note f = lrep_facts[OF assms(1) ne]
  note ok = f(1,2) and c = f(6-8)
  have len: "n < 4294967296" using lrep_length[OF assms(1)] assms(3) by (simp add: max_nodes_def)
  consider "Suc n = Index l" | "n = Index l" | "n = Suc (Index l)"
    | "Suc n \<noteq> Index l" "n \<noteq> Index l" "n \<noteq> Suc (Index l)" by blast
  then show ?thesis
  proof cases
    case 1
    then have "get_prev h (Cache l) = Some (fst (xs ! (n - 1)))"
      using chain_nth[OF ok(2), of n] ok(1) c assms(2,3) by (simp add: get_prev_def flip: 1)
    then show ?thesis by (simp add: locate_def flip: 1)
  next
    case 2
    then show ?thesis using c by (simp add: locate_def)
  next
    case 3
    then have "get_next h (Cache l) = Some (fst (xs ! (n - 1)))"
      using chain_nth[OF ok(2), of "Index l - 1"] ok(1) c assms(2,3) by (simp add: get_next_def)
    then show ?thesis using 3 by (simp add: locate_def)
  next
    case 4
    then have ne4: "int n - int (Index l) \<noteq> -1" "int n - int (Index l) \<noteq> 0"
      "int n - int (Index l) \<noteq> 1" by linarith+
    show ?thesis
      using ne4 in_window_read[OF assms(1) _ len] walk_to_spec[OF assms 4(2)] len
      by (simp add: locate_def)
  qed
qed

text \<open>The search changes nothing, so it is an instance of the interface of a search.\<close>

interpretation locate: node_finder
  "\<lambda>h l i. map_option (\<lambda>p. (p, l)) (locate h l i)" "\<lambda>n k. 1 < n \<and> n < k"
  by unfold_locales (auto simp: locate_spec)

lemma locate_split:
  assumes "lrep h l xs" and "1 < n" and "n < length xs"
  obtains as x bs where "xs = as @ x # bs" and "length as = n - 1" and "as \<noteq> []" and "bs \<noteq> []"
    and "locate h l (int n) = Some (fst x)"
proof -
  have pos: "1 < n \<and> n < length xs" using assms(2,3) by simp
  show ?thesis
  proof (rule locate.find_split[OF assms(1) pos])
    fix as x bs l'
    assume s: "xs = as @ x # bs" "length as = n - 1"
      and f: "map_option (\<lambda>p. (p, l)) (locate h l (int n)) = Some (fst x, l')"
    have "as \<noteq> []" "bs \<noteq> []" using s assms(2,3) by auto
    moreover have "locate h l (int n) = Some (fst x)" using f by auto
    ultimately show thesis by (rule that[OF s])
  qed
qed

section \<open>Taking a node out\<close>

text \<open>The two stores that take an inner node out of a chain.\<close>

lemma bypass:
  assumes "heap_ok h" and "chain (Nodes h) a0 (as @ x # bs) b0"
    and "distinct (map fst (as @ x # bs))" and "as \<noteq> []" and "bs \<noteq> []"
  obtains h1 h' where "get_next h (fst x) = Some (first bs b0)"
    and "get_prev h (fst x) = Some (final as a0)"
    and "set_next h (final as a0) (first bs b0) = Some h1"
    and "set_prev h1 (first bs b0) (final as a0) = Some h'"
    and "chain (Nodes h') a0 (as @ bs) b0" and "heap_ok h'" and "Fresh h' = Fresh h"
    and "Nodes h' (fst x) = Nodes h (fst x)"
    and "frame h h' {final as a0, first bs b0}"
proof -
  obtain cs a where as: "as = cs @ [a]" using assms(4) by (cases as rule: rev_cases) auto
  obtain b ds where bs: "bs = b # ds" using assms(5) by (cases bs) auto
  have n: "Nodes h (fst a) = Some \<lparr>Value = snd a, Next = fst x, Prev = final cs a0\<rparr>"
    "Nodes h (fst x) = Some \<lparr>Value = snd x, Next = fst b, Prev = fst a\<rparr>"
    "Nodes h (fst b) = Some \<lparr>Value = snd b, Next = first ds b0, Prev = fst x\<rparr>"
    using assms(2) as bs by auto
  have d: "fst a \<noteq> fst b" "fst x \<noteq> fst a" "fst x \<noteq> fst b" "fst a \<notin> fst ` set cs"
    "fst b \<notin> fst ` set cs" "fst a \<notin> fst ` set ds" "fst b \<notin> fst ` set ds"
    using assms(3) as bs by auto
  let ?h1 = "store h (fst a) \<lparr>Value = snd a, Next = fst b, Prev = final cs a0\<rparr>"
  let ?h = "store ?h1 (fst b) \<lparr>Value = snd b, Next = first ds b0, Prev = fst a\<rparr>"
  have ok1: "heap_ok ?h1" using assms(1) n(1) by (rule heap_ok_store)
  have ok: "heap_ok ?h" by (rule heap_ok_store[OF ok1]) (use n(3) d in auto)
  show ?thesis
  proof (rule that[of ?h1 ?h])
    show "set_next h (final as a0) (first bs b0) = Some ?h1"
      using n assms(1) as bs by (simp add: set_next_def)
    show "set_prev ?h1 (first bs b0) (final as a0) = Some ?h"
      using n ok1 as bs d by (simp add: set_prev_def)
    show "chain (Nodes ?h) a0 (as @ bs) b0" using assms(2) as bs d by auto
    show "frame h ?h {final as a0, first bs b0}" using as bs by (auto simp: frame_def)
  qed (use n assms(1) as bs d ok in \<open>auto simp: get_next_def get_prev_def\<close>)
qed

lemma delete_node_spec:
  assumes "lbase h l (as @ x # bs)" and "as \<noteq> []" and "bs \<noteq> []"
  obtains h' l' where "delete_node h l (fst x) (int (length as + 1)) = Some (snd x, h', l')"
    and "lrep h' l' (as @ bs)" and "Lock l' = Lock l"
    and "frame h h' (fst ` set (as @ x # bs))"
proof -
  have ok: "heap_ok h" "chain (Nodes h) 0 (as @ x # bs) 0" "distinct (map fst (as @ x # bs))"
    and L: "Length l = Suc (length as + length bs)"
      "Head l = first (as @ x # bs) 0" "Tail l = final (as @ x # bs) 0"
    using assms(1) by (auto simp: lbase_def)
  from bypass[OF ok assms(2,3)] obtain h1 h' where
    b: "get_next h (fst x) = Some (first bs 0)" "get_prev h (fst x) = Some (final as 0)"
      "set_next h (final as 0) (first bs 0) = Some h1"
      "set_prev h1 (first bs 0) (final as 0) = Some h'"
      "chain (Nodes h') 0 (as @ bs) 0" "heap_ok h'" "Fresh h' = Fresh h"
      "Nodes h' (fst x) = Nodes h (fst x)" "frame h h' {final as 0, first bs 0}" by blast
  have len: "length as + length bs < 4294967295"
    using lbase_length[OF assms(1)] by (simp add: max_nodes_def)
  let ?l = "l\<lparr>Length := length as + length bs, Index := Suc (length as), Cache := first bs 0,
              Array := None, Access := 4\<rparr>"
  show ?thesis
  proof (rule that[of h' ?l])
    have "get_value h' (fst x) = Some (snd x)" using b ok by (simp add: get_value_def)
    then show "delete_node h l (fst x) (int (length as + 1)) = Some (snd x, h', ?l)"
      using b L len by (simp add: delete_node_def nat_add_distrib)
    show "lrep h' ?l (as @ bs)"
      using b ok L assms(2,3)
      by (auto simp: lrep_def cache_ok_def nth_append first_nth final_def Suc_le_eq)
        (simp add: first_def split: list.splits)?
    have "{final as 0, first bs 0} \<subseteq> fst ` set (as @ x # bs)"
      using assms(2,3) by (auto simp: final_def first_nth)
    then show "frame h h' (fst ` set (as @ x # bs))" using b(9) by (auto simp: frame_def)
  qed simp
qed

lemma lrep_Index_shift:
  assumes "cache_ok l (x # xs)" and "lbase h l' xs" and "Index l' = Index l" and "Cache l' = Cache l"
  shows "lrep h ((let l = l'\<lparr>Index := dec32 (Index l')\<rparr> in
     if Index l = 0 then l\<lparr>Index := 1, Cache := Head l\<rparr> else l)\<lparr>Access := 4\<rparr>) xs"
proof (cases "Index l = 1")
  case True
  then show ?thesis using assms(2,3)
    by (auto simp: lrep_base lbase_def cache_ok_def array_ok_def first_nth Suc_le_eq Let_def)
next
  case False
  then obtain k where k: "Index l = Suc (Suc k)" "Suc k \<le> length xs" "Cache l = fst (xs ! k)"
    using assms(1) by (cases "Index l" rule: nat.exhaust; cases "Index l - 1")
      (auto simp: cache_ok_def)
  have "array_ok (l'\<lparr>Index := Suc k, Access := 4\<rparr>) xs"
    using assms(2) by (simp add: lbase_def array_ok_def)
  then show ?thesis using assms(2-4) k
    by (simp add: lrep_def lbase_def cache_ok_def Let_def)
      (metis Suc_le_eq gr_implies_not0 length_0_conv not_less_eq_eq)?
qed

lemma resolve_valid:
  assumes "rep h l xs" and "1 \<le> resolve l i" and "resolve l i \<le> int (length xs)"
  obtains as x bs where "xs = as @ x # bs" and "resolve l i = int (length as + 1)"
    and "position i (length xs) = length as + 1"
proof -
  have "Length l = length xs" using assms(1) by (simp add: rep_def lrep_def)
  note r = resolve_position[OF this assms(2)]
  have "position i (length xs) \<le> length xs" using r(1) assms(3) by simp
  from split_at[OF r(2) this] obtain as x bs where
    "xs = as @ x # bs" "length as = position i (length xs) - 1" by blast
  then show ?thesis using r by (intro that) auto
qed

lemma delete_method_first:
  assumes "rep h l (x # xs)" and "resolve l i = 1" and "window_open l"
  shows "\<exists>h' l'. delete_method h l i = Some (SUCCESS (snd x), h', l') \<and> rep h' l' xs \<and>
    frame h h' (fst ` set (x # xs))"
proof -
  let ?l = "l\<lparr>Lock := -1\<rparr>"
  have b: "lbase h ?l (x # xs)" and L: "Lock l = 0" "Head l = fst x" "Length l = Suc (length xs)"
    and c: "cache_ok l (x # xs)"
    using assms(1) by (auto simp: rep_def lrep_base lbase_def)
  from unlink_first_spec[OF b] obtain h' l' where
    u: "unlink_first h ?l (fst x) = Some (h', l')" "window_open ?l \<Longrightarrow> lbase h' l' xs"
      "l' = shrink_front (?l\<lparr>Head := first xs 0, Tail := final xs 0, Length := length xs\<rparr>)"
      "get_value h' (fst x) = Some (snd x)" "frame h h' (fst ` set (x # xs))" by blast
  have b': "lbase h' l' xs" using u(2) assms(3) by simp
  have "Index l' = Index l" "Cache l' = Cache l" "Lock l' = -1"
    unfolding u(3) by simp_all
  let ?l' = "(let l = l'\<lparr>Index := dec32 (Index l')\<rparr> in
     if Index l = 0 then l\<lparr>Index := 1, Cache := Head l\<rparr> else l)\<lparr>Access := 4\<rparr>"
  have "lrep h' ?l' xs"
    by (rule lrep_Index_shift[OF c b']) fact+
  moreover have "Lock ?l' = -1" using \<open>Lock l' = -1\<close> by (simp add: Let_def)
  ultimately show ?thesis using u L assms(2)
    by (intro exI[of _ h'] exI[of _ "?l'\<lparr>Lock := 0\<rparr>"])
      (auto simp: delete_method_def Let_def)
qed

lemma delete_method_last:
  assumes "rep h l (xs @ [x])" and "resolve l i = int (length xs + 1)" and "xs \<noteq> []"
  shows "\<exists>h' l'. delete_method h l i = Some (SUCCESS (snd x), h', l') \<and> rep h' l' xs \<and>
    frame h h' (fst ` set (xs @ [x]))"
proof -
  let ?l = "l\<lparr>Lock := -1\<rparr>"
  have b: "lbase h ?l (xs @ [x])" and L: "Lock l = 0" "Tail l = fst x" "Length l = Suc (length xs)"
    and c: "cache_ok l (xs @ [x])"
    using assms(1) by (auto simp: rep_def lrep_base lbase_def)
  from unlink_last_spec[OF b] obtain h' l' where
    u: "unlink_last h ?l (fst x) = Some (h', l')" "lbase h' l' xs" "Lock l' = Lock ?l"
      "get_value h' (fst x) = Some (snd x)" "frame h h' (fst ` set (xs @ [x]))"
      "Index l' = Index ?l" "Cache l' = Cache ?l" by blast
  let ?l' = "(if int (Index l') = int (Length l) then l'\<lparr>Index := 1, Cache := Head l'\<rparr> else l')
     \<lparr>Access := 4\<rparr>"
  have "lrep h' ?l' xs"
  proof (cases "Index l = Length l")
    case True
    then show ?thesis using u(2,6) by (simp add: lrep_base lbase_def cache_ok_def array_ok_def first_nth Suc_le_eq)
  next
    case False
    then have "1 \<le> Index l \<and> Index l \<le> length xs \<and> Cache l = fst (xs ! (Index l - 1))"
      using c L by (auto simp: cache_ok_def nth_append)
    then show ?thesis using u(2,6,7) False assms(3)
      by (simp add: lrep_base lbase_def cache_ok_def array_ok_def)
  qed
  moreover have "Lock ?l' = -1" using u(3) by simp
  ultimately show ?thesis using u L assms(2,3)
    by (intro exI[of _ h'] exI[of _ "?l'\<lparr>Lock := 0\<rparr>"])
      (auto simp: delete_method_def Let_def)
qed

lemma delete_method_inner:
  assumes "rep h l (as @ x # bs)" and "resolve l i = int (length as + 1)" and "as \<noteq> []" and "bs \<noteq> []"
  shows "\<exists>h' l'. delete_method h l i = Some (SUCCESS (snd x), h', l') \<and> rep h' l' (as @ bs) \<and>
    frame h h' (fst ` set (as @ x # bs))"
proof -
  let ?l = "l\<lparr>Lock := -1\<rparr>"
  have b: "lrep h ?l (as @ x # bs)" and L: "Lock l = 0" "Length l = Suc (length as + length bs)"
    using assms(1) by (auto simp: rep_def lrep_def)
  have loc: "locate h ?l (int (length as + 1)) = Some (fst x)"
    using locate_spec[OF b, of "length as + 1"] assms(3,4) by simp
  from delete_node_spec[OF lrep_lbase[OF b] assms(3,4)] obtain h' l' where
    d: "delete_node h ?l (fst x) (int (length as + 1)) = Some (snd x, h', l')"
      "lrep h' l' (as @ bs)" "Lock l' = Lock ?l" "frame h h' (fst ` set (as @ x # bs))" by blast
  then show ?thesis using loc L assms(2-4)
    by (intro exI[of _ h'] exI[of _ "l'\<lparr>Lock := 0\<rparr>"])
      (auto simp: delete_method_def Let_def)
qed

lemma delete_method_spec:
  assumes "rep h l (as @ x # bs)" and "resolve l i = int (length as + 1)"
    and "as \<noteq> [] \<or> window_open l"
  shows "\<exists>h' l'. delete_method h l i = Some (SUCCESS (snd x), h', l') \<and> rep h' l' (as @ bs) \<and>
    frame h h' (fst ` set (as @ x # bs))"
proof -
  consider "as = []" | "as \<noteq> []" "bs = []" | "as \<noteq> []" "bs \<noteq> []" by blast
  then show ?thesis
    using delete_method_first[of h l x bs i] delete_method_last[of h l as x i]
      delete_method_inner[of h l as x bs i] assms
    by cases simp_all
qed

lemma delete_method_out:
  assumes "rep h l xs" and "resolve l i < 1 \<or> int (length xs) < resolve l i"
  shows "delete_method h l i = Some (FAILURE, h, l)"
  using assms by (auto simp: delete_method_def Let_def rep_def lrep_def)

section \<open>Inserting values\<close>

lemma insert_before:
  assumes "heap_ok h" and "room h (Suc n)" and "chain (Nodes h) a0 (as @ x # bs) b0"
    and "distinct (map fst (as @ x # bs))" and "as \<noteq> []"
  obtains h1 h2 h3 h4 h' where "new_node h v = Some (Fresh h, h1)"
    and "get_prev h1 (fst x) = Some (final as a0)"
    and "set_prev h1 (Fresh h) (final as a0) = Some h2"
    and "set_next h2 (final as a0) (Fresh h) = Some h3"
    and "set_next h3 (Fresh h) (fst x) = Some h4" and "set_prev h4 (fst x) (Fresh h) = Some h'"
    and "chain (Nodes h') a0 (as @ (Fresh h, v) # x # bs) b0" and "heap_ok h'" and "room h' n"
    and "frame h h' {final as a0, fst x}" and "Fresh h \<notin> fst ` set (as @ x # bs)"
proof -
  obtain cs a where as: "as = cs @ [a]" using assms(5) by (cases as rule: rev_cases) auto
  have n: "Nodes h (fst a) = Some \<lparr>Value = snd a, Next = fst x, Prev = final cs a0\<rparr>"
    "Nodes h (fst x) = Some \<lparr>Value = snd x, Next = first bs b0, Prev = fst a\<rparr>"
    using assms(3) as by auto
  have d: "fst x \<noteq> fst a" "fst a \<notin> fst ` set cs" "fst x \<notin> fst ` set cs"
    "fst a \<notin> fst ` set bs" "fst x \<notin> fst ` set bs"
    using assms(4) as by auto
  have F: "Fresh h \<notin> fst ` set (as @ x # bs)" by (rule chain_fresh[OF assms(1,3)])
  then have F': "Fresh h \<noteq> fst a" "Fresh h \<noteq> fst x" "Fresh h \<notin> fst ` set cs" "Fresh h \<notin> fst ` set bs"
    using as by auto
  from new_node_spec[OF assms(1,2), of v] obtain h1 where
    h1: "new_node h v = Some (Fresh h, h1)"
      "Nodes h1 = (Nodes h)(Fresh h \<mapsto> \<lparr>Value = v, Next = 0, Prev = 0\<rparr>)"
      "Fresh h1 = Suc (Fresh h)" "heap_ok h1" "room h1 n" "frame h h1 {}" by blast
  let ?h2 = "store h1 (Fresh h) \<lparr>Value = v, Next = 0, Prev = fst a\<rparr>"
  let ?h3 = "store ?h2 (fst a) \<lparr>Value = snd a, Next = Fresh h, Prev = final cs a0\<rparr>"
  let ?h4 = "store ?h3 (Fresh h) \<lparr>Value = v, Next = fst x, Prev = fst a\<rparr>"
  let ?h5 = "store ?h4 (fst x) \<lparr>Value = snd x, Next = first bs b0, Prev = Fresh h\<rparr>"
  have ok2: "heap_ok ?h2" by (rule heap_ok_store[OF h1(4)]) (use h1 in auto)
  have ok3: "heap_ok ?h3" by (rule heap_ok_store[OF ok2]) (use h1 n F' in auto)
  have ok4: "heap_ok ?h4" by (rule heap_ok_store[OF ok3]) (use F' in auto)
  have ok5: "heap_ok ?h5" by (rule heap_ok_store[OF ok4]) (use h1 n F' d in auto)
  show ?thesis
  proof (rule that[of h1 ?h2 ?h3 ?h4 ?h5])
    show "get_prev h1 (fst x) = Some (final as a0)"
      using n h1 F' as by (simp add: get_prev_def)
    show "set_prev h1 (Fresh h) (final as a0) = Some ?h2"
      using h1 as by (simp add: set_prev_def)
    show "set_next ?h2 (final as a0) (Fresh h) = Some ?h3"
      using n h1 F' as ok2 by (simp add: set_next_def)
    show "set_next ?h3 (Fresh h) (fst x) = Some ?h4"
      using F' ok3 by (simp add: set_next_def)
    show "set_prev ?h4 (fst x) (Fresh h) = Some ?h5"
      using n h1 F' d ok4 by (simp add: set_prev_def)
    show "chain (Nodes ?h5) a0 (as @ (Fresh h, v) # x # bs) b0"
      using assms(3) as d F' h1 by auto
    show "frame h ?h5 {final as a0, fst x}" using h1 as by (auto simp: frame_def)
    show "room ?h5 n" using h1(5) by (simp add: room_def)
  qed (use h1(1) ok5 F in auto)
qed

lemma insert_loop_spec:
  assumes "lbase h (l\<lparr>Array := None\<rparr>) (as @ x # bs)" and "room h (length vs)" and "as \<noteq> []"
  shows "\<exists>h' ys. insert_loop h l (fst x) vs = Some (h', l\<lparr>Length := Length l + length vs\<rparr>) \<and>
    map snd ys = rev vs \<and>
    lbase h' (l\<lparr>Length := Length l + length vs, Array := None\<rparr>) (as @ ys @ x # bs) \<and>
    frame h h' (fst ` set (as @ x # bs))"
  using assms(1,2)
proof (induction vs arbitrary: h l x bs)
  case Nil
  then show ?case by (auto intro!: exI[of _ "[]"])
next
  case (Cons v vs)
  have ok: "heap_ok h" "chain (Nodes h) 0 (as @ x # bs) 0" "distinct (map fst (as @ x # bs))"
    and L: "Length l = length (as @ x # bs)" "Head l = first (as @ x # bs) 0"
      "Tail l = final (as @ x # bs) 0"
    using Cons.prems(1) by (auto simp: lbase_def)
  have rm: "room h (Suc (length vs))" using Cons.prems(2) by simp
  from insert_before[OF ok(1) rm ok(2,3) assms(3), of v] obtain h1 h2 h3 h4 h5 where
    s: "new_node h v = Some (Fresh h, h1)" "get_prev h1 (fst x) = Some (final as 0)"
      "set_prev h1 (Fresh h) (final as 0) = Some h2"
      "set_next h2 (final as 0) (Fresh h) = Some h3"
      "set_next h3 (Fresh h) (fst x) = Some h4" "set_prev h4 (fst x) (Fresh h) = Some h5"
      "chain (Nodes h5) 0 (as @ (Fresh h, v) # x # bs) 0" "heap_ok h5" "room h5 (length vs)"
      "frame h h5 {final as 0, fst x}" "Fresh h \<notin> fst ` set (as @ x # bs)" by blast
  have len: "length (as @ x # bs) < 4294967295"
    using lbase_length[OF Cons.prems(1)] by (simp add: max_nodes_def)
  let ?l = "l\<lparr>Length := Suc (Length l)\<rparr>"
  have "lbase h5 (?l\<lparr>Array := None\<rparr>) (as @ (Fresh h, v) # x # bs)"
    using s(7,8,11) ok(3) L assms(3) by (auto simp: lbase_def final_def first_nth nth_append)
  from Cons.IH[OF this s(9)] obtain h' ys where
    i: "insert_loop h5 ?l (Fresh h) vs = Some (h', ?l\<lparr>Length := Suc (Length l) + length vs\<rparr>)"
      "map snd ys = rev vs"
      "lbase h' (?l\<lparr>Length := Suc (Length l) + length vs, Array := None\<rparr>)
         (as @ ys @ (Fresh h, v) # x # bs)"
      "frame h5 h' (fst ` set (as @ (Fresh h, v) # x # bs))" by auto
  have "insert_loop h l (fst x) (v # vs) = Some (h', l\<lparr>Length := Length l + length (v # vs)\<rparr>)"
    using s(1-6) i(1) L len by simp
  moreover have "frame h h5 (fst ` set (as @ x # bs))"
    using s(10) assms(3) by (auto simp: frame_def final_def)
  then have "frame h h' (fst ` set (as @ x # bs))" by (rule frame_step[OF _ i(4)]) auto
  ultimately show ?case using i(2,3) by (intro exI[of _ h'] exI[of _ "ys @ [(Fresh h, v)]"]) simp
qed

lemma insert_nodes_spec:
  assumes "lbase h l (as @ x # bs)" and "room h (length vs)" and "as \<noteq> []"
  shows "\<exists>h' l' ys. insert_nodes h l (fst x) vs = Some (h', l') \<and> map snd ys = vs \<and>
    lrep h' l' (as @ ys @ x # bs) \<and> Lock l' = Lock l \<and> frame h h' (fst ` set (as @ x # bs))"
proof -
  have "lbase h (l\<lparr>Array := None\<rparr>) (as @ x # bs)" using assms(1) by (simp add: lbase_def)
  from insert_loop_spec[OF this _ assms(3), of "rev vs"] assms(2) obtain h' ys where
    i: "insert_loop h l (fst x) (rev vs) = Some (h', l\<lparr>Length := Length l + length vs\<rparr>)"
      "map snd ys = vs"
      "lbase h' (l\<lparr>Length := Length l + length vs, Array := None\<rparr>) (as @ ys @ x # bs)"
      "frame h h' (fst ` set (as @ x # bs))" by auto
  let ?l = "l\<lparr>Length := Length l + length vs, Array := None, Access := 4, Index := 1, Cache := Head l\<rparr>"
  have "lrep h' ?l (as @ ys @ x # bs)"
    using lbase_recache[OF i(3), of 4] by (cases l) simp
  then show ?thesis using i(1,2,4)
    by (intro exI[of _ h'] exI[of _ ?l] exI[of _ ys]) (simp add: insert_nodes_def)
qed

lemma insert_method_spec:
  assumes "rep h l (as @ bs)" and "resolve l i = int (length as + 1)" and "room h (length vs)"
    and "as \<noteq> [] \<or> low_room l (length vs)"
  shows "\<exists>h' l' ys. insert_method h l i vs = Some (SUCCESS (), h', l') \<and>
    map snd ys = (if as = [] then rev vs else vs) \<and> rep h' l' (as @ ys @ bs) \<and>
    frame h h' (fst ` set (as @ bs))"
proof -
  let ?l = "l\<lparr>Lock := -1\<rparr>"
  have b: "lbase h ?l (as @ bs)" and r: "lrep h ?l (as @ bs)" and L: "Lock l = 0"
    "Length l = length as + length bs"
    using assms(1) by (auto simp: rep_def lrep_base lbase_def)
  consider "as = []" | "as \<noteq> []" "bs = []" | x cs where "as \<noteq> []" "bs = x # cs"
    by (cases bs) auto
  then show ?thesis
  proof cases
    case 1
    from push_nodes_spec[OF b assms(3)] 1 assms(4) obtain h' l' ys where
      "push_nodes h ?l vs = Some (h', l')" "lbase h' l' (ys @ bs)" "map snd ys = rev vs"
      "Lock l' = -1" "frame h h' (fst ` set bs)" by (auto simp: low_room_def)
    then show ?thesis using 1 L assms(2)
      by (intro exI[of _ h'] exI[of _ "(recache l')\<lparr>Lock := 0\<rparr>"] exI[of _ ys])
        (simp add: insert_method_def)
  next
    case 2
    from put_nodes_spec[OF b assms(3)] 2 obtain h' l' ys where
      "put_nodes h ?l vs = Some (h', l')" "lbase h' l' (as @ ys)" "map snd ys = vs"
      "Lock l' = -1" "frame h h' (fst ` set as)" by auto
    then show ?thesis using 2 L assms(2)
      by (intro exI[of _ h'] exI[of _ "(recache l')\<lparr>Lock := 0\<rparr>"] exI[of _ ys])
        (simp add: insert_method_def)
  next
    case 3
    have loc: "(if resolve l i = int (Length l) then Some (Tail l) else locate h ?l (resolve l i)) = Some (fst x)"
    proof (cases "cs = []")
      case True
      then show ?thesis using 3 L assms(1,2) by (simp add: rep_def lrep_def)
    next
      case False
      then show ?thesis using 3 L assms(2) locate_spec[OF r, of "length as + 1"] by (cases as) auto
    qed
    from insert_nodes_spec[OF b[unfolded 3(2)] assms(3) 3(1)] obtain h' l' ys where
      "insert_nodes h ?l (fst x) vs = Some (h', l')" "map snd ys = vs"
      "lrep h' l' (as @ ys @ x # cs)" "Lock l' = -1" "frame h h' (fst ` set (as @ x # cs))" by auto
    then show ?thesis using 3 L assms(2) loc
      by (intro exI[of _ h'] exI[of _ "l'\<lparr>Lock := 0\<rparr>"] exI[of _ ys])
        (cases "cs = []"; simp add: insert_method_def)
  qed
qed

lemma insert_method_out:
  assumes "rep h l xs" and "resolve l i < 1 \<or> int (length xs) + 1 < resolve l i"
  shows "insert_method h l i vs = Some (FAILURE, h, l)"
  using assms by (auto simp: insert_method_def Let_def rep_def lrep_def)

section \<open>Splicing\<close>

text \<open>The four stores that put a closed chain before a node.\<close>

lemma graft:
  assumes "heap_ok h" and "chain (Nodes h) 0 (as @ x # bs) 0" and "chain (Nodes h) 0 ys 0"
    and "distinct (map fst (as @ ys @ x # bs))" and "as \<noteq> []" and "ys \<noteq> []"
  obtains h1 h2 h3 h' where "get_prev h (fst x) = Some (final as 0)"
    and "set_prev h (first ys 0) (final as 0) = Some h1"
    and "get_prev h1 (fst x) = Some (final as 0)"
    and "set_next h1 (final as 0) (first ys 0) = Some h2"
    and "set_next h2 (final ys 0) (fst x) = Some h3"
    and "set_prev h3 (fst x) (final ys 0) = Some h'"
    and "chain (Nodes h') 0 (as @ ys @ x # bs) 0" and "heap_ok h'"
    and "frame h h' (fst ` set (as @ ys @ x # bs))"
proof -
  have d: "distinct (map fst as)" "distinct (map fst ys)" "distinct (map fst (x # bs))"
    "fst ` set as \<inter> fst ` set ys = {}" "fst ` set as \<inter> fst ` set (x # bs) = {}"
    "fst ` set ys \<inter> fst ` set (x # bs) = {}"
    using assms(4) by auto
  have m: "final as 0 \<in> fst ` set as" "final ys 0 \<in> fst ` set ys" "first ys 0 \<in> fst ` set ys"
    by (rule final_in[OF assms(5)], rule final_in[OF assms(6)], rule first_in[OF assms(6)])
  have x: "fst x \<in> fst ` set (x # bs)" by simp
  have n: "first ys 0 \<notin> fst ` set as" "first ys 0 \<notin> fst ` set (x # bs)"
    "final as 0 \<notin> fst ` set ys" "final as 0 \<notin> fst ` set (x # bs)"
    "final ys 0 \<notin> fst ` set as" "final ys 0 \<notin> fst ` set (x # bs)"
    "fst x \<notin> fst ` set as" "fst x \<notin> fst ` set ys"
    using d(4-6) m x by (metis disjoint_iff)+
  have c: "chain (Nodes h) 0 as (fst x)" "chain (Nodes h) (final as 0) (x # bs) 0"
    using assms(2) by simp_all
  from relink_first[OF assms(1,3,6) d(2)] obtain h1 nd1 where
    1: "set_prev h (first ys 0) (final as 0) = Some h1" "chain (Nodes h1) (final as 0) ys 0"
      "Nodes h1 = (Nodes h)(first ys 0 \<mapsto> nd1)" "heap_ok h1" "Fresh h1 = Fresh h" by metis
  have c1: "chain (Nodes h1) 0 as (fst x)" "chain (Nodes h1) (final as 0) (x # bs) 0"
    unfolding 1(3) using c n by (simp_all del: chain.simps)
  from relink_final[OF 1(4) c1(1) assms(5) d(1)] obtain h2 nd2 where
    2: "set_next h1 (final as 0) (first ys 0) = Some h2" "chain (Nodes h2) 0 as (first ys 0)"
      "Nodes h2 = (Nodes h1)(final as 0 \<mapsto> nd2)" "heap_ok h2" "Fresh h2 = Fresh h1" by metis
  have c2: "chain (Nodes h2) (final as 0) (x # bs) 0" "chain (Nodes h2) (final as 0) ys 0"
    unfolding 2(3) using c1 1(2) n by (simp_all del: chain.simps)
  from relink_final[OF 2(4) c2(2) assms(6) d(2)] obtain h3 nd3 where
    3: "set_next h2 (final ys 0) (fst x) = Some h3" "chain (Nodes h3) (final as 0) ys (fst x)"
      "Nodes h3 = (Nodes h2)(final ys 0 \<mapsto> nd3)" "heap_ok h3" "Fresh h3 = Fresh h2" by metis
  have c3: "chain (Nodes h3) (final as 0) (x # bs) 0" "chain (Nodes h3) 0 as (first ys 0)"
    unfolding 3(3) using c2 2(2) n by (simp_all del: chain.simps)
  from relink_first[OF 3(4) c3(1) _ d(3), of 0 "final ys 0"] obtain h' nd4 where
    4: "set_prev h3 (fst x) (final ys 0) = Some h'" "chain (Nodes h') (final ys 0) (x # bs) 0"
      "Nodes h' = (Nodes h3)(fst x \<mapsto> nd4)" "heap_ok h'" "Fresh h' = Fresh h3" by auto
  have "chain (Nodes h') 0 as (first ys 0)" "chain (Nodes h') (final as 0) ys (fst x)"
    unfolding 4(3) using c3 3(2) n by (simp_all del: chain.simps)
  then have "chain (Nodes h') 0 (as @ ys @ x # bs) 0"
    using 4(2) by (simp only: chain_append first_append first_simps simp_thms
        first_nonempty[OF assms(6), of "fst x" 0] final_nonempty[OF assms(6), of "final as 0" 0])
  moreover have "frame h h' (fst ` set (as @ ys @ x # bs))"
    using 1(3,5) 2(3,5) 3(3,5) 4(3,5) m by (auto simp: frame_def)
  ultimately show ?thesis
    using that[OF _ 1(1) _ 2(1) 3(1) 4(1)] 4(4) chain_get_prev[OF assms(1) c(2)]
      chain_get_prev[OF 1(4) c1(2)] by blast
qed

lemma splice_nodes_spec:
  assumes "lbase h l (as @ x # bs)" and "chain (Nodes h) 0 ys 0" and "as \<noteq> []" and "ys \<noteq> []"
    and "distinct (map fst (as @ ys @ x # bs))"
  shows "\<exists>h' l'. splice_nodes h l (fst x) (length ys) (first ys 0) (final ys 0) = Some (h', l') \<and>
    lrep h' l' (as @ ys @ x # bs) \<and> Lock l' = Lock l \<and> frame h h' (fst ` set (as @ ys @ x # bs))"
proof -
  have ok: "heap_ok h" "chain (Nodes h) 0 (as @ x # bs) 0" using assms(1) by (auto simp: lbase_def)
  from graft[OF ok assms(2,5,3,4)] obtain h1 h2 h3 h' where
    g: "get_prev h (fst x) = Some (final as 0)"
      "set_prev h (first ys 0) (final as 0) = Some h1"
      "get_prev h1 (fst x) = Some (final as 0)"
      "set_next h1 (final as 0) (first ys 0) = Some h2"
      "set_next h2 (final ys 0) (fst x) = Some h3"
      "set_prev h3 (fst x) (final ys 0) = Some h'"
      "chain (Nodes h') 0 (as @ ys @ x # bs) 0" "heap_ok h'"
      "frame h h' (fst ` set (as @ ys @ x # bs))" by blast
  have len: "length (as @ ys @ x # bs) < 4294967296"
    using chain_length[OF g(8,7) assms(5)] by (simp add: max_nodes_def)
  let ?l = "l\<lparr>Length := length (as @ ys @ x # bs), Array := None\<rparr>"
  have L: "Length l = length (as @ x # bs)" "Head l = first as 0" "Tail l = final (as @ x # bs) 0"
    using assms(1,3) first_nonempty[of as] by (auto simp: lbase_def)
  have "lbase h' ?l (as @ ys @ x # bs)"
    using g(7,8) assms(3,5) L first_nonempty[of as] by (auto simp: lbase_def final_def)
  then have "lrep h' (?l\<lparr>Index := 1, Cache := Head ?l, Access := 4\<rparr>) (as @ ys @ x # bs)"
    by (rule lbase_recache)
  moreover have "splice_nodes h l (fst x) (length ys) (first ys 0) (final ys 0) =
      Some (h', ?l\<lparr>Index := 1, Cache := Head ?l, Access := 4\<rparr>)"
    using g len L by (cases l) (simp add: splice_nodes_def ac_simps)
  ultimately show ?thesis using g(9) by auto
qed

lemma rep_empty_fields [simp]:
  "heap_ok h \<Longrightarrow> rep h ((empty_fields l)\<lparr>Lock := 0\<rparr>) []"
  by (simp add: rep_def lrep_def empty_fields_def cache_ok_def)

lemma empty_fields_Lock [simp]: "Lock (empty_fields l) = Lock l"
  by (simp add: empty_fields_def)

lemma empty_fields_Lock_upd [simp]: "empty_fields (l\<lparr>Lock := k\<rparr>) = (empty_fields l)\<lparr>Lock := k\<rparr>"
  by (simp add: empty_fields_def)

lemma splice_method_empty:
  assumes "rep h l (as @ bs)" and "rep h src []" and "resolve l i = int (length as + 1)"
  shows "splice_method h l i src = Some (SUCCESS (), h, l, src)"
  using assms by (auto simp: splice_method_def Let_def rep_def lrep_def)

lemma splice_method_inner:
  assumes "rep h l (as @ x # bs)" and "rep h src ys" and "resolve l i = int (length as + 1)"
    and "distinct (map fst (as @ ys @ x # bs))" and "as \<noteq> []" and "ys \<noteq> []"
  shows "\<exists>h' l' src'. splice_method h l i src = Some (SUCCESS (), h', l', src') \<and>
    rep h' l' (as @ ys @ x # bs) \<and> rep h' src' [] \<and> frame h h' (fst ` set (as @ ys @ x # bs))"
proof -
  let ?l = "l\<lparr>Lock := -1\<rparr>"
  have b: "lbase h ?l (as @ x # bs)" and r: "lrep h ?l (as @ x # bs)" and L: "Lock l = 0"
    "Length l = Suc (length as + length bs)"
    using assms(1) by (auto simp: rep_def lrep_base lbase_def)
  have S: "Lock src = 0" "Length src = length ys" "Head src = first ys 0" "Tail src = final ys 0"
    "chain (Nodes h) 0 ys 0"
    using assms(2) by (auto simp: rep_def lrep_def)
  have loc: "(if resolve l i = int (Length l) then Some (Tail l) else locate h ?l (resolve l i)) = Some (fst x)"
  proof (cases "bs = []")
    case True
    then show ?thesis using L assms(1,3) by (simp add: rep_def lrep_def)
  next
    case False
    then show ?thesis using L assms(3,5) locate_spec[OF r, of "length as + 1"] by (cases as) auto
  qed
  from splice_nodes_spec[OF b S(5) assms(5,6,4)] obtain h' l' where
    s: "splice_nodes h ?l (fst x) (length ys) (first ys 0) (final ys 0) = Some (h', l')"
      "lrep h' l' (as @ ys @ x # bs)" "Lock l' = Lock ?l" "frame h h' (fst ` set (as @ ys @ x # bs))" by blast
  have "splice_method h l i src = Some (SUCCESS (), h', l'\<lparr>Lock := 0\<rparr>, (empty_fields src)\<lparr>Lock := 0\<rparr>)"
    using s(1,3) S L assms(3,5,6) loc
    by (cases "bs = []"; simp add: splice_method_def Let_def empty_fields_def)
  moreover have "rep h' ((empty_fields src)\<lparr>Lock := 0\<rparr>) []"
    using s(2) by (intro rep_empty_fields) (simp add: lrep_def)
  ultimately show ?thesis using s(2,4) rep_Lock0[of h' l'] by blast
qed

lemma splice_method_front:
  assumes "rep h l (x # xs)" and "rep h src ys" and "resolve l i = 1"
    and "distinct (map fst (ys @ x # xs))" and "ys \<noteq> []" and "Array l = None"
  shows "\<exists>h' l' src'. splice_method h l i src = Some (SUCCESS (), h', l', src') \<and>
    rep h' l' (ys @ x # xs) \<and> rep h' src' [] \<and> frame h h' (fst ` set (ys @ x # xs))"
proof -
  let ?xs = "x # xs"
  have L: "Lock l = 0" "Head l = fst x" "Tail l = final ?xs 0" "Length l = length ?xs"
    and ok: "heap_ok h" and cx: "chain (Nodes h) 0 ?xs 0"
    using assms(1) by (auto simp: rep_def lrep_def)
  have S: "Lock src = 0" "Length src = length ys" "Head src = first ys 0" "Tail src = final ys 0"
    and cy: "chain (Nodes h) 0 ys 0"
    using assms(2) by (auto simp: rep_def lrep_def)
  have d: "distinct (map fst ys)" "distinct (map fst ?xs)" "fst x \<notin> fst ` set ys"
    "final ys 0 \<notin> fst ` set ?xs"
    using assms(4) final_in[OF assms(5), of 0]
    by (auto simp del: image_iff simp: disjoint_iff)
  from relink_final[OF ok cy assms(5) d(1)] obtain h1 nd1 where
    1: "set_next h (final ys 0) (fst x) = Some h1" "chain (Nodes h1) 0 ys (fst x)"
      "Nodes h1 = (Nodes h)(final ys 0 \<mapsto> nd1)" "heap_ok h1" "Fresh h1 = Fresh h" by metis
  have c1: "chain (Nodes h1) 0 ?xs 0" unfolding 1(3) using cx d(4) by (simp del: chain.simps)
  from relink_first[OF 1(4) c1 _ d(2), of 0 "final ys 0"] obtain h' nd2 where
    2: "set_prev h1 (fst x) (final ys 0) = Some h'" "chain (Nodes h') (final ys 0) ?xs 0"
      "Nodes h' = (Nodes h1)(fst x \<mapsto> nd2)" "heap_ok h'" "Fresh h' = Fresh h1" by auto
  have "chain (Nodes h') 0 ys (fst x)" unfolding 2(3) using 1(2) d(3) by simp
  then have c: "chain (Nodes h') 0 (ys @ ?xs) 0" using 2(2) by simp
  have len: "length (ys @ ?xs) < 4294967296"
    using chain_length[OF 2(4) c] assms(4) by (simp add: max_nodes_def)
  let ?l = "l\<lparr>Head := first ys 0, Length := length (ys @ ?xs), Lock := 0\<rparr>"
  have "lbase h' ?l (ys @ ?xs)"
    using c 2(4) assms(4-6) L first_nonempty[OF assms(5)] by (simp add: lbase_def final_def)
  then have "lrep h' (?l\<lparr>Index := 1, Cache := Head ?l, Access := 4\<rparr>) (ys @ ?xs)"
    by (rule lbase_recache)
  then have "rep h' (?l\<lparr>Index := 1, Cache := Head ?l, Access := 4\<rparr>) (ys @ ?xs)"
    by (simp add: rep_def)
  moreover have "splice_method h l i src = Some (SUCCESS (), h',
      ?l\<lparr>Index := 1, Cache := Head ?l, Access := 4\<rparr>, (empty_fields src)\<lparr>Lock := 0\<rparr>)"
    using 1(1) 2(1) L S assms(3,5,6) len
    by (simp add: splice_method_def Let_def ac_simps)
  moreover have "frame h h' (fst ` set (ys @ ?xs))"
    using 1(3,5) 2(3,5) final_in[OF assms(5), of 0] by (auto simp: frame_def)
  ultimately show ?thesis using rep_empty_fields[OF 2(4)] by blast
qed

text \<open>Before an empty list the code follows a null pointer.\<close>

lemma splice_method_null:
  assumes "rep h l []" and "rep h src ys" and "resolve l i = 1" and "ys \<noteq> []"
  shows "splice_method h l i src = None"
proof -
  have L: "Lock l = 0" "Head l = 0" "Length l = 0" and S: "Lock src = 0" "Length src \<noteq> 0"
    using assms by (auto simp: rep_def lrep_def)
  have "set_prev h1 0 p = None" for h1 :: "'a heap" and p by (simp add: set_prev_def load_def)
  then show ?thesis using L S assms(3)
    by (cases "set_next h (Tail src) 0") (simp_all add: splice_method_def Let_def)
qed

text \<open>
  At the end the nodes are linked right, but the cached node is the first one of the source
  while \<^verbatim>\<open>Index\<close> says position 1.
\<close>

lemma splice_method_back:
  assumes "rep h l xs" and "rep h src ys" and "resolve l i = int (length xs + 1)"
    and "distinct (map fst (xs @ ys))" and "xs \<noteq> []" and "ys \<noteq> []"
  shows "\<exists>h' l' src'. splice_method h l i src = Some (SUCCESS (), h', l', src') \<and>
    lbase h' l' (xs @ ys) \<and> Cache l' = fst (hd ys) \<and> Index l' = 1 \<and> Lock l' = 0 \<and> rep h' src' [] \<and>
    frame h h' (fst ` set (xs @ ys))"
proof -
  have L: "Lock l = 0" "Head l = first xs 0" "Tail l = final xs 0" "Length l = length xs"
    and ok: "heap_ok h" and cx: "chain (Nodes h) 0 xs 0" and ar: "array_ok l xs"
    using assms(1) by (auto simp: rep_def lrep_def)
  have S: "Lock src = 0" "Length src = length ys" "Head src = first ys 0" "Tail src = final ys 0"
    and cy: "chain (Nodes h) 0 ys 0"
    using assms(2) by (auto simp: rep_def lrep_def)
  have d: "distinct (map fst ys)" "distinct (map fst xs)" "first ys 0 \<notin> fst ` set xs"
    "final xs 0 \<notin> fst ` set ys"
    using assms(4) final_in[OF assms(5), of 0] first_in[OF assms(6), of 0] by auto
  from relink_first[OF ok cy assms(6) d(1)] obtain h1 nd1 where
    1: "set_prev h (first ys 0) (final xs 0) = Some h1" "chain (Nodes h1) (final xs 0) ys 0"
      "Nodes h1 = (Nodes h)(first ys 0 \<mapsto> nd1)" "heap_ok h1" "Fresh h1 = Fresh h" by metis
  have c1: "chain (Nodes h1) 0 xs 0" unfolding 1(3) using cx d(3) by simp
  from relink_final[OF 1(4) c1 assms(5) d(2)] obtain h' nd2 where
    2: "set_next h1 (final xs 0) (first ys 0) = Some h'" "chain (Nodes h') 0 xs (first ys 0)"
      "Nodes h' = (Nodes h1)(final xs 0 \<mapsto> nd2)" "heap_ok h'" "Fresh h' = Fresh h1" by metis
  have "chain (Nodes h') (final xs 0) ys 0" unfolding 2(3) using 1(2) d(4) by simp
  then have c: "chain (Nodes h') 0 (xs @ ys) 0" using 2(2) by simp
  have len: "length (xs @ ys) < 4294967296"
    using chain_length[OF 2(4) c assms(4)] by (simp add: max_nodes_def)
  let ?l = "l\<lparr>Tail := final ys 0, Index := 1, Cache := first ys 0, Access := 4,
              Length := length (xs @ ys), Lock := 0\<rparr>"
  have "array_ok ?l (xs @ ys)" using ar window_snoc by (auto simp: array_ok_def)
  then have "lbase h' ?l (xs @ ys)"
    using c 2(4) assms(4-6) L first_nonempty[OF assms(5)] by (simp add: lbase_def final_def)
  moreover have "splice_method h l i src = Some (SUCCESS (), h', ?l, (empty_fields src)\<lparr>Lock := 0\<rparr>)"
    using 1(1) 2(1) L S assms(3,5,6) len
    by (simp add: splice_method_def Let_def)
  moreover have "frame h h' (fst ` set (xs @ ys))"
    using 1(3,5) 2(3,5) final_in[OF assms(5), of 0] first_in[OF assms(6), of 0]
    by (auto simp: frame_def)
  moreover have "Cache ?l = fst (hd ys)" using assms(6) by (cases ys) auto
  ultimately show ?thesis using rep_empty_fields[OF 2(4), of src] by fastforce
qed

section \<open>Properties\<close>

text \<open>
  C4: \<^verbatim>\<open>delete(i)\<close> takes out the node at the position \<open>i\<close> denotes and returns its value, keeping
  the rest of the list in order with a right cache; outside the list it fails and changes
  nothing. Deleting the first node needs an index array whose window is not used up.
\<close>

theorem list_delete_correct:
  assumes "rep h l xs"
  shows "if 1 \<le> resolve l i \<and> resolve l i \<le> int (length xs)
    then resolve l i \<noteq> 1 \<or> window_open l \<longrightarrow>
      (\<exists>h' l'. delete_method h l i = Some (SUCCESS (snd (xs ! (position i (length xs) - 1))), h', l') \<and>
         rep h' l' (take (position i (length xs) - 1) xs @ drop (position i (length xs)) xs) \<and>
         frame h h' (fst ` set xs))
    else delete_method h l i = Some (FAILURE, h, l)"
proof (cases "1 \<le> resolve l i \<and> resolve l i \<le> int (length xs)")
  case True
  then obtain as x bs where s: "xs = as @ x # bs" "resolve l i = int (length as + 1)"
    "position i (length xs) = length as + 1" using resolve_valid[OF assms] by blast
  have "resolve l i \<noteq> 1 \<or> window_open l \<longleftrightarrow> as \<noteq> [] \<or> window_open l" using s(2) by simp
  then show ?thesis using True s delete_method_spec[of h l as x bs i] assms
    by (simp add: nth_append)
next
  case False
  then show ?thesis using delete_method_out[OF assms, of i] by auto
qed

lemma list_delete_correct_witness:
  "\<exists>h' l'. delete_method sample_heap sample_list 2 = Some (SUCCESS 20, h', l') \<and>
     rep h' l' [(1, 10), (3, 30)]"
  using list_delete_correct[OF sample_rep, of 2] by (auto simp: resolve_def position_def)

text \<open>
  C5: \<^verbatim>\<open>insert(i, v, ...)\<close> puts the values, in order, before position \<open>i\<close> (or at the end, for the
  position after the last); at position 1 they end up in reverse order.
\<close>

theorem list_insert_correct:
  assumes "rep h l (as @ bs)" and "resolve l i = int (length as + 1)" and "room h (length vs)"
    and "as \<noteq> [] \<or> low_room l (length vs)"
  shows "\<exists>h' l' ys. insert_method h l i vs = Some (SUCCESS (), h', l') \<and>
    map snd ys = (if as = [] then rev vs else vs) \<and> rep h' l' (as @ ys @ bs) \<and>
    frame h h' (fst ` set (as @ bs))"
  by (rule insert_method_spec[OF assms])

lemma list_insert_correct_witness:
  "\<exists>h' l'. insert_method sample_heap sample_list 3 [40, 50] = Some (SUCCESS (), h', l') \<and>
     is_list h' l' [10, 20, 40, 50, 30]"
proof -
  have r: "rep sample_heap sample_list ([(1, 10), (2, 20)] @ [(3, 30)])" using sample_rep by simp
  have "resolve sample_list 3 = int (length [(1 :: nat, 10 :: nat), (2, 20)] + 1)"
    by (simp add: resolve_def)
  from list_insert_correct[OF r this, of "[40, 50]"] obtain h' l' ys where
    "insert_method sample_heap sample_list 3 [40, 50] = Some (SUCCESS (), h', l')"
    "map snd ys = [40, 50]" "rep h' l' ([(1, 10), (2, 20)] @ ys @ [(3, 30)])"
    using sample_room by fastforce
  then show ?thesis
    by (intro exI[of _ h'] exI[of _ l'])
      (auto simp: is_list_rep intro!: exI[of _ "[(1, 10), (2, 20)] @ ys @ [(3, 30)]"])
qed

text \<open>
  \<^verbatim>\<open>splice(i, source)\<close> moves all nodes of another list before position \<open>i\<close> and leaves the
  source empty: with a position inside the list always, at position 1 of a non-empty list
  without an index array.
\<close>

theorem list_splice_correct:
  assumes "rep h l (as @ bs)" and "rep h src ys" and "resolve l i = int (length as + 1)"
    and "distinct (map fst (as @ ys @ bs))" and "bs \<noteq> []" and "as \<noteq> [] \<or> Array l = None"
  shows "\<exists>h' l' src'. splice_method h l i src = Some (SUCCESS (), h', l', src') \<and>
    rep h' l' (as @ ys @ bs) \<and> rep h' src' [] \<and> frame h h' (fst ` set (as @ ys @ bs))"
proof -
  obtain x cs where bs: "bs = x # cs" using assms(5) by (cases bs) auto
  consider "ys = []" | "ys \<noteq> []" "as \<noteq> []" | "ys \<noteq> []" "as = []" by blast
  then show ?thesis
  proof cases
    case 1
    then show ?thesis using splice_method_empty[OF assms(1) _ assms(3)] assms(1,2) by auto
  next
    case 2
    then show ?thesis using splice_method_inner[of h l as x cs src ys i] assms(1-4) bs by simp
  next
    case 3
    then show ?thesis using splice_method_front[of h l x cs src ys i] assms bs by simp
  qed
qed

definition sample_heap2 :: "nat heap" where
  "sample_heap2 = \<lparr>Nodes = (Nodes sample_heap)(4 \<mapsto> \<lparr>Value = 40, Next = 5, Prev = 0\<rparr>,
      5 \<mapsto> \<lparr>Value = 50, Next = 0, Prev = 4\<rparr>), Fresh = 6\<rparr>"

definition sample_list2 :: lst where
  "sample_list2 = zero_list\<lparr>Head := 4, Tail := 5, Cache := 4, Length := 2, Index := 1, Access := 4\<rparr>"

lemma sample_rep2:
  "rep sample_heap2 sample_list sample_nodes" "rep sample_heap2 sample_list2 [(4, 40), (5, 50)]"
  by (auto simp: rep_def lrep_def sample_heap_def sample_list_def sample_heap2_def sample_list2_def
      zero_list_def heap_ok_def max_nodes_def cache_ok_def split: if_splits)

lemma list_splice_correct_witness:
  "\<exists>h' l' src'. splice_method sample_heap2 sample_list 2 sample_list2 = Some (SUCCESS (), h', l', src') \<and>
     rep h' l' [(1, 10), (4, 40), (5, 50), (2, 20), (3, 30)] \<and> rep h' src' []"
  using list_splice_correct[of sample_heap2 sample_list "[(1, 10)]" "[(2, 20), (3, 30)]" sample_list2
      "[(4, 40), (5, 50)]" 2] sample_rep2 by (auto simp: resolve_def)

text \<open>
  \<^verbatim>\<open>splice\<close> into an empty list follows a null pointer, and \<^verbatim>\<open>splice\<close> at the end leaves a wrong
  cached node: the next \<^verbatim>\<open>list[2]\<close> returns the second node of the source instead of the
  second node of the list.
\<close>

theorem list_splice_ends:
  assumes "rep h l xs" and "rep h src ys" and "resolve l i = int (length xs + 1)"
    and "distinct (map fst (xs @ ys))" and "2 \<le> length ys"
  shows "if xs = [] then splice_method h l i src = None
    else \<exists>h' l' src'. splice_method h l i src = Some (SUCCESS (), h', l', src') \<and>
      (\<exists>l2. index_method h' l' 2 = Some (SUCCESS (ys ! 1), l2))"
proof (cases "xs = []")
  case True
  then have "rep h l []" "resolve l i = 1" "ys \<noteq> []" using assms by auto
  then show ?thesis using splice_method_null[of h l src ys i] assms(2) True by simp
next
  case False
  obtain y z zs where ys: "ys = y # z # zs" using assms(5) by (cases ys rule: remdups_adj.cases) auto
  then have "ys \<noteq> []" by simp
  from splice_method_back[OF assms(1-4) False this] obtain h' l' src' where
    s: "splice_method h l i src = Some (SUCCESS (), h', l', src')" "lbase h' l' (xs @ ys)"
      "Cache l' = fst (hd ys)" "Index l' = 1" "Lock l' = 0" by blast
  have L: "Length l' = length xs + length ys" and ok: "heap_ok h'"
    and c: "chain (Nodes h') (final xs 0) ys 0" using s(2) by (auto simp: lbase_def)
  have "Nodes h' (fst y) = Some \<lparr>Value = snd y, Next = fst z, Prev = final xs 0\<rparr>"
    "Nodes h' (fst z) = Some \<lparr>Value = snd z, Next = first zs 0, Prev = fst y\<rparr>"
    using c ys by auto
  moreover have "2 < int (length xs) + int (length ys)" using False ys by (cases xs) auto
  ultimately have "\<exists>l2. index_method h' l' 2 = Some (SUCCESS (ys ! 1), l2)"
    using s(3-5) L ok ys
    by (simp add: index_method_def resolve_def seek_def get_next_def get_value_def Let_def)
  then show ?thesis using False s(1) by simp
qed

lemma list_splice_ends_witness:
  "\<exists>h' l' src' l2. splice_method sample_heap2 sample_list 0 sample_list2 = Some (SUCCESS (), h', l', src') \<and>
     index_method h' l' 2 = Some (SUCCESS (5, 50), l2)"
  using list_splice_ends[OF sample_rep2, of 0] by (auto simp: resolve_def)

end
