(* ===== verification/ListSplit.thy ===== *)
theory ListSplit
  imports ListEdit
begin

text \<open>
  Operations of \<^verbatim>\<open>dev/src/lib/Agg/List.c\<close> that cut a list or move nodes inside it: both
  methods \<^verbatim>\<open>split\<close>, \<^verbatim>\<open>shift\<close> with its updates of the index array, and \<^verbatim>\<open>separate\<close>.
\<close>

section \<open>Definitions: split\<close>

text \<open>The new list takes over all nodes (\<^verbatim>\<open>*List2 = *List\<close>) and the old one becomes empty.\<close>

definition take_over :: "'v heap \<Rightarrow> lst \<Rightarrow> ((lst, unit, unit) reply \<times> 'v heap \<times> lst) option" where
  "take_over h l = do {
     let l2 = l;
     l \<leftarrow> unlock (empty_fields l);
     Some (SUCCESS (l2\<lparr>Lock := 0\<rparr>), h, l) }"

text \<open>
  \<^verbatim>\<open>List2->Tail = List->Tail; (List->Tail = Node->Prev)->Next = 0; (List2->Head = Node)->Prev = 0;
  List->Length -= List2->Length\<close>
\<close>

definition cut_tail :: "'v heap \<Rightarrow> lst \<Rightarrow> lst \<Rightarrow> ptr \<Rightarrow> ('v heap \<times> lst \<times> lst) option" where
  "cut_tail h l l2 node = do {
     let l2 = l2\<lparr>Tail := Tail l\<rparr>;
     p \<leftarrow> get_prev h node;
     h \<leftarrow> set_next h p 0;
     h \<leftarrow> set_prev h node 0;
     Some (h, l\<lparr>Tail := p, Length := ul (int (Length l) - int (Length l2))\<rparr>, l2\<lparr>Head := node\<rparr>) }"

definition split_method ::
  "'v heap \<Rightarrow> lst \<Rightarrow> int \<Rightarrow> ((lst, unit, unit) reply \<times> 'v heap \<times> lst) option" where
  "split_method h l i = do {
     l \<leftarrow> wrlock l;
     let n = int (Length l);
     let i = resolve l i;
     if i < 1 \<or> n + 1 < i then do { l \<leftarrow> unlock l; Some (FAILURE, h, l) }
     else if i = 1 then take_over h l
     else do {
       let l2 = zero_list\<lparr>Length := ul (n - i + 1)\<rparr>;
       (h, l, l2) \<leftarrow>
         (if Length l2 \<noteq> 0 then do {
            (node, l) \<leftarrow> find_node h l i;
            cut_tail h l l2 node }
          else Some (h, l, l2));
       let l2 = l2\<lparr>Access := 4, Cache := Head l2, Index := 1\<rparr>;
       l \<leftarrow> unlock (l\<lparr>Index := 1, Cache := Head l\<rparr>);
       Some (SUCCESS l2, h, l) } }"

text \<open>\<^verbatim>\<open>List2->Cache = List2->Head; List->Index = List2->Index = 1; List->Cache = List->Head; List->Array = 0\<close>\<close>

definition reset_both :: "lst \<Rightarrow> lst \<Rightarrow> lst \<times> lst" where
  "reset_both l l2 =
     (l\<lparr>Index := 1, Cache := Head l, Array := None\<rparr>, l2\<lparr>Cache := Head l2, Index := 1\<rparr>)"

definition split2_method ::
  "'v heap \<Rightarrow> lst \<Rightarrow> int \<Rightarrow> int \<Rightarrow> ((lst, unit, unit) reply \<times> 'v heap \<times> lst) option" where
  "split2_method h l i j = do {
     l \<leftarrow> wrlock l;
     let n = int (Length l);
     let i = resolve l i;
     if i < 1 \<or> n < i then do { l \<leftarrow> unlock l; Some (FAILURE, h, l) } else do {
     let j = resolve l j;
     if j < i \<or> n + 1 < j then do { l \<leftarrow> unlock l; Some (FAILURE, h, l) }
     else if i = 1 \<and> j = n + 1 then take_over h l
     else do {
       let l2 = zero_list\<lparr>Length := ul (j - i)\<rparr>;
       (h, l, l2) \<leftarrow>
         (if Length l2 = 0 then Some (h, l, l2)
          else if i = 1 then do {
            (node, l) \<leftarrow> find_node h l j;
            let l2 = l2\<lparr>Head := Head l\<rparr>;
            p \<leftarrow> get_prev h node;
            h \<leftarrow> set_next h p 0;
            h \<leftarrow> set_prev h node 0;
            let l = l\<lparr>Head := node, Length := ul (int (Length l) - int (Length l2))\<rparr>;
            let (l, l2) = reset_both l (l2\<lparr>Tail := p\<rparr>);
            Some (h, l, l2) }
          else if j = n + 1 then do {
            (node, l) \<leftarrow> find_node h l i;
            (h, l, l2) \<leftarrow> cut_tail h l l2 node;
            let (l, l2) = reset_both l l2;
            Some (h, l, l2) }
          else do {
            (node0, l) \<leftarrow> find_node h l i;
            (node1, l) \<leftarrow> find_node h l j;
            p0 \<leftarrow> get_prev h node0;
            h \<leftarrow> set_next h p0 node1;
            p1 \<leftarrow> get_prev h node1;
            h \<leftarrow> set_next h p1 0;
            p0 \<leftarrow> get_prev h node0;
            h \<leftarrow> set_prev h node1 p0;
            h \<leftarrow> set_prev h node0 0;
            let l = l\<lparr>Length := ul (int (Length l) - int (Length l2))\<rparr>;
            let (l, l2) = reset_both l (l2\<lparr>Head := node0, Tail := p1\<rparr>);
            Some (h, l, l2) });
       l \<leftarrow> unlock l;
       Some (SUCCESS (l2\<lparr>Access := 4\<rparr>), h, l) } } }"

section \<open>Definitions: shift\<close>

text \<open>
  When the range is only partly inside the array, the code drops the array and then goes on to
  address it through the null pointer it has just stored.
\<close>

definition shift_array_right :: "lst \<Rightarrow> nat \<Rightarrow> nat \<Rightarrow> lst option" where
  "shift_array_right l lo up =
     (case Array l of None \<Rightarrow> Some l
      | Some a \<Rightarrow>
          if up < Lower l \<or> Upper l < lo then Some l
          else if lo < Lower l \<or> Upper l < up then None
          else
            (let d = lo - Lower l; k = up - lo in
             if d + k < length a
             then Some (l\<lparr>Array := Some (take d a @ a ! (d + k) # take k (drop d a) @ drop (d + k + 1) a)\<rparr>)
             else None))"

definition shift_array_left :: "lst \<Rightarrow> nat \<Rightarrow> nat \<Rightarrow> lst option" where
  "shift_array_left l lo up =
     (case Array l of None \<Rightarrow> Some l
      | Some a \<Rightarrow>
          if up < Lower l \<or> Upper l < lo then Some l
          else if lo < Lower l \<or> Upper l < up then None
          else
            (let d = lo - Lower l; k = up - lo in
             if d + k < length a
             then Some (l\<lparr>Array := Some (take d a @ take k (drop (d + 1) a) @ a ! d # drop (d + k + 1) a)\<rparr>)
             else None))"

text \<open>Taking the node out towards the front (it has a predecessor) or the back (a successor).\<close>

definition detach_prev :: "'v heap \<Rightarrow> lst \<Rightarrow> ptr \<Rightarrow> ('v heap \<times> lst) option" where
  "detach_prev h l p = do {
     n \<leftarrow> get_next h p;
     b \<leftarrow> get_prev h p;
     h \<leftarrow> set_next h b n;
     if n \<noteq> 0 then do { h \<leftarrow> set_prev h n b; Some (h, l) } else Some (h, l\<lparr>Tail := b\<rparr>) }"

definition detach_next :: "'v heap \<Rightarrow> lst \<Rightarrow> ptr \<Rightarrow> ('v heap \<times> lst) option" where
  "detach_next h l p = do {
     b \<leftarrow> get_prev h p;
     n \<leftarrow> get_next h p;
     h \<leftarrow> set_prev h n b;
     if b \<noteq> 0 then do { h \<leftarrow> set_next h b n; Some (h, l) } else Some (h, l\<lparr>Head := n\<rparr>) }"

text \<open>The four moves of \<^verbatim>\<open>shift\<close>; a position beyond the range of \<^verbatim>\<open>long\<close> is an overflow.\<close>

definition shift_to_front :: "'v heap \<Rightarrow> lst \<Rightarrow> int \<Rightarrow> ('v heap \<times> lst) option" where
  "shift_to_front h l i = do {
     (p, l) \<leftarrow> find_node h (l\<lparr>Access := 4\<rparr>) i;
     (h, l) \<leftarrow> detach_prev h l p;
     h \<leftarrow> set_next h p (Head l);
     h \<leftarrow> set_prev h (Head l) p;
     h \<leftarrow> set_prev h p 0;
     l \<leftarrow> shift_array_right (l\<lparr>Head := p\<rparr>) 1 (nat i);
     Some (h, l) }"

definition shift_back :: "'v heap \<Rightarrow> lst \<Rightarrow> int \<Rightarrow> int \<Rightarrow> ('v heap \<times> lst) option" where
  "shift_back h l i j = do {
     (p, l) \<leftarrow> find_node h (l\<lparr>Access := 4\<rparr>) i;
     (q, l) \<leftarrow> find_node h l j;
     (h, l) \<leftarrow> detach_prev h l p;
     b \<leftarrow> get_prev h q;
     h \<leftarrow> set_prev h p b;
     h \<leftarrow> set_next h b p;
     h \<leftarrow> set_prev h q p;
     h \<leftarrow> set_next h p q;
     l \<leftarrow> shift_array_right l (nat j) (nat i);
     Some (h, l) }"

definition shift_to_end :: "'v heap \<Rightarrow> lst \<Rightarrow> int \<Rightarrow> int \<Rightarrow> ('v heap \<times> lst) option" where
  "shift_to_end h l i n = do {
     (p, l) \<leftarrow> find_node h (l\<lparr>Access := 4\<rparr>) i;
     (h, l) \<leftarrow> detach_next h l p;
     h \<leftarrow> set_prev h p (Tail l);
     h \<leftarrow> set_next h (Tail l) p;
     h \<leftarrow> set_next h p 0;
     l \<leftarrow> shift_array_left (l\<lparr>Tail := p\<rparr>) (nat i) (nat n);
     Some (h, l) }"

definition shift_forward :: "'v heap \<Rightarrow> lst \<Rightarrow> int \<Rightarrow> int \<Rightarrow> ('v heap \<times> lst) option" where
  "shift_forward h l i j = do {
     (p, l) \<leftarrow> find_node h (l\<lparr>Access := 4\<rparr>) i;
     (q, l) \<leftarrow> find_node h l j;
     (h, l) \<leftarrow> detach_next h l p;
     n \<leftarrow> get_next h q;
     h \<leftarrow> set_next h p n;
     h \<leftarrow> set_prev h n p;
     h \<leftarrow> set_next h q p;
     h \<leftarrow> set_prev h p q;
     l \<leftarrow> shift_array_left l (nat i) (nat j);
     Some (h, l) }"

definition shift_method ::
  "'v heap \<Rightarrow> lst \<Rightarrow> int \<Rightarrow> int \<Rightarrow> ((unit, unit, unit) reply \<times> 'v heap \<times> lst) option" where
  "shift_method h l i s = do {
     l \<leftarrow> wrlock l;
     let n = int (Length l);
     let i = resolve l i;
     if i < 1 \<or> n < i then do { l \<leftarrow> unlock l; Some (FAILURE, h, l) }
     else if 2 ^ 31 \<le> i + s then None
     else do {
       (h, l) \<leftarrow>
         (if s < 0 then
            if i + s \<le> 1 then (if 1 < i then shift_to_front h l i else Some (h, l))
            else shift_back h l i (i + s)
          else if 0 < s then
            if n \<le> i + s then (if i < n then shift_to_end h l i n else Some (h, l))
            else shift_forward h l i (i + s)
          else Some (h, l));
       l \<leftarrow> unlock l;
       Some (SUCCESS (), h, l) } }"

section \<open>Definitions: separate\<close>

text \<open>\<open>Slot[0] = Node\<close>: the slot is the list's \<^verbatim>\<open>Head\<close> before the first node, then \<^verbatim>\<open>Prev->Next\<close>.\<close>

definition fill_slot :: "'v heap \<Rightarrow> lst \<Rightarrow> ptr \<Rightarrow> ptr \<Rightarrow> ('v heap \<times> lst) option" where
  "fill_slot h l prev node =
     (if prev = 0 then Some (h, l\<lparr>Head := node\<rparr>)
      else do { h \<leftarrow> set_next h prev node; Some (h, l) })"

partial_function (option) separate_loop ::
  "'v fun1 \<Rightarrow> 'v heap \<Rightarrow> lst \<Rightarrow> lst \<Rightarrow> ptr \<Rightarrow> ptr \<Rightarrow> ptr \<Rightarrow>
   ('v option \<times> 'v heap \<times> lst \<times> lst \<times> ptr \<times> ptr) option" where
  "separate_loop f h l1 l2 node prev1 prev2 =
     (if node = 0 then Some (None, h, l1, l2, prev1, prev2)
      else do {
        v \<leftarrow> get_value h node;
        case f v of
          MESSAGE m \<Rightarrow> do {
            h \<leftarrow> set_prev h node prev1;
            (h, l1) \<leftarrow> fill_slot h l1 prev1 node;
            Some (Some m, h, l1, l2, prev1, prev2) }
        | FAILURE \<Rightarrow> do {
            h \<leftarrow> set_prev h node prev1;
            (h, l1) \<leftarrow> fill_slot h l1 prev1 node;
            n \<leftarrow> get_next h node;
            separate_loop f h l1 l2 n node prev2 }
        | _ \<Rightarrow> do {
            h \<leftarrow> set_prev h node prev2;
            (h, l2) \<leftarrow> fill_slot h l2 prev2 node;
            n \<leftarrow> get_next h node;
            separate_loop f h (l1\<lparr>Length := dec32 (Length l1)\<rparr>) (l2\<lparr>Length := inc32 (Length l2)\<rparr>)
              n prev1 node } })"

text \<open>\<^verbatim>\<open>List->Tail = Prev; if (Prev) Prev->Next = 0; else List->Head = 0\<close>\<close>

definition close_list :: "'v heap \<Rightarrow> lst \<Rightarrow> ptr \<Rightarrow> ('v heap \<times> lst) option" where
  "close_list h l prev =
     (if prev \<noteq> 0 then do { h \<leftarrow> set_next h prev 0; Some (h, l\<lparr>Tail := prev\<rparr>) }
      else Some (h, l\<lparr>Tail := 0, Head := 0\<rparr>))"

definition separate_method ::
  "'v fun1 \<Rightarrow> 'v heap \<Rightarrow> lst \<Rightarrow> ((lst, 'v, unit) reply \<times> 'v heap \<times> lst) option" where
  "separate_method f h l1 = do {
     l1 \<leftarrow> wrlock l1;
     let l1 = l1\<lparr>Index := 1, Cache := Head l1, Array := None\<rparr>;
     (r, h, l1, l2, prev1, prev2) \<leftarrow> separate_loop f h l1 zero_list (Head l1) 0 0;
     case r of
       Some m \<Rightarrow> do { l1 \<leftarrow> unlock l1; Some (MESSAGE m, h, l1) }
     | None \<Rightarrow> do {
         (h, l2) \<leftarrow> close_list h l2 prev2;
         (h, l1) \<leftarrow> close_list h l1 prev1;
         l1 \<leftarrow> unlock l1;
         Some (SUCCESS l2, h, l1) } }"

section \<open>Splitting\<close>

lemma disjoint_parts:
  assumes "distinct (map fst (as @ bs))"
  shows "distinct (map fst as)" "distinct (map fst bs)"
    "as \<noteq> [] \<Longrightarrow> final as p \<notin> fst ` set bs" "bs \<noteq> [] \<Longrightarrow> first bs p \<notin> fst ` set as"
    "as \<noteq> [] \<Longrightarrow> first as p \<notin> fst ` set bs" "bs \<noteq> [] \<Longrightarrow> final bs p \<notin> fst ` set as"
proof -
  have "fst ` set as \<inter> fst ` set bs = {}" using assms by auto
  then show "as \<noteq> [] \<Longrightarrow> final as p \<notin> fst ` set bs" "bs \<noteq> [] \<Longrightarrow> first bs p \<notin> fst ` set as"
    "as \<noteq> [] \<Longrightarrow> first as p \<notin> fst ` set bs" "bs \<noteq> [] \<Longrightarrow> final bs p \<notin> fst ` set as"
    using final_in[of as p] final_in[of bs p] first_in[of as p] first_in[of bs p]
    by (metis disjoint_iff)+
qed (use assms in auto)

lemma cut_chain:
  assumes "heap_ok h" and "chain (Nodes h) a (as @ bs) b" and "distinct (map fst (as @ bs))"
    and "as \<noteq> []" and "bs \<noteq> []"
  obtains h1 h' where "get_prev h (first bs 0) = Some (final as 0)"
    and "set_next h (final as 0) a' = Some h1" and "set_prev h1 (first bs 0) b' = Some h'"
    and "chain (Nodes h') a as a'" and "chain (Nodes h') b' bs b" and "heap_ok h'"
    and "Fresh h' = Fresh h" and "frame h h' (fst ` set (as @ bs))"
    and "\<And>p. p \<notin> fst ` set (as @ bs) \<Longrightarrow> Nodes h' p = Nodes h p"
proof -
  note d = disjoint_parts[OF assms(3)]
  have c: "chain (Nodes h) a as (first bs b)" "chain (Nodes h) (final as a) bs b"
    using assms(2) by simp_all
  from relink_final[OF assms(1) c(1) assms(4) d(1), of 0 a'] obtain h1 nd1 where
    1: "set_next h (final as 0) a' = Some h1" "chain (Nodes h1) a as a'"
      "Nodes h1 = (Nodes h)(final as 0 \<mapsto> nd1)" "heap_ok h1" "Fresh h1 = Fresh h" by metis
  have c1: "chain (Nodes h1) (final as a) bs b"
    unfolding 1(3) using c(2) d(3)[OF assms(4)] by simp
  from relink_first[OF 1(4) c1 assms(5) d(2), of 0 b'] obtain h' nd2 where
    2: "set_prev h1 (first bs 0) b' = Some h'" "chain (Nodes h') b' bs b"
      "Nodes h' = (Nodes h1)(first bs 0 \<mapsto> nd2)" "heap_ok h'" "Fresh h' = Fresh h1" by metis
  have c2: "chain (Nodes h') a as a'" unfolding 2(3) using 1(2) d(4)[OF assms(5)] by simp
  have m: "final as 0 \<in> fst ` set (as @ bs)" "first bs 0 \<in> fst ` set (as @ bs)"
    using final_in[OF assms(4), of 0] first_in[OF assms(5), of 0] by auto
  obtain x xs where bs: "bs = x # xs" using assms(5) by (cases bs) auto
  show ?thesis
  proof (rule that[OF _ 1(1) 2(1) c2 2(2) 2(4)])
    show "get_prev h (first bs 0) = Some (final as 0)"
      using chain_get_prev[OF assms(1) c(2)[unfolded bs]] bs final_nonempty[OF assms(4), of a 0] by simp
    show "frame h h' (fst ` set (as @ bs))" using 1(3,5) 2(3,5) m by (auto simp: frame_def)
    show "\<And>p. p \<notin> fst ` set (as @ bs) \<Longrightarrow> Nodes h' p = Nodes h p" using 1(3) 2(3) m by auto
  qed (use 1(5) 2(5) in simp)
qed

lemma cut_tail_spec:
  assumes "lbase h l (as @ bs)" and "as \<noteq> []" and "bs \<noteq> []" and "Length l2 = length bs"
  obtains h' where "cut_tail h l l2 (first bs 0) =
      Some (h', l\<lparr>Tail := final as 0, Length := length as\<rparr>, l2\<lparr>Tail := final bs 0, Head := first bs 0\<rparr>)"
    and "chain (Nodes h') 0 as 0" and "chain (Nodes h') 0 bs 0" and "heap_ok h'"
    and "frame h h' (fst ` set (as @ bs))"
proof -
  have ok: "heap_ok h" "chain (Nodes h) 0 (as @ bs) 0" "distinct (map fst (as @ bs))"
    and L: "Length l = length as + length bs" "Tail l = final bs 0"
    using assms(1,3) final_nonempty[of bs "final as 0" 0] by (auto simp: lbase_def)
  have len: "length as < 4294967296" using lbase_length[OF assms(1)] by (simp add: max_nodes_def)
  from cut_chain[OF ok assms(2,3), of 0 0] obtain h1 h' where
    c: "get_prev h (first bs 0) = Some (final as 0)" "set_next h (final as 0) 0 = Some h1"
      "set_prev h1 (first bs 0) 0 = Some h'" "chain (Nodes h') 0 as 0" "chain (Nodes h') 0 bs 0"
      "heap_ok h'" "frame h h' (fst ` set (as @ bs))" by metis
  then show ?thesis using that L assms(4) len by (simp add: cut_tail_def)
qed

text \<open>The two lists that a cut leaves.\<close>

lemma lrep_reset:
  assumes "heap_ok h" and "chain (Nodes h) 0 xs 0" and "distinct (map fst xs)"
    and "Head l = first xs 0" and "Tail l = final xs 0" and "Length l = length xs"
    and "Index l = 1" and "Cache l = Head l" and "array_ok l xs"
  shows "lrep h l xs"
  using assms by (auto simp: lrep_def cache_ok_def first_nth Suc_le_eq)

lemma find_node_at:
  assumes "lrep h l (as @ x # bs)" and "i = int (length as + 1)"
  obtains l' where "find_node h l i = Some (fst x, l')" and "lrep h l' (as @ x # bs)" and "Lock l' = Lock l"
  using node_at.find_nth[OF assms(1), of "length as + 1"] assms(2) by (auto simp: nth_append)

lemma take_over_spec:
  assumes "lrep h l xs" and "Lock l = -1"
  shows "\<exists>l2 l'. take_over h l = Some (SUCCESS l2, h, l') \<and> rep h l2 xs \<and> rep h l' []"
  using assms rep_empty_fields[of h l] by (auto simp: take_over_def lrep_def)

lemma split_method_spec:
  assumes "rep h l (as @ bs)" and "resolve l i = int (length as + 1)"
  shows "\<exists>l2 h' l'. split_method h l i = Some (SUCCESS l2, h', l') \<and> rep h' l2 bs \<and>
    (array_ok l' as \<longrightarrow> rep h' l' as) \<and> rep h' (l'\<lparr>Array := None\<rparr>) as \<and>
    frame h h' (fst ` set (as @ bs))"
proof -
  let ?l = "l\<lparr>Lock := -1\<rparr>"
  have r: "lrep h ?l (as @ bs)" and L: "Lock l = 0" "Length l = length as + length bs"
    using assms(1) by (auto simp: rep_def lrep_def)
  have len: "length bs < 4294967296" using lrep_length[OF r] by (simp add: max_nodes_def)
  have ok: "heap_ok h" and d: "distinct (map fst (as @ bs))" using r by (auto simp: lrep_def)
  have n: "int (Length l) - int (length as + 1) + 1 = int (length bs)" using L by simp
  consider "as = []" | "as \<noteq> []" "bs = []" | x cs where "as \<noteq> []" "bs = x # cs" by (cases bs) auto
  then show ?thesis
  proof cases
    case 1
    then have "resolve l i = 1" using assms(2) by simp
    moreover from take_over_spec[of h ?l bs] r 1 obtain l2 l' where
      "take_over h ?l = Some (SUCCESS l2, h, l')" "rep h l2 bs" "rep h l' []" by auto
    moreover from this have "rep h (l'\<lparr>Array := None\<rparr>) []"
      by (simp add: rep_def lrep_def cache_ok_def)
    ultimately show ?thesis using 1 L by (simp add: split_method_def)
  next
    case 2
    have l2: "rep h (zero_list\<lparr>Length := 0, Access := 4, Cache := 0, Index := 1\<rparr>) []"
      using ok by (simp add: rep_def lrep_def cache_ok_def zero_list_def)
    have "rep h (l\<lparr>Index := 1, Cache := Head l, Lock := 0\<rparr>) as"
      "rep h (l\<lparr>Index := 1, Cache := Head l, Lock := 0, Array := None\<rparr>) as"
      using assms(1) 2 by (auto simp: rep_def lrep_def cache_ok_def array_ok_def first_nth Suc_le_eq)
    then show ?thesis using 2 L assms(2) l2
      by (simp add: split_method_def n) (simp add: zero_list_def)
  next
    case 3
    from find_node_at[OF r[unfolded 3(2)] assms(2)] obtain l1 where
      f: "find_node h ?l (resolve l i) = Some (fst x, l1)" "lrep h l1 (as @ bs)" "Lock l1 = -1"
      using 3(2) by auto
    let ?z = "zero_list\<lparr>Length := length bs\<rparr>"
    have ne: "bs \<noteq> []" "fst x = first bs 0" using 3(2) by auto
    from cut_tail_spec[OF lrep_lbase[OF f(2)] 3(1) ne(1), of ?z] obtain h' where
      c: "cut_tail h l1 ?z (first bs 0) = Some (h', l1\<lparr>Tail := final as 0, Length := length as\<rparr>,
          ?z\<lparr>Tail := final bs 0, Head := first bs 0\<rparr>)" "chain (Nodes h') 0 as 0"
        "chain (Nodes h') 0 bs 0" "heap_ok h'" "frame h h' (fst ` set (as @ bs))" by auto
    let ?l2 = "?z\<lparr>Tail := final bs 0, Head := first bs 0, Access := 4, Cache := first bs 0, Index := 1\<rparr>"
    let ?l' = "l1\<lparr>Tail := final as 0, Length := length as, Index := 1, Cache := Head l1, Lock := 0\<rparr>"
    have H: "Head l1 = first as 0" using f(2) 3(1) first_nonempty[of as] by (simp add: lrep_def)
    have "rep h' ?l2 bs" unfolding rep_def
      by (intro conjI lrep_reset) (use c d in \<open>auto simp: zero_list_def\<close>)
    moreover have "array_ok ?l' as \<longrightarrow> rep h' ?l' as" unfolding rep_def
      by (intro impI conjI lrep_reset) (use c d H in auto)
    moreover have "rep h' (?l'\<lparr>Array := None\<rparr>) as" unfolding rep_def
      by (intro conjI lrep_reset) (use c d H in auto)
    moreover have "split_method h l i = Some (SUCCESS ?l2, h', ?l')"
      using f(1,3) c(1) L 3(1) ne len assms(2) n
      by (simp add: split_method_def Let_def)
    ultimately show ?thesis using c(5) by blast
  qed
qed

lemma split_method_out:
  assumes "rep h l xs" and "resolve l i < 1 \<or> int (length xs) + 1 < resolve l i"
  shows "split_method h l i = Some (FAILURE, h, l)"
  using assms by (auto simp: split_method_def Let_def rep_def lrep_def)

text \<open>The four stores that take a middle part out.\<close>

lemma cut_middle:
  assumes "heap_ok h" and "chain (Nodes h) 0 (as @ ms @ bs) 0" and "distinct (map fst (as @ ms @ bs))"
    and "as \<noteq> []" and "ms \<noteq> []" and "bs \<noteq> []"
  obtains h1 h2 h3 h' where "get_prev h (first ms 0) = Some (final as 0)"
    and "set_next h (final as 0) (first bs 0) = Some h1"
    and "get_prev h1 (first bs 0) = Some (final ms 0)"
    and "set_next h1 (final ms 0) 0 = Some h2"
    and "get_prev h2 (first ms 0) = Some (final as 0)"
    and "set_prev h2 (first bs 0) (final as 0) = Some h3"
    and "set_prev h3 (first ms 0) 0 = Some h'"
    and "chain (Nodes h') 0 (as @ bs) 0" and "chain (Nodes h') 0 ms 0" and "heap_ok h'"
    and "frame h h' (fst ` set (as @ ms @ bs))"
proof -
  obtain x xs y ys where ms: "ms = x # xs" and bs: "bs = y # ys"
    using assms(5,6) by (cases ms; cases bs) auto
  have dab: "distinct (map fst (as @ ms))" "distinct (map fst (as @ bs))" "distinct (map fst (ms @ bs))"
    using assms(3) by auto
  note d1 = disjoint_parts[OF dab(1)] and d2 = disjoint_parts[OF dab(2)] and d3 = disjoint_parts[OF dab(3)]
  note ne = assms(4-6)
  have f: "first ms (first bs 0) = first ms 0" "final ms (final as 0) = final ms 0"
    using first_nonempty[OF ne(2)] final_nonempty[OF ne(2)] by metis+
  have c: "chain (Nodes h) 0 as (first ms 0)" "chain (Nodes h) (final as 0) ms (first bs 0)"
    "chain (Nodes h) (final ms 0) bs 0"
    using assms(2) by (simp_all add: f)
  from relink_final[OF assms(1) c(1) ne(1) d1(1)] obtain h1 nd1 where
    1: "set_next h (final as 0) (first bs 0) = Some h1" "chain (Nodes h1) 0 as (first bs 0)"
      "Nodes h1 = (Nodes h)(final as 0 \<mapsto> nd1)" "heap_ok h1" "Fresh h1 = Fresh h" by metis
  have c1: "chain (Nodes h1) (final as 0) ms (first bs 0)" "chain (Nodes h1) (final ms 0) bs 0"
    unfolding 1(3) using c d1(3)[OF ne(1)] d2(3)[OF ne(1)] by simp_all
  from relink_final[OF 1(4) c1(1) ne(2) d1(2)] obtain h2 nd2 where
    2: "set_next h1 (final ms 0) 0 = Some h2" "chain (Nodes h2) (final as 0) ms 0"
      "Nodes h2 = (Nodes h1)(final ms 0 \<mapsto> nd2)" "heap_ok h2" "Fresh h2 = Fresh h1" by metis
  have c2: "chain (Nodes h2) 0 as (first bs 0)" "chain (Nodes h2) (final ms 0) bs 0"
    unfolding 2(3) using 1(2) c1 d1(6)[OF ne(2)] d3(3)[OF ne(2)] by simp_all
  from relink_first[OF 2(4) c2(2) ne(3) d2(2)] obtain h3 nd3 where
    3: "set_prev h2 (first bs 0) (final as 0) = Some h3" "chain (Nodes h3) (final as 0) bs 0"
      "Nodes h3 = (Nodes h2)(first bs 0 \<mapsto> nd3)" "heap_ok h3" "Fresh h3 = Fresh h2" by metis
  have c3: "chain (Nodes h3) 0 as (first bs 0)" "chain (Nodes h3) (final as 0) ms 0"
    unfolding 3(3) using 2(2) c2 d2(4)[OF ne(3)] d3(4)[OF ne(3)] by simp_all
  from relink_first[OF 3(4) c3(2) ne(2) d1(2)] obtain h' nd4 where
    4: "set_prev h3 (first ms 0) 0 = Some h'" "chain (Nodes h') 0 ms 0"
      "Nodes h' = (Nodes h3)(first ms 0 \<mapsto> nd4)" "heap_ok h'" "Fresh h' = Fresh h3" by metis
  have c4: "chain (Nodes h') 0 as (first bs 0)" "chain (Nodes h') (final as 0) bs 0"
    unfolding 4(3) using 3(2) c3 d1(4)[OF ne(2)] d3(5)[OF ne(2)] by simp_all
  have m: "final as 0 \<in> fst ` set as" "final ms 0 \<in> fst ` set ms" "first bs 0 \<in> fst ` set bs"
    "first ms 0 \<in> fst ` set ms"
    using ne by (simp_all add: final_in first_in del: image_iff)
  have "frame h h' (fst ` set (as @ ms @ bs))"
    using 1(3,5) 2(3,5) 3(3,5) 4(3,5) m by (auto simp: frame_def)
  moreover have "get_prev h (first ms 0) = Some (final as 0)" "get_prev h1 (first bs 0) = Some (final ms 0)"
    "get_prev h2 (first ms 0) = Some (final as 0)"
    using chain_get_prev[OF assms(1) c(2)[unfolded ms]] chain_get_prev[OF 1(4) c1(2)[unfolded bs]]
      chain_get_prev[OF 2(4) 2(2)[unfolded ms]] ms bs by simp_all
  ultimately show ?thesis using that[OF _ 1(1) _ 2(1) _ 3(1) 4(1) _ 4(2,4)] c4 by simp
qed

lemma split2_method_spec:
  assumes "rep h l (as @ ms @ bs)" and "resolve l i = int (length as + 1)"
    and "resolve l j = int (length as + length ms + 1)" and "ms @ bs \<noteq> []"
  shows "\<exists>l2 h' l'. split2_method h l i j = Some (SUCCESS l2, h', l') \<and> rep h' l2 ms \<and>
    rep h' l' (as @ bs) \<and> frame h h' (fst ` set (as @ ms @ bs))"
proof -
  let ?l = "l\<lparr>Lock := -1\<rparr>" and ?z = "zero_list\<lparr>Length := length ms\<rparr>"
  have r: "lrep h ?l (as @ ms @ bs)" and L: "Lock l = 0" "Length l = length as + length ms + length bs"
    using assms(1) by (auto simp: rep_def lrep_def)
  have z: "l\<lparr>Lock := 0\<rparr> = l" using L(1) by simp
  have len: "length ms < 4294967296" "length as + length bs < 4294967296"
    using lrep_length[OF r] by (auto simp: max_nodes_def)
  have ok: "heap_ok h" "chain (Nodes h) 0 (as @ ms @ bs) 0" and d: "distinct (map fst (as @ ms @ bs))"
    using r by (auto simp: lrep_def)
  have lz [simp]: "Length zero_list = 0" "Lock zero_list = 0" "Array zero_list = None"
    by (simp_all add: zero_list_def)
  consider "ms = []" | "as = []" "bs = []" "ms \<noteq> []" | "as = []" "ms \<noteq> []" "bs \<noteq> []"
    | "as \<noteq> []" "ms \<noteq> []" "bs = []" | "as \<noteq> []" "ms \<noteq> []" "bs \<noteq> []" by blast
  then show ?thesis
  proof cases
    case 1
    have "rep h (zero_list\<lparr>Access := 4\<rparr>) []"
      using ok by (simp add: rep_def lrep_def cache_ok_def zero_list_def)
    then show ?thesis using 1 L assms r
      by (simp add: split2_method_def Let_def) (simp add: zero_list_def)
  next
    case 2
    from take_over_spec[OF r] obtain l2 l' where
      "take_over h ?l = Some (SUCCESS l2, h, l')" "rep h l2 ms" "rep h l' []" using 2 by auto
    then show ?thesis using 2 L assms(2,3) by (simp add: split2_method_def)
  next
    case 3
    obtain x cs where bs: "bs = x # cs" using 3 by (cases bs) auto
    from find_node_at[of h ?l "as @ ms" x cs "resolve l j"] r assms(3) bs obtain l1 where
      f: "find_node h ?l (resolve l j) = Some (fst x, l1)" "lrep h l1 (as @ ms @ bs)" "Lock l1 = -1"
      by auto
    have ok': "chain (Nodes h) 0 (ms @ bs) 0" "distinct (map fst (ms @ bs))" using ok(2) d 3 by simp_all
    from cut_chain[OF ok(1) ok' 3(2,3), of 0 0] obtain h1 h' where
      c: "get_prev h (first bs 0) = Some (final ms 0)" "set_next h (final ms 0) 0 = Some h1"
        "set_prev h1 (first bs 0) 0 = Some h'" "chain (Nodes h') 0 ms 0" "chain (Nodes h') 0 bs 0"
        "heap_ok h'" "frame h h' (fst ` set (ms @ bs))" by metis
    have F: "Head l1 = first ms 0" "Tail l1 = final bs 0" "Length l1 = length ms + length bs"
      using f(2) 3 first_nonempty[of ms] final_nonempty[of bs] by (auto simp: lrep_def)
    let ?l2 = "?z\<lparr>Head := first ms 0, Tail := final ms 0, Cache := first ms 0, Index := 1, Access := 4\<rparr>"
    let ?l' = "l1\<lparr>Head := fst x, Length := length bs, Index := 1, Cache := fst x, Array := None, Lock := 0\<rparr>"
    have "rep h' ?l2 ms" unfolding rep_def by (intro conjI lrep_reset) (use c d in auto)
    moreover have "rep h' ?l' bs" unfolding rep_def
      by (intro conjI lrep_reset) (use c d F bs in auto)
    moreover have "split2_method h l i j = Some (SUCCESS ?l2, h', ?l')"
      using f(1,3) c(1-3) L 3 len assms(2,3) F bs
      by (simp add: split2_method_def Let_def reset_both_def)
    ultimately show ?thesis using c(7) 3 by auto
  next
    case 4
    obtain x cs where ms: "ms = x # cs" using 4 by (cases ms) auto
    from find_node_at[of h ?l as x "cs @ bs" "resolve l i"] r assms(2) ms obtain l1 where
      f: "find_node h ?l (resolve l i) = Some (fst x, l1)" "lrep h l1 (as @ ms @ bs)" "Lock l1 = -1"
      by auto
    have f2: "lrep h l1 (as @ ms)" using f(2) 4 by simp
    from cut_tail_spec[OF lrep_lbase[OF f2] 4(1,2), of ?z] obtain h' where
      c: "cut_tail h l1 ?z (first ms 0) = Some (h', l1\<lparr>Tail := final as 0, Length := length as\<rparr>,
          ?z\<lparr>Tail := final ms 0, Head := first ms 0\<rparr>)" "chain (Nodes h') 0 as 0"
        "chain (Nodes h') 0 ms 0" "heap_ok h'" "frame h h' (fst ` set (as @ ms))" by auto
    have F: "Head l1 = first as 0" using f2 4 first_nonempty[of as] by (simp add: lrep_def)
    let ?l2 = "?z\<lparr>Tail := final ms 0, Head := first ms 0, Cache := first ms 0, Index := 1, Access := 4\<rparr>"
    let ?l' = "l1\<lparr>Tail := final as 0, Length := length as, Index := 1, Cache := Head l1, Array := None, Lock := 0\<rparr>"
    have "rep h' ?l2 ms" unfolding rep_def by (intro conjI lrep_reset) (use c d in auto)
    moreover have "rep h' ?l' as" unfolding rep_def
      by (intro conjI lrep_reset) (use c d F in auto)
    moreover have "split2_method h l i j = Some (SUCCESS ?l2, h', ?l')"
      using f(1,3) c(1) L 4 len assms(2,3) F ms
      by (simp add: split2_method_def Let_def reset_both_def)
    ultimately show ?thesis using c(5) 4 by auto
  next
    case 5
    obtain x cs y ys where ms: "ms = x # cs" and bs: "bs = y # ys"
      using 5 by (cases ms; cases bs) auto
    from find_node_at[of h ?l as x "cs @ bs" "resolve l i"] r assms(2) ms obtain l0 where
      f0: "find_node h ?l (resolve l i) = Some (fst x, l0)" "lrep h l0 (as @ ms @ bs)" "Lock l0 = -1"
      by auto
    from find_node_at[of h l0 "as @ ms" y ys "resolve l j"] f0(2,3) assms(3) bs obtain l1 where
      f1: "find_node h l0 (resolve l j) = Some (fst y, l1)" "lrep h l1 (as @ ms @ bs)" "Lock l1 = -1"
      by auto
    from cut_middle[OF ok d 5] obtain h1 h2 h3 h' where
      c: "get_prev h (first ms 0) = Some (final as 0)"
        "set_next h (final as 0) (first bs 0) = Some h1"
        "get_prev h1 (first bs 0) = Some (final ms 0)"
        "set_next h1 (final ms 0) 0 = Some h2"
        "get_prev h2 (first ms 0) = Some (final as 0)"
        "set_prev h2 (first bs 0) (final as 0) = Some h3"
        "set_prev h3 (first ms 0) 0 = Some h'"
        "chain (Nodes h') 0 (as @ bs) 0" "chain (Nodes h') 0 ms 0" "heap_ok h'"
        "frame h h' (fst ` set (as @ ms @ bs))" by metis
    have F: "Head l1 = first as 0" "Tail l1 = final bs 0" "Length l1 = length as + length ms + length bs"
      using f1(2) 5 first_nonempty[of as] final_nonempty[of bs] by (auto simp: lrep_def)
    let ?l2 = "?z\<lparr>Head := first ms 0, Tail := final ms 0, Cache := first ms 0, Index := 1, Access := 4\<rparr>"
    let ?l' = "l1\<lparr>Length := length as + length bs, Index := 1, Cache := Head l1, Array := None, Lock := 0\<rparr>"
    have "rep h' ?l2 ms" unfolding rep_def by (intro conjI lrep_reset) (use c d in auto)
    moreover have "rep h' ?l' (as @ bs)" unfolding rep_def
      by (intro conjI lrep_reset)
        (use c d F 5 first_nonempty[of as] final_nonempty[of bs] in auto)
    moreover have "split2_method h l i j = Some (SUCCESS ?l2, h', ?l')"
      using f0(1,3) f1(1,3) c(1-7) L 5 len assms(2,3) F ms bs
      by (simp add: split2_method_def Let_def reset_both_def)
    ultimately show ?thesis using c(11) by blast
  qed
qed

lemma split2_method_out:
  assumes "rep h l xs" and "resolve l i < 1 \<or> int (length xs) < resolve l i \<or>
    resolve l j < resolve l i \<or> int (length xs) + 1 < resolve l j"
  shows "split2_method h l i j = Some (FAILURE, h, l)"
  using assms by (auto simp: split2_method_def Let_def rep_def lrep_def)

section \<open>Shifting: the index array\<close>

definition range_fits :: "lst \<Rightarrow> nat \<Rightarrow> nat \<Rightarrow> bool" where
  "range_fits l lo up \<longleftrightarrow> Array l = None \<or> up < Lower l \<or> Upper l < lo \<or>
     (Lower l \<le> lo \<and> up \<le> Upper l)"

lemma window_D:
  "window a lo up xs \<Longrightarrow> lo \<le> i \<Longrightarrow> i \<le> up \<Longrightarrow> i - lo < length a \<and> a ! (i - lo) = fst (xs ! (i - 1))"
  by (simp add: window_def)

lemma window_outside:
  assumes "window a lo up xs" and "length ys = length xs"
    and "\<And>i. lo \<le> i \<Longrightarrow> i \<le> up \<Longrightarrow> ys ! (i - 1) = xs ! (i - 1)"
  shows "window a lo up ys"
  using assms by (simp add: window_def)

lemma rotate_right_nth:
  assumes "i < length (as @ bs @ x # cs)"
  shows "(as @ x # bs @ cs) ! i =
    (if i < length as then as ! i else if i = length as then x
     else if i \<le> length as + length bs then bs ! (i - length as - 1)
     else cs ! (i - length as - length bs - 1))"
  using assms by (auto simp: nth_append nth_Cons')

lemma rotate_left_nth:
  assumes "i < length (as @ bs @ x # cs)"
  shows "(as @ bs @ x # cs) ! i =
    (if i < length as then as ! i else if i < length as + length bs then bs ! (i - length as)
     else if i = length as + length bs then x
     else cs ! (i - length as - length bs - 1))"
  using assms by (auto simp: nth_append nth_Cons')

lemma window_rotate_right:
  assumes w: "window a lo up (as @ bs @ x # cs)"
    and "lo \<le> length as + 1" and "length as + length bs + 1 \<le> up"
    and d: "d = length as + 1 - lo" and k: "k = length bs"
  shows "d + k < length a"
    and "window (take d a @ a ! (d + k) # take k (drop d a) @ drop (d + k + 1) a) lo up (as @ x # bs @ cs)"
proof -
  let ?a = "take d a @ a ! (d + k) # take k (drop d a) @ drop (d + k + 1) a"
  have lo: "1 \<le> lo" using w by (simp add: window_def)
  show len: "d + k < length a"
    using window_D[OF w, of "length as + length bs + 1"] assms(2,3) d k by simp
  have la: "length ?a = length a" using len by simp
  have an: "?a ! j = (if j < d then a ! j else if j = d then a ! (d + k)
      else if j \<le> d + k then a ! (j - 1) else a ! j)" if "j < length a" for j
    using that len by (auto simp: nth_append nth_Cons')
  show "window ?a lo up (as @ x # bs @ cs)"
    unfolding window_def
  proof (intro conjI allI impI; (elim conjE)?)
    fix i assume i: "lo \<le> i" "i \<le> up"
    note wi = window_D[OF w i]
    show "i - lo < length ?a" unfolding la using wi by simp
    have il: "i - 1 < length (as @ bs @ x # cs)" using w i lo by (auto simp: window_def)
    have il': "i - 2 < length (as @ bs @ x # cs)" using il by simp
    note r = rotate_right_nth[OF il] and l = rotate_left_nth[OF il] and l' = rotate_left_nth[OF il']
    consider "i - lo < d" | "i - lo = d" | "d < i - lo" "i - lo \<le> d + k" | "d + k < i - lo" by linarith
    then show "?a ! (i - lo) = fst ((as @ x # bs @ cs) ! (i - 1))"
    proof cases
      case 1
      then have "i - 1 < length as" using d lo i by simp
      then show ?thesis using 1 an wi r l by simp
    next
      case 2
      then have "i - 1 = length as" using d lo i assms(2) by simp
      moreover have "a ! (d + k) = fst x"
        using window_D[OF w, of "length as + length bs + 1"] assms(2,3) d k by (simp add: nth_append)
      ultimately show ?thesis using 2 an wi r by simp
    next
      case 3
      then have j: "length as < i - 1" "i - 1 \<le> length as + length bs" using d lo i assms(2) k by auto
      have e: "i - lo - 1 = i - 1 - lo" "lo \<le> i - 1" using 3 by auto
      have "a ! (i - 1 - lo) = fst ((as @ bs @ x # cs) ! (i - 2))"
        using window_D[OF w e(2)] i(2) by (simp add: numeral_2_eq_2)
      moreover have "(as @ bs @ x # cs) ! (i - 2) = bs ! (i - 2 - length as)"
        using l' j by auto
      moreover have "i - 1 - length as - 1 = i - 2 - length as" by simp
      ultimately show ?thesis using 3 an wi r j e by simp
    next
      case 4
      then have "length as + length bs < i - 1" using d lo i assms(2) k by auto
      then show ?thesis using 4 an wi r l by simp
    qed
  qed (use w lo in \<open>auto simp: window_def\<close>)
qed

lemma window_rotate_left:
  assumes w: "window a lo up (as @ x # bs @ cs)"
    and "lo \<le> length as + 1" and "length as + length bs + 1 \<le> up"
    and d: "d = length as + 1 - lo" and k: "k = length bs"
  shows "d + k < length a"
    and "window (take d a @ take k (drop (d + 1) a) @ a ! d # drop (d + k + 1) a) lo up (as @ bs @ x # cs)"
proof -
  let ?a = "take d a @ take k (drop (d + 1) a) @ a ! d # drop (d + k + 1) a"
  have lo: "1 \<le> lo" using w by (simp add: window_def)
  show len: "d + k < length a"
    using window_D[OF w, of "length as + length bs + 1"] assms(2,3) d k by simp
  have la: "length ?a = length a" using len by simp
  have an: "?a ! j = (if j < d then a ! j else if j < d + k then a ! (j + 1)
      else if j = d + k then a ! d else a ! j)" if "j < length a" for j
    using that len by (auto simp: nth_append nth_Cons')
  show "window ?a lo up (as @ bs @ x # cs)"
    unfolding window_def
  proof (intro conjI allI impI; (elim conjE)?)
    fix i assume i: "lo \<le> i" "i \<le> up"
    note wi = window_D[OF w i]
    show "i - lo < length ?a" unfolding la using wi by simp
    have il: "i - 1 < length (as @ bs @ x # cs)" using w i lo by (auto simp: window_def)
    note r = rotate_right_nth[OF il] and l = rotate_left_nth[OF il]
    consider "i - lo < d" | "d \<le> i - lo" "i - lo < d + k" | "i - lo = d + k" | "d + k < i - lo" by linarith
    then show "?a ! (i - lo) = fst ((as @ bs @ x # cs) ! (i - 1))"
    proof cases
      case 1
      then have "i - 1 < length as" using d lo i by simp
      then show ?thesis using 1 an wi r l by simp
    next
      case 2
      then have j: "length as \<le> i - 1" "i - 1 < length as + length bs" using d lo i assms(2) k by auto
      have e: "i - lo + 1 = i + 1 - lo" "lo \<le> i + 1" "i + 1 \<le> up" using 2 i j assms(3) by auto
      have "a ! (i + 1 - lo) = fst ((as @ x # bs @ cs) ! i)"
        using window_D[OF w e(2,3)] by simp
      moreover have "(as @ x # bs @ cs) ! i = bs ! (i - length as - 1)"
        using j lo i(1) by (auto simp: nth_append nth_Cons')
      ultimately show ?thesis using 2 an wi l j e by simp
    next
      case 3
      then have "i - 1 = length as + length bs" using d lo i assms(2) k by simp
      moreover have "a ! d = fst x"
        using window_D[OF w, of "length as + 1"] assms(2,3) d by (simp add: nth_append)
      ultimately show ?thesis using 3 an wi l by simp
    next
      case 4
      then have "length as + length bs < i - 1" using d lo i assms(2) k by auto
      then show ?thesis using 4 an wi r l by simp
    qed
  qed (use w lo in \<open>auto simp: window_def\<close>)
qed

lemma shift_array_right_spec:
  assumes "array_ok l (as @ bs @ x # cs)"
  shows "if range_fits l (length as + 1) (length as + length bs + 1)
    then \<exists>a. shift_array_right l (length as + 1) (length as + length bs + 1) = Some (l\<lparr>Array := a\<rparr>) \<and>
      array_ok (l\<lparr>Array := a\<rparr>) (as @ x # bs @ cs)
    else shift_array_right l (length as + 1) (length as + length bs + 1) = None"
proof (cases "Array l")
  case None
  then have "l\<lparr>Array := None\<rparr> = l" by simp
  with None show ?thesis
    by (auto simp: shift_array_right_def range_fits_def intro!: exI[of _ None])
next
  case (Some a)
  with assms have w: "window a (Lower l) (Upper l) (as @ bs @ x # cs)" by (simp add: array_ok_def)
  have e: "l\<lparr>Array := Some a\<rparr> = l" using Some by simp
  consider "length as + length bs + 1 < Lower l \<or> Upper l < length as + 1"
    | "Lower l \<le> length as + 1" "length as + length bs + 1 \<le> Upper l"
    | "\<not> range_fits l (length as + 1) (length as + length bs + 1)"
    using Some by (auto simp: range_fits_def)
  then show ?thesis
  proof cases
    case 1
    have "window a (Lower l) (Upper l) (as @ x # bs @ cs)"
      by (rule window_outside[OF w]) (use 1 w in \<open>auto simp: nth_append nth_Cons' window_def\<close>)
    then show ?thesis using 1 Some e
      by (auto simp: shift_array_right_def range_fits_def array_ok_def intro!: exI[of _ "Some a"])
  next
    case 2
    then show ?thesis using Some window_rotate_right[OF w 2 refl refl]
      by (auto simp: shift_array_right_def range_fits_def array_ok_def Let_def)
  next
    case 3
    then show ?thesis using Some by (auto simp: shift_array_right_def range_fits_def)
  qed
qed

lemma shift_array_left_spec:
  assumes "array_ok l (as @ x # bs @ cs)"
  shows "if range_fits l (length as + 1) (length as + length bs + 1)
    then \<exists>a. shift_array_left l (length as + 1) (length as + length bs + 1) = Some (l\<lparr>Array := a\<rparr>) \<and>
      array_ok (l\<lparr>Array := a\<rparr>) (as @ bs @ x # cs)
    else shift_array_left l (length as + 1) (length as + length bs + 1) = None"
proof (cases "Array l")
  case None
  then have "l\<lparr>Array := None\<rparr> = l" by simp
  with None show ?thesis
    by (auto simp: shift_array_left_def range_fits_def intro!: exI[of _ None])
next
  case (Some a)
  with assms have w: "window a (Lower l) (Upper l) (as @ x # bs @ cs)" by (simp add: array_ok_def)
  have e: "l\<lparr>Array := Some a\<rparr> = l" using Some by simp
  consider "length as + length bs + 1 < Lower l \<or> Upper l < length as + 1"
    | "Lower l \<le> length as + 1" "length as + length bs + 1 \<le> Upper l"
    | "\<not> range_fits l (length as + 1) (length as + length bs + 1)"
    using Some by (auto simp: range_fits_def)
  then show ?thesis
  proof cases
    case 1
    have "window a (Lower l) (Upper l) (as @ bs @ x # cs)"
      by (rule window_outside[OF w]) (use 1 w in \<open>auto simp: nth_append nth_Cons' window_def\<close>)
    then show ?thesis using 1 Some e
      by (auto simp: shift_array_left_def range_fits_def array_ok_def intro!: exI[of _ "Some a"])
  next
    case 2
    then show ?thesis using Some window_rotate_left[OF w 2 refl refl]
      by (auto simp: shift_array_left_def range_fits_def array_ok_def Let_def)
  next
    case 3
    then show ?thesis using Some by (auto simp: shift_array_left_def range_fits_def)
  qed
qed

section \<open>Shifting: the links\<close>

lemma detach_prev_spec:
  assumes "heap_ok h" and "chain (Nodes h) 0 (as @ x # bs) 0" and "distinct (map fst (as @ x # bs))"
    and "as \<noteq> []"
  obtains h' where "detach_prev h l (fst x) = Some (h', if bs = [] then l\<lparr>Tail := final as 0\<rparr> else l)"
    and "chain (Nodes h') 0 (as @ bs) 0" and "heap_ok h'" and "Nodes h' (fst x) = Nodes h (fst x)"
    and "frame h h' (fst ` set (as @ bs))" and "Fresh h' = Fresh h"
proof (cases "bs = []")
  case True
  have c: "chain (Nodes h) 0 as (fst x)" "chain (Nodes h) (final as 0) [x] 0" using assms(2) True by simp_all
  have d: "distinct (map fst as)" "fst x \<notin> fst ` set as" using assms(3) by auto
  from relink_final[OF assms(1) c(1) assms(4) d(1), of 0 0] obtain h' nd where
    1: "set_next h (final as 0) 0 = Some h'" "chain (Nodes h') 0 as 0"
      "Nodes h' = (Nodes h)(final as 0 \<mapsto> nd)" "heap_ok h'" "Fresh h' = Fresh h" by metis
  have m: "final as 0 \<in> fst ` set as" by (rule final_in[OF assms(4)])
  show ?thesis
  proof (rule that[of h'])
    show "detach_prev h l (fst x) = Some (h', if bs = [] then l\<lparr>Tail := final as 0\<rparr> else l)"
      using True 1(1) chain_get_next[OF assms(1) c(2)] chain_get_prev[OF assms(1) c(2)]
      by (simp add: detach_prev_def)
    have "final as 0 \<noteq> fst x" using m d(2) by metis
    then show "Nodes h' (fst x) = Nodes h (fst x)" using 1(3) by simp
    show "frame h h' (fst ` set (as @ bs))" using 1(3,5) m by (auto simp: frame_def)
  qed (use 1 True in simp_all)
next
  case False
  from bypass[OF assms(1-4) False] obtain h1 h' where
    b: "get_next h (fst x) = Some (first bs 0)" "get_prev h (fst x) = Some (final as 0)"
      "set_next h (final as 0) (first bs 0) = Some h1"
      "set_prev h1 (first bs 0) (final as 0) = Some h'"
      "chain (Nodes h') 0 (as @ bs) 0" "heap_ok h'" "Fresh h' = Fresh h"
      "Nodes h' (fst x) = Nodes h (fst x)" "frame h h' {final as 0, first bs 0}" by blast
  have "chain (Nodes h) (fst x) bs 0" using assms(2) by simp
  then have "first bs 0 \<noteq> 0" using False first_null[OF assms(1)] by blast
  moreover have "frame h h' (fst ` set (as @ bs))"
    using b(9) final_in[OF assms(4), of 0] first_in[OF False, of 0] by (auto simp: frame_def)
  ultimately show ?thesis using that[of h'] b False by (simp add: detach_prev_def)
qed

lemma detach_next_spec:
  assumes "heap_ok h" and "chain (Nodes h) 0 (as @ x # bs) 0" and "distinct (map fst (as @ x # bs))"
    and "bs \<noteq> []"
  obtains h' where "detach_next h l (fst x) = Some (h', if as = [] then l\<lparr>Head := first bs 0\<rparr> else l)"
    and "chain (Nodes h') 0 (as @ bs) 0" and "heap_ok h'" and "Nodes h' (fst x) = Nodes h (fst x)"
    and "frame h h' (fst ` set (as @ bs))" and "Fresh h' = Fresh h"
proof -
  have c: "chain (Nodes h) 0 as (fst x)" "chain (Nodes h) (final as 0) (x # bs) 0"
    "chain (Nodes h) (fst x) bs 0" using assms(2) by simp_all
  have ab: "distinct (map fst (as @ bs))" using assms(3) by simp
  note d = disjoint_parts[OF ab]
  have x: "fst x \<notin> fst ` set as" "fst x \<notin> fst ` set bs" using assms(3) by auto
  from relink_first[OF assms(1) c(3) assms(4) d(2), of 0 "final as 0"] obtain h1 nd where
    1: "set_prev h (first bs 0) (final as 0) = Some h1" "chain (Nodes h1) (final as 0) bs 0"
      "Nodes h1 = (Nodes h)(first bs 0 \<mapsto> nd)" "heap_ok h1" "Fresh h1 = Fresh h" by metis
  have m: "first bs 0 \<in> fst ` set bs" by (rule first_in[OF assms(4)])
  have nx: "get_next h (fst x) = Some (first bs 0)" "get_prev h (fst x) = Some (final as 0)"
    using chain_get_next[OF assms(1) c(2)] chain_get_prev[OF assms(1) c(2)] by simp_all
  show ?thesis
  proof (cases "as = []")
    case True
    show ?thesis
    proof (rule that[of h1])
      show "detach_next h l (fst x) = Some (h1, if as = [] then l\<lparr>Head := first bs 0\<rparr> else l)"
        using True 1(1) nx by (simp add: detach_next_def)
      have "first bs 0 \<noteq> fst x" using m x(2) by metis
      then show "Nodes h1 (fst x) = Nodes h (fst x)" using 1(3) by simp
      show "frame h h1 (fst ` set (as @ bs))" using 1(3,5) m by (auto simp: frame_def)
    qed (use 1 True in simp_all)
  next
    case False
    have ca: "chain (Nodes h1) 0 as (fst x)" unfolding 1(3) using c(1) d(4)[OF assms(4)] by simp
    from relink_final[OF 1(4) ca False d(1), of 0 "first bs 0"] obtain h' nd2 where
      2: "set_next h1 (final as 0) (first bs 0) = Some h'" "chain (Nodes h') 0 as (first bs 0)"
        "Nodes h' = (Nodes h1)(final as 0 \<mapsto> nd2)" "heap_ok h'" "Fresh h' = Fresh h1" by metis
    have cb: "chain (Nodes h') (final as 0) bs 0" unfolding 2(3) using 1(2) d(3)[OF False] by simp
    have m2: "final as 0 \<in> fst ` set as" by (rule final_in[OF False])
    have "final as 0 \<noteq> 0" using False final_null[OF assms(1) c(1)] by blast
    then have "detach_next h l (fst x) = Some (h', if as = [] then l\<lparr>Head := first bs 0\<rparr> else l)"
      using False 1(1) 2(1) nx by (simp add: detach_next_def)
    moreover have "first bs 0 \<noteq> fst x" "final as 0 \<noteq> fst x" using m m2 x by metis+
    then have "Nodes h' (fst x) = Nodes h (fst x)" using 1(3) 2(3) by simp
    moreover have "frame h h' (fst ` set (as @ bs))" using 1(3,5) 2(3,5) m m2 by (auto simp: frame_def)
    ultimately show ?thesis using that[of h'] 1(5) 2(2,4,5) cb by simp
  qed
qed

text \<open>
  Putting a node that lies outside a chain back in: before its first node, after its last one,
  and in the middle in the two orders of stores that the code uses.
\<close>

lemma attach_front:
  assumes "heap_ok h" and "chain (Nodes h) 0 vs 0" and "distinct (map fst (x # vs))" and "vs \<noteq> []"
    and "chain (Nodes h) p0 [x] n0"
  obtains h1 h2 h' where "set_next h (fst x) (first vs 0) = Some h1"
    and "set_prev h1 (first vs 0) (fst x) = Some h2" and "set_prev h2 (fst x) 0 = Some h'"
    and "chain (Nodes h') 0 (x # vs) 0" and "heap_ok h'" and "frame h h' (fst ` set (x # vs))"
    and "Fresh h' = Fresh h"
proof -
  have d: "fst x \<notin> fst ` set vs" "distinct (map fst vs)" "first vs 0 \<in> fst ` set vs"
    using assms(3) first_in[OF assms(4), of 0] by auto
  then have "first vs 0 \<noteq> fst x" by metis
  then have n: "first vs 0 \<notin> fst ` set [x]" by simp
  from relink_final[OF assms(1,5), of 0 "first vs 0"] obtain h1 nd1 where
    1: "set_next h (fst x) (first vs 0) = Some h1" "chain (Nodes h1) p0 [x] (first vs 0)"
      "Nodes h1 = (Nodes h)(fst x \<mapsto> nd1)" "heap_ok h1" "Fresh h1 = Fresh h" by auto
  have c1: "chain (Nodes h1) 0 vs 0" unfolding 1(3) using assms(2) d(1) by simp
  from relink_first[OF 1(4) c1 assms(4) d(2), of 0 "fst x"] obtain h2 nd2 where
    2: "set_prev h1 (first vs 0) (fst x) = Some h2" "chain (Nodes h2) (fst x) vs 0"
      "Nodes h2 = (Nodes h1)(first vs 0 \<mapsto> nd2)" "heap_ok h2" "Fresh h2 = Fresh h1" by metis
  have c2: "chain (Nodes h2) p0 [x] (first vs 0)" unfolding 2(3) using 1(2) n by (simp del: chain.simps)
  from relink_first[OF 2(4) c2, of 0 0] obtain h' nd3 where
    3: "set_prev h2 (fst x) 0 = Some h'" "chain (Nodes h') 0 [x] (first vs 0)"
      "Nodes h' = (Nodes h2)(fst x \<mapsto> nd3)" "heap_ok h'" "Fresh h' = Fresh h2" by auto
  have "chain (Nodes h') (fst x) vs 0" unfolding 3(3) using 2(2) d(1) by simp
  then have "chain (Nodes h') 0 (x # vs) 0" using 3(2) by simp
  moreover have "frame h h' (fst ` set (x # vs))"
    using 1(3,5) 2(3,5) 3(3,5) d(3) by (auto simp: frame_def)
  ultimately show ?thesis using that[OF 1(1) 2(1) 3(1)] 3(4,5) 1(5) 2(5) by simp
qed

lemma attach_back:
  assumes "heap_ok h" and "chain (Nodes h) 0 us 0" and "distinct (map fst (us @ [x]))" and "us \<noteq> []"
    and "chain (Nodes h) p0 [x] n0"
  obtains h1 h2 h' where "set_prev h (fst x) (final us 0) = Some h1"
    and "set_next h1 (final us 0) (fst x) = Some h2" and "set_next h2 (fst x) 0 = Some h'"
    and "chain (Nodes h') 0 (us @ [x]) 0" and "heap_ok h'" and "frame h h' (fst ` set (us @ [x]))"
    and "Fresh h' = Fresh h"
proof -
  have d: "fst x \<notin> fst ` set us" "distinct (map fst us)" "final us 0 \<in> fst ` set us"
    using assms(3) final_in[OF assms(4), of 0] by auto
  then have "final us 0 \<noteq> fst x" by metis
  then have n: "final us 0 \<notin> fst ` set [x]" by simp
  from relink_first[OF assms(1,5), of 0 "final us 0"] obtain h1 nd1 where
    1: "set_prev h (fst x) (final us 0) = Some h1" "chain (Nodes h1) (final us 0) [x] n0"
      "Nodes h1 = (Nodes h)(fst x \<mapsto> nd1)" "heap_ok h1" "Fresh h1 = Fresh h" by auto
  have c1: "chain (Nodes h1) 0 us 0" unfolding 1(3) using assms(2) d(1) by simp
  from relink_final[OF 1(4) c1 assms(4) d(2), of 0 "fst x"] obtain h2 nd2 where
    2: "set_next h1 (final us 0) (fst x) = Some h2" "chain (Nodes h2) 0 us (fst x)"
      "Nodes h2 = (Nodes h1)(final us 0 \<mapsto> nd2)" "heap_ok h2" "Fresh h2 = Fresh h1" by metis
  have c2: "chain (Nodes h2) (final us 0) [x] n0" unfolding 2(3) using 1(2) n by (simp del: chain.simps)
  from relink_final[OF 2(4) c2, of 0 0] obtain h' nd3 where
    3: "set_next h2 (fst x) 0 = Some h'" "chain (Nodes h') (final us 0) [x] 0"
      "Nodes h' = (Nodes h2)(fst x \<mapsto> nd3)" "heap_ok h'" "Fresh h' = Fresh h2" by auto
  have "chain (Nodes h') 0 us (fst x)" unfolding 3(3) using 2(2) d(1) by simp
  then have "chain (Nodes h') 0 (us @ [x]) 0" using 3(2) by simp
  moreover have "frame h h' (fst ` set (us @ [x]))"
    using 1(3,5) 2(3,5) 3(3,5) d(3) by (auto simp: frame_def)
  ultimately show ?thesis using that[OF 1(1) 2(1) 3(1)] 3(4,5) 1(5) 2(5) by simp
qed

lemma attach_before:
  assumes "heap_ok h" and "chain (Nodes h) 0 (us @ vs) 0" and "distinct (map fst (us @ x # vs))"
    and "us \<noteq> []" and "vs \<noteq> []" and "chain (Nodes h) p0 [x] n0"
  obtains h1 h2 h3 h' where "get_prev h (first vs 0) = Some (final us 0)"
    and "set_prev h (fst x) (final us 0) = Some h1" and "set_next h1 (final us 0) (fst x) = Some h2"
    and "set_prev h2 (first vs 0) (fst x) = Some h3" and "set_next h3 (fst x) (first vs 0) = Some h'"
    and "chain (Nodes h') 0 (us @ x # vs) 0" and "heap_ok h'" and "frame h h' (fst ` set (us @ x # vs))"
proof -
  have ab: "distinct (map fst (us @ vs))" using assms(3) by simp
  note d = disjoint_parts[OF ab]
  have x: "fst x \<notin> fst ` set us" "fst x \<notin> fst ` set vs" using assms(3) by auto
  have m: "final us 0 \<in> fst ` set us" "first vs 0 \<in> fst ` set vs"
    by (rule final_in[OF assms(4)], rule first_in[OF assms(5)])
  have "final us 0 \<noteq> fst x" "first vs 0 \<noteq> fst x" using m x by metis+
  then have n: "final us 0 \<notin> fst ` set [x]" "first vs 0 \<notin> fst ` set [x]" by simp_all
  have c: "chain (Nodes h) 0 us (first vs 0)" "chain (Nodes h) (final us 0) vs 0"
    using assms(2) by simp_all
  have pv: "get_prev h (first vs 0) = Some (final us 0)"
    using c(2) assms(1,5) by (cases vs) (auto simp: get_prev_def)
  from relink_first[OF assms(1,6), of 0 "final us 0"] obtain h1 nd1 where
    1: "set_prev h (fst x) (final us 0) = Some h1" "chain (Nodes h1) (final us 0) [x] n0"
      "Nodes h1 = (Nodes h)(fst x \<mapsto> nd1)" "heap_ok h1" "Fresh h1 = Fresh h" by auto
  have c1: "chain (Nodes h1) 0 us (first vs 0)" "chain (Nodes h1) (final us 0) vs 0"
    unfolding 1(3) using c x by simp_all
  from relink_final[OF 1(4) c1(1) assms(4) d(1), of 0 "fst x"] obtain h2 nd2 where
    2: "set_next h1 (final us 0) (fst x) = Some h2" "chain (Nodes h2) 0 us (fst x)"
      "Nodes h2 = (Nodes h1)(final us 0 \<mapsto> nd2)" "heap_ok h2" "Fresh h2 = Fresh h1" by metis
  have c2: "chain (Nodes h2) (final us 0) [x] n0" "chain (Nodes h2) (final us 0) vs 0"
    unfolding 2(3) using 1(2) c1(2) n(1) d(3)[OF assms(4)] by (simp_all del: chain.simps)
  from relink_first[OF 2(4) c2(2) assms(5) d(2), of 0 "fst x"] obtain h3 nd3 where
    3: "set_prev h2 (first vs 0) (fst x) = Some h3" "chain (Nodes h3) (fst x) vs 0"
      "Nodes h3 = (Nodes h2)(first vs 0 \<mapsto> nd3)" "heap_ok h3" "Fresh h3 = Fresh h2" by metis
  have c3: "chain (Nodes h3) (final us 0) [x] n0" "chain (Nodes h3) 0 us (fst x)"
    unfolding 3(3) using 2(2) c2(1) n(2) d(4)[OF assms(5)] by (simp_all del: chain.simps)
  from relink_final[OF 3(4) c3(1), of 0 "first vs 0"] obtain h' nd4 where
    4: "set_next h3 (fst x) (first vs 0) = Some h'" "chain (Nodes h') (final us 0) [x] (first vs 0)"
      "Nodes h' = (Nodes h3)(fst x \<mapsto> nd4)" "heap_ok h'" "Fresh h' = Fresh h3" by auto
  have "chain (Nodes h') 0 us (fst x)" "chain (Nodes h') (fst x) vs 0"
    unfolding 4(3) using 3(2) c3(2) x by simp_all
  then have "chain (Nodes h') 0 (us @ x # vs) 0" using 4(2) by simp
  moreover have "frame h h' (fst ` set (us @ x # vs))"
    using 1(3,5) 2(3,5) 3(3,5) 4(3,5) m by (auto simp: frame_def)
  ultimately show ?thesis using that[OF pv 1(1) 2(1) 3(1) 4(1)] 4(4) by simp
qed

lemma attach_after:
  assumes "heap_ok h" and "chain (Nodes h) 0 (us @ vs) 0" and "distinct (map fst (us @ x # vs))"
    and "us \<noteq> []" and "vs \<noteq> []" and "chain (Nodes h) p0 [x] n0"
  obtains h1 h2 h3 h' where "get_next h (final us 0) = Some (first vs 0)"
    and "set_next h (fst x) (first vs 0) = Some h1" and "set_prev h1 (first vs 0) (fst x) = Some h2"
    and "set_next h2 (final us 0) (fst x) = Some h3" and "set_prev h3 (fst x) (final us 0) = Some h'"
    and "chain (Nodes h') 0 (us @ x # vs) 0" and "heap_ok h'" and "frame h h' (fst ` set (us @ x # vs))"
proof -
  have ab: "distinct (map fst (us @ vs))" using assms(3) by simp
  note d = disjoint_parts[OF ab]
  have x: "fst x \<notin> fst ` set us" "fst x \<notin> fst ` set vs" using assms(3) by auto
  have m: "final us 0 \<in> fst ` set us" "first vs 0 \<in> fst ` set vs"
    by (rule final_in[OF assms(4)], rule first_in[OF assms(5)])
  have "final us 0 \<noteq> fst x" "first vs 0 \<noteq> fst x" using m x by metis+
  then have n: "final us 0 \<notin> fst ` set [x]" "first vs 0 \<notin> fst ` set [x]" by simp_all
  have c: "chain (Nodes h) 0 us (first vs 0)" "chain (Nodes h) (final us 0) vs 0"
    using assms(2) by simp_all
  have nx: "get_next h (final us 0) = Some (first vs 0)"
    using chain_last[OF c(1) assms(4)] assms(1) by (auto simp: get_next_def)
  from relink_final[OF assms(1,6), of 0 "first vs 0"] obtain h1 nd1 where
    1: "set_next h (fst x) (first vs 0) = Some h1" "chain (Nodes h1) p0 [x] (first vs 0)"
      "Nodes h1 = (Nodes h)(fst x \<mapsto> nd1)" "heap_ok h1" "Fresh h1 = Fresh h" by auto
  have c1: "chain (Nodes h1) 0 us (first vs 0)" "chain (Nodes h1) (final us 0) vs 0"
    unfolding 1(3) using c x by simp_all
  from relink_first[OF 1(4) c1(2) assms(5) d(2), of 0 "fst x"] obtain h2 nd2 where
    2: "set_prev h1 (first vs 0) (fst x) = Some h2" "chain (Nodes h2) (fst x) vs 0"
      "Nodes h2 = (Nodes h1)(first vs 0 \<mapsto> nd2)" "heap_ok h2" "Fresh h2 = Fresh h1" by metis
  have c2: "chain (Nodes h2) p0 [x] (first vs 0)" "chain (Nodes h2) 0 us (first vs 0)"
    unfolding 2(3) using 1(2) c1(1) n(2) d(4)[OF assms(5)] by (simp_all del: chain.simps)
  from relink_final[OF 2(4) c2(2) assms(4) d(1), of 0 "fst x"] obtain h3 nd3 where
    3: "set_next h2 (final us 0) (fst x) = Some h3" "chain (Nodes h3) 0 us (fst x)"
      "Nodes h3 = (Nodes h2)(final us 0 \<mapsto> nd3)" "heap_ok h3" "Fresh h3 = Fresh h2" by metis
  have c3: "chain (Nodes h3) p0 [x] (first vs 0)" "chain (Nodes h3) (fst x) vs 0"
    unfolding 3(3) using 2(2) c2(1) n(1) d(3)[OF assms(4)] by (simp_all del: chain.simps)
  from relink_first[OF 3(4) c3(1), of 0 "final us 0"] obtain h' nd4 where
    4: "set_prev h3 (fst x) (final us 0) = Some h'" "chain (Nodes h') (final us 0) [x] (first vs 0)"
      "Nodes h' = (Nodes h3)(fst x \<mapsto> nd4)" "heap_ok h'" "Fresh h' = Fresh h3" by auto
  have "chain (Nodes h') 0 us (fst x)" "chain (Nodes h') (fst x) vs 0"
    unfolding 4(3) using 3(2) c3(2) x by simp_all
  then have "chain (Nodes h') 0 (us @ x # vs) 0" using 4(2) by simp
  moreover have "frame h h' (fst ` set (us @ x # vs))"
    using 1(3,5) 2(3,5) 3(3,5) 4(3,5) m by (auto simp: frame_def)
  ultimately show ?thesis using that[OF nx 1(1) 2(1) 3(1) 4(1)] 4(4) by simp
qed

text \<open>With \<^verbatim>\<open>Access\<close> just reset, a search does not rebuild the array.\<close>

lemma find_node_array:
  assumes "find_node h l i = Some (p, l')" and "1 < Access l"
  shows "Array l' = Array l" "Lower l' = Lower l" "Upper l' = Upper l" "Access l - 1 \<le> Access l'"
  using assms
  by (auto simp: find_node_def seek_def Let_def dec32_pos bind_Some_iff split: if_splits)

section \<open>Shifting a node\<close>

lemma array_ok_ends [simp]:
  "array_ok (l\<lparr>Head := p\<rparr>) xs = array_ok l xs" "array_ok (l\<lparr>Tail := p\<rparr>) xs = array_ok l xs"
  by (simp_all add: array_ok_def)

lemma range_fits_ends [simp]:
  "range_fits (l\<lparr>Head := p\<rparr>) a b = range_fits l a b" "range_fits (l\<lparr>Tail := p\<rparr>) a b = range_fits l a b"
  by (simp_all add: range_fits_def)

text \<open>A list whose links are as in \<open>ys\<close>, found by its first search at the node \<open>x\<close>.\<close>

lemma find_node_shift:
  assumes "lrep h l (us @ x # vs)" and "i = int (length us + 1)"
  obtains l1 where "find_node h (l\<lparr>Access := 4\<rparr>) i = Some (fst x, l1)" and "lrep h l1 (us @ x # vs)"
    and "Lock l1 = Lock l" and "\<And>a b. range_fits l1 a b = range_fits l a b" and "2 < Access l1"
proof -
  have "lrep h (l\<lparr>Access := 4\<rparr>) (us @ x # vs)" using assms(1) by (simp add: lrep_def)
  from find_node_at[OF this assms(2)] obtain l1 where
    1: "find_node h (l\<lparr>Access := 4\<rparr>) i = Some (fst x, l1)" "lrep h l1 (us @ x # vs)"
      "Lock l1 = Lock (l\<lparr>Access := 4\<rparr>)" by blast
  then show ?thesis using that[of l1] find_node_array[OF 1(1)] by (simp add: range_fits_def)
qed

lemma lbase_relinked:
  assumes "lbase h l xs" and "chain (Nodes h') 0 ys 0" and "heap_ok h'" and "distinct (map fst ys)"
    and "length ys = length xs" and "array_ok l' ys" and "Head l' = first ys 0" and "Tail l' = final ys 0"
    and "Length l' = Length l"
  shows "lbase h' l' ys"
  using assms by (simp add: lbase_def)

lemma shift_to_front_spec:
  assumes "lrep h l (as @ x # cs)" and "as \<noteq> []" and "i = int (length as + 1)"
  shows "if range_fits l 1 (length as + 1)
    then \<exists>h' l'. shift_to_front h l i = Some (h', l') \<and> lbase h' l' (x # as @ cs) \<and>
      Lock l' = Lock l \<and> frame h h' (fst ` set (as @ x # cs))
    else shift_to_front h l i = None"
proof -
  from find_node_shift[OF assms(1,3)] obtain l1 where
    f: "find_node h (l\<lparr>Access := 4\<rparr>) i = Some (fst x, l1)" "lrep h l1 (as @ x # cs)"
      "Lock l1 = Lock l" "\<And>a b. range_fits l1 a b = range_fits l a b" by metis
  have ok: "heap_ok h" "chain (Nodes h) 0 (as @ x # cs) 0" "distinct (map fst (as @ x # cs))"
    and L: "Head l1 = first as 0" "Tail l1 = final (as @ x # cs) 0" and ar: "array_ok l1 ([] @ as @ x # cs)"
    using f(2) assms(2) first_nonempty[OF assms(2)] by (auto simp: lrep_def)
  let ?l = "if cs = [] then l1\<lparr>Tail := final as 0\<rparr> else l1"
  from detach_prev_spec[OF ok assms(2), of l1] obtain h1 where
    d: "detach_prev h l1 (fst x) = Some (h1, ?l)" "chain (Nodes h1) 0 (as @ cs) 0" "heap_ok h1"
      "Nodes h1 (fst x) = Nodes h (fst x)" "frame h h1 (fst ` set (as @ cs))" "Fresh h1 = Fresh h" by metis
  have x: "chain (Nodes h1) (final as 0) [x] (first cs 0)" using ok(2) d(4) by simp
  have dx: "distinct (map fst (x # as @ cs))" "as @ cs \<noteq> []" using ok(3) assms(2) by auto
  from attach_front[OF d(3,2) dx x] obtain h2 h3 h' where
    a: "set_next h1 (fst x) (first (as @ cs) 0) = Some h2"
      "set_prev h2 (first (as @ cs) 0) (fst x) = Some h3" "set_prev h3 (fst x) 0 = Some h'"
      "chain (Nodes h') 0 (x # as @ cs) 0" "heap_ok h'" "frame h1 h' (fst ` set (x # as @ cs))" by metis
  have H: "Head ?l = first (as @ cs) 0" using L assms(2) first_nonempty[OF assms(2)] by simp
  have fr: "frame h h' (fst ` set (as @ x # cs))" using d(5,6) a(6) by (auto simp: frame_def)
  let ?l2 = "?l\<lparr>Head := fst x\<rparr>"
  have ar2: "array_ok ?l2 ([] @ as @ x # cs)" using ar by (cases "cs = []") simp_all
  have un: "shift_to_front h l i =
      map_option (\<lambda>l. (h', l)) (shift_array_right ?l2 1 (length as + 1))"
    using f(1) d(1) a(1-3) H assms(3)
    by (cases "shift_array_right ?l2 1 (length as + 1)") (auto simp: shift_to_front_def)
  have T: "Tail ?l2 = final (x # as @ cs) 0"
    using L(2) assms(2) by (auto simp: final_Cons final_def)
  show ?thesis
  proof (cases "range_fits l 1 (length as + 1)")
    case True
    with shift_array_right_spec[OF ar2] f(4) obtain a where
      "shift_array_right ?l2 1 (length as + 1) = Some (?l2\<lparr>Array := a\<rparr>)"
      "array_ok (?l2\<lparr>Array := a\<rparr>) (x # as @ cs)" by (auto split: if_splits)
    moreover from this have "lbase h' (?l2\<lparr>Array := a\<rparr>) (x # as @ cs)"
      by (intro lbase_relinked[OF lrep_lbase[OF f(2)] a(4,5) dx(1)]) (use T in auto)
    ultimately show ?thesis using True un f(3) fr by auto
  next
    case False
    then have "shift_array_right ?l2 1 (length as + 1) = None"
      using shift_array_right_spec[OF ar2] f(4) by (auto split: if_splits)
    then show ?thesis using False un by simp
  qed
qed

lemma shift_back_spec:
  assumes "lrep h l (as @ bs @ x # cs)" and "as \<noteq> []" and "bs \<noteq> []"
    and "i = int (length as + length bs + 1)" and "j = int (length as + 1)"
  shows "if range_fits l (length as + 1) (length as + length bs + 1)
    then \<exists>h' l'. shift_back h l i j = Some (h', l') \<and> lbase h' l' (as @ x # bs @ cs) \<and>
      Lock l' = Lock l \<and> frame h h' (fst ` set (as @ bs @ x # cs))
    else shift_back h l i j = None"
proof -
  obtain b bs' where bs: "bs = b # bs'" using assms(3) by (cases bs) auto
  from find_node_shift[of h l "as @ bs" x cs i] assms(1,4) obtain l0 where
    f0: "find_node h (l\<lparr>Access := 4\<rparr>) i = Some (fst x, l0)" "lrep h l0 (as @ bs @ x # cs)"
      "Lock l0 = Lock l" "\<And>a b. range_fits l0 a b = range_fits l a b" "2 < Access l0" by auto
  from find_node_at[of h l0 as b "bs' @ x # cs" j] f0(2) assms(5) bs obtain l1 where
    f: "find_node h l0 j = Some (first bs 0, l1)" "lrep h l1 (as @ bs @ x # cs)" "Lock l1 = Lock l0" by auto
  have fit: "range_fits l1 a b = range_fits l a b" for a b
    using find_node_array[OF f(1)] f0(4,5) by (simp add: range_fits_def)
  have ok: "heap_ok h" "chain (Nodes h) 0 ((as @ bs) @ x # cs) 0" "distinct (map fst ((as @ bs) @ x # cs))"
    and L: "Head l1 = first as 0" "Tail l1 = final (as @ bs @ x # cs) 0"
    and ar: "array_ok l1 (as @ bs @ x # cs)"
    using f(2) assms(2) first_nonempty[OF assms(2)] by (auto simp: lrep_def)
  have ne: "as @ bs \<noteq> []" "bs @ cs \<noteq> []" using assms(2,3) by auto
  let ?l = "if cs = [] then l1\<lparr>Tail := final (as @ bs) 0\<rparr> else l1"
  from detach_prev_spec[OF ok ne(1), of l1] obtain h1 where
    d: "detach_prev h l1 (fst x) = Some (h1, ?l)" "chain (Nodes h1) 0 (as @ bs @ cs) 0" "heap_ok h1"
      "Nodes h1 (fst x) = Nodes h (fst x)" "frame h h1 (fst ` set ((as @ bs) @ cs))"
      "Fresh h1 = Fresh h" unfolding append_assoc by metis
  have x: "chain (Nodes h1) (final (as @ bs) 0) [x] (first cs 0)" using ok(2) d(4) by simp
  have dx: "distinct (map fst (as @ x # bs @ cs))" using ok(3) by auto
  have fb: "first (bs @ cs) 0 = first bs 0" using assms(3) first_nonempty[OF assms(3)] by simp
  from attach_before[OF d(3,2) dx assms(2) ne(2) x] fb obtain h2 h3 h4 h' where
    a: "get_prev h1 (first bs 0) = Some (final as 0)"
      "set_prev h1 (fst x) (final as 0) = Some h2" "set_next h2 (final as 0) (fst x) = Some h3"
      "set_prev h3 (first bs 0) (fst x) = Some h4" "set_next h4 (fst x) (first bs 0) = Some h'"
      "chain (Nodes h') 0 (as @ x # bs @ cs) 0" "heap_ok h'" "frame h1 h' (fst ` set (as @ x # bs @ cs))"
    by metis
  have fr: "frame h h' (fst ` set (as @ bs @ x # cs))" using d(5,6) a(8) by (auto simp: frame_def)
  have ar2: "array_ok ?l (as @ bs @ x # cs)" using ar by (cases "cs = []") simp_all
  have un: "shift_back h l i j =
      map_option (\<lambda>l. (h', l)) (shift_array_right ?l (length as + 1) (length as + length bs + 1))"
    using f0(1) f(1) d(1) a(1-5) assms(4,5)
    by (cases "shift_array_right ?l (length as + 1) (length as + length bs + 1)")
      (auto simp: shift_back_def nat_add_distrib)
  have H: "Head ?l = first (as @ x # bs @ cs) 0" "Tail ?l = final (as @ x # bs @ cs) 0"
    using L assms(2,3) first_nonempty[OF assms(2)] by (auto simp: final_Cons final_def)
  show ?thesis
  proof (cases "range_fits l (length as + 1) (length as + length bs + 1)")
    case True
    with shift_array_right_spec[OF ar2] fit obtain a where
      "shift_array_right ?l (length as + 1) (length as + length bs + 1) = Some (?l\<lparr>Array := a\<rparr>)"
      "array_ok (?l\<lparr>Array := a\<rparr>) (as @ x # bs @ cs)" by (auto split: if_splits)
    moreover from this have "lbase h' (?l\<lparr>Array := a\<rparr>) (as @ x # bs @ cs)"
      by (intro lbase_relinked[OF lrep_lbase[OF f(2)] a(6,7) dx]) (use H in auto)
    ultimately show ?thesis using True un f(3) f0(3) fr by auto
  next
    case False
    then have "shift_array_right ?l (length as + 1) (length as + length bs + 1) = None"
      using shift_array_right_spec[OF ar2] fit by (auto split: if_splits)
    then show ?thesis using False un by simp
  qed
qed

lemma shift_to_end_spec:
  assumes "lrep h l (as @ x # bs)" and "bs \<noteq> []" and "i = int (length as + 1)"
    and "n = int (length as + length bs + 1)"
  shows "if range_fits l (length as + 1) (length as + length bs + 1)
    then \<exists>h' l'. shift_to_end h l i n = Some (h', l') \<and> lbase h' l' (as @ bs @ [x]) \<and>
      Lock l' = Lock l \<and> frame h h' (fst ` set (as @ x # bs))
    else shift_to_end h l i n = None"
proof -
  from find_node_shift[OF assms(1,3)] obtain l1 where
    f: "find_node h (l\<lparr>Access := 4\<rparr>) i = Some (fst x, l1)" "lrep h l1 (as @ x # bs)"
      "Lock l1 = Lock l" "\<And>a b. range_fits l1 a b = range_fits l a b" by metis
  have ok: "heap_ok h" "chain (Nodes h) 0 (as @ x # bs) 0" "distinct (map fst (as @ x # bs))"
    and L: "Head l1 = first as (fst x)" "Tail l1 = final bs 0" and ar: "array_ok l1 (as @ x # bs @ [])"
    using f(2) assms(2) final_nonempty[OF assms(2)] by (auto simp: lrep_def final_Cons)
  let ?l = "if as = [] then l1\<lparr>Head := first bs 0\<rparr> else l1"
  from detach_next_spec[OF ok assms(2), of l1] obtain h1 where
    d: "detach_next h l1 (fst x) = Some (h1, ?l)" "chain (Nodes h1) 0 (as @ bs) 0" "heap_ok h1"
      "Nodes h1 (fst x) = Nodes h (fst x)" "frame h h1 (fst ` set (as @ bs))" "Fresh h1 = Fresh h" by metis
  have x: "chain (Nodes h1) (final as 0) [x] (first bs 0)" using ok(2) d(4) by simp
  have dx: "distinct (map fst ((as @ bs) @ [x]))" "as @ bs \<noteq> []" using ok(3) assms(2) by auto
  from attach_back[OF d(3,2) dx x] obtain h2 h3 h' where
    a: "set_prev h1 (fst x) (final (as @ bs) 0) = Some h2"
      "set_next h2 (final (as @ bs) 0) (fst x) = Some h3" "set_next h3 (fst x) 0 = Some h'"
      "chain (Nodes h') 0 (as @ bs @ [x]) 0" "heap_ok h'" "frame h1 h' (fst ` set (as @ bs @ [x]))"
    unfolding append_assoc by metis
  have H: "Tail ?l = final (as @ bs) 0" using L assms(2) final_nonempty[OF assms(2)] by simp
  have fr: "frame h h' (fst ` set (as @ x # bs))" using d(5,6) a(6) by (auto simp: frame_def)
  let ?l2 = "?l\<lparr>Tail := fst x\<rparr>"
  have ar2: "array_ok ?l2 (as @ x # bs @ [])" using ar by (cases "as = []") simp_all
  have un: "shift_to_end h l i n =
      map_option (\<lambda>l. (h', l)) (shift_array_left ?l2 (length as + 1) (length as + length bs + 1))"
    using f(1) d(1) a(1-3) H assms(3,4)
    by (cases "shift_array_left ?l2 (length as + 1) (length as + length bs + 1)")
      (auto simp: shift_to_end_def nat_add_distrib)
  have T: "Head ?l2 = first (as @ bs @ [x]) 0" "Tail ?l2 = final (as @ bs @ [x]) 0"
    using L assms(2) first_nonempty[of as] first_nonempty[OF assms(2)] by auto
  have dy: "distinct (map fst (as @ bs @ [x]))" using dx by simp
  show ?thesis
  proof (cases "range_fits l (length as + 1) (length as + length bs + 1)")
    case True
    with shift_array_left_spec[OF ar2] f(4) obtain a where
      "shift_array_left ?l2 (length as + 1) (length as + length bs + 1) = Some (?l2\<lparr>Array := a\<rparr>)"
      "array_ok (?l2\<lparr>Array := a\<rparr>) (as @ bs @ [x])" by (auto split: if_splits)
    moreover from this have "lbase h' (?l2\<lparr>Array := a\<rparr>) (as @ bs @ [x])"
      by (intro lbase_relinked[OF lrep_lbase[OF f(2)] a(4,5) dy]) (use T in auto)
    ultimately show ?thesis using True un f(3) fr by auto
  next
    case False
    then have "shift_array_left ?l2 (length as + 1) (length as + length bs + 1) = None"
      using shift_array_left_spec[OF ar2] f(4) by (auto split: if_splits)
    then show ?thesis using False un by simp
  qed
qed

lemma shift_forward_spec:
  assumes "lrep h l (as @ x # bs @ cs)" and "bs \<noteq> []" and "cs \<noteq> []"
    and "i = int (length as + 1)" and "j = int (length as + length bs + 1)"
  shows "if range_fits l (length as + 1) (length as + length bs + 1)
    then \<exists>h' l'. shift_forward h l i j = Some (h', l') \<and> lbase h' l' (as @ bs @ x # cs) \<and>
      Lock l' = Lock l \<and> frame h h' (fst ` set (as @ x # bs @ cs))
    else shift_forward h l i j = None"
proof -
  obtain b bs' where bs: "bs = bs' @ [b]" using assms(2) by (cases bs rule: rev_cases) auto
  from find_node_shift[OF assms(1,4)] obtain l0 where
    f0: "find_node h (l\<lparr>Access := 4\<rparr>) i = Some (fst x, l0)" "lrep h l0 (as @ x # bs @ cs)"
      "Lock l0 = Lock l" "\<And>a b. range_fits l0 a b = range_fits l a b" "2 < Access l0" by metis
  from find_node_at[of h l0 "as @ x # bs'" b cs j] f0(2) assms(5) bs obtain l1 where
    f: "find_node h l0 j = Some (final bs 0, l1)" "lrep h l1 (as @ x # bs @ cs)" "Lock l1 = Lock l0" by auto
  have fit: "range_fits l1 a b = range_fits l a b" for a b
    using find_node_array[OF f(1)] f0(4,5) by (simp add: range_fits_def)
  have ok: "heap_ok h" "chain (Nodes h) 0 (as @ x # bs @ cs) 0" "distinct (map fst (as @ x # bs @ cs))"
    and L: "Head l1 = first as (fst x)" "Tail l1 = final (as @ x # bs @ cs) 0"
    and ar: "array_ok l1 (as @ x # bs @ cs)"
    using f(2) by (auto simp: lrep_def)
  have ne: "as @ bs \<noteq> []" "bs @ cs \<noteq> []" using assms(2,3) by auto
  let ?l = "if as = [] then l1\<lparr>Head := first (bs @ cs) 0\<rparr> else l1"
  from detach_next_spec[OF ok ne(2), of l1] obtain h1 where
    d: "detach_next h l1 (fst x) = Some (h1, ?l)" "chain (Nodes h1) 0 ((as @ bs) @ cs) 0" "heap_ok h1"
      "Nodes h1 (fst x) = Nodes h (fst x)" "frame h h1 (fst ` set (as @ bs @ cs))"
      "Fresh h1 = Fresh h" unfolding append_assoc by metis
  have x: "chain (Nodes h1) (final as 0) [x] (first (bs @ cs) 0)" using ok(2) d(4) by simp
  have dx: "distinct (map fst ((as @ bs) @ x # cs))" using ok(3) by auto
  have fb: "final (as @ bs) 0 = final bs 0" using assms(2) final_nonempty[OF assms(2)] by simp
  from attach_after[OF d(3,2) dx ne(1) assms(3) x] fb obtain h2 h3 h4 h' where
    a: "get_next h1 (final bs 0) = Some (first cs 0)"
      "set_next h1 (fst x) (first cs 0) = Some h2" "set_prev h2 (first cs 0) (fst x) = Some h3"
      "set_next h3 (final bs 0) (fst x) = Some h4" "set_prev h4 (fst x) (final bs 0) = Some h'"
      "chain (Nodes h') 0 (as @ bs @ x # cs) 0" "heap_ok h'" "frame h1 h' (fst ` set (as @ bs @ x # cs))"
    unfolding append_assoc by metis
  have fr: "frame h h' (fst ` set (as @ x # bs @ cs))" using d(5,6) a(8) by (auto simp: frame_def)
  have ar2: "array_ok ?l (as @ x # bs @ cs)" using ar by (cases "as = []") simp_all
  have un: "shift_forward h l i j =
      map_option (\<lambda>l. (h', l)) (shift_array_left ?l (length as + 1) (length as + length bs + 1))"
    using f0(1) f(1) d(1) a(1-5) assms(4,5)
    by (cases "shift_array_left ?l (length as + 1) (length as + length bs + 1)")
      (auto simp: shift_forward_def nat_add_distrib)
  have H: "Head ?l = first (as @ bs @ x # cs) 0" "Tail ?l = final (as @ bs @ x # cs) 0"
    using L assms(2,3) first_nonempty[of as] first_nonempty[OF assms(2)] final_nonempty[OF assms(3)]
    by (auto simp: final_Cons final_def)
  have dy: "distinct (map fst (as @ bs @ x # cs))" using dx by simp
  show ?thesis
  proof (cases "range_fits l (length as + 1) (length as + length bs + 1)")
    case True
    with shift_array_left_spec[OF ar2] fit obtain a where
      "shift_array_left ?l (length as + 1) (length as + length bs + 1) = Some (?l\<lparr>Array := a\<rparr>)"
      "array_ok (?l\<lparr>Array := a\<rparr>) (as @ bs @ x # cs)" by (auto split: if_splits)
    moreover from this have "lbase h' (?l\<lparr>Array := a\<rparr>) (as @ bs @ x # cs)"
      by (intro lbase_relinked[OF lrep_lbase[OF f(2)] a(6,7) dy]) (use H in auto)
    ultimately show ?thesis using True un f(3) f0(3) fr by auto
  next
    case False
    then have "shift_array_left ?l (length as + 1) (length as + length bs + 1) = None"
      using shift_array_left_spec[OF ar2] fit by (auto split: if_splits)
    then show ?thesis using False un by simp
  qed
qed

text \<open>The list with the element of position \<open>n\<close> moved to position \<open>m\<close>.\<close>

definition moved :: "nat \<Rightarrow> nat \<Rightarrow> 'a list \<Rightarrow> 'a list" where
  "moved n m xs = (let rest = take (n - 1) xs @ drop n xs in
     take (m - 1) rest @ xs ! (n - 1) # drop (m - 1) rest)"

lemma moved_left:
  "moved (length as + length bs + 1) (length as + 1) (as @ bs @ x # cs) = as @ x # bs @ cs"
  by (simp add: moved_def nth_append)

lemma moved_right:
  "moved (length as + 1) (length as + length bs + 1) (as @ x # bs @ cs) = as @ bs @ x # cs"
  by (simp add: moved_def nth_append)

lemma moved_same:
  assumes "1 \<le> n" and "n \<le> length xs"
  shows "moved n n xs = xs"
proof -
  from split_at[OF assms] obtain as x cs where "xs = as @ x # cs" "length as = n - 1" by blast
  then show ?thesis using moved_left[of as "[]" x cs] assms(1) by simp
qed

lemma split_two:
  assumes "1 \<le> m" and "m < n" and "n \<le> length xs"
  obtains as y bs x cs where "xs = as @ (y # bs) @ x # cs" and "m = length as + 1"
    and "n = length as + length (y # bs) + 1"
proof -
  have "1 \<le> n" using assms by simp
  from split_at[OF this assms(3)] obtain us x cs where x: "xs = us @ x # cs" "length us = n - 1" by blast
  have "m \<le> length us" using assms x by simp
  from split_at[OF assms(1) this] obtain as y bs where y: "us = as @ y # bs" "length as = m - 1" by blast
  show ?thesis using that[of as y bs x cs] x y assms by auto
qed

definition shift_target :: "nat \<Rightarrow> int \<Rightarrow> int \<Rightarrow> nat" where
  "shift_target k r s = nat (max 1 (min (int k) (r + s)))"

lemma shift_method_left:
  assumes r: "lrep h (l\<lparr>Lock := -1\<rparr>) xs" and "Lock l = 0"
    and n: "n \<le> length xs" "resolve l i = int n" and "s < 0" and m: "m = shift_target (length xs) (int n) s"
    and "m < n"
  shows "if range_fits l m n
    then \<exists>h' l'. shift_method h l i s = Some (SUCCESS (), h', l') \<and> lbase h' l' (moved n m xs) \<and>
      Lock l' = 0 \<and> frame h h' (fst ` set xs)
    else shift_method h l i s = None"
proof -
  let ?l = "l\<lparr>Lock := -1\<rparr>"
  have L: "Length l = length xs" using r by (simp add: lrep_def)
  have len: "length xs < 2147483648" using lrep_length[OF r] by (simp add: max_nodes_def)
  have m1: "1 \<le> m" using m by (simp add: shift_target_def)
  from split_two[OF m1 assms(7) n(1)] obtain as y bs x cs where
    s: "xs = as @ (y # bs) @ x # cs" "m = length as + 1" "n = length as + length (y # bs) + 1" by metis
  have fit: "range_fits ?l a b = range_fits l a b" for a b by (simp add: range_fits_def)
  have mv: "moved n m xs = as @ x # (y # bs) @ cs" unfolding s by (rule moved_left)
  show ?thesis
  proof (cases "int n + s \<le> 1")
    case True
    then have "m = 1" using m by (simp add: shift_target_def)
    then have as: "as = []" using s(2) by simp
    have un: "shift_method h l i s =
      map_option (\<lambda>(h, l). (SUCCESS (), h, the (unlock l))) (shift_to_front h ?l (int n))"
      if "\<And>h' l'. shift_to_front h ?l (int n) = Some (h', l') \<Longrightarrow> Lock l' = -1"
      using True assms(2,5,7) L n m1 len that
      by (cases "shift_to_front h ?l (int n)") (auto simp: shift_method_def Let_def)
    from shift_to_front_spec[of h ?l "y # bs" x cs "int n"] r s as fit
    show ?thesis using un mv \<open>m = 1\<close> by (auto split: if_splits)
  next
    case False
    then have jm: "int n + s = int m" using m n(1) assms(5) by (simp add: shift_target_def)
    then have as: "as \<noteq> []" using s(2) False by auto
    have un: "shift_method h l i s =
      map_option (\<lambda>(h, l). (SUCCESS (), h, the (unlock l))) (shift_back h ?l (int n) (int m))"
      if "\<And>h' l'. shift_back h ?l (int n) (int m) = Some (h', l') \<Longrightarrow> Lock l' = -1"
      using False assms(2,5,7) L n m1 len that jm
      by (cases "shift_back h ?l (int n) (int m)") (auto simp: shift_method_def Let_def)
    from shift_back_spec[of h ?l as "y # bs" x cs "int n" "int m"] r s as fit
    show ?thesis using un mv by (auto split: if_splits)
  qed
qed

lemma shift_method_right:
  assumes r: "lrep h (l\<lparr>Lock := -1\<rparr>) xs" and "Lock l = 0" and "1 \<le> n"
    and n: "n \<le> length xs" "resolve l i = int n" and "0 < s" and "int n + s < 2 ^ 31"
    and m: "m = shift_target (length xs) (int n) s" and "n < m"
  shows "if range_fits l n m
    then \<exists>h' l'. shift_method h l i s = Some (SUCCESS (), h', l') \<and> lbase h' l' (moved n m xs) \<and>
      Lock l' = 0 \<and> frame h h' (fst ` set xs)
    else shift_method h l i s = None"
proof -
  let ?l = "l\<lparr>Lock := -1\<rparr>"
  have L: "Length l = length xs" using r by (simp add: lrep_def)
  have ml: "m \<le> length xs" using m assms(3,6) n(1) by (auto simp: shift_target_def)
  from split_two[OF assms(3,9) ml] obtain as x bs y cs where
    s: "xs = as @ (x # bs) @ y # cs" "n = length as + 1" "m = length as + length (x # bs) + 1" by metis
  have fit: "range_fits ?l a b = range_fits l a b" for a b by (simp add: range_fits_def)
  have sx: "xs = as @ x # (bs @ [y]) @ cs" "m = length as + length (bs @ [y]) + 1" using s by simp_all
  have mv: "moved n m xs = as @ (bs @ [y]) @ x # cs" unfolding s(2) sx by (rule moved_right)
  show ?thesis
  proof (cases "int (length xs) \<le> int n + s")
    case True
    then have "m = length xs" using m n(1) assms(3) by (simp add: shift_target_def)
    then have cs: "cs = []" using s(1,3) by simp
    have un: "shift_method h l i s =
      map_option (\<lambda>(h, l). (SUCCESS (), h, the (unlock l))) (shift_to_end h ?l (int n) (int (length xs)))"
      if "\<And>h' l'. shift_to_end h ?l (int n) (int (length xs)) = Some (h', l') \<Longrightarrow> Lock l' = -1"
      using True assms(2,3,6,7,9) L n ml that
      by (cases "shift_to_end h ?l (int n) (int (length xs))") (auto simp: shift_method_def Let_def)
    from shift_to_end_spec[of h ?l as x "bs @ [y]" "int n" "int (length xs)"] r s cs fit \<open>m = length xs\<close>
    show ?thesis using un mv by (auto split: if_splits)
  next
    case False
    then have jm: "int n + s = int m" using m n(1) assms(6) by (simp add: shift_target_def)
    then have cs: "cs \<noteq> []" using s(1,3) False by auto
    have un: "shift_method h l i s =
      map_option (\<lambda>(h, l). (SUCCESS (), h, the (unlock l))) (shift_forward h ?l (int n) (int m))"
      if "\<And>h' l'. shift_forward h ?l (int n) (int m) = Some (h', l') \<Longrightarrow> Lock l' = -1"
      using False assms(2,3,6,7) L n that jm
      by (cases "shift_forward h ?l (int n) (int m)") (auto simp: shift_method_def Let_def)
    from shift_forward_spec[of h ?l as x "bs @ [y]" cs "int n" "int m"] r s cs fit
    show ?thesis using un mv by (auto split: if_splits)
  qed
qed

section \<open>Separating\<close>

text \<open>One node goes to the end of the part \<open>ds\<close>; the rest of the list stays linked.\<close>

lemma fill_slot_spec:
  assumes "heap_ok h" and "chain (Nodes h) 0 ds e" and "chain (Nodes h) c (x # xs) b"
    and "distinct (map fst (ds @ x # xs))" and "ds \<noteq> [] \<longrightarrow> Head l = first ds 0"
  obtains h1 h' where "set_prev h (fst x) (final ds 0) = Some h1"
    and "fill_slot h1 l (final ds 0) (fst x) = Some (h', l\<lparr>Head := first (ds @ [x]) 0\<rparr>)"
    and "get_next h' (fst x) = Some (first xs b)"
    and "chain (Nodes h') 0 (ds @ [x]) (first xs b)" and "chain (Nodes h') (fst x) xs b"
    and "heap_ok h'" and "Fresh h' = Fresh h"
    and "\<And>p. p \<notin> fst ` set (ds @ [x]) \<Longrightarrow> Nodes h' p = Nodes h p"
proof -
  have d: "fst x \<notin> fst ` set ds" "fst x \<notin> fst ` set xs" "distinct (map fst ds)"
    "distinct (map fst (ds @ xs))" using assms(4) by auto
  have cx: "chain (Nodes h) c [x] (first xs b)" "chain (Nodes h) (fst x) xs b" using assms(3) by simp_all
  from relink_first[OF assms(1) cx(1), of 0 "final ds 0"] obtain h1 nd1 where
    1: "set_prev h (fst x) (final ds 0) = Some h1" "chain (Nodes h1) (final ds 0) [x] (first xs b)"
      "Nodes h1 = (Nodes h)(fst x \<mapsto> nd1)" "heap_ok h1" "Fresh h1 = Fresh h" by auto
  have c1: "chain (Nodes h1) 0 ds e" "chain (Nodes h1) (fst x) xs b"
    unfolding 1(3) using assms(2) cx(2) d by simp_all
  show ?thesis
  proof (cases "ds = []")
    case True
    show ?thesis
    proof (rule that[OF 1(1)])
      show "fill_slot h1 l (final ds 0) (fst x) = Some (h1, l\<lparr>Head := first (ds @ [x]) 0\<rparr>)"
        using True by (simp add: fill_slot_def)
    qed (use True 1 c1(2) in \<open>auto simp: get_next_def\<close>)
  next
    case False
    have nz: "final ds 0 \<noteq> 0" using False final_null[OF assms(1,2)] by blast
    have m: "final ds 0 \<in> fst ` set ds" by (rule final_in[OF False])
    have "final ds 0 \<noteq> fst x" using m d(1) by metis
    then have n: "final ds 0 \<notin> fst ` set [x]" "final ds 0 \<notin> fst ` set xs"
      using disjoint_parts(3)[OF d(4) False] by simp_all
    from relink_final[OF 1(4) c1(1) False d(3), of 0 "fst x"] obtain h' nd2 where
      2: "set_next h1 (final ds 0) (fst x) = Some h'" "chain (Nodes h') 0 ds (fst x)"
        "Nodes h' = (Nodes h1)(final ds 0 \<mapsto> nd2)" "heap_ok h'" "Fresh h' = Fresh h1" by metis
    have c2: "chain (Nodes h') (final ds 0) [x] (first xs b)" "chain (Nodes h') (fst x) xs b"
      unfolding 2(3) using 1(2) c1(2) n by (simp_all del: chain.simps)
    have H: "Head l = first (ds @ [x]) 0" using assms(5) False first_nonempty[OF False] by simp
    show ?thesis
    proof (rule that[OF 1(1)])
      show "fill_slot h1 l (final ds 0) (fst x) = Some (h', l\<lparr>Head := first (ds @ [x]) 0\<rparr>)"
        using nz 2(1) H by (simp add: fill_slot_def)
      show "get_next h' (fst x) = Some (first xs b)" using chain_get_next[OF 2(4) c2(1)] by simp
      show "\<And>p. p \<notin> fst ` set (ds @ [x]) \<Longrightarrow> Nodes h' p = Nodes h p"
        using 1(3) 2(3) m by auto
    qed (use 1(5) 2 c2 in simp_all)
  qed
qed

definition sep_inv ::
  "'v heap \<Rightarrow> lst \<Rightarrow> lst \<Rightarrow> (ptr \<times> 'v) list \<Rightarrow> (ptr \<times> 'v) list \<Rightarrow> (ptr \<times> 'v) list \<Rightarrow> bool" where
  "sep_inv h l1 l2 ds1 ds2 xs \<longleftrightarrow> heap_ok h \<and> (\<exists>e. chain (Nodes h) 0 ds1 e) \<and>
     (\<exists>e. chain (Nodes h) 0 ds2 e) \<and> (\<exists>c. chain (Nodes h) c xs 0) \<and>
     distinct (map fst (ds1 @ ds2 @ xs)) \<and> (ds1 \<noteq> [] \<longrightarrow> Head l1 = first ds1 0) \<and>
     (ds2 \<noteq> [] \<longrightarrow> Head l2 = first ds2 0) \<and> Length l1 = length ds1 + length xs \<and>
     Length l2 = length ds2 \<and> length ds1 + length ds2 + length xs < max_nodes"

lemma sep_invI:
  assumes "heap_ok h" and "chain (Nodes h) 0 ds1 e1" and "chain (Nodes h) 0 ds2 e2"
    and "chain (Nodes h) c xs 0" and "distinct (map fst (ds1 @ ds2 @ xs))"
    and "ds1 \<noteq> [] \<longrightarrow> Head l1 = first ds1 0" and "ds2 \<noteq> [] \<longrightarrow> Head l2 = first ds2 0"
    and "Length l1 = length ds1 + length xs" and "Length l2 = length ds2"
    and "length ds1 + length ds2 + length xs < max_nodes"
  shows "sep_inv h l1 l2 ds1 ds2 xs"
  using assms unfolding sep_inv_def by blast

lemma sep_invE:
  assumes "sep_inv h l1 l2 ds1 ds2 xs"
  obtains e1 e2 c where "heap_ok h" and "chain (Nodes h) 0 ds1 e1" and "chain (Nodes h) 0 ds2 e2"
    and "chain (Nodes h) c xs 0" and "distinct (map fst (ds1 @ ds2 @ xs))"
    and "ds1 \<noteq> [] \<longrightarrow> Head l1 = first ds1 0" and "ds2 \<noteq> [] \<longrightarrow> Head l2 = first ds2 0"
    and "Length l1 = length ds1 + length xs" and "Length l2 = length ds2"
    and "length ds1 + length ds2 + length xs < max_nodes"
  using assms unfolding sep_inv_def by blast

abbreviation sent :: "'v fun1 \<Rightarrow> 'v \<Rightarrow> bool" where
  "sent f v \<equiv> (\<exists>m. f v = MESSAGE m)"

abbreviation picks :: "'v fun1 \<Rightarrow> 'v \<Rightarrow> bool" where
  "picks f v \<equiv> returned (f v) \<noteq> None"

lemma chain_same:
  assumes "\<And>p. p \<notin> S \<Longrightarrow> m' p = m p" and "fst ` set zs \<inter> S = {}"
  shows "chain m' c zs d = chain m c zs d"
  using assms by (intro chain_cong) auto

lemma separate_step1:
  assumes "sep_inv h l1 l2 ds1 ds2 (x # xs)" and "f (snd x) = FAILURE"
  obtains h' where "separate_loop f h l1 l2 (fst x) (final ds1 0) (final ds2 0) =
      separate_loop f h' (l1\<lparr>Head := first (ds1 @ [x]) 0\<rparr>) l2 (first xs 0) (final (ds1 @ [x]) 0) (final ds2 0)"
    and "sep_inv h' (l1\<lparr>Head := first (ds1 @ [x]) 0\<rparr>) l2 (ds1 @ [x]) ds2 xs"
    and "frame h h' (fst ` set (ds1 @ ds2 @ x # xs))"
proof -
  from sep_invE[OF assms(1)] obtain e1 e2 c where
    i: "heap_ok h" "chain (Nodes h) 0 ds1 e1" "chain (Nodes h) 0 ds2 e2" "chain (Nodes h) c (x # xs) 0"
      "distinct (map fst (ds1 @ ds2 @ x # xs))" "ds1 \<noteq> [] \<longrightarrow> Head l1 = first ds1 0"
    and L: "ds2 \<noteq> [] \<longrightarrow> Head l2 = first ds2 0" "Length l1 = length ds1 + length (x # xs)"
      "Length l2 = length ds2" "length ds1 + length ds2 + length (x # xs) < max_nodes"
    by metis
  have d: "distinct (map fst (ds1 @ x # xs))" "fst ` set ds2 \<inter> fst ` set (ds1 @ [x]) = {}"
    using i(5) by auto
  from fill_slot_spec[OF i(1,2,4) d(1) i(6)] obtain h1 h' where
    s: "set_prev h (fst x) (final ds1 0) = Some h1"
      "fill_slot h1 l1 (final ds1 0) (fst x) = Some (h', l1\<lparr>Head := first (ds1 @ [x]) 0\<rparr>)"
      "get_next h' (fst x) = Some (first xs 0)"
      "chain (Nodes h') 0 (ds1 @ [x]) (first xs 0)" "chain (Nodes h') (fst x) xs 0" "heap_ok h'"
      "Fresh h' = Fresh h" "\<And>p. p \<notin> fst ` set (ds1 @ [x]) \<Longrightarrow> Nodes h' p = Nodes h p" by blast
  have "chain (Nodes h') 0 ds2 e2" using chain_same[OF s(8) d(2)] i(3) by simp
  moreover have "distinct (map fst ((ds1 @ [x]) @ ds2 @ xs))" using i(5) by auto
  ultimately have "sep_inv h' (l1\<lparr>Head := first (ds1 @ [x]) 0\<rparr>) l2 (ds1 @ [x]) ds2 xs"
    by (intro sep_invI[OF s(6,4) _ s(5)]) (use L in auto)
  moreover have "fst x \<noteq> 0" using chain_nonnull[OF i(1,4)] by auto
  then have "separate_loop f h l1 l2 (fst x) (final ds1 0) (final ds2 0) =
      separate_loop f h' (l1\<lparr>Head := first (ds1 @ [x]) 0\<rparr>) l2 (first xs 0) (final (ds1 @ [x]) 0) (final ds2 0)"
    using s(1-3) assms(2) chain_get_value[OF i(1,4)]
    by (subst separate_loop.simps) simp
  moreover have "frame h h' (fst ` set (ds1 @ ds2 @ x # xs))" using s(7,8) by (auto simp: frame_def)
  ultimately show ?thesis using that by blast
qed

lemma separate_step2:
  assumes "sep_inv h l1 l2 ds1 ds2 (x # xs)" and "picks f (snd x)"
  obtains h' where "separate_loop f h l1 l2 (fst x) (final ds1 0) (final ds2 0) =
      separate_loop f h' (l1\<lparr>Length := Length l1 - 1\<rparr>)
        (l2\<lparr>Head := first (ds2 @ [x]) 0, Length := Suc (Length l2)\<rparr>)
        (first xs 0) (final ds1 0) (final (ds2 @ [x]) 0)"
    and "sep_inv h' (l1\<lparr>Length := Length l1 - 1\<rparr>)
        (l2\<lparr>Head := first (ds2 @ [x]) 0, Length := Suc (Length l2)\<rparr>) ds1 (ds2 @ [x]) xs"
    and "frame h h' (fst ` set (ds1 @ ds2 @ x # xs))"
proof -
  from sep_invE[OF assms(1)] obtain e1 e2 c where
    i: "heap_ok h" "chain (Nodes h) 0 ds1 e1" "chain (Nodes h) 0 ds2 e2" "chain (Nodes h) c (x # xs) 0"
      "distinct (map fst (ds1 @ ds2 @ x # xs))" "ds2 \<noteq> [] \<longrightarrow> Head l2 = first ds2 0"
    and L: "ds1 \<noteq> [] \<longrightarrow> Head l1 = first ds1 0" "Length l1 = length ds1 + length (x # xs)"
      "Length l2 = length ds2" "length ds1 + length ds2 + length (x # xs) < max_nodes"
    by metis
  have d: "distinct (map fst (ds2 @ x # xs))" "fst ` set ds1 \<inter> fst ` set (ds2 @ [x]) = {}"
    using i(5) by auto
  from fill_slot_spec[OF i(1,3,4) d(1) i(6)] obtain h1 h' where
    s: "set_prev h (fst x) (final ds2 0) = Some h1"
      "fill_slot h1 l2 (final ds2 0) (fst x) = Some (h', l2\<lparr>Head := first (ds2 @ [x]) 0\<rparr>)"
      "get_next h' (fst x) = Some (first xs 0)"
      "chain (Nodes h') 0 (ds2 @ [x]) (first xs 0)" "chain (Nodes h') (fst x) xs 0" "heap_ok h'"
      "Fresh h' = Fresh h" "\<And>p. p \<notin> fst ` set (ds2 @ [x]) \<Longrightarrow> Nodes h' p = Nodes h p" by blast
  let ?l1 = "l1\<lparr>Length := Length l1 - 1\<rparr>"
  let ?l2 = "l2\<lparr>Head := first (ds2 @ [x]) 0, Length := Suc (Length l2)\<rparr>"
  have "chain (Nodes h') 0 ds1 e1" using chain_same[OF s(8) d(2)] i(2) by simp
  moreover have "distinct (map fst (ds1 @ (ds2 @ [x]) @ xs))" using i(5) by auto
  ultimately have "sep_inv h' ?l1 ?l2 ds1 (ds2 @ [x]) xs"
    by (intro sep_invI[OF s(6) _ s(4,5)]) (use L in auto)
  moreover have "fst x \<noteq> 0" using chain_nonnull[OF i(1,4)] by auto
  then have "separate_loop f h l1 l2 (fst x) (final ds1 0) (final ds2 0) =
      separate_loop f h' ?l1 ?l2 (first xs 0) (final ds1 0) (final (ds2 @ [x]) 0)"
    using s(1-3) assms(2) chain_get_value[OF i(1,4)] L
    by (subst separate_loop.simps) (auto simp: max_nodes_def split: reply.splits)
  moreover have "frame h h' (fst ` set (ds1 @ ds2 @ x # xs))" using s(7,8) by (auto simp: frame_def)
  ultimately show ?thesis using that by blast
qed

lemma separate_steps:
  assumes "sep_inv h l1 l2 ds1 ds2 (us @ zs)" and "\<forall>x \<in> set us. \<not> sent f (snd x)"
  shows "\<exists>h' l1' l2'. separate_loop f h l1 l2 (first (us @ zs) 0) (final ds1 0) (final ds2 0) =
      separate_loop f h' l1' l2' (first zs 0) (final (ds1 @ filter (\<lambda>x. \<not> picks f (snd x)) us) 0)
        (final (ds2 @ filter (\<lambda>x. picks f (snd x)) us) 0) \<and>
    sep_inv h' l1' l2' (ds1 @ filter (\<lambda>x. \<not> picks f (snd x)) us)
      (ds2 @ filter (\<lambda>x. picks f (snd x)) us) zs \<and>
    l1' = l1\<lparr>Head := Head l1', Length := Length l1'\<rparr> \<and>
    l2' = l2\<lparr>Head := Head l2', Length := Length l2'\<rparr> \<and>
    frame h h' (fst ` set (ds1 @ ds2 @ us @ zs))"
  using assms
proof (induction us arbitrary: h l1 l2 ds1 ds2)
  case Nil
  then show ?case by (intro exI[of _ h]) (rule exI[of _ l1], rule exI[of _ l2], simp)
next
  case (Cons x us)
  have i: "sep_inv h l1 l2 ds1 ds2 (x # us @ zs)" using Cons.prems(1) by simp
  have ns: "\<forall>y \<in> set us. \<not> sent f (snd y)" and nx: "\<not> sent f (snd x)" using Cons.prems(2) by auto
  show ?case
  proof (cases "picks f (snd x)")
    case True
    from separate_step2[OF i, of f, OF True] obtain h1 where
      1: "separate_loop f h l1 l2 (fst x) (final ds1 0) (final ds2 0) =
        separate_loop f h1 (l1\<lparr>Length := Length l1 - 1\<rparr>)
          (l2\<lparr>Head := first (ds2 @ [x]) 0, Length := Suc (Length l2)\<rparr>)
          (first (us @ zs) 0) (final ds1 0) (final (ds2 @ [x]) 0)"
      "sep_inv h1 (l1\<lparr>Length := Length l1 - 1\<rparr>)
        (l2\<lparr>Head := first (ds2 @ [x]) 0, Length := Suc (Length l2)\<rparr>) ds1 (ds2 @ [x]) (us @ zs)"
      "frame h h1 (fst ` set (ds1 @ ds2 @ x # us @ zs))" by blast
    from Cons.IH[OF 1(2) ns] obtain h' l1' l2' where
      2: "separate_loop f h1 (l1\<lparr>Length := Length l1 - 1\<rparr>)
          (l2\<lparr>Head := first (ds2 @ [x]) 0, Length := Suc (Length l2)\<rparr>)
          (first (us @ zs) 0) (final ds1 0) (final (ds2 @ [x]) 0) =
        separate_loop f h' l1' l2' (first zs 0) (final (ds1 @ filter (\<lambda>x. \<not> picks f (snd x)) us) 0)
          (final ((ds2 @ [x]) @ filter (\<lambda>x. picks f (snd x)) us) 0)"
      "sep_inv h' l1' l2' (ds1 @ filter (\<lambda>x. \<not> picks f (snd x)) us)
        ((ds2 @ [x]) @ filter (\<lambda>x. picks f (snd x)) us) zs"
      "l1' = l1\<lparr>Length := Length l1 - 1, Head := Head l1', Length := Length l1'\<rparr>"
      "l2' = l2\<lparr>Head := first (ds2 @ [x]) 0, Length := Suc (Length l2), Head := Head l2', Length := Length l2'\<rparr>"
      "frame h1 h' (fst ` set (ds1 @ (ds2 @ [x]) @ us @ zs))" by blast
    have "frame h h' (fst ` set (ds1 @ ds2 @ x # us @ zs))" by (rule frame_step[OF 1(3) 2(5)]) auto
    then show ?thesis using 1(1) 2 True
      by (intro exI[of _ h']) (rule exI[of _ l1'], rule exI[of _ l2'], auto)
  next
    case False
    then have f: "f (snd x) = FAILURE" using nx by (cases "f (snd x)") auto
    from separate_step1[OF i, of f, OF f] obtain h1 where
      1: "separate_loop f h l1 l2 (fst x) (final ds1 0) (final ds2 0) =
        separate_loop f h1 (l1\<lparr>Head := first (ds1 @ [x]) 0\<rparr>) l2
          (first (us @ zs) 0) (final (ds1 @ [x]) 0) (final ds2 0)"
      "sep_inv h1 (l1\<lparr>Head := first (ds1 @ [x]) 0\<rparr>) l2 (ds1 @ [x]) ds2 (us @ zs)"
      "frame h h1 (fst ` set (ds1 @ ds2 @ x # us @ zs))" by blast
    from Cons.IH[OF 1(2) ns] obtain h' l1' l2' where
      2: "separate_loop f h1 (l1\<lparr>Head := first (ds1 @ [x]) 0\<rparr>) l2
          (first (us @ zs) 0) (final (ds1 @ [x]) 0) (final ds2 0) =
        separate_loop f h' l1' l2' (first zs 0) (final ((ds1 @ [x]) @ filter (\<lambda>x. \<not> picks f (snd x)) us) 0)
          (final (ds2 @ filter (\<lambda>x. picks f (snd x)) us) 0)"
      "sep_inv h' l1' l2' ((ds1 @ [x]) @ filter (\<lambda>x. \<not> picks f (snd x)) us)
        (ds2 @ filter (\<lambda>x. picks f (snd x)) us) zs"
      "l1' = l1\<lparr>Head := first (ds1 @ [x]) 0, Head := Head l1', Length := Length l1'\<rparr>"
      "l2' = l2\<lparr>Head := Head l2', Length := Length l2'\<rparr>"
      "frame h1 h' (fst ` set ((ds1 @ [x]) @ ds2 @ us @ zs))" by blast
    have "frame h h' (fst ` set (ds1 @ ds2 @ x # us @ zs))" by (rule frame_step[OF 1(3) 2(5)]) auto
    then show ?thesis using 1(1) 2 False
      by (intro exI[of _ h']) (rule exI[of _ l1'], rule exI[of _ l2'], auto)
  qed
qed

lemma close_list_spec:
  assumes "heap_ok h" and "chain (Nodes h) 0 ds e" and "distinct (map fst ds)"
    and "ds \<noteq> [] \<longrightarrow> Head l = first ds 0"
  obtains h' where "close_list h l (final ds 0) = Some (h', l\<lparr>Head := first ds 0, Tail := final ds 0\<rparr>)"
    and "chain (Nodes h') 0 ds 0" and "heap_ok h'" and "Fresh h' = Fresh h"
    and "\<And>p. p \<notin> fst ` set ds \<Longrightarrow> Nodes h' p = Nodes h p"
proof (cases "ds = []")
  case True
  show ?thesis by (rule that[of h]) (use assms True in \<open>simp_all add: close_list_def\<close>)
next
  case False
  from relink_final[OF assms(1,2) False assms(3), of 0 0] obtain h' nd where
    1: "set_next h (final ds 0) 0 = Some h'" "chain (Nodes h') 0 ds 0"
      "Nodes h' = (Nodes h)(final ds 0 \<mapsto> nd)" "heap_ok h'" "Fresh h' = Fresh h" by metis
  have nz: "final ds 0 \<noteq> 0" using False final_null[OF assms(1,2)] by blast
  have H: "l\<lparr>Head := first ds 0, Tail := final ds 0\<rparr> = l\<lparr>Tail := final ds 0\<rparr>"
    using assms(4) False by (cases l) simp
  show ?thesis
  proof (rule that[of h'])
    show "close_list h l (final ds 0) = Some (h', l\<lparr>Head := first ds 0, Tail := final ds 0\<rparr>)"
      unfolding H using nz 1(1) by (simp add: close_list_def)
    show "\<And>p. p \<notin> fst ` set ds \<Longrightarrow> Nodes h' p = Nodes h p"
      using 1(3) final_in[OF False, of 0] by auto
  qed (use 1 in simp_all)
qed

lemma sep_inv_end:
  assumes "sep_inv h l1 l2 ds1 ds2 []"
  obtains e1 e2 where "heap_ok h" and "chain (Nodes h) 0 ds1 e1" and "chain (Nodes h) 0 ds2 e2"
    and "distinct (map fst (ds1 @ ds2))"
    and "ds1 \<noteq> [] \<longrightarrow> Head l1 = first ds1 0" and "ds2 \<noteq> [] \<longrightarrow> Head l2 = first ds2 0"
    and "Length l1 = length ds1" and "Length l2 = length ds2"
  using assms unfolding sep_inv_def by auto

lemma separate_start:
  assumes "lrep h l xs"
  shows "sep_inv h (l\<lparr>Index := 1, Cache := Head l, Array := None\<rparr>) zero_list [] [] xs"
  by (rule sep_invI) (use assms lrep_length[OF assms] in \<open>auto simp: lrep_def zero_list_def\<close>)

lemma separate_method_spec:
  assumes "rep h l xs" and "\<forall>x \<in> set xs. \<not> sent f (snd x)"
  shows "\<exists>h' l2 l'. separate_method f h l = Some (SUCCESS l2, h', l') \<and>
    lbase h' l' (filter (\<lambda>x. \<not> picks f (snd x)) xs) \<and> Lock l' = 0 \<and> Index l' = 1 \<and> Cache l' = Head l \<and>
    lbase h' l2 (filter (\<lambda>x. picks f (snd x)) xs) \<and> Lock l2 = 0 \<and> Index l2 = 0 \<and> Cache l2 = 0 \<and>
    Array l2 = None \<and> Access l2 = 0 \<and>
    frame h h' (fst ` set xs)"
proof -
  define k where "k = filter (\<lambda>x. \<not> picks f (snd x)) xs"
  define p where "p = filter (\<lambda>x. picks f (snd x)) xs"
  let ?l = "l\<lparr>Lock := -1\<rparr>"
  let ?l1 = "?l\<lparr>Index := 1, Cache := Head ?l, Array := None\<rparr>"
  have r: "lrep h ?l xs" and L: "Lock l = 0" "Head l = first xs 0" using assms(1) by (auto simp: rep_def lrep_def)
  from separate_steps[of h ?l1 zero_list "[]" "[]" xs "[]" f, folded k_def p_def]
    separate_start[OF r] assms(2) obtain h1 l1 l2 where
    s: "separate_loop f h ?l1 zero_list (first xs 0) 0 0 = separate_loop f h1 l1 l2 0 (final k 0) (final p 0)"
      "sep_inv h1 l1 l2 k p []" "l1 = ?l1\<lparr>Head := Head l1, Length := Length l1\<rparr>"
      "l2 = zero_list\<lparr>Head := Head l2, Length := Length l2\<rparr>" "frame h h1 (fst ` set xs)" by auto
  from sep_inv_end[OF s(2)] obtain e1 e2 where
    i: "heap_ok h1" "chain (Nodes h1) 0 k e1" "chain (Nodes h1) 0 p e2"
      "distinct (map fst (k @ p))"
      "k \<noteq> [] \<longrightarrow> Head l1 = first k 0" "p \<noteq> [] \<longrightarrow> Head l2 = first p 0"
      "Length l1 = length k" "Length l2 = length p" by metis
  have d: "distinct (map fst k)" "distinct (map fst p)" "fst ` set k \<inter> fst ` set p = {}"
    using i(4) by auto
  from close_list_spec[OF i(1,3) d(2) i(6)] obtain h2 where
    2: "close_list h1 l2 (final p 0) = Some (h2, l2\<lparr>Head := first p 0, Tail := final p 0\<rparr>)"
      "chain (Nodes h2) 0 p 0" "heap_ok h2" "Fresh h2 = Fresh h1"
      "\<And>q. q \<notin> fst ` set p \<Longrightarrow> Nodes h2 q = Nodes h1 q" by metis
  have "chain (Nodes h2) 0 k e1" using chain_same[OF 2(5) d(3)] i(2) by simp
  from close_list_spec[OF 2(3) this d(1) i(5)] obtain h' where
    3: "close_list h2 l1 (final k 0) = Some (h', l1\<lparr>Head := first k 0, Tail := final k 0\<rparr>)"
      "chain (Nodes h') 0 k 0" "heap_ok h'" "Fresh h' = Fresh h2"
      "\<And>q. q \<notin> fst ` set k \<Longrightarrow> Nodes h' q = Nodes h2 q" by metis
  have "fst ` set p \<inter> fst ` set k = {}" using d(3) by blast
  then have c2: "chain (Nodes h') 0 p 0" using chain_same[OF 3(5), where zs = p and d = 0] 2(2) by simp
  let ?l2 = "l2\<lparr>Head := first p 0, Tail := final p 0\<rparr>"
  let ?l' = "l1\<lparr>Head := first k 0, Tail := final k 0, Lock := 0\<rparr>"
  have lk: "Lock l1 = -1" "Array l1 = None" "Index l1 = 1" "Cache l1 = Head l"
    using arg_cong[OF s(3), of Lock] arg_cong[OF s(3), of Array] arg_cong[OF s(3), of Index]
      arg_cong[OF s(3), of Cache] by simp_all
  have lk2: "Lock l2 = 0" "Array l2 = None" "Index l2 = 0" "Cache l2 = 0" "Access l2 = 0"
    using arg_cong[OF s(4), of Lock] arg_cong[OF s(4), of Array] arg_cong[OF s(4), of Index]
      arg_cong[OF s(4), of Cache] arg_cong[OF s(4), of Access] by (simp_all add: zero_list_def)
  have "separate_loop f h1 l1 l2 0 (final k 0) (final p 0) = Some (None, h1, l1, l2, final k 0, final p 0)"
    by (simp add: separate_loop.simps)
  then have "separate_method f h l = Some (SUCCESS ?l2, h', ?l')"
    using s(1) 2(1) 3(1) L lk by (simp add: separate_method_def)
  moreover have "lbase h' ?l' k" "lbase h' ?l2 p"
    using 3(2,3) c2 d i(7,8) lk lk2 by (simp_all add: lbase_def)
  moreover have "fst ` set k \<subseteq> fst ` set xs" "fst ` set p \<subseteq> fst ` set xs" by (auto simp: k_def p_def)
  then have "frame h h' (fst ` set xs)"
    using s(5) 2(4,5) 3(4,5) unfolding frame_def by (metis in_mono)
  ultimately show ?thesis using lk lk2 unfolding k_def p_def by simp
qed

text \<open>
  A message stops the loop at its node: the first list keeps the nodes not yet picked and the
  rest; the nodes already picked are lost with the second list.
\<close>

lemma separate_method_message:
  assumes "rep h l (us @ x # vs)" and "\<forall>y \<in> set us. \<not> sent f (snd y)" and "f (snd x) = MESSAGE m"
  shows "\<exists>h' l'. separate_method f h l = Some (MESSAGE m, h', l') \<and>
    lbase h' l' (filter (\<lambda>x. \<not> picks f (snd x)) us @ x # vs) \<and> Lock l' = 0"
proof -
  let ?xs = "us @ x # vs"
  define k where "k = filter (\<lambda>x. \<not> picks f (snd x)) us"
  define p where "p = filter (\<lambda>x. picks f (snd x)) us"
  let ?l = "l\<lparr>Lock := -1\<rparr>"
  let ?l1 = "?l\<lparr>Index := 1, Cache := Head ?l, Array := None\<rparr>"
  have r: "lrep h ?l ?xs" and L: "Lock l = 0" "Head l = first ?xs 0" "Tail l = final ?xs 0"
    using assms(1) by (auto simp: rep_def lrep_def)
  from separate_steps[of h ?l1 zero_list "[]" "[]" us "x # vs" f, folded k_def p_def]
    separate_start[OF r] assms(2) obtain h1 l1 l2 where
    s: "separate_loop f h ?l1 zero_list (first ?xs 0) 0 0 = separate_loop f h1 l1 l2 (fst x) (final k 0) (final p 0)"
      "sep_inv h1 l1 l2 k p (x # vs)" "l1 = ?l1\<lparr>Head := Head l1, Length := Length l1\<rparr>" by auto
  from sep_invE[OF s(2)] obtain e1 c where
    i: "heap_ok h1" "chain (Nodes h1) 0 k e1" "chain (Nodes h1) c (x # vs) 0"
      "distinct (map fst (k @ p @ x # vs))" "k \<noteq> [] \<longrightarrow> Head l1 = first k 0"
      "Length l1 = length k + length (x # vs)" by metis
  have d: "distinct (map fst (k @ x # vs))" using i(4) by auto
  from fill_slot_spec[OF i(1,2,3) d i(5)] obtain h2 h' where
    f: "set_prev h1 (fst x) (final k 0) = Some h2"
      "fill_slot h2 l1 (final k 0) (fst x) = Some (h', l1\<lparr>Head := first (k @ [x]) 0\<rparr>)"
      "chain (Nodes h') 0 (k @ [x]) (first vs 0)" "chain (Nodes h') (fst x) vs 0" "heap_ok h'" by blast
  have nz: "fst x \<noteq> 0" using chain_nonnull[OF i(1,3)] by auto
  have lk: "Lock l1 = -1" "Array l1 = None" "Tail l1 = Tail l"
    using arg_cong[OF s(3), of Lock] arg_cong[OF s(3), of Array] arg_cong[OF s(3), of Tail] by simp_all
  have "separate_loop f h1 l1 l2 (fst x) (final k 0) (final p 0) =
      Some (Some m, h', l1\<lparr>Head := first (k @ [x]) 0\<rparr>, l2, final k 0, final p 0)"
    using nz f(1,2) assms(3) chain_get_value[OF i(1,3)] by (subst separate_loop.simps) simp
  then have "separate_method f h l = Some (MESSAGE m, h', l1\<lparr>Head := first (k @ [x]) 0, Lock := 0\<rparr>)"
    using s(1) L lk by (simp add: separate_method_def)
  moreover have "chain (Nodes h') 0 (k @ x # vs) 0" using f(3,4) by simp
  then have "lbase h' (l1\<lparr>Head := first (k @ [x]) 0, Lock := 0\<rparr>) (k @ x # vs)"
    using f(5) d i(6) lk L(3) unfolding lbase_def by (simp add: final_Cons)
  ultimately show ?thesis unfolding k_def by simp
qed

section \<open>Properties\<close>

definition sample_heap5 :: "nat heap" where
  "sample_heap5 = \<lparr>Nodes = [1 \<mapsto> \<lparr>Value = 10, Next = 2, Prev = 0\<rparr>,
      2 \<mapsto> \<lparr>Value = 20, Next = 3, Prev = 1\<rparr>, 3 \<mapsto> \<lparr>Value = 30, Next = 4, Prev = 2\<rparr>,
      4 \<mapsto> \<lparr>Value = 40, Next = 5, Prev = 3\<rparr>, 5 \<mapsto> \<lparr>Value = 50, Next = 0, Prev = 4\<rparr>], Fresh = 6\<rparr>"

definition sample_list5 :: lst where
  "sample_list5 = zero_list\<lparr>Head := 1, Tail := 5, Cache := 1, Length := 5, Index := 1, Access := 4\<rparr>"

definition sample_array5 :: lst where
  "sample_array5 = sample_list5\<lparr>Array := Some [1, 2, 3, 4, 5], Lower := 1, Upper := 5\<rparr>"

abbreviation sample_nodes5 :: "(ptr \<times> nat) list" where
  "sample_nodes5 \<equiv> [(1, 10), (2, 20), (3, 30), (4, 40), (5, 50)]"

lemma sample_rep5: "rep sample_heap5 sample_list5 sample_nodes5"
  by (auto simp: rep_def lrep_def sample_heap5_def sample_list5_def zero_list_def heap_ok_def
      max_nodes_def cache_ok_def split: if_splits)

lemma le5: "1 \<le> i \<Longrightarrow> i \<le> 5 \<Longrightarrow> i = 1 \<or> i = 2 \<or> i = 3 \<or> i = 4 \<or> i = (5 :: nat)"
  by linarith

lemma sample_window5: "window [1, 2, 3, 4, 5] 1 5 sample_nodes5"
  unfolding window_def
proof (intro conjI allI impI; (elim conjE)?)
  fix i :: nat assume "1 \<le> i" "i \<le> 5"
  then have "i = 1 \<or> i = 2 \<or> i = 3 \<or> i = 4 \<or> i = 5" by (rule le5)
  then show "i - 1 < length [1, 2, 3, 4, 5 :: ptr]"
    "[1, 2, 3, 4, 5] ! (i - 1) = fst (sample_nodes5 ! (i - 1))" by auto
qed simp_all

lemma sample_rep_array5: "rep sample_heap5 sample_array5 sample_nodes5"
  using sample_rep5 sample_window5
  by (simp add: rep_def lrep_def sample_array5_def cache_ok_def array_ok_def)

text \<open>
  \<^verbatim>\<open>split(i)\<close> moves the values from position \<open>i\<close> on to a new well-formed list. The old list
  keeps the values before \<open>i\<close>, but is well-formed only if its index array (which is not
  reset) does not reach past them.
\<close>

theorem list_split_correct:
  assumes "rep h l (as @ bs)" and "resolve l i = int (length as + 1)"
  shows "\<exists>l2 h' l'. split_method h l i = Some (SUCCESS l2, h', l') \<and> rep h' l2 bs \<and>
    (array_ok l' as \<longrightarrow> rep h' l' as) \<and> rep h' (l'\<lparr>Array := None\<rparr>) as \<and>
    frame h h' (fst ` set (as @ bs))"
  by (rule split_method_spec[OF assms])

lemma list_split_correct_witness:
  "\<exists>l2 h' l'. split_method sample_heap5 sample_list5 4 = Some (SUCCESS l2, h', l') \<and>
     rep h' l2 [(4, 40), (5, 50)] \<and> rep h' (l'\<lparr>Array := None\<rparr>) [(1, 10), (2, 20), (3, 30)]"
proof -
  have r: "rep sample_heap5 sample_list5 ([(1, 10), (2, 20), (3, 30)] @ [(4, 40), (5, 50)])"
    using sample_rep5 by simp
  have "resolve sample_list5 4 = int (length [(1 :: nat, 10 :: nat), (2, 20), (3, 30)] + 1)"
    by (simp add: resolve_def)
  from list_split_correct[OF r this] show ?thesis by blast
qed

text \<open>
  the index array that \<^verbatim>\<open>split(i)\<close> forgets makes later accesses wrong: a list of five values
  with an index array, split at 3 and grown by three values to \<open>[10, 20, 60, 70, 80]\<close>, returns
  for \<^verbatim>\<open>list[4]\<close> the node of 40, which belongs to the other list.
\<close>

theorem list_split_stale:
  "rep sample_heap5 sample_array5 sample_nodes5 \<and>
   (\<exists>l2 h1 l1 h2 l2' l3. split_method sample_heap5 sample_array5 3 = Some (SUCCESS l2, h1, l1) \<and>
      put_method h1 l1 [60, 70, 80] = Some (h2, l2') \<and>
      index_method h2 l2' 4 = Some (SUCCESS (4, 40), l3))"
proof (rule conjI[OF sample_rep_array5])
  show "\<exists>l2 h1 l1 h2 l2' l3. split_method sample_heap5 sample_array5 3 = Some (SUCCESS l2, h1, l1) \<and>
      put_method h1 l1 [60, 70, 80] = Some (h2, l2') \<and>
      index_method h2 l2' 4 = Some (SUCCESS (4, 40), l3)"
    by (simp add: split_method_def resolve_def sample_list5_def sample_array5_def zero_list_def
        find_node_def seek_def in_window_def array_read_def cut_tail_def get_prev_def get_value_def
        set_next_def set_prev_def load_def sample_heap5_def put_method_def put_node_def new_node_def
        max_nodes_def recache_def index_method_def Let_def store_def)
qed

text \<open>
  C6: \<^verbatim>\<open>split(i, j)\<close> moves the values from position \<open>i\<close> up to but not including \<open>j\<close> to a new
  list; both lists are well-formed afterwards, and outside the range it fails.
\<close>

theorem list_split2_correct:
  assumes "rep h l (as @ ms @ bs)" and "resolve l i = int (length as + 1)"
    and "resolve l j = int (length as + length ms + 1)" and "ms @ bs \<noteq> []"
  shows "\<exists>l2 h' l'. split2_method h l i j = Some (SUCCESS l2, h', l') \<and> rep h' l2 ms \<and>
    rep h' l' (as @ bs) \<and> frame h h' (fst ` set (as @ ms @ bs))"
  by (rule split2_method_spec[OF assms])

lemma list_split2_correct_witness:
  "\<exists>l2 h' l'. split2_method sample_heap5 sample_array5 2 4 = Some (SUCCESS l2, h', l') \<and>
     rep h' l2 [(2, 20), (3, 30)] \<and> rep h' l' [(1, 10), (4, 40), (5, 50)]"
proof -
  have r: "rep sample_heap5 sample_array5 ([(1, 10)] @ [(2, 20), (3, 30)] @ [(4, 40), (5, 50)])"
    using sample_rep_array5 by simp
  have "resolve sample_array5 2 = int (length [(1 :: nat, 10 :: nat)] + 1)"
    "resolve sample_array5 4 = int (length [(1 :: nat, 10 :: nat)] + length [(2 :: nat, 20 :: nat), (3, 30)] + 1)"
    by (simp_all add: resolve_def)
  from list_split2_correct[OF r this] show ?thesis by auto
qed

text \<open>
  \<^verbatim>\<open>shift(i, s)\<close> moves the value at position \<open>i\<close> by \<open>s\<close> places, stopping at the ends, with all
  links and the index array right (the cached node is left as it was) - unless the index
  array covers only a part of the range: then the code follows a null pointer.
\<close>

theorem list_shift_correct:
  assumes "rep h l xs" and "1 \<le> n" and "n \<le> length xs" and "resolve l i = int n"
    and "int n + s < 2 ^ 31" and "m = shift_target (length xs) (int n) s"
  shows "if n = m \<or> range_fits l (min n m) (max n m)
    then \<exists>h' l'. shift_method h l i s = Some (SUCCESS (), h', l') \<and> lbase h' l' (moved n m xs) \<and>
      Lock l' = 0 \<and> frame h h' (fst ` set xs)
    else shift_method h l i s = None"
proof -
  have r: "lrep h (l\<lparr>Lock := -1\<rparr>) xs" and L: "Lock l = 0" "Length l = length xs"
    and b: "lbase h l xs" using assms(1) by (auto simp: rep_def lrep_base lbase_def)
  have len: "length xs < 2147483648" using lrep_length[OF r] by (simp add: max_nodes_def)
  consider "m < n" | "n < m" | "n = m" by linarith
  then show ?thesis
  proof cases
    case 1
    then have "s < 0" using assms(2,3,6) by (auto simp: shift_target_def split: if_splits)
    from shift_method_left[OF r L(1) assms(3,4) this assms(6) 1] 1 show ?thesis by simp
  next
    case 2
    then have "0 < s" using assms(2,3,6) by (auto simp: shift_target_def split: if_splits)
    from shift_method_right[OF r L(1) assms(2-4) this assms(5,6) 2] 2 show ?thesis by simp
  next
    case 3
    then have "shift_method h l i s = Some (SUCCESS (), h, l\<lparr>Lock := 0\<rparr>)"
      using L assms(2-6) len by (auto simp: shift_method_def shift_target_def Let_def)
    then show ?thesis using 3 b moved_same[OF assms(2,3)] by simp
  qed
qed

lemma list_shift_correct_witness:
  "\<exists>h' l'. shift_method sample_heap5 sample_array5 2 2 = Some (SUCCESS (), h', l') \<and>
     lbase h' l' [(1, 10), (3, 30), (4, 40), (2, 20), (5, 50)]"
  using list_shift_correct[OF sample_rep_array5, of 2 2 2 4]
  by (simp add: resolve_def shift_target_def range_fits_def moved_def sample_array5_def
      sample_list5_def zero_list_def) blast

text \<open>
  after \<^verbatim>\<open>shift\<close> the cached node is wrong: on a list of five, \<^verbatim>\<open>shift(3, -2)\<close> succeeds, and the
  next \<^verbatim>\<open>list[2]\<close> follows the null \<^verbatim>\<open>Prev\<close> of the node that has become the first one.
\<close>

theorem list_shift_stale:
  "\<exists>h' l'. shift_method sample_heap5 sample_list5 3 (-2) = Some (SUCCESS (), h', l') \<and>
     lbase h' l' [(3, 30), (1, 10), (2, 20), (4, 40), (5, 50)] \<and> index_method h' l' 2 = None"
proof -
  have f: "Lock sample_list5 = 0" "Array sample_list5 = None" "Length sample_list5 = 5"
    by (simp_all add: sample_list5_def zero_list_def)
  have "lrep sample_heap5 (sample_list5\<lparr>Lock := -1\<rparr>) sample_nodes5"
    using sample_rep5 by (simp add: rep_def)
  from shift_method_left[OF this f(1), of 3 3 "-2" 1] f
  obtain h' l' where s: "shift_method sample_heap5 sample_list5 3 (-2) = Some (SUCCESS (), h', l')"
      "lbase h' l' [(3, 30), (1, 10), (2, 20), (4, 40), (5, 50)]"
    by (simp add: shift_target_def range_fits_def moved_def resolve_def) blast
  moreover have "case shift_method sample_heap5 sample_list5 3 (-2) of None \<Rightarrow> False
      | Some (_, h', l') \<Rightarrow> index_method h' l' 2 = None"
    by (simp add: shift_method_def resolve_def sample_list5_def zero_list_def shift_to_front_def
        find_node_def seek_def in_window_def walk_to_def loop_count_def detach_prev_def get_prev_def
        get_next_def get_value_def set_next_def set_prev_def load_def sample_heap5_def
        shift_array_right_def index_method_def Let_def store_def)
  ultimately show ?thesis by simp
qed

text \<open>
  \<^verbatim>\<open>separate(f)\<close> keeps in the list the values for which \<open>f\<close> fails and moves those for which
  it succeeds to a new list, both in order. If \<open>f\<close> sends a message, the message is passed on,
  the list keeps the failed values, the one at fault and all later ones (the values already
  moved are lost). In all cases the lock is released.
\<close>

theorem list_separate_correct:
  assumes "rep h l xs"
  shows "case dropWhile (\<lambda>x. \<not> sent f (snd x)) xs of
      [] \<Rightarrow> \<exists>h' l2 l'. separate_method f h l = Some (SUCCESS l2, h', l') \<and>
        lbase h' l' (filter (\<lambda>x. \<not> picks f (snd x)) xs) \<and> Lock l' = 0 \<and>
        lbase h' l2 (filter (\<lambda>x. picks f (snd x)) xs) \<and> Lock l2 = 0 \<and> frame h h' (fst ` set xs)
    | x # vs \<Rightarrow> \<exists>m h' l'. f (snd x) = MESSAGE m \<and> separate_method f h l = Some (MESSAGE m, h', l') \<and>
        lbase h' l' (filter (\<lambda>x. \<not> picks f (snd x)) (takeWhile (\<lambda>x. \<not> sent f (snd x)) xs) @ x # vs) \<and>
        Lock l' = 0"
proof (cases "dropWhile (\<lambda>x. \<not> sent f (snd x)) xs")
  case Nil
  then have "\<forall>x \<in> set xs. \<not> sent f (snd x)" by (simp add: dropWhile_eq_Nil_conv)
  from separate_method_spec[OF assms this] show ?thesis unfolding Nil list.case by blast
next
  case (Cons x vs)
  let ?us = "takeWhile (\<lambda>x. \<not> sent f (snd x)) xs"
  have xs: "xs = ?us @ x # vs" using Cons by (metis takeWhile_dropWhile_id)
  have "sent f (snd x)" using hd_dropWhile[of "\<lambda>x. \<not> sent f (snd x)" xs] unfolding Cons by simp
  then obtain m where m: "f (snd x) = MESSAGE m" by blast
  have "\<forall>y \<in> set ?us. \<not> sent f (snd y)" using set_takeWhileD by fast
  from separate_method_message[of h l ?us x vs f m, OF _ this m] assms xs m show ?thesis unfolding Cons list.case by auto
qed

lemma list_separate_correct_witness:
  "\<exists>h' l2 l'. separate_method (\<lambda>v. if even (v div 10) then SUCCESS v else FAILURE) sample_heap5 sample_list5 =
       Some (SUCCESS l2, h', l') \<and>
     lbase h' l' [(1, 10), (3, 30), (5, 50)] \<and> lbase h' l2 [(2, 20), (4, 40)]"
  using list_separate_correct[OF sample_rep5, of "\<lambda>v. if even (v div 10) then SUCCESS v else FAILURE"]
  by (auto simp: if_distrib)

text \<open>
  the list that \<^verbatim>\<open>separate\<close> returns has no cached node: when it has at least five values,
  \<^verbatim>\<open>list[2]\<close> on it starts to walk from the null pointer.
\<close>

theorem list_separate_no_cache:
  assumes "rep h l xs" and "\<forall>x \<in> set xs. \<not> sent f (snd x)"
    and "5 \<le> length (filter (\<lambda>x. picks f (snd x)) xs)"
  shows "\<exists>h' l2 l'. separate_method f h l = Some (SUCCESS l2, h', l') \<and> index_method h' l2 2 = None"
proof -
  from separate_method_spec[OF assms(1,2)] obtain h' l2 l' where
    s: "separate_method f h l = Some (SUCCESS l2, h', l')" "Lock l2 = 0" "Index l2 = 0" "Cache l2 = 0"
      "Length l2 = length (filter (\<lambda>x. picks f (snd x)) xs)" "Array l2 = None" "Access l2 = 0"
    by (auto simp: lbase_def)
  have "walk_next h' 0 2 = None" by (simp add: get_next_def load_def)
  moreover have "loop_count 2 = 2" using loop_count_pos[of 2] by simp
  ultimately have "index_method h' l2 2 = None"
    using s(2-7) assms(3)
    by (simp add: index_method_def resolve_def seek_def in_window_def walk_to_def Let_def)
  then show ?thesis using s(1) by blast
qed

lemma list_separate_no_cache_witness:
  "\<exists>h' l2 l'. separate_method SUCCESS sample_heap5 sample_list5 = Some (SUCCESS l2, h', l') \<and>
     index_method h' l2 2 = None"
  by (rule list_separate_no_cache[OF sample_rep5]) simp_all

end
