(* ===== verification/ListFind.thy ===== *)
theory ListFind
  imports ListSplit
begin

text \<open>
  Searching in \<^verbatim>\<open>dev/src/lib/Agg/List.c\<close>: \<^verbatim>\<open>in\<close>, the generators \<^verbatim>\<open>find\<close>, \<^verbatim>\<open>rfind\<close>,
  \<^verbatim>\<open>find_object\<close>, \<^verbatim>\<open>rfind_object\<close>, their variants that apply functions first, \<^verbatim>\<open>where\<close>,
  \<^verbatim>\<open>rwhere\<close> (with a predicate, and with a predicate and a value), and \<^verbatim>\<open>bsearch\<close>. Each
  generator is a method that returns the first result and a resume function that goes on from
  the node the generator has stored; the locale \<open>list_generator\<close> states what the two promise
  each other, and is interpreted for each of the eight.
\<close>

section \<open>Definitions\<close>

text \<open>
  The loop that all these functions share: \<open>step\<close> is \<^verbatim>\<open>Node->Next\<close> or \<^verbatim>\<open>Node->Prev\<close>, \<open>d\<close> is what
  the index changes by, \<open>test\<close> is the call that decides. The result is the node and index of the
  hit; the generator keeps the next node and the index.
\<close>

partial_function (option) scan ::
  "(ptr \<Rightarrow> ptr option) \<Rightarrow> int \<Rightarrow> 'v fun1 \<Rightarrow> 'v heap \<Rightarrow> ptr \<Rightarrow> int \<Rightarrow>
   (ptr \<times> int, 'v, ptr \<times> int) reply option" where
  "scan step d test h p i =
     (if p = 0 then Some FAILURE
      else do {
        v \<leftarrow> get_value h p;
        case test v of
          FAILURE \<Rightarrow> do { q \<leftarrow> step p; scan step d test h q (i + d) }
        | MESSAGE m \<Rightarrow> Some (MESSAGE m)
        | _ \<Rightarrow> do {
            q \<leftarrow> step p;
            Some (if q \<noteq> 0 then SUSPEND (p, i + d) (q, i + d) else SUCCESS (p, i + d)) } })"

text \<open>The generator structures.\<close>

record 'v find_generator =
  FCurrent :: ptr
  FIndex :: int
  FValue :: 'v

record 'v applied_find_generator =
  ACurrent :: ptr
  AIndex :: int
  AValue :: 'v
  AFunctions :: "'v fun1 list"

record 'v where_generator =
  WCurrent :: ptr
  WIndex :: int
  WTest :: "'v fun1"

record 'v where_value_generator =
  VCurrent :: ptr
  VIndex :: int
  VTest :: "'v fun1"
  VValue :: 'v

definition in_method :: "'v fun2 \<Rightarrow> 'v heap \<Rightarrow> 'v \<Rightarrow> lst \<Rightarrow> ('v, 'v, unit) reply option" where
  "in_method eq h v l =
     map_option (map_reply (\<lambda>_. v) id (\<lambda>_. ()))
       (do {
          r \<leftarrow> scan (get_next h) 1 (\<lambda>x. eq v x) h (Head l) 0;
          Some (case r of SUSPEND a _ \<Rightarrow> SUCCESS a | _ \<Rightarrow> r) })"

definition resume_find_list ::
  "'v fun2 \<Rightarrow> 'v heap \<Rightarrow> 'v find_generator \<Rightarrow> (int, 'v, 'v find_generator) reply option" where
  "resume_find_list eq h g =
     map_option (map_reply snd id (\<lambda>(p, i). g\<lparr>FCurrent := p, FIndex := i\<rparr>))
       (scan (get_next h) 1 (\<lambda>x. eq (FValue g) x) h (FCurrent g) (FIndex g))"

definition find_method ::
  "'v fun2 \<Rightarrow> 'v heap \<Rightarrow> lst \<Rightarrow> 'v \<Rightarrow> (int, 'v, 'v find_generator) reply option" where
  "find_method eq h l v =
     map_option (map_reply snd id (\<lambda>(p, i). \<lparr>FCurrent = p, FIndex = i, FValue = v\<rparr>))
       (scan (get_next h) 1 (\<lambda>x. eq v x) h (Head l) 0)"

text \<open>The object variants compare pointers: the values of the model are the objects.\<close>

definition same_object :: "'v \<Rightarrow> 'v fun1" where
  "same_object v x = (if x = v then SUCCESS x else FAILURE)"

definition resume_find_object_list ::
  "'v heap \<Rightarrow> 'v find_generator \<Rightarrow> (int, 'v, 'v find_generator) reply option" where
  "resume_find_object_list h g =
     map_option (map_reply snd id (\<lambda>(p, i). g\<lparr>FCurrent := p, FIndex := i\<rparr>))
       (scan (get_next h) 1 (same_object (FValue g)) h (FCurrent g) (FIndex g))"

definition find_object_method ::
  "'v heap \<Rightarrow> lst \<Rightarrow> 'v \<Rightarrow> (int, 'v, 'v find_generator) reply option" where
  "find_object_method h l v =
     map_option (map_reply snd id (\<lambda>(p, i). \<lparr>FCurrent = p, FIndex = i, FValue = v\<rparr>))
       (scan (get_next h) 1 (same_object v) h (Head l) 0)"

definition resume_rfind_list ::
  "'v fun2 \<Rightarrow> 'v heap \<Rightarrow> 'v find_generator \<Rightarrow> (int, 'v, 'v find_generator) reply option" where
  "resume_rfind_list eq h g =
     map_option (map_reply snd id (\<lambda>(p, i). g\<lparr>FCurrent := p, FIndex := i\<rparr>))
       (scan (get_prev h) (-1) (\<lambda>x. eq (FValue g) x) h (FCurrent g) (FIndex g))"

definition rfind_method ::
  "'v fun2 \<Rightarrow> 'v heap \<Rightarrow> lst \<Rightarrow> 'v \<Rightarrow> (int, 'v, 'v find_generator) reply option" where
  "rfind_method eq h l v =
     map_option (map_reply snd id (\<lambda>(p, i). \<lparr>FCurrent = p, FIndex = i, FValue = v\<rparr>))
       (scan (get_prev h) (-1) (\<lambda>x. eq v x) h (Tail l) (int (Length l) + 1))"

definition resume_rfind_object_list ::
  "'v heap \<Rightarrow> 'v find_generator \<Rightarrow> (int, 'v, 'v find_generator) reply option" where
  "resume_rfind_object_list h g =
     map_option (map_reply snd id (\<lambda>(p, i). g\<lparr>FCurrent := p, FIndex := i\<rparr>))
       (scan (get_prev h) (-1) (same_object (FValue g)) h (FCurrent g) (FIndex g))"

definition rfind_object_method ::
  "'v heap \<Rightarrow> lst \<Rightarrow> 'v \<Rightarrow> (int, 'v, 'v find_generator) reply option" where
  "rfind_object_method h l v =
     map_option (map_reply snd id (\<lambda>(p, i). \<lparr>FCurrent = p, FIndex = i, FValue = v\<rparr>))
       (scan (get_prev h) (-1) (same_object v) h (Tail l) (int (Length l) + 1))"

text \<open>\<^verbatim>\<open>for (size_t I = 0; I < NumFunctions; ++I)\<close>: each function gets the result of the last one.\<close>

fun apply_all :: "'v fun1 list \<Rightarrow> 'v \<Rightarrow> ('v, 'v, unit) reply" where
  "apply_all [] v = SUCCESS v"
| "apply_all (f # fs) v =
     (case f v of
        SUSPEND r _ \<Rightarrow> apply_all fs r
      | SUCCESS r \<Rightarrow> apply_all fs r
      | FAILURE \<Rightarrow> FAILURE
      | MESSAGE m \<Rightarrow> MESSAGE m)"

definition applied_test :: "'v fun2 \<Rightarrow> 'v fun1 list \<Rightarrow> 'v \<Rightarrow> 'v fun1" where
  "applied_test eq fs v x =
     (case apply_all fs x of
        SUSPEND r _ \<Rightarrow> eq r v
      | SUCCESS r \<Rightarrow> eq r v
      | FAILURE \<Rightarrow> FAILURE
      | MESSAGE m \<Rightarrow> MESSAGE m)"

definition resume_applied_find_list ::
  "'v fun2 \<Rightarrow> 'v heap \<Rightarrow> 'v applied_find_generator \<Rightarrow> (int, 'v, 'v applied_find_generator) reply option" where
  "resume_applied_find_list eq h g =
     map_option (map_reply snd id (\<lambda>(p, i). g\<lparr>ACurrent := p, AIndex := i\<rparr>))
       (scan (get_next h) 1 (applied_test eq (AFunctions g) (AValue g)) h (ACurrent g) (AIndex g))"

definition applied_find_method ::
  "'v fun2 \<Rightarrow> 'v heap \<Rightarrow> lst \<Rightarrow> 'v \<Rightarrow> 'v fun1 list \<Rightarrow>
   (int, 'v, 'v applied_find_generator) reply option" where
  "applied_find_method eq h l v fs =
     map_option (map_reply snd id
         (\<lambda>(p, i). \<lparr>ACurrent = p, AIndex = i, AValue = v, AFunctions = fs\<rparr>))
       (scan (get_next h) 1 (applied_test eq fs v) h (Head l) 0)"

definition resume_applied_rfind_list ::
  "'v fun2 \<Rightarrow> 'v heap \<Rightarrow> 'v applied_find_generator \<Rightarrow> (int, 'v, 'v applied_find_generator) reply option" where
  "resume_applied_rfind_list eq h g =
     map_option (map_reply snd id (\<lambda>(p, i). g\<lparr>ACurrent := p, AIndex := i\<rparr>))
       (scan (get_prev h) (-1) (applied_test eq (AFunctions g) (AValue g)) h (ACurrent g) (AIndex g))"

definition applied_rfind_method ::
  "'v fun2 \<Rightarrow> 'v heap \<Rightarrow> lst \<Rightarrow> 'v \<Rightarrow> 'v fun1 list \<Rightarrow>
   (int, 'v, 'v applied_find_generator) reply option" where
  "applied_rfind_method eq h l v fs =
     map_option (map_reply snd id
         (\<lambda>(p, i). \<lparr>ACurrent = p, AIndex = i, AValue = v, AFunctions = fs\<rparr>))
       (scan (get_prev h) (-1) (applied_test eq fs v) h (Tail l) (int (Length l) + 1))"

text \<open>
  The methods \<^verbatim>\<open>where\<close> and \<^verbatim>\<open>rwhere\<close> also make the node of their first hit the cached node.
\<close>

definition cache_hit :: "lst \<Rightarrow> (ptr \<times> int, 'm, 'g) reply \<Rightarrow> lst" where
  "cache_hit l r =
     (case r of
        SUSPEND (p, i) _ \<Rightarrow> l\<lparr>Index := ul i, Cache := p\<rparr>
      | SUCCESS (p, i) \<Rightarrow> l\<lparr>Index := ul i, Cache := p\<rparr>
      | _ \<Rightarrow> l)"

definition resume_where_list ::
  "'v heap \<Rightarrow> 'v where_generator \<Rightarrow> (int, 'v, 'v where_generator) reply option" where
  "resume_where_list h g =
     map_option (map_reply snd id (\<lambda>(p, i). g\<lparr>WCurrent := p, WIndex := i\<rparr>))
       (scan (get_next h) 1 (WTest g) h (WCurrent g) (WIndex g))"

definition where_method ::
  "'v heap \<Rightarrow> lst \<Rightarrow> 'v fun1 \<Rightarrow> ((int, 'v, 'v where_generator) reply \<times> lst) option" where
  "where_method h l f = do {
     r \<leftarrow> scan (get_next h) 1 f h (Head l) 0;
     Some (map_reply snd id (\<lambda>(p, i). \<lparr>WCurrent = p, WIndex = i, WTest = f\<rparr>) r, cache_hit l r) }"

definition resume_rwhere_list ::
  "'v heap \<Rightarrow> 'v where_generator \<Rightarrow> (int, 'v, 'v where_generator) reply option" where
  "resume_rwhere_list h g =
     map_option (map_reply snd id (\<lambda>(p, i). g\<lparr>WCurrent := p, WIndex := i\<rparr>))
       (scan (get_prev h) (-1) (WTest g) h (WCurrent g) (WIndex g))"

definition rwhere_method ::
  "'v heap \<Rightarrow> lst \<Rightarrow> 'v fun1 \<Rightarrow> ((int, 'v, 'v where_generator) reply \<times> lst) option" where
  "rwhere_method h l f = do {
     r \<leftarrow> scan (get_prev h) (-1) f h (Tail l) (int (Length l) + 1);
     Some (map_reply snd id (\<lambda>(p, i). \<lparr>WCurrent = p, WIndex = i, WTest = f\<rparr>) r, cache_hit l r) }"

definition where_test :: "'v fun2 \<Rightarrow> 'v fun1 \<Rightarrow> 'v \<Rightarrow> 'v fun1" where
  "where_test eq f v x =
     (case f x of
        SUSPEND r _ \<Rightarrow> eq r v
      | SUCCESS r \<Rightarrow> eq r v
      | FAILURE \<Rightarrow> FAILURE
      | MESSAGE m \<Rightarrow> MESSAGE m)"

definition resume_where_value_list ::
  "'v fun2 \<Rightarrow> 'v heap \<Rightarrow> 'v where_value_generator \<Rightarrow> (int, 'v, 'v where_value_generator) reply option" where
  "resume_where_value_list eq h g =
     map_option (map_reply snd id (\<lambda>(p, i). g\<lparr>VCurrent := p, VIndex := i\<rparr>))
       (scan (get_next h) 1 (where_test eq (VTest g) (VValue g)) h (VCurrent g) (VIndex g))"

definition where_value_method ::
  "'v fun2 \<Rightarrow> 'v heap \<Rightarrow> lst \<Rightarrow> 'v fun1 \<Rightarrow> 'v \<Rightarrow>
   ((int, 'v, 'v where_value_generator) reply \<times> lst) option" where
  "where_value_method eq h l f v = do {
     r \<leftarrow> scan (get_next h) 1 (where_test eq f v) h (Head l) 0;
     Some (map_reply snd id (\<lambda>(p, i). \<lparr>VCurrent = p, VIndex = i, VTest = f, VValue = v\<rparr>) r,
           cache_hit l r) }"

definition resume_rwhere_value_list ::
  "'v fun2 \<Rightarrow> 'v heap \<Rightarrow> 'v where_value_generator \<Rightarrow> (int, 'v, 'v where_value_generator) reply option" where
  "resume_rwhere_value_list eq h g =
     map_option (map_reply snd id (\<lambda>(p, i). g\<lparr>VCurrent := p, VIndex := i\<rparr>))
       (scan (get_prev h) (-1) (where_test eq (VTest g) (VValue g)) h (VCurrent g) (VIndex g))"

text \<open>
  In \<^verbatim>\<open>rwhere\<close> with a value the inner \<^verbatim>\<open>case MESSAGE\<close> has no \<^verbatim>\<open>return\<close>: control falls through to
  the outer \<^verbatim>\<open>case FAILURE: continue\<close>.
\<close>

definition rwhere_test :: "'v fun2 \<Rightarrow> 'v fun1 \<Rightarrow> 'v \<Rightarrow> 'v fun1" where
  "rwhere_test eq f v x =
     (case f x of
        SUSPEND r _ \<Rightarrow> (case eq r v of MESSAGE m \<Rightarrow> FAILURE | r' \<Rightarrow> r')
      | SUCCESS r \<Rightarrow> (case eq r v of MESSAGE m \<Rightarrow> FAILURE | r' \<Rightarrow> r')
      | FAILURE \<Rightarrow> FAILURE
      | MESSAGE m \<Rightarrow> MESSAGE m)"

definition rwhere_value_method ::
  "'v fun2 \<Rightarrow> 'v heap \<Rightarrow> lst \<Rightarrow> 'v fun1 \<Rightarrow> 'v \<Rightarrow>
   ((int, 'v, 'v where_value_generator) reply \<times> lst) option" where
  "rwhere_value_method eq h l f v = do {
     r \<leftarrow> scan (get_prev h) (-1) (rwhere_test eq f v) h (Tail l) (int (Length l) + 1);
     Some (map_reply snd id (\<lambda>(p, i). \<lparr>VCurrent = p, VIndex = i, VTest = f, VValue = v\<rparr>) r,
           cache_hit l r) }"

text \<open>
  \<^verbatim>\<open>bsearch\<close>: \<open>less\<close>, \<open>equal\<close>, \<open>greater\<close> are the objects that a comparison returns, \<open>failed\<close> the
  string "Comparison failed"; any other result counts as a failed comparison. The bounds are
  \<^verbatim>\<open>size_t\<close>: \<^verbatim>\<open>Max - 1\<close> wraps around below 0.
\<close>

record 'v ordering =
  Less :: 'v
  Equal :: 'v
  Greater :: 'v

partial_function (option) bsearch_loop ::
  "'v ordering \<Rightarrow> 'v \<Rightarrow> 'v fun2 \<Rightarrow> 'v heap \<Rightarrow> ptr list \<Rightarrow> 'v \<Rightarrow> nat \<Rightarrow> nat \<Rightarrow>
   (ptr \<times> 'v, 'v, unit) reply option" where
  "bsearch_loop ords failed cmp h nodes v lo hi =
     (if hi < lo then Some FAILURE
      else do {
        let mid = u32 (lo + hi) div 2;
        p \<leftarrow> (if mid < length nodes then Some (nodes ! mid) else None);
        x \<leftarrow> get_value h p;
        case returned (cmp x v) of
          Some r \<Rightarrow>
            (if r = Equal ords then Some (SUCCESS (p, x))
             else if r = Less ords then bsearch_loop ords failed cmp h nodes v (inc32 mid) hi
             else if r = Greater ords then bsearch_loop ords failed cmp h nodes v lo (dec32 mid)
             else Some (MESSAGE failed))
        | None \<Rightarrow> (case cmp x v of MESSAGE m \<Rightarrow> Some (MESSAGE m) | _ \<Rightarrow> Some (MESSAGE failed)) })"

definition bsearch_method ::
  "'v ordering \<Rightarrow> 'v \<Rightarrow> 'v fun2 \<Rightarrow> 'v heap \<Rightarrow> lst \<Rightarrow> 'v \<Rightarrow> ((ptr \<times> 'v, 'v, unit) reply \<times> lst) option" where
  "bsearch_method ords failed cmp h l v = do {
     l \<leftarrow> build_index_array h l;
     nodes \<leftarrow> Array l;
     r \<leftarrow> bsearch_loop ords failed cmp h nodes v 0 (dec32 (Length l));
     Some (r, l) }"

section \<open>Scanning\<close>

text \<open>\<open>trail step h xs\<close>: \<open>step\<close> leads through the nodes and values \<open>xs\<close> and then to NULL.\<close>

fun trail :: "(ptr \<Rightarrow> ptr option) \<Rightarrow> 'v heap \<Rightarrow> (ptr \<times> 'v) list \<Rightarrow> bool" where
  "trail step h [] \<longleftrightarrow> True"
| "trail step h (x # xs) \<longleftrightarrow> fst x \<noteq> 0 \<and> get_value h (fst x) = Some (snd x) \<and>
     step (fst x) = Some (first xs 0) \<and> trail step h xs"

lemma trail_next:
  "heap_ok h \<Longrightarrow> chain (Nodes h) a xs 0 \<Longrightarrow> trail (get_next h) h xs"
proof (induction xs arbitrary: a)
  case (Cons x xs)
  then have "fst x \<noteq> 0" using chain_nonnull[of h a "x # xs" 0] by auto
  moreover have "trail (get_next h) h xs" using Cons by auto
  ultimately show ?case
    using chain_get_value[OF Cons.prems] chain_get_next[OF Cons.prems] by simp
qed simp

lemma trail_prev:
  "heap_ok h \<Longrightarrow> chain (Nodes h) 0 xs b \<Longrightarrow> trail (get_prev h) h (rev xs)"
proof (induction xs arbitrary: b rule: rev_induct)
  case (snoc x xs)
  then have "fst x \<noteq> 0" using chain_nonnull[of h 0 "xs @ [x]" b] by auto
  moreover have "first (rev xs) 0 = final xs 0" by (cases xs rule: rev_cases) auto
  moreover have "trail (get_prev h) h (rev xs)" using snoc by auto
  moreover have "chain (Nodes h) (final xs 0) [x] b" using snoc.prems(2) by simp
  note chain_get_value[OF snoc.prems(1) this] chain_get_prev[OF snoc.prems(1) this]
  ultimately show ?case by simp
qed simp

text \<open>The scan on the sequence; its generator is the rest of it.\<close>

fun scan_list ::
  "int \<Rightarrow> 'v fun1 \<Rightarrow> int \<Rightarrow> (ptr \<times> 'v) list \<Rightarrow> (ptr \<times> int, 'v, (ptr \<times> 'v) list \<times> int) reply" where
  "scan_list d test i [] = FAILURE"
| "scan_list d test i (x # xs) =
     (case test (snd x) of
        FAILURE \<Rightarrow> scan_list d test (i + d) xs
      | MESSAGE m \<Rightarrow> MESSAGE m
      | _ \<Rightarrow> if xs = [] then SUCCESS (fst x, i + d) else SUSPEND (fst x, i + d) (xs, i + d))"

lemma scan_spec:
  "trail step h xs \<Longrightarrow> scan step d test h (first xs 0) i =
     Some (map_reply id id (\<lambda>(ys, j). (first ys 0, j)) (scan_list d test i xs))"
proof (induction xs arbitrary: i)
  case Nil
  then show ?case by (simp add: scan.simps)
next
  case (Cons x xs)
  have nz: "xs \<noteq> [] \<Longrightarrow> first xs 0 \<noteq> 0" using Cons.prems by (cases xs) auto
  from Cons nz show ?case
    by (subst scan.simps) (cases "test (snd x)"; cases "xs = []"; simp add: id_def)
qed

text \<open>All results of a generator, and the message that ended it, if one did.\<close>

fun all_hits :: "int \<Rightarrow> 'v fun1 \<Rightarrow> int \<Rightarrow> (ptr \<times> 'v) list \<Rightarrow> int list \<times> 'v option" where
  "all_hits d test i [] = ([], None)"
| "all_hits d test i (x # xs) =
     (case test (snd x) of
        FAILURE \<Rightarrow> all_hits d test (i + d) xs
      | MESSAGE m \<Rightarrow> ([], Some m)
      | _ \<Rightarrow> (case all_hits d test (i + d) xs of (is, e) \<Rightarrow> ((i + d) # is, e)))"

text \<open>A caller that resumes a generator until it ends.\<close>

partial_function (option) drain ::
  "('g \<Rightarrow> (int, 'v, 'g) reply option) \<Rightarrow> (int, 'v, 'g) reply \<Rightarrow> (int list \<times> 'v option) option" where
  "drain resume r =
     (case r of
        FAILURE \<Rightarrow> Some ([], None)
      | MESSAGE m \<Rightarrow> Some ([], Some m)
      | SUCCESS i \<Rightarrow> Some ([i], None)
      | SUSPEND i g \<Rightarrow> do {
          r \<leftarrow> resume g;
          (is, e) \<leftarrow> drain resume r;
          Some (i # is, e) })"

lemma all_hits_forward:
  assumes "\<forall>x \<in> set xs. \<not> sent test (snd x)"
  shows "all_hits 1 test i xs =
    (map (\<lambda>j. i + 1 + int j) (filter (\<lambda>j. picks test (snd (xs ! j))) [0..<length xs]), None)"
  using assms
proof (induction xs arbitrary: i)
  case (Cons x xs)
  have u: "[0..<length (x # xs)] = 0 # map Suc [0..<length xs]" by (simp add: map_Suc_upt upt_conv_Cons del: upt_Suc)
  have "all_hits 1 test (i + 1) xs =
    (map (\<lambda>j. i + 1 + int j) (map Suc (filter (\<lambda>j. picks test (snd (xs ! j))) [0..<length xs])), None)"
    using Cons by (simp add: ac_simps)
  moreover have "filter (\<lambda>j. picks test (snd ((x # xs) ! j))) (map Suc [0..<length xs]) =
    map Suc (filter (\<lambda>j. picks test (snd (xs ! j))) [0..<length xs])"
    by (simp add: filter_map o_def)
  ultimately show ?case using Cons.prems unfolding u
    by (cases "test (snd x)") auto
qed simp

section \<open>The interface of a generator\<close>

definition ord :: "bool \<Rightarrow> 'a list \<Rightarrow> 'a list" where
  "ord fwd xs = (if fwd then xs else rev xs)"

definition dir :: "bool \<Rightarrow> int" where
  "dir fwd = (if fwd then 1 else -1)"

definition start_index :: "bool \<Rightarrow> nat \<Rightarrow> int" where
  "start_index fwd n = (if fwd then 0 else int n + 1)"

definition stepper :: "bool \<Rightarrow> 'v heap \<Rightarrow> ptr \<Rightarrow> ptr option" where
  "stepper fwd h = (if fwd then get_next h else get_prev h)"

lemma fwd_simps [simp]:
  "ord True xs = xs" "ord False xs = rev xs" "dir True = 1" "dir False = -1"
  "start_index True n = 0" "start_index False n = int n + 1"
  "stepper True h = get_next h" "stepper False h = get_prev h"
  by (simp_all add: ord_def dir_def start_index_def stepper_def)

definition gen_reply ::
  "(ptr \<Rightarrow> int \<Rightarrow> 'g) \<Rightarrow> (ptr \<times> int, 'v, (ptr \<times> 'v) list \<times> int) reply \<Rightarrow> (int, 'v, 'g) reply" where
  "gen_reply mk = map_reply snd id (\<lambda>(ys, i). mk (first ys 0) i)"

lemma ord_trail: "lrep h l xs \<Longrightarrow> trail (stepper fwd h) h (ord fwd xs)"
  using trail_next[of h 0 xs] trail_prev[of h xs 0] by (cases fwd) (auto simp: lrep_def)

lemma scan_gen:
  "trail step h ys \<Longrightarrow> map_option (map_reply snd id (\<lambda>(p, i). mk p i)) (scan step d test h (first ys 0) i) =
     Some (gen_reply mk (scan_list d test i ys))"
  by (simp add: scan_spec gen_reply_def reply.map_comp comp_def case_prod_unfold id_def)

text \<open>
  \<open>start\<close> is the method and \<open>resume\<close> the resume function; \<open>mk p i\<close> is the generator that goes
  on at node \<open>p\<close> after index \<open>i\<close>. Both must scan in the same direction with the same test.
\<close>

locale list_generator =
  fixes fwd :: bool
    and test :: "'v fun1"
    and start :: "'v heap \<Rightarrow> lst \<Rightarrow> ((int, 'v, 'g) reply \<times> lst) option"
    and resume :: "'v heap \<Rightarrow> 'g \<Rightarrow> (int, 'v, 'g) reply option"
    and mk :: "ptr \<Rightarrow> int \<Rightarrow> 'g"
  assumes start_scan: "lrep h l xs \<Longrightarrow> \<exists>l'. start h l =
      Some (gen_reply mk (scan_list (dir fwd) test (start_index fwd (length xs)) (ord fwd xs)), l') \<and>
      lrep h l' xs \<and> Lock l' = Lock l"
    and resume_scan: "resume h (mk p i) =
      map_option (map_reply snd id (\<lambda>(p, i). mk p i)) (scan (stepper fwd h) (dir fwd) test h p i)"
begin

lemma drain_all:
  "trail (stepper fwd h) h ys \<Longrightarrow>
   drain (resume h) (gen_reply mk (scan_list (dir fwd) test i ys)) = Some (all_hits (dir fwd) test i ys)"
proof (induction ys arbitrary: i)
  case Nil
  then show ?case by (subst drain.simps) (simp add: gen_reply_def)
next
  case (Cons x ys)
  have r: "resume h (mk (first ys 0) j) = Some (gen_reply mk (scan_list (dir fwd) test j ys))" for j
    using Cons.prems by (simp add: resume_scan scan_gen)
  show ?case
  proof (cases "test (snd x)")
    case FAILURE
    then show ?thesis using Cons by simp
  next
    case (MESSAGE m)
    then show ?thesis by (subst drain.simps) (simp add: gen_reply_def)
  next
    case (SUCCESS a)
    then show ?thesis using Cons r
      by (subst drain.simps) (auto simp: gen_reply_def split: prod.splits)
  next
    case (SUSPEND a b)
    then show ?thesis using Cons r
      by (subst drain.simps) (auto simp: gen_reply_def split: prod.splits)
  qed
qed

lemma generates:
  assumes "lrep h l xs"
  shows "\<exists>r l'. start h l = Some (r, l') \<and>
    drain (resume h) r = Some (all_hits (dir fwd) test (start_index fwd (length xs)) (ord fwd xs)) \<and>
    lrep h l' xs \<and> Lock l' = Lock l"
  using start_scan[OF assms] drain_all[OF ord_trail[OF assms]] by blast

end

text \<open>A list that is only read.\<close>

lemma read_start:
  assumes "lrep h l xs" and "Head l = first xs 0 \<Longrightarrow> Tail l = final xs 0 \<Longrightarrow> Length l = length xs \<Longrightarrow>
    s = map_option (map_reply snd id (\<lambda>(p, i). mk p i))
      (scan (stepper fwd h) (dir fwd) test h (first (ord fwd xs) 0) (start_index fwd (length xs)))"
  shows "\<exists>l'. map_option (\<lambda>r. (r, l)) s =
      Some (gen_reply mk (scan_list (dir fwd) test (start_index fwd (length xs)) (ord fwd xs)), l') \<and>
      lrep h l' xs \<and> Lock l' = Lock l"
  using assms scan_gen[OF ord_trail[OF assms(1), of fwd], of mk "dir fwd" test "start_index fwd (length xs)"]
  by (auto simp: lrep_def)

lemma final_rev [simp]: "first (rev xs) a = final xs a"
  by (cases xs rule: rev_cases) auto

interpretation find: list_generator True "\<lambda>x. eq v x"
  "\<lambda>h l. map_option (\<lambda>r. (r, l)) (find_method eq h l v)" "resume_find_list eq"
  "\<lambda>p i. \<lparr>FCurrent = p, FIndex = i, FValue = v\<rparr>" for eq :: "'v fun2" and v
  by unfold_locales (rule read_start, auto simp: find_method_def resume_find_list_def)

interpretation rfind: list_generator False "\<lambda>x. eq v x"
  "\<lambda>h l. map_option (\<lambda>r. (r, l)) (rfind_method eq h l v)" "resume_rfind_list eq"
  "\<lambda>p i. \<lparr>FCurrent = p, FIndex = i, FValue = v\<rparr>" for eq :: "'v fun2" and v
  by unfold_locales (rule read_start, auto simp: rfind_method_def resume_rfind_list_def)

interpretation find_object: list_generator True "same_object v"
  "\<lambda>h l. map_option (\<lambda>r. (r, l)) (find_object_method h l v)" resume_find_object_list
  "\<lambda>p i. \<lparr>FCurrent = p, FIndex = i, FValue = v\<rparr>" for v :: 'v
  by unfold_locales (rule read_start, auto simp: find_object_method_def resume_find_object_list_def)

interpretation rfind_object: list_generator False "same_object v"
  "\<lambda>h l. map_option (\<lambda>r. (r, l)) (rfind_object_method h l v)" resume_rfind_object_list
  "\<lambda>p i. \<lparr>FCurrent = p, FIndex = i, FValue = v\<rparr>" for v :: 'v
  by unfold_locales (rule read_start, auto simp: rfind_object_method_def resume_rfind_object_list_def)

interpretation applied_find: list_generator True "applied_test eq fs v"
  "\<lambda>h l. map_option (\<lambda>r. (r, l)) (applied_find_method eq h l v fs)" "resume_applied_find_list eq"
  "\<lambda>p i. \<lparr>ACurrent = p, AIndex = i, AValue = v, AFunctions = fs\<rparr>" for eq :: "'v fun2" and fs v
  by unfold_locales (rule read_start, auto simp: applied_find_method_def resume_applied_find_list_def)

interpretation applied_rfind: list_generator False "applied_test eq fs v"
  "\<lambda>h l. map_option (\<lambda>r. (r, l)) (applied_rfind_method eq h l v fs)" "resume_applied_rfind_list eq"
  "\<lambda>p i. \<lparr>ACurrent = p, AIndex = i, AValue = v, AFunctions = fs\<rparr>" for eq :: "'v fun2" and fs v
  by unfold_locales (rule read_start, auto simp: applied_rfind_method_def resume_applied_rfind_list_def)

text \<open>The node and the index of a hit belong together, so caching them is right.\<close>

lemma hit_forward:
  "returned (scan_list 1 test (int (length us)) vs) = Some (p, i) \<Longrightarrow>
   \<exists>n. 1 \<le> n \<and> n \<le> length (us @ vs) \<and> i = int n \<and> p = fst ((us @ vs) ! (n - 1))"
proof (induction vs arbitrary: us)
  case (Cons x vs)
  show ?case
  proof (cases "test (snd x) = FAILURE")
    case True
    then show ?thesis using Cons.IH[of "us @ [x]"] Cons.prems by (simp add: ac_simps)
  next
    case False
    then have "i = int (length us) + 1" "p = fst x"
      using Cons.prems by (auto split: reply.splits if_splits)
    then show ?thesis by (intro exI[of _ "length us + 1"]) (simp add: nth_append)
  qed
qed simp

lemma hit_backward:
  "returned (scan_list (-1) test (int (length us) + 1) (rev us)) = Some (p, i) \<Longrightarrow>
   \<exists>n. 1 \<le> n \<and> n \<le> length (us @ vs) \<and> i = int n \<and> p = fst ((us @ vs) ! (n - 1))"
proof (induction us arbitrary: vs rule: rev_induct)
  case (snoc x us)
  show ?case
  proof (cases "test (snd x) = FAILURE")
    case True
    then show ?thesis using snoc.IH[of "x # vs"] snoc.prems by (simp add: ac_simps)
  next
    case False
    then have "i = int (length us) + 1" "p = fst x"
      using snoc.prems by (auto split: reply.splits if_splits)
    then show ?thesis by (intro exI[of _ "length us + 1"]) (simp add: nth_append)
  qed
qed simp

lemma hit_position:
  assumes "returned (scan_list (dir fwd) test (start_index fwd (length xs)) (ord fwd xs)) = Some (p, i)"
  shows "\<exists>n. 1 \<le> n \<and> n \<le> length xs \<and> i = int n \<and> p = fst (xs ! (n - 1))"
  using assms hit_forward[of test "[]" xs p i] hit_backward[of test xs p i "[]"]
  by (cases fwd) auto

lemma returned_map [simp]: "returned (map_reply f g k r) = map_option f (returned r)"
  by (cases r) auto

lemma cache_hit_returned:
  "cache_hit l r = (case returned r of None \<Rightarrow> l | Some (p, i) \<Rightarrow> l\<lparr>Index := ul i, Cache := p\<rparr>)"
  by (cases r) (auto simp: cache_hit_def split: prod.splits)

lemma caching_start:
  assumes "lrep h l xs" and "Head l = first xs 0 \<Longrightarrow> Tail l = final xs 0 \<Longrightarrow> Length l = length xs \<Longrightarrow>
    s = do { r \<leftarrow> scan (stepper fwd h) (dir fwd) test h (first (ord fwd xs) 0) (start_index fwd (length xs));
             Some (map_reply snd id (\<lambda>(p, i). mk p i) r, cache_hit l r) }"
  shows "\<exists>l'. s =
      Some (gen_reply mk (scan_list (dir fwd) test (start_index fwd (length xs)) (ord fwd xs)), l') \<and>
      lrep h l' xs \<and> Lock l' = Lock l"
proof -
  let ?s = "scan_list (dir fwd) test (start_index fwd (length xs)) (ord fwd xs)"
  let ?r = "map_reply id id (\<lambda>(ys, j). (first ys 0, j)) ?s"
  have sc: "scan (stepper fwd h) (dir fwd) test h (first (ord fwd xs) 0) (start_index fwd (length xs)) = Some ?r"
    by (rule scan_spec[OF ord_trail[OF assms(1)]])
  have L: "Head l = first xs 0" "Tail l = final xs 0" "Length l = length xs"
    using assms(1) by (simp_all add: lrep_def)
  have "lrep h (cache_hit l ?r) xs \<and> Lock (cache_hit l ?r) = Lock l"
  proof (cases "returned ?s")
    case None
    then show ?thesis using assms(1) by (simp add: cache_hit_returned)
  next
    case (Some q)
    obtain p i where q: "q = (p, i)" by (cases q)
    from hit_position[OF Some[unfolded q]] obtain n where
      n: "1 \<le> n" "n \<le> length xs" "i = int n" "p = fst (xs ! (n - 1))" by blast
    have "n < 4294967296" using n(2) lrep_length[OF assms(1)] by (simp add: max_nodes_def)
    then show ?thesis using Some q n lrep_cache_move[OF assms(1) n(1,2)]
      by (simp add: cache_hit_returned)
  qed
  moreover have "s = Some (gen_reply mk ?s, cache_hit l ?r)"
    using assms(2)[OF L] sc
    by (simp add: gen_reply_def reply.map_comp comp_def case_prod_unfold id_def)
  ultimately show ?thesis by blast
qed

interpretation where_pred: list_generator True f "\<lambda>h l. where_method h l f" resume_where_list
  "\<lambda>p i. \<lparr>WCurrent = p, WIndex = i, WTest = f\<rparr>" for f :: "'v fun1"
  by unfold_locales (rule caching_start, auto simp: where_method_def resume_where_list_def)

interpretation rwhere_pred: list_generator False f "\<lambda>h l. rwhere_method h l f" resume_rwhere_list
  "\<lambda>p i. \<lparr>WCurrent = p, WIndex = i, WTest = f\<rparr>" for f :: "'v fun1"
  by unfold_locales (rule caching_start, auto simp: rwhere_method_def resume_rwhere_list_def)

interpretation where_value: list_generator True "where_test eq f v"
  "\<lambda>h l. where_value_method eq h l f v" "resume_where_value_list eq"
  "\<lambda>p i. \<lparr>VCurrent = p, VIndex = i, VTest = f, VValue = v\<rparr>" for eq :: "'v fun2" and f v
  by unfold_locales (rule caching_start, auto simp: where_value_method_def resume_where_value_list_def)

text \<open>
  The eighth generator keeps the contract only for an equality that never sends a message:
  \<open>quiet eq\<close> turns messages into failures, which the first call of \<^verbatim>\<open>rwhere\<close> does by mistake.
\<close>

definition quiet :: "'v fun2 \<Rightarrow> 'v fun2" where
  "quiet eq x y = (case eq x y of MESSAGE m \<Rightarrow> FAILURE | r \<Rightarrow> r)"

lemma rwhere_test_quiet: "rwhere_test eq f v = where_test (quiet eq) f v"
  by (rule ext) (simp add: rwhere_test_def where_test_def quiet_def split: reply.splits)

interpretation rwhere_value: list_generator False "where_test (quiet eq) f v"
  "\<lambda>h l. rwhere_value_method eq h l f v" "resume_rwhere_value_list (quiet eq)"
  "\<lambda>p i. \<lparr>VCurrent = p, VIndex = i, VTest = f, VValue = v\<rparr>" for eq :: "'v fun2" and f v
  by unfold_locales (rule caching_start,
      auto simp: rwhere_value_method_def resume_rwhere_value_list_def rwhere_test_quiet)

section \<open>Binary search\<close>

text \<open>
  \<open>sorted_for ords cmp v xs a b\<close>: compared with \<open>v\<close>, the values before position \<open>a\<close> (from 0) are
  less, those from \<open>a\<close> to \<open>b\<close> equal, those from \<open>b\<close> on greater.
\<close>

definition sorted_for :: "'v ordering \<Rightarrow> 'v fun2 \<Rightarrow> 'v \<Rightarrow> (ptr \<times> 'v) list \<Rightarrow> nat \<Rightarrow> nat \<Rightarrow> bool" where
  "sorted_for ords cmp v xs a b \<longleftrightarrow> a \<le> b \<and> b \<le> length xs \<and>
     distinct [Less ords, Equal ords, Greater ords] \<and>
     (\<forall>j < length xs. returned (cmp (snd (xs ! j)) v) =
        Some (if j < a then Less ords else if j < b then Equal ords else Greater ords))"

lemma bsearch_step:
  assumes "heap_ok h" and "chain (Nodes h) 0 xs 0" and "sorted_for ords cmp v xs a b"
    and "lo \<le> hi" and "hi < length xs" and "length xs < 2147483648"
  shows "bsearch_loop ords failed cmp h (map fst xs) v lo hi =
    (let mid = (lo + hi) div 2 in
     if mid < a then bsearch_loop ords failed cmp h (map fst xs) v (Suc mid) hi
     else if mid < b then Some (SUCCESS (xs ! mid))
     else bsearch_loop ords failed cmp h (map fst xs) v lo (dec32 mid))"
proof -
  let ?m = "(lo + hi) div 2"
  have m: "u32 (lo + hi) = lo + hi" "?m < length xs" "?m < 4294967295" using assms(4-6) by auto
  have v: "get_value h (fst (xs ! ?m)) = Some (snd (xs ! ?m))"
    using chain_nth[OF assms(2) m(2)] assms(1) by (simp add: get_value_def)
  have c: "returned (cmp (snd (xs ! ?m)) v) =
      Some (if ?m < a then Less ords else if ?m < b then Equal ords else Greater ords)"
    and d: "distinct [Less ords, Equal ords, Greater ords]"
    using assms(3) m(2) by (auto simp: sorted_for_def)
  have d': "Less ords \<noteq> Equal ords" "Greater ords \<noteq> Equal ords" "Greater ords \<noteq> Less ords"
    using d by auto
  show ?thesis
    using assms(4) m v c d' by (subst bsearch_loop.simps) (simp add: Let_def)
qed

lemma bsearch_found:
  assumes "heap_ok h" and "chain (Nodes h) 0 xs 0" and "sorted_for ords cmp v xs a b"
    and "length xs < 2147483648" and "a < b"
    and "lo \<le> a" and "b \<le> Suc hi" and "hi < length xs"
  shows "\<exists>j. a \<le> j \<and> j < b \<and> bsearch_loop ords failed cmp h (map fst xs) v lo hi = Some (SUCCESS (xs ! j))"
  using assms(6-8)
proof (induction "hi - lo" arbitrary: lo hi rule: less_induct)
  case less
  let ?m = "(lo + hi) div 2"
  have le: "lo \<le> hi" using less.prems assms(5) by simp
  note s = bsearch_step[OF assms(1-3) le less.prems(3) assms(4)]
  consider "?m < a" | "a \<le> ?m" "?m < b" | "b \<le> ?m" by linarith
  then show ?case
  proof cases
    case 1
    then have "hi - Suc ?m < hi - lo" "Suc ?m \<le> a" using less.prems assms(5) by auto
    from less.hyps[OF this less.prems(2,3)] show ?thesis using s[of failed] 1 by (simp add: Let_def)
  next
    case 2
    then show ?thesis using s[of failed] by (intro exI[of _ ?m]) (simp add: Let_def)
  next
    case 3
    then obtain k where k: "?m = Suc k" using assms(5) by (cases ?m) auto
    then have "k - lo < hi - lo" "b \<le> Suc k" "k < length xs"
      using 3 less.prems le assms(5) by linarith+
    from less.hyps[OF this(1) less.prems(1) this(2,3)] show ?thesis
      using s[of failed] 3 k assms(5) by (simp add: Let_def)
  qed
qed

lemma bsearch_absent:
  assumes "heap_ok h" and "chain (Nodes h) 0 xs 0" and "sorted_for ords cmp v xs a a"
    and "length xs < 2147483648" and "0 < a"
    and "lo \<le> a" and "a \<le> Suc hi" and "hi < length xs"
  shows "bsearch_loop ords failed cmp h (map fst xs) v lo hi = Some FAILURE"
  using assms(6-8)
proof (induction "Suc hi - lo" arbitrary: lo hi rule: less_induct)
  case less
  let ?m = "(lo + hi) div 2"
  show ?case
  proof (cases "lo \<le> hi")
    case False
    then show ?thesis by (subst bsearch_loop.simps) simp
  next
    case True
    note s = bsearch_step[OF assms(1-3) True less.prems(3) assms(4)]
    show ?thesis
    proof (cases "?m < a")
      case True
      then have "Suc hi - Suc ?m < Suc hi - lo" "Suc ?m \<le> a" using less.prems \<open>lo \<le> hi\<close> by auto
      from less.hyps[OF this less.prems(2,3)] show ?thesis using s[of failed] True by (simp add: Let_def)
    next
      case False
      then obtain k where k: "?m = Suc k" using assms(5) by (cases ?m) auto
      then have "Suc k - lo < Suc hi - lo" "a \<le> Suc k" "k < length xs"
        using False less.prems \<open>lo \<le> hi\<close> by linarith+
      from less.hyps[OF this(1) less.prems(1) this(2,3)] show ?thesis
        using s[of failed] False k by (simp add: Let_def)
    qed
  qed
qed

text \<open>
  When \<open>v\<close> comes before every value, \<^verbatim>\<open>Max\<close> wraps around to \<^verbatim>\<open>SIZE_MAX\<close> and the next access is out
  of the array.
\<close>

lemma bsearch_wrapped:
  assumes "length xs < 2147483648"
  shows "bsearch_loop ords failed cmp h (map fst xs) v 0 (2 ^ 32 - 1) = None"
  using assms by (subst bsearch_loop.simps) (simp add: Let_def)

lemma bsearch_below:
  assumes "heap_ok h" and "chain (Nodes h) 0 xs 0" and "sorted_for ords cmp v xs 0 0"
    and "length xs < 2147483648" and "hi < length xs"
  shows "bsearch_loop ords failed cmp h (map fst xs) v 0 hi = None"
  using assms(5)
proof (induction hi rule: less_induct)
  case (less hi)
  note s = bsearch_step[OF assms(1-3) _ less.prems assms(4), of 0 failed]
  show ?case
  proof (cases "hi div 2")
    case 0
    then show ?thesis using s bsearch_wrapped[OF assms(4), of ords failed cmp h v] by (simp add: Let_def)
  next
    case (Suc k)
    then have "k < hi" by linarith
    then show ?thesis using s less.IH[of k] less.prems Suc by (simp add: Let_def)
  qed
qed

lemma bsearch_method_spec:
  assumes "lrep h l xs" and "sorted_for ords cmp v xs a b"
  shows "\<exists>l'. lrep h l' xs \<and> Lock l' = Lock l \<and>
    (if a < b then \<exists>j. a \<le> j \<and> j < b \<and> bsearch_method ords failed cmp h l v = Some (SUCCESS (xs ! j), l')
     else if 0 < a then bsearch_method ords failed cmp h l v = Some (FAILURE, l')
     else bsearch_method ords failed cmp h l v = None)"
proof -
  from build_index_array_spec[OF assms(1)] obtain l' where
    l': "build_index_array h l = Some l'" "lrep h l' xs" "Array l' = Some (map fst xs)"
      "Lock l' = Lock l" by blast
  have L: "heap_ok h" "chain (Nodes h) 0 xs 0" "Length l' = length xs" "length xs < 2147483648"
    using l'(2) lrep_length[OF l'(2)] by (auto simp: lrep_def max_nodes_def)
  have un: "bsearch_method ords failed cmp h l v =
      map_option (\<lambda>r. (r, l')) (bsearch_loop ords failed cmp h (map fst xs) v 0 (dec32 (length xs)))"
    using l' L(3) by (cases "bsearch_loop ords failed cmp h (map fst xs) v 0 (dec32 (length xs))")
      (simp_all add: bsearch_method_def)
  have ab: "a \<le> b" "b \<le> length xs" using assms(2) by (auto simp: sorted_for_def)
  consider "a < b" | "a = b" "0 < a" | "a = b" "a = 0" "xs = []" | "a = b" "a = 0" "xs \<noteq> []"
    using ab(1) by linarith
  then show ?thesis
  proof cases
    case 1
    then have "0 < length xs" using ab by linarith
    then have "b \<le> Suc (dec32 (length xs))" "dec32 (length xs) < length xs"
      using ab by (simp_all add: dec32_pos)
    from bsearch_found[OF L(1,2) assms(2) L(4) 1 _ this] un 1 show ?thesis using l'(2,4) by auto
  next
    case 2
    then have "0 < length xs" using ab by linarith
    then have "a \<le> Suc (dec32 (length xs))" "dec32 (length xs) < length xs"
      using ab 2 by (simp_all add: dec32_pos)
    from bsearch_absent[OF L(1,2) assms(2)[folded 2(1)] L(4) 2(2) _ this] un 2 show ?thesis
      using l'(2,4) by auto
  next
    case 3
    then show ?thesis using un l'(2,4) bsearch_wrapped[of "[]" ords failed cmp h v] by auto
  next
    case 4
    have "dec32 (length xs) < length xs" using 4 by (simp add: dec32_pos)
    from bsearch_below[OF L(1,2) _ L(4) this] assms(2) 4 have
      "bsearch_loop ords failed cmp h (map fst xs) v 0 (dec32 (length xs)) = None" by auto
    then show ?thesis using un l'(2,4) 4 by auto
  qed
qed

section \<open>Properties\<close>

text \<open>The 1-based positions whose values pass the test, in increasing order.\<close>

definition positions :: "'v fun1 \<Rightarrow> (ptr \<times> 'v) list \<Rightarrow> int list" where
  "positions test xs = map (\<lambda>j. int j + 1) (filter (\<lambda>j. picks test (snd (xs ! j))) [0..<length xs])"

lemma positions_forward:
  "\<forall>x \<in> set xs. \<not> sent test (snd x) \<Longrightarrow> all_hits 1 test 0 xs = (positions test xs, None)"
  using all_hits_forward[of xs test 0] by (simp add: positions_def ac_simps)

lemma positions_snoc:
  "positions test (xs @ [x]) = positions test xs @ (if picks test (snd x) then [int (length xs) + 1] else [])"
proof -
  have "filter (\<lambda>j. picks test (snd ((xs @ [x]) ! j))) [0..<length xs] =
    filter (\<lambda>j. picks test (snd (xs ! j))) [0..<length xs]"
    by (rule filter_cong) (simp_all add: nth_append)
  then show ?thesis by (simp add: positions_def)
qed

lemma positions_backward:
  "\<forall>x \<in> set xs. \<not> sent test (snd x) \<Longrightarrow>
   all_hits (-1) test (int (length xs) + 1) (rev xs) = (rev (positions test xs), None)"
proof (induction xs rule: rev_induct)
  case Nil
  then show ?case by (simp add: positions_def)
next
  case (snoc x xs)
  then show ?case by (cases "test (snd x)") (auto simp: positions_snoc ac_simps)
qed

lemma positions_all:
  "\<forall>x \<in> set xs. \<not> sent test (snd x) \<Longrightarrow>
   all_hits (dir fwd) test (start_index fwd (length xs)) (ord fwd xs) = (ord fwd (positions test xs), None)"
  by (cases fwd) (simp_all add: positions_forward positions_backward)



text \<open>
  The variants of \<^verbatim>\<open>find\<close> and \<^verbatim>\<open>rfind\<close> that apply functions generate the positions at which
  the value that the functions make, one applied after the other, equals the one sought; a
  value on which a function fails is skipped.
\<close>

theorem list_applied_find_correct:
  assumes "rep h l xs" and "\<forall>x \<in> set xs. \<not> sent (applied_test eq fs v) (snd x)"
  shows "(\<exists>r. applied_find_method eq h l v fs = Some r \<and>
      drain (resume_applied_find_list eq h) r = Some (positions (applied_test eq fs v) xs, None)) \<and>
    (\<exists>r. applied_rfind_method eq h l v fs = Some r \<and>
      drain (resume_applied_rfind_list eq h) r = Some (rev (positions (applied_test eq fs v) xs), None))"
proof -
  have r: "lrep h l xs" using assms(1) by (simp add: rep_def)
  show ?thesis
    using applied_find.generates[OF r, of eq v fs] applied_rfind.generates[OF r, of eq v fs]
      positions_forward[OF assms(2)] positions_backward[OF assms(2)]
    by auto
qed

lemma list_applied_find_correct_witness:
  "\<exists>r. applied_rfind_method (\<lambda>a b. if a = b then SUCCESS a else FAILURE) sample_heap sample_list 5
       [\<lambda>x. SUCCESS (x div 2)] = Some r"
  using list_applied_find_correct[OF sample_rep, of "\<lambda>a b. if a = b then SUCCESS a else FAILURE"
      "[\<lambda>x. SUCCESS (x div 2)]" 5]
  by (auto simp: applied_test_def)

text \<open>
  \<^verbatim>\<open>where\<close> and \<^verbatim>\<open>rwhere\<close> generate the positions whose values satisfy the predicate (or whose
  results equal the given value), in increasing and decreasing order; making the first hit the
  cached node keeps the list well-formed.
\<close>

theorem list_where_correct:
  assumes "rep h l xs" and "\<forall>x \<in> set xs. \<not> sent f (snd x)"
    and "\<forall>x \<in> set xs. \<not> sent (where_test eq f v) (snd x)"
  shows "(\<exists>r l'. where_method h l f = Some (r, l') \<and> rep h l' xs \<and>
      drain (resume_where_list h) r = Some (positions f xs, None)) \<and>
    (\<exists>r l'. rwhere_method h l f = Some (r, l') \<and> rep h l' xs \<and>
      drain (resume_rwhere_list h) r = Some (rev (positions f xs), None)) \<and>
    (\<exists>r l'. where_value_method eq h l f v = Some (r, l') \<and> rep h l' xs \<and>
      drain (resume_where_value_list eq h) r = Some (positions (where_test eq f v) xs, None))"
proof -
  have r: "lrep h l xs" and L: "Lock l = 0" using assms(1) by (auto simp: rep_def)
  show ?thesis unfolding rep_def
    using where_pred.generates[OF r, of f] rwhere_pred.generates[OF r, of f]
      where_value.generates[OF r, of eq f v] positions_forward[OF assms(2)] positions_backward[OF assms(2)]
      positions_forward[OF assms(3)] L
    by fastforce
qed

lemma list_where_correct_witness:
  "\<exists>r l'. where_method sample_heap sample_list (\<lambda>x. if x < 25 then SUCCESS x else FAILURE) = Some (r, l') \<and>
     rep sample_heap l' sample_nodes \<and>
     drain (resume_where_list sample_heap) r = Some ([1, 2], None)"
proof -
  have e: "positions (\<lambda>x. if x < 25 then SUCCESS x else FAILURE) sample_nodes = [1, 2]"
    by (simp add: positions_def upt_rec)
  show ?thesis
    using list_where_correct[OF sample_rep, of "\<lambda>x. if x < 25 then SUCCESS x else FAILURE" "\<lambda>a b. FAILURE" 0]
    unfolding e by (auto simp: where_test_def)
qed

text \<open>
  a message from the equality is passed on by \<^verbatim>\<open>where\<close> with a value, but \<^verbatim>\<open>rwhere\<close> with a value
  takes it for a failure and goes on to the next value.
\<close>

theorem list_rwhere_swallows:
  assumes "rep h l [x]" and "f (snd x) = SUCCESS r" and "eq r v = MESSAGE m"
  shows "where_value_method eq h l f v = Some (MESSAGE m, l) \<and>
    rwhere_value_method eq h l f v = Some (FAILURE, l)"
proof -
  have "trail (get_next h) h [x]" "trail (get_prev h) h (rev [x])"
    using ord_trail[of h l "[x]" True] ord_trail[of h l "[x]" False] assms(1) by (auto simp: rep_def)
  then have s: "scan (get_next h) 1 t h (fst x) 0 = Some (map_reply id id (\<lambda>(ys, j). (first ys 0, j)) (scan_list 1 t 0 [x]))"
    "scan (get_prev h) (-1) t h (fst x) 2 = Some (map_reply id id (\<lambda>(ys, j). (first ys 0, j)) (scan_list (-1) t 2 [x]))" for t
    using scan_spec[of "get_next h" h "[x]" 1 t 0] scan_spec[of "get_prev h" h "[x]" "-1" t 2] by simp_all
  have "Head l = fst x" "Tail l = fst x" "Length l = 1" using assms(1) by (auto simp: rep_def lrep_def)
  then show ?thesis using s assms(2,3)
    by (simp add: where_value_method_def rwhere_value_method_def where_test_def rwhere_test_def cache_hit_def)
qed

lemma list_rwhere_swallows_witness:
  "\<exists>h l. rwhere_value_method (\<lambda>a b. MESSAGE 9) (h :: nat heap) l SUCCESS 1 = Some (FAILURE, l) \<and>
     where_value_method (\<lambda>a b. MESSAGE 9) h l SUCCESS 1 = Some (MESSAGE 9, l)"
proof -
  let ?h = "\<lparr>Nodes = [1 \<mapsto> \<lparr>Value = 5 :: nat, Next = 0, Prev = 0\<rparr>], Fresh = 2\<rparr>"
  let ?l = "zero_list\<lparr>Head := 1, Tail := 1, Cache := 1, Index := 1, Length := 1\<rparr>"
  have "rep ?h ?l [(1, 5)]"
    by (auto simp: rep_def lrep_def zero_list_def heap_ok_def max_nodes_def cache_ok_def split: if_splits)
  from list_rwhere_swallows[OF this, of SUCCESS 5 "\<lambda>a b. MESSAGE 9" 1 9] show ?thesis by auto
qed

text \<open>
  C8: \<^verbatim>\<open>bsearch\<close> on a list sorted for the value sought always ends; it returns an equal element
  if there is one and fails if there is none, except when the value comes before all elements
  (or the list is empty): then the upper bound wraps around and the search leaves the array.
\<close>

theorem list_bsearch_correct:
  assumes "rep h l xs" and "sorted_for ords cmp v xs a b"
  shows "\<exists>l'. rep h l' xs \<and>
    (if a < b then \<exists>j. a \<le> j \<and> j < b \<and> bsearch_method ords failed cmp h l v = Some (SUCCESS (xs ! j), l')
     else if 0 < a then bsearch_method ords failed cmp h l v = Some (FAILURE, l')
     else bsearch_method ords failed cmp h l v = None)"
  using bsearch_method_spec[of h l xs ords cmp v a b failed] assms unfolding rep_def by auto

definition nat_ords :: "nat ordering" where
  "nat_ords = \<lparr>Less = 0, Equal = 1, Greater = 2\<rparr>"

definition nat_cmp :: "nat fun2" where
  "nat_cmp a b = SUCCESS (if a < b then 0 else if a = b then 1 else 2)"

lemma list_bsearch_correct_witness:
  "(\<exists>l'. rep sample_heap l' sample_nodes \<and>
     bsearch_method nat_ords 99 nat_cmp sample_heap sample_list 30 = Some (SUCCESS (3, 30), l')) \<and>
   bsearch_method nat_ords 99 nat_cmp sample_heap sample_list 5 = None"
proof -
  have 1: "sorted_for nat_ords nat_cmp 30 sample_nodes 2 3"
    by (auto simp: sorted_for_def nat_ords_def nat_cmp_def less_Suc_eq numeral_eq_Suc)
  have 2: "sorted_for nat_ords nat_cmp 5 sample_nodes 0 0"
    by (auto simp: sorted_for_def nat_ords_def nat_cmp_def less_Suc_eq numeral_eq_Suc)
  have j: "2 \<le> j \<and> j < 3 \<longleftrightarrow> j = (2 :: nat)" for j by auto
  from list_bsearch_correct[OF sample_rep 1, of 99] list_bsearch_correct[OF sample_rep 2, of 99]
  show ?thesis by (auto simp: j conj_assoc[symmetric])
qed

text \<open>
  \<^verbatim>\<open>value in list\<close> returns the value if some element equals it before a comparison sends a
  message, passes such a message on, and fails otherwise.
\<close>

theorem list_in_correct:
  assumes "rep h l xs"
  shows "in_method eq h v l = Some
    (case filter (\<lambda>x. eq v (snd x) \<noteq> FAILURE) xs of
       [] \<Rightarrow> FAILURE
     | x # _ \<Rightarrow> (case eq v (snd x) of MESSAGE m \<Rightarrow> MESSAGE m | _ \<Rightarrow> SUCCESS v))"
proof -
  have "trail (get_next h) h xs" "Head l = first xs 0"
    using ord_trail[of h l xs True] assms by (auto simp: rep_def lrep_def)
  moreover have e: "map_reply (\<lambda>_. v) id (\<lambda>_. ())
      (case map_reply id id (\<lambda>(ys, j). (first ys 0, j)) (scan_list 1 (eq v) i xs) of
         SUSPEND a _ \<Rightarrow> SUCCESS a | r \<Rightarrow> r) =
    (case filter (\<lambda>x. eq v (snd x) \<noteq> FAILURE) xs of
       [] \<Rightarrow> FAILURE
     | x # _ \<Rightarrow> (case eq v (snd x) of MESSAGE m \<Rightarrow> MESSAGE m | _ \<Rightarrow> SUCCESS v))" for i
    by (induction xs arbitrary: i) (auto split: reply.splits)
  ultimately show ?thesis using scan_spec[of "get_next h" h xs 1 "eq v" 0] e[of 0]
    by (cases "scan_list 1 (eq v) 0 xs") (simp_all add: in_method_def)
qed

lemma list_in_correct_witness:
  "in_method (\<lambda>a b. if a = b then SUCCESS a else FAILURE) sample_heap 20 sample_list = Some (SUCCESS 20)"
  using list_in_correct[OF sample_rep, of "\<lambda>a b. if a = b then SUCCESS a else FAILURE" 20] by simp

end
