(* ===== verification/ListRemove.thy ===== *)
theory ListRemove
  imports ListFind
begin

text \<open>
  Removal by value in \<^verbatim>\<open>dev/src/lib/Agg/List.c\<close>: \<^verbatim>\<open>remove\<close>, \<^verbatim>\<open>remove\<close> with functions,
  \<^verbatim>\<open>remove_object\<close> and the generator \<^verbatim>\<open>filter\<close>. They share the unlinking of a node wherever it
  stands in the list.
\<close>

section \<open>Definitions\<close>

definition remove_node :: "'v heap \<Rightarrow> lst \<Rightarrow> ptr \<Rightarrow> ('v \<times> 'v heap \<times> lst) option" where
  "remove_node h l node = do {
     n \<leftarrow> get_next h node;
     p \<leftarrow> get_prev h node;
     h \<leftarrow> set_next h p n;
     h \<leftarrow> set_prev h n p;
     v \<leftarrow> get_value h node;
     Some (v, h, l\<lparr>Length := dec32 (Length l), Index := 1, Cache := Head l, Array := None,
                   Access := 4\<rparr>) }"

text \<open>The four cases that each of the methods spells out.\<close>

definition unlink_node :: "'v heap \<Rightarrow> lst \<Rightarrow> ptr \<Rightarrow> ('v \<times> 'v heap \<times> lst) option" where
  "unlink_node h l node = do {
     n \<leftarrow> get_next h node;
     p \<leftarrow> get_prev h node;
     if n \<noteq> 0 then
       if p \<noteq> 0 then remove_node h l node
       else do {
         (h, l) \<leftarrow> unlink_first h l node;
         v \<leftarrow> get_value h node;
         Some (v, h, recache l) }
     else
       if p \<noteq> 0 then do {
         (h, l) \<leftarrow> unlink_last h l node;
         v \<leftarrow> get_value h node;
         Some (v, h, recache l) }
       else do {
         v \<leftarrow> get_value h node;
         Some (v, h, empty_fields l) } }"

text \<open>The search for the first node that passes the test, which is unlinked.\<close>

partial_function (option) remove_loop ::
  "('v \<Rightarrow> ('v, 'm, unit) reply) \<Rightarrow> 'v heap \<Rightarrow> lst \<Rightarrow> ptr \<Rightarrow>
   (('v, 'm, ptr) reply \<times> 'v heap \<times> lst) option" where
  "remove_loop test h l p =
     (if p = 0 then Some (FAILURE, h, l)
      else do {
        v \<leftarrow> get_value h p;
        case test v of
          FAILURE \<Rightarrow> do { q \<leftarrow> get_next h p; remove_loop test h l q }
        | MESSAGE m \<Rightarrow> Some (MESSAGE m, h, l)
        | _ \<Rightarrow> do {
            (v, h, l) \<leftarrow> unlink_node h l p;
            n \<leftarrow> get_next h p;
            Some (if n \<noteq> 0 then SUSPEND v n else SUCCESS v, h, l) } })"

definition first_only :: "('r, 'm, 'g) reply \<Rightarrow> ('r, 'm, unit) reply" where
  "first_only r = (case r of SUSPEND v _ \<Rightarrow> SUCCESS v | SUCCESS v \<Rightarrow> SUCCESS v
     | FAILURE \<Rightarrow> FAILURE | MESSAGE m \<Rightarrow> MESSAGE m)"

definition remove_method ::
  "'v fun2 \<Rightarrow> 'v heap \<Rightarrow> lst \<Rightarrow> 'v \<Rightarrow> (('v, 'v, unit) reply \<times> 'v heap \<times> lst) option" where
  "remove_method eq h l v = do {
     l \<leftarrow> wrlock l;
     (r, h, l) \<leftarrow> remove_loop (eq v) h l (Head l);
     l \<leftarrow> unlock l;
     Some (first_only r, h, l) }"

text \<open>
  With functions, the functions are called and may fail or send a message, but their result is
  not used: the comparison is with \<^verbatim>\<open>Node->Value\<close>. A message of a function (\<open>Inl\<close>) leaves the
  method without unlocking the list, one of the equality (\<open>Inr\<close>) does not.
\<close>

definition applied_remove_test ::
  "'v fun2 \<Rightarrow> 'v fun1 list \<Rightarrow> 'v \<Rightarrow> 'v \<Rightarrow> ('v, 'v + 'v, unit) reply" where
  "applied_remove_test eq fs v x =
     (case apply_all fs x of
        FAILURE \<Rightarrow> FAILURE
      | MESSAGE m \<Rightarrow> MESSAGE (Inl m)
      | _ \<Rightarrow> map_reply id Inr id (eq v x))"

definition applied_remove_method ::
  "'v fun2 \<Rightarrow> 'v fun1 list \<Rightarrow> 'v heap \<Rightarrow> lst \<Rightarrow> 'v \<Rightarrow>
   (('v, 'v, unit) reply \<times> 'v heap \<times> lst) option" where
  "applied_remove_method eq fs h l v = do {
     l \<leftarrow> wrlock l;
     (r, h, l) \<leftarrow> remove_loop (applied_remove_test eq fs v) h l (Head l);
     case first_only r of
       MESSAGE (Inl m) \<Rightarrow> Some (MESSAGE m, h, l)
     | MESSAGE (Inr m) \<Rightarrow> do { l \<leftarrow> unlock l; Some (MESSAGE m, h, l) }
     | SUCCESS x \<Rightarrow> do { l \<leftarrow> unlock l; Some (SUCCESS x, h, l) }
     | _ \<Rightarrow> do { l \<leftarrow> unlock l; Some (FAILURE, h, l) } }"

definition remove_object_method ::
  "'v heap \<Rightarrow> lst \<Rightarrow> 'v \<Rightarrow> (('v, 'v, unit) reply \<times> 'v heap \<times> lst) option" where
  "remove_object_method h l v = do {
     l \<leftarrow> wrlock l;
     (r, h, l) \<leftarrow> remove_loop (same_object v) h l (Head l);
     l \<leftarrow> unlock l;
     Some (first_only r, h, l) }"

text \<open>The generator of \<^verbatim>\<open>filter\<close> also names the list, which the model passes along.\<close>

record 'v filter_generator =
  GCurrent :: ptr
  GFunction :: "'v fun1"

definition resume_filter_list ::
  "'v heap \<Rightarrow> lst \<Rightarrow> 'v filter_generator \<Rightarrow>
   (('v, 'v, 'v filter_generator) reply \<times> 'v heap \<times> lst) option" where
  "resume_filter_list h l g = do {
     l \<leftarrow> wrlock l;
     (r, h, l) \<leftarrow> remove_loop (GFunction g) h l (GCurrent g);
     l \<leftarrow> unlock l;
     Some (map_reply id id (\<lambda>n. g\<lparr>GCurrent := n\<rparr>) r, h, l) }"

definition filter_method ::
  "'v heap \<Rightarrow> lst \<Rightarrow> 'v fun1 \<Rightarrow> (('v, 'v, 'v filter_generator) reply \<times> 'v heap \<times> lst) option" where
  "filter_method h l f = do {
     l \<leftarrow> wrlock l;
     (r, h, l) \<leftarrow> remove_loop f h l (Head l);
     l \<leftarrow> unlock l;
     Some (map_reply id id (\<lambda>n. \<lparr>GCurrent = n, GFunction = f\<rparr>) r, h, l) }"

section \<open>Unlinking a node\<close>

lemma remove_node_spec:
  assumes "lbase h l (as @ x # bs)" and "as \<noteq> []" and "bs \<noteq> []"
  obtains h' l' where "remove_node h l (fst x) = Some (snd x, h', l')"
    and "lrep h' l' (as @ bs)" and "Lock l' = Lock l" and "Array l' = None"
    and "get_next h' (fst x) = Some (first bs 0)" and "frame h h' (fst ` set (as @ x # bs))"
    and "Fresh h' = Fresh h"
proof -
  have ok: "heap_ok h" "chain (Nodes h) 0 (as @ x # bs) 0" "distinct (map fst (as @ x # bs))"
    and L: "Length l = Suc (length as + length bs)" "Head l = first as 0" "Tail l = final bs 0"
    using assms first_nonempty[of as] final_nonempty[of bs]
    by (auto simp: lbase_def final_Cons)
  from bypass[OF ok assms(2,3)] obtain h1 h' where
    b: "get_next h (fst x) = Some (first bs 0)" "get_prev h (fst x) = Some (final as 0)"
      "set_next h (final as 0) (first bs 0) = Some h1"
      "set_prev h1 (first bs 0) (final as 0) = Some h'"
      "chain (Nodes h') 0 (as @ bs) 0" "heap_ok h'" "Fresh h' = Fresh h"
      "Nodes h' (fst x) = Nodes h (fst x)" "frame h h' {final as 0, first bs 0}" by blast
  have len: "length as + length bs < 4294967295"
    using lbase_length[OF assms(1)] by (simp add: max_nodes_def)
  let ?l = "l\<lparr>Length := length as + length bs, Index := 1, Cache := Head l, Array := None, Access := 4\<rparr>"
  show ?thesis
  proof (rule that[of h' ?l])
    have "get_value h' (fst x) = Some (snd x)" using b ok by (simp add: get_value_def)
    then show "remove_node h l (fst x) = Some (snd x, h', ?l)"
      using b L len by (simp add: remove_node_def)
    show "lrep h' ?l (as @ bs)"
      by (rule lrep_reset) (use b ok L assms(2,3) first_nonempty[of as] final_nonempty[of bs] in auto)
    show "get_next h' (fst x) = Some (first bs 0)" using b(1,6,8) ok by (simp add: get_next_def)
    show "frame h h' (fst ` set (as @ x # bs))"
      using b(9) final_in[OF assms(2), of 0] first_in[OF assms(3), of 0] by (auto simp: frame_def)
  qed (use b in simp_all)
qed

lemma unlink_node_spec:
  assumes "lbase h l (as @ x # bs)" and "as \<noteq> [] \<or> bs = [] \<or> window_open l"
  shows "\<exists>h' l'. unlink_node h l (fst x) = Some (snd x, h', l') \<and> lrep h' l' (as @ bs) \<and>
    Lock l' = Lock l \<and> get_next h' (fst x) = Some (first bs 0) \<and>
    frame h h' (fst ` set (as @ x # bs)) \<and> (Array l = None \<longrightarrow> Array l' = None) \<and> Fresh h' = Fresh h"
proof -
  have ok: "heap_ok h" and c: "chain (Nodes h) 0 as (fst x)" "chain (Nodes h) (final as 0) (x # bs) 0"
    using assms(1) by (auto simp: lbase_def)
  have nx: "get_next h (fst x) = Some (first bs 0)" "get_prev h (fst x) = Some (final as 0)"
    "get_value h (fst x) = Some (snd x)"
    using chain_get_next[OF ok c(2)] chain_get_prev[OF ok c(2)] chain_get_value[OF ok c(2)] by simp_all
  have cb: "chain (Nodes h) (fst x) bs 0" using c(2) by simp
  note z = final_null[OF ok c(1)] first_null[OF ok cb]
  consider "as \<noteq> []" "bs \<noteq> []" | "as = []" "bs \<noteq> []" | "as \<noteq> []" "bs = []" | "as = []" "bs = []" by blast
  then show ?thesis
  proof cases
    case 1
    from remove_node_spec[OF assms(1) 1] show ?thesis using nx z 1 by (fastforce simp: unlink_node_def)
  next
    case 2
    have b: "lbase h l (x # bs)" and w: "window_open l" using assms 2 by auto
    from unlink_first_spec[OF b] obtain h' l' where
      u: "unlink_first h l (fst x) = Some (h', l')" "window_open l \<Longrightarrow> lbase h' l' bs"
        "l' = shrink_front (l\<lparr>Head := first bs 0, Tail := final bs 0, Length := length bs\<rparr>)"
        "get_value h' (fst x) = Some (snd x)" "get_next h' (fst x) = Some (first bs 0)"
        "frame h h' (fst ` set (x # bs))" "Fresh h' = Fresh h" by blast
    have "unlink_node h l (fst x) = Some (snd x, h', recache l')"
      using nx z 2 u(1,4) by (simp add: unlink_node_def)
    moreover have "lrep h' (recache l') bs" using u(2)[OF w] by (rule recache_lrep)
    moreover have "Lock l' = Lock l" "Array l = None \<longrightarrow> Array l' = None" using u(3) by simp_all
    ultimately show ?thesis using u(5-7) 2 by simp
  next
    case 3
    have b: "lbase h l (as @ [x])" using assms 3 by simp
    from unlink_last_spec[OF b] obtain h' l' where
      u: "unlink_last h l (fst x) = Some (h', l')" "lbase h' l' as" "Lock l' = Lock l"
        "get_value h' (fst x) = Some (snd x)" "get_next h' (fst x) = Some 0"
        "frame h h' (fst ` set (as @ [x]))" "Fresh h' = Fresh h" by blast
    have "unlink_node h l (fst x) = Some (snd x, h', recache l')"
      using nx z 3 u(1,4) by (simp add: unlink_node_def)
    moreover have "lrep h' (recache l') as" using u(2) by (rule recache_lrep)
    moreover have "Array l = None \<longrightarrow> Array l' = None"
      using u(1) by (auto simp: unlink_last_def bind_Some_iff split: if_splits)
    ultimately show ?thesis using u(3,5-7) 3 by simp
  next
    case 4
    then show ?thesis using nx z ok
      by (auto simp: unlink_node_def empty_fields_def lrep_def cache_ok_def)
  qed
qed

section \<open>The removal loop\<close>

text \<open>What removal means for the nodes and values of a list.\<close>

fun remove_first ::
  "('v \<Rightarrow> ('v, 'm, unit) reply) \<Rightarrow> (ptr \<times> 'v) list \<Rightarrow> ('v, 'm, unit) reply \<times> (ptr \<times> 'v) list" where
  "remove_first test [] = (FAILURE, [])"
| "remove_first test (x # xs) =
     (case test (snd x) of
        FAILURE \<Rightarrow> (case remove_first test xs of (r, ys) \<Rightarrow> (r, x # ys))
      | MESSAGE m \<Rightarrow> (MESSAGE m, x # xs)
      | _ \<Rightarrow> (SUCCESS (snd x), xs))"

lemma remove_loop_null [simp]: "remove_loop test h l 0 = Some (FAILURE, h, l)"
  by (simp add: remove_loop.simps)

lemma remove_loop_skip:
  assumes "lbase h l (as @ x # bs)" and "test (snd x) = FAILURE"
  shows "remove_loop test h l (fst x) = remove_loop test h l (first bs 0)"
proof -
  have ok: "heap_ok h" and c: "chain (Nodes h) (final as 0) (x # bs) 0"
    using assms(1) by (auto simp: lbase_def)
  then have "fst x \<noteq> 0" using chain_nonnull[OF ok c] by auto
  with assms(2) chain_get_next[OF ok c] chain_get_value[OF ok c] show ?thesis
    by (subst remove_loop.simps) simp
qed

lemma remove_loop_message:
  assumes "lbase h l (as @ x # bs)" and "test (snd x) = MESSAGE m"
  shows "remove_loop test h l (fst x) = Some (MESSAGE m, h, l)"
proof -
  have ok: "heap_ok h" and c: "chain (Nodes h) (final as 0) (x # bs) 0"
    using assms(1) by (auto simp: lbase_def)
  then have "fst x \<noteq> 0" using chain_nonnull[OF ok c] by auto
  with assms(2) chain_get_value[OF ok c] show ?thesis by (subst remove_loop.simps) simp
qed

lemma remove_loop_hit:
  assumes "lbase h l (as @ x # bs)" and "returned (test (snd x)) \<noteq> None"
    and "as \<noteq> [] \<or> bs = [] \<or> window_open l"
  shows "\<exists>h' l'. remove_loop test h l (fst x) =
      Some (if bs = [] then SUCCESS (snd x) else SUSPEND (snd x) (first bs 0), h', l') \<and>
    lrep h' l' (as @ bs) \<and> Lock l' = Lock l \<and> frame h h' (fst ` set (as @ x # bs)) \<and>
    (Array l = None \<longrightarrow> Array l' = None) \<and> Fresh h' = Fresh h"
proof -
  have ok: "heap_ok h" and c: "chain (Nodes h) (final as 0) (x # bs) 0"
    using assms(1) by (auto simp: lbase_def)
  then have nz: "fst x \<noteq> 0" using chain_nonnull[OF ok c] by auto
  from unlink_node_spec[OF assms(1,3)] obtain h' l' where u: "unlink_node h l (fst x) = Some (snd x, h', l')"
    "lrep h' l' (as @ bs)" "Lock l' = Lock l" "get_next h' (fst x) = Some (first bs 0)"
    "frame h h' (fst ` set (as @ x # bs))" "Array l = None \<longrightarrow> Array l' = None" "Fresh h' = Fresh h"
    by (elim exE conjE)
  have "chain (Nodes h) (fst x) bs 0" using c by simp
  then have "first bs 0 = 0 \<longleftrightarrow> bs = []" by (rule first_null[OF ok])
  with u(1,4) nz assms(2) chain_get_value[OF ok c] have "remove_loop test h l (fst x) =
      Some (if bs = [] then SUCCESS (snd x) else SUSPEND (snd x) (first bs 0), h', l')"
    by (subst remove_loop.simps) (cases "test (snd x)"; simp)
  with u show ?thesis by (intro exI[of _ h'] exI[of _ l'] conjI)
qed

text \<open>Where the first of several nodes is unlinked, an index array is given up or its \<^verbatim>\<open>Upper\<close> is decremented.\<close>

lemma remove_loop_upper:
  assumes "lbase h l (x # bs)" and "returned (test (snd x)) \<noteq> None" and "bs \<noteq> []" and "window_open l"
    and "remove_loop test h l (fst x) = Some (r, h', l')"
  shows "Array l' = None \<or> Array l \<noteq> None \<and> Upper l' = Upper l - 1"
proof -
  have ok: "heap_ok h" and c: "chain (Nodes h) 0 (x # bs) 0"
    using assms(1) by (auto simp: lbase_def)
  then have nz: "fst x \<noteq> 0" using chain_nonnull[OF ok c] by auto
  have "chain (Nodes h) (fst x) bs 0" using c by simp
  then have f: "first bs 0 \<noteq> 0" using first_null[OF ok] assms(3) by blast
  note g = chain_get_next[OF ok c] chain_get_prev[OF ok c] chain_get_value[OF ok c]
  from unlink_first_spec[OF assms(1)] obtain h1 l1 where
    u: "unlink_first h l (fst x) = Some (h1, l1)" "get_value h1 (fst x) = Some (snd x)" "get_next h1 (fst x) = Some (first bs 0)"
      "l1 = shrink_front (l\<lparr>Head := first bs 0, Tail := final bs 0, Length := length bs\<rparr>)" by blast
  have "unlink_node h l (fst x) = Some (snd x, h1, recache l1)"
    using g f u(1,2) by (simp add: unlink_node_def)
  then have "l' = recache l1"
    using assms(2,5) nz g u(3) f by (subst (asm) remove_loop.simps) (cases "test (snd x)"; simp)
  moreover have "Array (recache l1) = Array l1" "Upper (recache l1) = Upper l1" by (simp_all add: recache_def)
  moreover have "Array l1 = None \<or> Array l \<noteq> None \<and> Upper l1 = Upper l - 1"
    using assms(4) u(4) by (cases "Array l") (auto simp: shrink_front_def window_open_def Let_def dec32_pos)
  ultimately show ?thesis by simp
qed

lemma remove_loop_first:
  assumes "lrep h l (as @ xs)" and "window_open l"
  shows "\<exists>r h' l'. remove_loop test h l (first xs 0) = Some (r, h', l') \<and>
    first_only r = fst (remove_first test xs) \<and> lrep h' l' (as @ snd (remove_first test xs)) \<and>
    Lock l' = Lock l \<and> frame h h' (fst ` set (as @ xs))"
  using assms
proof (induction xs arbitrary: as)
  case Nil
  then show ?case by (simp add: first_only_def)
next
  case (Cons x xs)
  note b = lrep_lbase[OF Cons.prems(1)]
  show ?case
  proof (cases "returned (test (snd x))")
    case None
    then consider "test (snd x) = FAILURE" | m where "test (snd x) = MESSAGE m"
      by (cases "test (snd x)") auto
    then show ?thesis
    proof cases
      case 1
      with Cons.IH[of "as @ [x]"] Cons.prems show ?thesis
        by (simp add: remove_loop_skip[where as = as and x = x and bs = xs, OF b] case_prod_unfold)
    next
      case 2
      with Cons.prems show ?thesis by (simp add: remove_loop_message[OF b] first_only_def)
    qed
  next
    case (Some v)
    then have r: "remove_first test (x # xs) = (SUCCESS (snd x), xs)"
      by (cases "test (snd x)") simp_all
    from Some have p: "returned (test (snd x)) \<noteq> None" by simp
    from remove_loop_hit[where test = test, OF b p] Cons.prems(2) obtain h' l' where
      "remove_loop test h l (fst x) =
         Some (if xs = [] then SUCCESS (snd x) else SUSPEND (snd x) (first xs 0), h', l')"
      "lrep h' l' (as @ xs)" "Lock l' = Lock l" "frame h h' (fst ` set (as @ x # xs))" by blast
    then show ?thesis unfolding r
      by (intro exI[of _ "if xs = [] then SUCCESS (snd x) else SUSPEND (snd x) (first xs 0)"]
            exI[of _ h'] exI[of _ l']) (simp add: first_only_def)
  qed
qed

lemma locked_removal:
  assumes "rep h l xs" and "window_open l"
  obtains r h' l' where "remove_loop test h (l\<lparr>Lock := -1\<rparr>) (Head l) = Some (r, h', l')"
    and "first_only r = fst (remove_first test xs)" and "Lock l' = -1"
    and "lrep h' l' (snd (remove_first test xs))" and "frame h h' (fst ` set xs)"
proof -
  have "lrep h (l\<lparr>Lock := -1\<rparr>) ([] @ xs)" "Head l = first xs 0" using assms(1) by (auto simp: rep_def lrep_def)
  with remove_loop_first[of h "l\<lparr>Lock := -1\<rparr>" "[]" xs test] assms(2) that show ?thesis by auto
qed

section \<open>remove\<close>

lemma remove_method_spec:
  assumes "rep h l xs" and "window_open l"
  shows "\<exists>h' l'. remove_method eq h l v = Some (fst (remove_first (eq v) xs), h', l') \<and>
    rep h' l' (snd (remove_first (eq v) xs)) \<and> frame h h' (fst ` set xs)"
proof -
  from locked_removal[OF assms, of "eq v"] obtain r h' l' where
    "remove_loop (eq v) h (l\<lparr>Lock := -1\<rparr>) (Head l) = Some (r, h', l')"
    "first_only r = fst (remove_first (eq v) xs)" "Lock l' = -1"
    "lrep h' l' (snd (remove_first (eq v) xs))" "frame h h' (fst ` set xs)" .
  with assms(1) show ?thesis
    by (intro exI[of _ h'] exI[of _ "l'\<lparr>Lock := 0\<rparr>"]) (simp add: remove_method_def rep_def)
qed

lemma remove_object_method_spec:
  assumes "rep h l xs" and "window_open l"
  shows "\<exists>h' l'. remove_object_method h l v = Some (fst (remove_first (same_object v) xs), h', l') \<and>
    rep h' l' (snd (remove_first (same_object v) xs)) \<and> frame h h' (fst ` set xs)"
proof -
  from locked_removal[OF assms, of "same_object v"] obtain r :: "('a, 'a, ptr) reply" and h' l' where
    "remove_loop (same_object v) h (l\<lparr>Lock := -1\<rparr>) (Head l) = Some (r, h', l')"
    "first_only r = fst (remove_first (same_object v) xs)" "Lock l' = -1"
    "lrep h' l' (snd (remove_first (same_object v) xs))" "frame h h' (fst ` set xs)" .
  with assms(1) show ?thesis
    by (intro exI[of _ h'] exI[of _ "l'\<lparr>Lock := 0\<rparr>"]) (simp add: remove_object_method_def rep_def)
qed

lemma remove_first_object:
  "map snd (snd (remove_first (same_object v) xs)) = remove1 v (map snd xs)"
  "fst (remove_first (same_object v) xs) = (if v \<in> set (map snd xs) then SUCCESS v else FAILURE)"
  by (induction xs) (auto simp: same_object_def case_prod_unfold)

text \<open>With functions: what is left of the list, and whether the lock is.\<close>

lemma applied_remove_method_spec:
  assumes "rep h l xs" and "window_open l"
  shows "\<exists>h' l'. applied_remove_method eq fs h l v =
      Some (map_reply id (case_sum id id) id (fst (remove_first (applied_remove_test eq fs v) xs)), h', l') \<and>
    lrep h' l' (snd (remove_first (applied_remove_test eq fs v) xs)) \<and>
    Lock l' = (if \<exists>m. fst (remove_first (applied_remove_test eq fs v) xs) = MESSAGE (Inl m) then -1 else 0)"
proof -
  let ?t = "applied_remove_test eq fs v"
  from locked_removal[OF assms, of ?t] obtain r h' l' where
    r: "remove_loop ?t h (l\<lparr>Lock := -1\<rparr>) (Head l) = Some (r, h', l')"
    "first_only r = fst (remove_first ?t xs)" "Lock l' = -1"
    "lrep h' l' (snd (remove_first ?t xs))" .
  show ?thesis
  proof (cases "\<exists>m. fst (remove_first ?t xs) = MESSAGE (Inl m)")
    case True
    with assms(1) r show ?thesis by (auto simp: applied_remove_method_def rep_def)
  next
    case False
    have "applied_remove_method eq fs h l v =
      Some (map_reply id (case_sum id id) id (fst (remove_first ?t xs)), h', l'\<lparr>Lock := 0\<rparr>)"
      using assms(1) r False
      by (cases "first_only r"; cases r)
        (auto simp: applied_remove_method_def rep_def first_only_def split: sum.splits)
    with r False show ?thesis by auto
  qed
qed

section \<open>filter\<close>

text \<open>
  A caller that resumes the generator of \<^verbatim>\<open>filter\<close> until it ends: the values it got, the message
  that ended it, if one did, and the memory and list it is left with.
\<close>

partial_function (option) drain_filter ::
  "'v heap \<Rightarrow> lst \<Rightarrow> ('v, 'v, 'v filter_generator) reply \<Rightarrow>
   ('v list \<times> 'v option \<times> 'v heap \<times> lst) option" where
  "drain_filter h l r =
     (case r of
        FAILURE \<Rightarrow> Some ([], None, h, l)
      | MESSAGE m \<Rightarrow> Some ([], Some m, h, l)
      | SUCCESS v \<Rightarrow> Some ([v], None, h, l)
      | SUSPEND v g \<Rightarrow> do {
          (r, h, l) \<leftarrow> resume_filter_list h l g;
          (vs, m, h, l) \<leftarrow> drain_filter h l r;
          Some (v # vs, m, h, l) })"

text \<open>What filtering means: the values taken, the nodes left and the message.\<close>

fun filtered ::
  "'v fun1 \<Rightarrow> (ptr \<times> 'v) list \<Rightarrow> 'v list \<times> (ptr \<times> 'v) list \<times> 'v option" where
  "filtered f [] = ([], [], None)"
| "filtered f (x # xs) =
     (case f (snd x) of
        FAILURE \<Rightarrow> (case filtered f xs of (vs, ys, m) \<Rightarrow> (vs, x # ys, m))
      | MESSAGE m \<Rightarrow> ([], x # xs, Some m)
      | _ \<Rightarrow> (case filtered f xs of (vs, ys, m) \<Rightarrow> (snd x # vs, ys, m)))"

lemma filtered_quiet:
  "\<forall>x \<in> set xs. \<not> sent f (snd x) \<Longrightarrow> filtered f xs =
     (map snd (filter (\<lambda>x. picks f (snd x)) xs), filter (\<lambda>x. \<not> picks f (snd x)) xs, None)"
proof (induction xs)
  case (Cons x xs)
  then show ?case by (cases "f (snd x)") auto
qed simp

definition filter_reply :: "'v fun1 \<Rightarrow> ('v, 'v, ptr) reply \<Rightarrow> ('v, 'v, 'v filter_generator) reply" where
  "filter_reply f = map_reply id id (\<lambda>n. \<lparr>GCurrent = n, GFunction = f\<rparr>)"

lemma filter_reply_simps [simp]:
  "filter_reply f FAILURE = FAILURE" "filter_reply f (MESSAGE m) = MESSAGE m"
  "filter_reply f (SUCCESS v) = SUCCESS v"
  "filter_reply f (SUSPEND v n) = SUSPEND v \<lparr>GCurrent = n, GFunction = f\<rparr>"
  by (simp_all add: filter_reply_def)

lemma resume_filter_locked:
  assumes "Lock l = 0" and "remove_loop f h (l\<lparr>Lock := -1\<rparr>) p = Some (r, h', l')" and "Lock l' = -1"
  shows "resume_filter_list h l \<lparr>GCurrent = p, GFunction = f\<rparr> = Some (filter_reply f r, h', l'\<lparr>Lock := 0\<rparr>)"
  using assms by (simp add: resume_filter_list_def filter_reply_def)

text \<open>The window of the index array lasts while the values at the front are taken.\<close>

definition window_lasts :: "'v fun1 \<Rightarrow> lst \<Rightarrow> (ptr \<times> 'v) list \<Rightarrow> bool" where
  "window_lasts f l xs \<longleftrightarrow> Array l = None \<or> length (takeWhile (\<lambda>x. picks f (snd x)) xs) \<le> Upper l"

lemma filter_rest:
  assumes "lrep h l (as @ xs)" and "Lock l = -1" and "as = [] \<Longrightarrow> window_lasts f l xs" and "filtered f xs = (vs, ys, m)"
  shows "\<exists>r h1 l1 h' l'. remove_loop f h l (first xs 0) = Some (r, h1, l1) \<and> Lock l1 = -1 \<and>
    drain_filter h1 (l1\<lparr>Lock := 0\<rparr>) (filter_reply f r) = Some (vs, m, h', l') \<and> rep h' l' (as @ ys) \<and>
    frame h h' (fst ` set (as @ xs))"
  using assms
proof (induction xs arbitrary: as h l vs ys)
  case Nil
  then show ?case
    by (intro exI[of _ FAILURE] exI[of _ h] exI[of _ l] exI[of _ h] exI[of _ "l\<lparr>Lock := 0\<rparr>"])
      (simp add: drain_filter.simps)
next
  case (Cons x xs)
  note b = lrep_lbase[OF Cons.prems(1)]
  show ?case
  proof (cases "returned (f (snd x))")
    case None
    then consider "f (snd x) = FAILURE" | m' where "f (snd x) = MESSAGE m'"
      by (cases "f (snd x)") auto
    then show ?thesis
    proof cases
      case 1
      with Cons.prems(4) obtain ys' where f: "filtered f xs = (vs, ys', m)" "ys = x # ys'"
        by (auto split: prod.splits)
      have "lrep h l ((as @ [x]) @ xs)" using Cons.prems(1) by simp
      from Cons.IH[OF this Cons.prems(2) _ f(1)] f(2) show ?thesis
        by (simp add: remove_loop_skip[where test = f and as = as and x = x and bs = xs, OF b 1])
    next
      case (2 m')
      with Cons.prems show ?thesis
        by (intro exI[of _ "MESSAGE m'"] exI[of _ h] exI[of _ l] exI[of _ h] exI[of _ "l\<lparr>Lock := 0\<rparr>"])
          (auto simp: drain_filter.simps remove_loop_message[OF b])
    qed
  next
    case (Some v)
    then have p: "returned (f (snd x)) \<noteq> None" by simp
    from Some Cons.prems(4) obtain vs' where f: "filtered f xs = (vs', ys, m)" "vs = snd x # vs'"
      by (cases "f (snd x)") (auto split: prod.splits)
    let ?r = "if xs = [] then SUCCESS (snd x) else SUSPEND (snd x) (first xs 0)"
    have w: "as = [] \<Longrightarrow> window_open l" using Cons.prems(3) p by (auto simp: window_open_def window_lasts_def)
    with remove_loop_hit[where test = f, OF b p] Cons.prems(2) obtain h1 l1 where
      u: "remove_loop f h l (fst x) = Some (?r, h1, l1)" "lrep h1 l1 (as @ xs)" "Lock l1 = -1"
      "frame h h1 (fst ` set (as @ x # xs))" "Fresh h1 = Fresh h" by metis
    have w1: "window_lasts f l1 xs" if a: "as = []"
    proof (cases "xs = []")
      case False
      then have "Array l1 = None \<or> Array l \<noteq> None \<and> Upper l1 = Upper l - 1"
        using remove_loop_upper[where test = f, of h l x xs] b p w u(1) a by simp
      then show ?thesis using Cons.prems(3)[OF a] p w[OF a] u(1) by (auto simp: window_lasts_def window_open_def)
    qed (simp add: window_lasts_def)
    from Cons.IH[OF u(2,3) w1 f(1)] obtain r h2 l2 h' l' where
      s: "remove_loop f h1 l1 (first xs 0) = Some (r, h2, l2)" "Lock l2 = -1"
        "drain_filter h2 (l2\<lparr>Lock := 0\<rparr>) (filter_reply f r) = Some (vs', m, h', l')" "rep h' l' (as @ ys)"
        "frame h1 h' (fst ` set (as @ xs))" by blast
    have l1: "l1\<lparr>Lock := -1\<rparr> = l1" using u(3) by (cases l1) simp
    have "drain_filter h1 (l1\<lparr>Lock := 0\<rparr>) (filter_reply f ?r) = Some (vs, m, h', l')"
    proof (cases "xs = []")
      case True
      with s f show ?thesis by (auto simp: drain_filter.simps)
    next
      case False
      have "resume_filter_list h1 (l1\<lparr>Lock := 0\<rparr>) \<lparr>GCurrent = first xs 0, GFunction = f\<rparr> =
          Some (filter_reply f r, h2, l2\<lparr>Lock := 0\<rparr>)"
        by (rule resume_filter_locked) (use s(1,2) l1 in simp_all)
      with False s(3) f(2) show ?thesis by (subst drain_filter.simps) simp
    qed
    moreover have "frame h h' (fst ` set (as @ x # xs))"
      using u(4) s(5) by (rule frame_step) auto
    ultimately show ?thesis using u(1,3) s(4)
      by (intro exI[of _ ?r] exI[of _ h1] exI[of _ l1] exI[of _ h'] exI[of _ l']) simp
  qed
qed

lemma filter_method_spec:
  assumes "rep h l xs" and "window_lasts f l xs" and "filtered f xs = (vs, ys, m)"
  shows "\<exists>r h1 l1 h' l'. filter_method h l f = Some (r, h1, l1) \<and>
    drain_filter h1 l1 r = Some (vs, m, h', l') \<and> rep h' l' ys \<and> frame h h' (fst ` set xs)"
proof -
  have "lrep h (l\<lparr>Lock := -1\<rparr>) ([] @ xs)" "Head l = first xs 0" "Lock l = 0"
    using assms(1) by (auto simp: rep_def lrep_def)
  with filter_rest[where f = f, OF this(1) _ _ assms(3)] assms(2)[unfolded window_lasts_def] show ?thesis
    by (auto simp: filter_method_def filter_reply_def window_lasts_def)
qed

section \<open>Properties\<close>

text \<open>
  C9: \<^verbatim>\<open>remove\<close> takes the first element equal to the value out of the list, passes on the message
  of a comparison with the list as it was, and fails otherwise; \<^verbatim>\<open>remove_object\<close> removes the first
  occurrence of the object itself. Both leave a well-formed, unlocked list, provided that the
  index array's \<^verbatim>\<open>Upper\<close>, if there is an array, is not 0.
\<close>

theorem list_remove_correct:
  assumes "rep h l xs" and "window_open l"
  shows "(\<exists>h' l'. remove_method eq h l v = Some (fst (remove_first (eq v) xs), h', l') \<and>
      rep h' l' (snd (remove_first (eq v) xs)) \<and> frame h h' (fst ` set xs)) \<and>
    (\<exists>h' l' ys. remove_object_method h l v =
        Some (if v \<in> set (map snd xs) then SUCCESS v else FAILURE, h', l') \<and>
      rep h' l' ys \<and> map snd ys = remove1 v (map snd xs) \<and> frame h h' (fst ` set xs))"
proof -
  from remove_object_method_spec[OF assms, of v] show ?thesis
    unfolding remove_first_object using remove_method_spec[OF assms] remove_first_object(1)[of v xs] by blast
qed

lemma list_remove_correct_witness:
  "(\<exists>h' l'. remove_method same_object sample_heap sample_list 20 = Some (SUCCESS 20, h', l') \<and>
      rep h' l' [(1, 10), (3, 30)]) \<and>
   (\<exists>h' l' ys. remove_object_method sample_heap sample_list 40 = Some (FAILURE, h', l') \<and>
      rep h' l' ys \<and> map snd ys = [10, 20, 30])"
proof -
  have w: "window_open sample_list" by (simp add: window_open_def)
  have f: "fst (remove_first (same_object (20::nat)) sample_nodes) = SUCCESS 20"
    "snd (remove_first (same_object (20::nat)) sample_nodes) = [(1, 10), (3, 30)]"
    by (simp_all add: same_object_def)
  have g: "(if (40::nat) \<in> set (map snd sample_nodes) then SUCCESS 40 else FAILURE) = FAILURE"
    "remove1 40 (map snd sample_nodes) = [10, 20, 30]" by simp_all
  show ?thesis
    using conjunct1[OF list_remove_correct[OF sample_rep w, of same_object 20]]
      conjunct2[OF list_remove_correct[OF sample_rep w, of same_object 40]] unfolding f g by metis
qed

text \<open>
  \<^verbatim>\<open>remove\<close> with functions calls the functions on each element but compares the element itself
  with the value, not the result of the functions; and when a function sends a message, the list
  stays locked by the writer, so that every later operation on it waits for ever.
\<close>

theorem list_applied_remove_flawed:
  assumes "rep h l ((p, x) # xs)"
  shows "(f x = MESSAGE m \<longrightarrow> (\<exists>l'. applied_remove_method eq (f # fs) h l v = Some (MESSAGE m, h, l') \<and>
      applied_remove_method eq gs h l' w = None \<and> remove_method eq h l' w = None)) \<and>
    (f x = SUCCESS v \<longrightarrow> v \<noteq> x \<longrightarrow> applied_remove_test same_object [f] v x = FAILURE)"
proof (intro conjI impI)
  assume m: "f x = MESSAGE m"
  have l: "Lock l = 0" "Head l = p" "lrep h l ([] @ (p, x) # xs)" using assms by (auto simp: rep_def lrep_def)
  have "lbase h (l\<lparr>Lock := -1\<rparr>) ([] @ (p, x) # xs)" using l(3) by (simp only: lbase_Lock lrep_base)
  from remove_loop_message[OF this, of "applied_remove_test eq (f # fs) v" "Inl m"] m l
  have "applied_remove_method eq (f # fs) h l v = Some (MESSAGE m, h, l\<lparr>Lock := -1\<rparr>)"
    by (simp add: applied_remove_method_def applied_remove_test_def first_only_def)
  then show "\<exists>l'. applied_remove_method eq (f # fs) h l v = Some (MESSAGE m, h, l') \<and>
      applied_remove_method eq gs h l' w = None \<and> remove_method eq h l' w = None"
    by (auto simp: applied_remove_method_def remove_method_def wrlock_def)
next
  assume "f x = SUCCESS v" "v \<noteq> x"
  then show "applied_remove_test same_object [f] v x = FAILURE"
    by (simp add: applied_remove_test_def same_object_def)
qed

lemma list_applied_remove_flawed_witness:
  "(\<exists>l'. applied_remove_method same_object [\<lambda>x. MESSAGE 7] sample_heap sample_list 10 =
        Some (MESSAGE 7, sample_heap, l') \<and>
      applied_remove_method same_object [] sample_heap l' 10 = None \<and>
      remove_method same_object sample_heap l' 10 = None) \<and>
   applied_remove_test same_object [\<lambda>x. SUCCESS (x + 1)] 11 (10 :: nat) = FAILURE"
proof -
  have r: "rep sample_heap sample_list ((1, 10) # [(2, 20), (3, 30)])" by (rule sample_rep)
  show ?thesis
    using list_applied_remove_flawed[OF r, of "\<lambda>x. MESSAGE 7" 7 same_object "[]" 10 "[]" 10]
      list_applied_remove_flawed[OF r, of "\<lambda>x. SUCCESS (x + 1)" _ _ _ 11] by auto
qed

text \<open>
  C10: A caller that resumes \<^verbatim>\<open>filter\<close> to the end gets exactly the values on which the function
  succeeds, in order, and is left with a well-formed list of the others, in order; when the
  function sends a message, the elements from there on stay. If there is an index array, its \<^verbatim>\<open>Upper\<close>, which
  each removal of the first element decrements, must be at least the number of values taken from the front.
\<close>

theorem list_filter_correct:
  assumes "rep h l xs" and "Array l = None \<or> length (takeWhile (\<lambda>x. picks f (snd x)) xs) \<le> Upper l"
    and "filtered f xs = (vs, ys, m)"
  shows "\<exists>r h1 l1 h' l'. filter_method h l f = Some (r, h1, l1) \<and>
    drain_filter h1 l1 r = Some (vs, m, h', l') \<and> rep h' l' ys \<and> frame h h' (fst ` set xs) \<and>
    (m = None \<longrightarrow> vs = map snd (filter (\<lambda>x. picks f (snd x)) xs) \<and>
                  ys = filter (\<lambda>x. \<not> picks f (snd x)) xs)"
proof -
  have "m = None \<Longrightarrow> \<forall>x \<in> set xs. \<not> sent f (snd x)"
    using assms(3) by (induction xs arbitrary: vs ys) (auto split: reply.splits prod.splits)
  with filtered_quiet[of xs f] assms(3) have q: "m = None \<longrightarrow> vs = map snd (filter (\<lambda>x. picks f (snd x)) xs) \<and>
      ys = filter (\<lambda>x. \<not> picks f (snd x)) xs" by auto
  show ?thesis using filter_method_spec[OF assms(1) _ assms(3)] assms(2) q unfolding window_lasts_def by blast
qed

lemma list_filter_correct_witness:
  "\<exists>r h1 l1 h' l'. filter_method sample_heap sample_list (\<lambda>x. if x = 20 then FAILURE else SUCCESS x) =
      Some (r, h1, l1) \<and>
    drain_filter h1 l1 r = Some ([10, 30], None, h', l') \<and> rep h' l' [(2, 20)]"
proof -
  have "filtered (\<lambda>x. if x = 20 then FAILURE else SUCCESS x) sample_nodes = ([10, 30], [(2, 20)], None)"
    by simp
  from list_filter_correct[OF sample_rep disjI1[OF sample_fields(1)] this] show ?thesis by blast
qed

end
