(* ===== verification/ListCheck.thy ===== *)
theory ListCheck
  imports ListRemove
begin

text \<open>
  Whole-list reads of \<^verbatim>\<open>dev/src/lib/Agg/List.c\<close>: the internal checks \<^verbatim>\<open>_check\<close> and \<^verbatim>\<open>_validate\<close>,
  \<^verbatim>\<open>_cache\<close>, \<^verbatim>\<open>length\<close> and \<^verbatim>\<open>size\<close>, the hash \<^verbatim>\<open>#\<close>, the comparison \<^verbatim>\<open>?\<close>, the equalities \<^verbatim>\<open>=\<close> and
  \<^verbatim>\<open>[]=\<close>, and the conversions to a string.
\<close>

section \<open>Definitions\<close>

text \<open>\<^verbatim>\<open>_check\<close>, less its printing: it goes on after a wrong cell of the array.\<close>

function check_cells :: "'v heap \<Rightarrow> lst \<Rightarrow> nat \<Rightarrow> ptr \<Rightarrow> bool option" where
  "check_cells h l i node =
     (if i \<le> Upper l then do {
        p \<leftarrow> array_read l (i - Lower l);
        n \<leftarrow> get_next h node;
        ok \<leftarrow> check_cells h l (Suc i) n;
        Some (p = node \<and> ok) }
      else Some True)"
  by pat_completeness auto
termination by (relation "measure (\<lambda>(h, l, i, node). Suc (Upper l) - i)") auto

definition check_method :: "'v heap \<Rightarrow> lst \<Rightarrow> (unit, string, unit) reply option" where
  "check_method h l = do {
     cache \<leftarrow> (if 0 < Length l
        then do { p \<leftarrow> walk_next h (Head l) (Index l - 1); Some (p = Cache l) } else Some True);
     cells \<leftarrow> (if Array l = None then Some True
        else do { p \<leftarrow> walk_next h (Head l) (Lower l - 1); check_cells h l (Lower l) p });
     Some (if cache \<and> cells then SUCCESS () else MESSAGE ''List check error!'') }"

text \<open>
  \<^verbatim>\<open>_validate\<close>: \<open>slots\<close> are the cells before \<^verbatim>\<open>Slot\<close>, the last one first; \<open>nodes\<close> is the array of
  \<^verbatim>\<open>List->Length\<close> cells, zero behind the nodes of the list.
\<close>

fun validate_prev :: "'v heap \<Rightarrow> ptr list \<Rightarrow> ptr \<Rightarrow> bool option" where
  "validate_prev h [] p = (if p = 0 then Some True else None)"
| "validate_prev h (s # slots) p =
     (if p = 0 then Some True
      else if s \<noteq> p then Some False
      else do { q \<leftarrow> get_prev h p; validate_prev h slots q })"

definition cell :: "ptr list \<Rightarrow> nat \<Rightarrow> ptr option" where
  "cell a k = (if k < length a then Some (a ! k) else None)"

function validate_cells :: "lst \<Rightarrow> ptr list \<Rightarrow> nat \<Rightarrow> bool option" where
  "validate_cells l nodes i =
     (if i \<le> Upper l then do {
        p \<leftarrow> array_read l (i - Lower l);
        q \<leftarrow> cell nodes (i - 1);
        if p \<noteq> q then Some False else validate_cells l nodes (Suc i) }
      else Some True)"
  by pat_completeness auto
termination by (relation "measure (\<lambda>(l, nodes, i). Suc (Upper l) - i)") auto

definition validate_method :: "'v heap \<Rightarrow> lst \<Rightarrow> (unit, string, unit) reply option" where
  "validate_method h l = do {
     ps \<leftarrow> node_ptrs h (Head l);
     if Length l < length ps then None else do {
     let nodes = ps @ replicate (Length l - length ps) 0;
     links \<leftarrow> validate_prev h (rev ps) (Tail l);
     if \<not> links then Some (MESSAGE ''List pointers are broken internally!'') else do {
     cache \<leftarrow> (if Index l \<noteq> 0 then do { p \<leftarrow> cell nodes (Index l - 1); Some (p = Cache l) } else Some True);
     if \<not> cache then Some (MESSAGE ''List cache is broken internally!'') else do {
     cells \<leftarrow> (if Array l = None then Some True else validate_cells l nodes (Lower l));
     if \<not> cells then Some (MESSAGE ''List array is broken internally!'') else Some (SUCCESS ()) }}}}"

definition cache_method :: "lst \<Rightarrow> (nat, unit, unit) reply" where
  "cache_method l = SUCCESS (Index l)"

definition length_method :: "lst \<Rightarrow> ((nat, unit, unit) reply \<times> lst) option" where
  "length_method l = do { l \<leftarrow> rdlock l; l \<leftarrow> unlock l; Some (SUCCESS (Length l), l) }"

definition size_method :: "lst \<Rightarrow> ((nat, unit, unit) reply \<times> lst) option" where
  "size_method l = do { l \<leftarrow> rdlock l; l \<leftarrow> unlock l; Some (SUCCESS (Length l), l) }"

text \<open>
  The hash: \<^verbatim>\<open>Hash <<= 2; Hash ^= ...\<close> on \<^verbatim>\<open>int32_t\<close>. \<open>prior\<close> is what a cache given as an argument
  holds for this list.
\<close>

partial_function (option) hash_loop ::
  "('v \<Rightarrow> (32 word, 'm, unit) reply) \<Rightarrow> 'v heap \<Rightarrow> ptr \<Rightarrow> 32 word \<Rightarrow> (32 word, 'm, unit) reply option" where
  "hash_loop hash h p acc =
     (if p = 0 then Some (SUCCESS acc)
      else do {
        v \<leftarrow> get_value h p;
        case hash v of
          MESSAGE m \<Rightarrow> Some (MESSAGE m)
        | FAILURE \<Rightarrow> Some FAILURE
        | SUCCESS r \<Rightarrow> do { q \<leftarrow> get_next h p; hash_loop hash h q (Bit_Operations.xor (push_bit 2 acc) r) }
        | SUSPEND r _ \<Rightarrow> do { q \<leftarrow> get_next h p; hash_loop hash h q (Bit_Operations.xor (push_bit 2 acc) r) } })"

definition hash_method ::
  "('v \<Rightarrow> (32 word, 'm, unit) reply) \<Rightarrow> 'v heap \<Rightarrow> lst \<Rightarrow> 32 word option \<Rightarrow> (32 word, 'm, unit) reply option" where
  "hash_method hash h l prior =
     (case prior of
        Some r \<Rightarrow> Some (SUCCESS r)
      | None \<Rightarrow> hash_loop hash h (Head l) (of_nat (Length l)))"

text \<open>
  The comparison. The cache is an object table of object tables: for a list (here its address)
  and another one, the result of comparing them. It is handed to the comparison of the elements,
  which may add to it.
\<close>

type_synonym 'v compare_cache = "ptr \<Rightarrow> (ptr \<Rightarrow> 'v option) option"

partial_function (option) compare_loop ::
  "'v ordering \<Rightarrow> ('c \<Rightarrow> 'v \<Rightarrow> 'v \<Rightarrow> ('v, 'm, unit) reply \<times> 'c) \<Rightarrow> 'v heap \<Rightarrow> ptr \<Rightarrow> ptr \<Rightarrow> 'c \<Rightarrow>
   (('v, 'm, unit) reply \<times> 'c) option" where
  "compare_loop ords cmp h pa pb c =
     (if pa = 0 then Some (SUCCESS (if pb = 0 then Equal ords else Less ords), c)
      else if pb = 0 then Some (SUCCESS (Greater ords), c)
      else do {
        x \<leftarrow> get_value h pa;
        y \<leftarrow> get_value h pb;
        case returned (fst (cmp c x y)) of
          None \<Rightarrow> Some (cmp c x y)
        | Some r \<Rightarrow>
            (if r \<noteq> Equal ords then Some (SUCCESS r, snd (cmp c x y))
             else do {
               pa \<leftarrow> get_next h pa;
               pb \<leftarrow> get_next h pb;
               compare_loop ords cmp h pa pb (snd (cmp c x y)) }) })"

definition compare_prior :: "'v compare_cache option \<Rightarrow> ptr \<Rightarrow> ptr \<Rightarrow> 'v option" where
  "compare_prior cache a b =
     (case cache of None \<Rightarrow> None
      | Some c \<Rightarrow> (case c a of None \<Rightarrow> None | Some sub \<Rightarrow> sub b))"

definition sub_cache :: "'v compare_cache \<Rightarrow> ptr \<Rightarrow> ptr \<Rightarrow> 'v option" where
  "sub_cache c a = (case c a of None \<Rightarrow> Map.empty | Some sub \<Rightarrow> sub)"

definition compare_method ::
  "'v ordering \<Rightarrow> ('v compare_cache \<Rightarrow> 'v \<Rightarrow> 'v \<Rightarrow> ('v, 'm, unit) reply \<times> 'v compare_cache) \<Rightarrow>
   'v heap \<Rightarrow> ptr \<Rightarrow> lst \<Rightarrow> ptr \<Rightarrow> lst \<Rightarrow> 'v compare_cache option \<Rightarrow>
   (('v, 'm, unit) reply \<times> 'v compare_cache) option" where
  "compare_method ords cmp h a A b B cache =
     (let c = (case cache of None \<Rightarrow> Map.empty | Some c \<Rightarrow> c) in
      case compare_prior cache a b of
        Some r \<Rightarrow> Some (SUCCESS r, c)
      | None \<Rightarrow> do {
          (r, c) \<leftarrow> compare_loop ords cmp h (Head A) (Head B) (c(a \<mapsto> sub_cache c a));
          case r of
            SUCCESS x \<Rightarrow> Some (SUCCESS x, c(a \<mapsto> (sub_cache c a)(b \<mapsto> x)))
          | _ \<Rightarrow> Some (r, c) })"

text \<open>The equality: its cache holds, for a list, the list it is being compared with.\<close>

fun equal_loop ::
  "('c \<Rightarrow> 'v \<Rightarrow> 'v \<Rightarrow> ('v, 'm, unit) reply \<times> 'c) \<Rightarrow> 'v heap \<Rightarrow> nat \<Rightarrow> ptr \<Rightarrow> ptr \<Rightarrow> 'c \<Rightarrow>
   ((unit, 'm, unit) reply \<times> 'c) option" where
  "equal_loop eq h 0 pa pb c = Some (SUCCESS (), c)"
| "equal_loop eq h (Suc n) pa pb c = do {
     x \<leftarrow> get_value h pa;
     y \<leftarrow> get_value h pb;
     case eq c x y of
       (FAILURE, c) \<Rightarrow> Some (FAILURE, c)
     | (MESSAGE m, c) \<Rightarrow> Some (MESSAGE m, c)
     | (_, c) \<Rightarrow> do {
         pa \<leftarrow> get_next h pa;
         pb \<leftarrow> get_next h pb;
         equal_loop eq h n pa pb c } }"

definition equal_method ::
  "((ptr \<Rightarrow> ptr option) \<Rightarrow> 'v \<Rightarrow> 'v \<Rightarrow> ('v, 'm, unit) reply \<times> (ptr \<Rightarrow> ptr option)) \<Rightarrow>
   'v heap \<Rightarrow> ptr \<Rightarrow> lst \<Rightarrow> ptr \<Rightarrow> lst \<Rightarrow> (ptr \<Rightarrow> ptr option) \<Rightarrow>
   ((unit, 'm, unit) reply \<times> (ptr \<Rightarrow> ptr option)) option" where
  "equal_method eq h a A b B cache =
     (case cache a of
        Some p \<Rightarrow> Some (if p = b then SUCCESS () else FAILURE, cache)
      | None \<Rightarrow>
          (let cache = cache(a \<mapsto> b) in
           if Length A \<noteq> Length B then Some (FAILURE, cache)
           else if Length A = 0 then Some (SUCCESS (), cache(a \<mapsto> b))
           else equal_loop eq h (Length A) (Head A) (Head B) cache))"

text \<open>
  \<^verbatim>\<open>[]=\<close> compares a part of the list. It starts from an empty cache, and returns from a failed
  comparison without unlocking the list.
\<close>

definition sub_equal_method ::
  "((ptr \<Rightarrow> ptr option) \<Rightarrow> 'v \<Rightarrow> 'v \<Rightarrow> ('v, 'm, unit) reply \<times> (ptr \<Rightarrow> ptr option)) \<Rightarrow>
   'v heap \<Rightarrow> lst \<Rightarrow> int \<Rightarrow> int \<Rightarrow> lst \<Rightarrow> ((unit, 'm, unit) reply \<times> lst) option" where
  "sub_equal_method eq h l i j l2 = do {
     l \<leftarrow> rdlock l;
     let n = int (Length l);
     let i = resolve l i;
     if i < 1 \<or> n < i then do { l \<leftarrow> unlock l; Some (FAILURE, l) } else do {
     let j = resolve l j - 1;
     if j < 0 \<or> n < j then do { l \<leftarrow> unlock l; Some (FAILURE, l) } else
     if j < i then do {
       l \<leftarrow> unlock l;
       Some (if Length l2 = 0 then SUCCESS () else FAILURE, l) } else do {
     let len = j - i + 1;
     if ul len \<noteq> Length l2 then Some (FAILURE, l) else do {
     (p, l) \<leftarrow> find_node h l i;
     (r, _) \<leftarrow> equal_loop eq h (nat len) p (Head l2) Map.empty;
     case r of
       FAILURE \<Rightarrow> Some (FAILURE, l)
     | MESSAGE m \<Rightarrow> Some (MESSAGE m, l)
     | _ \<Rightarrow> do { l \<leftarrow> unlock l; Some (SUCCESS (), l) } }}}}"

text \<open>
  The conversions to a string; \<open>str\<close> is the conversion of an element, which may fail. The
  strings are ropes in the code, \<^verbatim>\<open>Std$String$add\<close> appends them.
\<close>

definition value_string :: "('v \<Rightarrow> (string, 'm, unit) reply) \<Rightarrow> 'v \<Rightarrow> string" where
  "value_string str v = (case returned (str v) of Some s \<Rightarrow> s | None \<Rightarrow> ''<value>'')"

partial_function (option) string_loop ::
  "('v \<Rightarrow> (string, 'm, unit) reply) \<Rightarrow> string \<Rightarrow> 'v heap \<Rightarrow> ptr \<Rightarrow> string \<Rightarrow> string option" where
  "string_loop str sep h p acc =
     (if p = 0 then Some acc
      else do {
        v \<leftarrow> get_value h p;
        q \<leftarrow> get_next h p;
        string_loop str sep h q (acc @ sep @ value_string str v) })"

definition string_of_method ::
  "('v \<Rightarrow> (string, 'm, unit) reply) \<Rightarrow> 'v heap \<Rightarrow> lst \<Rightarrow> (string \<times> lst) option" where
  "string_of_method str h l = do {
     let p = Head l;
     l \<leftarrow> rdlock l;
     if p \<noteq> 0 then do {
       v \<leftarrow> get_value h p;
       q \<leftarrow> get_next h p;
       s \<leftarrow> string_loop str '', '' h q (''['' @ value_string str v);
       l \<leftarrow> unlock l;
       Some (s @ '']'', l) }
     else do { l \<leftarrow> unlock l; Some (''[]'', l) } }"

definition string_sep_method ::
  "('v \<Rightarrow> (string, 'm, unit) reply) \<Rightarrow> string \<Rightarrow> 'v heap \<Rightarrow> lst \<Rightarrow> (string \<times> lst) option" where
  "string_sep_method str sep h l = do {
     let p = Head l;
     l \<leftarrow> rdlock l;
     if p \<noteq> 0 then do {
       v \<leftarrow> get_value h p;
       q \<leftarrow> get_next h p;
       s \<leftarrow> string_loop str sep h q (value_string str v);
       l \<leftarrow> unlock l;
       Some (s, l) }
     else do { l \<leftarrow> unlock l; Some ('''', l) } }"

section \<open>The checks\<close>

text \<open>\<open>linked h l xs\<close>: the links, ends and length of \<open>l\<close> are right, whatever its cache and array.\<close>

definition linked :: "'v heap \<Rightarrow> lst \<Rightarrow> (ptr \<times> 'v) list \<Rightarrow> bool" where
  "linked h l xs \<longleftrightarrow> heap_ok h \<and> chain (Nodes h) 0 xs 0 \<and> Head l = first xs 0 \<and>
     Tail l = final xs 0 \<and> Length l = length xs"

text \<open>\<open>readable l xs\<close>: the cached position and the window lie within the list and the array.\<close>

definition readable :: "lst \<Rightarrow> (ptr \<times> 'v) list \<Rightarrow> bool" where
  "readable l xs \<longleftrightarrow> Index l \<le> length xs \<and>
     (\<forall>a. Array l = Some a \<longrightarrow> 1 \<le> Lower l \<and> Lower l \<le> Suc (length xs) \<and> Upper l \<le> length xs \<and>
        Upper l < Lower l + length a)"

definition cells_ok :: "lst \<Rightarrow> (ptr \<times> 'v) list \<Rightarrow> nat \<Rightarrow> bool" where
  "cells_ok l xs i \<longleftrightarrow> (\<forall>k. i \<le> k \<and> k \<le> Upper l \<longrightarrow> array_read l (k - Lower l) = Some (fst (xs ! (k - 1))))"

lemma cells_ok_step:
  "i \<le> Upper l \<Longrightarrow> cells_ok l xs i \<longleftrightarrow>
     array_read l (i - Lower l) = Some (fst (xs ! (i - 1))) \<and> cells_ok l xs (Suc i)"
  unfolding cells_ok_def by (metis Suc_leD Suc_leI le_eq_less_or_eq le_refl)

lemma cells_ok_end: "Upper l < i \<Longrightarrow> cells_ok l xs i"
  by (auto simp: cells_ok_def)

lemma readable_cells:
  assumes "readable l xs" and "Array l = Some a"
  shows "cells_ok l xs (Lower l) \<longleftrightarrow> array_ok l xs"
proof -
  have "array_read l (k - Lower l) = Some (fst (xs ! (k - 1))) \<longleftrightarrow>
      k - Lower l < length a \<and> a ! (k - Lower l) = fst (xs ! (k - 1))" for k
    using assms(2) by (auto simp: array_read_def)
  with assms show ?thesis by (auto simp: cells_ok_def array_ok_def window_def readable_def)
qed

lemma readable_read:
  assumes "readable l xs" and "Array l = Some a" and "Lower l \<le> i" and "i \<le> Upper l"
  shows "array_read l (i - Lower l) = Some (a ! (i - Lower l))"
  using assms by (auto simp: array_read_def readable_def)

lemma walk_next_drop:
  assumes "heap_ok h"
  shows "chain (Nodes h) a xs 0 \<Longrightarrow> k \<le> length xs \<Longrightarrow>
    walk_next h (first xs 0) k = Some (first (drop k xs) 0)"
proof (induction k arbitrary: xs a)
  case (Suc k)
  then obtain x ys where xs: "xs = x # ys" by (cases xs) auto
  with Suc.prems Suc.IH[of "fst x" ys] chain_get_next[OF assms, of a x ys 0] show ?case by simp
qed simp

declare check_cells.simps [simp del] validate_cells.simps [simp del]

lemma check_cells_spec:
  assumes "heap_ok h" and "chain (Nodes h) 0 xs 0" and "readable l xs" and "Array l = Some a"
  shows "Lower l \<le> i \<Longrightarrow> i \<le> Suc (length xs) \<Longrightarrow>
    check_cells h l i (first (drop (i - 1) xs) 0) = Some (cells_ok l xs i)"
proof (induction "Suc (Upper l) - i" arbitrary: i)
  case 0
  then show ?case by (simp add: check_cells.simps cells_ok_end)
next
  case (Suc n)
  then have i: "i \<le> Upper l" by simp
  with Suc.prems assms(3,4) have b: "1 \<le> i" "i \<le> length xs" by (auto simp: readable_def)
  then obtain us x vs where s: "xs = us @ x # vs" "length us = i - 1" by (rule split_at)
  have c: "chain (Nodes h) (final us 0) (x # vs) 0" using assms(2) s by simp
  have d: "drop (i - 1) xs = x # vs" "drop (Suc i - 1) xs = vs" "xs ! (i - 1) = x"
    using s b by (auto simp: nth_append)
  have "check_cells h l (Suc i) (first vs 0) = Some (cells_ok l xs (Suc i))"
    using Suc.hyps(1)[of "Suc i"] Suc.hyps(2) Suc.prems b d(2) by simp
  with i d readable_read[OF assms(3,4) Suc.prems(1) i] chain_get_next[OF assms(1) c] show ?case
    by (subst check_cells.simps) (simp add: cells_ok_step[OF i])
qed

lemma validate_cells_spec:
  assumes "readable l xs" and "Array l = Some a"
  shows "Lower l \<le> i \<Longrightarrow> validate_cells l (map fst xs) i = Some (cells_ok l xs i)"
proof (induction "Suc (Upper l) - i" arbitrary: i)
  case 0
  then show ?case by (simp add: validate_cells.simps cells_ok_end)
next
  case (Suc n)
  then have i: "i \<le> Upper l" by simp
  with Suc.prems assms have b: "1 \<le> i" "i \<le> length xs" by (auto simp: readable_def)
  then have "cell (map fst xs) (i - 1) = Some (fst (xs ! (i - 1)))" by (simp add: cell_def)
  with i readable_read[OF assms Suc.prems i] Suc.hyps(1)[of "Suc i"] Suc.hyps(2) Suc.prems show ?case
    by (subst validate_cells.simps) (simp add: cells_ok_step[OF i])
qed

lemma validate_prev_spec:
  "heap_ok h \<Longrightarrow> chain (Nodes h) 0 xs b \<Longrightarrow> validate_prev h (rev (map fst xs)) (final xs 0) = Some True"
proof (induction xs arbitrary: b rule: rev_induct)
  case (snoc x xs)
  have c: "chain (Nodes h) (final xs 0) [x] b" and d: "chain (Nodes h) 0 xs (fst x)"
    using snoc.prems(2) by simp_all
  have "fst x \<noteq> 0" using chain_nonnull[OF snoc.prems] by auto
  with chain_get_prev[OF snoc.prems(1) c] snoc.IH[OF snoc.prems(1) d] show ?case by simp
qed simp

lemma validate_prev_null [simp]: "validate_prev h ps 0 = Some True"
  by (cases ps) simp_all

lemma check_method_spec:
  assumes "linked h l xs" and "readable l xs"
  shows "check_method h l =
    Some (if (xs = [] \<or> Cache l = fst (xs ! (Index l - 1))) \<and> array_ok l xs then SUCCESS ()
          else MESSAGE ''List check error!'')"
proof -
  have ok: "heap_ok h" "chain (Nodes h) 0 xs 0" and L: "Head l = first xs 0" "Length l = length xs"
    using assms(1) by (auto simp: linked_def)
  have i: "Index l - 1 < length xs" if "xs \<noteq> []"
  proof -
    have "Index l \<le> length xs" "0 < length xs" using assms(2) that by (auto simp: readable_def)
    then show ?thesis by linarith
  qed
  have c: "(if 0 < Length l then do { p \<leftarrow> walk_next h (Head l) (Index l - 1); Some (p = Cache l) } else Some True) =
      Some (xs = [] \<or> Cache l = fst (xs ! (Index l - 1)))"
    using walk_next_drop[OF ok, of "Index l - 1"] i L
    by (cases "xs = []") (auto simp: first_nth)
  have d: "(if Array l = None then Some True
        else do { p \<leftarrow> walk_next h (Head l) (Lower l - 1); check_cells h l (Lower l) p }) = Some (array_ok l xs)"
  proof (cases "Array l")
    case (Some a)
    then have w: "Lower l \<le> Suc (length xs)" using assms(2) by (auto simp: readable_def)
    with walk_next_drop[OF ok, of "Lower l - 1"] check_cells_spec[OF ok assms(2) Some le_refl w]
      readable_cells[OF assms(2) Some] L(1) Some show ?thesis by simp
  qed simp
  show ?thesis unfolding check_method_def c d by simp
qed

lemma validate_method_links:
  assumes "linked h l xs" and "readable l xs" and "T = final xs 0 \<or> T = 0"
  shows "validate_method h (l\<lparr>Tail := T\<rparr>) =
    Some (if Index l \<noteq> 0 \<and> Cache l \<noteq> fst (xs ! (Index l - 1)) then MESSAGE ''List cache is broken internally!''
          else if \<not> array_ok l xs then MESSAGE ''List array is broken internally!'' else SUCCESS ())"
proof -
  have ok: "heap_ok h" "chain (Nodes h) 0 xs 0" and L: "Head l = first xs 0" "Length l = length xs"
    using assms(1) by (auto simp: linked_def)
  have ps: "node_ptrs h (Head l) = Some (map fst xs)" using node_ptrs_spec[OF ok] L by simp
  have v: "validate_prev h (rev (map fst xs)) T = Some True"
    using validate_prev_spec[OF ok] assms(3) by auto
  have c: "Index l \<noteq> 0 \<Longrightarrow> cell (map fst xs) (Index l - 1) = Some (fst (xs ! (Index l - 1)))"
    using assms(2) by (auto simp: cell_def readable_def)
  have d: "(if Array l = None then Some True else validate_cells (l\<lparr>Tail := T\<rparr>) (map fst xs) (Lower l)) =
      Some (array_ok l xs)"
  proof (cases "Array l")
    case (Some a)
    let ?l = "l\<lparr>Tail := T\<rparr>"
    have r: "readable ?l xs" "Array ?l = Some a" using assms(2) Some by (auto simp: readable_def)
    have "array_ok ?l xs = array_ok l xs" by (simp add: array_ok_def)
    with validate_cells_spec[OF r, of "Lower l"] readable_cells[OF r] Some show ?thesis by simp
  qed simp
  show ?thesis using ps v c d L
    by (cases "Index l = 0"; cases "Array l") (simp_all add: validate_method_def Let_def)
qed

section \<open>Hash, comparison, equality, string\<close>

fun hash_list ::
  "('v \<Rightarrow> (32 word, 'm, unit) reply) \<Rightarrow> 32 word \<Rightarrow> 'v list \<Rightarrow> (32 word, 'm, unit) reply" where
  "hash_list hash acc [] = SUCCESS acc"
| "hash_list hash acc (v # vs) =
     (case hash v of
        MESSAGE m \<Rightarrow> MESSAGE m
      | FAILURE \<Rightarrow> FAILURE
      | SUCCESS r \<Rightarrow> hash_list hash (Bit_Operations.xor (push_bit 2 acc) r) vs
      | SUSPEND r _ \<Rightarrow> hash_list hash (Bit_Operations.xor (push_bit 2 acc) r) vs)"

fun lex_compare ::
  "'v ordering \<Rightarrow> ('c \<Rightarrow> 'v \<Rightarrow> 'v \<Rightarrow> ('v, 'm, unit) reply \<times> 'c) \<Rightarrow> 'c \<Rightarrow> 'v list \<Rightarrow> 'v list \<Rightarrow>
   ('v, 'm, unit) reply \<times> 'c" where
  "lex_compare ords cmp c [] [] = (SUCCESS (Equal ords), c)"
| "lex_compare ords cmp c [] (w # ws) = (SUCCESS (Less ords), c)"
| "lex_compare ords cmp c (v # vs) [] = (SUCCESS (Greater ords), c)"
| "lex_compare ords cmp c (v # vs) (w # ws) =
     (case returned (fst (cmp c v w)) of
        None \<Rightarrow> cmp c v w
      | Some r \<Rightarrow> if r \<noteq> Equal ords then (SUCCESS r, snd (cmp c v w))
                 else lex_compare ords cmp (snd (cmp c v w)) vs ws)"

fun all_equal ::
  "('c \<Rightarrow> 'v \<Rightarrow> 'v \<Rightarrow> ('v, 'm, unit) reply \<times> 'c) \<Rightarrow> 'c \<Rightarrow> ('v \<times> 'v) list \<Rightarrow> (unit, 'm, unit) reply \<times> 'c" where
  "all_equal eq c [] = (SUCCESS (), c)"
| "all_equal eq c ((v, w) # vws) =
     (case eq c v w of
        (FAILURE, c) \<Rightarrow> (FAILURE, c)
      | (MESSAGE m, c) \<Rightarrow> (MESSAGE m, c)
      | (_, c) \<Rightarrow> all_equal eq c vws)"

fun join :: "string \<Rightarrow> string list \<Rightarrow> string" where
  "join sep [] = ''''"
| "join sep [s] = s"
| "join sep (s # ss) = s @ sep @ join sep ss"

lemma lrep_trail: "lrep h l xs \<Longrightarrow> trail (get_next h) h xs"
  using trail_next[of h 0 xs] by (simp add: lrep_def)

lemma hash_loop_spec:
  "trail (get_next h) h xs \<Longrightarrow> hash_loop hash h (first xs 0) acc = Some (hash_list hash acc (map snd xs))"
proof (induction xs arbitrary: acc)
  case Nil
  then show ?case by (simp add: hash_loop.simps)
next
  case (Cons x xs)
  then show ?case by (subst hash_loop.simps) (cases "hash (snd x)"; simp)
qed

lemma hash_list_success:
  "\<forall>v \<in> set vs. hash v = SUCCESS (f v) \<Longrightarrow>
   hash_list hash acc vs = SUCCESS (foldl (\<lambda>a v. Bit_Operations.xor (push_bit 2 a) (f v)) acc vs)"
  by (induction vs arbitrary: acc) auto

lemma hash_method_spec:
  "rep h l xs \<Longrightarrow> hash_method hash h l None = Some (hash_list hash (of_nat (length xs)) (map snd xs))"
  using lrep_trail[of h l xs] hash_loop_spec[of h xs hash] by (simp add: hash_method_def rep_def lrep_def)

lemma compare_loop_spec:
  "trail (get_next h) h xs \<Longrightarrow> trail (get_next h) h ys \<Longrightarrow>
   compare_loop ords cmp h (first xs 0) (first ys 0) c = Some (lex_compare ords cmp c (map snd xs) (map snd ys))"
proof (induction xs arbitrary: ys c)
  case Nil
  then show ?case by (cases ys) (auto simp: compare_loop.simps)
next
  case (Cons x xs)
  show ?case
  proof (cases ys)
    case Nil
    with Cons.prems show ?thesis by (auto simp: compare_loop.simps)
  next
    case y: (Cons y zs)
    with Cons.prems Cons.IH[of zs] show ?thesis
      by (subst compare_loop.simps) (auto split: option.splits)
  qed
qed

lemma equal_loop_spec:
  "trail (get_next h) h (us @ xs) \<Longrightarrow> trail (get_next h) h ys \<Longrightarrow> length us = length ys \<Longrightarrow>
   equal_loop eq h (length ys) (first (us @ xs) 0) (first ys 0) c =
     Some (all_equal eq c (zip (map snd us) (map snd ys)))"
proof (induction ys arbitrary: us c)
  case (Cons y ys)
  then obtain u vs where us: "us = u # vs" "length vs = length ys" by (cases us) auto
  with Cons.prems Cons.IH[of vs] show ?case
    by (cases "eq c (snd u) (snd y)"; cases "fst (eq c (snd u) (snd y))") auto
qed simp

lemma string_loop_spec:
  "trail (get_next h) h xs \<Longrightarrow> string_loop str sep h (first xs 0) acc =
     Some (acc @ concat (map (\<lambda>x. sep @ value_string str (snd x)) xs))"
proof (induction xs arbitrary: acc)
  case Nil
  then show ?case by (simp add: string_loop.simps)
next
  case (Cons x xs)
  then show ?case by (subst string_loop.simps) simp
qed

lemma join_Cons: "join sep (s # ss) = s @ concat (map (\<lambda>t. sep @ t) ss)"
  by (induction ss arbitrary: s) auto

lemma string_methods_spec:
  assumes "rep h l xs"
  shows "string_of_method str h l = Some (''['' @ join '', '' (map (value_string str) (map snd xs)) @ '']'', l)"
    and "string_sep_method str sep h l = Some (join sep (map (value_string str) (map snd xs)), l)"
proof -
  have L: "Head l = first xs 0" "Lock l = 0" using assms by (auto simp: rep_def lrep_def)
  have l: "l\<lparr>Lock := 0\<rparr> = l" using L(2) by (cases l) simp
  have t: "trail (get_next h) h xs" using assms lrep_trail by (auto simp: rep_def)
  show "string_of_method str h l = Some (''['' @ join '', '' (map (value_string str) (map snd xs)) @ '']'', l)"
  proof (cases xs)
    case (Cons x ys)
    with t L l string_loop_spec[of h ys str] show ?thesis
      by (simp add: string_of_method_def join_Cons comp_def)
  qed (use L l in \<open>simp add: string_of_method_def\<close>)
  show "string_sep_method str sep h l = Some (join sep (map (value_string str) (map snd xs)), l)"
  proof (cases xs)
    case (Cons x ys)
    with t L l string_loop_spec[of h ys str] show ?thesis
      by (simp add: string_sep_method_def join_Cons comp_def)
  qed (use L l in \<open>simp add: string_sep_method_def\<close>)
qed

lemma length_methods_spec:
  assumes "rep h l xs"
  shows "length_method l = Some (SUCCESS (length xs), l)" and "size_method l = Some (SUCCESS (length xs), l)"
proof -
  have L: "Length l = length xs" "Lock l = 0" using assms by (auto simp: rep_def lrep_def)
  then have "l\<lparr>Lock := 0\<rparr> = l" by (cases l) simp
  with L show "length_method l = Some (SUCCESS (length xs), l)" "size_method l = Some (SUCCESS (length xs), l)"
    by (simp_all add: length_method_def size_method_def)
qed

lemma all_equal_no_suspend [simp]: "all_equal eq c vws \<noteq> (SUSPEND a b, c')"
  by (induction eq c vws rule: all_equal.induct) (auto split: prod.split reply.split)

lemma equal_method_spec:
  assumes "rep h A xs" and "rep h B ys" and "c a = None"
  shows "equal_method eq h a A b B c =
    Some (if length xs = length ys then all_equal eq (c(a \<mapsto> b)) (zip (map snd xs) (map snd ys))
          else (FAILURE, c(a \<mapsto> b)))"
  using assms equal_loop_spec[of h xs "[]" ys eq "c(a \<mapsto> b)"] lrep_trail[of h A xs] lrep_trail[of h B ys]
  by (auto simp: equal_method_def rep_def lrep_def Let_def)

lemma sub_equal_method_spec:
  assumes "rep h l (as @ ms @ bs)" and "rep h l2 ws" and "ms @ bs \<noteq> []"
    and "resolve l i = int (length as) + 1" and "resolve l j = int (length as + length ms) + 1"
    and "r = (if length ms = length ws then fst (all_equal eq Map.empty (zip (map snd ms) (map snd ws))) else FAILURE)"
  shows "\<exists>l'. sub_equal_method eq h l i j l2 = Some (r, l') \<and> lrep h l' (as @ ms @ bs) \<and>
    Lock l' = (if ms = [] \<or> r = SUCCESS () then 0 else 1)"
proof (cases "ms = [] \<or> length ms \<noteq> length ws")
  case True
  have L: "Lock l = 0" "Length l = length (as @ ms @ bs)" "Length l2 = length ws" "lrep h l (as @ ms @ bs)"
    using assms(1,2) by (auto simp: rep_def lrep_def)
  have "length ms < 4294967296" using lrep_length[OF L(4)] by (simp add: max_nodes_def)
  with True assms(3-6) L show ?thesis
    by (cases ms; cases bs) (auto simp: sub_equal_method_def Let_def)
next
  case False
  then obtain m ns where ms: "ms = m # ns" "length ms = length ws" by (cases ms) auto
  have L: "Lock l = 0" "Length l = length (as @ ms @ bs)" "Length l2 = length ws" "lrep h l (as @ ms @ bs)"
    "Head l2 = first ws 0" "lrep h l2 ws" using assms(1,2) by (auto simp: rep_def lrep_def)
  have len: "length ms < 4294967296" using lrep_length[OF L(4)] by (simp add: max_nodes_def)
  have l1: "lrep h (l\<lparr>Lock := 1\<rparr>) (as @ m # ns @ bs)" using L(4) ms by simp
  have "int (length as) + 1 = int (length as + 1)" by simp
  from find_node_at[OF l1 this] obtain l' where
    f: "find_node h (l\<lparr>Lock := 1\<rparr>) (int (length as) + 1) = Some (fst m, l')"
      "lrep h l' (as @ m # ns @ bs)" "Lock l' = Lock (l\<lparr>Lock := 1\<rparr>)" .
  have t: "trail (get_next h) h (ms @ bs)"
    using trail_next[of h "final as 0" "ms @ bs"] L(4) by (simp add: lrep_def)
  have e: "equal_loop eq h (length ms) (fst m) (Head l2) Map.empty =
      Some (all_equal eq Map.empty (zip (map snd ms) (map snd ws)))"
    using equal_loop_spec[OF t lrep_trail[OF L(6)] ms(2), of eq Map.empty] L(5) ms by simp
  obtain c where r: "all_equal eq Map.empty (zip (map snd ms) (map snd ws)) = (r, c)"
    using assms(6) ms(2) by (metis prod.collapse)
  have "sub_equal_method eq h l i j l2 =
      Some (r, if r = SUCCESS () then l'\<lparr>Lock := 0\<rparr> else l')"
    using assms(4,5) L(1-3) len ms(2) f(1,3) e r ms(1)
    by (cases r) (auto simp: sub_equal_method_def Let_def)
  with f(2,3) ms show ?thesis by auto
qed

section \<open>Properties\<close>

text \<open>
  C11: On a list whose links, ends and length are right and whose cached position and window are
  in range, \<^verbatim>\<open>_check\<close> succeeds exactly if the cached node and the index array are right, and
  \<^verbatim>\<open>_validate\<close> reports a wrong cache or a wrong array as such. But \<^verbatim>\<open>_validate\<close> does not notice a
  backward chain that ends early: the answer for a list whose \<^verbatim>\<open>Tail\<close> is NULL is the same.
\<close>

theorem list_check_decides:
  assumes "linked h l xs" and "readable l xs"
  shows "check_method h l =
      Some (if (xs = [] \<or> Cache l = fst (xs ! (Index l - 1))) \<and> array_ok l xs then SUCCESS ()
            else MESSAGE ''List check error!'') \<and>
    validate_method h l =
      Some (if Index l \<noteq> 0 \<and> Cache l \<noteq> fst (xs ! (Index l - 1)) then MESSAGE ''List cache is broken internally!''
            else if \<not> array_ok l xs then MESSAGE ''List array is broken internally!'' else SUCCESS ()) \<and>
    validate_method h (l\<lparr>Tail := 0\<rparr>) = validate_method h l"
proof -
  have "l\<lparr>Tail := final xs 0\<rparr> = l" using assms(1) by (cases l) (simp add: linked_def)
  with check_method_spec[OF assms] validate_method_links[OF assms, of "final xs 0"]
    validate_method_links[OF assms, of 0] show ?thesis by simp
qed

lemma list_check_decides_witness:
  "check_method sample_heap sample_list = Some (SUCCESS ()) \<and>
   validate_method sample_heap sample_list = Some (SUCCESS ()) \<and>
   validate_method sample_heap (sample_list\<lparr>Tail := 0\<rparr>) = Some (SUCCESS ())"
proof -
  have l: "linked sample_heap sample_list sample_nodes"
    using sample_rep by (auto simp: linked_def rep_def lrep_def)
  have r: "readable sample_list sample_nodes" by (simp add: readable_def sample_list_def zero_list_def)
  show ?thesis using list_check_decides[OF l r]
    by (simp add: sample_list_def zero_list_def)
qed

text \<open>
  C12: \<^verbatim>\<open>?\<close> implements the lexicographic comparison of the two value lists, on every branch and with
  the cache handed from one element comparison to the next; a result is entered into the cache,
  and the next comparison of the same two lists returns it without looking at the elements.
\<close>

theorem list_compare_correct:
  assumes "rep h A xs" and "rep h B ys" and "compare_prior cache a b = None"
    and "c0 = (case cache of None \<Rightarrow> Map.empty | Some c \<Rightarrow> c)"
    and "lex_compare ords cmp (c0(a \<mapsto> sub_cache c0 a)) (map snd xs) (map snd ys) = (r, c1)"
  shows "\<exists>c2. compare_method ords cmp h a A b B cache = Some (r, c2) \<and>
    (\<forall>x. r = SUCCESS x \<longrightarrow> compare_method ords cmp' h a A' b B' (Some c2) = Some (SUCCESS x, c2))"
proof -
  have "compare_loop ords cmp h (Head A) (Head B) (c0(a \<mapsto> sub_cache c0 a)) = Some (r, c1)"
    using compare_loop_spec[of h xs ys ords cmp "c0(a \<mapsto> sub_cache c0 a)"] assms(1,2,5)
      lrep_trail[of h A xs] lrep_trail[of h B ys]
    by (simp add: rep_def lrep_def)
  with assms(3,4) show ?thesis
    by (cases r) (auto simp: compare_method_def compare_prior_def Let_def split: option.splits)
qed

definition cmp_nat :: "'c \<Rightarrow> nat \<Rightarrow> nat \<Rightarrow> (nat, unit, unit) reply \<times> 'c" where
  "cmp_nat c x y = (SUCCESS (if x < y then 1 else if x = y then 2 else 3), c)"

lemma list_compare_correct_witness:
  "\<exists>c. compare_method \<lparr>Less = 1, Equal = 2, Greater = 3\<rparr> cmp_nat sample_heap2 7 sample_list 8 sample_list2 None =
      Some (SUCCESS 1, c) \<and>
    compare_method \<lparr>Less = 1, Equal = 2, Greater = 3\<rparr> cmp_nat sample_heap2 7 sample_list2 8 sample_list (Some c) =
      Some (SUCCESS 1, c)"
proof -
  have p: "compare_prior None 7 8 = (None :: nat option)" by (simp add: compare_prior_def)
  have l: "lex_compare \<lparr>Less = 1, Equal = 2, Greater = 3\<rparr> cmp_nat c (map snd sample_nodes)
      (map snd [(4::ptr, 40), (5, 50)]) = (SUCCESS 1, c)" for c :: "nat compare_cache"
    by (simp add: cmp_nat_def)
  from list_compare_correct[OF sample_rep2 p refl l] show ?thesis by (simp add: cmp_nat_def)
qed

text \<open>
  \<^verbatim>\<open>=\<close> succeeds exactly if the lists are equally long and the elements compare equal pairwise, in
  order, and passes on the first other answer; two lists already being compared with each other
  count as equal. \<^verbatim>\<open>[]=\<close> gives the same answer for a part of a list, but unless it succeeds or the
  part is empty the list keeps the reader's lock, so that no writer ever gets it.
\<close>

theorem list_equal_correct:
  assumes "rep h l (as @ ms @ bs)" and "rep h l2 ws" and "ms @ bs \<noteq> []"
    and "resolve l i = int (length as) + 1" and "resolve l j = int (length as + length ms) + 1"
    and "r = (if length ms = length ws then fst (all_equal eq Map.empty (zip (map snd ms) (map snd ws))) else FAILURE)"
  shows "(cache a = None \<longrightarrow> equal_method eq h a l b l2 cache =
      Some (if length (as @ ms @ bs) = length ws
            then all_equal eq (cache(a \<mapsto> b)) (zip (map snd (as @ ms @ bs)) (map snd ws))
            else (FAILURE, cache(a \<mapsto> b)))) \<and>
    (cache a = Some b \<longrightarrow> equal_method eq h a l b l2 cache = Some (SUCCESS (), cache)) \<and>
    (\<exists>l'. sub_equal_method eq h l i j l2 = Some (r, l') \<and> lrep h l' (as @ ms @ bs) \<and>
      (if ms = [] \<or> r = SUCCESS () then Lock l' = 0 else wrlock l' = None))"
proof (intro conjI impI)
  from sub_equal_method_spec[OF assms] obtain l' where
    "sub_equal_method eq h l i j l2 = Some (r, l')" "lrep h l' (as @ ms @ bs)"
    "Lock l' = (if ms = [] \<or> r = SUCCESS () then 0 else 1)" by blast
  then show "\<exists>l'. sub_equal_method eq h l i j l2 = Some (r, l') \<and> lrep h l' (as @ ms @ bs) \<and>
      (if ms = [] \<or> r = SUCCESS () then Lock l' = 0 else wrlock l' = None)"
    by (intro exI[of _ l']) (auto simp: wrlock_def)
qed (use equal_method_spec[OF assms(1,2), of cache a] in \<open>auto simp: equal_method_def\<close>)

definition eq_nat :: "'c \<Rightarrow> nat \<Rightarrow> nat \<Rightarrow> (nat, unit, unit) reply \<times> 'c" where
  "eq_nat c x y = ((if x = y then SUCCESS y else FAILURE), c)"

lemma list_equal_correct_witness:
  "equal_method eq_nat sample_heap2 7 sample_list 8 sample_list2 Map.empty =
      Some (FAILURE, [7 \<mapsto> 8]) \<and>
   (\<exists>l'. sub_equal_method eq_nat sample_heap2 sample_list 2 0 sample_list2 = Some (FAILURE, l') \<and>
      wrlock l' = None)"
proof -
  have r: "rep sample_heap2 sample_list ([(1, 10)] @ [(2, 20), (3, 30)] @ [])" using sample_rep2(1) by simp
  have i: "resolve sample_list 2 = int (length [(1 :: ptr, 10 :: nat)]) + 1"
    "resolve sample_list 0 = int (length [(1 :: ptr, 10 :: nat)] + length [(2 :: ptr, 20 :: nat), (3, 30)]) + 1"
    by (simp_all add: resolve_def)
  show ?thesis
    using list_equal_correct[OF r sample_rep2(2) _ i refl, of Map.empty 7 eq_nat 8]
    by (auto simp: eq_nat_def)
qed

end
