(* ===== verification/ListFold.thy ===== *)
theory ListFold
  imports ListCheck
begin

text \<open>
  Iteration in \<^verbatim>\<open>dev/src/lib/Agg/List.c\<close>: the generators \<^verbatim>\<open>loop\<close> and \<^verbatim>\<open>fill\<close>, which assign to
  variables of the caller, \<^verbatim>\<open>apply\<close> and \<^verbatim>\<open>Apply\<close>, both \<^verbatim>\<open>map\<close> methods, \<^verbatim>\<open>foldl\<close> and \<^verbatim>\<open>foldr\<close> (each
  with the function first and with the list first), and \<^verbatim>\<open>collect\<close>, \<^verbatim>\<open>Collect\<close> and \<^verbatim>\<open>CollectN\<close>, which
  make a list of what a generator produces.
\<close>

section \<open>loop and fill\<close>

text \<open>
  The variables of the caller: what a reference holds is an index (\<open>Inl\<close>) or a value (\<open>Inr\<close>).
\<close>

type_synonym 'v vars = "nat \<Rightarrow> nat + 'v"

record list_loop_generator =
  LKey :: nat
  LValue :: nat
  LIndex :: nat
  LCurrent :: ptr

definition resume_list_loop ::
  "'v heap \<Rightarrow> list_loop_generator \<Rightarrow> 'v vars \<Rightarrow>
   ((unit, unit, list_loop_generator) reply \<times> 'v vars) option" where
  "resume_list_loop h g e = do {
     v \<leftarrow> get_value h (LCurrent g);
     let e = e(LKey g := Inl (LIndex g), LValue g := Inr v);
     q \<leftarrow> get_next h (LCurrent g);
     Some (if q = 0 then SUCCESS () else SUSPEND () (g\<lparr>LIndex := inc32 (LIndex g), LCurrent := q\<rparr>), e) }"

definition loop_method ::
  "'v heap \<Rightarrow> lst \<Rightarrow> nat \<Rightarrow> nat \<Rightarrow> 'v vars \<Rightarrow>
   ((unit, unit, list_loop_generator) reply \<times> 'v vars) option" where
  "loop_method h l key val e =
     (if Head l = 0 then Some (FAILURE, e)
      else do {
        v \<leftarrow> get_value h (Head l);
        let e = e(key := Inl 1, val := Inr v);
        q \<leftarrow> get_next h (Head l);
        Some (if q = 0 then SUCCESS ()
              else SUSPEND () \<lparr>LKey = key, LValue = val, LIndex = 2, LCurrent = q\<rparr>, e) })"

record list_fill_generator =
  FNode :: ptr
  FRefs :: "nat list"

text \<open>The assignments of one round: whether there was a node for each variable, and the next node.\<close>

fun fill_refs :: "'v heap \<Rightarrow> nat list \<Rightarrow> ptr \<Rightarrow> 'v vars \<Rightarrow> (bool \<times> ptr \<times> 'v vars) option" where
  "fill_refs h [] p e = Some (True, p, e)"
| "fill_refs h (r # refs) p e =
     (if p = 0 then Some (False, p, e)
      else do {
        v \<leftarrow> get_value h p;
        q \<leftarrow> get_next h p;
        fill_refs h refs q (e(r := Inr v)) })"

definition resume_fill_list ::
  "'v heap \<Rightarrow> list_fill_generator \<Rightarrow> 'v vars \<Rightarrow>
   ((unit, unit, list_fill_generator) reply \<times> 'v vars) option" where
  "resume_fill_list h g e = do {
     (ok, p, e) \<leftarrow> fill_refs h (FRefs g) (FNode g) e;
     Some (if \<not> ok then FAILURE else if p = 0 then SUCCESS () else SUSPEND () (g\<lparr>FNode := p\<rparr>), e) }"

definition fill_method ::
  "'v heap \<Rightarrow> lst \<Rightarrow> nat list \<Rightarrow> 'v vars \<Rightarrow> ((unit, unit, list_fill_generator) reply \<times> 'v vars) option" where
  "fill_method h l refs e = do {
     (ok, p, e) \<leftarrow> fill_refs h refs (Head l) e;
     Some (if \<not> ok then FAILURE else if p = 0 then SUCCESS ()
           else SUSPEND () \<lparr>FNode = p, FRefs = refs\<rparr>, e) }"

text \<open>A caller that resumes until the end; it sees the variables after each success.\<close>

partial_function (option) drain_vars ::
  "('g \<Rightarrow> 'e \<Rightarrow> ((unit, unit, 'g) reply \<times> 'e) option) \<Rightarrow> (unit, unit, 'g) reply \<Rightarrow> 'e \<Rightarrow> 'e list option" where
  "drain_vars resume r e =
     (case r of
        SUCCESS _ \<Rightarrow> Some [e]
      | SUSPEND _ g \<Rightarrow> do {
          (r, e') \<leftarrow> resume g e;
          es \<leftarrow> drain_vars resume r e';
          Some (e # es) }
      | _ \<Rightarrow> Some [])"

lemma drain_vars_simps [simp]:
  "drain_vars resume (SUCCESS u) e = Some [e]"
  "drain_vars resume FAILURE e = Some []"
  "drain_vars resume (SUSPEND u g) e =
     do { (r, e') \<leftarrow> resume g e; es \<leftarrow> drain_vars resume r e'; Some (e # es) }"
  by (simp_all add: drain_vars.simps)

section \<open>apply\<close>

text \<open>
  The arguments are the values together with references to them (here the nodes). There is room
  for \<^verbatim>\<open>List->Length\<close> arguments, and the function is called with that many; it is free to do what
  it likes, so its result type is left open.
\<close>

partial_function (option) arg_list :: "'v heap \<Rightarrow> ptr \<Rightarrow> ('v \<times> ptr) list option" where
  "arg_list h p =
     (if p = 0 then Some []
      else do {
        v \<leftarrow> get_value h p;
        q \<leftarrow> get_next h p;
        args \<leftarrow> arg_list h q;
        Some ((v, p) # args) })"

definition call_with_list :: "(('v \<times> ptr) option list \<Rightarrow> 'r) \<Rightarrow> 'v heap \<Rightarrow> lst \<Rightarrow> 'r option" where
  "call_with_list invoke h l = do {
     args \<leftarrow> arg_list h (Head l);
     if Length l < length args then None
     else Some (invoke (map Some args @ replicate (Length l - length args) None)) }"

definition apply_method :: "'v heap \<Rightarrow> lst \<Rightarrow> (('v \<times> ptr) option list \<Rightarrow> 'r) \<Rightarrow> 'r option" where
  "apply_method h l invoke = call_with_list invoke h l"

definition Apply_function :: "'v heap \<Rightarrow> lst \<Rightarrow> (('v \<times> ptr) option list \<Rightarrow> 'r) \<Rightarrow> 'r option" where
  "Apply_function h l invoke = call_with_list invoke h l"

definition apply_fun_method :: "(('v \<times> ptr) option list \<Rightarrow> 'r) \<Rightarrow> 'v heap \<Rightarrow> lst \<Rightarrow> 'r option" where
  "apply_fun_method invoke h l = call_with_list invoke h l"

section \<open>map\<close>

text \<open>A result is put into a new node, behind the last one or as the first one of the new list.\<close>

definition emit :: "'v heap \<Rightarrow> lst \<Rightarrow> ptr \<Rightarrow> 'v \<Rightarrow> (ptr \<times> 'v heap \<times> lst) option" where
  "emit h out node v =
     (if node \<noteq> 0 then do { (q, h) \<leftarrow> link_new h node v; Some (q, h, out) }
      else do {
        (q, h) \<leftarrow> new_node h v;
        Some (q, h, out\<lparr>Head := q, Cache := q, Index := 1\<rparr>) })"

definition finish_out :: "lst \<Rightarrow> ptr \<Rightarrow> nat \<Rightarrow> lst" where
  "finish_out out node n = out\<lparr>Tail := node, Length := n, Lower := 0, Upper := 0, Access := 4\<rparr>"

definition emit_result ::
  "('v, 'm, unit) reply \<Rightarrow> 'v heap \<Rightarrow> lst \<Rightarrow> ptr \<Rightarrow> nat \<Rightarrow> (ptr \<times> nat \<times> 'v heap \<times> lst) option" where
  "emit_result r h out node n =
     (case returned r of
        Some v \<Rightarrow> do { (node, h, out) \<leftarrow> emit h out node v; Some (node, inc32 n, h, out) }
      | None \<Rightarrow> Some (node, n, h, out))"

partial_function (option) map_loop ::
  "('v \<Rightarrow> ('v, 'm, unit) reply) \<Rightarrow> 'v heap \<Rightarrow> lst \<Rightarrow> ptr \<Rightarrow> nat \<Rightarrow> ptr \<Rightarrow> (lst \<times> 'v heap) option" where
  "map_loop f h out node n p =
     (if p = 0 then Some (finish_out out node n, h)
      else do {
        v \<leftarrow> get_value h p;
        (node, n, h, out) \<leftarrow> emit_result (f v) h out node n;
        q \<leftarrow> get_next h p;
        map_loop f h out node n q })"

definition map_method ::
  "'v heap \<Rightarrow> lst \<Rightarrow> ('v \<Rightarrow> ('v, 'm, unit) reply) \<Rightarrow> (lst \<times> 'v heap) option" where
  "map_method h l f = map_loop f h zero_list 0 0 (Head l)"

text \<open>With several lists: the first nodes, and the next ones, if each list has one.\<close>

fun heads :: "lst list \<Rightarrow> ptr list option" where
  "heads [] = Some []"
| "heads (l # ls) = (if Head l = 0 then None else map_option (Cons (Head l)) (heads ls))"

fun advance :: "'v heap \<Rightarrow> ptr list \<Rightarrow> ptr list option option" where
  "advance h [] = Some (Some [])"
| "advance h (p # ps) = do {
     q \<leftarrow> get_next h p;
     if q = 0 then Some None
     else do { qs \<leftarrow> advance h ps; Some (map_option (Cons q) qs) } }"

fun get_values :: "'v heap \<Rightarrow> ptr list \<Rightarrow> 'v list option" where
  "get_values h [] = Some []"
| "get_values h (p # ps) = do { v \<leftarrow> get_value h p; vs \<leftarrow> get_values h ps; Some (v # vs) }"

partial_function (option) map_lists_loop ::
  "('v list \<Rightarrow> ('v, 'm, unit) reply) \<Rightarrow> 'v heap \<Rightarrow> lst \<Rightarrow> ptr \<Rightarrow> nat \<Rightarrow> ptr list \<Rightarrow> (lst \<times> 'v heap) option" where
  "map_lists_loop f h out node n ps = do {
     vs \<leftarrow> get_values h ps;
     (node, n, h, out) \<leftarrow> emit_result (f vs) h out node n;
     next \<leftarrow> advance h ps;
     case next of
       None \<Rightarrow> Some (finish_out out node n, h)
     | Some qs \<Rightarrow> map_lists_loop f h out node n qs }"

definition map_lists_method ::
  "('v list \<Rightarrow> ('v, 'm, unit) reply) \<Rightarrow> 'v heap \<Rightarrow> lst list \<Rightarrow> (lst \<times> 'v heap) option" where
  "map_lists_method f h ls =
     (case heads ls of
        None \<Rightarrow> Some (finish_out zero_list 0 0, h)
      | Some ps \<Rightarrow> map_lists_loop f h zero_list 0 0 ps)"

section \<open>foldl and foldr\<close>

partial_function (option) fold_loop ::
  "('v \<Rightarrow> 'v \<Rightarrow> ('v, 'm, unit) reply) \<Rightarrow> 'v heap \<Rightarrow> ptr \<Rightarrow> 'v \<Rightarrow> ('v, 'm, unit) reply option" where
  "fold_loop f h node acc = do {
     node \<leftarrow> get_next h node;
     if node = 0 then Some (SUCCESS acc)
     else do {
       v \<leftarrow> get_value h node;
       case f acc v of
         SUSPEND r _ \<Rightarrow> fold_loop f h node r
       | SUCCESS r \<Rightarrow> fold_loop f h node r
       | FAILURE \<Rightarrow> Some FAILURE
       | MESSAGE m \<Rightarrow> Some (MESSAGE m) } }"

definition foldl_fun_method ::
  "('v \<Rightarrow> 'v \<Rightarrow> ('v, 'm, unit) reply) \<Rightarrow> 'v heap \<Rightarrow> lst \<Rightarrow> ('v, 'm, unit) reply option" where
  "foldl_fun_method f h l =
     (if Head l = 0 then Some FAILURE
      else do { v \<leftarrow> get_value h (Head l); fold_loop (\<lambda>acc v. f acc v) h (Head l) v })"

definition foldr_fun_method ::
  "('v \<Rightarrow> 'v \<Rightarrow> ('v, 'm, unit) reply) \<Rightarrow> 'v heap \<Rightarrow> lst \<Rightarrow> ('v, 'm, unit) reply option" where
  "foldr_fun_method f h l =
     (if Head l = 0 then Some FAILURE
      else do { v \<leftarrow> get_value h (Head l); fold_loop (\<lambda>acc v. f v acc) h (Head l) v })"

definition foldl_method ::
  "'v heap \<Rightarrow> lst \<Rightarrow> ('v \<Rightarrow> 'v \<Rightarrow> ('v, 'm, unit) reply) \<Rightarrow> ('v, 'm, unit) reply option" where
  "foldl_method h l f =
     (if Head l = 0 then Some FAILURE
      else do { v \<leftarrow> get_value h (Head l); fold_loop (\<lambda>acc v. f acc v) h (Head l) v })"

definition foldr_method ::
  "'v heap \<Rightarrow> lst \<Rightarrow> ('v \<Rightarrow> 'v \<Rightarrow> ('v, 'm, unit) reply) \<Rightarrow> ('v, 'm, unit) reply option" where
  "foldr_method h l f =
     (if Head l = 0 then Some FAILURE
      else do { v \<leftarrow> get_value h (Head l); fold_loop (\<lambda>acc v. f v acc) h (Head l) v })"

section \<open>collect\<close>

text \<open>
  A running generator is a state of type \<open>'g\<close> and a function \<open>resume\<close> that runs it to its next
  result; \<open>r\<close> is the reply of the call that started it. \<^verbatim>\<open>Collect\<close> returns a message at once, with
  the list it was making left incomplete (and unreachable).
\<close>

partial_function (option) collect_rest ::
  "('g \<Rightarrow> ('v, 'm, 'g) reply) \<Rightarrow> 'v heap \<Rightarrow> lst \<Rightarrow> ptr \<Rightarrow> nat \<Rightarrow> 'g \<Rightarrow> ((lst, 'm, unit) reply \<times> 'v heap) option" where
  "collect_rest resume h l node n g =
     (case resume g of
        SUSPEND v g \<Rightarrow> do {
          (node, h) \<leftarrow> link_new h node v;
          collect_rest resume h l node (inc32 n) g }
      | MESSAGE m \<Rightarrow> Some (MESSAGE m, h)
      | SUCCESS v \<Rightarrow> do {
          (node, h) \<leftarrow> link_new h node v;
          Some (SUCCESS (l\<lparr>Tail := node, Length := inc32 n\<rparr>), h) }
      | FAILURE \<Rightarrow> Some (SUCCESS (l\<lparr>Tail := node, Length := n\<rparr>), h))"

definition collect_method ::
  "('g \<Rightarrow> ('v, 'm, 'g) reply) \<Rightarrow> ('v, 'm, 'g) reply \<Rightarrow> 'v heap \<Rightarrow> ((lst, 'm, unit) reply \<times> 'v heap) option" where
  "collect_method resume r h =
     (let l = zero_list\<lparr>Lower := 0, Upper := 0, Access := 4, Lock := 0\<rparr> in
      case r of
        SUSPEND v g \<Rightarrow> do {
          (node, h) \<leftarrow> new_node h v;
          collect_rest resume h (l\<lparr>Head := node, Cache := node, Index := 1\<rparr>) node 1 g }
      | MESSAGE m \<Rightarrow> Some (MESSAGE m, h)
      | SUCCESS v \<Rightarrow> do {
          (node, h) \<leftarrow> new_node h v;
          Some (SUCCESS (l\<lparr>Head := node, Cache := node, Index := 1, Tail := node, Length := 1\<rparr>), h) }
      | FAILURE \<Rightarrow> Some (SUCCESS l, h))"

definition Collect_function ::
  "('g \<Rightarrow> ('v, 'm, 'g) reply) \<Rightarrow> ('v, 'm, 'g) reply \<Rightarrow> 'v heap \<Rightarrow> ((lst, 'm, unit) reply \<times> 'v heap) option" where
  "Collect_function resume r h =
     (let l = zero_list\<lparr>Lower := 0, Upper := 0, Access := 4, Lock := 0\<rparr> in
      case r of
        SUSPEND v g \<Rightarrow> do {
          (node, h) \<leftarrow> new_node h v;
          collect_rest resume h (l\<lparr>Head := node, Cache := node, Index := 1\<rparr>) node 1 g }
      | MESSAGE m \<Rightarrow> Some (MESSAGE m, h)
      | SUCCESS v \<Rightarrow> do {
          (node, h) \<leftarrow> new_node h v;
          Some (SUCCESS (l\<lparr>Head := node, Cache := node, Index := 1, Tail := node, Length := 1\<rparr>), h) }
      | FAILURE \<Rightarrow> Some (SUCCESS l, h))"

text \<open>\<^verbatim>\<open>for (; --Max;)\<close>: with \<open>k\<close> rounds to go.\<close>

fun collect_upto ::
  "('g \<Rightarrow> ('v, 'm, 'g) reply) \<Rightarrow> nat \<Rightarrow> 'v heap \<Rightarrow> lst \<Rightarrow> ptr \<Rightarrow> nat \<Rightarrow> 'g \<Rightarrow> ((lst, 'm, unit) reply \<times> 'v heap) option" where
  "collect_upto resume 0 h l node n g = Some (SUCCESS (l\<lparr>Tail := node, Length := n\<rparr>), h)"
| "collect_upto resume (Suc k) h l node n g =
     (case resume g of
        SUSPEND v g \<Rightarrow> do {
          (node, h) \<leftarrow> link_new h node v;
          collect_upto resume k h l node (inc32 n) g }
      | MESSAGE m \<Rightarrow> Some (MESSAGE m, h)
      | SUCCESS v \<Rightarrow> do {
          (node, h) \<leftarrow> link_new h node v;
          Some (SUCCESS (l\<lparr>Tail := node, Length := inc32 n\<rparr>), h) }
      | FAILURE \<Rightarrow> Some (SUCCESS (l\<lparr>Tail := node, Length := n\<rparr>), h))"

text \<open>The call \<open>r ()\<close> is made only if the bound is not 0, which is read as an \<^verbatim>\<open>unsigned long\<close>.\<close>

definition CollectN_function ::
  "int \<Rightarrow> ('g \<Rightarrow> ('v, 'm, 'g) reply) \<Rightarrow> (unit \<Rightarrow> ('v, 'm, 'g) reply) \<Rightarrow> 'v heap \<Rightarrow>
   ((lst, 'm, unit) reply \<times> 'v heap) option" where
  "CollectN_function max_arg resume r h =
     (let l = zero_list\<lparr>Lower := 0, Upper := 0, Access := 4, Lock := 0\<rparr> in
      if ul max_arg = 0 then Some (SUCCESS l, h)
      else case r () of
        SUSPEND v g \<Rightarrow> do {
          (node, h) \<leftarrow> new_node h v;
          collect_upto resume (dec32 (ul max_arg)) h (l\<lparr>Head := node, Cache := node, Index := 1\<rparr>) node 1 g }
      | MESSAGE m \<Rightarrow> Some (MESSAGE m, h)
      | SUCCESS v \<Rightarrow> do {
          (node, h) \<leftarrow> new_node h v;
          Some (SUCCESS (l\<lparr>Head := node, Cache := node, Index := 1, Tail := node, Length := 1\<rparr>), h) }
      | FAILURE \<Rightarrow> Some (SUCCESS l, h))"

section \<open>A list that is being built\<close>

text \<open>
  \<open>building h0 h ws l\<close>: since \<open>h0\<close>, the nodes and values \<open>ws\<close> have been chained up, and \<open>l\<close> has
  its first node; its tail and length are still to be set.
\<close>

definition building :: "'v heap \<Rightarrow> 'v heap \<Rightarrow> (ptr \<times> 'v) list \<Rightarrow> lst \<Rightarrow> bool" where
  "building h0 h ws l \<longleftrightarrow> heap_ok h \<and> chain (Nodes h) 0 ws 0 \<and> distinct (map fst ws) \<and>
     frame h0 h {} \<and> Fresh h = Fresh h0 + length ws \<and> (\<forall>p \<in> fst ` set ws. Fresh h0 \<le> p) \<and>
     Head l = first ws 0 \<and> Cache l = first ws 0 \<and> Index l = (if ws = [] then 0 else 1) \<and>
     Array l = None \<and> Lock l = 0"

lemma building_nil: "heap_ok h \<Longrightarrow> building h h [] zero_list"
  by (simp add: building_def zero_list_def)

lemma building_first:
  assumes "heap_ok h" and "room h (Suc n)" and "Array l = None" and "Lock l = 0"
  obtains h' where "new_node h v = Some (Fresh h, h')"
    and "building h h' [(Fresh h, v)] (l\<lparr>Head := Fresh h, Cache := Fresh h, Index := 1\<rparr>)" and "room h' n"
proof -
  from new_node_spec[OF assms(1,2), of v] obtain h' where
    "new_node h v = Some (Fresh h, h')" "Fresh h' = Suc (Fresh h)" "heap_ok h'" "room h' n" "frame h h' {}"
    "Nodes h' = (Nodes h)(Fresh h \<mapsto> \<lparr>Value = v, Next = 0, Prev = 0\<rparr>)" by blast
  with that assms(3,4) show ?thesis by (simp add: building_def)
qed

lemma building_link:
  assumes "building h0 h (ws @ [w]) l" and "room h (Suc n)"
  obtains h' where "link_new h (fst w) v = Some (Fresh h, h')"
    and "building h0 h' ((ws @ [w]) @ [(Fresh h, v)]) l" and "room h' n"
proof -
  have ok: "heap_ok h" and c: "chain (Nodes h) 0 (ws @ [w]) 0" using assms(1) by (auto simp: building_def)
  then have w: "Nodes h (fst w) = Some \<lparr>Value = snd w, Next = 0, Prev = final ws 0\<rparr>" by simp
  from link_new_spec[OF ok assms(2) w, of v] obtain h' where
    h': "link_new h (fst w) v = Some (Fresh h, h')"
      "Nodes h' = (Nodes h)(fst w \<mapsto> \<lparr>Value = snd w, Next = Fresh h, Prev = final ws 0\<rparr>,
                            Fresh h \<mapsto> \<lparr>Value = v, Next = 0, Prev = fst w\<rparr>)"
      "Fresh h' = Suc (Fresh h)" "heap_ok h'" "room h' n" "frame h h' {fst w}" by blast
  have F: "Fresh h \<notin> fst ` set (ws @ [w])" by (rule chain_fresh[OF ok c])
  have d: "fst w \<notin> fst ` set ws" "Fresh h0 \<le> fst w" "Fresh h0 \<le> Fresh h"
    using assms(1) by (auto simp: building_def)
  have "chain (Nodes h') 0 ((ws @ [w]) @ [(Fresh h, v)]) 0"
    unfolding h'(2) using c F d(1) by (auto simp: fun_upd_twist)
  moreover have "frame h0 h {}" using assms(1) by (simp add: building_def)
  then have "frame h0 h' {}" using h'(6) by (rule frame_trans) (use d in auto)
  moreover have "Fresh h \<ge> Fresh h0" by (rule d(3))
  ultimately have "building h0 h' ((ws @ [w]) @ [(Fresh h, v)]) l"
    using assms(1) h'(3,4) F unfolding building_def by simp
  with that h'(1,5) show ?thesis by blast
qed

lemma building_emit:
  assumes "building h0 h ws l" and "room h (Suc n)"
  obtains h' l' where "emit h l (final ws 0) v = Some (Fresh h, h', l')"
    and "building h0 h' (ws @ [(Fresh h, v)]) l'" and "room h' n"
proof (cases ws rule: rev_cases)
  case Nil
  have b: "heap_ok h" "Array l = None" "Lock l = 0" "frame h0 h {}" "Fresh h = Fresh h0"
    using assms(1) Nil by (auto simp: building_def)
  from building_first[OF b(1) assms(2) b(2,3), of v] obtain h' where
    h': "new_node h v = Some (Fresh h, h')" "room h' n"
      "building h h' [(Fresh h, v)] (l\<lparr>Head := Fresh h, Cache := Fresh h, Index := 1\<rparr>)" by blast
  have "frame h0 h' {}" using b(4) h'(3) by (auto simp: building_def intro: frame_trans)
  then have "building h0 h' [(Fresh h, v)] (l\<lparr>Head := Fresh h, Cache := Fresh h, Index := 1\<rparr>)"
    using h'(3) b(5) by (simp add: building_def)
  with that h' Nil show ?thesis by (simp add: emit_def)
next
  case (snoc us u)
  have "fst u \<noteq> 0" using assms(1) snoc chain_nonnull[of h 0 ws 0] by (auto simp: building_def)
  moreover from building_link[of h0 h us u l n v] assms snoc obtain h' where
    "link_new h (fst u) v = Some (Fresh h, h')" "building h0 h' ((us @ [u]) @ [(Fresh h, v)]) l" "room h' n"
    by blast
  ultimately show ?thesis using snoc that[of h' l] by (simp add: emit_def)
qed

lemma building_result:
  assumes "building h0 h ws l" and "room h (Suc n)"
  obtains h' l' ws' where "emit_result r h l (final ws 0) (length ws) = Some (final ws' 0, length ws', h', l')"
    and "building h0 h' ws' l'" and "room h' n"
    and "map snd ws' = map snd ws @ (case returned r of None \<Rightarrow> [] | Some v \<Rightarrow> [v])"
proof (cases "returned r")
  case None
  with that[of ws h l] assms show ?thesis by (simp add: emit_result_def room_def)
next
  case (Some v)
  from building_emit[OF assms, of v] obtain h' l' where
    e: "emit h l (final ws 0) v = Some (Fresh h, h', l')" "building h0 h' (ws @ [(Fresh h, v)]) l'" "room h' n"
    by blast
  have "length ws < max_nodes" using assms(1) chain_length unfolding building_def by blast
  then show ?thesis using that[of "ws @ [(Fresh h, v)]" h' l'] e Some
    by (simp add: emit_result_def max_nodes_def)
qed

lemma building_makes:
  assumes "building h0 h ws l" and "Access l' = 4" and "Lower l' = 0"
    and "l' = l\<lparr>Tail := final ws 0, Length := length ws, Lower := Lower l', Upper := Upper l', Access := Access l'\<rparr>"
  shows "makes h0 h l' (map snd ws)"
proof -
  have l: "Head l' = Head l" "Cache l' = Cache l" "Index l' = Index l" "Array l' = Array l" "Lock l' = Lock l"
    "Tail l' = final ws 0" "Length l' = length ws" by (subst assms(4), simp)+
  have "lrep h l' ws" using assms(1) l
    by (auto simp: building_def lrep_def cache_ok_def first_nth Suc_le_eq)
  with assms(1,2) l show ?thesis unfolding makes_def building_def
    by (intro conjI exI[of _ ws]) auto
qed

section \<open>What map, apply and the folds do\<close>

lemma building_reads: "building h0 h ws out \<Longrightarrow> lrep h0 l xs \<Longrightarrow> lrep h l xs"
  by (rule lrep_frame[where S = "{}"]) (auto simp: building_def)

lemma map_loop_spec:
  assumes "\<And>h ws out. building h0 h ws out \<Longrightarrow> trail (get_next h) h xs"
    and "building h0 h ws out" and "room h (length xs)"
  shows "\<exists>out' h'. map_loop f h out (final ws 0) (length ws) (first xs 0) = Some (out', h') \<and>
    makes h0 h' out' (map snd ws @ List.map_filter (\<lambda>x. returned (f (snd x))) xs)"
  using assms
proof (induction xs arbitrary: h ws out)
  case Nil
  then show ?case using building_makes[of h0 h ws out "finish_out out (final ws 0) (length ws)"]
    by (simp add: map_loop.simps finish_out_def List.map_filter_def)
next
  case (Cons x xs)
  have rm: "room h (Suc (length xs))" using Cons.prems(3) by simp
  from building_result[OF Cons.prems(2) rm, of "f (snd x)"] obtain h' out' ws' where
    e: "emit_result (f (snd x)) h out (final ws 0) (length ws) = Some (final ws' 0, length ws', h', out')"
      "building h0 h' ws' out'" "room h' (length xs)"
      "map snd ws' = map snd ws @ (case returned (f (snd x)) of None \<Rightarrow> [] | Some v \<Rightarrow> [v])" by blast
  have t: "trail (get_next h) h (x # xs)" "trail (get_next h') h' (x # xs)"
    using Cons.prems(1)[OF Cons.prems(2)] Cons.prems(1)[OF e(2)] .
  have "trail (get_next h) h xs" if "building h0 h ws out" for h ws out
    using Cons.prems(1)[OF that] by simp
  from Cons.IH[OF this e(2,3)] t e(1,4) show ?case
    by (subst map_loop.simps) (auto simp: map_filter_simps split: option.splits)
qed

lemma map_method_spec:
  assumes "rep h l xs" and "room h (length xs)"
  shows "\<exists>out h'. map_method h l f = Some (out, h') \<and>
    makes h h' out (List.map_filter (\<lambda>x. returned (f (snd x))) xs)"
proof -
  have l: "lrep h l xs" "heap_ok h" "Head l = first xs 0" using assms(1) by (auto simp: rep_def lrep_def)
  have "trail (get_next h') h' xs" if "building h h' ws out" for h' ws out
    by (rule lrep_trail[OF building_reads[OF that l(1)]])
  from map_loop_spec[OF this building_nil[OF l(2)] assms(2)] show ?thesis
    by (simp add: map_method_def l(3))
qed

lemma arg_list_spec:
  "trail (get_next h) h xs \<Longrightarrow> arg_list h (first xs 0) = Some (map (\<lambda>x. (snd x, fst x)) xs)"
proof (induction xs)
  case Nil
  then show ?case by (simp add: arg_list.simps)
next
  case (Cons x xs)
  then show ?case by (subst arg_list.simps) simp
qed

lemma apply_methods_spec:
  assumes "rep h l xs"
  shows "apply_method h l invoke = Some (invoke (map (\<lambda>x. Some (snd x, fst x)) xs))"
    and "Apply_function h l invoke = Some (invoke (map (\<lambda>x. Some (snd x, fst x)) xs))"
    and "apply_fun_method invoke h l = Some (invoke (map (\<lambda>x. Some (snd x, fst x)) xs))"
  using assms arg_list_spec[OF lrep_trail, of h l xs]
  by (simp_all add: apply_method_def Apply_function_def apply_fun_method_def call_with_list_def
      rep_def lrep_def comp_def)

fun fold_values :: "('v \<Rightarrow> 'v \<Rightarrow> ('v, 'm, unit) reply) \<Rightarrow> 'v \<Rightarrow> 'v list \<Rightarrow> ('v, 'm, unit) reply" where
  "fold_values f acc [] = SUCCESS acc"
| "fold_values f acc (v # vs) =
     (case f acc v of
        SUSPEND r _ \<Rightarrow> fold_values f r vs
      | SUCCESS r \<Rightarrow> fold_values f r vs
      | FAILURE \<Rightarrow> FAILURE
      | MESSAGE m \<Rightarrow> MESSAGE m)"

lemma fold_loop_spec:
  "trail (get_next h) h (x # xs) \<Longrightarrow> fold_loop f h (fst x) acc = Some (fold_values f acc (map snd xs))"
proof (induction xs arbitrary: x acc)
  case Nil
  then show ?case by (simp add: fold_loop.simps)
next
  case (Cons y xs)
  then show ?case by (subst fold_loop.simps) (auto split: reply.split)
qed

lemma fold_values_total:
  "(\<And>a v. f a v = SUCCESS (g a v)) \<Longrightarrow> fold_values f acc vs = SUCCESS (foldl g acc vs)"
  by (induction vs arbitrary: acc) auto

definition fold_spec :: "('v \<Rightarrow> 'v \<Rightarrow> ('v, 'm, unit) reply) \<Rightarrow> 'v list \<Rightarrow> ('v, 'm, unit) reply" where
  "fold_spec f vs = (case vs of [] \<Rightarrow> FAILURE | v # vs \<Rightarrow> fold_values f v vs)"

lemma fold_methods_spec:
  assumes "rep h l xs"
  shows "foldl_method h l f = Some (fold_spec f (map snd xs))"
    and "foldl_fun_method f h l = Some (fold_spec f (map snd xs))"
    and "foldr_method h l f = Some (fold_spec (\<lambda>a v. f v a) (map snd xs))"
    and "foldr_fun_method f h l = Some (fold_spec (\<lambda>a v. f v a) (map snd xs))"
proof -
  have t: "trail (get_next h) h xs" and H: "Head l = first xs 0"
    using assms lrep_trail[of h l xs] by (auto simp: rep_def lrep_def)
  show "foldl_method h l f = Some (fold_spec f (map snd xs))"
    "foldl_fun_method f h l = Some (fold_spec f (map snd xs))"
    "foldr_method h l f = Some (fold_spec (\<lambda>a v. f v a) (map snd xs))"
    "foldr_fun_method f h l = Some (fold_spec (\<lambda>a v. f v a) (map snd xs))"
    using t H fold_loop_spec by (cases xs; fastforce simp: foldl_method_def foldl_fun_method_def foldr_method_def
      foldr_fun_method_def fold_spec_def)+
qed

text \<open>Several lists: \<open>ptrs k xss\<close> and \<open>row k xss\<close> are the nodes and the values at position \<open>k\<close>.\<close>

definition ptrs :: "nat \<Rightarrow> (ptr \<times> 'v) list list \<Rightarrow> ptr list" where
  "ptrs k xss = map (\<lambda>xs. fst (xs ! k)) xss"

definition row :: "nat \<Rightarrow> (ptr \<times> 'v) list list \<Rightarrow> 'v list" where
  "row k xss = map (\<lambda>xs. snd (xs ! k)) xss"

lemma lrep_nth:
  assumes "lrep h l xs" and "k < length xs"
  shows "get_value h (fst (xs ! k)) = Some (snd (xs ! k))"
    and "get_next h (fst (xs ! k)) = Some (if Suc k < length xs then fst (xs ! Suc k) else 0)"
    and "fst (xs ! k) \<noteq> 0"
proof -
  have c: "heap_ok h" "chain (Nodes h) 0 xs 0" using assms(1) by (auto simp: lrep_def)
  from chain_nth[OF c(2) assms(2)] c(1) show "get_value h (fst (xs ! k)) = Some (snd (xs ! k))"
    "get_next h (fst (xs ! k)) = Some (if Suc k < length xs then fst (xs ! Suc k) else 0)"
    by (simp_all add: get_value_def get_next_def)
  show "fst (xs ! k) \<noteq> 0" using chain_nonnull[OF c] assms(2) by (metis image_eqI nth_mem)
qed

lemma get_values_ptrs:
  "\<forall>xs \<in> set xss. k < length xs \<and> (\<exists>l. lrep h l xs) \<Longrightarrow> get_values h (ptrs k xss) = Some (row k xss)"
  by (induction xss) (auto simp: ptrs_def row_def lrep_nth(1))

lemma advance_ptrs:
  "\<forall>xs \<in> set xss. k < length xs \<and> (\<exists>l. lrep h l xs) \<Longrightarrow>
   advance h (ptrs k xss) =
     Some (if \<forall>xs \<in> set xss. Suc k < length xs then Some (ptrs (Suc k) xss) else None)"
proof (induction xss)
  case (Cons xs xss)
  then obtain l where l: "k < length xs" "lrep h l xs" by auto
  from lrep_nth(2)[OF l(2,1)] lrep_nth(3)[OF l(2), of "Suc k"] Cons show ?case
    by (auto simp: ptrs_def)
qed (simp add: ptrs_def)

lemma heads_ptrs:
  "list_all2 (\<lambda>l xs. lrep h l xs) ls xss \<Longrightarrow>
   heads ls = (if \<forall>xs \<in> set xss. xs \<noteq> [] then Some (ptrs 0 xss) else None)"
proof (induction ls xss rule: list_all2_induct)
  case (Cons l ls xs xss)
  then show ?case using lrep_Head_null[of h l xs] by (auto simp: ptrs_def lrep_def first_nth)
qed (simp add: ptrs_def)

lemma map_lists_loop_spec:
  assumes r: "\<And>h ws out. building h0 h ws out \<Longrightarrow> \<forall>xs \<in> set xss. \<exists>l. lrep h l xs"
    and m: "xss \<noteq> []" "m = Min (length ` set xss)"
  shows "k < m \<Longrightarrow> building h0 h ws out \<Longrightarrow> room h (m - k) \<Longrightarrow>
    \<exists>out' h'. map_lists_loop f h out (final ws 0) (length ws) (ptrs k xss) = Some (out', h') \<and>
      makes h0 h' out' (map snd ws @ List.map_filter (\<lambda>k. returned (f (row k xss))) [k..<m])"
proof (induction "m - k" arbitrary: k h ws out)
  case (Suc d)
  have lens: "\<forall>xs \<in> set xss. m \<le> length xs" "\<exists>xs \<in> set xss. length xs = m"
  proof -
    show "\<forall>xs \<in> set xss. m \<le> length xs" unfolding m(2) by simp
    have "Min (length ` set xss) \<in> length ` set xss" using m(1) by (intro Min_in) auto
    then show "\<exists>xs \<in> set xss. length xs = m" unfolding m(2) by auto
  qed
  have rm: "room h (Suc (m - Suc k))" using Suc.prems(1,3) by (simp add: Suc_diff_Suc)
  from building_result[OF Suc.prems(2) rm, of "f (row k xss)"] obtain h' out' ws' where
    e: "emit_result (f (row k xss)) h out (final ws 0) (length ws) = Some (final ws' 0, length ws', h', out')"
      "building h0 h' ws' out'" "room h' (m - Suc k)"
      "map snd ws' = map snd ws @ (case returned (f (row k xss)) of None \<Rightarrow> [] | Some v \<Rightarrow> [v])" by blast
  have b: "\<forall>xs \<in> set xss. k < length xs \<and> (\<exists>l. lrep h l xs)" "\<forall>xs \<in> set xss. k < length xs \<and> (\<exists>l. lrep h' l xs)"
    using lens(1) Suc.prems(1) r[OF Suc.prems(2)] r[OF e(2)] by fastforce+
  have u: "[k..<m] = k # [Suc k..<m]" using Suc.prems(1) by (simp add: upt_conv_Cons)
  have n: "(\<forall>xs \<in> set xss. Suc k < length xs) \<longleftrightarrow> Suc k < m"
    using lens by (metis less_le_trans)
  have step: "map_lists_loop f h out (final ws 0) (length ws) (ptrs k xss) =
      (if Suc k < m then map_lists_loop f h' out' (final ws' 0) (length ws') (ptrs (Suc k) xss)
       else Some (finish_out out' (final ws' 0) (length ws'), h'))"
    using get_values_ptrs[OF b(1)] advance_ptrs[OF b(2)] e(1)
    by (subst map_lists_loop.simps) (simp add: n)
  show ?case
  proof (cases "Suc k < m")
    case True
    have "d = m - Suc k" using Suc.hyps(2) by simp
    from Suc.hyps(1)[OF this True e(2,3)] obtain out'' h'' where
      "map_lists_loop f h' out' (final ws' 0) (length ws') (ptrs (Suc k) xss) = Some (out'', h'')"
      "makes h0 h'' out'' (map snd ws' @ List.map_filter (\<lambda>k. returned (f (row k xss))) [Suc k..<m])"
      by blast
    with True e(4) show ?thesis unfolding step u
      by (cases "returned (f (row k xss))") (auto simp: map_filter_simps)
  next
    case False
    with building_makes[OF e(2), of "finish_out out' (final ws' 0) (length ws')"] e(4) show ?thesis
      unfolding step u by (cases "returned (f (row k xss))") (auto simp: finish_out_def map_filter_simps)
  qed
qed simp

lemma map_lists_method_spec:
  assumes "list_all2 (\<lambda>l xs. rep h l xs) ls xss" and "ls \<noteq> []" and "heap_ok h"
    and "m = Min (length ` set xss)" and "room h m"
  shows "\<exists>out h'. map_lists_method f h ls = Some (out, h') \<and>
    makes h h' out (List.map_filter (\<lambda>k. returned (f (row k xss))) [0..<m])"
proof -
  have r: "list_all2 (\<lambda>l xs. lrep h l xs) ls xss" using assms(1) by (rule list.rel_mono_strong) (simp add: rep_def)
  have ne: "xss \<noteq> []" using assms(1,2) by auto
  have m: "0 < m \<longleftrightarrow> (\<forall>xs \<in> set xss. xs \<noteq> [])"
    unfolding assms(4) using ne by (subst Min_gr_iff) auto
  show ?thesis
  proof (cases "0 < m")
    case True
    have l: "\<forall>xs \<in> set xss. \<exists>l. lrep h' l xs" if "building h h' ws out" for h' ws out
      using r building_reads[OF that] by (metis in_set_conv_nth list_all2_conv_all_nth)
    from map_lists_loop_spec[OF l ne assms(4) True building_nil[OF assms(3)]] True m heads_ptrs[OF r] assms(5)
    show ?thesis by (simp add: map_lists_method_def)
  next
    case False
    with m heads_ptrs[OF r] have "heads ls = None" by metis
    with False building_makes[OF building_nil[OF assms(3)], of "finish_out zero_list 0 0"]
    show ?thesis by (simp add: map_lists_method_def finish_out_def List.map_filter_def)
  qed
qed

section \<open>What loop and fill assign\<close>

lemma loop_method_resume:
  "Head l \<noteq> 0 \<Longrightarrow> loop_method h l key val e =
     resume_list_loop h \<lparr>LKey = key, LValue = val, LIndex = 1, LCurrent = Head l\<rparr> e"
  by (cases "get_value h (Head l)"; cases "get_next h (Head l)")
    (auto simp: loop_method_def resume_list_loop_def Let_def)

lemma loop_drain:
  assumes "key \<noteq> val"
  shows "trail (get_next h) h (x # xs) \<Longrightarrow> i + length xs < 4294967295 \<Longrightarrow>
    \<exists>r e' es. resume_list_loop h \<lparr>LKey = key, LValue = val, LIndex = i, LCurrent = fst x\<rparr> e = Some (r, e') \<and>
      drain_vars (resume_list_loop h) r e' = Some es \<and>
      map (\<lambda>e. (e key, e val)) es = zip (map Inl [i..<Suc (i + length xs)]) (map (\<lambda>x. Inr (snd x)) (x # xs))"
proof (induction xs arbitrary: x i e)
  case Nil
  then show ?case using assms by (simp add: resume_list_loop_def)
next
  case (Cons y ys)
  define e1 where "e1 = e(key := Inl i, val := Inr (snd x))"
  then have e1: "e1 key = Inl i" "e1 val = Inr (snd x)" using assms by simp_all
  have "trail (get_next h) h (y # ys)" "Suc i + length ys < 4294967295" using Cons.prems by simp_all
  from Cons.IH[OF this, of e1] obtain r e' es where
    r: "resume_list_loop h \<lparr>LKey = key, LValue = val, LIndex = Suc i, LCurrent = fst y\<rparr> e1 = Some (r, e')"
      "drain_vars (resume_list_loop h) r e' = Some es"
      "map (\<lambda>e. (e key, e val)) es =
         zip (map Inl [Suc i..<Suc (Suc i + length ys)]) (map (\<lambda>x. Inr (snd x)) (y # ys))" by blast
  have s: "resume_list_loop h \<lparr>LKey = key, LValue = val, LIndex = i, LCurrent = fst x\<rparr> e =
      Some (SUSPEND () \<lparr>LKey = key, LValue = val, LIndex = Suc i, LCurrent = fst y\<rparr>, e1)"
    using Cons.prems by (simp add: resume_list_loop_def e1_def)
  have u: "[i..<Suc (i + length (y # ys))] = i # [Suc i..<Suc (Suc i + length ys)]"
    by (simp add: upt_conv_Cons del: upt_Suc)
  show ?case unfolding s u using r e1
    by (intro exI[of _ "SUSPEND () \<lparr>LKey = key, LValue = val, LIndex = Suc i, LCurrent = fst y\<rparr>"]
          exI[of _ e1] exI[of _ "e1 # es"]) (simp del: upt_Suc)
qed

fun assign :: "nat list \<Rightarrow> 'v list \<Rightarrow> 'v vars \<Rightarrow> 'v vars" where
  "assign (r # refs) (v # vs) e = assign refs vs (e(r := Inr v))"
| "assign _ _ e = e"

lemma fill_refs_spec:
  "trail (get_next h) h xs \<Longrightarrow> fill_refs h refs (first xs 0) e =
     Some (length refs \<le> length xs, first (drop (length refs) xs) 0, assign refs (map snd xs) e)"
proof (induction refs arbitrary: xs e)
  case (Cons r refs)
  then show ?case by (cases xs) (simp_all add: fun_upd_def)
qed simp

lemma assign_other: "r \<notin> set refs \<Longrightarrow> assign refs vs e r = e r"
  by (induction refs vs e rule: assign.induct) auto

lemma assign_values:
  "distinct refs \<Longrightarrow> length refs \<le> length vs \<Longrightarrow> map (assign refs vs e) refs = map Inr (take (length refs) vs)"
  by (induction refs vs e rule: assign.induct) (auto simp: assign_other)

function chunks :: "nat \<Rightarrow> 'a list \<Rightarrow> 'a list list" where
  "chunks n xs = (if n = 0 \<or> length xs < n then [] else take n xs # chunks n (drop n xs))"
  by pat_completeness auto
termination by (relation "measure (\<lambda>(n, xs). length xs)") auto

declare chunks.simps [simp del]

lemma trail_drop: "trail step h xs \<Longrightarrow> trail step h (drop n xs)"
  by (induction xs arbitrary: n) (auto simp: drop_Cons split: nat.split)

lemma trail_first_null: "trail step h xs \<Longrightarrow> first xs 0 = 0 \<longleftrightarrow> xs = []"
  by (cases xs) auto

lemma fill_drain:
  assumes "distinct refs" and "refs \<noteq> []"
  shows "trail (get_next h) h xs \<Longrightarrow>
    \<exists>r e' es. resume_fill_list h \<lparr>FNode = first xs 0, FRefs = refs\<rparr> e = Some (r, e') \<and>
      drain_vars (resume_fill_list h) r e' = Some es \<and>
      map (\<lambda>e. map e refs) es = map (map Inr) (chunks (length refs) (map snd xs))"
proof (induction "length xs" arbitrary: xs e rule: less_induct)
  case less
  let ?n = "length refs" and ?ys = "drop (length refs) xs" 
  define e1 where "e1 = assign refs (map snd xs) e"
  have e1: "?n \<le> length xs \<Longrightarrow> map e1 refs = map Inr (take ?n (map snd xs))"
    using assign_values[OF assms(1), of "map snd xs" e] by (simp add: e1_def)
  have n: "0 < ?n" using assms(2) by simp
  have s: "resume_fill_list h \<lparr>FNode = first xs 0, FRefs = refs\<rparr> e =
      Some (if \<not> ?n \<le> length xs then FAILURE else if ?ys = [] then SUCCESS ()
        else SUSPEND () \<lparr>FNode = first ?ys 0, FRefs = refs\<rparr>, e1)"
    using fill_refs_spec[OF less.prems] trail_first_null[OF trail_drop[OF less.prems]]
    by (simp add: resume_fill_list_def e1_def)
  show ?case
  proof (cases "?n < length xs")
    case True
    have "length ?ys < length xs" using True n by (simp only: length_drop)
    from less.hyps[OF this trail_drop[OF less.prems], of e1] obtain r e' es where
      r: "resume_fill_list h \<lparr>FNode = first ?ys 0, FRefs = refs\<rparr> e1 = Some (r, e')"
        "drain_vars (resume_fill_list h) r e' = Some es"
        "map (\<lambda>e. map e refs) es = map (map Inr) (chunks ?n (map snd ?ys))" by blast
    show ?thesis unfolding s using r True n e1
      by (intro exI[of _ "SUSPEND () \<lparr>FNode = first ?ys 0, FRefs = refs\<rparr>"] exI[of _ e1] exI[of _ "e1 # es"])
        (simp add: chunks.simps[of ?n "map snd xs"] drop_map)
  next
    case False
    show ?thesis
    proof (cases "?n = length xs")
      case True
      show ?thesis unfolding s using True n e1
        by (simp add: chunks.simps)
    next
      case ne: False
      show ?thesis unfolding s using ne False by (simp add: chunks.simps)
    qed
  qed
qed

section \<open>What collect makes\<close>

text \<open>\<open>yields resume r vs e\<close>: after the reply \<open>r\<close>, the values \<open>vs\<close> are produced, then the end or a message.\<close>

inductive yields :: "('g \<Rightarrow> ('v, 'm, 'g) reply) \<Rightarrow> ('v, 'm, 'g) reply \<Rightarrow> 'v list \<Rightarrow> 'm option \<Rightarrow> bool"
  for resume where
  "yields resume FAILURE [] None"
| "yields resume (MESSAGE m) [] (Some m)"
| "yields resume (SUCCESS v) [v] None"
| "yields resume (resume g) vs e \<Longrightarrow> yields resume (SUSPEND v g) (v # vs) e"

inductive_cases yields_SUSPEND: "yields resume (SUSPEND v g) vs e"
inductive_cases yields_SUCCESS: "yields resume (SUCCESS v) vs e"
inductive_cases yields_MESSAGE: "yields resume (MESSAGE m) vs e"
inductive_cases yields_FAILURE: "yields resume FAILURE vs e"

definition collected ::
  "'v heap \<Rightarrow> 'v list \<Rightarrow> 'm option \<Rightarrow> ((lst, 'm, unit) reply \<times> 'v heap) option \<Rightarrow> bool" where
  "collected h vs e s \<longleftrightarrow>
     (case e of
        Some m \<Rightarrow> \<exists>h'. s = Some (MESSAGE m, h')
      | None \<Rightarrow> \<exists>l h'. s = Some (SUCCESS l, h') \<and> makes h h' l vs)"

lemma building_length: "building h0 h ws l \<Longrightarrow> length ws < 4294967295"
  using chain_length[of h 0 ws 0] by (auto simp: building_def max_nodes_def)

lemma building_done:
  assumes "building h0 h ws l" and "Access l = 4" and "Lower l = 0"
  shows "makes h0 h (l\<lparr>Tail := final ws 0, Length := length ws\<rparr>) (map snd ws)"
  by (rule building_makes[OF assms(1)]) (use assms(2,3) in simp_all)

lemma collect_upto_spec:
  assumes "yields resume r vs e"
  shows "building h0 h (ws @ [w]) l \<Longrightarrow> Access l = 4 \<Longrightarrow> Lower l = 0 \<Longrightarrow> r = resume g \<Longrightarrow>
    room h (length (take k vs)) \<Longrightarrow>
    collected h0 (map snd (ws @ [w]) @ take k vs) (if k \<le> length vs then None else e)
      (collect_upto resume k h l (fst w) (length (ws @ [w])) g)"
  using assms
proof (induction arbitrary: h ws w k g rule: yields.induct)
  case 1
  from building_done[OF 1(1-3)] show ?case
    by (cases k) (use 1 in \<open>auto simp: collected_def simp flip: 1(4)\<close>)
next
  case (2 m)
  from building_done[OF 2(1-3)] show ?case
    by (cases k) (use 2 in \<open>auto simp: collected_def simp flip: 2(4)\<close>)
next
  case (3 v)
  show ?case
  proof (cases k)
    case 0
    then show ?thesis using building_done[OF 3(1-3)] by (simp add: collected_def)
  next
    case (Suc j)
    then have "room h (Suc 0)" using 3(5) by simp
    from building_link[OF 3(1) this, of v] obtain h' where
      h': "link_new h (fst w) v = Some (Fresh h, h')" "building h0 h' ((ws @ [w]) @ [(Fresh h, v)]) l" by blast
    with building_done[OF h'(2) 3(2,3)] building_length[OF 3(1)] 3(4) show ?thesis
      by (auto simp: collected_def Suc simp flip: 3(4))
  qed
next
  case (4 g' vs e v)
  show ?case
  proof (cases k)
    case 0
    then show ?thesis using building_done[OF 4(3-5)] by (simp add: collected_def)
  next
    case (Suc j)
    then have "room h (Suc (length (take j vs)))" using 4(7) by simp
    from building_link[OF 4(3) this, of v] obtain h' where
      h': "link_new h (fst w) v = Some (Fresh h, h')" "building h0 h' ((ws @ [w]) @ [(Fresh h, v)]) l"
        "room h' (length (take j vs))" by blast
    from 4(2)[OF h'(2) 4(4,5) refl h'(3)] h'(1) building_length[OF 4(3)] show ?thesis
      by (simp add: Suc collected_def flip: 4(6))
  qed
qed

lemma collect_rest_spec:
  assumes "yields resume r vs e"
  shows "building h0 h (ws @ [w]) l \<Longrightarrow> Access l = 4 \<Longrightarrow> Lower l = 0 \<Longrightarrow> r = resume g \<Longrightarrow> room h (length vs) \<Longrightarrow>
    collected h0 (map snd (ws @ [w]) @ vs) e (collect_rest resume h l (fst w) (length (ws @ [w])) g)"
  using assms
proof (induction arbitrary: h ws w g rule: yields.induct)
  case 1
  from building_done[OF 1(1-3)] show ?case
    by (subst collect_rest.simps) (use 1 in \<open>auto simp: collected_def simp flip: 1(4)\<close>)
next
  case (2 m)
  then show ?case by (subst collect_rest.simps) (auto simp: collected_def simp flip: 2(4))
next
  case (3 v)
  then have "room h (Suc 0)" by simp
  from building_link[OF 3(1) this, of v] obtain h' where
    h': "link_new h (fst w) v = Some (Fresh h, h')" "building h0 h' ((ws @ [w]) @ [(Fresh h, v)]) l" by blast
  with building_done[OF h'(2) 3(2,3)] building_length[OF 3(1)] show ?case
    by (subst collect_rest.simps) (auto simp: collected_def simp flip: 3(4))
next
  case (4 g' vs e v)
  then have "room h (Suc (length vs))" by simp
  from building_link[OF 4(3) this, of v] obtain h' where
    h': "link_new h (fst w) v = Some (Fresh h, h')" "building h0 h' ((ws @ [w]) @ [(Fresh h, v)]) l"
      "room h' (length vs)" by blast
  from 4(2)[OF h'(2) 4(4,5) refl h'(3)] h'(1) building_length[OF 4(3)] show ?case
    by (subst collect_rest.simps) (simp add: collected_def flip: 4(6))
qed

lemma new_list_simps [simp]:
  "Access (zero_list\<lparr>Lower := 0, Upper := 0, Access := 4, Lock := 0\<rparr>) = 4"
  "Lower (zero_list\<lparr>Lower := 0, Upper := 0, Access := 4, Lock := 0\<rparr>) = 0"
  "Array (zero_list\<lparr>Lower := 0, Upper := 0, Access := 4, Lock := 0\<rparr>) = None"
  "Lock (zero_list\<lparr>Lower := 0, Upper := 0, Access := 4, Lock := 0\<rparr>) = 0"
  by (simp_all add: zero_list_def)

lemma collect_empty:
  assumes "heap_ok h"
  shows "makes h h (zero_list\<lparr>Lower := 0, Upper := 0, Access := 4, Lock := 0\<rparr>) []"
  using building_makes[OF building_nil[OF assms], of "zero_list\<lparr>Lower := 0, Upper := 0, Access := 4, Lock := 0\<rparr>"]
  by (simp add: zero_list_def)

lemma collect_one:
  assumes "heap_ok h" and "room h (Suc n)"
  obtains h' where "new_node h v = Some (Fresh h, h')" and "room h' n"
    and "building h h' ([] @ [(Fresh h, v)])
       (zero_list\<lparr>Lower := 0, Upper := 0, Access := 4, Lock := 0, Head := Fresh h, Cache := Fresh h, Index := 1\<rparr>)"
    and "makes h h' (zero_list\<lparr>Lower := 0, Upper := 0, Access := 4, Lock := 0, Head := Fresh h, Cache := Fresh h,
       Index := 1, Tail := Fresh h, Length := 1\<rparr>) [v]"
proof -
  let ?l = "zero_list\<lparr>Lower := 0, Upper := 0, Access := 4, Lock := 0\<rparr>"
  from building_first[OF assms(1,2) new_list_simps(3,4), of v] obtain h' where
    b: "new_node h v = Some (Fresh h, h')" "room h' n"
      "building h h' [(Fresh h, v)] (?l\<lparr>Head := Fresh h, Cache := Fresh h, Index := 1\<rparr>)" by blast
  have "makes h h' (?l\<lparr>Head := Fresh h, Cache := Fresh h, Index := 1, Tail := Fresh h, Length := 1\<rparr>) [v]"
    using building_makes[OF b(3), of "?l\<lparr>Head := Fresh h, Cache := Fresh h, Index := 1, Tail := Fresh h, Length := 1\<rparr>"]
    by (simp add: zero_list_def)
  with that b show ?thesis by simp
qed

lemma collect_method_spec:
  assumes "heap_ok h" and "yields resume r vs e" and "room h (length vs)"
  shows "collected h vs e (collect_method resume r h)"
proof (cases r)
  case FAILURE
  with assms(2) have "vs = []" "e = None" by (auto elim: yields_FAILURE)
  with FAILURE collect_empty[OF assms(1)] show ?thesis by (simp add: collected_def collect_method_def Let_def)
next
  case (MESSAGE m)
  with assms(2) have "e = Some m" by (auto elim: yields_MESSAGE)
  with MESSAGE show ?thesis by (simp add: collected_def collect_method_def Let_def)
next
  case (SUCCESS v)
  with assms(2) have vs: "vs = [v]" "e = None" by (auto elim: yields_SUCCESS)
  with assms(3) have "room h (Suc 0)" by simp
  from collect_one[OF assms(1) this, of v] obtain h' where
    "new_node h v = Some (Fresh h, h')"
    "makes h h' (zero_list\<lparr>Lower := 0, Upper := 0, Access := 4, Lock := 0, Head := Fresh h, Cache := Fresh h,
       Index := 1, Tail := Fresh h, Length := 1\<rparr>) [v]" by blast
  with SUCCESS vs show ?thesis by (simp add: collected_def collect_method_def Let_def)
next
  case (SUSPEND v g)
  with assms(2) obtain ws where vs: "vs = v # ws" "yields resume (resume g) ws e" by (auto elim: yields_SUSPEND)
  with assms(3) have "room h (Suc (length ws))" by simp
  from collect_one[OF assms(1) this, of v] obtain h' where
    b: "new_node h v = Some (Fresh h, h')" "room h' (length ws)"
      "building h h' ([] @ [(Fresh h, v)])
       (zero_list\<lparr>Lower := 0, Upper := 0, Access := 4, Lock := 0, Head := Fresh h, Cache := Fresh h, Index := 1\<rparr>)"
    by blast
  from collect_rest_spec[OF vs(2) b(3) _ _ refl b(2)] b(1) vs(1) SUSPEND show ?thesis
    by (simp add: collect_method_def Let_def)
qed

lemma Collect_function_eq: "Collect_function resume r h = collect_method resume r h"
  by (simp add: Collect_function_def collect_method_def)

lemma CollectN_function_none: "heap_ok h \<Longrightarrow> collected h [] None (CollectN_function 0 resume r h)"
  using collect_empty[of h] by (simp add: collected_def CollectN_function_def Let_def ul_def)

lemma CollectN_function_spec:
  assumes "heap_ok h" and "yields resume r vs e" and "0 < n" and "n < 2 ^ 32" and "room h (length (take n vs))"
  shows "collected h (take n vs) (if n \<le> length vs then None else e)
    (CollectN_function (int n) resume (\<lambda>_. r) h)"
proof -
  obtain k where n: "n = Suc k" using assms(3) by (cases n) auto
  have u: "ul (1 + int k) = Suc k" using assms(4) n ul_int[of "Suc k"] by simp
  show ?thesis
  proof (cases r)
    case FAILURE
    with assms(2) have "vs = []" "e = None" by (auto elim: yields_FAILURE)
    with FAILURE collect_empty[OF assms(1)] show ?thesis
      by (simp add: collected_def CollectN_function_def Let_def u)
  next
    case (MESSAGE m)
    with assms(2) have "vs = []" "e = Some m" by (auto elim: yields_MESSAGE)
    with MESSAGE n show ?thesis by (simp add: collected_def CollectN_function_def Let_def u)
  next
    case (SUCCESS v)
    with assms(2) have vs: "vs = [v]" "e = None" by (auto elim: yields_SUCCESS)
    with assms(5) n have "room h (Suc 0)" by simp
    from collect_one[OF assms(1) this, of v] obtain h' where
      "new_node h v = Some (Fresh h, h')"
      "makes h h' (zero_list\<lparr>Lower := 0, Upper := 0, Access := 4, Lock := 0, Head := Fresh h, Cache := Fresh h,
         Index := 1, Tail := Fresh h, Length := 1\<rparr>) [v]" by blast
    with SUCCESS vs n show ?thesis by (simp add: collected_def CollectN_function_def Let_def u)
  next
    case (SUSPEND v g)
    with assms(2) obtain ws where vs: "vs = v # ws" "yields resume (resume g) ws e" by (auto elim: yields_SUSPEND)
    with assms(5) n have "room h (Suc (length (take k ws)))" by simp
    from collect_one[OF assms(1) this, of v] obtain h' where
      b: "new_node h v = Some (Fresh h, h')" "room h' (length (take k ws))"
        "building h h' ([] @ [(Fresh h, v)])
         (zero_list\<lparr>Lower := 0, Upper := 0, Access := 4, Lock := 0, Head := Fresh h, Cache := Fresh h, Index := 1\<rparr>)"
      by blast
    from collect_upto_spec[OF vs(2) b(3) _ _ refl b(2)] b(1) vs(1) SUSPEND n show ?thesis
      by (simp add: CollectN_function_def Let_def u)
  qed
qed

section \<open>Properties\<close>

text \<open>
  C13: \<^verbatim>\<open>map\<close> makes a well-formed new list of the results of the function on the elements, in order,
  leaving out the elements on which it fails or sends a message (the message is lost); with several
  lists, the function is called on the elements at each position up to the length of the shortest
  list. No old node is written.
\<close>

theorem list_map_correct:
  assumes "list_all2 (\<lambda>l xs. rep h l xs) (l # ls) (xs # xss)"
    and "m = Min (length ` set (xs # xss))" and "room h (length xs)" and "room h m"
  shows "(\<exists>out h'. map_method h l f = Some (out, h') \<and>
      makes h h' out (List.map_filter (\<lambda>x. returned (f (snd x))) xs)) \<and>
    (\<exists>out h'. map_lists_method g h (l # ls) = Some (out, h') \<and>
      makes h h' out (List.map_filter (\<lambda>k. returned (g (row k (xs # xss)))) [0..<m]))"
proof
  have r: "rep h l xs" using assms(1) by simp
  then have ok: "heap_ok h" by (simp add: rep_def lrep_def)
  show "\<exists>out h'. map_method h l f = Some (out, h') \<and>
      makes h h' out (List.map_filter (\<lambda>x. returned (f (snd x))) xs)"
    by (rule map_method_spec[OF r assms(3)])
  show "\<exists>out h'. map_lists_method g h (l # ls) = Some (out, h') \<and>
      makes h h' out (List.map_filter (\<lambda>k. returned (g (row k (xs # xss)))) [0..<m])"
    by (rule map_lists_method_spec[OF assms(1) _ ok assms(2,4)]) simp
qed

definition half :: "nat \<Rightarrow> (nat, unit, unit) reply" where
  "half n = (if n mod 20 = 0 then SUCCESS (n div 2) else if n = 10 then FAILURE else MESSAGE ())"

lemma list_map_correct_witness:
  "(\<exists>out h'. map_method sample_heap2 sample_list half = Some (out, h') \<and> is_list h' out [10]) \<and>
   (\<exists>out h'. map_lists_method (\<lambda>vs. SUCCESS (sum_list vs) :: (nat, unit, unit) reply) sample_heap2
      [sample_list, sample_list2] = Some (out, h') \<and> is_list h' out [50, 70])"
proof -
  have a: "list_all2 (\<lambda>l xs. rep sample_heap2 l xs) [sample_list, sample_list2] [sample_nodes, [(4, 40), (5, 50)]]"
    using sample_rep2 by simp
  have r: "room sample_heap2 n" if "n \<le> 3" for n
    using that by (simp add: room_def sample_heap2_def max_nodes_def)
  have m: "(2 :: nat) = Min (length ` set [sample_nodes, [(4, 40), (5, 50)]])" by simp
  note t = list_map_correct[OF a m r r, of half "\<lambda>vs. SUCCESS (sum_list vs) :: (nat, unit, unit) reply"]
  have f: "List.map_filter (\<lambda>x. returned (half (snd x))) sample_nodes = [10]"
    by (simp add: half_def List.map_filter_def)
  have g: "List.map_filter (\<lambda>k. returned (SUCCESS (sum_list (row k [sample_nodes, [(4, 40), (5, 50)]])) ::
      (nat, unit, unit) reply)) [0..<2] = [50, 70]"
    by (simp add: List.map_filter_def row_def upt_rec)
  show ?thesis using t unfolding f g by (auto intro: makes_is_list)
qed

text \<open>
  C14: \<^verbatim>\<open>foldl\<close> and \<^verbatim>\<open>foldr\<close> fail on an empty list and otherwise fold from the first element on, stopping
  at the first call that fails or sends a message. \<^verbatim>\<open>foldr\<close> only swaps the arguments of the
  function: for a function that always succeeds it is the right fold of the reversed list.
\<close>

theorem list_fold_correct:
  assumes "rep h l xs"
  shows "foldl_method h l f = Some (fold_spec f (map snd xs)) \<and>
    foldl_fun_method f h l = foldl_method h l f \<and>
    foldr_method h l f = Some (fold_spec (\<lambda>a v. f v a) (map snd xs)) \<and>
    foldr_fun_method f h l = foldr_method h l f \<and>
    ((\<forall>a v. f a v = SUCCESS (g a v)) \<longrightarrow> xs \<noteq> [] \<longrightarrow>
      foldl_method h l f = Some (SUCCESS (foldl g (snd (hd xs)) (map snd (tl xs)))) \<and>
      foldr_method h l f = Some (SUCCESS (foldr g (rev (map snd (tl xs))) (snd (hd xs)))))"
proof -
  have "fold_spec f (map snd xs) = SUCCESS (foldl g (snd (hd xs)) (map snd (tl xs))) \<and>
      fold_spec (\<lambda>a v. f v a) (map snd xs) = SUCCESS (foldr g (rev (map snd (tl xs))) (snd (hd xs)))"
    if "\<forall>a v. f a v = SUCCESS (g a v)" "xs \<noteq> []"
    using that by (cases xs) (simp_all add: fold_spec_def fold_values_total[of _ g]
        fold_values_total[of _ "\<lambda>a v. g v a"] foldr_conv_foldl)
  with fold_methods_spec[OF assms, of f] show ?thesis by auto
qed

lemma list_fold_correct_witness:
  "foldl_method sample_heap sample_list (\<lambda>a b. SUCCESS (2 * a + b) :: (nat, unit, unit) reply) =
      Some (SUCCESS 110) \<and>
   foldr_method sample_heap sample_list (\<lambda>a b. SUCCESS (2 * a + b) :: (nat, unit, unit) reply) =
      Some (SUCCESS 110)"
  using list_fold_correct[OF sample_rep, of "\<lambda>a b. SUCCESS (2 * a + b) :: (nat, unit, unit) reply"
      "\<lambda>a b. 2 * a + b"] by (simp add: fold_spec_def)

text \<open>
  A caller that resumes \<^verbatim>\<open>loop\<close> to the end sees its two variables hold 1 and the first value, 2
  and the second one, and so on up to the last one; with \<^verbatim>\<open>fill\<close> it sees its \<open>k\<close> variables hold
  the values \<open>k\<close> at a time, and a rest of fewer than \<open>k\<close> values is not reported.
\<close>

theorem list_loop_fill_correct:
  assumes "rep h l xs" and "key \<noteq> val" and "distinct refs" and "refs \<noteq> []"
  shows "(\<exists>r e' es. loop_method h l key val e = Some (r, e') \<and> drain_vars (resume_list_loop h) r e' = Some es \<and>
      map (\<lambda>e. (e key, e val)) es = zip (map Inl [1..<Suc (length xs)]) (map (\<lambda>x. Inr (snd x)) xs)) \<and>
    (\<exists>r e' es. fill_method h l refs e = Some (r, e') \<and> drain_vars (resume_fill_list h) r e' = Some es \<and>
      map (\<lambda>e. map e refs) es = map (map Inr) (chunks (length refs) (map snd xs)))"
proof
  have t: "trail (get_next h) h xs" and H: "Head l = first xs 0" and len: "length xs < max_nodes"
    using assms(1) lrep_trail[of h l xs] lrep_length[of h l xs] by (auto simp: rep_def lrep_def)
  show "\<exists>r e' es. loop_method h l key val e = Some (r, e') \<and> drain_vars (resume_list_loop h) r e' = Some es \<and>
      map (\<lambda>e. (e key, e val)) es = zip (map Inl [1..<Suc (length xs)]) (map (\<lambda>x. Inr (snd x)) xs)"
  proof (cases xs)
    case Nil
    with H show ?thesis by (simp add: loop_method_def)
  next
    case (Cons x ys)
    with t H have "loop_method h l key val e =
        resume_list_loop h \<lparr>LKey = key, LValue = val, LIndex = 1, LCurrent = fst x\<rparr> e"
      by (subst loop_method_resume) simp_all
    moreover have "1 + length ys < 4294967295" using len Cons by (simp add: max_nodes_def)
    note loop_drain[OF assms(2) t[unfolded Cons] this, of e]
    ultimately show ?thesis using Cons by (simp del: upt_Suc)
  qed
  have "fill_method h l refs e = resume_fill_list h \<lparr>FNode = first xs 0, FRefs = refs\<rparr> e"
    by (cases "fill_refs h refs (first xs 0) e") (auto simp: fill_method_def resume_fill_list_def H)
  with fill_drain[OF assms(3,4) t, of e]
  show "\<exists>r e' es. fill_method h l refs e = Some (r, e') \<and> drain_vars (resume_fill_list h) r e' = Some es \<and>
      map (\<lambda>e. map e refs) es = map (map Inr) (chunks (length refs) (map snd xs))" by simp
qed

lemma list_loop_fill_correct_witness:
  "(\<exists>r e' es. loop_method sample_heap sample_list 1 2 (\<lambda>_. Inl 0) = Some (r, e') \<and>
      drain_vars (resume_list_loop sample_heap) r e' = Some es \<and>
      map (\<lambda>e. (e 1, e 2)) es = [(Inl 1, Inr 10), (Inl 2, Inr 20), (Inl 3, Inr 30)]) \<and>
   (\<exists>r e' es. fill_method sample_heap sample_list [1, 2] (\<lambda>_. Inl 0) = Some (r, e') \<and>
      drain_vars (resume_fill_list sample_heap) r e' = Some es \<and>
      map (\<lambda>e. (e 1, e 2)) es = [(Inr 10, Inr 20)])"
proof -
  have d: "(1 :: nat) \<noteq> 2" "distinct [1 :: nat, 2]" "[1 :: nat, 2] \<noteq> []" by simp_all
  have z: "zip (map Inl [1..<Suc (length sample_nodes)]) (map (\<lambda>x. Inr (snd x)) sample_nodes) =
      [(Inl 1, Inr 10), (Inl 2, Inr 20), (Inl 3, Inr 30)]" by (simp add: upt_rec)
  have c: "map (map Inr) (chunks (length [1 :: nat, 2]) (map snd sample_nodes)) = [[Inr 10, Inr 20]]"
    by (simp add: chunks.simps)
  note t = list_loop_fill_correct[OF sample_rep d, of "\<lambda>_. Inl 0", unfolded z c]
  from conjunct2[OF t] obtain r e' es where f: "fill_method sample_heap sample_list [1, 2] (\<lambda>_. Inl 0) = Some (r, e')"
    "drain_vars (resume_fill_list sample_heap) r e' = Some es"
    "map (\<lambda>e. map e [1, 2]) es = [[Inr 10, Inr 20]]" by (elim exE conjE)
  from f(3) have g: "map (\<lambda>e. (e 1, e 2)) es = [(Inr 10, Inr 20)]" by (cases es) auto
  show ?thesis
    by (intro conjI conjunct1[OF t] exI[of _ r] exI[of _ e'] exI[of _ es] f(1,2) g)
qed

text \<open>
  C15: \<^verbatim>\<open>collect\<close> and \<^verbatim>\<open>Collect\<close> make a well-formed new list of all values that a generator produces,
  however long it runs, and pass on the message that ends it, if one does; \<^verbatim>\<open>CollectN\<close> takes the
  first \<open>n\<close> values and then does not resume the generator again, so that a later message is not seen; for \<open>n = 0\<close> it
  makes an empty list.
\<close>

theorem list_collect_correct:
  assumes "heap_ok h" and "yields resume r vs e" and "room h (length vs)" and "n < 2 ^ 32"
  shows "collected h vs e (collect_method resume r h) \<and> collected h vs e (Collect_function resume r h) \<and>
    collected h (take n vs) (if n \<le> length vs then None else e) (CollectN_function (int n) resume (\<lambda>_. r) h)"
proof -
  have "room h (length (take n vs))" using assms(3) by (simp add: room_def)
  then have "collected h (take n vs) (if n \<le> length vs then None else e) (CollectN_function (int n) resume (\<lambda>_. r) h)"
    using CollectN_function_spec[OF assms(1,2) _ assms(4)] CollectN_function_none[OF assms(1), of resume "\<lambda>_. r"]
    by (cases "n = 0") simp_all
  then show ?thesis using assms by (simp add: Collect_function_eq collect_method_spec)
qed

definition countdown :: "nat \<Rightarrow> (nat, string, nat) reply" where
  "countdown n = (if n = 0 then MESSAGE ''zero'' else SUSPEND n (n - 1))"

lemma list_collect_correct_witness:
  "(\<exists>h'. collect_method countdown (countdown 3) sample_heap = Some (MESSAGE ''zero'', h')) \<and>
   (\<exists>l h'. CollectN_function 2 countdown (\<lambda>_. countdown 3) sample_heap = Some (SUCCESS l, h') \<and> is_list h' l [3, 2])"
proof -
  have "yields countdown (countdown 3) [3, 2, 1] (Some ''zero'')"
    by (simp add: countdown_def yields.intros)
  with list_collect_correct[of sample_heap countdown "countdown 3" "[3, 2, 1]" "Some ''zero''" 2]
    sample_rep sample_room show ?thesis
    by (auto simp: collected_def rep_def lrep_def intro: makes_is_list)
qed

end
