(* ===== verification/ListSort.thy ===== *)
theory ListSort
  imports ListFold "HOL-Library.Multiset"
begin

text \<open>
  The merge sort of \<^verbatim>\<open>dev/src/lib/Agg/List.c\<close>: \<^verbatim>\<open>sort\<close> merges neighbouring runs of 1, 2, 4, ...
  nodes in place (\<^verbatim>\<open>sort2\<close> is in \<^verbatim>\<open>ListTape\<close>).
  It exists with the order \<^verbatim>\<open><\<close> of the elements and with a given function.
\<close>

section \<open>Definitions: sort\<close>

text \<open>
  \<^verbatim>\<open>if (Tail) Tail->Next = E; else Head = E; E->Prev = Tail; Tail = E\<close>: the new head and heap.
\<close>

definition append_sorted :: "'v heap \<Rightarrow> ptr \<Rightarrow> ptr \<Rightarrow> ptr \<Rightarrow> (ptr \<times> 'v heap) option" where
  "append_sorted h head tail e = do {
     (head, h) \<leftarrow> (if tail \<noteq> 0 then do { h \<leftarrow> set_next h tail e; Some (head, h) } else Some (e, h));
     h \<leftarrow> set_prev h e tail;
     Some (head, h) }"

text \<open>
  The merge of a run of \<open>psize\<close> nodes at \<open>p\<close> and one of at most \<open>qsize\<close> nodes at \<open>q\<close>; it returns the
  new head and tail of the output and the node after the second run, or a message.
\<close>

function merge_runs ::
  "'v fun2 \<Rightarrow> 'v heap \<Rightarrow> ptr \<Rightarrow> ptr \<Rightarrow> ptr \<Rightarrow> nat \<Rightarrow> ptr \<Rightarrow> nat \<Rightarrow>
   (('v + ptr \<times> ptr \<times> ptr) \<times> 'v heap) option" where
  "merge_runs lt h head tail p psize q qsize =
     (if 0 < psize \<or> 0 < qsize \<and> q \<noteq> 0 then do {
        r \<leftarrow> (if psize = 0 then Some FAILURE
              else if qsize = 0 \<or> q = 0 then Some (SUCCESS ())
              else do { x \<leftarrow> get_value h p; y \<leftarrow> get_value h q; Some (map_reply (\<lambda>_. ()) id id (lt x y)) });
        case r of
          MESSAGE m \<Rightarrow> Some (Inl m, h)
        | FAILURE \<Rightarrow> do {
            q' \<leftarrow> get_next h q;
            (head, h) \<leftarrow> append_sorted h head tail q;
            if qsize = 0 then None else merge_runs lt h head q p psize q' (qsize - 1) }
        | _ \<Rightarrow> do {
            p' \<leftarrow> get_next h p;
            (head, h) \<leftarrow> append_sorted h head tail p;
            if psize = 0 then None else merge_runs lt h head p p' (psize - 1) q qsize } }
      else Some (Inr (head, tail, q), h))"
  by pat_completeness auto
termination by (relation "measure (\<lambda>(lt, h, head, tail, p, psize, q, qsize). psize + qsize)") auto

text \<open>\<^verbatim>\<open>for (int I = 0; I < InSize; I++) {PSize++; Q = Q->Next; if (!Q) break;}\<close>\<close>

fun skip_run :: "'v heap \<Rightarrow> ptr \<Rightarrow> nat \<Rightarrow> (ptr \<times> nat) option" where
  "skip_run h q 0 = Some (q, 0)"
| "skip_run h q (Suc n) = do {
     q \<leftarrow> get_next h q;
     if q = 0 then Some (q, 1)
     else do { (q, size) \<leftarrow> skip_run h q n; Some (q, Suc size) } }"

partial_function (option) sort_pass ::
  "'v fun2 \<Rightarrow> nat \<Rightarrow> 'v heap \<Rightarrow> ptr \<Rightarrow> ptr \<Rightarrow> ptr \<Rightarrow> nat \<Rightarrow>
   (('v + ptr \<times> ptr \<times> nat) \<times> 'v heap) option" where
  "sort_pass lt insize h head tail p nmerges =
     (if p = 0 then Some (Inr (head, tail, nmerges), h)
      else do {
        (q, psize) \<leftarrow> skip_run h p insize;
        (r, h) \<leftarrow> merge_runs lt h head tail p psize q insize;
        case r of
          Inl m \<Rightarrow> Some (Inl m, h)
        | Inr (head, tail, p) \<Rightarrow> sort_pass lt insize h head tail p (nmerges + 1) })"

partial_function (option) sort_loop ::
  "'v fun2 \<Rightarrow> nat \<Rightarrow> 'v heap \<Rightarrow> ptr \<Rightarrow> (('v + ptr \<times> ptr) \<times> 'v heap) option" where
  "sort_loop lt insize h p = do {
     (r, h) \<leftarrow> sort_pass lt insize h 0 0 p 0;
     case r of
       Inl m \<Rightarrow> Some (Inl m, h)
     | Inr (head, tail, nmerges) \<Rightarrow> do {
         h \<leftarrow> set_next h tail 0;
         if nmerges \<le> 1 then Some (Inr (head, tail), h)
         else sort_loop lt (insize * 2) h head } }"

declare sort_pass.simps [code] sort_loop.simps [code]

definition sort_method ::
  "'v fun2 \<Rightarrow> 'v heap \<Rightarrow> lst \<Rightarrow> ((unit, 'v, unit) reply \<times> 'v heap \<times> lst) option" where
  "sort_method lt h l = do {
     l \<leftarrow> wrlock l;
     if Length l \<le> 1 then do { l \<leftarrow> unlock l; Some (SUCCESS (), h, l) }
     else do {
       (r, h) \<leftarrow> sort_loop lt 1 h (Head l);
       case r of
         Inl m \<Rightarrow> do { l \<leftarrow> unlock l; Some (MESSAGE m, h, l) }
       | Inr (head, tail) \<Rightarrow> do {
           l \<leftarrow> unlock (l\<lparr>Head := head, Tail := tail, Index := 1, Cache := head, Access := 4, Array := None\<rparr>);
           Some (SUCCESS (), h, l) } } }"

definition sort_by_method ::
  "'v heap \<Rightarrow> lst \<Rightarrow> 'v fun2 \<Rightarrow> ((unit, 'v, unit) reply \<times> 'v heap \<times> lst) option" where
  "sort_by_method h l lt = do {
     l \<leftarrow> wrlock l;
     if Length l \<le> 1 then do { l \<leftarrow> unlock l; Some (SUCCESS (), h, l) }
     else do {
       (r, h) \<leftarrow> sort_loop lt 1 h (Head l);
       case r of
         Inl m \<Rightarrow> do { l \<leftarrow> unlock l; Some (MESSAGE m, h, l) }
       | Inr (head, tail) \<Rightarrow> do {
           l \<leftarrow> unlock (l\<lparr>Head := head, Tail := tail, Index := 1, Cache := head, Access := 4, Array := None\<rparr>);
           Some (SUCCESS (), h, l) } } }"

section \<open>Merging on value lists\<close>

text \<open>
  The merge as the code does it, on nodes and values: the first run's head goes first if it is less;
  a message of the comparison ends it.
\<close>

fun merge_spec ::
  "'v fun2 \<Rightarrow> (ptr \<times> 'v) list \<Rightarrow> (ptr \<times> 'v) list \<Rightarrow> 'v + (ptr \<times> 'v) list" where
  "merge_spec lt [] qs = Inr qs"
| "merge_spec lt (p # ps) [] = Inr (p # ps)"
| "merge_spec lt (p # ps) (q # qs) =
     (case lt (snd p) (snd q) of
        MESSAGE m \<Rightarrow> Inl m
      | FAILURE \<Rightarrow> map_sum id (Cons q) (merge_spec lt (p # ps) qs)
      | _ \<Rightarrow> map_sum id (Cons p) (merge_spec lt ps (q # qs)))"

text \<open>
  \<open>before lt x y\<close>: \<open>x\<close> may stand before \<open>y\<close> in a result. For a strict weak order \<open>lt\<close> this is
  "not greater", for a total preorder the order itself.
\<close>

definition before :: "'v fun2 \<Rightarrow> 'v \<Rightarrow> 'v \<Rightarrow> bool" where
  "before lt x y \<longleftrightarrow> picks (lt x) y \<or> lt y x = FAILURE"

abbreviation sorted_by :: "'v fun2 \<Rightarrow> (ptr \<times> 'v) list \<Rightarrow> bool" where
  "sorted_by lt xs \<equiv> sorted_wrt (before lt) (map snd xs)"

definition quiet_order :: "'v fun2 \<Rightarrow> bool" where
  "quiet_order lt \<longleftrightarrow> (\<forall>x y. \<not> sent (lt x) y) \<and> transp (before lt)"

lemma merge_spec_mset: "merge_spec lt ps qs = Inr rs \<Longrightarrow> mset rs = mset ps + mset qs"
  by (induction lt ps qs arbitrary: rs rule: merge_spec.induct)
    (auto split: reply.splits simp: map_sum_def split: sum.splits)

lemma merge_spec_length: "merge_spec lt ps qs = Inr rs \<Longrightarrow> length rs = length ps + length qs"
  using merge_spec_mset[of lt ps qs rs] by (metis mset_append size_mset length_append)

lemma merge_spec_set: "merge_spec lt ps qs = Inr rs \<Longrightarrow> set rs = set ps \<union> set qs"
  using merge_spec_mset[of lt ps qs rs] by (metis set_mset_mset set_mset_union)

lemma merge_spec_total:
  "quiet_order lt \<Longrightarrow> \<exists>rs. merge_spec lt ps qs = Inr rs"
proof (induction lt ps qs rule: merge_spec.induct)
  case (3 lt p ps q qs)
  then have "\<not> sent (lt (snd p)) (snd q)" by (simp add: quiet_order_def)
  with 3 show ?case by (cases "lt (snd p) (snd q)") auto
qed simp_all

lemma merge_spec_sorted:
  "quiet_order lt \<Longrightarrow> sorted_by lt ps \<Longrightarrow> sorted_by lt qs \<Longrightarrow> merge_spec lt ps qs = Inr rs \<Longrightarrow>
   sorted_by lt rs"
proof (induction lt ps qs arbitrary: rs rule: merge_spec.induct)
  case (3 lt p ps q qs)
  have tr: "before lt x z" if "before lt x y" "before lt y z" for x y z
    using 3(4) that unfolding quiet_order_def by (meson transpE)
  show ?case
  proof (cases "lt (snd p) (snd q)")
    case FAILURE
    then obtain rs' where rs: "merge_spec lt (p # ps) qs = Inr rs'" "rs = q # rs'"
      using 3(7) by (auto simp: map_sum_def split: sum.splits)
    have "before lt (snd q) (snd p)" using FAILURE by (simp add: before_def)
    then have "\<forall>x \<in> set rs'. before lt (snd q) (snd x)"
      unfolding merge_spec_set[OF rs(1)] using 3(5,6) tr by auto
    with 3(3)[OF FAILURE 3(4,5) _ rs(1)] 3(6) rs(2) show ?thesis by auto
  next
    case (SUCCESS v)
    then obtain rs' where rs: "merge_spec lt ps (q # qs) = Inr rs'" "rs = p # rs'"
      using 3(7) by (auto simp: map_sum_def split: sum.splits)
    have "before lt (snd p) (snd q)" using SUCCESS by (simp add: before_def)
    then have "\<forall>x \<in> set rs'. before lt (snd p) (snd x)"
      unfolding merge_spec_set[OF rs(1)] using 3(5,6) tr by auto
    with 3(2)[OF SUCCESS 3(4) _ 3(6) rs(1)] 3(5) rs(2) show ?thesis by auto
  next
    case (SUSPEND v u)
    then obtain rs' where rs: "merge_spec lt ps (q # qs) = Inr rs'" "rs = p # rs'"
      using 3(7) by (auto simp: map_sum_def split: sum.splits)
    have "before lt (snd p) (snd q)" using SUSPEND by (simp add: before_def)
    then have "\<forall>x \<in> set rs'. before lt (snd p) (snd x)"
      unfolding merge_spec_set[OF rs(1)] using 3(5,6) tr by auto
    with 3(1)[OF SUSPEND 3(4) _ 3(6) rs(1)] 3(5) rs(2) show ?thesis by auto
  next
    case (MESSAGE m)
    with 3(7) show ?thesis by simp
  qed
qed auto

section \<open>Merging on the heap\<close>

text \<open>\<open>links m xs b\<close>: like \<open>chain\<close>, but the backward links do not matter.\<close>

fun links :: "(ptr \<Rightarrow> 'v node option) \<Rightarrow> (ptr \<times> 'v) list \<Rightarrow> ptr \<Rightarrow> bool" where
  "links m [] b \<longleftrightarrow> True"
| "links m (x # xs) b \<longleftrightarrow>
     (\<exists>a. m (fst x) = Some \<lparr>Value = snd x, Next = first xs b, Prev = a\<rparr>) \<and> links m xs b"

lemma links_cong: "(\<And>p. p \<in> fst ` set xs \<Longrightarrow> m' p = m p) \<Longrightarrow> links m xs b \<Longrightarrow> links m' xs b"
  by (induction xs) auto

lemma links_append [simp]: "links m (xs @ ys) b \<longleftrightarrow> links m xs (first ys b) \<and> links m ys b"
  by (induction xs) auto

lemma chain_links: "chain m a xs b \<Longrightarrow> links m xs b"
  by (induction xs arbitrary: a) auto

lemma links_nonnull: "heap_ok h \<Longrightarrow> links (Nodes h) xs b \<Longrightarrow> 0 \<notin> fst ` set xs"
  by (induction xs) (auto simp: heap_ok_null)

lemma append_sorted_spec:
  assumes "heap_ok h" and "chain (Nodes h) 0 out b" and "Nodes h (fst e) = Some \<lparr>Value = snd e, Next = n, Prev = a\<rparr>"
    and "distinct (map fst (out @ [e]))"
  obtains h' where "append_sorted h (first out 0) (final out 0) (fst e) = Some (first (out @ [e]) 0, h')"
    and "chain (Nodes h') 0 (out @ [e]) n" and "heap_ok h'" and "Fresh h' = Fresh h"
    and "\<And>p. p \<notin> fst ` set (out @ [e]) \<Longrightarrow> Nodes h' p = Nodes h p"
proof (cases out rule: rev_cases)
  case Nil
  let ?h = "store h (fst e) \<lparr>Value = snd e, Next = n, Prev = 0\<rparr>"
  show ?thesis
    by (rule that[of ?h]) (use Nil assms(1,3) in \<open>auto simp: append_sorted_def set_prev_def\<close>)
next
  case (snoc us u)
  have u: "Nodes h (fst u) = Some \<lparr>Value = snd u, Next = b, Prev = final us 0\<rparr>" "fst u \<noteq> 0"
    using assms(1,2) snoc chain_nonnull[OF assms(1,2)] by auto
  let ?h1 = "store h (fst u) \<lparr>Value = snd u, Next = fst e, Prev = final us 0\<rparr>"
  let ?h = "store ?h1 (fst e) \<lparr>Value = snd e, Next = n, Prev = fst u\<rparr>"
  have ok: "heap_ok ?h1" using assms(1) u(1) by (rule heap_ok_store)
  have ne: "fst e \<noteq> fst u" "fst u \<notin> fst ` set us" "fst e \<notin> fst ` set us" using assms(4) snoc by auto
  show ?thesis
  proof (rule that[of ?h])
    show "append_sorted h (first out 0) (final out 0) (fst e) = Some (first (out @ [e]) 0, ?h)"
      using u assms(1,3) ok ne snoc first_nonempty[of out 0 "fst e"]
      by (simp add: append_sorted_def set_next_def set_prev_def)
    show "chain (Nodes ?h) 0 (out @ [e]) n" using snoc assms(2) ne by (auto simp: fun_upd_twist)
    have "Nodes ?h1 (fst e) = Some \<lparr>Value = snd e, Next = n, Prev = a\<rparr>" using ne assms(3) by simp
    with ok show "heap_ok ?h" by (rule heap_ok_store)
  qed (use snoc in auto)
qed

text \<open>
  The state of a merge: \<open>out\<close> has been put out, \<open>ps\<close> and \<open>qs\<close> are still to be merged, and \<open>zs\<close> follows.
\<close>

definition merging ::
  "'v heap \<Rightarrow> (ptr \<times> 'v) list \<Rightarrow> (ptr \<times> 'v) list \<Rightarrow> (ptr \<times> 'v) list \<Rightarrow> (ptr \<times> 'v) list \<Rightarrow> bool" where
  "merging h out ps qs zs \<longleftrightarrow> heap_ok h \<and> (\<exists>b. chain (Nodes h) 0 out b) \<and> (\<exists>b. links (Nodes h) ps b) \<and>
     links (Nodes h) (qs @ zs) 0 \<and> distinct (map fst (out @ ps @ qs @ zs))"

definition untouched :: "'v heap \<Rightarrow> 'v heap \<Rightarrow> (ptr \<times> 'v) list \<Rightarrow> bool" where
  "untouched h h' xs \<longleftrightarrow> Fresh h' = Fresh h \<and> (\<forall>p. p \<notin> fst ` set xs \<longrightarrow> Nodes h' p = Nodes h p)"

lemma untouched_trans: "untouched h h1 xs \<Longrightarrow> untouched h1 h2 ys \<Longrightarrow> set xs \<union> set ys \<subseteq> set zs \<Longrightarrow> untouched h h2 zs"
  unfolding untouched_def by (metis Un_subset_iff image_mono subsetD)

lemma untouched_links:
  "untouched h h' xs \<Longrightarrow> fst ` set xs \<inter> fst ` set ys = {} \<Longrightarrow> links (Nodes h) ys b \<Longrightarrow> links (Nodes h') ys b"
  unfolding untouched_def by (rule links_cong[of ys "Nodes h'" "Nodes h" b], metis disjoint_iff)

lemma merging_second:
  assumes "merging h out ps (q # qs) zs"
  obtains h' where "append_sorted h (first out 0) (final out 0) (fst q) = Some (first (out @ [q]) 0, h')"
    and "get_next h (fst q) = Some (first (qs @ zs) 0)" and "merging h' (out @ [q]) ps qs zs"
    and "untouched h h' (out @ [q])" and "fst q \<noteq> 0" and "get_value h (fst q) = Some (snd q)"
proof -
  from assms obtain b c a where m: "heap_ok h" "chain (Nodes h) 0 out b" "links (Nodes h) ps c"
    "links (Nodes h) (qs @ zs) 0" "distinct (map fst (out @ ps @ (q # qs) @ zs))"
    "Nodes h (fst q) = Some \<lparr>Value = snd q, Next = first (qs @ zs) 0, Prev = a\<rparr>"
    unfolding merging_def by auto
  have d: "distinct (map fst (out @ [q]))" using m(5) by auto
  from append_sorted_spec[OF m(1,2,6) d] obtain h' where
    h': "append_sorted h (first out 0) (final out 0) (fst q) = Some (first (out @ [q]) 0, h')"
      "chain (Nodes h') 0 (out @ [q]) (first (qs @ zs) 0)" "heap_ok h'" "untouched h h' (out @ [q])"
    unfolding untouched_def by metis
  have "links (Nodes h') ps c" "links (Nodes h') (qs @ zs) 0"
    by (rule untouched_links[OF h'(4)], use m(3-5) in auto)+
  then have "merging h' (out @ [q]) ps qs zs" using h'(2,3) m(5) unfolding merging_def by auto
  moreover have "fst q \<noteq> 0" using heap_ok_dom[OF m(1,6)] by simp
  ultimately show ?thesis using that h' m(1,6) by (simp add: get_next_def get_value_def)
qed

lemma merging_first:
  assumes "merging h out (p # ps) qs zs"
  obtains h' n where "append_sorted h (first out 0) (final out 0) (fst p) = Some (first (out @ [p]) 0, h')"
    and "get_next h (fst p) = Some n" and "ps \<noteq> [] \<longrightarrow> n = first ps 0" and "merging h' (out @ [p]) ps qs zs"
    and "untouched h h' (out @ [p])" and "get_value h (fst p) = Some (snd p)"
proof -
  from assms obtain b c a where m: "heap_ok h" "chain (Nodes h) 0 out b" "links (Nodes h) ps c"
    "links (Nodes h) (qs @ zs) 0" "distinct (map fst (out @ (p # ps) @ qs @ zs))"
    "Nodes h (fst p) = Some \<lparr>Value = snd p, Next = first ps c, Prev = a\<rparr>"
    unfolding merging_def by auto
  have d: "distinct (map fst (out @ [p]))" using m(5) by auto
  from append_sorted_spec[OF m(1,2,6) d] obtain h' where
    h': "append_sorted h (first out 0) (final out 0) (fst p) = Some (first (out @ [p]) 0, h')"
      "chain (Nodes h') 0 (out @ [p]) (first ps c)" "heap_ok h'" "untouched h h' (out @ [p])"
    unfolding untouched_def by metis
  have "links (Nodes h') ps c" "links (Nodes h') (qs @ zs) 0"
    by (rule untouched_links[OF h'(4)], use m(3-5) in auto)+
  then have "merging h' (out @ [p]) ps qs zs" using h'(2,3) m(5) unfolding merging_def by auto
  then show ?thesis using that[of h' "first ps c"] h' m(1,6) first_nonempty[of ps c 0]
    by (simp add: get_next_def get_value_def)
qed

declare merge_runs.simps [simp del]

lemma merge_spec_nil2 [simp]: "merge_spec lt ps [] = Inr ps"
  by (cases ps) auto

text \<open>One step of the merge, with what the comparison decides as \<open>r\<close>.\<close>

definition merged ::
  "('v + (ptr \<times> 'v) list) \<Rightarrow> 'v heap \<Rightarrow> (ptr \<times> 'v) list \<Rightarrow> (ptr \<times> 'v) list \<Rightarrow> (ptr \<times> 'v) list \<Rightarrow>
   (('v + ptr \<times> ptr \<times> ptr) \<times> 'v heap) option \<Rightarrow> bool" where
  "merged r h out xs zs s \<longleftrightarrow>
     (case r of
        Inl m \<Rightarrow> \<exists>h'. s = Some (Inl m, h')
      | Inr rs \<Rightarrow> \<exists>h'. s = Some (Inr (first (out @ rs) 0, final (out @ rs) 0, first zs 0), h') \<and>
          merging h' (out @ rs) [] [] zs \<and> untouched h h' (out @ xs))"

lemma merged_step:
  assumes "merged r h1 (out @ [x]) xs zs s" and "untouched h h1 (out @ [x])" and "set ys = insert x (set xs)"
  shows "merged (map_sum id (Cons x) r) h out ys zs s"
proof (cases r)
  case (Inr rs)
  with assms(1) obtain h' where
    "s = Some (Inr (first (out @ x # rs) 0, final (out @ x # rs) 0, first zs 0), h')"
    "merging h' (out @ x # rs) [] [] zs" "untouched h1 h' ((out @ [x]) @ xs)"
    by (auto simp: merged_def)
  moreover have "untouched h h' (out @ ys)"
    by (rule untouched_trans[OF assms(2) calculation(3)]) (use assms(3) in auto)
  ultimately show ?thesis using Inr by (simp add: merged_def)
qed (use assms(1) in \<open>simp add: merged_def\<close>)

lemma merge_runs_second:
  assumes "merging h out ps (q # qs) zs" and "ps \<noteq> [] \<longrightarrow> p = first ps 0" and "0 < qsize"
    and "ps = [] \<or> (\<exists>x xs. ps = x # xs \<and> lt (snd x) (snd q) = FAILURE)"
  obtains h' where "merge_runs lt h (first out 0) (final out 0) p (length ps) (first ((q # qs) @ zs) 0) qsize =
      merge_runs lt h' (first (out @ [q]) 0) (final (out @ [q]) 0) p (length ps) (first (qs @ zs) 0) (qsize - 1)"
    and "merging h' (out @ [q]) ps qs zs" and "untouched h h' (out @ [q])"
proof -
  from merging_second[OF assms(1)] obtain h' where
    h': "append_sorted h (first out 0) (final out 0) (fst q) = Some (first (out @ [q]) 0, h')"
      "get_next h (fst q) = Some (first (qs @ zs) 0)" "merging h' (out @ [q]) ps qs zs"
      "untouched h h' (out @ [q])" "fst q \<noteq> 0" "get_value h (fst q) = Some (snd q)" by blast
  have v: "get_value h p = Some (snd x)" if "ps = x # xs" for x xs
    using merging_first[OF assms(1)[unfolded that]] assms(2) that by auto
  have "merge_runs lt h (first out 0) (final out 0) p (length ps) (first ((q # qs) @ zs) 0) qsize =
      merge_runs lt h' (first (out @ [q]) 0) (final (out @ [q]) 0) p (length ps) (first (qs @ zs) 0) (qsize - 1)"
    using assms(3,4) h'(1,2,5,6) v by (subst merge_runs.simps) auto
  with that h'(3,4) show ?thesis by blast
qed

lemma merge_runs_first:
  assumes "merging h out (x # ps) qs zs" and "length qs \<le> qsize" and "zs \<noteq> [] \<longrightarrow> qsize = length qs"
    and "qs = [] \<or> (\<exists>y ys. qs = y # ys \<and> picks (lt (snd x)) (snd y))"
  obtains h' n where "merge_runs lt h (first out 0) (final out 0) (fst x) (Suc (length ps)) (first (qs @ zs) 0) qsize =
      merge_runs lt h' (first (out @ [x]) 0) (final (out @ [x]) 0) n (length ps) (first (qs @ zs) 0) qsize"
    and "ps \<noteq> [] \<longrightarrow> n = first ps 0" and "merging h' (out @ [x]) ps qs zs" and "untouched h h' (out @ [x])"
proof -
  from merging_first[OF assms(1)] obtain h' n where
    h': "append_sorted h (first out 0) (final out 0) (fst x) = Some (first (out @ [x]) 0, h')"
      "get_next h (fst x) = Some n" "ps \<noteq> [] \<longrightarrow> n = first ps 0" "merging h' (out @ [x]) ps qs zs"
      "untouched h h' (out @ [x])" "get_value h (fst x) = Some (snd x)" by blast
  have "merge_runs lt h (first out 0) (final out 0) (fst x) (Suc (length ps)) (first (qs @ zs) 0) qsize =
      merge_runs lt h' (first (out @ [x]) 0) (final (out @ [x]) 0) n (length ps) (first (qs @ zs) 0) qsize"
  proof (cases qs)
    case Nil
    have "qs = [] \<Longrightarrow> qsize = 0 \<or> first zs 0 = 0" using assms(3) by auto
    with Nil h'(1,2) show ?thesis by (subst merge_runs.simps) auto
  next
    case (Cons y ys)
    with assms(4) have "picks (lt (snd x)) (snd y)" by auto
    moreover have "fst y \<noteq> 0" "get_value h (fst y) = Some (snd y)"
      using merging_second[OF assms(1)[unfolded Cons]] by blast+
    ultimately show ?thesis using h'(1,2,6) Cons assms(2)
      by (subst merge_runs.simps) (cases "lt (snd x) (snd y)"; auto)
  qed
  with that h'(3-5) show ?thesis by blast
qed

lemma merge_runs_spec:
  assumes "merging h out ps qs zs" and "ps \<noteq> [] \<longrightarrow> p = first ps 0" and "length qs \<le> qsize"
    and "zs \<noteq> [] \<longrightarrow> qsize = length qs"
  shows "merged (merge_spec lt ps qs) h out (ps @ qs) zs
    (merge_runs lt h (first out 0) (final out 0) p (length ps) (first (qs @ zs) 0) qsize)"
  using assms
proof (induction "length ps + length qs" arbitrary: h out ps qs p qsize)
  case 0
  then have "ps = []" "qs = []" "0 < qsize \<longrightarrow> zs = []" by auto
  with 0 show ?case by (subst merge_runs.simps) (auto simp: merged_def untouched_def)
next
  case (Suc n)
  let ?run = "merge_runs lt h (first out 0) (final out 0) p (length ps) (first (qs @ zs) 0) qsize"
  have second: "merged (map_sum id (Cons q) (merge_spec lt ps us)) h out (ps @ qs) zs ?run"
    if qs: "qs = q # us" and c: "ps = [] \<or> (\<exists>x xs. ps = x # xs \<and> lt (snd x) (snd q) = FAILURE)" for q us
  proof -
    have "0 < qsize" using Suc.prems(3) qs by simp
    from merge_runs_second[where lt = lt and p = p, OF Suc.prems(1)[unfolded qs] Suc.prems(2) this c] obtain h' where
      h': "?run = merge_runs lt h' (first (out @ [q]) 0) (final (out @ [q]) 0) p (length ps) (first (us @ zs) 0) (qsize - 1)"
      "merging h' (out @ [q]) ps us zs" "untouched h h' (out @ [q])" using qs by blast
    have "merged (merge_spec lt ps us) h' (out @ [q]) (ps @ us) zs ?run"
      unfolding h'(1) by (rule Suc.hyps(1)) (use Suc.hyps(2) Suc.prems h'(2) qs in auto)
    from merged_step[OF this h'(3), of "ps @ qs"] qs show ?thesis by simp
  qed
  have first: "merged (map_sum id (Cons x) (merge_spec lt us qs)) h out (ps @ qs) zs ?run"
    if ps: "ps = x # us" and c: "qs = [] \<or> (\<exists>y ys. qs = y # ys \<and> picks (lt (snd x)) (snd y))" for x us
  proof -
    from merge_runs_first[where lt = lt, OF Suc.prems(1)[unfolded ps] Suc.prems(3,4) c] obtain h' n where
      h': "?run = merge_runs lt h' (first (out @ [x]) 0) (final (out @ [x]) 0) n (length us) (first (qs @ zs) 0) qsize"
      "us \<noteq> [] \<longrightarrow> n = first us 0" "merging h' (out @ [x]) us qs zs" "untouched h h' (out @ [x])"
      using Suc.prems(2) ps by auto
    have "merged (merge_spec lt us qs) h' (out @ [x]) (us @ qs) zs ?run"
      unfolding h'(1) by (rule Suc.hyps(1)) (use Suc.hyps(2) Suc.prems h'(2,3) ps in auto)
    from merged_step[OF this h'(4), of "ps @ qs"] ps show ?thesis by simp
  qed
  consider "ps = []" | "qs = []" "ps \<noteq> []" | x xs y ys where "ps = x # xs" "qs = y # ys"
    by (cases ps; cases qs) auto
  then show ?case
  proof cases
    case 1
    then obtain q us where "qs = q # us" using Suc.hyps(2) by (cases qs) auto
    with second[of q us] 1 show ?thesis by simp
  next
    case 2
    then obtain x us where "ps = x # us" by (cases ps) auto
    with first[of x us] 2 show ?thesis by simp
  next
    case (3 x xs y ys)
    show ?thesis
    proof (cases "lt (snd x) (snd y)")
      case (MESSAGE m)
      have "fst y \<noteq> 0" "get_value h (fst y) = Some (snd y)" "get_value h (fst x) = Some (snd x)"
        using merging_second[OF Suc.prems(1)[unfolded 3(2)]] merging_first[OF Suc.prems(1)[unfolded 3(1)]] by blast+
      with MESSAGE 3 Suc.prems(2,3) show ?thesis by (subst merge_runs.simps) (simp add: merged_def)
    qed (use first[of x xs] second[of y ys] 3 in simp_all)
  qed
qed

section \<open>A pass, and all passes\<close>

function pass_spec :: "'v fun2 \<Rightarrow> nat \<Rightarrow> (ptr \<times> 'v) list \<Rightarrow> 'v + (ptr \<times> 'v) list" where
  "pass_spec lt k xs =
     (if xs = [] \<or> k = 0 then Inr []
      else case merge_spec lt (take k xs) (take k (drop k xs)) of
        Inl m \<Rightarrow> Inl m
      | Inr ys \<Rightarrow> map_sum id (append ys) (pass_spec lt k (drop k (drop k xs))))"
  by pat_completeness auto
termination by (relation "measure (\<lambda>(lt, k, xs). length xs)") auto

declare pass_spec.simps [simp del]

text \<open>\<open>runs lt k xs\<close>: the runs of \<open>k\<close> nodes are sorted.\<close>

function runs :: "'v fun2 \<Rightarrow> nat \<Rightarrow> (ptr \<times> 'v) list \<Rightarrow> bool" where
  "runs lt k xs =
     (if xs = [] \<or> k = 0 then True else sorted_by lt (take k xs) \<and> runs lt k (drop k xs))"
  by pat_completeness auto
termination by (relation "measure (\<lambda>(lt, k, xs). length xs)") auto

declare runs.simps [simp del]

lemma runs_nil [simp]: "runs lt k []"
  by (simp add: runs.simps)

lemma runs_step: "0 < k \<Longrightarrow> runs lt k xs \<longleftrightarrow> sorted_by lt (take k xs) \<and> runs lt k (drop k xs)"
  by (cases "xs = []") (simp_all add: runs.simps[of lt k xs])

lemma runs_one: "runs lt (Suc 0) xs"
proof (induction xs)
  case (Cons x xs)
  with runs_step[of "Suc 0" lt "x # xs"] show ?case by simp
qed simp

lemma runs_single: "runs lt k xs \<Longrightarrow> 0 < k \<Longrightarrow> length xs \<le> k \<Longrightarrow> sorted_by lt xs"
  by (simp add: runs_step)

lemma pass_spec_mset: "0 < k \<Longrightarrow> pass_spec lt k xs = Inr rs \<Longrightarrow> mset rs = mset xs"
proof (induction lt k xs arbitrary: rs rule: pass_spec.induct)
  case (1 lt k xs)
  show ?case
  proof (cases "xs = []")
    case True
    with 1(3) show ?thesis by (simp add: pass_spec.simps)
  next
    case False
    with 1(2,3) obtain ys zs where yz: "merge_spec lt (take k xs) (take k (drop k xs)) = Inr ys"
      "pass_spec lt k (drop k (drop k xs)) = Inr zs" "rs = ys @ zs"
      by (subst (asm) pass_spec.simps) (auto simp: map_sum_def split: sum.splits)
    have "mset zs = mset (drop k (drop k xs))" using 1(1)[OF _ yz(1) 1(2) yz(2)] False 1(2) by simp
    moreover have "mset ys = mset (take k xs) + mset (take k (drop k xs))" by (rule merge_spec_mset[OF yz(1)])
    moreover have "xs = take k xs @ take k (drop k xs) @ drop k (drop k xs)" by (metis append_take_drop_id)
    then have "mset xs = mset (take k xs) + mset (take k (drop k xs)) + mset (drop k (drop k xs))"
      by (metis mset_append add.assoc)
    ultimately show ?thesis using yz(3) by simp
  qed
qed

lemma pass_spec_runs:
  "0 < k \<Longrightarrow> quiet_order lt \<Longrightarrow> runs lt k xs \<Longrightarrow> pass_spec lt k xs = Inr rs \<Longrightarrow> runs lt (2 * k) rs"
proof (induction lt k xs arbitrary: rs rule: pass_spec.induct)
  case (1 lt k xs)
  show ?case
  proof (cases "xs = []")
    case True
    with 1(5) show ?thesis by (simp add: pass_spec.simps)
  next
    case False
    with 1(2,5) obtain ys zs where yz: "merge_spec lt (take k xs) (take k (drop k xs)) = Inr ys"
      "pass_spec lt k (drop k (drop k xs)) = Inr zs" "rs = ys @ zs"
      by (subst (asm) pass_spec.simps) (auto simp: map_sum_def split: sum.splits)
    have r: "sorted_by lt (take k xs)" "runs lt k (drop k xs)"
      using 1(4) runs_step[OF 1(2)] by blast+
    then have r2: "sorted_by lt (take k (drop k xs))" "runs lt k (drop k (drop k xs))"
      using runs_step[OF 1(2)] by blast+
    have z: "runs lt (2 * k) zs" using 1(1)[OF _ yz(1) 1(2,3) r2(2) yz(2)] False 1(2) by simp
    have y: "sorted_by lt ys" by (rule merge_spec_sorted[OF 1(3) r(1) r2(1) yz(1)])
    have l: "length ys = min k (length xs) + min k (length xs - k)" using merge_spec_length[OF yz(1)] by simp
    show ?thesis
    proof (cases "length ys = 2 * k")
      case True
      with y z runs_step[of "2 * k" lt "ys @ zs"] 1(2) show ?thesis unfolding yz(3) by simp
    next
      case short: False
      then have "drop k (drop k xs) = []" using l by auto
      then have "zs = []" using yz(2) by (simp add: pass_spec.simps)
      then show ?thesis using y l 1(2) runs_step[of "2 * k" lt ys] unfolding yz(3) by simp
    qed
  qed
qed

lemma pass_spec_total: "quiet_order lt \<Longrightarrow> \<exists>rs. pass_spec lt k xs = Inr rs"
proof (induction lt k xs rule: pass_spec.induct)
  case (1 lt k xs)
  from merge_spec_total[OF 1(2), of "take k xs" "take k (drop k xs)"] obtain ys where
    ys: "merge_spec lt (take k xs) (take k (drop k xs)) = Inr ys" by blast
  show ?case
  proof (cases "xs = [] \<or> k = 0")
    case False
    from 1(1)[OF False ys 1(2)] obtain zs where "pass_spec lt k (drop k (drop k xs)) = Inr zs" by blast
    with ys show ?thesis by (subst pass_spec.simps) simp
  qed (auto simp: pass_spec.simps)
qed

lemma skip_run_spec:
  assumes "heap_ok h"
  shows "links (Nodes h) xs 0 \<Longrightarrow> xs \<noteq> [] \<Longrightarrow>
    skip_run h (first xs 0) k = Some (first (drop k xs) 0, length (take k xs))"
proof (induction k arbitrary: xs)
  case (Suc k)
  then obtain x ys where xs: "xs = x # ys" by (cases xs) auto
  with Suc.prems assms have n: "get_next h (fst x) = Some (first ys 0)" "links (Nodes h) ys 0"
    by (auto simp: get_next_def)
  from links_nonnull[OF assms n(2)] have "ys \<noteq> [] \<Longrightarrow> first ys 0 \<noteq> 0" by (cases ys) auto
  with n xs Suc.IH[OF n(2)] show ?case by (cases "ys = []") auto
qed simp

lemma merging_next:
  "merging h out [] [] xs \<Longrightarrow> xs = ps @ qs @ zs \<Longrightarrow> merging h out ps qs zs"
  by (auto simp: merging_def)

definition merges :: "nat \<Rightarrow> nat \<Rightarrow> nat" where
  "merges k n = (n + (2 * k - 1)) div (2 * k)"

lemma merges_0 [simp]: "0 < k \<Longrightarrow> merges k 0 = 0"
  by (simp add: merges_def)

lemma merges_pos:
  assumes "0 < k" and "0 < n"
  shows "merges k n = Suc (merges k (n - 2 * k))"
proof (cases "n \<le> 2 * k")
  case True
  have "merges k n = ((n - 1) + 2 * k) div (2 * k)" using assms by (simp add: merges_def)
  also have "\<dots> = 1" using True assms by (subst div_add_self2) simp_all
  finally have "merges k n = 1" .
  with True assms show ?thesis by simp
next
  case False
  then have "merges k n = ((n - 2 * k + (2 * k - 1)) + 2 * k) div (2 * k)" by (simp add: merges_def)
  also have "\<dots> = Suc (merges k (n - 2 * k))" using assms by (subst div_add_self2) (simp_all add: merges_def)
  finally show ?thesis .
qed

lemma merges_le_one: "0 < k \<Longrightarrow> merges k n \<le> 1 \<longleftrightarrow> n \<le> 2 * k"
proof -
  assume k: "0 < k"
  show ?thesis
  proof (cases "n \<le> 2 * k")
    case True
    with k show ?thesis using merges_pos[OF k, of n] by (cases "n = 0") simp_all
  next
    case False
    then have "merges k n = Suc (merges k (n - 2 * k))" "merges k (n - 2 * k) = Suc (merges k (n - 2 * k - 2 * k))"
      using k by (intro merges_pos; simp)+
    with False show ?thesis by simp
  qed
qed

lemma sort_pass_spec:
  assumes "0 < k"
  shows "merging h out [] [] xs \<Longrightarrow>
    (case pass_spec lt k xs of
       Inl m \<Rightarrow> \<exists>h'. sort_pass lt k h (first out 0) (final out 0) (first xs 0) n = Some (Inl m, h')
     | Inr rs \<Rightarrow> \<exists>h'. sort_pass lt k h (first out 0) (final out 0) (first xs 0) n =
           Some (Inr (first (out @ rs) 0, final (out @ rs) 0, n + merges k (length xs)), h') \<and>
         merging h' (out @ rs) [] [] [] \<and> untouched h h' (out @ xs))"
proof (induction "length xs" arbitrary: h out xs n rule: less_induct)
  case less
  have ok: "heap_ok h" "links (Nodes h) xs 0" using less.prems by (auto simp: merging_def)
  show ?case
  proof (cases "xs = []")
    case True
    with less.prems assms show ?thesis
      by (subst sort_pass.simps) (simp add: pass_spec.simps untouched_def)
  next
    case False
    define ps qs zs where p: "ps = take k xs" "qs = take k (drop k xs)" "zs = drop k (drop k xs)"
    have xs: "xs = ps @ qs @ zs" unfolding p by (metis append_take_drop_id)
    have ne: "first xs 0 \<noteq> 0" using links_nonnull[OF ok] False by (cases xs) auto
    have ps: "ps \<noteq> []" "first ps 0 = first xs 0" using False assms unfolding p by (cases xs; cases k; simp)+
    have qs: "length qs \<le> k" "zs \<noteq> [] \<longrightarrow> k = length qs" unfolding p by auto
    have "drop k xs = qs @ zs" unfolding p by (rule append_take_drop_id[symmetric])
    then have sk: "skip_run h (first xs 0) k = Some (first (qs @ zs) 0, length ps)"
      using skip_run_spec[OF ok False, of k] p(1) by simp
    have mg: "merged (merge_spec lt ps qs) h out (ps @ qs) zs
        (merge_runs lt h (first out 0) (final out 0) (first xs 0) (length ps) (first (qs @ zs) 0) k)"
      by (rule merge_runs_spec[OF merging_next[OF less.prems xs] _ qs]) (simp add: ps(2))
    show ?thesis
    proof (cases "merge_spec lt ps qs")
      case (Inl m)
      with mg sk ne have "\<exists>h'. sort_pass lt k h (first out 0) (final out 0) (first xs 0) n = Some (Inl m, h')"
        by (subst sort_pass.simps) (auto simp: merged_def)
      with Inl False assms show ?thesis by (subst pass_spec.simps) (simp flip: p del: drop_drop)
    next
      case (Inr ys)
      with mg obtain h1 where m: "merge_runs lt h (first out 0) (final out 0) (first xs 0) (length ps) (first (qs @ zs) 0) k =
          Some (Inr (first (out @ ys) 0, final (out @ ys) 0, first zs 0), h1)"
        "merging h1 (out @ ys) [] [] zs" "untouched h h1 (out @ ps @ qs)" by (auto simp: merged_def)
      have step: "sort_pass lt k h (first out 0) (final out 0) (first xs 0) n =
          sort_pass lt k h1 (first (out @ ys) 0) (final (out @ ys) 0) (first zs 0) (Suc n)"
        using sk m(1) ne by (subst sort_pass.simps) simp
      have len: "length zs < length xs" "length zs = length xs - 2 * k" using ps(1) xs unfolding p by auto
      have mr: "merges k (length xs) = Suc (merges k (length zs))"
        using merges_pos[OF assms] False len(2) by simp
      have sy: "set ys = set ps \<union> set qs" by (rule merge_spec_set[OF Inr])
      have un: "untouched h h' (out @ xs)" if "untouched h1 h' (out @ ys @ zs)" for h'
        by (rule untouched_trans[OF m(3) that]) (use sy in \<open>auto simp: xs\<close>)
      have sp: "pass_spec lt k xs = map_sum id (append ys) (pass_spec lt k zs)"
        using Inr False assms by (subst pass_spec.simps) (simp flip: p del: drop_drop)
      from less.hyps[OF len(1) m(2), of "Suc n"] show ?thesis unfolding step sp mr
        by (cases "pass_spec lt k zs") (auto intro: un)
    qed
  qed
qed

lemma merging_start:
  assumes "heap_ok h" and "chain (Nodes h) a xs 0" and "distinct (map fst xs)"
  shows "merging h [] [] [] xs"
  using assms chain_links[of "Nodes h" a xs 0] by (auto simp: merging_def)

text \<open>What a finished sort has left: the sorted chain, or a message of the comparison.\<close>

definition sorted_to ::
  "'v fun2 \<Rightarrow> 'v heap \<Rightarrow> (ptr \<times> 'v) list \<Rightarrow> (('v + ptr \<times> ptr) \<times> 'v heap) option \<Rightarrow> bool" where
  "sorted_to lt h xs s \<longleftrightarrow>
     (\<exists>m h'. s = Some (Inl m, h') \<and> \<not> quiet_order lt) \<or>
     (\<exists>rs h'. s = Some (Inr (first rs 0, final rs 0), h') \<and> heap_ok h' \<and> chain (Nodes h') 0 rs 0 \<and>
        mset rs = mset xs \<and> untouched h h' xs \<and> (quiet_order lt \<longrightarrow> sorted_by lt rs))"

lemma sort_loop_spec:
  "0 < k \<Longrightarrow> xs \<noteq> [] \<Longrightarrow> merging h [] [] [] xs \<Longrightarrow> quiet_order lt \<longrightarrow> runs lt k xs \<Longrightarrow>
   sorted_to lt h xs (sort_loop lt k h (first xs 0))"
proof (induction "length xs - k" arbitrary: k h xs rule: less_induct)
  case less
  note pass = sort_pass_spec[OF less.prems(1,3), of lt 0]
  show ?case
  proof (cases "pass_spec lt k xs")
    case (Inl m)
    with pass obtain h' where "sort_pass lt k h 0 0 (first xs 0) 0 = Some (Inl m, h')" by auto
    then have "sort_loop lt k h (first xs 0) = Some (Inl m, h')" by (subst sort_loop.simps) simp
    moreover have "\<not> quiet_order lt" using Inl pass_spec_total[of lt k xs] by auto
    ultimately show ?thesis by (simp add: sorted_to_def)
  next
    case (Inr rs)
    with pass obtain h1 where p: "sort_pass lt k h 0 0 (first xs 0) 0 =
        Some (Inr (first rs 0, final rs 0, merges k (length xs)), h1)"
      "merging h1 rs [] [] []" "untouched h h1 xs" by auto
    have mx: "mset rs = mset xs" by (rule pass_spec_mset[OF less.prems(1) Inr])
    then have len: "length rs = length xs" and ne: "rs \<noteq> []" and st: "set rs = set xs"
      using less.prems(2) by (auto dest: mset_eq_length mset_eq_setD)
    have rn: "quiet_order lt \<longrightarrow> runs lt (2 * k) rs"
      using pass_spec_runs[OF less.prems(1) _ _ Inr] less.prems(4) by blast
    from p(2) obtain b where c: "heap_ok h1" "chain (Nodes h1) 0 rs b" "distinct (map fst rs)"
      by (auto simp: merging_def)
    from relink_final[OF c(1,2) ne c(3), of 0 0] obtain h2 nd where
      f: "set_next h1 (final rs 0) 0 = Some h2" "chain (Nodes h2) 0 rs 0"
        "Nodes h2 = (Nodes h1)(final rs 0 \<mapsto> nd)" "heap_ok h2" "Fresh h2 = Fresh h1" by blast
    have "final rs 0 \<in> fst ` set xs" using final_in[OF ne, of 0] st by simp
    then have un: "untouched h h2 xs" using p(3) f(3,5) by (auto simp: untouched_def)
    have step: "sort_loop lt k h (first xs 0) =
        (if length xs \<le> 2 * k then Some (Inr (first rs 0, final rs 0), h2) else sort_loop lt (k * 2) h2 (first rs 0))"
      using p(1) f(1) merges_le_one[OF less.prems(1), of "length xs"] by (subst sort_loop.simps) simp
    show ?thesis
    proof (cases "length xs \<le> 2 * k")
      case True
      have "quiet_order lt \<longrightarrow> sorted_by lt rs" using rn runs_single[of lt "2 * k" rs] less.prems(1) len True by auto
      with True step f(2,4) mx un show ?thesis unfolding sorted_to_def by auto
    next
      case False
      have "sorted_to lt h2 rs (sort_loop lt (k * 2) h2 (first rs 0))"
        using less.hyps[of rs "k * 2" h2] less.prems(1) ne merging_start[OF f(4,2) c(3)] rn len False
        by (simp add: mult.commute)
      then show ?thesis using False step mx st un untouched_trans[OF un, of _ rs xs]
        unfolding sorted_to_def by fastforce
    qed
  qed
qed

lemma sort_method_spec:
  assumes "rep h l xs"
  shows "\<exists>r h' l'. sort_method lt h l = Some (r, h', l') \<and> Lock l' = 0 \<and>
    (r = SUCCESS () \<and> (\<exists>ys. rep h' l' ys \<and> mset ys = mset xs \<and> untouched h h' xs \<and>
       (quiet_order lt \<longrightarrow> sorted_by lt ys)) \<or> (\<exists>m. r = MESSAGE m) \<and> \<not> quiet_order lt)"
proof -
  have L: "Lock l = 0" "Length l = length xs" "Head l = first xs 0" "lrep h l xs" "heap_ok h"
    "chain (Nodes h) 0 xs 0" "distinct (map fst xs)" using assms by (auto simp: rep_def lrep_def)
  show ?thesis
  proof (cases "length xs \<le> 1")
    case True
    then have "sorted_by lt xs" by (cases xs) auto
    moreover have "l\<lparr>Lock := 0\<rparr> = l" using L(1) by (cases l) simp
    ultimately show ?thesis using True L assms
      by (intro exI[of _ "SUCCESS ()"] exI[of _ h] exI[of _ l]) (auto simp: sort_method_def untouched_def)
  next
    case False
    then have ne: "xs \<noteq> []" by auto
    have "sorted_to lt h xs (sort_loop lt (Suc 0) h (first xs 0))"
      by (rule sort_loop_spec[OF _ ne merging_start[OF L(5-7)]]) (simp_all add: runs_one)
    then consider m h' where "sort_loop lt (Suc 0) h (Head l) = Some (Inl m, h')" "\<not> quiet_order lt"
      | ys h' where "sort_loop lt (Suc 0) h (Head l) = Some (Inr (first ys 0, final ys 0), h')" "heap_ok h'"
        "chain (Nodes h') 0 ys 0" "mset ys = mset xs" "untouched h h' xs" "quiet_order lt \<longrightarrow> sorted_by lt ys"
      unfolding sorted_to_def L(3) by blast
    then show ?thesis
    proof cases
      case (1 m h')
      then show ?thesis using False L by (auto simp: sort_method_def)
    next
      case (2 ys h')
      let ?l = "l\<lparr>Head := first ys 0, Tail := final ys 0, Index := 1, Cache := first ys 0, Access := 4,
        Array := None, Lock := 0\<rparr>"
      have "mset (map fst ys) = mset (map fst xs)" using 2(4) by simp
      then have "distinct (map fst ys)" using L(7) mset_eq_imp_distinct_iff by blast
      moreover have "length ys = length xs" using 2(4) by (rule mset_eq_length)
      ultimately have "rep h' ?l ys" unfolding rep_def
        by (intro conjI lrep_reset) (use 2 L in auto)
      moreover have "sort_method lt h l = Some (SUCCESS (), h', ?l)"
        using 2(1) False L by (simp add: sort_method_def)
      ultimately show ?thesis using 2(4-6) by (intro exI[of _ "SUCCESS ()"] exI[of _ h'] exI[of _ ?l]) auto
    qed
  qed
qed

lemma sort_by_method_eq: "sort_by_method h l lt = sort_method lt h l"
  by (simp add: sort_by_method_def sort_method_def)

text \<open>
  C16: Both \<^verbatim>\<open>sort\<close> methods end on every list, whatever the comparison answers, and leave it
  unlocked. When they succeed, the list is well-formed again and holds the same nodes with the same
  values in another order, and no other node has changed. With an order that is transitive and never
  sends a message they always succeed, and the values come out sorted.
\<close>

theorem list_sort_correct:
  assumes "rep h l xs"
  shows "(\<exists>r h' l'. sort_method lt h l = Some (r, h', l') \<and> Lock l' = 0 \<and>
      (r = SUCCESS () \<and> (\<exists>ys. rep h' l' ys \<and> mset ys = mset xs \<and> untouched h h' xs \<and>
         (quiet_order lt \<longrightarrow> sorted_by lt ys)) \<or> (\<exists>m. r = MESSAGE m) \<and> \<not> quiet_order lt)) \<and>
    sort_by_method h l lt = sort_method lt h l"
  using sort_method_spec[OF assms] sort_by_method_eq by (intro conjI)

definition above_nat :: "nat fun2" where
  "above_nat x y = (if y < x then SUCCESS x else FAILURE)"

lemma above_nat_quiet: "quiet_order above_nat"
  by (auto simp: quiet_order_def before_def above_nat_def transp_def split: if_splits)

lemma above_nat_before: "before above_nat x y \<longleftrightarrow> y \<le> x"
  by (auto simp: before_def above_nat_def)

lemma list_sort_correct_witness:
  "\<exists>h l ys. sort_method above_nat sample_heap sample_list = Some (SUCCESS (), h, l) \<and> rep h l ys \<and>
     mset ys = {#(1, 10), (2, 20), (3, 30)#} \<and> sorted_wrt (\<ge>) (map snd ys)"
  using list_sort_correct[OF sample_rep, of above_nat] above_nat_quiet
  by (auto simp: above_nat_before[abs_def])

text \<open>
  A comparison that fails on 10 and 20 and sends a message on 20 and 30.
\<close>

definition moody :: "nat fun2" where
  "moody x y = (if x = 20 \<and> y = 30 \<or> x = 30 \<and> y = 20 then MESSAGE 99 else FAILURE)"

text \<open>
  A message of the comparison in the middle of \<^verbatim>\<open>sort\<close> is passed on with the lock released, but
  the list keeps the head it had before while its nodes have been relinked: of the three values only
  two can still be reached, although the length is still three.
\<close>

theorem list_sort_message:
  "case sort_method moody sample_heap sample_list of
     Some (r, h, l) \<Rightarrow> r = MESSAGE 99 \<and> Lock l = 0 \<and> Length l = 3 \<and> Head l \<noteq> 0 \<and>
       get_next h (Head l) = Some 3 \<and> get_next h 3 = Some 0
   | None \<Rightarrow> False"
  by code_simp

end
