(* ===== verification/ListTape.thy ===== *)
theory ListTape
  imports ListSort
begin

text \<open>
  The method \<^verbatim>\<open>sort2\<close> of \<^verbatim>\<open>dev/src/lib/Agg/List.c\<close>: the nodes are dealt to two tapes, whose
  blocks of 1, 2, 4, ... nodes are merged alternately to two other tapes and back.
\<close>

section \<open>Definitions\<close>

text \<open>
  The four tapes are numbered 0 to 3; \<open>junk\<close> is what the stack holds before they are set: the code
  sets the counts of tapes 0 and 1 and the head of tape 0 only.
\<close>

record tape =
  THead :: ptr
  TTail :: ptr
  TCount :: nat

partial_function (option) deal ::
  "'v heap \<Rightarrow> (nat \<Rightarrow> tape) \<Rightarrow> nat \<Rightarrow> ptr \<Rightarrow> ('v heap \<times> (nat \<Rightarrow> tape)) option" where
  "deal h tp base node =
     (if node = 0 then Some (h, tp)
      else do {
        n \<leftarrow> get_next h node;
        h \<leftarrow> set_next h node (THead (tp base));
        deal h (tp(base := (tp base)\<lparr>THead := node, TCount := inc32 (TCount (tp base))\<rparr>))
          (Bit_Operations.xor base 1) n })"

text \<open>The chosen tape's first node goes to the end of the output tape.\<close>

definition put_out :: "'v heap \<Rightarrow> (nat \<Rightarrow> tape) \<Rightarrow> nat \<Rightarrow> nat \<Rightarrow> ('v heap \<times> (nat \<Rightarrow> tape)) option" where
  "put_out h tp chosen dest = do {
     let node = THead (tp chosen);
     n \<leftarrow> get_next h node;
     let tp = tp(chosen := (tp chosen)\<lparr>THead := n, TCount := dec32 (TCount (tp chosen))\<rparr>);
     (h, tp) \<leftarrow>
       (if TCount (tp dest) = 0 then Some (h, tp(dest := (tp dest)\<lparr>THead := node\<rparr>))
        else do { h \<leftarrow> set_next h (TTail (tp dest)) node; Some (h, tp) });
     Some (h, tp(dest := (tp dest)\<lparr>TTail := node, TCount := inc32 (TCount (tp dest))\<rparr>)) }"

text \<open>\<open>t0\<close>, \<open>t1\<close> and \<open>dest\<close> are the numbers of \<^verbatim>\<open>Tape0\<close>, \<^verbatim>\<open>Tape1\<close> and \<^verbatim>\<open>OutputTape\<close>.\<close>

function merge_blocks ::
  "'v fun2 \<Rightarrow> nat \<Rightarrow> nat \<Rightarrow> nat \<Rightarrow> 'v heap \<Rightarrow> (nat \<Rightarrow> tape) \<Rightarrow> nat \<Rightarrow> nat \<Rightarrow>
   (('v + (nat \<Rightarrow> tape)) \<times> 'v heap) option" where
  "merge_blocks lt t0 t1 dest h tp n0 n1 =
     (if n0 = 0 \<or> TCount (tp t0) = 0 then
        (if n1 = 0 \<or> TCount (tp t1) = 0 then Some (Inr tp, h)
         else do { (h, tp) \<leftarrow> put_out h tp t1 dest; merge_blocks lt t0 t1 dest h tp n0 (n1 - 1) })
      else if n1 = 0 \<or> TCount (tp t1) = 0 then
        do { (h, tp) \<leftarrow> put_out h tp t0 dest; merge_blocks lt t0 t1 dest h tp (n0 - 1) n1 }
      else do {
        x \<leftarrow> get_value h (THead (tp t0));
        y \<leftarrow> get_value h (THead (tp t1));
        if sent (lt x) y then (case lt x y of MESSAGE m \<Rightarrow> Some (Inl m, h) | _ \<Rightarrow> None)
        else if lt x y = FAILURE then
          do { (h, tp) \<leftarrow> put_out h tp t1 dest; merge_blocks lt t0 t1 dest h tp n0 (n1 - 1) }
        else
          do { (h, tp) \<leftarrow> put_out h tp t0 dest; merge_blocks lt t0 t1 dest h tp (n0 - 1) n1 } })"
  by pat_completeness auto
termination by (relation "measure (\<lambda>(lt, t0, t1, dest, h, tp, n0, n1). n0 + n1)") auto

partial_function (option) sort2_pass ::
  "'v fun2 \<Rightarrow> nat \<Rightarrow> nat \<Rightarrow> nat \<Rightarrow> 'v heap \<Rightarrow> (nat \<Rightarrow> tape) \<Rightarrow> (('v + (nat \<Rightarrow> tape)) \<times> 'v heap) option" where
  "sort2_pass lt block base dest h tp =
     (if TCount (tp base) = 0 then Some (Inr tp, h)
      else do {
        (r, h) \<leftarrow> merge_blocks lt base (base + 1) dest h tp block block;
        case r of
          Inl m \<Rightarrow> Some (Inl m, h)
        | Inr tp \<Rightarrow> sort2_pass lt block base (Bit_Operations.xor dest 1) h tp })"

definition empty_tapes :: "(nat \<Rightarrow> tape) \<Rightarrow> nat \<Rightarrow> nat \<Rightarrow> tape" where
  "empty_tapes tp dest = tp(dest := (tp dest)\<lparr>TCount := 0\<rparr>, dest + 1 := (tp (dest + 1))\<lparr>TCount := 0\<rparr>)"

partial_function (option) sort2_loop ::
  "'v fun2 \<Rightarrow> nat \<Rightarrow> nat \<Rightarrow> 'v heap \<Rightarrow> (nat \<Rightarrow> tape) \<Rightarrow> (('v + tape) \<times> 'v heap) option" where
  "sort2_loop lt block base h tp =
     (if TCount (tp (base + 1)) = 0 then Some (Inr (tp base), h)
      else do {
        let dest = Bit_Operations.xor base 2;
        (r, h) \<leftarrow> sort2_pass lt block base dest h (empty_tapes tp dest);
        case r of
          Inl m \<Rightarrow> Some (Inl m, h)
        | Inr tp \<Rightarrow> sort2_loop lt (u32 (2 * block)) dest h tp })"

partial_function (option) fix_prev :: "'v heap \<Rightarrow> ptr \<Rightarrow> ptr \<Rightarrow> 'v heap option" where
  "fix_prev h prev node =
     (if node = 0 then Some h
      else do {
        h \<leftarrow> set_prev h node prev;
        n \<leftarrow> get_next h node;
        fix_prev h node n })"

declare deal.simps [code] sort2_pass.simps [code] sort2_loop.simps [code] fix_prev.simps [code]

definition sort2_method ::
  "(nat \<Rightarrow> tape) \<Rightarrow> 'v fun2 \<Rightarrow> 'v heap \<Rightarrow> lst \<Rightarrow> ((unit, 'v, unit) reply \<times> 'v heap \<times> lst) option" where
  "sort2_method junk lt h l = do {
     l \<leftarrow> wrlock l;
     if Length l \<le> 1 then do { l \<leftarrow> unlock l; Some (SUCCESS (), h, l) }
     else do {
       let tp = junk(0 := (junk 0)\<lparr>THead := 0, TCount := 0\<rparr>, 1 := (junk 1)\<lparr>TCount := 0\<rparr>);
       (h, tp) \<leftarrow> deal h tp 0 (Head l);
       (r, h) \<leftarrow> sort2_loop lt 1 0 h tp;
       case r of
         Inl m \<Rightarrow> do { l \<leftarrow> unlock l; Some (MESSAGE m, h, l) }
       | Inr t \<Rightarrow> do {
           h \<leftarrow> set_next h (TTail t) 0;
           h \<leftarrow> fix_prev h 0 (THead t);
           l \<leftarrow> unlock (l\<lparr>Head := THead t, Tail := TTail t, Index := 1, Cache := THead t, Access := 4, Array := None\<rparr>);
           Some (SUCCESS (), h, l) } } }"

definition sort2_by_method ::
  "(nat \<Rightarrow> tape) \<Rightarrow> 'v heap \<Rightarrow> lst \<Rightarrow> 'v fun2 \<Rightarrow> ((unit, 'v, unit) reply \<times> 'v heap \<times> lst) option" where
  "sort2_by_method junk h l lt = do {
     l \<leftarrow> wrlock l;
     if Length l \<le> 1 then do { l \<leftarrow> unlock l; Some (SUCCESS (), h, l) }
     else do {
       let tp = junk(0 := (junk 0)\<lparr>THead := 0, TCount := 0\<rparr>, 1 := (junk 1)\<lparr>TCount := 0\<rparr>);
       (h, tp) \<leftarrow> deal h tp 0 (Head l);
       (r, h) \<leftarrow> sort2_loop lt 1 0 h tp;
       case r of
         Inl m \<Rightarrow> do { l \<leftarrow> unlock l; Some (MESSAGE m, h, l) }
       | Inr t \<Rightarrow> do {
           h \<leftarrow> set_next h (TTail t) 0;
           h \<leftarrow> fix_prev h 0 (THead t);
           l \<leftarrow> unlock (l\<lparr>Head := THead t, Tail := TTail t, Index := 1, Cache := THead t, Access := 4, Array := None\<rparr>);
           Some (SUCCESS (), h, l) } } }"

section \<open>Tapes as lists\<close>

text \<open>
  \<open>dealt k a b\<close>: the two tapes hold, alternately and beginning with \<open>a\<close>, blocks of \<open>k\<close> nodes, the
  last of which may be shorter.
\<close>

inductive dealt :: "nat \<Rightarrow> 'a list \<Rightarrow> 'a list \<Rightarrow> bool" for k where
  dealt_nil: "dealt k [] []"
| dealt_one: "a \<noteq> [] \<Longrightarrow> length a \<le> k \<Longrightarrow> dealt k a []"
| dealt_swap: "length x = k \<Longrightarrow> y \<noteq> [] \<Longrightarrow> dealt k y a \<Longrightarrow> dealt k (x @ a) y"

inductive_cases dealt_Nil1: "dealt k [] b"

lemma dealt_empty: "dealt k [] b \<Longrightarrow> 0 < k \<Longrightarrow> b = []"
  by (auto elim: dealt_Nil1)

lemma dealt_step:
  assumes "dealt k a b" and "0 < k"
  shows "dealt k (drop k a) (drop k b)"
  using assms(1)
proof (cases rule: dealt.cases)
  case (dealt_swap x us)
  from dealt_swap(4) show ?thesis
  proof (cases rule: dealt.cases)
    case dealt_one
    with dealt_swap show ?thesis by (simp add: dealt_nil)
  qed (use dealt_swap in auto)
qed (auto intro: dealt_nil)

lemma dealt_full:
  assumes "dealt k a b" and "drop k a \<noteq> []"
  shows "k \<le> length b"
  using assms(1)
proof (cases rule: dealt.cases)
  case (dealt_swap x us)
  from dealt_swap(4) show ?thesis by (cases rule: dealt.cases) (use dealt_swap assms(2) in auto)
qed (use assms(2) in auto)

lemma dealt_total: "dealt k a b \<Longrightarrow> 0 < k \<Longrightarrow> b = [] \<longleftrightarrow> length a + length b \<le> k"
  by (induction rule: dealt.induct) auto

lemma dealt_by_one: "length b \<le> length a \<Longrightarrow> length a \<le> Suc (length b) \<Longrightarrow> dealt (Suc 0) a b"
proof (induction "length a + length b" arbitrary: a b rule: less_induct)
  case less
  show ?case
  proof (cases a)
    case Nil
    with less.prems show ?thesis by (simp add: dealt_nil)
  next
    case (Cons x xs)
    show ?thesis
    proof (cases "b = []")
      case True
      with less.prems Cons show ?thesis by (simp add: dealt_one)
    next
      case False
      then have "dealt (Suc 0) b xs" using less Cons by simp
      from dealt_swap[OF _ False this, of "[x]"] Cons show ?thesis by simp
    qed
  qed
qed

function tape_pass ::
  "'v fun2 \<Rightarrow> nat \<Rightarrow> (ptr \<times> 'v) list \<Rightarrow> (ptr \<times> 'v) list \<Rightarrow> 'v + (ptr \<times> 'v) list \<times> (ptr \<times> 'v) list" where
  "tape_pass lt k a b =
     (if a = [] \<or> k = 0 then Inr ([], [])
      else case merge_spec lt (take k a) (take k b) of
        Inl m \<Rightarrow> Inl m
      | Inr rs \<Rightarrow> map_sum id (\<lambda>(c, d). (rs @ d, c)) (tape_pass lt k (drop k a) (drop k b)))"
  by pat_completeness auto
termination by (relation "measure (\<lambda>(lt, k, a, b). length a)") auto

declare tape_pass.simps [simp del]

text \<open>A pass keeps the nodes, doubles the blocks and keeps their order.\<close>

lemma tape_pass_spec:
  "0 < k \<Longrightarrow> dealt k a b \<Longrightarrow> tape_pass lt k a b = Inr (c, d) \<Longrightarrow>
   dealt (2 * k) c d \<and> mset c + mset d = mset a + mset b \<and>
   (quiet_order lt \<longrightarrow> runs lt k a \<longrightarrow> runs lt k b \<longrightarrow> runs lt (2 * k) c \<and> runs lt (2 * k) d)"
proof (induction lt k a b arbitrary: c d rule: tape_pass.induct)
  case (1 lt k a b)
  show ?case
  proof (cases "a = []")
    case True
    with 1(2-4) show ?thesis
      by (auto simp: tape_pass.simps dealt_nil dest: dealt_empty)
  next
    case False
    with 1(2,4) obtain rs c' d' where p: "merge_spec lt (take k a) (take k b) = Inr rs"
      "tape_pass lt k (drop k a) (drop k b) = Inr (c', d')" "c = rs @ d'" "d = c'"
      by (subst (asm) tape_pass.simps) (auto simp: map_sum_def split: sum.splits)
    have ih: "dealt (2 * k) c' d'" "mset c' + mset d' = mset (drop k a) + mset (drop k b)"
      "quiet_order lt \<Longrightarrow> runs lt k (drop k a) \<Longrightarrow> runs lt k (drop k b) \<Longrightarrow> runs lt (2 * k) c' \<and> runs lt (2 * k) d'"
      using 1(1)[OF _ p(1) 1(2) dealt_step[OF 1(3,2)] p(2)] False 1(2) by blast+
    have mt: "mset (take k x) + mset (drop k x) = mset x" for x :: "(nat \<times> 'a) list"
      by (metis append_take_drop_id mset_append)
    have ms: "mset c + mset d = mset a + mset b"
      using merge_spec_mset[OF p(1)] ih(2) mt[of a] mt[of b] unfolding p(3,4)
      by (simp add: ac_simps) (metis add.assoc add.left_commute)
    have len: "length rs = min k (length a) + min k (length b)" using merge_spec_length[OF p(1)] by simp
    have rs: "rs \<noteq> []" "length rs \<le> 2 * k" using len False 1(2) by (cases a; auto)+
    have full: "length rs = 2 * k" if "c' \<noteq> []"
    proof -
      have "drop k a \<noteq> []" using that p(2) by (auto simp: tape_pass.simps[of lt k "[]"])
      with dealt_full[OF 1(3) this] len show ?thesis by auto
    qed
    have dl: "dealt (2 * k) c d"
    proof (cases "c' = []")
      case True
      with ih(1) 1(2) have "d' = []" by (auto dest: dealt_empty)
      with True rs show ?thesis unfolding p(3,4) by (simp add: dealt_one)
    next
      case False
      show ?thesis unfolding p(3,4) by (rule dealt_swap[OF full[OF False] False ih(1)])
    qed
    have "runs lt (2 * k) c \<and> runs lt (2 * k) d" if q: "quiet_order lt" "runs lt k a" "runs lt k b"
    proof -
      have s: "sorted_by lt rs"
        using merge_spec_sorted[OF q(1) _ _ p(1)] q(2,3) runs_step[OF 1(2)] by blast
      have r: "runs lt (2 * k) c'" "runs lt (2 * k) d'" using ih(3)[OF q(1)] q(2,3) runs_step[OF 1(2)] by blast+
      show ?thesis
      proof (cases "c' = []")
        case True
        with ih(1) 1(2) have "d' = []" by (auto dest: dealt_empty)
        with True s rs(2) 1(2) show ?thesis unfolding p(3,4) by (simp add: runs_step)
      next
        case False
        with full s r 1(2) show ?thesis unfolding p(3,4) by (simp add: runs_step[of "2 * k" lt "rs @ d'"])
      qed
    qed
    with dl ms show ?thesis by blast
  qed
qed

lemma tape_pass_total: "quiet_order lt \<Longrightarrow> \<exists>r. tape_pass lt k a b = Inr r"
proof (induction lt k a b rule: tape_pass.induct)
  case (1 lt k a b)
  from merge_spec_total[OF 1(2), of "take k a" "take k b"] obtain rs where
    rs: "merge_spec lt (take k a) (take k b) = Inr rs" by blast
  show ?case
  proof (cases "a = [] \<or> k = 0")
    case False
    from 1(1)[OF False rs 1(2)] obtain r where "tape_pass lt k (drop k a) (drop k b) = Inr r" by blast
    with rs show ?thesis by (subst tape_pass.simps) simp
  qed (auto simp: tape_pass.simps)
qed

section \<open>Tapes on the heap\<close>

text \<open>\<open>holds m t xs\<close>: tape \<open>t\<close> has the nodes \<open>xs\<close>; \<open>filled m t xs\<close>: its tail is right too.\<close>

definition holds :: "(ptr \<Rightarrow> 'v node option) \<Rightarrow> tape \<Rightarrow> (ptr \<times> 'v) list \<Rightarrow> bool" where
  "holds m t xs \<longleftrightarrow> TCount t = length xs \<and> (xs \<noteq> [] \<longrightarrow> THead t = first xs 0) \<and> (\<exists>b. links m xs b)"

definition filled :: "(ptr \<Rightarrow> 'v node option) \<Rightarrow> tape \<Rightarrow> (ptr \<times> 'v) list \<Rightarrow> bool" where
  "filled m t xs \<longleftrightarrow> holds m t xs \<and> (xs \<noteq> [] \<longrightarrow> TTail t = final xs 0)"

lemma links_dom: "links m xs b \<Longrightarrow> p \<in> fst ` set xs \<Longrightarrow> m p \<noteq> None"
  by (induction xs) auto

lemma links_length:
  assumes "heap_ok h" and "links (Nodes h) xs b" and "distinct (map fst xs)"
  shows "length xs < max_nodes"
proof -
  have "fst ` set xs \<subseteq> {1..<Fresh h}"
    using links_dom[OF assms(2)] assms(1) by (fastforce simp: heap_ok_def Suc_le_eq)
  then have "card (set (map fst xs)) \<le> card {1..<Fresh h}" by (intro card_mono) auto
  then have "length xs \<le> Fresh h - 1" using assms(3) by (metis card_atLeastLessThan distinct_card length_map)
  moreover have "0 < Fresh h" "Fresh h \<le> max_nodes" using assms(1) by (auto simp: heap_ok_def)
  ultimately show ?thesis by simp
qed

lemma holds_untouched:
  "holds (Nodes h) t xs \<Longrightarrow> untouched h h' ys \<Longrightarrow> fst ` set ys \<inter> fst ` set xs = {} \<Longrightarrow> holds (Nodes h') t xs"
  unfolding holds_def using untouched_links by blast

lemma filled_untouched:
  "filled (Nodes h) t xs \<Longrightarrow> untouched h h' ys \<Longrightarrow> fst ` set ys \<inter> fst ` set xs = {} \<Longrightarrow> filled (Nodes h') t xs"
  unfolding filled_def using holds_untouched by blast

lemma holds_Cons:
  assumes "heap_ok h" and "holds (Nodes h) t (x # xs)"
  obtains n a where "Nodes h (fst x) = Some \<lparr>Value = snd x, Next = n, Prev = a\<rparr>"
    and "THead t = fst x" and "TCount t = Suc (length xs)" and "get_next h (fst x) = Some n"
    and "get_value h (fst x) = Some (snd x)" and "xs \<noteq> [] \<longrightarrow> n = first xs 0" and "\<exists>b. links (Nodes h) xs b"
proof -
  from assms(2) obtain b a where "Nodes h (fst x) = Some \<lparr>Value = snd x, Next = first xs b, Prev = a\<rparr>"
    "THead t = fst x" "TCount t = Suc (length xs)" "links (Nodes h) xs b"
    by (auto simp: holds_def)
  then show ?thesis using that[of "first xs b" a] assms(1) first_nonempty[of xs b 0]
    by (auto simp: get_next_def get_value_def)
qed

lemma relink_links:
  assumes "heap_ok h" and "links (Nodes h) xs b" and "xs \<noteq> []" and "distinct (map fst xs)"
  obtains h' where "set_next h (final xs 0) n = Some h'" and "links (Nodes h') xs n" and "heap_ok h'"
    and "untouched h h' xs"
proof -
  obtain us u where xs: "xs = us @ [u]" using assms(3) by (cases xs rule: rev_cases) auto
  from assms(2) obtain a where u: "Nodes h (fst u) = Some \<lparr>Value = snd u, Next = b, Prev = a\<rparr>"
    "links (Nodes h) us (fst u)" unfolding xs by auto
  let ?h = "store h (fst u) \<lparr>Value = snd u, Next = n, Prev = a\<rparr>"
  have un: "untouched h ?h [u]" by (simp add: untouched_def)
  have "fst ` set [u] \<inter> fst ` set us = {}" using assms(4) xs by auto
  from untouched_links[OF un this u(2)] have "links (Nodes ?h) xs n" unfolding xs by simp
  moreover have "set_next h (final xs 0) n = Some ?h" unfolding xs using u(1) assms(1) by (simp add: set_next_def)
  moreover have "heap_ok ?h" using assms(1) u(1) by (rule heap_ok_store)
  moreover have "untouched h ?h xs" unfolding xs by (simp add: untouched_def)
  ultimately show ?thesis using that by blast
qed

lemma put_out_spec:
  assumes "heap_ok h" and "holds (Nodes h) (tp t) (x # xs)" and "filled (Nodes h) (tp dest) c" and "t \<noteq> dest"
    and "distinct (map fst ((x # xs) @ c))"
  obtains h' tp' where "put_out h tp t dest = Some (h', tp')" and "holds (Nodes h') (tp' t) xs"
    and "filled (Nodes h') (tp' dest) (c @ [x])" and "heap_ok h'" and "untouched h h' c"
    and "\<And>i. i \<noteq> t \<Longrightarrow> i \<noteq> dest \<Longrightarrow> tp' i = tp i"
proof -
  from holds_Cons[OF assms(1,2)] obtain n a where x:
    "Nodes h (fst x) = Some \<lparr>Value = snd x, Next = n, Prev = a\<rparr>" "THead (tp t) = fst x"
    "TCount (tp t) = Suc (length xs)" "get_next h (fst x) = Some n" "get_value h (fst x) = Some (snd x)"
    "xs \<noteq> [] \<longrightarrow> n = first xs 0" "\<exists>b. links (Nodes h) xs b" .
  from assms(3) obtain b where c: "TCount (tp dest) = length c" "c \<noteq> [] \<longrightarrow> THead (tp dest) = first c 0"
    "links (Nodes h) c b" "c \<noteq> [] \<longrightarrow> TTail (tp dest) = final c 0" by (auto simp: filled_def holds_def)
  have d: "distinct (map fst c)" using assms(5) by auto
  have lc: "inc32 (length c) = Suc (length c)"
    using links_length[OF assms(1) c(3) d] by (simp add: max_nodes_def)
  let ?t = "(tp t)\<lparr>THead := n, TCount := length xs\<rparr>"
  let ?d = "(tp dest)\<lparr>THead := first (c @ [x]) 0, TTail := fst x, TCount := Suc (length c)\<rparr>"
  obtain h' where h': "heap_ok h'" "untouched h h' c" "links (Nodes h') c (fst x)"
    "put_out h tp t dest = Some (h', tp(t := ?t, dest := ?d))"
  proof (cases "c = []")
    case True
    with that[of h] show ?thesis using x(2-4) c(1) assms(1,4) lc
      by (simp add: put_out_def untouched_def Let_def)
  next
    case False
    from relink_links[OF assms(1) c(3) False d, of "fst x"] obtain h' where
      "set_next h (final c 0) (fst x) = Some h'" "links (Nodes h') c (fst x)" "heap_ok h'" "untouched h h' c" .
    moreover have "THead (tp dest) = first (c @ [x]) 0" using c(2) False first_nonempty[of c 0 "fst x"] by simp
    then have "tp dest = (tp dest)\<lparr>THead := first (c @ [x]) 0\<rparr>" by simp
    ultimately show ?thesis using that[of h'] x(2-4) c(1,4) assms(4) lc False
      by (simp add: put_out_def Let_def del: first_append)
  qed
  have x': "Nodes h' (fst x) = Nodes h (fst x)" using h'(2) assms(5) by (auto simp: untouched_def)
  have "fst ` set c \<inter> fst ` set xs = {}" using assms(5) by auto
  with x(7) untouched_links[OF h'(2)] have "\<exists>b. links (Nodes h') xs b" by blast
  then have "holds (Nodes h') ?t xs" using x(6) by (simp add: holds_def)
  moreover have "links (Nodes h') (c @ [x]) n" using h'(3) x(1) x' by simp
  then have "filled (Nodes h') ?d (c @ [x])" unfolding filled_def holds_def by (auto simp del: links_append)
  ultimately show ?thesis using that[OF h'(4)] h'(1,2) assms(4) by simp
qed

definition tinv ::
  "'v heap \<Rightarrow> (nat \<Rightarrow> tape) \<Rightarrow> nat \<Rightarrow> nat \<Rightarrow> nat \<Rightarrow> (ptr \<times> 'v) list \<Rightarrow> (ptr \<times> 'v) list \<Rightarrow> (ptr \<times> 'v) list \<Rightarrow> bool" where
  "tinv h tp t0 t1 dest a b c \<longleftrightarrow> heap_ok h \<and> holds (Nodes h) (tp t0) a \<and> holds (Nodes h) (tp t1) b \<and>
     filled (Nodes h) (tp dest) c \<and> distinct (map fst (a @ b @ c)) \<and> t0 \<noteq> t1 \<and> t0 \<noteq> dest \<and> t1 \<noteq> dest"

lemma tinv_swap: "tinv h tp t0 t1 dest a b c \<longleftrightarrow> tinv h tp t1 t0 dest b a c"
  by (auto simp: tinv_def)

lemma tinv_put:
  assumes "tinv h tp t0 t1 dest (x # a) b c"
  obtains h' tp' where "put_out h tp t0 dest = Some (h', tp')" and "tinv h' tp' t0 t1 dest a b (c @ [x])"
    and "untouched h h' c" and "\<forall>i. i \<notin> {t0, t1, dest} \<longrightarrow> tp' i = tp i"
proof -
  have t: "heap_ok h" "holds (Nodes h) (tp t0) (x # a)" "filled (Nodes h) (tp dest) c" "t0 \<noteq> dest"
    "distinct (map fst ((x # a) @ c))" "holds (Nodes h) (tp t1) b" "distinct (map fst ((x # a) @ b @ c))"
    "t1 \<noteq> t0" "t1 \<noteq> dest" using assms by (auto simp: tinv_def)
  from put_out_spec[OF t(1-5)] obtain h' tp' where p: "put_out h tp t0 dest = Some (h', tp')"
    "holds (Nodes h') (tp' t0) a" "filled (Nodes h') (tp' dest) (c @ [x])" "heap_ok h'" "untouched h h' c"
    "\<And>i. i \<noteq> t0 \<Longrightarrow> i \<noteq> dest \<Longrightarrow> tp' i = tp i" by blast
  have "holds (Nodes h') (tp' t1) b"
    unfolding p(6)[OF t(8,9)] by (rule holds_untouched[OF t(6) p(5)]) (use t(7) in auto)
  with p t show ?thesis by (intro that[of h' tp']) (auto simp: tinv_def)
qed

section \<open>Merging blocks\<close>

declare merge_blocks.simps [simp del]

definition blocks_merged ::
  "('v + (ptr \<times> 'v) list) \<Rightarrow> 'v heap \<Rightarrow> (nat \<Rightarrow> tape) \<Rightarrow> nat \<Rightarrow> nat \<Rightarrow> nat \<Rightarrow> (ptr \<times> 'v) list \<Rightarrow> (ptr \<times> 'v) list \<Rightarrow>
   (ptr \<times> 'v) list \<Rightarrow> (ptr \<times> 'v) set \<Rightarrow> (('v + (nat \<Rightarrow> tape)) \<times> 'v heap) option \<Rightarrow> bool" where
  "blocks_merged r h tp t0 t1 dest a b c S s \<longleftrightarrow>
     (case r of
        Inl m \<Rightarrow> \<exists>h'. s = Some (Inl m, h')
      | Inr rs \<Rightarrow> \<exists>h' tp'. s = Some (Inr tp', h') \<and> tinv h' tp' t0 t1 dest a b (c @ rs) \<and>
          Fresh h' = Fresh h \<and> (\<forall>p. p \<notin> fst ` S \<longrightarrow> Nodes h' p = Nodes h p) \<and>
          (\<forall>i. i \<notin> {t0, t1, dest} \<longrightarrow> tp' i = tp i))"

lemma blocks_merged_step:
  assumes "blocks_merged r h1 tp1 t0 t1 dest a b (c @ [x]) S s" and "untouched h h1 c" and "set c \<subseteq> S"
    and "\<forall>i. i \<notin> {t0, t1, dest} \<longrightarrow> tp1 i = tp i"
  shows "blocks_merged (map_sum id (Cons x) r) h tp t0 t1 dest a b c S s"
proof (cases r)
  case (Inr rs)
  with assms(1) obtain h' tp' where s: "s = Some (Inr tp', h')" "tinv h' tp' t0 t1 dest a b (c @ x # rs)"
    "Fresh h' = Fresh h1" "\<And>p. p \<notin> fst ` S \<Longrightarrow> Nodes h' p = Nodes h1 p"
    "\<And>i. i \<notin> {t0, t1, dest} \<Longrightarrow> tp' i = tp1 i"
    by (auto simp: blocks_merged_def)
  have "fst ` set c \<subseteq> fst ` S" using assms(3) by (rule image_mono)
  with assms(2) have u: "Fresh h1 = Fresh h" "\<And>p. p \<notin> fst ` S \<Longrightarrow> Nodes h1 p = Nodes h p"
    unfolding untouched_def by blast+
  show ?thesis using Inr s assms(4) u by (simp add: blocks_merged_def)
qed (use assms(1) in \<open>simp add: blocks_merged_def\<close>)

lemma tinv_head:
  assumes "tinv h tp t0 t1 dest (x # a) b c"
  shows "TCount (tp t0) = Suc (length a)" and "get_value h (THead (tp t0)) = Some (snd x)"
proof -
  have t: "heap_ok h" "holds (Nodes h) (tp t0) (x # a)" using assms by (auto simp: tinv_def)
  from holds_Cons[OF t] show "TCount (tp t0) = Suc (length a)" "get_value h (THead (tp t0)) = Some (snd x)"
    by metis+
qed

lemma tinv_count: "tinv h tp t0 t1 dest a b c \<Longrightarrow> TCount (tp t0) = length a \<and> TCount (tp t1) = length b"
  by (simp add: tinv_def holds_def)

lemma merge_blocks_spec:
  "tinv h tp t0 t1 dest a b c \<Longrightarrow> set a \<union> set b \<union> set c \<subseteq> S \<Longrightarrow>
   blocks_merged (merge_spec lt (take n0 a) (take n1 b)) h tp t0 t1 dest (drop n0 a) (drop n1 b) c S
     (merge_blocks lt t0 t1 dest h tp n0 n1)"
proof (induction "n0 + n1" arbitrary: h tp a b c n0 n1 rule: less_induct)
  case less
  note count = tinv_count[OF less.prems(1)]
  have from0: "blocks_merged (map_sum id (Cons x) (merge_spec lt (take m (a' :: (ptr \<times> 'a) list)) (take n1 b))) h tp t0 t1 dest
      (drop n0 a) (drop n1 b) c S (merge_blocks lt t0 t1 dest h tp n0 n1)"
    if a: "a = x # a'" "n0 = Suc m"
      and step: "merge_blocks lt t0 t1 dest h tp n0 n1 =
        do { (h, tp) \<leftarrow> put_out h tp t0 dest; merge_blocks lt t0 t1 dest h tp (n0 - 1) n1 }" for x a' m
  proof -
    from tinv_put[OF less.prems(1)[unfolded a(1)]] obtain h1 tp1 where p: "put_out h tp t0 dest = Some (h1, tp1)"
      "tinv h1 tp1 t0 t1 dest a' b (c @ [x])" "untouched h h1 c" "\<forall>i. i \<notin> {t0, t1, dest} \<longrightarrow> tp1 i = tp i" .
    have "blocks_merged (merge_spec lt (take m a') (take n1 b)) h1 tp1 t0 t1 dest (drop m a') (drop n1 b) (c @ [x]) S
        (merge_blocks lt t0 t1 dest h1 tp1 m n1)"
      by (rule less.hyps) (use p(2) a less.prems(2) in auto)
    from blocks_merged_step[OF this p(3) _ p(4)] less.prems(2) p(1) a step show ?thesis by simp
  qed
  have from1: "blocks_merged (map_sum id (Cons x) (merge_spec lt (take n0 a) (take m (b' :: (ptr \<times> 'a) list)))) h tp t0 t1 dest
      (drop n0 a) (drop n1 b) c S (merge_blocks lt t0 t1 dest h tp n0 n1)"
    if b: "b = x # b'" "n1 = Suc m"
      and step: "merge_blocks lt t0 t1 dest h tp n0 n1 =
        do { (h, tp) \<leftarrow> put_out h tp t1 dest; merge_blocks lt t0 t1 dest h tp n0 (n1 - 1) }" for x b' m
  proof -
    from tinv_put[OF less.prems(1)[unfolded b(1) tinv_swap[of h tp t0]]] obtain h1 tp1 where
      p: "put_out h tp t1 dest = Some (h1, tp1)" "tinv h1 tp1 t1 t0 dest b' a (c @ [x])" "untouched h h1 c"
        "\<forall>i. i \<notin> {t1, t0, dest} \<longrightarrow> tp1 i = tp i" .
    have "blocks_merged (merge_spec lt (take n0 a) (take m b')) h1 tp1 t0 t1 dest (drop n0 a) (drop m b') (c @ [x]) S
        (merge_blocks lt t0 t1 dest h1 tp1 n0 m)"
      by (rule less.hyps) (use p(2) b less.prems(2) in \<open>auto simp: tinv_swap[of h1 tp1 t1]\<close>)
    moreover have "\<forall>i. i \<notin> {t0, t1, dest} \<longrightarrow> tp1 i = tp i" using p(4) by auto
    ultimately show ?thesis using blocks_merged_step[OF _ p(3)] less.prems(2) p(1) b step by simp
  qed
  consider "n0 = 0 \<or> a = []" "n1 = 0 \<or> b = []"
    | y b' m where "n0 = 0 \<or> a = []" "b = y # b'" "n1 = Suc m"
    | x a' m where "n1 = 0 \<or> b = []" "a = x # a'" "n0 = Suc m"
    | x a' m y b' n where "a = x # a'" "n0 = Suc m" "b = y # b'" "n1 = Suc n"
    by (cases a; cases n0; cases b; cases n1) auto
  then show ?case
  proof cases
    case 1
    have "merge_blocks lt t0 t1 dest h tp n0 n1 = Some (Inr tp, h)"
      using 1 count by (subst merge_blocks.simps) auto
    moreover have "merge_spec lt (take n0 a) (take n1 b) = Inr []" "drop n0 a = a" "drop n1 b = b" using 1 by auto
    ultimately show ?thesis using less.prems(1) by (simp add: blocks_merged_def)
  next
    case (2 y b' m)
    have e: "merge_spec lt (take n0 a) (take n1 b) = map_sum id (Cons y) (merge_spec lt (take n0 a) (take m b'))"
      using 2 by auto
    have "merge_blocks lt t0 t1 dest h tp n0 n1 =
        do { (h, tp) \<leftarrow> put_out h tp t1 dest; merge_blocks lt t0 t1 dest h tp n0 (n1 - 1) }"
      using 2 count by (subst merge_blocks.simps) auto
    from from1[OF 2(2,3) this] show ?thesis unfolding e .
  next
    case (3 x a' m)
    have e: "merge_spec lt (take n0 a) (take n1 b) = map_sum id (Cons x) (merge_spec lt (take m a') (take n1 b))"
      using 3 by auto
    have "merge_blocks lt t0 t1 dest h tp n0 n1 =
        do { (h, tp) \<leftarrow> put_out h tp t0 dest; merge_blocks lt t0 t1 dest h tp (n0 - 1) n1 }"
      using 3 count by (subst merge_blocks.simps) auto
    from from0[OF 3(2,3) this] show ?thesis unfolding e .
  next
    case (4 x a' m y b' n)
    have v: "get_value h (THead (tp t0)) = Some (snd x)" "get_value h (THead (tp t1)) = Some (snd y)"
      using tinv_head(2)[OF less.prems(1)[unfolded 4(1)]]
        tinv_head(2)[OF less.prems(1)[unfolded 4(3) tinv_swap[of h tp t0]]] .
    have u: "merge_blocks lt t0 t1 dest h tp n0 n1 =
        (case lt (snd x) (snd y) of
           MESSAGE m \<Rightarrow> Some (Inl m, h)
         | FAILURE \<Rightarrow> do { (h, tp) \<leftarrow> put_out h tp t1 dest; merge_blocks lt t0 t1 dest h tp n0 (n1 - 1) }
         | _ \<Rightarrow> do { (h, tp) \<leftarrow> put_out h tp t0 dest; merge_blocks lt t0 t1 dest h tp (n0 - 1) n1 })"
      using v 4 count by (subst merge_blocks.simps) (auto split: reply.split)
    show ?thesis
    proof (cases "lt (snd x) (snd y)")
      case (MESSAGE w)
      then show ?thesis using u 4 by (simp add: blocks_merged_def)
    next
      case FAILURE
      then show ?thesis using from1[OF 4(3,4)] u 4 by simp
    qed (use from0[OF 4(1,2)] u 4 in simp_all)
  qed
qed

section \<open>Passes over the tapes\<close>

lemma flips [simp]:
  "Bit_Operations.xor (0 :: nat) 2 = 2" "Bit_Operations.xor (2 :: nat) 2 = 0"
  "Bit_Operations.xor (0 :: nat) (Suc 0) = 1" "Bit_Operations.xor (Suc 0) (Suc 0) = (0 :: nat)"
  "Bit_Operations.xor (2 :: nat) (Suc 0) = 3" "Bit_Operations.xor (3 :: nat) (Suc 0) = 2"
  by (simp_all flip: One_nat_def)

text \<open>The output tapes of a pass with input tapes \<open>base\<close> and \<open>base + 1\<close>.\<close>

definition outputs :: "nat \<Rightarrow> nat \<Rightarrow> bool" where
  "outputs base dest \<longleftrightarrow> base = 0 \<and> (dest = 2 \<or> dest = 3) \<or> base = 2 \<and> (dest = 0 \<or> dest = 1)"

lemma outputs_flip:
  assumes "outputs base dest"
  shows "outputs base (Bit_Operations.xor dest 1)" and "Bit_Operations.xor (Bit_Operations.xor dest 1) 1 = dest"
    and "Bit_Operations.xor dest 1 \<notin> {base, base + 1, dest}" and "dest \<notin> {base, base + 1}"
  using assms by (auto simp: outputs_def)

definition pass_state ::
  "'v heap \<Rightarrow> (nat \<Rightarrow> tape) \<Rightarrow> nat \<Rightarrow> nat \<Rightarrow> (ptr \<times> 'v) list \<Rightarrow> (ptr \<times> 'v) list \<Rightarrow> (ptr \<times> 'v) list \<Rightarrow>
   (ptr \<times> 'v) list \<Rightarrow> bool" where
  "pass_state h tp base dest a b c d \<longleftrightarrow> tinv h tp base (base + 1) dest a b c \<and>
     filled (Nodes h) (tp (Bit_Operations.xor dest 1)) d \<and> distinct (map fst (a @ b @ c @ d))"

lemma sort2_pass_spec:
  assumes "0 < k"
  shows "pass_state h tp base dest a b c d \<Longrightarrow> outputs base dest \<Longrightarrow> dealt k a b \<Longrightarrow>
    set a \<union> set b \<union> set c \<union> set d \<subseteq> S \<Longrightarrow>
    (case tape_pass lt k a b of
       Inl m \<Rightarrow> \<exists>h'. sort2_pass lt k base dest h tp = Some (Inl m, h')
     | Inr (c', d') \<Rightarrow> \<exists>h' tp'. sort2_pass lt k base dest h tp = Some (Inr tp', h') \<and> heap_ok h' \<and>
         filled (Nodes h') (tp' dest) (c @ c') \<and> filled (Nodes h') (tp' (Bit_Operations.xor dest 1)) (d @ d') \<and>
         Fresh h' = Fresh h \<and> (\<forall>p. p \<notin> fst ` S \<longrightarrow> Nodes h' p = Nodes h p))"
proof (induction "length a" arbitrary: h tp dest a b c d rule: less_induct)
  case less
  have t: "tinv h tp base (base + 1) dest a b c" using less.prems(1) by (simp add: pass_state_def)
  show ?case
  proof (cases "a = []")
    case True
    with t less.prems(1) show ?thesis
      by (subst sort2_pass.simps) (simp add: tape_pass.simps tinv_def holds_def pass_state_def)
  next
    case False
    then have ne: "TCount (tp base) \<noteq> 0" using tinv_count[OF t] by simp
    have m: "blocks_merged (merge_spec lt (take k a) (take k b)) h tp base (base + 1) dest (drop k a) (drop k b) c
        (set a \<union> set b \<union> set c) (merge_blocks lt base (base + 1) dest h tp k k)"
      by (rule merge_blocks_spec[OF t order_refl])
    show ?thesis
    proof (cases "merge_spec lt (take k a) (take k b)")
      case (Inl w)
      with m ne False assms show ?thesis
        by (subst sort2_pass.simps) (auto simp: blocks_merged_def tape_pass.simps[of lt k a b])
    next
      case (Inr rs)
      with m obtain h1 tp1 where p: "merge_blocks lt base (base + 1) dest h tp k k = Some (Inr tp1, h1)"
        "tinv h1 tp1 base (base + 1) dest (drop k a) (drop k b) (c @ rs)" "Fresh h1 = Fresh h"
        "\<And>p. p \<notin> fst ` (set a \<union> set b \<union> set c) \<Longrightarrow> Nodes h1 p = Nodes h p"
        "\<And>i. i \<notin> {base, base + 1, dest} \<Longrightarrow> tp1 i = tp i" by (auto simp: blocks_merged_def)
      let ?o = "Bit_Operations.xor dest 1"
      note fl = outputs_flip[OF less.prems(2)]
      have dj: "distinct (map fst (a @ b @ c @ d))" using less.prems(1) by (simp add: pass_state_def)
      have sr: "set rs = set (take k a) \<union> set (take k b)" by (rule merge_spec_set[OF Inr])
      have "set (a @ b @ c) = set a \<union> set b \<union> set c" by auto
      with p(3,4) have un: "untouched h h1 (a @ b @ c)" unfolding untouched_def by metis
      have fd: "filled (Nodes h1) (tp1 ?o) d"
        unfolding p(5)[OF fl(3)] by (rule filled_untouched[OF _ un]) (use less.prems(1) dj in \<open>auto simp: pass_state_def\<close>)
      have dd: "fst ` set d \<inter> fst ` set (drop k a @ drop k b @ c @ rs) = {}"
      proof -
        have "set (drop k a @ drop k b @ c @ rs) \<subseteq> set (a @ b @ c)"
          using sr set_drop_subset[of k a] set_drop_subset[of k b] set_take_subset[of k a] set_take_subset[of k b] by auto
        moreover have "fst ` set d \<inter> fst ` set (a @ b @ c) = {}" using dj by auto
        ultimately show ?thesis by blast
      qed
      have di: "distinct (map fst (drop k a @ drop k b @ c @ rs))" "distinct (map fst d)"
        using p(2) dj by (auto simp: tinv_def)
      have st: "pass_state h1 tp1 base ?o (drop k a) (drop k b) d (c @ rs)"
        unfolding pass_state_def fl(2) using p(2) fd dd di outputs_flip(4)[OF fl(1)]
        by (auto simp: tinv_def filled_def)
      have S: "set (drop k a) \<union> set (drop k b) \<union> set d \<union> set (c @ rs) \<subseteq> S"
        using less.prems(4) sr set_drop_subset[of k a] set_drop_subset[of k b] set_take_subset[of k a] set_take_subset[of k b]
        by auto
      have len: "length (drop k a) < length a" using False assms by simp
      have step: "sort2_pass lt k base dest h tp = sort2_pass lt k base ?o h1 tp1"
        using ne p(1) by (subst sort2_pass.simps) simp
      have tpq: "tape_pass lt k a b = map_sum id (\<lambda>(c, d). (rs @ d, c)) (tape_pass lt k (drop k a) (drop k b))"
        using Inr False assms by (simp add: tape_pass.simps[of lt k a b])
      have fr: "p \<notin> fst ` S \<Longrightarrow> Nodes h1 p = Nodes h p" for p
        using p(4) less.prems(4) by blast
      from less.hyps[OF len st fl(1) dealt_step[OF less.prems(3) assms] S]
      show ?thesis unfolding step tpq fl(2) using p(3) fr
        by (cases "tape_pass lt k (drop k a) (drop k b)") auto
    qed
  qed
qed

lemma filled_nil [simp]: "filled m (t\<lparr>TCount := 0\<rparr>) []"
  by (simp add: filled_def holds_def)

lemma holds_lengths:
  assumes "heap_ok h" and "holds (Nodes h) t a" and "holds (Nodes h) t' b" and "distinct (map fst (a @ b))"
  shows "length a + length b < 2 * max_nodes"
proof -
  from assms obtain c d where "links (Nodes h) a c" "links (Nodes h) b d" "distinct (map fst a)" "distinct (map fst b)"
    by (auto simp: holds_def)
  with links_length[OF assms(1)] have "length a < max_nodes" "length b < max_nodes" by blast+
  then show ?thesis by simp
qed

lemma distinct_mset:
  assumes "distinct (map fst (a @ b))" and "mset c + mset d = mset a + mset b"
  shows "distinct (map fst (c @ d))"
proof -
  have "mset (map fst (c @ d)) = mset (map fst (a @ b))" using assms(2) by (simp flip: image_mset_union)
  with assms(1) show ?thesis using mset_eq_imp_distinct_iff by blast
qed

definition tape_sorted ::
  "'v fun2 \<Rightarrow> 'v heap \<Rightarrow> (ptr \<times> 'v) multiset \<Rightarrow> (('v + tape) \<times> 'v heap) option \<Rightarrow> bool" where
  "tape_sorted lt h A s \<longleftrightarrow>
     (\<exists>m h'. s = Some (Inl m, h') \<and> \<not> quiet_order lt) \<or>
     (\<exists>t h' rs. s = Some (Inr t, h') \<and> heap_ok h' \<and> filled (Nodes h') t rs \<and> mset rs = A \<and>
        Fresh h' = Fresh h \<and> (\<forall>p. p \<notin> fst ` set_mset A \<longrightarrow> Nodes h' p = Nodes h p) \<and>
        (quiet_order lt \<longrightarrow> sorted_by lt rs))"

lemma tape_sorted_step:
  "tape_sorted lt h1 A s \<Longrightarrow> Fresh h1 = Fresh h \<Longrightarrow> \<forall>p. p \<notin> fst ` set_mset A \<longrightarrow> Nodes h1 p = Nodes h p \<Longrightarrow>
   tape_sorted lt h A s"
  unfolding tape_sorted_def by fastforce

lemma sort2_loop_spec:
  "0 < k \<Longrightarrow> base = 0 \<or> base = 2 \<Longrightarrow> heap_ok h \<Longrightarrow> holds (Nodes h) (tp base) a \<Longrightarrow>
   holds (Nodes h) (tp (base + 1)) b \<Longrightarrow> distinct (map fst (a @ b)) \<Longrightarrow> dealt k a b \<Longrightarrow>
   b = [] \<longrightarrow> filled (Nodes h) (tp base) a \<Longrightarrow> quiet_order lt \<longrightarrow> runs lt k a \<and> runs lt k b \<Longrightarrow>
   tape_sorted lt h (mset a + mset b) (sort2_loop lt k base h tp)"
proof (induction "length a + length b - k" arbitrary: k base h tp a b rule: less_induct)
  case less
  have bl: "b = [] \<longleftrightarrow> length a + length b \<le> k" by (rule dealt_total[OF less.prems(7,1)])
  show ?case
  proof (cases "b = []")
    case True
    then have "sort2_loop lt k base h tp = Some (Inr (tp base), h)"
      using less.prems(5) by (subst sort2_loop.simps) (simp add: holds_def)
    moreover have "quiet_order lt \<longrightarrow> sorted_by lt a"
      using less.prems(1,9) runs_single[of lt k a] True bl by auto
    ultimately show ?thesis using True less.prems(3,8) by (auto simp: tape_sorted_def)
  next
    case False
    let ?d = "Bit_Operations.xor base 2"
    have d: "outputs base ?d" "Bit_Operations.xor ?d 1 = ?d + 1" "?d = 0 \<or> ?d = 2" "?d \<noteq> base" "?d + 1 \<noteq> base"
      "?d \<noteq> base + 1" using less.prems(2) by (auto simp: outputs_def)
    have ps: "pass_state h (empty_tapes tp ?d) base ?d a b [] []"
      using less.prems(2-6) d unfolding pass_state_def tinv_def empty_tapes_def by (auto simp: filled_def holds_def)
    have ne: "TCount (tp (base + 1)) \<noteq> 0" using less.prems(5) False by (simp add: holds_def)
    have k2: "u32 (2 * k) = 2 * k"
      using holds_lengths[OF less.prems(3-6)] bl False by (simp add: max_nodes_def)
    note pass = sort2_pass_spec[OF less.prems(1) ps d(1) less.prems(7), of "set a \<union> set b" lt]
    show ?thesis
    proof (cases "tape_pass lt k a b")
      case (Inl m)
      with pass obtain h' where "sort2_pass lt k base ?d h (empty_tapes tp ?d) = Some (Inl m, h')" by auto
      with ne have "sort2_loop lt k base h tp = Some (Inl m, h')" by (subst sort2_loop.simps) (simp add: Let_def)
      moreover have "\<not> quiet_order lt" using Inl tape_pass_total[of lt k a b] by auto
      ultimately show ?thesis by (simp add: tape_sorted_def)
    next
      case (Inr r)
      obtain c e where r: "tape_pass lt k a b = Inr (c, e)" using Inr by (cases r) simp
      with pass obtain h1 tp1 where p: "sort2_pass lt k base ?d h (empty_tapes tp ?d) = Some (Inr tp1, h1)"
        "heap_ok h1" "filled (Nodes h1) (tp1 ?d) c" "filled (Nodes h1) (tp1 (?d + 1)) e" "Fresh h1 = Fresh h"
        "\<forall>p. p \<notin> fst ` (set a \<union> set b) \<longrightarrow> Nodes h1 p = Nodes h p" unfolding d(2) by auto
      have q: "dealt (2 * k) c e" "mset c + mset e = mset a + mset b"
        "quiet_order lt \<longrightarrow> runs lt (2 * k) c \<and> runs lt (2 * k) e"
        using tape_pass_spec[OF less.prems(1,7) r] less.prems(9) by blast+
      have step: "sort2_loop lt k base h tp = sort2_loop lt (2 * k) ?d h1 tp1"
        using ne p(1) k2 by (subst sort2_loop.simps) (simp add: Let_def)
      have "size (mset c + mset e) = size (mset a + mset b)" unfolding q(2) ..
      then have len: "length c + length e = length a + length b" by simp
      have "tape_sorted lt h1 (mset c + mset e) (sort2_loop lt (2 * k) ?d h1 tp1)"
      proof (rule less.hyps)
        show "length c + length e - 2 * k < length a + length b - k" using len bl False less.prems(1) by simp
        show "distinct (map fst (c @ e))" by (rule distinct_mset[OF less.prems(6) q(2)])
      qed (use less.prems(1) d(3) p(2-4) q(1,3) in \<open>auto simp: filled_def\<close>)
      then show ?thesis unfolding step q(2) by (rule tape_sorted_step) (use p(5,6) in simp_all)
    qed
  qed
qed

section \<open>Dealing and linking back\<close>

fun deal_lists :: "'a list \<Rightarrow> 'a list \<Rightarrow> 'a list \<Rightarrow> 'a list \<times> 'a list" where
  "deal_lists a b [] = (a, b)"
| "deal_lists a b (x # xs) = (case deal_lists b (x # a) xs of (b', a') \<Rightarrow> (a', b'))"

lemma deal_lists_spec:
  "deal_lists a b xs = (c, d) \<Longrightarrow> mset c + mset d = mset a + mset b + mset xs \<and>
     length c = length a + (length xs + 1) div 2 \<and> length d = length b + length xs div 2"
  by (induction a b xs arbitrary: c d rule: deal_lists.induct) (auto split: prod.splits simp: ac_simps)

lemma deal_spec:
  "heap_ok h \<Longrightarrow> links (Nodes h) xs 0 \<Longrightarrow> holds (Nodes h) (tp i) a \<Longrightarrow> holds (Nodes h) (tp (Bit_Operations.xor i 1)) b \<Longrightarrow>
   distinct (map fst (a @ b @ xs)) \<Longrightarrow> i = 0 \<or> i = 1 \<Longrightarrow> deal_lists a b xs = (c, d) \<Longrightarrow>
   \<exists>h' tp'. deal h tp i (first xs 0) = Some (h', tp') \<and> heap_ok h' \<and> holds (Nodes h') (tp' i) c \<and>
     holds (Nodes h') (tp' (Bit_Operations.xor i 1)) d \<and> untouched h h' xs"
proof (induction xs arbitrary: h tp i a b c d)
  case Nil
  then show ?case by (subst deal.simps) (simp add: untouched_def)
next
  case (Cons x xs)
  let ?j = "Bit_Operations.xor i 1"
  obtain p where x: "Nodes h (fst x) = Some \<lparr>Value = snd x, Next = first xs 0, Prev = p\<rparr>" "links (Nodes h) xs 0"
    using Cons.prems(2) by auto
  have nz: "fst x \<noteq> 0" using heap_ok_dom[OF Cons.prems(1) x(1)] by simp
  let ?nd = "\<lparr>Value = snd x, Next = THead (tp i), Prev = p\<rparr>"
  let ?h = "store h (fst x) ?nd"
  let ?tp = "tp(i := (tp i)\<lparr>THead := fst x, TCount := Suc (length a)\<rparr>)"
  have un: "untouched h ?h [x]" by (simp add: untouched_def)
  have ij: "?j \<noteq> i" "Bit_Operations.xor ?j 1 = i" "?j = 0 \<or> ?j = 1" using Cons.prems(6) by auto
  have la: "length a < max_nodes"
    using Cons.prems(1,3,5) links_length[of h a] by (auto simp: holds_def)
  have dx: "fst ` set [x] \<inter> fst ` set xs = {}" "fst ` set [x] \<inter> fst ` set a = {}" "fst ` set [x] \<inter> fst ` set b = {}"
    using Cons.prems(5) by auto
  have step: "deal h tp i (first (x # xs) 0) = deal ?h ?tp ?j (first xs 0)"
    using nz x(1) Cons.prems(1,3) la
    by (subst deal.simps) (simp add: get_next_def set_next_def holds_def max_nodes_def)
  have ok: "heap_ok ?h" using Cons.prems(1) x(1) by (rule heap_ok_store)
  have l: "links (Nodes ?h) xs 0" by (rule untouched_links[OF un dx(1) x(2)])
  have hb: "holds (Nodes ?h) (?tp ?j) b" using holds_untouched[OF Cons.prems(4) un dx(3)] ij(1) by simp
  have ha: "holds (Nodes ?h) (?tp (Bit_Operations.xor ?j 1)) (x # a)"
  proof -
    from Cons.prems(3) obtain e where a: "links (Nodes h) a e" "a \<noteq> [] \<longrightarrow> THead (tp i) = first a 0"
      by (auto simp: holds_def)
    have "links (Nodes ?h) a e" by (rule untouched_links[OF un dx(2) a(1)])
    then have "\<exists>e. links (Nodes ?h) (x # a) e"
      using a(2) first_nonempty[of a 0 e] by (cases "a = []") auto
    then show ?thesis unfolding ij(2) by (simp add: holds_def)
  qed
  from Cons.prems(7) obtain b' a' where r: "deal_lists b (x # a) xs = (b', a')" "c = a'" "d = b'"
    by (auto split: prod.splits)
  have di: "distinct (map fst (b @ (x # a) @ xs))" using Cons.prems(5) by auto
  from Cons.IH[OF ok l hb ha di ij(3) r(1)] obtain h' tp' where
    "deal ?h ?tp ?j (first xs 0) = Some (h', tp')" "heap_ok h'" "holds (Nodes h') (tp' ?j) b'"
    "holds (Nodes h') (tp' (Bit_Operations.xor ?j 1)) a'" "untouched ?h h' xs" by blast
  moreover have "untouched h h' (x # xs)" by (rule untouched_trans[OF un calculation(5)]) auto
  ultimately show ?case unfolding step r(2,3) ij(2) by (intro exI[of _ h'] exI[of _ tp'] conjI)
qed

lemma fix_prev_spec:
  "heap_ok h \<Longrightarrow> links (Nodes h) xs 0 \<Longrightarrow> distinct (map fst xs) \<Longrightarrow>
   \<exists>h'. fix_prev h a (first xs 0) = Some h' \<and> heap_ok h' \<and> chain (Nodes h') a xs 0 \<and> untouched h h' xs"
proof (induction xs arbitrary: h a)
  case Nil
  then show ?case by (subst fix_prev.simps) (simp add: untouched_def)
next
  case (Cons x xs)
  obtain p where x: "Nodes h (fst x) = Some \<lparr>Value = snd x, Next = first xs 0, Prev = p\<rparr>" "links (Nodes h) xs 0"
    using Cons.prems(2) by auto
  let ?nd = "\<lparr>Value = snd x, Next = first xs 0, Prev = a\<rparr>"
  let ?h = "store h (fst x) ?nd"
  have un: "untouched h ?h [x]" by (simp add: untouched_def)
  have ok: "heap_ok ?h" using Cons.prems(1) x(1) by (rule heap_ok_store)
  have d: "fst ` set [x] \<inter> fst ` set xs = {}" using Cons.prems(3) by auto
  have "distinct (map fst xs)" using Cons.prems(3) by simp
  from Cons.IH[OF ok untouched_links[OF un d x(2)] this, of "fst x"] obtain h' where
    h': "fix_prev ?h (fst x) (first xs 0) = Some h'" "heap_ok h'" "chain (Nodes h') (fst x) xs 0" "untouched ?h h' xs"
    by blast
  have "Nodes h' (fst x) = Some ?nd" using h'(4) Cons.prems(3) by (auto simp: untouched_def)
  moreover have "fst x \<noteq> 0" using heap_ok_dom[OF Cons.prems(1) x(1)] by simp
  then have "fix_prev h a (first (x # xs) 0) = Some h'"
    using x(1) Cons.prems(1) ok h'(1) by (subst fix_prev.simps) (simp add: set_prev_def get_next_def)
  moreover have "untouched h h' (x # xs)" by (rule untouched_trans[OF un h'(4)]) auto
  ultimately show ?case using h'(2,3) by (intro exI[of _ h']) simp
qed

section \<open>sort2\<close>

lemma sort2_method_spec:
  assumes "rep h l xs"
  shows "\<exists>r h' l'. sort2_method junk lt h l = Some (r, h', l') \<and> Lock l' = 0 \<and>
    (r = SUCCESS () \<and> (\<exists>ys. rep h' l' ys \<and> mset ys = mset xs \<and> untouched h h' xs \<and>
       (quiet_order lt \<longrightarrow> sorted_by lt ys)) \<or> (\<exists>m. r = MESSAGE m) \<and> \<not> quiet_order lt)"
proof (cases "length xs \<le> 1")
  case True
  then have "sorted_by lt xs" by (cases xs) auto
  moreover have L: "Lock l = 0" "Length l = length xs" using assms by (auto simp: rep_def lrep_def)
  moreover have "l\<lparr>Lock := 0\<rparr> = l" using L(1) by (cases l) simp
  ultimately show ?thesis using True assms
    by (intro exI[of _ "SUCCESS ()"] exI[of _ h] exI[of _ l]) (auto simp: sort2_method_def untouched_def)
next
  case False
  have L: "Lock l = 0" "Length l = length xs" "Head l = first xs 0" "heap_ok h" "links (Nodes h) xs 0"
    "distinct (map fst xs)" using assms chain_links[of "Nodes h" 0 xs 0] by (auto simp: rep_def lrep_def)
  let ?tp = "junk(0 := (junk 0)\<lparr>THead := 0, TCount := 0\<rparr>, 1 := (junk 1)\<lparr>TCount := 0\<rparr>)"
  obtain a b where ab: "deal_lists [] [] xs = (a, b)" by (cases "deal_lists [] [] xs") auto
  have dl: "mset a + mset b = mset xs" "length a = (length xs + 1) div 2" "length b = length xs div 2"
    using deal_lists_spec[OF ab] by auto
  have "distinct (map fst (a @ b))" using distinct_mset[of xs "[]" a b] L(6) dl(1) by simp
  note di = this
  have "dealt (Suc 0) a b" by (rule dealt_by_one) (use dl(2,3) in linarith)+
  note dd = this
  have bn: "b \<noteq> []" using dl(3) False by auto
  have "\<exists>h1 tp1. deal h ?tp 0 (first xs 0) = Some (h1, tp1) \<and> heap_ok h1 \<and> holds (Nodes h1) (tp1 0) a \<and>
     holds (Nodes h1) (tp1 (Bit_Operations.xor 0 1)) b \<and> untouched h h1 xs"
    by (rule deal_spec[OF L(4,5) _ _ _ _ ab]) (use L(6) in \<open>auto simp: holds_def\<close>)
  then obtain h1 tp1 where d: "deal h ?tp 0 (Head l) = Some (h1, tp1)" "heap_ok h1" "holds (Nodes h1) (tp1 0) a"
    "holds (Nodes h1) (tp1 (0 + 1)) b" "untouched h h1 xs" unfolding L(3) by auto
  have "tape_sorted lt h1 (mset xs) (sort2_loop lt (Suc 0) 0 h1 tp1)"
    unfolding dl(1)[symmetric]
    by (rule sort2_loop_spec[OF _ _ d(2-4) di dd]) (use bn in \<open>simp_all add: runs_one\<close>)
  then have "tape_sorted lt h (mset xs) (sort2_loop lt (Suc 0) 0 h1 tp1)"
    by (rule tape_sorted_step) (use d(5) in \<open>simp_all add: untouched_def\<close>)
  then consider m h' where "sort2_loop lt (Suc 0) 0 h1 tp1 = Some (Inl m, h')" "\<not> quiet_order lt"
    | t h2 rs where "sort2_loop lt (Suc 0) 0 h1 tp1 = Some (Inr t, h2)" "heap_ok h2" "filled (Nodes h2) t rs"
      "mset rs = mset xs" "untouched h h2 xs" "quiet_order lt \<longrightarrow> sorted_by lt rs"
    unfolding tape_sorted_def untouched_def set_mset_mset by blast
  then show ?thesis
  proof cases
    case (1 m h')
    with False L(1,2) d(1) show ?thesis by (simp add: sort2_method_def Let_def)
  next
    case (2 t h2 rs)
    have len: "length rs = length xs" and st: "set rs = set xs" using 2(4) by (auto dest: mset_eq_length mset_eq_setD)
    then have ne: "rs \<noteq> []" using False by auto
    have "mset (map fst rs) = mset (map fst xs)" using 2(4) by simp
    then have dr: "distinct (map fst rs)" using L(6) mset_eq_imp_distinct_iff by blast
    from 2(3) ne obtain e where t: "THead t = first rs 0" "TTail t = final rs 0" "links (Nodes h2) rs e"
      by (auto simp: filled_def holds_def)
    from relink_links[OF 2(2) t(3) ne dr, of 0] obtain h3 where h3: "set_next h2 (final rs 0) 0 = Some h3"
      "links (Nodes h3) rs 0" "heap_ok h3" "untouched h2 h3 rs" .
    from fix_prev_spec[OF h3(3,2) dr, of 0] obtain h4 where h4: "fix_prev h3 0 (first rs 0) = Some h4"
      "heap_ok h4" "chain (Nodes h4) 0 rs 0" "untouched h3 h4 rs" by blast
    let ?l = "l\<lparr>Head := first rs 0, Tail := final rs 0, Index := 1, Cache := first rs 0, Access := 4,
      Array := None, Lock := 0\<rparr>"
    have "rep h4 ?l rs" unfolding rep_def by (intro conjI lrep_reset) (use h4 dr L(2) len in auto)
    moreover have "sort2_method junk lt h l = Some (SUCCESS (), h4, ?l)"
      using False L(1,2) d(1) 2(1) t(1,2) h3(1) h4(1) by (simp add: sort2_method_def Let_def)
    moreover have "untouched h h4 xs"
      by (rule untouched_trans[OF untouched_trans[OF 2(5) h3(4)] h4(4)]) (use st in auto)
    ultimately show ?thesis using 2(4,6)
      by (intro exI[of _ "SUCCESS ()"] exI[of _ h4] exI[of _ ?l]) auto
  qed
qed

lemma sort2_by_method_eq: "sort2_by_method junk h l lt = sort2_method junk lt h l"
  by (simp add: sort2_by_method_def sort2_method_def)

text \<open>
  C17: The tape merge \<^verbatim>\<open>sort2\<close> meets the contract of \<^verbatim>\<open>sort\<close>, whatever the stack holds in the tapes
  the code does not initialise: it ends, unlocked, with a well-formed list of the same nodes and values
  that is sorted when the order is transitive and never sends a message.
\<close>

theorem list_sort2_correct:
  assumes "rep h l xs"
  shows "(\<exists>r h' l'. sort2_method junk lt h l = Some (r, h', l') \<and> Lock l' = 0 \<and>
      (r = SUCCESS () \<and> (\<exists>ys. rep h' l' ys \<and> mset ys = mset xs \<and> untouched h h' xs \<and>
         (quiet_order lt \<longrightarrow> sorted_by lt ys)) \<or> (\<exists>m. r = MESSAGE m) \<and> \<not> quiet_order lt)) \<and>
    sort2_by_method junk h l lt = sort2_method junk lt h l"
  using sort2_method_spec[OF assms] sort2_by_method_eq by (intro conjI)

lemma list_sort2_correct_witness:
  "\<exists>h l ys. sort2_method (\<lambda>_. \<lparr>THead = 77, TTail = 78, TCount = 79\<rparr>) above_nat sample_heap sample_list =
       Some (SUCCESS (), h, l) \<and> rep h l ys \<and>
     mset ys = {#(1, 10), (2, 20), (3, 30)#} \<and> sorted_wrt (\<ge>) (map snd ys)"
  using list_sort2_correct[OF sample_rep, of "\<lambda>_. \<lparr>THead = 77, TTail = 78, TCount = 79\<rparr>" above_nat]
    above_nat_quiet
  by (auto simp: above_nat_before[abs_def])

lemma deal_first:
  assumes "heap_ok h" and "links (Nodes h) (x # y # xs) 0" and "distinct (map fst (x # y # xs))"
    and "THead (tp 0) = 0" and "TCount (tp 0) = 0" and "TCount (tp 1) = 0"
  shows "\<exists>h' tp' b. deal h tp 0 (fst x) = Some (h', tp') \<and> get_next h' (fst x) = Some 0 \<and>
    (\<exists>a. a \<noteq> [] \<and> b \<noteq> [] \<and> holds (Nodes h') (tp' 0) a \<and> holds (Nodes h') (tp' 1) b) \<and> heap_ok h'"
proof -
  let ?xs = "y # xs"
  obtain p where x: "Nodes h (fst x) = Some \<lparr>Value = snd x, Next = fst y, Prev = p\<rparr>" "links (Nodes h) ?xs 0"
    using assms(2) by auto
  have nz: "fst x \<noteq> 0" using heap_ok_dom[OF assms(1) x(1)] by simp
  let ?nd = "\<lparr>Value = snd x, Next = 0, Prev = p\<rparr>"
  let ?h = "store h (fst x) ?nd"
  let ?tp = "tp(0 := (tp 0)\<lparr>THead := fst x, TCount := Suc 0\<rparr>)"
  have un: "untouched h ?h [x]" by (simp add: untouched_def)
  have ok: "heap_ok ?h" using assms(1) x(1) by (rule heap_ok_store)
  have l: "links (Nodes ?h) ?xs 0" by (rule untouched_links[OF un _ x(2)]) (use assms(3) in auto)
  obtain c d where cd: "deal_lists [] [x] ?xs = (c, d)" by (cases "deal_lists [] [x] ?xs") auto
  have step: "deal h tp 0 (fst x) = deal ?h ?tp 1 (first ?xs 0)"
    using nz x(1) assms(1,4-6) by (subst deal.simps) (simp add: get_next_def set_next_def)
  have "holds (Nodes ?h) (?tp 1) []" using assms(6) by (simp add: holds_def)
  moreover have "holds (Nodes ?h) (?tp (Bit_Operations.xor 1 1)) [x]" by (simp add: holds_def)
  moreover have "distinct (map fst ([] @ [x] @ ?xs))" using assms(3) by simp
  ultimately obtain h' tp' where d: "deal ?h ?tp 1 (first ?xs 0) = Some (h', tp')" "heap_ok h'"
    "holds (Nodes h') (tp' 1) c" "holds (Nodes h') (tp' (Bit_Operations.xor 1 1)) d" "untouched ?h h' ?xs"
    using deal_spec[OF ok l _ _ _ _ cd, of ?tp 1] by blast
  have "Nodes h' (fst x) = Some ?nd" using d(5) assms(3) by (auto simp: untouched_def)
  then have "get_next h' (fst x) = Some 0" using d(2) by (simp add: get_next_def)
  moreover have "c \<noteq> []" "d \<noteq> []" using deal_lists_spec[OF cd] by auto
  ultimately show ?thesis using step d(1-4)
    by (intro exI[of _ h'] exI[of _ tp'] exI[of _ c]) auto
qed

text \<open>
  When the comparison sends a message, \<^verbatim>\<open>sort2\<close> releases the lock but leaves the nodes on its
  tapes: on every list of two or more values the first node, still the head of the list, has become
  the only one that can be reached, while the length is unchanged.
\<close>

theorem list_sort2_message:
  assumes "rep h l xs" and "1 < length xs"
  shows "\<exists>h' l'. sort2_method junk (\<lambda>x y. MESSAGE m) h l = Some (MESSAGE m, h', l') \<and> Lock l' = 0 \<and>
    Length l' = length xs \<and> Head l' = first xs 0 \<and> get_next h' (Head l') = Some 0"
proof -
  obtain x y zs where xs: "xs = x # y # zs" using assms(2) by (cases xs; cases "List.tl xs") auto
  have L: "Lock l = 0" "Length l = length xs" "Head l = fst x" "heap_ok h" "links (Nodes h) (x # y # zs) 0"
    "distinct (map fst (x # y # zs))"
    using assms(1) chain_links[of "Nodes h" 0 xs 0] unfolding xs by (auto simp: rep_def lrep_def)
  let ?tp = "junk(0 := (junk 0)\<lparr>THead := 0, TCount := 0\<rparr>, 1 := (junk 1)\<lparr>TCount := 0\<rparr>)"
  obtain h' tp a b where d: "deal h ?tp 0 (fst x) = Some (h', tp)" "get_next h' (fst x) = Some 0"
    "a \<noteq> []" "b \<noteq> []" "holds (Nodes h') (tp 0) a" "holds (Nodes h') (tp 1) b" "heap_ok h'"
    using deal_first[OF L(4-6), of ?tp] by auto
  let ?tq = "empty_tapes tp 2"
  have q: "?tq 0 = tp 0" "?tq 1 = tp 1" "?tq (Suc 0) = tp (Suc 0)" by (simp_all add: empty_tapes_def)
  obtain v w where v: "get_value h' (THead (tp 0)) = Some v" "get_value h' (THead (tp 1)) = Some w"
    using d(3-7) by (cases a; cases b) (auto simp: holds_def get_value_def)
  have n: "TCount (tp 0) \<noteq> 0" "TCount (tp 1) \<noteq> 0" using d(3-6) by (auto simp: holds_def)
  have "merge_blocks (\<lambda>x y. MESSAGE m) 0 (0 + 1) 2 h' ?tq 1 1 = Some (Inl m, h')"
    using n v q by (subst merge_blocks.simps) simp
  then have "sort2_loop (\<lambda>x y. MESSAGE m) 1 0 h' tp = Some (Inl m, h')"
    using n q by (subst sort2_loop.simps) (simp add: Let_def sort2_pass.simps)
  then have "sort2_method junk (\<lambda>x y. MESSAGE m) h l = Some (MESSAGE m, h', l\<lparr>Lock := 0\<rparr>)"
    using L(1-3) d(1) xs by (simp add: sort2_method_def Let_def)
  then show ?thesis using L(2,3) d(2) xs by simp
qed

lemma list_sort2_message_witness:
  "\<exists>h l. sort2_method (\<lambda>_. \<lparr>THead = 7, TTail = 8, TCount = 9\<rparr>) (\<lambda>x y. MESSAGE (99 :: nat)) sample_heap sample_list =
       Some (MESSAGE 99, h, l) \<and> Length l = 3 \<and> get_next h (Head l) = Some 0"
  using list_sort2_message[OF sample_rep, of "\<lambda>_. \<lparr>THead = 7, TTail = 8, TCount = 9\<rparr>" 99] by auto

end
