(* ===== verification/TableTree.thy ===== *)
theory TableTree
  imports Main
begin

text \<open>
  The AVL trees that the nodes of an \<^verbatim>\<open>Agg$Table\<close> form, as a data type: the entries in order,
  heights and balance factors, and the paths (contexts) that \<^verbatim>\<open>avl_probe\<close>, \<^verbatim>\<open>avl_delete\<close> and the
  traversers of \<^verbatim>\<open>dev/src/lib/Agg/Table.c\<close> keep on their stacks. No code is modelled here.
\<close>

section \<open>Trees\<close>

text \<open>The number at a fork is the balance factor: right height minus left height.\<close>

datatype 'e tree = Tip | Fork "'e tree" 'e int "'e tree"

fun entries :: "'e tree \<Rightarrow> 'e list" where
  "entries Tip = []"
| "entries (Fork l e b r) = entries l @ e # entries r"

fun height :: "'e tree \<Rightarrow> nat" where
  "height Tip = 0"
| "height (Fork l e b r) = Suc (max (height l) (height r))"

fun avl :: "'e tree \<Rightarrow> bool" where
  "avl Tip \<longleftrightarrow> True"
| "avl (Fork l e b r) \<longleftrightarrow>
     b = int (height r) - int (height l) \<and> \<bar>b\<bar> \<le> 1 \<and> avl l \<and> avl r"

lemma height_0 [simp]: "height t = 0 \<longleftrightarrow> t = Tip"
  by (cases t) auto

lemma entries_Nil [simp]: "entries t = [] \<longleftrightarrow> t = Tip"
  by (cases t) auto

lemma entries_map_tree [simp]: "entries (map_tree f t) = map f (entries t)"
  by (induction t) auto

lemma height_map_tree [simp]: "height (map_tree f t) = height t"
  by (induction t) auto

lemma avl_map_tree [simp]: "avl (map_tree f t) \<longleftrightarrow> avl t"
  by (induction t) auto

text \<open>\<open>br d t e b s\<close>: a fork whose child on side \<open>d\<close> (\<^const>\<open>True\<close> is right) is \<open>t\<close>, the other one \<open>s\<close>.\<close>

definition br :: "bool \<Rightarrow> 'e tree \<Rightarrow> 'e \<Rightarrow> int \<Rightarrow> 'e tree \<Rightarrow> 'e tree" where
  "br d t e b s = (if d then Fork s e b t else Fork t e b s)"

definition side :: "bool \<Rightarrow> int" where
  "side d = (if d then 1 else - 1)"

lemma br_simps [simp]: "br True t e b s = Fork s e b t" "br False t e b s = Fork t e b s"
  by (simp_all add: br_def)

lemma side_simps [simp]: "side True = 1" "side False = - 1"
  by (simp_all add: side_def)

lemma height_br [simp]: "height (br d t e b s) = Suc (max (height t) (height s))"
  by (cases d) auto

lemma avl_br:
  "avl (br d t e b s) \<longleftrightarrow> b = side d * (int (height t) - int (height s)) \<and> \<bar>b\<bar> \<le> 1 \<and> avl t \<and> avl s"
  by (cases d) auto

lemma br_exhaust: "t \<noteq> Tip \<Longrightarrow> \<exists>a e b s. t = br d a e b s"
  by (cases t; cases d) (auto simp: br_def)

section \<open>The number of entries of an AVL tree\<close>

text \<open>\<open>least n\<close>: the least number of entries of an AVL tree of height \<open>n\<close>.\<close>

fun least :: "nat \<Rightarrow> nat" where
  "least 0 = 0"
| "least (Suc 0) = 1"
| "least (Suc (Suc n)) = Suc (least (Suc n) + least n)"

lemma least_Suc: "least n \<le> least (Suc n)"
  by (induction n rule: least.induct) auto

lemma least_mono: "m \<le> n \<Longrightarrow> least m \<le> least n"
  by (rule lift_Suc_mono_le[of least, OF least_Suc])

lemma avl_least: "avl t \<Longrightarrow> least (height t) \<le> length (entries t)"
proof (induction t)
  case (Fork l e b r)
  then have IH: "least (height l) \<le> length (entries l)" "least (height r) \<le> length (entries r)" by auto
  show ?case
  proof (cases "max (height l) (height r)")
    case 0
    then show ?thesis by simp
  next
    case (Suc n)
    from Fork.prems have "\<bar>int (height r) - int (height l)\<bar> \<le> 1" by auto
    then have "height l = Suc n \<and> n \<le> height r \<or> height r = Suc n \<and> n \<le> height l"
      using Suc by (auto simp: max_def split: if_splits)
    then have "least (Suc n) + least n \<le> length (entries l) + length (entries r)"
      using IH least_mono[of n "height r"] least_mono[of n "height l"] by auto
    then show ?thesis using Suc by simp
  qed
qed simp

primrec least_two :: "nat \<Rightarrow> nat \<times> nat" where
  "least_two 0 = (0, 1)"
| "least_two (Suc n) = (case least_two n of (a, b) \<Rightarrow> (b, Suc (b + a)))"

lemma least_two: "least_two n = (least n, least (Suc n))"
  by (induction n) auto

lemma least_two_plus4:
  "least_two n = (a, b) \<Longrightarrow> least_two (n + 4) = (4 + 2 * a + 3 * b, 7 + 3 * a + 5 * b)"
  by (simp add: eval_nat_numeral)

lemma least_32: "least 32 = 5702886"
proof -
  have 0: "least_two 0 = (0, 1)" by simp
  have 4: "least_two 4 = (7, 12)" using least_two_plus4[OF 0] by simp
  have 8: "least_two 8 = (54, 88)" using least_two_plus4[OF 4] by simp
  have 12: "least_two 12 = (376, 609)" using least_two_plus4[OF 8] by simp
  have 16: "least_two 16 = (2583, 4180)" using least_two_plus4[OF 12] by simp
  have 20: "least_two 20 = (17710, 28656)" using least_two_plus4[OF 16] by simp
  have 24: "least_two 24 = (121392, 196417)" using least_two_plus4[OF 20] by simp
  have 28: "least_two 28 = (832039, 1346268)" using least_two_plus4[OF 24] by simp
  have 32: "least_two 32 = (5702886, 9227464)" using least_two_plus4[OF 28] by simp
  show ?thesis using 32 least_two[of 32] by simp
qed

lemma avl_height_bound: "avl t \<Longrightarrow> length (entries t) < 5702886 \<Longrightarrow> height t \<le> 31"
  using avl_least[of t] least_mono[of 32 "height t"] unfolding least_32 by (cases "height t \<le> 31") auto

section \<open>Paths\<close>

text \<open>
  A path from a subtree up to the root: for each node passed, innermost first, the side on which the
  path goes on, its entry, its balance factor and the subtree on the other side.
\<close>

datatype 'e frame = Frame (fdir: bool) (fent: 'e) (fbal: int) (fsib: "'e tree")

type_synonym 'e path = "'e frame list"

definition graft :: "'e frame \<Rightarrow> 'e tree \<Rightarrow> 'e tree" where
  "graft f t = br (fdir f) t (fent f) (fbal f) (fsib f)"

fun plug :: "'e tree \<Rightarrow> 'e path \<Rightarrow> 'e tree" where
  "plug t [] = t"
| "plug t (f # c) = plug (graft f t) c"

fun lefts :: "'e path \<Rightarrow> 'e list" where
  "lefts [] = []"
| "lefts (f # c) = lefts c @ (if fdir f then entries (fsib f) @ [fent f] else [])"

fun rights :: "'e path \<Rightarrow> 'e list" where
  "rights [] = []"
| "rights (f # c) = (if fdir f then [] else fent f # entries (fsib f)) @ rights c"

text \<open>The height of \<^term>\<open>plug t c\<close> for a tree \<open>t\<close> of height \<open>n\<close>, and whether such a tree fits.\<close>

fun up :: "nat \<Rightarrow> 'e path \<Rightarrow> nat" where
  "up n [] = n"
| "up n (f # c) = up (Suc (max n (height (fsib f)))) c"

fun fits :: "nat \<Rightarrow> 'e path \<Rightarrow> bool" where
  "fits n [] \<longleftrightarrow> True"
| "fits n (f # c) \<longleftrightarrow> fbal f = side (fdir f) * (int n - int (height (fsib f))) \<and> \<bar>fbal f\<bar> \<le> 1 \<and>
     avl (fsib f) \<and> fits (Suc (max n (height (fsib f)))) c"

lemma graft_simp [simp]: "graft (Frame d e b s) t = br d t e b s"
  by (simp add: graft_def)

lemma entries_plug [simp]: "entries (plug t c) = lefts c @ entries t @ rights c"
  by (induction c arbitrary: t) (auto simp: graft_def br_def)

lemma plug_append [simp]: "plug t (c @ c') = plug (plug t c) c'"
  by (induction c arbitrary: t) auto

lemma lefts_append [simp]: "lefts (c @ c') = lefts c' @ lefts c"
  by (induction c) auto

lemma rights_append [simp]: "rights (c @ c') = rights c @ rights c'"
  by (induction c) auto

lemma height_plug: "height (plug t c) = up (height t) c"
  by (induction c arbitrary: t) (auto simp: graft_def)

lemma up_append [simp]: "up n (c @ c') = up (up n c) c'"
  by (induction c arbitrary: n) auto

lemma fits_append [simp]: "fits n (c @ c') \<longleftrightarrow> fits n c \<and> fits (up n c) c'"
  by (induction c arbitrary: n) auto

lemma avl_plug: "avl (plug t c) \<longleftrightarrow> avl t \<and> fits (height t) c"
  by (induction c arbitrary: t) (auto simp: graft_def avl_br)

lemma length_up: "n + length c \<le> up n c"
proof (induction c arbitrary: n)
  case (Cons f c)
  have "n + length (f # c) \<le> Suc (max n (height (fsib f))) + length c" by simp
  also have "\<dots> \<le> up n (f # c)" using Cons.IH[of "Suc (max n (height (fsib f)))"] by simp
  finally show ?case .
qed simp

end
