(* ===== verification/TableHeap.thy ===== *)
theory TableHeap
  imports ListHeap TableTree
begin

text \<open>
  The nodes of an \<^verbatim>\<open>Agg$Table\<close> in memory, the table header, and the predicates that say which
  tree and which path lie in memory (\<^verbatim>\<open>dev/src/lib/Agg/Table.c\<close>).
\<close>

section \<open>Nodes, tables and memory\<close>

text \<open>
  \<open>Slot\<close> is the field \<^verbatim>\<open>Value\<close>; it is \<^const>\<open>None\<close> (NULL) from the creation of a node until its first
  assignment. \<^verbatim>\<open>Hash\<close> is an \<^verbatim>\<open>unsigned long\<close>, \<^verbatim>\<open>Balance\<close> a \<^verbatim>\<open>signed char\<close>.
\<close>

record ('k, 'v) cell =
  Left :: ptr \<comment> \<open>\<^verbatim>\<open>Link[0]\<close>\<close>
  Right :: ptr \<comment> \<open>\<^verbatim>\<open>Link[1]\<close>\<close>
  Key :: 'k
  Slot :: "'v option"
  Hash :: nat
  Balance :: int

text \<open>
  The comparison and the hash function of a table are Riva functions called by the code; it ignores
  their status and reads an integer from their result. They are parameters of the model, as is the
  default function. \<open>TLock\<close> is the reader-writer lock: the number of readers, or -1.
\<close>

record ('k, 'v) table =
  Root :: ptr
  Count :: nat
  Generation :: nat
  Compare :: "'k \<Rightarrow> 'k \<Rightarrow> int"
  HashFn :: "'k \<Rightarrow> int"
  Default :: "('k \<Rightarrow> ('v, 'v, unit) reply) option"
  TLock :: int

record ('k, 'v) mem =
  Cells :: "ptr \<Rightarrow> ('k, 'v) cell option"
  TFresh :: ptr

text \<open>A node takes 28 bytes of the 32-bit address space.\<close>

definition max_cells :: nat where
  "max_cells = 153391689"

definition cell_at :: "('k, 'v) mem \<Rightarrow> ptr \<Rightarrow> ('k, 'v) cell option" where
  "cell_at h p = (if p = 0 then None else Cells h p)"

definition put_cell :: "('k, 'v) mem \<Rightarrow> ptr \<Rightarrow> ('k, 'v) cell \<Rightarrow> ('k, 'v) mem" where
  "put_cell h p n = h\<lparr>Cells := (Cells h)(p \<mapsto> n)\<rparr>"

definition link :: "bool \<Rightarrow> ('k, 'v) cell \<Rightarrow> ptr" where
  "link d n = (if d then Right n else Left n)"

definition with_link :: "bool \<Rightarrow> ptr \<Rightarrow> ('k, 'v) cell \<Rightarrow> ('k, 'v) cell" where
  "with_link d w n = (if d then n\<lparr>Right := w\<rparr> else n\<lparr>Left := w\<rparr>)"

definition get_link :: "('k, 'v) mem \<Rightarrow> ptr \<Rightarrow> bool \<Rightarrow> ptr option" where
  "get_link h p d = map_option (link d) (cell_at h p)"

definition get_balance :: "('k, 'v) mem \<Rightarrow> ptr \<Rightarrow> int option" where
  "get_balance h p = map_option Balance (cell_at h p)"

definition set_balance :: "('k, 'v) mem \<Rightarrow> ptr \<Rightarrow> int \<Rightarrow> ('k, 'v) mem option" where
  "set_balance h p b = map_option (\<lambda>n. put_cell h p (n\<lparr>Balance := b\<rparr>)) (cell_at h p)"

definition set_link :: "('k, 'v) mem \<Rightarrow> ptr \<Rightarrow> bool \<Rightarrow> ptr \<Rightarrow> ('k, 'v) mem option" where
  "set_link h p d w = map_option (\<lambda>n. put_cell h p (with_link d w n)) (cell_at h p)"

text \<open>
  The code treats the table as a node, \<^verbatim>\<open>(node_t *)Table\<close>, whose \<^verbatim>\<open>Link[0]\<close> is the field \<^verbatim>\<open>Root\<close>. In the
  model the pointer 0 stands for the table in these places (it is never NULL there); its \<^verbatim>\<open>Link[1]\<close> would
  be the field \<^verbatim>\<open>Count\<close> and must not be written.
\<close>

definition get_child :: "('k, 'v) mem \<Rightarrow> ('k, 'v) table \<Rightarrow> ptr \<Rightarrow> bool \<Rightarrow> ptr option" where
  "get_child h tb p d = (if p = 0 then if d then None else Some (Root tb) else get_link h p d)"

definition set_child ::
  "('k, 'v) mem \<Rightarrow> ('k, 'v) table \<Rightarrow> ptr \<Rightarrow> bool \<Rightarrow> ptr \<Rightarrow> (('k, 'v) mem \<times> ('k, 'v) table) option" where
  "set_child h tb p d w =
     (if p = 0 then if d then None else Some (h, tb\<lparr>Root := w\<rparr>)
      else map_option (\<lambda>h. (h, tb)) (set_link h p d w))"

text \<open>\<^verbatim>\<open>Riva$Memory$alloc\<close> returns zeroed memory; the key and the hash are set right after it.\<close>

definition new_cell :: "('k, 'v) mem \<Rightarrow> 'k \<Rightarrow> nat \<Rightarrow> (ptr \<times> ('k, 'v) mem) option" where
  "new_cell h key hash =
     (if TFresh h < max_cells
      then Some (TFresh h, (put_cell h (TFresh h)
             \<lparr>Left = 0, Right = 0, Key = key, Slot = None, Hash = hash, Balance = 0\<rparr>)\<lparr>TFresh := Suc (TFresh h)\<rparr>)
      else None)"

definition mem_ok :: "('k, 'v) mem \<Rightarrow> bool" where
  "mem_ok h \<longleftrightarrow> 0 < TFresh h \<and> TFresh h \<le> max_cells \<and> (\<forall>p. Cells h p \<noteq> None \<longrightarrow> 0 < p \<and> p < TFresh h)"

lemma mem_ok_null [simp]: "mem_ok h \<Longrightarrow> Cells h 0 = None"
  by (auto simp: mem_ok_def)

lemma mem_ok_fresh: "mem_ok h \<Longrightarrow> TFresh h \<le> p \<Longrightarrow> Cells h p = None"
  by (meson mem_ok_def not_le)

lemma mem_ok_dom: "mem_ok h \<Longrightarrow> Cells h p = Some n \<Longrightarrow> 0 < p \<and> p < TFresh h"
  by (auto simp: mem_ok_def)

lemma mem_ok_cell_at [simp]: "mem_ok h \<Longrightarrow> cell_at h p = Cells h p"
  by (simp add: cell_at_def)

lemma put_cell_simps [simp]:
  "Cells (put_cell h p n) = (Cells h)(p \<mapsto> n)" "TFresh (put_cell h p n) = TFresh h"
  by (simp_all add: put_cell_def)

lemma mem_ok_put [simp]: "mem_ok h \<Longrightarrow> Cells h p = Some n' \<Longrightarrow> mem_ok (put_cell h p n)"
  by (auto simp: mem_ok_def)

lemma link_simps [simp]: "link True n = Right n" "link False n = Left n"
  by (simp_all add: link_def)

lemma with_link_simps [simp]:
  "with_link True w n = n\<lparr>Right := w\<rparr>" "with_link False w n = n\<lparr>Left := w\<rparr>"
  by (simp_all add: with_link_def)

section \<open>Trees in memory\<close>

datatype ('k, 'v) entry = Entry (at: ptr) (ekey: 'k) (slot: "'v option") (ehash: nat)

definition cell_of :: "('k, 'v) entry \<Rightarrow> ptr \<Rightarrow> ptr \<Rightarrow> int \<Rightarrow> ('k, 'v) cell" where
  "cell_of e l r b = \<lparr>Left = l, Right = r, Key = ekey e, Slot = slot e, Hash = ehash e, Balance = b\<rparr>"

fun addr :: "('k, 'v) entry tree \<Rightarrow> ptr" where
  "addr Tip = 0"
| "addr (Fork l e b r) = at e"

fun tree_at :: "(ptr \<Rightarrow> ('k, 'v) cell option) \<Rightarrow> ('k, 'v) entry tree \<Rightarrow> bool" where
  "tree_at m Tip \<longleftrightarrow> True"
| "tree_at m (Fork l e b r) \<longleftrightarrow>
     m (at e) = Some (cell_of e (addr l) (addr r) b) \<and> tree_at m l \<and> tree_at m r"

text \<open>The nodes of a path, when the place it leads to holds the pointer \<open>a\<close>.\<close>

fun path_at :: "(ptr \<Rightarrow> ('k, 'v) cell option) \<Rightarrow> ptr \<Rightarrow> ('k, 'v) entry path \<Rightarrow> bool" where
  "path_at m a [] \<longleftrightarrow> True"
| "path_at m a (f # c) \<longleftrightarrow>
     m (at (fent f)) = Some (cell_of (fent f) (if fdir f then addr (fsib f) else a)
        (if fdir f then a else addr (fsib f)) (fbal f)) \<and>
     tree_at m (fsib f) \<and> path_at m (at (fent f)) c"

text \<open>The node above the place a path leads to, the side the place is on, and the root above it.\<close>

definition parent :: "('k, 'v) entry path \<Rightarrow> ptr" where
  "parent c = (case c of [] \<Rightarrow> 0 | f # _ \<Rightarrow> at (fent f))"

definition pdir :: "('k, 'v) entry path \<Rightarrow> bool" where
  "pdir c = (case c of [] \<Rightarrow> False | f # _ \<Rightarrow> fdir f)"

fun top :: "ptr \<Rightarrow> ('k, 'v) entry path \<Rightarrow> ptr" where
  "top a [] = a"
| "top a (f # c) = top (at (fent f)) c"

lemma cell_of_simps [simp]:
  "Left (cell_of e l r b) = l" "Right (cell_of e l r b) = r" "Key (cell_of e l r b) = ekey e"
  "Slot (cell_of e l r b) = slot e" "Hash (cell_of e l r b) = ehash e" "Balance (cell_of e l r b) = b"
  "(cell_of e l r b)\<lparr>Left := l'\<rparr> = cell_of e l' r b" "(cell_of e l r b)\<lparr>Right := r'\<rparr> = cell_of e l r' b"
  "(cell_of e l r b)\<lparr>Balance := b'\<rparr> = cell_of e l r b'"
  by (simp_all add: cell_of_def)

lemma parent_simps [simp]: "parent [] = 0" "parent (f # c) = at (fent f)"
  by (simp_all add: parent_def)

lemma pdir_simps [simp]: "pdir [] = False" "pdir (f # c) = fdir f"
  by (simp_all add: pdir_def)

lemma addr_br [simp]: "addr (br d t e b s) = at e"
  by (cases d) auto

lemma addr_graft [simp]: "addr (graft f t) = at (fent f)"
  by (simp add: graft_def)

lemma addr_plug [simp]: "addr (plug t c) = top (addr t) c"
  by (induction c arbitrary: t) auto

lemma tree_at_br:
  "tree_at m (br d t e b s) \<longleftrightarrow>
     m (at e) = Some (cell_of e (if d then addr s else addr t) (if d then addr t else addr s) b) \<and>
     tree_at m t \<and> tree_at m s"
  by (cases d) auto

lemma tree_at_plug [simp]: "tree_at m (plug t c) \<longleftrightarrow> tree_at m t \<and> path_at m (addr t) c"
  by (induction c arbitrary: t) (auto simp: graft_def tree_at_br)

lemma path_at_append [simp]: "path_at m a (c @ c') \<longleftrightarrow> path_at m a c \<and> path_at m (top a c) c'"
  by (induction c arbitrary: a) auto

lemma top_append [simp]: "top a (c @ c') = top (top a c) c'"
  by (induction c arbitrary: a) auto

lemma top_Cons_eq: "c \<noteq> [] \<Longrightarrow> top a c = top b c"
  by (cases c) auto

lemma tree_at_cong: "(\<And>p. p \<in> at ` set (entries t) \<Longrightarrow> m' p = m p) \<Longrightarrow> tree_at m t \<Longrightarrow> tree_at m' t"
  by (induction t) auto

text \<open>The nodes a path runs through and hangs from.\<close>

definition on_path :: "('k, 'v) entry path \<Rightarrow> ptr set" where
  "on_path c = at ` set (lefts c @ rights c)"

lemma on_path_simps [simp]:
  "on_path [] = {}"
  "on_path (f # c) = insert (at (fent f)) (at ` set (entries (fsib f)) \<union> on_path c)"
  "on_path (c @ c') = on_path c \<union> on_path c'"
  by (auto simp: on_path_def)

lemma path_at_cong: "(\<And>p. p \<in> on_path c \<Longrightarrow> m' p = m p) \<Longrightarrow> path_at m a c \<Longrightarrow> path_at m' a c"
proof (induction c arbitrary: a)
  case (Cons f c)
  then have "tree_at m' (fsib f)" using tree_at_cong[of "fsib f" m' m] by auto
  then show ?case using Cons by auto
qed simp

lemma tree_at_in: "tree_at m t \<Longrightarrow> e \<in> set (entries t) \<Longrightarrow> m (at e) \<noteq> None"
  by (induction t) auto

lemma tree_at_nonnull: "mem_ok h \<Longrightarrow> tree_at (Cells h) t \<Longrightarrow> 0 \<notin> at ` set (entries t)"
  using tree_at_in[of "Cells h" t] mem_ok_null[of h] by force

lemma addr_nonnull: "mem_ok h \<Longrightarrow> tree_at (Cells h) t \<Longrightarrow> addr t = 0 \<longleftrightarrow> t = Tip"
  by (cases t) (auto dest: mem_ok_dom)

lemma addr_in: "t \<noteq> Tip \<Longrightarrow> addr t \<in> at ` set (entries t)"
  by (cases t) auto

text \<open>Writing the place a path leads to.\<close>

lemma set_child_path:
  assumes "mem_ok h" and "path_at (Cells h) a c" and "Root tb = top a c"
    and "distinct (map at (lefts c @ rights c))"
  obtains h' tb' where "set_child h tb (parent c) (pdir c) a' = Some (h', tb')" "mem_ok h'"
    "path_at (Cells h') a' c" "tb' = tb\<lparr>Root := top a' c\<rparr>" "TFresh h' = TFresh h"
    "\<forall>p. p \<notin> on_path c \<longrightarrow> Cells h' p = Cells h p"
proof (cases c)
  case Nil
  show ?thesis
    by (rule that[of h "tb\<lparr>Root := a'\<rparr>"]) (use assms Nil in \<open>simp_all add: set_child_def\<close>)
next
  case (Cons f c')
  let ?n = "cell_of (fent f) (if fdir f then addr (fsib f) else a') (if fdir f then a' else addr (fsib f)) (fbal f)"
  let ?h = "put_cell h (at (fent f)) ?n"
  have n: "Cells h (at (fent f)) = Some (cell_of (fent f) (if fdir f then addr (fsib f) else a)
      (if fdir f then a else addr (fsib f)) (fbal f))" "tree_at (Cells h) (fsib f)" "path_at (Cells h) (at (fent f)) c'"
    using assms(2) Cons by auto
  have nin: "at (fent f) \<notin> at ` set (entries (fsib f))" "at (fent f) \<notin> on_path c'"
    using assms(4) Cons by (auto simp: on_path_def split: if_splits)
  have "tree_at (Cells ?h) (fsib f)" by (rule tree_at_cong[OF _ n(2)]) (use nin(1) in \<open>force simp: image_iff\<close>)
  moreover have "path_at (Cells ?h) (at (fent f)) c'" by (rule path_at_cong[OF _ n(3)]) (use nin(2) in auto)
  moreover have "set_child h tb (parent c) (pdir c) a' = Some (?h, tb)"
    using n(1) mem_ok_dom[OF assms(1) n(1)] assms(1) Cons
    by (auto simp: set_child_def set_link_def)
  moreover have "tb = tb\<lparr>Root := top a' c\<rparr>" using assms(3) Cons by simp
  ultimately show ?thesis by (intro that[of ?h tb]) (use n(1) assms(1) Cons in auto)
qed

end
