(* ===== verification/TableProbe.thy ===== *)
theory TableProbe
  imports TableHeap
begin

text \<open>
  Search and insertion in an \<^verbatim>\<open>Agg$Table\<close>: \<^verbatim>\<open>avl_create\<close>, \<^verbatim>\<open>avl_find\<close> and \<^verbatim>\<open>avl_probe\<close> of
  \<^verbatim>\<open>dev/src/lib/Agg/Table.c\<close>. The methods call \<^verbatim>\<open>avl_find_asm\<close> and \<^verbatim>\<open>avl_probe_asm\<close> of
  \<^verbatim>\<open>Table2.asm\<close>, transcriptions of these two functions.
\<close>

section \<open>Definitions\<close>

definition avl_create :: "('k \<Rightarrow> 'k \<Rightarrow> int) \<Rightarrow> ('k \<Rightarrow> int) \<Rightarrow> ('k, 'v) table" where
  "avl_create cmp hf = \<lparr>Root = 0, Count = 0, Generation = 0, Compare = cmp, HashFn = hf, Default = None, TLock = 0\<rparr>"

text \<open>The comparison made at each node on the way down: first the hashes, then the keys.\<close>

definition steer :: "('k \<Rightarrow> 'k \<Rightarrow> int) \<Rightarrow> 'k \<Rightarrow> nat \<Rightarrow> ('k, 'v) cell \<Rightarrow> int" where
  "steer cmp key hash n =
     (if hash < Hash n then - 1 else if Hash n < hash then 1 else cmp key (Key n))"

text \<open>The result is the node that holds the key (the code returns the address of its value), or 0.\<close>

partial_function (option) find_from ::
  "('k, 'v) mem \<Rightarrow> ('k \<Rightarrow> 'k \<Rightarrow> int) \<Rightarrow> 'k \<Rightarrow> nat \<Rightarrow> ptr \<Rightarrow> ptr option" where
  "find_from h cmp key hash p =
     (if p = 0 then Some 0
      else do {
        n \<leftarrow> cell_at h p;
        if steer cmp key hash n < 0 then find_from h cmp key hash (Left n)
        else if 0 < steer cmp key hash n then find_from h cmp key hash (Right n)
        else Some p })"

definition avl_find :: "('k, 'v) mem \<Rightarrow> ('k, 'v) table \<Rightarrow> 'k \<Rightarrow> nat \<Rightarrow> ptr option" where
  "avl_find h tb key hash = find_from h (Compare tb) key hash (Root tb)"

text \<open>
  The way down of \<^verbatim>\<open>avl_probe\<close>. \<open>y\<close> is the last node with a balance factor other than 0 (or the root),
  \<open>z\<close> the node above it, \<open>da\<close> the directions taken from \<open>y\<close> on (an array of 32 bytes), and \<^verbatim>\<open>s\<close> is
  \<^verbatim>\<open>&q->Link[d]\<close>. The result is the node found, or the place for the new node.
\<close>

partial_function (option) probe_find ::
  "('k, 'v) mem \<Rightarrow> ('k \<Rightarrow> 'k \<Rightarrow> int) \<Rightarrow> 'k \<Rightarrow> nat \<Rightarrow> ptr \<Rightarrow> ptr \<Rightarrow> bool list \<Rightarrow> ptr \<Rightarrow> bool \<Rightarrow> ptr \<Rightarrow>
   (ptr + ptr \<times> ptr \<times> bool list \<times> ptr \<times> bool) option" where
  "probe_find h cmp key hash z y da q d p =
     (if p = 0 then Some (Inr (z, y, da, q, d))
      else do {
        n \<leftarrow> cell_at h p;
        let (z, y, da) = (if Balance n \<noteq> 0 then (q, p, []) else (z, y, da));
        if steer cmp key hash n = 0 then Some (Inl p)
        else if length da < 32 then do {
          let d = (0 < steer cmp key hash n);
          probe_find h cmp key hash z y (da @ [d]) p d (link d n) }
        else None })"

text \<open>\<^verbatim>\<open>for (p = y, k = da; p != n;)\<close>: the balance factors on the way down change by one.\<close>

fun bump :: "('k, 'v) mem \<Rightarrow> ptr \<Rightarrow> ptr \<Rightarrow> bool list \<Rightarrow> ('k, 'v) mem option" where
  "bump h n p [] = (if p = n then Some h else None)"
| "bump h n p (d # da) =
     (if p = n then Some h
      else do {
        b \<leftarrow> get_balance h p;
        h \<leftarrow> set_balance h p (if d then b + 1 else b - 1);
        q \<leftarrow> get_link h p d;
        bump h n q da })"

definition balances :: "(int \<times> int) list" where
  "balances = [(0, 1), (0, 0), (- 1, 0), (1, 0), (0, 0), (0, - 1)]"

text \<open>
  The rotation at \<open>y\<close> when its subtree on side \<open>d\<close> has become two levels higher than the other: the
  two branches of the code, for -2 and for +2, are the cases \<^const>\<open>False\<close> and \<^const>\<open>True\<close> of \<open>d\<close>. The
  result is the new root \<open>w\<close> of the subtree.
\<close>

definition lift :: "bool \<Rightarrow> ('k, 'v) mem \<Rightarrow> ptr \<Rightarrow> (ptr \<times> ('k, 'v) mem) option" where
  "lift d h y = do {
     x \<leftarrow> get_link h y d;
     bx \<leftarrow> get_balance h x;
     if bx = side d then do {
       a \<leftarrow> get_link h x (\<not> d);
       h \<leftarrow> set_link h y d a;
       h \<leftarrow> set_link h x (\<not> d) y;
       h \<leftarrow> set_balance h y 0;
       Some (x, h) }
     else do {
       w \<leftarrow> get_link h x (\<not> d);
       a \<leftarrow> get_link h w d;
       h \<leftarrow> set_link h x (\<not> d) a;
       h \<leftarrow> set_link h w d x;
       a \<leftarrow> get_link h w (\<not> d);
       h \<leftarrow> set_link h y d a;
       h \<leftarrow> set_link h w (\<not> d) y;
       bw \<leftarrow> get_balance h w;
       let i = bw + (if d then 4 else 1);
       if 0 \<le> i \<and> i < 6 then do {
         h \<leftarrow> set_balance h x (fst (balances ! nat i));
         h \<leftarrow> set_balance h y (snd (balances ! nat i));
         Some (w, h) }
       else None } }"

text \<open>\<^verbatim>\<open>w->Balance = 0\<close> after either rotation.\<close>

definition settle :: "bool \<Rightarrow> ('k, 'v) mem \<Rightarrow> ptr \<Rightarrow> (ptr \<times> ('k, 'v) mem) option" where
  "settle d h y = do { (w, h) \<leftarrow> lift d h y; h \<leftarrow> set_balance h w 0; Some (w, h) }"

text \<open>The result is the node that holds the key now, old or new.\<close>

definition avl_probe ::
  "('k, 'v) mem \<Rightarrow> ('k, 'v) table \<Rightarrow> 'k \<Rightarrow> nat \<Rightarrow> (ptr \<times> ('k, 'v) mem \<times> ('k, 'v) table) option" where
  "avl_probe h tb key hash = do {
     r \<leftarrow> probe_find h (Compare tb) key hash 0 (Root tb) [] 0 False (Root tb);
     case r of
       Inl p \<Rightarrow> Some (p, h, tb)
     | Inr (z, y, da, q, d) \<Rightarrow> do {
         (n, h) \<leftarrow> new_cell h key hash;
         (h, tb) \<leftarrow> set_child h tb q d n;
         let tb = tb\<lparr>Count := inc32 (Count tb)\<rparr>;
         if y = 0 then Some (n, h, tb)
         else do {
           h \<leftarrow> bump h n y da;
           b \<leftarrow> get_balance h y;
           if b = - 2 \<or> b = 2 then do {
             (w, h) \<leftarrow> settle (b = 2) h y;
             l \<leftarrow> get_child h tb z False;
             (h, tb) \<leftarrow> set_child h tb z (y \<noteq> l) w;
             Some (n, h, tb\<lparr>Generation := inc32 (Generation tb)\<rparr>) }
           else Some (n, h, tb) } } }"

declare find_from.simps [code] probe_find.simps [code]

section \<open>The order of the entries\<close>

definition toward :: "('k \<Rightarrow> 'k \<Rightarrow> int) \<Rightarrow> 'k \<Rightarrow> nat \<Rightarrow> ('k, 'v) entry \<Rightarrow> int" where
  "toward cmp key hash e =
     (if hash < ehash e then - 1 else if ehash e < hash then 1 else cmp key (ekey e))"

lemma steer_cell_of [simp]: "steer cmp key hash (cell_of e l r b) = toward cmp key hash e"
  by (simp add: steer_def toward_def)

text \<open>Where the search for a key ends: a subtree (empty, or one with the key at its root) and a path.\<close>

fun descend :: "('e \<Rightarrow> int) \<Rightarrow> 'e tree \<Rightarrow> 'e path \<Rightarrow> 'e tree \<times> 'e path" where
  "descend f Tip c = (Tip, c)"
| "descend f (Fork l e b r) c =
     (if f e < 0 then descend f l (Frame False e b r # c)
      else if 0 < f e then descend f r (Frame True e b l # c)
      else (Fork l e b r, c))"

lemma descend_plug: "descend f t c = (t', c') \<Longrightarrow> plug t' c' = plug t c"
  by (induction f t c rule: descend.induct) (auto split: if_splits)

lemma descend_height: "descend f t c = (t', c') \<Longrightarrow> height t' + length c' \<le> height t + length c"
proof (induction f t c rule: descend.induct)
  case (2 f l e b r c)
  then show ?case by (auto split: if_splits)
qed simp

lemma descend_key: "descend f t c = (Fork l e b r, c') \<Longrightarrow> f e = 0"
  by (induction f t c rule: descend.induct) (auto split: if_splits)

lemma descend_suffix: "descend f t c = (t', c') \<Longrightarrow> \<exists>d. c' = d @ c"
proof (induction f t c rule: descend.induct)
  case (2 f l e b r c)
  then show ?case by (auto split: if_splits)
qed auto

text \<open>A search goes left of what is greater and right of what is less, and so ends at the right place.\<close>

lemma descend_sides:
  assumes "descend f t c = (t', c')" and "\<forall>e \<in> set (lefts c). 0 < f e" and "\<forall>e \<in> set (rights c). f e < 0"
    and "sorted_wrt (\<lambda>x y. f y \<ge> 0 \<longrightarrow> 0 < f x) (entries t)"
    and "sorted_wrt (\<lambda>x y. f x \<le> 0 \<longrightarrow> f y < 0) (entries t)"
  shows "(\<forall>e \<in> set (lefts c'). 0 < f e) \<and> (\<forall>e \<in> set (rights c'). f e < 0)"
  using assms by (induction f t c rule: descend.induct) (auto simp: sorted_wrt_append split: if_splits)

lemma find_from_spec:
  "mem_ok h \<Longrightarrow> tree_at (Cells h) t \<Longrightarrow>
   find_from h cmp key hash (addr t) = Some (addr (fst (descend (toward cmp key hash) t c)))"
proof (induction t arbitrary: c)
  case Tip
  then show ?case by (subst find_from.simps) simp
next
  case (Fork l e b r)
  then have "Cells h (at e) = Some (cell_of e (addr l) (addr r) b)" "at e \<noteq> 0" by (auto dest: mem_ok_dom)
  then show ?case using Fork by (subst find_from.simps) auto
qed

section \<open>The way down\<close>

definition marks :: "ptr \<Rightarrow> ('k, 'v) entry path \<Rightarrow> ptr \<times> ptr \<times> bool list" where
  "marks root c =
     (case dropWhile (\<lambda>f. fbal f = 0) c of
        [] \<Rightarrow> (0, root, rev (map fdir c))
      | f # c2 \<Rightarrow> (parent c2, at (fent f), rev (map fdir (takeWhile (\<lambda>f. fbal f = 0) c @ [f]))))"

lemma marks_Nil [simp]: "marks root [] = (0, root, [])"
  by (simp add: marks_def)

lemma marks_Cons:
  "marks root (Frame d e b s # c) =
     (case (if b \<noteq> 0 then (parent c, at e, []) else marks root c) of (z, y, da) \<Rightarrow> (z, y, da @ [d]))"
  by (cases "dropWhile (\<lambda>f. fbal f = 0) c") (auto simp: marks_def simp del: dropWhile_eq_Nil_conv)

lemma marks_length: "marks root c = (z, y, da) \<Longrightarrow> length da \<le> length c"
proof (induction c arbitrary: z y da)
  case (Cons f c)
  then show ?case by (cases f; cases "marks root c") (auto simp: marks_Cons split: if_splits)
qed simp

lemma probe_find_spec:
  "mem_ok h \<Longrightarrow> tree_at (Cells h) t \<Longrightarrow> marks root c = (z, y, da) \<Longrightarrow> length c + height t \<le> 32 \<Longrightarrow>
   descend (toward cmp key hash) t c = (t', c') \<Longrightarrow>
   probe_find h cmp key hash z y da (parent c) (pdir c) (addr t) =
     Some (case marks root c' of (z', y', da') \<Rightarrow>
       if t' = Tip then Inr (z', y', da', parent c', pdir c') else Inl (addr t'))"
proof (induction t arbitrary: c z y da)
  case Tip
  then show ?case by (subst probe_find.simps) (auto split: prod.splits)
next
  case (Fork l e b r)
  have n: "Cells h (at e) = Some (cell_of e (addr l) (addr r) b)" "at e \<noteq> 0"
    using Fork.prems(1,2) by (auto dest: mem_ok_dom)
  obtain z1 y1 da1 where m: "(if b \<noteq> 0 then (parent c, at e, []) else (z, y, da)) = (z1, y1, da1)"
    by (metis prod_cases3)
  have room: "length da1 < 32"
    using m Fork.prems(4) marks_length[OF Fork.prems(3)] by (auto split: if_splits)
  have mc: "marks root (Frame d e b s # c) = (z1, y1, da1 @ [d])" for d s
    using m Fork.prems(3) by (auto simp: marks_Cons split: if_splits)
  let ?s = "toward cmp key hash e"
  consider "?s < 0" | "0 < ?s" | "?s = 0" by linarith
  then show ?case
  proof cases
    case 1
    have "probe_find h cmp key hash z y da (parent c) (pdir c) (at e) =
        probe_find h cmp key hash z1 y1 (da1 @ [False]) (at e) False (addr l)"
      using n m room 1 Fork.prems(1) by (subst probe_find.simps) (simp add: Let_def)
    then show ?thesis using Fork.IH(1)[of "Frame False e b r # c", OF _ _ mc] Fork.prems 1 by simp
  next
    case 2
    have "probe_find h cmp key hash z y da (parent c) (pdir c) (at e) =
        probe_find h cmp key hash z1 y1 (da1 @ [True]) (at e) True (addr r)"
      using n m room 2 Fork.prems(1) by (subst probe_find.simps) (simp add: Let_def)
    then show ?thesis using Fork.IH(2)[of "Frame True e b l # c", OF _ _ mc] Fork.prems 2 by simp
  next
    case 3
    then show ?thesis using n m Fork.prems
      by (subst probe_find.simps) (auto simp: Let_def split: prod.splits)
  qed
qed

section \<open>The balance factors on the way\<close>

definition bumped :: "'e frame \<Rightarrow> 'e frame" where
  "bumped f = Frame (fdir f) (fent f) (fbal f + side (fdir f)) (fsib f)"

lemma bumped_simps [simp]:
  "fdir (bumped f) = fdir f" "fent (bumped f) = fent f" "fsib (bumped f) = fsib f"
  "fbal (bumped f) = fbal f + side (fdir f)"
  by (simp_all add: bumped_def)

lemma on_path_bumped [simp]: "on_path (map bumped c) = on_path c"
  by (induction c) auto

lemma top_bumped [simp]: "top a (map bumped c) = top a c"
  by (induction c arbitrary: a) auto

lemma lefts_bumped [simp]: "lefts (map bumped c) = lefts c" "rights (map bumped c) = rights c"
  by (induction c) auto

lemma up_bumped [simp]: "up n (map bumped c) = up n c"
  by (induction c arbitrary: n) auto

lemma bump_spec:
  "mem_ok h \<Longrightarrow> path_at (Cells h) n c \<Longrightarrow> n \<notin> on_path c \<Longrightarrow> distinct (map at (lefts c @ rights c)) \<Longrightarrow>
   \<exists>h'. bump h n (top n c) (rev (map fdir c)) = Some h' \<and> mem_ok h' \<and> path_at (Cells h') n (map bumped c) \<and>
     TFresh h' = TFresh h \<and> (\<forall>p. p \<notin> on_path c \<longrightarrow> Cells h' p = Cells h p)"
proof (induction c arbitrary: h rule: rev_induct)
  case (snoc f c)
  have n: "Cells h (at (fent f)) = Some (cell_of (fent f) (if fdir f then addr (fsib f) else top n c)
      (if fdir f then top n c else addr (fsib f)) (fbal f))" "tree_at (Cells h) (fsib f)" "path_at (Cells h) n c"
    using snoc.prems(2) by auto
  let ?n = "cell_of (fent f) (if fdir f then addr (fsib f) else top n c)
      (if fdir f then top n c else addr (fsib f)) (fbal f + side (fdir f))"
  let ?h = "put_cell h (at (fent f)) ?n"
  have nin: "at (fent f) \<notin> at ` set (entries (fsib f))" "at (fent f) \<notin> on_path c"
    "at ` set (entries (fsib f)) \<inter> on_path c = {}"
    using snoc.prems(4) by (auto simp: on_path_def image_iff split: if_splits)
  have ok: "mem_ok ?h" using n(1) snoc.prems(1) by simp
  have pc: "path_at (Cells ?h) n c" by (rule path_at_cong[OF _ n(3)]) (use nin(2) in auto)
  have "distinct (map at (lefts c @ rights c))" using snoc.prems(4) by auto
  then obtain h' where h': "bump ?h n (top n c) (rev (map fdir c)) = Some h'" "mem_ok h'"
    "path_at (Cells h') n (map bumped c)" "TFresh h' = TFresh h" "\<forall>p. p \<notin> on_path c \<longrightarrow> Cells h' p = Cells ?h p"
    using snoc.IH[OF ok pc] snoc.prems(3) by auto
  have "n \<noteq> at (fent f)" using snoc.prems(3) by auto
  then have "bump h n (top n (c @ [f])) (rev (map fdir (c @ [f]))) = Some h'"
    using n(1) snoc.prems(1) ok h'(1)
    by (cases "fdir f") (simp_all add: get_balance_def set_balance_def get_link_def)
  moreover have "\<forall>p \<in> at ` set (entries (fsib f)). p \<notin> on_path c \<and> p \<noteq> at (fent f)" using nin by blast
  then have "tree_at (Cells h') (fsib f)"
    by (intro tree_at_cong[OF _ n(2)]) (use h'(5) in auto)
  then have "path_at (Cells h') n (map bumped (c @ [f]))" using h'(3,5) nin(2) by auto
  ultimately show ?case using h'(2,4,5) by auto
qed simp

section \<open>Rotations\<close>

lemma tree_at_upd [simp]: "p \<notin> at ` set (entries t) \<Longrightarrow> tree_at (m(p := x)) t \<longleftrightarrow> tree_at m t"
  by (rule iffI) (erule tree_at_cong[rotated], force)+

lemma path_at_upd [simp]: "p \<notin> on_path c \<Longrightarrow> path_at (m(p := x)) a c \<longleftrightarrow> path_at m a c"
  by (rule iffI) (erule path_at_cong[rotated], force)+

lemma lift_single:
  assumes "mem_ok h" and "tree_at (Cells h) (br d (br d a x (side d) i) e b s)"
    and "distinct (map at (entries (br d (br d a x (side d) i) e b s)))"
  shows "\<exists>h'. lift d h (at e) = Some (at x, h') \<and> mem_ok h' \<and> TFresh h' = TFresh h \<and>
    tree_at (Cells h') (br d a x (side d) (br d i e 0 s)) \<and>
    (\<forall>p. p \<notin> at ` set (entries (br d (br d a x (side d) i) e b s)) \<longrightarrow> Cells h' p = Cells h p)"
proof -
  have nz: "at x \<noteq> 0" "at e \<noteq> 0" using assms(1,2) by (cases d; auto dest: mem_ok_dom)+
  show ?thesis using assms nz
    by (cases d) (auto simp: lift_def get_link_def get_balance_def set_link_def set_balance_def)
qed

lemma lift_double:
  assumes "mem_ok h" and "tree_at (Cells h) (br d (br d a x bx (br d i w bw j)) e b s)" and "bx \<noteq> side d"
    and "bw = - 1 \<or> bw = 0 \<or> bw = 1"
    and "distinct (map at (entries (br d (br d a x bx (br d i w bw j)) e b s)))"
  shows "\<exists>h'. lift d h (at e) = Some (at w, h') \<and> mem_ok h' \<and> TFresh h' = TFresh h \<and>
    tree_at (Cells h') (br d (br d a x (if bw = - side d then side d else 0) i) w bw
       (br d j e (if bw = side d then - side d else 0) s)) \<and>
    (\<forall>p. p \<notin> at ` set (entries (br d (br d a x bx (br d i w bw j)) e b s)) \<longrightarrow> Cells h' p = Cells h p)"
proof -
  have nz: "at x \<noteq> 0" "at e \<noteq> 0" "at w \<noteq> 0" using assms(1,2) by (cases d; auto dest: mem_ok_dom)+
  show ?thesis
  proof (cases d)
    case True
    then show ?thesis using assms nz
      by (elim disjE) (auto simp: lift_def get_link_def get_balance_def set_link_def set_balance_def balances_def)
  next
    case False
    then show ?thesis using assms nz
      by (elim disjE) (auto simp: lift_def get_link_def get_balance_def set_link_def set_balance_def balances_def)
  qed
qed

lemma set_balance_root:
  assumes "mem_ok h" and "tree_at (Cells h) (br d l e b r)" and "distinct (map at (entries (br d l e b r)))"
  shows "\<exists>h'. set_balance h (at e) b' = Some h' \<and> mem_ok h' \<and> TFresh h' = TFresh h \<and>
    tree_at (Cells h') (br d l e b' r) \<and> (\<forall>p. p \<noteq> at e \<longrightarrow> Cells h' p = Cells h p)"
  using assms by (cases d) (auto simp: set_balance_def)

lemma single_avl:
  assumes "avl (br d a x (side d) i)" and "avl s" and "height (br d a x (side d) i) = height s + 2"
  shows "avl (br d a x 0 (br d i e 0 s))" "height (br d a x 0 (br d i e 0 s)) = height s + 2"
  using assms by (cases d; auto)+

lemma double_avl:
  assumes "avl (br d a x (- side d) (br d i w bw j))" and "avl s"
    and "height (br d a x (- side d) (br d i w bw j)) = height s + 2"
  shows "avl (br d (br d a x (if bw = - side d then side d else 0) i) w 0
      (br d j e (if bw = side d then - side d else 0) s))"
    "height (br d (br d a x (if bw = - side d then side d else 0) i) w 0
      (br d j e (if bw = side d then - side d else 0) s)) = height s + 2"
  using assms by (cases d; auto)+

lemma lift_spec:
  assumes "mem_ok h" and "S = br d' a x (side d') i" and "a \<noteq> Tip" and "tree_at (Cells h) (br d S e b s)"
    and "distinct (map at (entries (br d S e b s)))" and "avl S" and "avl s" and "height S = height s + 2"
  shows "\<exists>h1 h' R. lift d h (at e) = Some (addr R, h1) \<and> set_balance h1 (addr R) 0 = Some h' \<and> mem_ok h' \<and>
    TFresh h' = TFresh h \<and> tree_at (Cells h') R \<and> entries R = entries (br d S e b s) \<and> avl R \<and>
    height R = height s + 2 \<and> R \<noteq> Tip \<and>
    (\<forall>p. p \<notin> at ` set (entries (br d S e b s)) \<longrightarrow> Cells h' p = Cells h p)"
proof (cases "d' = d")
  case True
  let ?R = "\<lambda>b'. br d a x b' (br d i e 0 s)"
  have en: "entries (?R b') = entries (br d S e b s)" for b' using assms(2) True by (cases d) auto
  from lift_single[of h d a x i e b s] assms True obtain h1 where
    h1: "lift d h (at e) = Some (at x, h1)" "mem_ok h1" "TFresh h1 = TFresh h" "tree_at (Cells h1) (?R (side d))"
    "\<forall>p. p \<notin> at ` set (entries (br d S e b s)) \<longrightarrow> Cells h1 p = Cells h p" by auto
  from set_balance_root[OF h1(2,4), of 0] en assms(5) obtain h' where
    h': "set_balance h1 (at x) 0 = Some h'" "mem_ok h'" "TFresh h' = TFresh h1" "tree_at (Cells h') (?R 0)"
    "\<forall>p. p \<noteq> at x \<longrightarrow> Cells h' p = Cells h1 p" by auto
  have "at x \<in> at ` set (entries (br d S e b s))" using assms(2) by (cases d; cases d') auto
  then have "\<forall>p. p \<notin> at ` set (entries (br d S e b s)) \<longrightarrow> Cells h' p = Cells h p" using h1(5) h'(5) by metis
  moreover have "avl (?R 0)" "height (?R 0) = height s + 2"
    using single_avl[of d a x i s e] assms(2,6-8) True by auto
  ultimately show ?thesis using h1(1,3) h' en
    by (intro exI[of _ h1] exI[of _ h'] exI[of _ "?R 0"]) (simp add: br_def)
next
  case False
  then have d': "d' = (\<not> d)" by simp
  obtain j1 w bw j2 where a: "a = br d j1 w bw j2" using br_exhaust[OF assms(3), of d] by blast
  have S: "S = br d i x (- side d) (br d j1 w bw j2)" using assms(2) a d' by (cases d) auto
  have bw: "bw = - 1 \<or> bw = 0 \<or> bw = 1" using assms(6) S by (cases d) auto
  let ?R = "\<lambda>b'. br d (br d i x (if bw = - side d then side d else 0) j1) w b'
       (br d j2 e (if bw = side d then - side d else 0) s)"
  have en: "entries (?R b') = entries (br d S e b s)" for b' using S by (cases d) auto
  have "- side d \<noteq> side d" by (cases d) auto
  from lift_double[OF assms(1) assms(4)[unfolded S] this bw] assms(5) S obtain h1 where
    h1: "lift d h (at e) = Some (at w, h1)" "mem_ok h1" "TFresh h1 = TFresh h" "tree_at (Cells h1) (?R bw)"
    "\<forall>p. p \<notin> at ` set (entries (br d S e b s)) \<longrightarrow> Cells h1 p = Cells h p" by auto
  from set_balance_root[OF h1(2,4), of 0] en assms(5) obtain h' where
    h': "set_balance h1 (at w) 0 = Some h'" "mem_ok h'" "TFresh h' = TFresh h1" "tree_at (Cells h') (?R 0)"
    "\<forall>p. p \<noteq> at w \<longrightarrow> Cells h' p = Cells h1 p" by auto
  have "at w \<in> at ` set (entries (br d S e b s))" using S by (cases d) auto
  then have "\<forall>p. p \<notin> at ` set (entries (br d S e b s)) \<longrightarrow> Cells h' p = Cells h p" using h1(5) h'(5) by metis
  moreover have "avl (?R 0)" "height (?R 0) = height s + 2"
    using double_avl[of d i x j1 w bw j2 s e] assms(6-8) S by auto
  ultimately show ?thesis using h1(1,3) h' en
    by (intro exI[of _ h1] exI[of _ h'] exI[of _ "?R 0"]) (simp add: br_def)
qed

section \<open>The table in memory\<close>

text \<open>
  The tree \<open>t\<close> of table \<open>tb\<close> lies in memory: its nodes are distinct, it is an AVL tree with the right
  balance factors, and \<^verbatim>\<open>Count\<close> is the number of its entries.
\<close>

definition rooted :: "('k, 'v) mem \<Rightarrow> ('k, 'v) table \<Rightarrow> ('k, 'v) entry tree \<Rightarrow> bool" where
  "rooted h tb t \<longleftrightarrow> mem_ok h \<and> tree_at (Cells h) t \<and> Root tb = addr t \<and>
     distinct (map at (entries t)) \<and> avl t \<and> Count tb = length (entries t)"

lemma ptrs_bound: "mem_ok h \<Longrightarrow> tree_at (Cells h) t \<Longrightarrow> at ` set (entries t) \<subseteq> {1..<TFresh h}"
  using tree_at_in[of "Cells h" t] by (fastforce dest: mem_ok_dom)

lemma count_bound:
  assumes "mem_ok h" and "tree_at (Cells h) t" and "distinct (map at (entries t))"
  shows "length (entries t) < TFresh h"
proof -
  have "card (at ` set (entries t)) \<le> card {1..<TFresh h}"
    by (rule card_mono[OF _ ptrs_bound[OF assms(1,2)]]) simp
  moreover have "card (at ` set (entries t)) = length (entries t)"
    using distinct_card[OF assms(3)] by simp
  moreover have "0 < TFresh h" using assms(1) by (simp add: mem_ok_def)
  ultimately show ?thesis by simp
qed

text \<open>The path to the place of a new node, split at the node \<open>y\<close>.\<close>

lemma marks_split:
  assumes "c \<noteq> []" and "root = top a c"
  obtains c0 f c2 where "c = c0 @ f # c2" "\<forall>g \<in> set c0. fbal g = 0" "fbal f \<noteq> 0 \<or> c2 = []"
    "marks root c = (parent c2, at (fent f), rev (map fdir (c0 @ [f])))"
proof (cases "dropWhile (\<lambda>f. fbal f = 0) c")
  case Nil
  then have z: "\<forall>g \<in> set c. fbal g = 0" by simp
  obtain c0 f where c: "c = c0 @ [f]" using assms(1) by (metis rev_exhaust)
  have "marks root c = (parent [], at (fent f), rev (map fdir (c0 @ [f])))"
    using Nil assms(2) by (simp add: marks_def c)
  then show ?thesis using z by (intro that[of c0 f "[]"]) (auto simp: c)
next
  case (Cons f c2)
  have c: "c = takeWhile (\<lambda>f. fbal f = 0) c @ f # c2" by (metis Cons takeWhile_dropWhile_id)
  have "fbal f \<noteq> 0" using Cons by (metis (mono_tags) dropWhile_eq_Cons_conv)
  moreover have "\<forall>g \<in> set (takeWhile (\<lambda>f. fbal f = 0) c). fbal g = 0" by (auto dest: set_takeWhileD)
  ultimately show ?thesis using Cons by (intro that[OF c]) (simp_all add: marks_def)
qed

lemma fits_bumped:
  "\<forall>g \<in> set c. fbal g = 0 \<Longrightarrow> fits n c \<Longrightarrow> fits (Suc n) (map bumped c) \<and> up (Suc n) c = Suc (up n c)"
proof (induction c arbitrary: n)
  case (Cons f c)
  then have "n = height (fsib f)" by (cases "fdir f") auto
  then show ?case using Cons by (cases "fdir f") auto
qed simp

text \<open>The side of the table's or a node's link that leads along a path.\<close>

lemma side_test:
  assumes "mem_ok h" and "path_at (Cells h) y c" and "Root tb = top y c" and "y \<noteq> 0"
    and "y \<notin> at ` set (lefts c @ rights c)"
  shows "\<exists>l. get_child h tb (parent c) False = Some l \<and> (y \<noteq> l) = pdir c"
proof (cases c)
  case Nil
  then show ?thesis using assms(3) by (simp add: get_child_def)
next
  case (Cons f c')
  have n: "Cells h (at (fent f)) = Some (cell_of (fent f) (if fdir f then addr (fsib f) else y)
      (if fdir f then y else addr (fsib f)) (fbal f))"
    using assms(2) Cons by simp
  have "fdir f \<Longrightarrow> y \<noteq> addr (fsib f)"
    using assms(4,5) Cons addr_in[of "fsib f"] by (cases "fsib f = Tip") auto
  then show ?thesis using n mem_ok_dom[OF assms(1) n] assms(1) Cons
    by (auto simp: get_child_def get_link_def)
qed

section \<open>avl_probe\<close>

lemma probe_start:
  assumes "rooted h tb t" and "height t \<le> 32" and "descend (toward (Compare tb) key hash) t [] = (t', c)"
  shows "probe_find h (Compare tb) key hash 0 (Root tb) [] 0 False (Root tb) =
     Some (case marks (Root tb) c of (z, y, da) \<Rightarrow>
       if t' = Tip then Inr (z, y, da, parent c, pdir c) else Inl (addr t'))"
  using probe_find_spec[of h t "Root tb" "[]" 0 "Root tb" "[]" "Compare tb" key hash t' c] assms
  by (auto simp: rooted_def split: prod.splits)

lemma new_cell_spec:
  assumes "mem_ok h" and "TFresh h < max_cells"
  obtains h' where "new_cell h key hash = Some (TFresh h, h')" "mem_ok h'" "TFresh h' = Suc (TFresh h)"
    "Cells h' (TFresh h) = Some (cell_of (Entry (TFresh h) key None hash) 0 0 0)"
    "\<forall>p. p \<noteq> TFresh h \<longrightarrow> Cells h' p = Cells h p"
proof
  let ?h = "(put_cell h (TFresh h) (cell_of (Entry (TFresh h) key None hash) 0 0 0))\<lparr>TFresh := Suc (TFresh h)\<rparr>"
  show "new_cell h key hash = Some (TFresh h, ?h)" using assms(2) by (simp add: new_cell_def cell_of_def)
  show "mem_ok ?h" using assms by (auto simp: mem_ok_def less_Suc_eq)
qed simp_all

lemma settle_spec:
  assumes "mem_ok h" and "path_at (Cells h) n (map bumped (c0 @ [f]))" and "tree_at (Cells h) (Fork Tip e 0 Tip)"
    and "at e = n" and "\<forall>g \<in> set c0. fbal g = 0" and "fits 0 (c0 @ [f])" and "fbal f = side (fdir f)"
    and "distinct (map at (lefts (c0 @ [f]) @ [e] @ rights (c0 @ [f])))"
  shows "\<exists>h' R. settle (fdir f) h (at (fent f)) = Some (addr R, h') \<and> mem_ok h' \<and> TFresh h' = TFresh h \<and>
    tree_at (Cells h') R \<and> entries R = lefts (c0 @ [f]) @ [e] @ rights (c0 @ [f]) \<and> avl R \<and>
    height R = up 0 (c0 @ [f]) \<and> R \<noteq> Tip \<and>
    (\<forall>p. p \<notin> insert n (on_path (c0 @ [f])) \<longrightarrow> Cells h' p = Cells h p)"
proof -
  let ?nt = "Fork Tip e 0 Tip"
  let ?S = "plug ?nt (map bumped c0)"
  have fb: "fits (Suc 0) (map bumped c0)" "up (Suc 0) c0 = Suc (up 0 c0)"
    using fits_bumped[OF assms(5), of 0] assms(6) by auto
  have S: "avl ?S" "height ?S = Suc (up 0 c0)" using fb by (simp_all add: avl_plug height_plug)
  have hs: "up 0 c0 = Suc (height (fsib f))" and s: "avl (fsib f)"
    using assms(6,7) by (cases "fdir f"; auto)+
  then have "c0 \<noteq> []" by (cases c0) auto
  then obtain g c1 where c0: "c0 = c1 @ [g]" by (metis rev_exhaust)
  have Sg: "?S = br (fdir g) (plug ?nt (map bumped c1)) (fent g) (side (fdir g)) (fsib g)"
    using assms(5) by (simp add: c0 graft_def)
  have ne: "plug ?nt (map bumped c1) \<noteq> Tip"
    using entries_Nil[of "plug ?nt (map bumped c1)"] by simp
  let ?T = "br (fdir f) ?S (fent f) (2 * side (fdir f)) (fsib f)"
  have T: "tree_at (Cells h) ?T" using assms(2-4,7) by (simp add: tree_at_br)
  have en: "entries ?T = lefts (c0 @ [f]) @ [e] @ rights (c0 @ [f])" by (cases "fdir f") auto
  from lift_spec[OF assms(1) Sg ne T _ S(1) s] en assms(8) S(2) hs obtain h1 h' R where
    R: "lift (fdir f) h (at (fent f)) = Some (addr R, h1)" "set_balance h1 (addr R) 0 = Some h'" "mem_ok h'"
    "TFresh h' = TFresh h" "tree_at (Cells h') R" "entries R = entries ?T" "avl R"
    "height R = height (fsib f) + 2" "R \<noteq> Tip" "\<forall>p. p \<notin> at ` set (entries ?T) \<longrightarrow> Cells h' p = Cells h p" by auto
  have "at ` set (entries ?T) = insert n (on_path (c0 @ [f]))" unfolding en on_path_def using assms(4) by auto
  then show ?thesis using R en hs
    by (intro exI[of _ h'] exI[of _ R]) (simp add: settle_def)
qed

lemma path_split:
  assumes "distinct (map at (lefts (c @ c') @ rights (c @ c')))"
  shows "distinct (map at (lefts c @ rights c)) \<and> distinct (map at (lefts c' @ rights c')) \<and>
    (\<forall>p \<in> on_path c'. p \<notin> on_path c)"
proof -
  have "distinct (map at (lefts c') @ map at (lefts c) @ map at (rights c) @ map at (rights c'))"
    using assms by (simp only: lefts_append rights_append map_append append_assoc)
  then show ?thesis by (auto simp: on_path_def image_iff)
qed

lemma avl_probe_new:
  assumes r: "rooted h tb t" and "height t \<le> 32" and room: "TFresh h < max_cells"
    and d: "descend (toward (Compare tb) key hash) t [] = (Tip, c)"
  shows "\<exists>h' tb' t' g. avl_probe h tb key hash = Some (TFresh h, h', tb') \<and> rooted h' tb' t' \<and>
    tb' = tb\<lparr>Root := addr t', Count := Suc (Count tb), Generation := g\<rparr> \<and>
    entries t' = lefts c @ [Entry (TFresh h) key None hash] @ rights c \<and> TFresh h' = Suc (TFresh h) \<and>
    (\<forall>p. p \<notin> insert (TFresh h) (at ` set (entries t)) \<longrightarrow> Cells h' p = Cells h p)"
proof -
  let ?n = "TFresh h" and ?e = "Entry (TFresh h) key None hash"
  let ?nt = "Fork Tip ?e 0 Tip"
  have t: "t = plug Tip c" using descend_plug[OF d] by simp
  have R: "mem_ok h" "path_at (Cells h) 0 c" "Root tb = top 0 c" "distinct (map at (lefts c @ rights c))"
    "fits 0 c" "Count tb = length (lefts c @ rights c)"
    using r unfolding rooted_def t by (auto simp: avl_plug)
  have op: "at ` set (entries t) = on_path c" unfolding t on_path_def by simp
  have nin: "?n \<notin> on_path c" using ptrs_bound[of h t] r by (auto simp: rooted_def t on_path_def)
  have n0: "?n \<noteq> 0" using R(1) by (simp add: mem_ok_def)
  have cnt: "inc32 (Count tb) = Suc (Count tb)"
    using count_bound[of h t] r room by (auto simp: rooted_def max_cells_def)
  obtain h1 where h1: "new_cell h key hash = Some (?n, h1)" "mem_ok h1" "TFresh h1 = Suc ?n"
    "Cells h1 ?n = Some (cell_of ?e 0 0 0)" "\<forall>p. p \<noteq> ?n \<longrightarrow> Cells h1 p = Cells h p"
    using new_cell_spec[OF R(1) room, of key hash] .
  have "path_at (Cells h1) 0 c" by (rule path_at_cong[OF _ R(2)]) (use h1(5) nin in metis)
  from set_child_path[OF h1(2) this R(3,4), of ?n] obtain h2 tb2 where
    h2: "set_child h1 tb (parent c) (pdir c) ?n = Some (h2, tb2)" "mem_ok h2" "path_at (Cells h2) ?n c"
    "tb2 = tb\<lparr>Root := top ?n c\<rparr>" "TFresh h2 = Suc ?n" "\<forall>p. p \<notin> on_path c \<longrightarrow> Cells h2 p = Cells h1 p"
    unfolding h1(3) .
  have nt2: "tree_at (Cells h2) ?nt" using h1(4) h2(6) nin by simp
  note probe = probe_start[OF r assms(2) d]
  show ?thesis
  proof (cases "c = []")
    case True
    then have "avl_probe h tb key hash = Some (?n, h2, tb2\<lparr>Count := Suc (Count tb2)\<rparr>)"
      using probe h1(1) h2(1,4) cnt R(3) by (simp add: avl_probe_def)
    moreover have "rooted h2 (tb2\<lparr>Count := Suc (Count tb2)\<rparr>) ?nt"
      using True h2(2,4) nt2 R(6) by (simp add: rooted_def)
    ultimately show ?thesis using True h2(4,5,6) h1(5) R(6)
      by (intro exI[of _ h2] exI[of _ "tb2\<lparr>Count := Suc (Count tb2)\<rparr>"] exI[of _ ?nt]
          exI[of _ "Generation tb"]) simp
  next
    case False
    obtain c0 f c2 where c: "c = c0 @ f # c2" "\<forall>g \<in> set c0. fbal g = 0" "fbal f \<noteq> 0 \<or> c2 = []"
      "marks (Root tb) c = (parent c2, at (fent f), rev (map fdir (c0 @ [f])))"
      using marks_split[OF False R(3)] .
    let ?y = "at (fent f)" and ?c = "c0 @ [f]"
    have c': "c = ?c @ c2" using c(1) by simp
    have opc: "on_path c = on_path ?c \<union> on_path c2" unfolding c' by (rule on_path_simps(3))
    have P: "path_at (Cells h2) ?n ?c" "path_at (Cells h2) ?y c2" "?n \<notin> on_path ?c" "?n \<notin> on_path c2"
      using h2(3) nin unfolding c' by auto
    have dis: "distinct (map at (lefts ?c @ rights ?c))" "distinct (map at (lefts c2 @ rights c2))"
      "\<forall>p \<in> on_path c2. p \<notin> on_path ?c"
      using path_split[OF R(4)[unfolded c']] by blast+
    have F: "fits 0 ?c" "fits (up 0 ?c) c2" using R(5) unfolding c' by auto
    from bump_spec[OF h2(2) P(1,3) dis(1)] obtain h3 where
      h3: "bump h2 ?n ?y (rev (map fdir ?c)) = Some h3" "mem_ok h3" "path_at (Cells h3) ?n (map bumped ?c)"
      "TFresh h3 = TFresh h2" "\<forall>p. p \<notin> on_path ?c \<longrightarrow> Cells h3 p = Cells h2 p" by auto
    have c23: "path_at (Cells h3) ?y c2" by (rule path_at_cong[OF _ P(2)]) (metis h3(5) dis(3))
    have nt3: "tree_at (Cells h3) ?nt" using nt2 h3(5) P(3) by simp
    have y0: "?y \<noteq> 0" using h3(2,3) by (auto dest: mem_ok_dom)
    have bal: "get_balance h3 ?y = Some (fbal f + side (fdir f))"
      using h3(2,3) by (simp add: get_balance_def)
    have fr: "\<forall>p. p \<notin> insert ?n (at ` set (entries t)) \<longrightarrow> Cells h3 p = Cells h p"
      unfolding op by (metis h1(5) h2(6) h3(5) opc UnI1 insert_iff)
    let ?tb = "tb2\<lparr>Count := Suc (Count tb2)\<rparr>"
    have prefix: "avl_probe h tb key hash =
       (let b = fbal f + side (fdir f) in
        if b = - 2 \<or> b = 2 then do {
             (w, h) \<leftarrow> settle (b = 2) h3 ?y;
             l \<leftarrow> get_child h ?tb (parent c2) False;
             (h, tb) \<leftarrow> set_child h ?tb (parent c2) (?y \<noteq> l) w;
             Some (?n, h, tb\<lparr>Generation := inc32 (Generation tb)\<rparr>) }
        else Some (?n, h3, ?tb))"
      using probe c(4) h1(1) h2(1,4) h3(1) cnt y0 bal by (simp add: avl_probe_def Let_def)
    let ?b = "fbal f + side (fdir f)"
    have fb: "fits (Suc 0) (map bumped c0)" "up (Suc 0) c0 = Suc (up 0 c0)"
      using fits_bumped[OF c(2), of 0] F(1) by auto
    have bf: "fbal f = side (fdir f) * (int (up 0 c0) - int (height (fsib f)))" "\<bar>fbal f\<bar> \<le> 1" "avl (fsib f)"
      using F(1) by auto
    show ?thesis
    proof (cases "fbal f = side (fdir f)")
      case False
      note plug_append [simp del]
      let ?t' = "plug ?nt (map bumped ?c @ c2)"
      have "?b \<noteq> - 2 \<and> ?b \<noteq> 2" using False bf(2) by (cases "fdir f") auto
      then have pr: "avl_probe h tb key hash = Some (?n, h3, ?tb)" using prefix by (simp add: Let_def)
      have "fits (Suc 0) (map bumped ?c @ c2)"
      proof (cases "fbal f = 0")
        case True
        then show ?thesis using c(3) fb bf by (cases "fdir f") auto
      next
        case nz: False
        then have "fbal f = - side (fdir f)" using False bf(2) by (cases "fdir f") auto
        then have "height (fsib f) = Suc (up 0 c0)" using bf(1) by (cases "fdir f") auto
        then show ?thesis using fb bf F(2) \<open>fbal f = - side (fdir f)\<close> by (cases "fdir f") auto
      qed
      then have "avl ?t'" unfolding avl_plug
        by (simp only: avl.simps height.simps max_0L HOL.simp_thms of_nat_0 diff_0_right abs_zero zero_le_one max.idem)
      moreover have "tree_at (Cells h3) ?t'" using nt3 h3(3) c23 by simp
      moreover have "entries ?t' = lefts c @ [?e] @ rights c" unfolding c' by simp
      moreover have "addr ?t' = top ?n c" unfolding c' by simp
      ultimately have "rooted h3 ?tb ?t'"
        using h3(2) h2(4) R(4,6) nin by (simp add: rooted_def on_path_def image_Un)
      then show ?thesis using pr h2(4,5) h3(4) fr \<open>entries ?t' = _\<close> \<open>addr ?t' = _\<close>
        by (intro exI[of _ h3] exI[of _ ?tb] exI[of _ ?t'] exI[of _ "Generation tb"]) simp
    next
      case True
      have b2: "?b = - 2 \<or> ?b = 2" "(?b = 2) = fdir f" using True by (cases "fdir f"; simp)+
      have "distinct (map at (lefts ?c @ [?e] @ rights ?c))" using dis(1) P(3) by (auto simp: on_path_def)
      from settle_spec[OF h3(2,3) nt3 _ c(2) F(1) True this] obtain h4 T where
        h4: "settle (fdir f) h3 ?y = Some (addr T, h4)" "mem_ok h4" "TFresh h4 = TFresh h3" "tree_at (Cells h4) T"
        "entries T = lefts ?c @ [?e] @ rights ?c" "avl T" "height T = up 0 ?c" "T \<noteq> Tip"
        "\<forall>p. p \<notin> insert ?n (on_path ?c) \<longrightarrow> Cells h4 p = Cells h3 p" by auto
      have c24: "path_at (Cells h4) ?y c2"
        by (rule path_at_cong[OF _ c23]) (metis h4(9) P(4) dis(3) insert_iff)
      have tbr: "Root ?tb = top ?y c2" using h2(4) unfolding c' by simp
      have "?y \<in> on_path ?c" by simp
      then have "?y \<notin> at ` set (lefts c2 @ rights c2)" using dis(3) unfolding on_path_def[of c2] by metis
      from side_test[OF h4(2) c24 tbr y0 this] obtain l where
        l: "get_child h4 ?tb (parent c2) False = Some l" "(?y \<noteq> l) = pdir c2" by blast
      from set_child_path[OF h4(2) c24 tbr dis(2), of "addr T"] obtain h5 tb5 where
        h5: "set_child h4 ?tb (parent c2) (pdir c2) (addr T) = Some (h5, tb5)" "mem_ok h5"
        "path_at (Cells h5) (addr T) c2" "tb5 = ?tb\<lparr>Root := top (addr T) c2\<rparr>" "TFresh h5 = TFresh h4"
        "\<forall>p. p \<notin> on_path c2 \<longrightarrow> Cells h5 p = Cells h4 p" .
      let ?t' = "plug T c2" and ?tb' = "tb5\<lparr>Generation := inc32 (Generation tb5)\<rparr>"
      have pr: "avl_probe h tb key hash = Some (?n, h5, ?tb')"
        using prefix b2 h4(1) l h5(1) by (simp add: Let_def)
      have "at ` set (entries T) = insert ?n (on_path ?c)" unfolding h4(5) on_path_def by auto
      then have "tree_at (Cells h5) T"
        using P(4) dis(3) by (intro tree_at_cong[OF _ h4(4)] h5(6)[rule_format]) auto
      then have tr: "tree_at (Cells h5) ?t'" using h5(3) by simp
      moreover have "avl ?t'" using h4(6,7) F(2) by (simp add: avl_plug)
      moreover have en: "entries ?t' = lefts c @ [?e] @ rights c" unfolding c' by (simp add: h4(5))
      ultimately have "rooted h5 ?tb' ?t'"
        using h5(2,4) h2(4) R(4,6) nin by (simp add: rooted_def on_path_def image_Un)
      moreover have "\<forall>p. p \<notin> insert ?n (at ` set (entries t)) \<longrightarrow> Cells h5 p = Cells h p"
        using fr unfolding op by (metis h4(9) h5(6) opc UnI1 UnI2 insert_iff)
      ultimately show ?thesis using pr en h5(4,5) h2(4,5) h3(4) h4(3)
        by (intro exI[of _ h5] exI[of _ ?tb'] exI[of _ ?t'] exI[of _ "Generation ?tb'"]) simp
    qed
  qed
qed

end
