(* ===== verification/TableDelete.thy ===== *)
theory TableDelete
  imports TableProbe
begin

text \<open>
  Deletion from an \<^verbatim>\<open>Agg$Table\<close>: \<^verbatim>\<open>avl_delete\<close> of \<^verbatim>\<open>dev/src/lib/Agg/Table.c\<close>.
\<close>

section \<open>Definitions\<close>

text \<open>
  The arrays \<^verbatim>\<open>pa\<close> and \<^verbatim>\<open>da\<close> (of 32 elements each) are one list of pairs, the last pair pushed first;
  \<^verbatim>\<open>k\<close> is its length. Its last element is the pair of the table itself and \<^const>\<open>False\<close>.
\<close>

type_synonym dstack = "(ptr \<times> bool) list"

definition dpush :: "ptr \<Rightarrow> bool \<Rightarrow> dstack \<Rightarrow> dstack option" where
  "dpush p d st = (if length st < 32 then Some ((p, d) # st) else None)"

text \<open>
  The search. The loop body runs with the node \<open>p\<close> reached last and the direction \<open>d\<close> of the last
  comparison; the result is the node found (0 if none) and the stack.
\<close>

partial_function (option) delete_find ::
  "('k, 'v) mem \<Rightarrow> ('k, 'v) table \<Rightarrow> 'k \<Rightarrow> nat \<Rightarrow> dstack \<Rightarrow> ptr \<Rightarrow> bool \<Rightarrow> (ptr \<times> dstack) option" where
  "delete_find h tb key hash st p d = do {
     st \<leftarrow> dpush p d st;
     p \<leftarrow> get_child h tb p d;
     if p = 0 then Some (0, st)
     else do {
       n \<leftarrow> cell_at h p;
       if steer (Compare tb) key hash n = 0 then Some (p, st)
       else delete_find h tb key hash st p (0 < steer (Compare tb) key hash n) } }"

text \<open>\<^verbatim>\<open>for (;;) {da[k] = 0; pa[k++] = r; s = r->Link[0]; if (s->Link[0] == 0) break; r = s;}\<close>\<close>

partial_function (option) least_find :: "('k, 'v) mem \<Rightarrow> dstack \<Rightarrow> ptr \<Rightarrow> (ptr \<times> ptr \<times> dstack) option" where
  "least_find h st r = do {
     st \<leftarrow> dpush r False st;
     s \<leftarrow> get_link h r False;
     sl \<leftarrow> get_link h s False;
     if sl = 0 then Some (r, s, st) else least_find h st s }"

text \<open>
  The node \<open>p\<close> is taken out of the tree. \<open>z\<close> and \<open>dz\<close> are \<^verbatim>\<open>pa[k - 1]\<close> and \<^verbatim>\<open>da[k - 1]\<close>. In the last
  case the element \<open>j\<close> of the stack is reserved first and set at the end.
\<close>

definition detach ::
  "('k, 'v) mem \<Rightarrow> ('k, 'v) table \<Rightarrow> dstack \<Rightarrow> ptr \<Rightarrow> (('k, 'v) mem \<times> ('k, 'v) table \<times> dstack) option" where
  "detach h tb st p =
     (case st of
        [] \<Rightarrow> None
      | (z, dz) # _ \<Rightarrow> do {
          r \<leftarrow> get_link h p True;
          if r = 0 then do {
            l \<leftarrow> get_link h p False;
            (h, tb) \<leftarrow> set_child h tb z dz l;
            Some (h, tb, st) }
          else do {
            rl \<leftarrow> get_link h r False;
            if rl = 0 then do {
              l \<leftarrow> get_link h p False;
              h \<leftarrow> set_link h r False l;
              b \<leftarrow> get_balance h p;
              h \<leftarrow> set_balance h r b;
              (h, tb) \<leftarrow> set_child h tb z dz r;
              st \<leftarrow> dpush r True st;
              Some (h, tb, st) }
            else do {
              let j = length st;
              st \<leftarrow> dpush 0 False st;
              (r, s, st) \<leftarrow> least_find h st r;
              l \<leftarrow> get_link h p False;
              h \<leftarrow> set_link h s False l;
              sr \<leftarrow> get_link h s True;
              h \<leftarrow> set_link h r False sr;
              pr \<leftarrow> get_link h p True;
              h \<leftarrow> set_link h s True pr;
              b \<leftarrow> get_balance h p;
              h \<leftarrow> set_balance h s b;
              (h, tb) \<leftarrow> set_child h tb z dz s;
              Some (h, tb, st[length st - 1 - j := (s, True)]) } } })"

text \<open>
  The rotations at \<open>y\<close> when its subtree on side \<open>d\<close> has become two levels lower than the other, with the
  root \<open>x\<close>; the two branches of the code are the two values of \<open>d\<close>. The double rotation returns the new root.
\<close>

definition twist :: "bool \<Rightarrow> ('k, 'v) mem \<Rightarrow> ptr \<Rightarrow> ptr \<Rightarrow> (ptr \<times> ('k, 'v) mem) option" where
  "twist d h y x = do {
     w \<leftarrow> get_link h x d;
     a \<leftarrow> get_link h w (\<not> d);
     h \<leftarrow> set_link h x d a;
     h \<leftarrow> set_link h w (\<not> d) x;
     a \<leftarrow> get_link h w d;
     h \<leftarrow> set_link h y (\<not> d) a;
     h \<leftarrow> set_link h w d y;
     bw \<leftarrow> get_balance h w;
     h \<leftarrow> set_balance h x (if bw = - side d then 0 else if bw = 0 then 0 else - side d);
     h \<leftarrow> set_balance h y (if bw = - side d then side d else 0);
     h \<leftarrow> set_balance h w 0;
     Some (w, h) }"

definition turn :: "bool \<Rightarrow> ('k, 'v) mem \<Rightarrow> ptr \<Rightarrow> ptr \<Rightarrow> ('k, 'v) mem option" where
  "turn d h y x = do {
     a \<leftarrow> get_link h x d;
     h \<leftarrow> set_link h y (\<not> d) a;
     set_link h x d y }"

text \<open>
  The rotated subtree goes to \<^verbatim>\<open>pa[k - 1]->Link[da[k - 1]]\<close>, here side \<open>dz\<close> of \<open>z\<close>. The result says whether
  the loop ends here.
\<close>

definition sink ::
  "bool \<Rightarrow> ('k, 'v) mem \<Rightarrow> ('k, 'v) table \<Rightarrow> ptr \<Rightarrow> ptr \<Rightarrow> bool \<Rightarrow> (bool \<times> ('k, 'v) mem \<times> ('k, 'v) table) option" where
  "sink d h tb y z dz = do {
     x \<leftarrow> get_link h y (\<not> d);
     bx \<leftarrow> get_balance h x;
     if bx = side d then do {
       (w, h) \<leftarrow> twist d h y x;
       (h, tb) \<leftarrow> set_child h tb z dz w;
       Some (False, h, tb) }
     else do {
       h \<leftarrow> turn d h y x;
       (h, tb) \<leftarrow> set_child h tb z dz x;
       let stop = (bx = 0);
       h \<leftarrow> set_balance h x (if stop then side d else 0);
       h \<leftarrow> set_balance h y (if stop then - side d else 0);
       Some (stop, h, tb) } }"

text \<open>\<^verbatim>\<open>while (--k > 0)\<close>: the balance factors on the way back.\<close>

fun climb :: "('k, 'v) mem \<Rightarrow> ('k, 'v) table \<Rightarrow> dstack \<Rightarrow> (('k, 'v) mem \<times> ('k, 'v) table) option" where
  "climb h tb ((y, d) # (z, dz) # st) = do {
     b \<leftarrow> get_balance h y;
     h \<leftarrow> set_balance h y (b - side d);
     if b - side d = - side d then Some (h, tb)
     else if b - side d = - 2 * side d then do {
       (stop, h, tb) \<leftarrow> sink d h tb y z dz;
       if stop then Some (h, tb) else climb h tb ((z, dz) # st) }
     else climb h tb ((z, dz) # st) }"
| "climb h tb _ = Some (h, tb)"

text \<open>The result is the value of the deleted node, or \<^const>\<open>None\<close> (NULL) if the key is not there.\<close>

definition avl_delete ::
  "('k, 'v) mem \<Rightarrow> ('k, 'v) table \<Rightarrow> 'k \<Rightarrow> nat \<Rightarrow> ('v option \<times> ('k, 'v) mem \<times> ('k, 'v) table) option" where
  "avl_delete h tb key hash = do {
     (p, st) \<leftarrow> delete_find h tb key hash [] 0 False;
     if p = 0 then Some (None, h, tb)
     else do {
       n \<leftarrow> cell_at h p;
       (h, tb, st) \<leftarrow> detach h tb st p;
       (h, tb) \<leftarrow> climb h tb st;
       Some (Slot n, h, tb\<lparr>Count := dec32 (Count tb), Generation := inc32 (Generation tb)\<rparr>) } }"

declare delete_find.simps [code] least_find.simps [code]

section \<open>The search\<close>

text \<open>The stack that holds the path \<open>c\<close>, above a node or an empty place.\<close>

definition dstack_of :: "('k, 'v) entry path \<Rightarrow> dstack" where
  "dstack_of c = map (\<lambda>f. (at (fent f), fdir f)) c @ [(0, False)]"

lemma dstack_simps [simp]:
  "dstack_of [] = [(0, False)]" "dstack_of (f # c) = (at (fent f), fdir f) # dstack_of c"
  "length (dstack_of c) = Suc (length c)"
  by (simp_all add: dstack_of_def)

lemma dstack_head: "dstack_of c = (parent c, pdir c) # List.tl (dstack_of c)"
  by (cases c) auto

lemma delete_find_spec:
  "mem_ok h \<Longrightarrow> tree_at (Cells h) t \<Longrightarrow> get_child h tb (parent c) (pdir c) = Some (addr t) \<Longrightarrow>
   length c + height t \<le> 31 \<Longrightarrow> descend (toward (Compare tb) key hash) t c = (t', c') \<Longrightarrow>
   delete_find h tb key hash (List.tl (dstack_of c)) (parent c) (pdir c) = Some (addr t', dstack_of c')"
proof (induction t arbitrary: c)
  case Tip
  then show ?case
    by (subst delete_find.simps, cases c) (auto simp: dpush_def)
next
  case (Fork l e b r)
  have n: "Cells h (at e) = Some (cell_of e (addr l) (addr r) b)" "at e \<noteq> 0"
    using Fork.prems(1,2) by (auto dest: mem_ok_dom)
  have pu: "dpush (parent c) (pdir c) (List.tl (dstack_of c)) = Some (dstack_of c)"
    using Fork.prems(4) by (cases c) (auto simp: dpush_def)
  let ?s = "toward (Compare tb) key hash e"
  have step: "delete_find h tb key hash (List.tl (dstack_of c)) (parent c) (pdir c) =
    (if ?s = 0 then Some (at e, dstack_of c) else delete_find h tb key hash (dstack_of c) (at e) (0 < ?s))"
    using n pu Fork.prems(1,3) by (subst delete_find.simps) simp
  consider "?s < 0" | "0 < ?s" | "?s = 0" by linarith
  then show ?case
  proof cases
    case 1
    then show ?thesis using Fork.IH(1)[of "Frame False e b r # c"] Fork.prems n step
      by (simp add: get_child_def get_link_def)
  next
    case 2
    then show ?thesis using Fork.IH(2)[of "Frame True e b l # c"] Fork.prems n step
      by (simp add: get_child_def get_link_def)
  next
    case 3
    then show ?thesis using Fork.prems(5) step by auto
  qed
qed

section \<open>Rotations\<close>

lemma twist_spec:
  assumes "mem_ok h" and "tree_at (Cells h) (br d t e b (br d (br d i w bw j) x bx a))"
    and "bw = - 1 \<or> bw = 0 \<or> bw = 1"
    and "distinct (map at (entries (br d t e b (br d (br d i w bw j) x bx a))))"
  shows "\<exists>h'. twist d h (at e) (at x) = Some (at w, h') \<and> mem_ok h' \<and> TFresh h' = TFresh h \<and>
    tree_at (Cells h') (br d (br d t e (if bw = - side d then side d else 0) i) w 0
       (br d j x (if bw = side d then - side d else 0) a)) \<and>
    (\<forall>p. p \<notin> at ` set (entries (br d t e b (br d (br d i w bw j) x bx a))) \<longrightarrow> Cells h' p = Cells h p)"
proof -
  have nz: "at x \<noteq> 0" "at e \<noteq> 0" "at w \<noteq> 0" using assms(1,2) by (cases d; auto dest: mem_ok_dom)+
  show ?thesis
  proof (cases d)
    case True
    then show ?thesis using assms nz
      by (elim disjE) (auto simp: twist_def get_link_def get_balance_def set_link_def set_balance_def)
  next
    case False
    then show ?thesis using assms nz
      by (elim disjE) (auto simp: twist_def get_link_def get_balance_def set_link_def set_balance_def)
  qed
qed

lemma turn_spec:
  assumes "mem_ok h" and "tree_at (Cells h) (br d t e b (br d i x bx a))"
    and "distinct (map at (entries (br d t e b (br d i x bx a))))"
  shows "\<exists>h'. turn d h (at e) (at x) = Some h' \<and> mem_ok h' \<and> TFresh h' = TFresh h \<and>
    tree_at (Cells h') (br d (br d t e b i) x bx a) \<and>
    (\<forall>p. p \<notin> at ` set (entries (br d t e b (br d i x bx a))) \<longrightarrow> Cells h' p = Cells h p)"
proof -
  have nz: "at x \<noteq> 0" "at e \<noteq> 0" using assms(1,2) by (cases d; auto dest: mem_ok_dom)+
  show ?thesis using assms nz
    by (cases d) (auto simp: turn_def get_link_def set_link_def)
qed

lemma rebalance_spec:
  assumes "mem_ok h" and "tree_at (Cells h) (br d (br d t e b i) x bx a)"
    and "distinct (map at (entries (br d (br d t e b i) x bx a)))"
  shows "\<exists>h1 h'. set_balance h (at x) bx' = Some h1 \<and> set_balance h1 (at e) b' = Some h' \<and> mem_ok h' \<and>
    TFresh h' = TFresh h \<and> tree_at (Cells h') (br d (br d t e b' i) x bx' a) \<and>
    (\<forall>p. p \<notin> {at x, at e} \<longrightarrow> Cells h' p = Cells h p)"
  using assms by (cases d) (auto simp: set_balance_def)

lemma sink_avl:
  assumes "avl t" and "avl (br d i x bx a)" and "height (br d i x bx a) = height t + 2"
  shows "bx = 0 \<Longrightarrow> avl (br d (br d t e (- side d) i) x (side d) a) \<and>
      height (br d (br d t e (- side d) i) x (side d) a) = Suc (height (br d i x bx a))"
    and "bx = - side d \<Longrightarrow> avl (br d (br d t e 0 i) x 0 a) \<and>
      height (br d (br d t e 0 i) x 0 a) = height (br d i x bx a)"
    and "bx = side d \<Longrightarrow> i = br d i1 w bw i2 \<Longrightarrow>
      avl (br d (br d t e (if bw = - side d then side d else 0) i1) w 0
       (br d i2 x (if bw = side d then - side d else 0) a)) \<and>
      height (br d (br d t e (if bw = - side d then side d else 0) i1) w 0
       (br d i2 x (if bw = side d then - side d else 0) a)) = height (br d i x bx a)"
  using assms by (cases d; auto)+

lemma sink_spec:
  assumes ok: "mem_ok h" and T: "tree_at (Cells h) (br d t e (- 2 * side d) s)"
    and pc: "path_at (Cells h) (at e) c" and rt: "Root tb = top (at e) c"
    and dis: "distinct (map at (lefts c @ entries (br d t e (- 2 * side d) s) @ rights c))"
    and av: "avl t" "avl s" and hs: "height s = height t + 2"
  shows "\<exists>stop h' R. sink d h tb (at e) (parent c) (pdir c) = Some (stop, h', tb\<lparr>Root := top (addr R) c\<rparr>) \<and>
    mem_ok h' \<and> TFresh h' = TFresh h \<and> tree_at (Cells h') R \<and> path_at (Cells h') (addr R) c \<and>
    entries R = entries (br d t e (- 2 * side d) s) \<and> avl R \<and>
    height R = (if stop then Suc (height s) else height s) \<and>
    (\<forall>p. p \<notin> at ` set (entries (br d t e (- 2 * side d) s)) \<union> on_path c \<longrightarrow> Cells h' p = Cells h p)"
proof -
  let ?T = "br d t e (- 2 * side d) s" and ?B = "- 2 * side d"
  have dT: "distinct (map at (entries ?T))" and dc: "distinct (map at (lefts c @ rights c))"
    and disj: "\<forall>p \<in> on_path c. p \<notin> at ` set (entries ?T)"
    using dis by (auto simp: on_path_def image_iff)
  have nT: "\<forall>p \<in> at ` set (entries ?T). p \<notin> on_path c" using disj by blast
  have "s \<noteq> Tip" using hs by auto
  then obtain i x bx a where s: "s = br d i x bx a" using br_exhaust by metis
  have x: "get_link h (at e) (\<not> d) = Some (at x)" "get_balance h (at x) = Some bx"
    using T ok s by (cases d; simp add: get_link_def get_balance_def)+
  have bx: "bx = side d \<or> bx = 0 \<or> bx = - side d" using av(2) s by (cases d) auto
  show ?thesis
  proof (cases "bx = side d")
    case True
    then have "i \<noteq> Tip" using av(2) s by (cases d) auto
    then obtain i1 w bw i2 where i: "i = br d i1 w bw i2" using br_exhaust by metis
    have bw: "bw = - 1 \<or> bw = 0 \<or> bw = 1" using av(2) s i by (cases d) auto
    let ?R = "br d (br d t e (if bw = - side d then side d else 0) i1) w 0
       (br d i2 x (if bw = side d then - side d else 0) a)"
    have en: "entries ?R = entries ?T" using s i by (cases d) auto
    from twist_spec[of h d t e ?B i1 w bw i2 x bx a] ok T dT bw s i obtain h1 where
      h1: "twist d h (at e) (at x) = Some (addr ?R, h1)" "mem_ok h1" "TFresh h1 = TFresh h" "tree_at (Cells h1) ?R"
      "\<forall>p. p \<notin> at ` set (entries ?T) \<longrightarrow> Cells h1 p = Cells h p" by auto
    have "path_at (Cells h1) (at e) c" by (rule path_at_cong[OF _ pc]) (metis h1(5) disj)
    from set_child_path[OF h1(2) this rt dc, of "addr ?R"] obtain h2 tb2 where
      h2: "set_child h1 tb (parent c) (pdir c) (addr ?R) = Some (h2, tb2)" "mem_ok h2"
      "path_at (Cells h2) (addr ?R) c" "tb2 = tb\<lparr>Root := top (addr ?R) c\<rparr>" "TFresh h2 = TFresh h1"
      "\<forall>p. p \<notin> on_path c \<longrightarrow> Cells h2 p = Cells h1 p" .
    have "tree_at (Cells h2) ?R" by (rule tree_at_cong[OF _ h1(4)]) (metis en h2(6) nT)
    moreover have "sink d h tb (at e) (parent c) (pdir c) = Some (False, h2, tb\<lparr>Root := top (addr ?R) c\<rparr>)"
      using x True h1(1) h2(1,4) by (simp add: sink_def)
    moreover have "avl ?R" "height ?R = height s"
      using sink_avl(3)[of t d i x bx a i1 w bw i2 e] av hs s i True by auto
    moreover have "\<forall>p. p \<notin> at ` set (entries ?T) \<union> on_path c \<longrightarrow> Cells h2 p = Cells h p"
      using h1(5) h2(6) by (metis UnI1 UnI2)
    ultimately show ?thesis using h2(2,3,5) h1(3) en
      by (intro exI[of _ False] exI[of _ h2] exI[of _ ?R]) simp
  next
    case False
    let ?R = "\<lambda>b b'. br d (br d t e b i) x b' a"
    have en: "entries (?R b b') = entries ?T" "addr (?R b b') = at x" for b b' using s by (cases d; auto)+
    from turn_spec[of h d t e ?B i x bx a] ok T dT s obtain h1 where
      h1: "turn d h (at e) (at x) = Some h1" "mem_ok h1" "TFresh h1 = TFresh h" "tree_at (Cells h1) (?R ?B bx)"
      "\<forall>p. p \<notin> at ` set (entries ?T) \<longrightarrow> Cells h1 p = Cells h p" by auto
    have "path_at (Cells h1) (at e) c" by (rule path_at_cong[OF _ pc]) (metis h1(5) disj)
    from set_child_path[OF h1(2) this rt dc, of "at x"] obtain h2 tb2 where
      h2: "set_child h1 tb (parent c) (pdir c) (at x) = Some (h2, tb2)" "mem_ok h2"
      "path_at (Cells h2) (at x) c" "tb2 = tb\<lparr>Root := top (at x) c\<rparr>" "TFresh h2 = TFresh h1"
      "\<forall>p. p \<notin> on_path c \<longrightarrow> Cells h2 p = Cells h1 p" .
    have t2: "tree_at (Cells h2) (?R ?B bx)" by (rule tree_at_cong[OF _ h1(4)]) (metis en(1) h2(6) nT)
    let ?b = "if bx = 0 then - side d else 0" and ?b' = "if bx = 0 then side d else 0"
    have "distinct (map at (entries (?R ?B bx)))" unfolding en by (rule dT)
    from rebalance_spec[OF h2(2) t2 this, of ?b' ?b] obtain h3 h4 where
      h4: "set_balance h2 (at x) ?b' = Some h3" "set_balance h3 (at e) ?b = Some h4" "mem_ok h4" "TFresh h4 = TFresh h2"
      "tree_at (Cells h4) (?R ?b ?b')" "\<forall>p. p \<notin> {at x, at e} \<longrightarrow> Cells h4 p = Cells h2 p" by blast
    have xe: "{at x, at e} \<subseteq> at ` set (entries ?T)" using s by (cases d) auto
    then have "path_at (Cells h4) (at x) c"
      by (intro path_at_cong[OF _ h2(3)]) (metis h4(6) disj subsetD)
    moreover have "sink d h tb (at e) (parent c) (pdir c) = Some (bx = 0, h4, tb\<lparr>Root := top (at x) c\<rparr>)"
      using x False h1(1) h2(1,4) h4(1,2) by (simp add: sink_def Let_def)
    moreover have "avl (?R ?b ?b') \<and> height (?R ?b ?b') = (if bx = 0 then Suc (height s) else height s)"
      using sink_avl(1,2)[of t d i x bx a e] av hs s bx False by auto
    moreover have "\<forall>p. p \<notin> at ` set (entries ?T) \<union> on_path c \<longrightarrow> Cells h4 p = Cells h p"
      using h1(5) h2(6) h4(6) xe by (metis UnI1 UnI2 subsetD)
    ultimately show ?thesis using h4(3-5) h2(5) h1(3) en
      by (intro exI[of _ "bx = 0"] exI[of _ h4] exI[of _ "?R ?b ?b'"]) simp
  qed
qed

section \<open>The way back\<close>

lemma climb_Cons:
  "climb h tb ((at (fent f), fdir f) # dstack_of c) = do {
     b \<leftarrow> get_balance h (at (fent f));
     h \<leftarrow> set_balance h (at (fent f)) (b - side (fdir f));
     if b - side (fdir f) = - side (fdir f) then Some (h, tb)
     else if b - side (fdir f) = - 2 * side (fdir f) then do {
       (stop, h, tb) \<leftarrow> sink (fdir f) h tb (at (fent f)) (parent c) (pdir c);
       if stop then Some (h, tb) else climb h tb (dstack_of c) }
     else climb h tb (dstack_of c) }"
  by (subst (1 2 3) dstack_head) simp

lemma climb_spec:
  "mem_ok h \<Longrightarrow> tree_at (Cells h) t \<Longrightarrow> path_at (Cells h) (addr t) c \<Longrightarrow> Root tb = top (addr t) c \<Longrightarrow>
   distinct (map at (lefts c @ entries t @ rights c)) \<Longrightarrow> avl t \<Longrightarrow> fits (Suc (height t)) c \<Longrightarrow>
   \<exists>h' t'. climb h tb (dstack_of c) = Some (h', tb\<lparr>Root := addr t'\<rparr>) \<and> mem_ok h' \<and> TFresh h' = TFresh h \<and>
     tree_at (Cells h') t' \<and> entries t' = lefts c @ entries t @ rights c \<and> avl t' \<and>
     (\<forall>p. p \<notin> at ` set (lefts c @ entries t @ rights c) \<longrightarrow> Cells h' p = Cells h p)"
proof (induction c arbitrary: h t tb)
  case Nil
  moreover have "tb\<lparr>Root := addr t\<rparr> = tb" using Nil.prems(4) by simp
  ultimately show ?case by (intro exI[of _ h] exI[of _ t]) simp
next
  case (Cons f c)
  let ?d = "fdir f" and ?e = "fent f" and ?s = "fsib f" and ?b = "fbal f - side (fdir f)"
  let ?T = "br ?d t ?e ?b ?s"
  have n: "Cells h (at ?e) = Some (cell_of ?e (if ?d then addr ?s else addr t) (if ?d then addr t else addr ?s) (fbal f))"
    "tree_at (Cells h) ?s" "path_at (Cells h) (at ?e) c" using Cons.prems(3) by auto
  have bf: "fbal f = side ?d * (int (Suc (height t)) - int (height ?s))" "\<bar>fbal f\<bar> \<le> 1" "avl ?s"
    "fits (Suc (max (Suc (height t)) (height ?s))) c" using Cons.prems(7) by auto
  have en: "lefts (f # c) @ entries t @ rights (f # c) = lefts c @ entries ?T @ rights c" by (cases ?d) auto
  have eT: "entries (br ?d t ?e b ?s) = entries ?T" for b by (cases ?d) auto
  have dis: "distinct (map at (lefts c @ entries ?T @ rights c))" using Cons.prems(5) unfolding en .
  have eI: "at ?e \<in> at ` set (entries ?T)" by (cases ?d) auto
  have dT: "distinct (map at (entries ?T))" and disj: "\<forall>p \<in> on_path c. p \<notin> at ` set (entries ?T)"
    using dis by (auto simp: on_path_def image_iff)
  have "tree_at (Cells h) (br ?d t ?e (fbal f) ?s)" using Cons.prems(2) n by (simp add: tree_at_br)
  from set_balance_root[OF Cons.prems(1) this, of ?b] dT eT obtain h1 where
    h1: "set_balance h (at ?e) ?b = Some h1" "mem_ok h1" "TFresh h1 = TFresh h" "tree_at (Cells h1) ?T"
    "\<forall>p. p \<noteq> at ?e \<longrightarrow> Cells h1 p = Cells h p" by metis
  have p1: "path_at (Cells h1) (at ?e) c" by (rule path_at_cong[OF _ n(3)]) (metis h1(5) disj eI)
  have rt: "Root tb = top (at ?e) c" using Cons.prems(4) by simp
  have gb: "get_balance h (at ?e) = Some (fbal f)" using n(1) Cons.prems(1) by (simp add: get_balance_def)
  have fr: "\<forall>p. p \<notin> at ` set (lefts c @ entries ?T @ rights c) \<longrightarrow> Cells h1 p = Cells h p"
    using h1(5) eI by (metis UnI1 UnI2 image_Un set_append)
  consider (zero) "fbal f = 0" | (low) "fbal f = side ?d" | (high) "fbal f = - side ?d"
    using bf(2) by (cases ?d; fastforce)
  then show ?case
  proof cases
    case zero
    then have "climb h tb (dstack_of (f # c)) = Some (h1, tb)" using gb h1(1) by (simp add: climb_Cons)
    moreover have "tb\<lparr>Root := addr (plug ?T c)\<rparr> = tb" using rt by simp
    moreover have "height ?s = Suc (height t)" using bf(1) zero by (cases ?d) auto
    then have "avl (plug ?T c)" using Cons.prems(6) bf(3,4) zero by (cases ?d) (auto simp: avl_plug)
    ultimately show ?thesis unfolding en using h1(2-4) p1 fr
      by (intro exI[of _ h1] exI[of _ "plug ?T c"]) simp
  next
    case low
    then have hs: "height ?s = height t" using bf(1) by (cases ?d) auto
    have "climb h tb (dstack_of (f # c)) = climb h1 tb (dstack_of c)"
      unfolding dstack_simps climb_Cons using gb h1(1) low by (cases ?d) simp_all
    moreover have "avl ?T" "fits (Suc (height ?T)) c" using Cons.prems(6) bf(3,4) low hs by (cases ?d; auto)+
    with Cons.IH[of h1 ?T tb] h1(2,4) p1 rt dis obtain h' t' where
      "climb h1 tb (dstack_of c) = Some (h', tb\<lparr>Root := addr t'\<rparr>)" "mem_ok h'" "TFresh h' = TFresh h1"
      "tree_at (Cells h') t'" "entries t' = lefts c @ entries ?T @ rights c" "avl t'"
      "\<forall>p. p \<notin> at ` set (lefts c @ entries ?T @ rights c) \<longrightarrow> Cells h' p = Cells h1 p" by auto
    ultimately show ?thesis unfolding en using fr h1(3)
      by (intro exI[of _ h'] exI[of _ t']) simp
  next
    case high
    then have b: "?b = - 2 * side ?d" "fbal f \<noteq> 0" "- 2 * side ?d \<noteq> - side ?d" by (cases ?d; simp)+
    have hs: "height ?s = height t + 2" using bf(1) high by (cases ?d) auto
    from sink_spec[OF h1(2) h1(4)[unfolded b] p1 rt dis[unfolded b] Cons.prems(6) bf(3) hs] obtain stop h2 R where
      R: "sink ?d h1 tb (at ?e) (parent c) (pdir c) = Some (stop, h2, tb\<lparr>Root := top (addr R) c\<rparr>)"
      "mem_ok h2" "TFresh h2 = TFresh h1" "tree_at (Cells h2) R" "path_at (Cells h2) (addr R) c"
      "entries R = entries ?T" "avl R" "height R = (if stop then Suc (height ?s) else height ?s)"
      "\<forall>p. p \<notin> at ` set (entries ?T) \<union> on_path c \<longrightarrow> Cells h2 p = Cells h1 p" unfolding b[symmetric] by blast
    have step: "climb h tb (dstack_of (f # c)) =
        (if stop then Some (h2, tb\<lparr>Root := top (addr R) c\<rparr>) else climb h2 (tb\<lparr>Root := top (addr R) c\<rparr>) (dstack_of c))"
      unfolding dstack_simps climb_Cons using gb h1(1) high R(1) by (cases ?d) simp_all
    have fr2: "\<forall>p. p \<notin> at ` set (lefts c @ entries ?T @ rights c) \<longrightarrow> Cells h2 p = Cells h p"
      using fr R(9) unfolding on_path_def by (metis Un_iff image_Un set_append)
    show ?thesis
    proof (cases stop)
      case True
      then have "avl (plug R c)" using R(7,8) bf(4) hs by (simp add: avl_plug)
      then show ?thesis unfolding en using True step R(2-6) fr2 h1(3)
        by (intro exI[of _ h2] exI[of _ "plug R c"]) simp
    next
      case False
      have "fits (Suc (height R)) c" using False R(8) bf(4) hs by simp
      with Cons.IH[of h2 R "tb\<lparr>Root := top (addr R) c\<rparr>"] R(2,4-7) dis obtain h' t' where
        "climb h2 (tb\<lparr>Root := top (addr R) c\<rparr>) (dstack_of c) = Some (h', tb\<lparr>Root := addr t'\<rparr>)"
        "mem_ok h'" "TFresh h' = TFresh h2"
        "tree_at (Cells h') t'" "entries t' = lefts c @ entries R @ rights c" "avl t'"
        "\<forall>p. p \<notin> at ` set (lefts c @ entries R @ rights c) \<longrightarrow> Cells h' p = Cells h2 p" by auto
      then show ?thesis unfolding en using False step fr2 h1(3) R(3,6)
        by (intro exI[of _ h'] exI[of _ t']) simp
    qed
  qed
qed

section \<open>Taking the node out\<close>

lemma set_link_path:
  assumes "c \<noteq> []" and "mem_ok h" and "path_at (Cells h) a c" and "distinct (map at (lefts c @ rights c))"
  obtains h' where "set_link h (parent c) (pdir c) a' = Some h'" "mem_ok h'" "path_at (Cells h') a' c"
    "TFresh h' = TFresh h" "\<forall>p. p \<notin> on_path c \<longrightarrow> Cells h' p = Cells h p"
proof -
  define tb :: "('a, 'b) table" where
    "tb = \<lparr>Root = top a c, Count = 0, Generation = 0, Compare = \<lambda>_ _. 0, HashFn = \<lambda>_. 0, Default = None, TLock = 0\<rparr>"
  then have tb: "Root tb = top a c" by simp
  obtain f c' where c: "c = f # c'" using assms(1) by (cases c) auto
  have "parent c \<noteq> 0" using assms(2,3) c by (auto dest: mem_ok_dom)
  moreover obtain h' tb' where "set_child h tb (parent c) (pdir c) a' = Some (h', tb')" "mem_ok h'"
    "path_at (Cells h') a' c" "tb' = tb\<lparr>Root := top a' c\<rparr>" "TFresh h' = TFresh h"
    "\<forall>p. p \<notin> on_path c \<longrightarrow> Cells h' p = Cells h p"
    using set_child_path[OF assms(2,3) tb assms(4), of a'] .
  ultimately show ?thesis by (intro that[of h']) (auto simp: set_child_def split: if_splits)
qed

definition marked :: "('k, 'v) entry path \<Rightarrow> dstack" where
  "marked c = map (\<lambda>f. (at (fent f), fdir f)) c"

lemma dstack_append: "dstack_of (c @ c') = marked c @ dstack_of c'"
  by (simp add: dstack_of_def marked_def)

lemma least_find_spec:
  "mem_ok h \<Longrightarrow> tree_at (Cells h) (Fork l e b r) \<Longrightarrow> l \<noteq> Tip \<Longrightarrow> length st + height l \<le> 32 \<Longrightarrow>
   \<exists>c es bs sr. least_find h st (at e) = Some (parent c, at es, marked c @ st) \<and>
     Fork l e b r = plug (Fork Tip es bs sr) c \<and> c \<noteq> [] \<and> lefts c = [] \<and> \<not> pdir c"
proof (induction l arbitrary: e b r st)
  case (Fork l1 e1 b1 r1)
  have n: "Cells h (at e) = Some (cell_of e (at e1) (addr r) b)"
    "Cells h (at e1) = Some (cell_of e1 (addr l1) (addr r1) b1)" using Fork.prems(2) by auto
  have pu: "dpush (at e) False st = Some ((at e, False) # st)" using Fork.prems(4) by (simp add: dpush_def)
  show ?case
  proof (cases "l1 = Tip")
    case True
    then have "least_find h st (at e) = Some (at e, at e1, (at e, False) # st)"
      using n pu Fork.prems(1) by (subst least_find.simps) (simp add: get_link_def)
    then show ?thesis using True
      by (intro exI[of _ "[Frame False e b r]"] exI[of _ e1] exI[of _ b1] exI[of _ r1]) (simp add: marked_def)
  next
    case False
    then have "addr l1 \<noteq> 0" using addr_nonnull[OF Fork.prems(1)] Fork.prems(2) by simp
    then have step: "least_find h st (at e) = least_find h ((at e, False) # st) (at e1)"
      using n pu Fork.prems(1) by (subst least_find.simps) (simp add: get_link_def)
    have "length ((at e, False) # st) + height l1 \<le> 32" using Fork.prems(4) by auto
    with Fork.IH(1)[of e1 b1 r1 "(at e, False) # st"] Fork.prems(1,2) False obtain c es bs sr where
      "least_find h ((at e, False) # st) (at e1) = Some (parent c, at es, marked c @ (at e, False) # st)"
      "Fork l1 e1 b1 r1 = plug (Fork Tip es bs sr) c" "c \<noteq> []" "lefts c = []" "\<not> pdir c" by auto
    then show ?thesis unfolding step
      by (intro exI[of _ "c @ [Frame False e b r]"] exI[of _ es] exI[of _ bs] exI[of _ sr])
        (cases c; simp add: marked_def)
  qed
qed simp

lemma detach_spec:
  assumes ok: "mem_ok h" and T: "tree_at (Cells h) (Fork l e b r)" and pc: "path_at (Cells h) (at e) c"
    and rt: "Root tb = top (at e) c" and dis: "distinct (map at (lefts c @ entries (Fork l e b r) @ rights c))"
    and av: "avl (Fork l e b r)" and fi: "fits (height (Fork l e b r)) c"
    and hb: "length c + height (Fork l e b r) \<le> 31"
  shows "\<exists>h' t' c'. detach h tb (dstack_of c) (at e) = Some (h', tb\<lparr>Root := top (addr t') c'\<rparr>, dstack_of c') \<and>
    mem_ok h' \<and> TFresh h' = TFresh h \<and> tree_at (Cells h') t' \<and> path_at (Cells h') (addr t') c' \<and>
    lefts c' @ entries t' @ rights c' = lefts c @ entries l @ entries r @ rights c \<and>
    avl t' \<and> fits (Suc (height t')) c' \<and>
    (\<forall>p. p \<notin> at ` set (lefts c @ entries l @ entries r @ rights c) \<longrightarrow> Cells h' p = Cells h p)"
proof -
  have n: "Cells h (at e) = Some (cell_of e (addr l) (addr r) b)" "tree_at (Cells h) l" "tree_at (Cells h) r"
    using T by auto
  have dc: "distinct (map at (lefts c @ rights c))"
    and disj: "\<forall>p \<in> on_path c. p \<noteq> at e \<and> p \<notin> at ` set (entries l) \<and> p \<notin> at ` set (entries r)"
    and dl: "\<forall>p \<in> at ` set (entries l). p \<noteq> at e \<and> p \<notin> at ` set (entries r) \<and> p \<notin> on_path c"
    and dr: "\<forall>p \<in> at ` set (entries r). p \<noteq> at e \<and> p \<notin> at ` set (entries l) \<and> p \<notin> on_path c"
    and drr: "distinct (map at (entries r))"
    using dis by (auto simp: on_path_def image_iff)
  have st: "dstack_of c = (parent c, pdir c) # List.tl (dstack_of c)" by (rule dstack_head)
  have fr: "at ` set (lefts c @ entries l @ entries r @ rights c) = at ` set (entries l) \<union> at ` set (entries r) \<union> on_path c"
    by (auto simp: on_path_def)
  have gl: "get_link h (at e) False = Some (addr l)" "get_link h (at e) True = Some (addr r)"
    "get_balance h (at e) = Some b" using n(1) ok by (simp_all add: get_link_def get_balance_def)
  show ?thesis
  proof (cases r)
    case Tip
    from set_child_path[OF ok pc rt dc, of "addr l"] obtain h1 tb1 where
      h1: "set_child h tb (parent c) (pdir c) (addr l) = Some (h1, tb1)" "mem_ok h1" "path_at (Cells h1) (addr l) c"
      "tb1 = tb\<lparr>Root := top (addr l) c\<rparr>" "TFresh h1 = TFresh h" "\<forall>p. p \<notin> on_path c \<longrightarrow> Cells h1 p = Cells h p" .
    have "tree_at (Cells h1) l" by (rule tree_at_cong[OF _ n(2)]) (metis h1(6) dl)
    moreover have "detach h tb (dstack_of c) (at e) = Some (h1, tb\<lparr>Root := top (addr l) c\<rparr>, dstack_of c)"
      unfolding detach_def by (subst st) (use gl Tip h1(1,4) in simp)
    ultimately show ?thesis unfolding fr using h1(2,3,5,6) Tip av fi
      by (intro exI[of _ h1] exI[of _ l] exI[of _ c]) auto
  next
    case (Fork rl er br rr)
    have nr: "Cells h (at er) = Some (cell_of er (addr rl) (addr rr) br)" "tree_at (Cells h) rl" "tree_at (Cells h) rr"
      using n(3) Fork by auto
    have er0: "at er \<noteq> 0" using nr(1) ok by (auto dest: mem_ok_dom)
    have erl: "get_link h (at er) False = Some (addr rl)" using nr(1) ok by (simp add: get_link_def)
    have er: "at er \<noteq> at e" "at er \<notin> at ` set (entries l)" "at er \<notin> on_path c" using dr Fork by auto
    show ?thesis
    proof (cases "rl = Tip")
      case True
      let ?h = "put_cell (put_cell h (at er) (cell_of er (addr l) (addr rr) br)) (at er) (cell_of er (addr l) (addr rr) b)"
      have h2: "set_link h (at er) False (addr l) = Some (put_cell h (at er) (cell_of er (addr l) (addr rr) br))"
        "set_balance (put_cell h (at er) (cell_of er (addr l) (addr rr) br)) (at er) b = Some ?h" "mem_ok ?h"
        using nr(1) ok by (simp_all add: set_link_def set_balance_def)
      have gb: "get_balance (put_cell h (at er) (cell_of er (addr l) (addr rr) br)) (at e) = Some b"
        using n(1) nr(1) ok er(1) by (simp add: get_balance_def)
      have u: "Cells ?h p = Cells h p" if "p \<noteq> at er" for p using that by simp
      have "path_at (Cells ?h) (at e) c" by (rule path_at_cong[OF _ pc]) (metis u er(3))
      from set_child_path[OF h2(3) this rt dc, of "at er"] obtain h3 tb3 where
        h3: "set_child ?h tb (parent c) (pdir c) (at er) = Some (h3, tb3)" "mem_ok h3" "path_at (Cells h3) (at er) c"
        "tb3 = tb\<lparr>Root := top (at er) c\<rparr>" "TFresh h3 = TFresh ?h" "\<forall>p. p \<notin> on_path c \<longrightarrow> Cells h3 p = Cells ?h p" .
      have rrn: "\<forall>p \<in> at ` set (entries rr). p \<noteq> at er" "at ` set (entries rr) \<subseteq> at ` set (entries r)"
        using drr Fork by (auto simp: image_iff)
      have "tree_at (Cells h3) l" by (rule tree_at_cong[OF _ n(2)]) (metis h3(6) u dl er(2))
      moreover have "tree_at (Cells h3) rr" by (rule tree_at_cong[OF _ nr(3)]) (metis h3(6) u dr rrn subsetD)
      moreover have "Cells h3 (at er) = Some (cell_of er (addr l) (addr rr) b)" using h3(6) er(3) by simp
      moreover have "dpush (at er) True (dstack_of c) = Some ((at er, True) # dstack_of c)"
        using hb Fork by (simp add: dpush_def)
      then have "detach h tb (dstack_of c) (at e) =
          Some (h3, tb\<lparr>Root := top (at er) c\<rparr>, dstack_of (Frame True er b l # c))"
        unfolding detach_def by (subst st) (use gl gb Fork True h2(1,2) h3(1,4) er0 erl in simp)
      moreover have "\<forall>p. p \<notin> at ` set (entries l) \<union> at ` set (entries r) \<union> on_path c \<longrightarrow> Cells h3 p = Cells h p"
        using h3(6) u Fork by (metis Fork UnI1 UnI2 addr.simps(2) addr_in tree.distinct(1))
      moreover have "fits (Suc (height rr)) (Frame True er b l # c)" "avl rr"
        using av fi Fork True by (auto simp: max.commute)
      ultimately show ?thesis unfolding fr using h3(2,3,5) Fork True
        by (intro exI[of _ h3] exI[of _ rr] exI[of _ "Frame True er b l # c"]) auto
    next
      case False
      have rl0: "addr rl \<noteq> 0" using False addr_nonnull[OF ok nr(2)] by simp
      have pu: "dpush 0 False (dstack_of c) = Some ((0, False) # dstack_of c)"
        using hb Fork False by (cases rl) (auto simp: dpush_def)
      have "length ((0, False) # dstack_of c) + height rl \<le> 32" using hb Fork by auto
      from least_find_spec[OF ok n(3)[unfolded Fork] False this] obtain c1 es bs sr where
        c1: "least_find h ((0, False) # dstack_of c) (at er) =
           Some (parent c1, at es, marked c1 @ (0, False) # dstack_of c)"
        "r = plug (Fork Tip es bs sr) c1" "c1 \<noteq> []" "lefts c1 = []" "\<not> pdir c1" unfolding Fork by blast
      have nr1: "Cells h (at es) = Some (cell_of es 0 (addr sr) bs)" "tree_at (Cells h) sr" "path_at (Cells h) (at es) c1"
        using n(3) unfolding c1(2) by auto
      have er: "entries r = es # entries sr @ rights c1" unfolding c1(2) using c1(4) by simp
      have top1: "top a c1 = addr r" for a unfolding c1(2) using top_Cons_eq[OF c1(3)] by simp
      have o1: "on_path c1 = at ` set (rights c1)" using c1(4) by (simp add: on_path_def)
      have d1: "at es \<notin> on_path c1" "at es \<notin> at ` set (entries sr)" "distinct (map at (lefts c1 @ rights c1))"
        "\<forall>p \<in> at ` set (entries sr). p \<noteq> at es \<and> p \<notin> on_path c1 \<and> p \<in> at ` set (entries r)"
        "\<forall>p \<in> on_path c1. p \<noteq> at es \<and> p \<in> at ` set (entries r)" "at es \<in> at ` set (entries r)"
        using drr c1(4) unfolding er o1 by (auto simp: image_iff)
      have es: "at es \<noteq> at e" "at es \<notin> at ` set (entries l)" "at es \<notin> on_path c" using dr d1(6) by metis+
      have sides: "\<not> False" "\<not> pdir c1" using c1(5) by simp_all
      let ?h1 = "put_cell h (at es) (cell_of es (addr l) (addr sr) bs)"
      have h1: "set_link h (at es) False (addr l) = Some ?h1" "mem_ok ?h1" "get_link ?h1 (at es) True = Some (addr sr)"
        using nr1(1) ok by (simp_all add: set_link_def get_link_def)
      have u1: "Cells ?h1 p = Cells h p" if "p \<noteq> at es" for p using that by simp
      have "path_at (Cells ?h1) (at es) c1" by (rule path_at_cong[OF _ nr1(3)]) (metis u1 d1(1))
      from set_link_path[OF c1(3) h1(2) this d1(3), of "addr sr"] obtain h2 where
        h2: "set_link ?h1 (parent c1) False (addr sr) = Some h2" "mem_ok h2" "path_at (Cells h2) (addr sr) c1"
        "TFresh h2 = TFresh h" "\<forall>p. p \<notin> on_path c1 \<longrightarrow> Cells h2 p = Cells ?h1 p"
        using sides by auto
      have e1: "at e \<notin> on_path c1" by (metis d1(5) dr)
      then have e2: "Cells h2 (at e) = Some (cell_of e (addr l) (addr r) b)" using h2(5) n(1) es(1) by simp
      have s2: "Cells h2 (at es) = Some (cell_of es (addr l) (addr sr) bs)" using h2(5) d1(1) by simp
      let ?h3 = "put_cell h2 (at es) (cell_of es (addr l) (addr r) bs)"
      let ?h4 = "put_cell ?h3 (at es) (cell_of es (addr l) (addr r) b)"
      have h4: "get_link h2 (at e) True = Some (addr r)" "set_link h2 (at es) True (addr r) = Some ?h3"
        "get_balance ?h3 (at e) = Some b" "set_balance ?h3 (at es) b = Some ?h4" "mem_ok ?h4"
        using e2 s2 h2(2) es(1) by (simp_all add: get_link_def set_link_def get_balance_def set_balance_def)
      have u4: "Cells ?h4 p = Cells h p" if "p \<noteq> at es" "p \<notin> on_path c1" for p using that h2(5) by simp
      have nc: "p \<noteq> at es \<and> p \<notin> on_path c1" if "p \<in> on_path c" for p using that disj d1(5,6) by metis
      have "path_at (Cells ?h4) (at e) c" by (rule path_at_cong[OF _ pc]) (metis u4 nc)
      from set_child_path[OF h4(5) this rt dc, of "at es"] obtain h5 tb5 where
        h5: "set_child ?h4 tb (parent c) (pdir c) (at es) = Some (h5, tb5)" "mem_ok h5" "path_at (Cells h5) (at es) c"
        "tb5 = tb\<lparr>Root := top (at es) c\<rparr>" "TFresh h5 = TFresh ?h4" "\<forall>p. p \<notin> on_path c \<longrightarrow> Cells h5 p = Cells ?h4 p" .
      let ?c = "c1 @ Frame True es b l # c"
      have upd: "(marked c1 @ (0, False) # dstack_of c)
          [length (marked c1 @ (0, False) # dstack_of c) - 1 - length (dstack_of c) := (at es, True)] = dstack_of ?c"
        by (simp add: dstack_append marked_def list_update_append)
      have "detach h tb (dstack_of c) (at e) = Some (h5, tb\<lparr>Root := top (at es) c\<rparr>, dstack_of ?c)"
        unfolding detach_def
        by (subst st) (use gl er0 erl rl0 pu c1(1) h1(1,3) h2(1) h4(1-4) h5(1,4) upd Fork in \<open>simp add: Let_def\<close>)
      moreover have "tree_at (Cells h5) l" by (rule tree_at_cong[OF _ n(2)]) (metis h5(6) u4 dl es(2) d1(5))
      moreover have "tree_at (Cells h5) sr" by (rule tree_at_cong[OF _ nr1(2)]) (metis h5(6) u4 dr d1(4))
      moreover have "path_at (Cells h5) (addr sr) c1"
        by (rule path_at_cong[OF _ h2(3)]) (metis h5(6) nc d1(5) fun_upd_other put_cell_simps(1))
      moreover have "Cells h5 (at es) = Some (cell_of es (addr l) (addr r) b)" using h5(6) es(3) by simp
      moreover have "\<forall>p. p \<notin> at ` set (entries l) \<union> at ` set (entries r) \<union> on_path c \<longrightarrow> Cells h5 p = Cells h p"
        using h5(6) u4 d1(5,6) by (metis UnI1 UnI2)
      moreover have "avl sr \<and> fits (Suc (height sr)) c1 \<and> up (Suc (height sr)) c1 = height r"
        using av unfolding c1(2) by (auto simp: avl_plug height_plug)
      then have "avl sr" "fits (Suc (height sr)) ?c" using av fi by (auto simp: max.commute)
      ultimately show ?thesis unfolding fr using h5(2,3,5) h2(4) c1(4) top1 er
        by (intro exI[of _ h5] exI[of _ sr] exI[of _ ?c]) auto
    qed
  qed
qed

section \<open>avl_delete\<close>

lemma delete_start:
  assumes "rooted h tb t" and "height t \<le> 31" and "descend (toward (Compare tb) key hash) t [] = (t', c)"
  shows "delete_find h tb key hash [] 0 False = Some (addr t', dstack_of c)"
  using delete_find_spec[of h t tb "[]" key hash t' c] assms by (simp add: rooted_def get_child_def)

lemma avl_delete_none:
  assumes "rooted h tb t" and "height t \<le> 31" and "descend (toward (Compare tb) key hash) t [] = (Tip, c)"
  shows "avl_delete h tb key hash = Some (None, h, tb)"
  using delete_start[OF assms] by (simp add: avl_delete_def)

lemma avl_delete_some:
  assumes r: "rooted h tb t" and hb: "height t \<le> 31"
    and d: "descend (toward (Compare tb) key hash) t [] = (Fork l e b rr, c)"
  shows "\<exists>h' t'. avl_delete h tb key hash = Some (slot e, h',
      tb\<lparr>Root := addr t', Count := Count tb - 1, Generation := inc32 (Generation tb)\<rparr>) \<and>
    rooted h' (tb\<lparr>Root := addr t', Count := Count tb - 1, Generation := inc32 (Generation tb)\<rparr>) t' \<and>
    entries t = lefts c @ entries (Fork l e b rr) @ rights c \<and>
    entries t' = lefts c @ entries l @ entries rr @ rights c \<and> TFresh h' = TFresh h \<and>
    (\<forall>p. p \<notin> at ` set (entries t) - {at e} \<longrightarrow> Cells h' p = Cells h p)"
proof -
  let ?T = "Fork l e b rr"
  have t: "t = plug ?T c" using descend_plug[OF d] by simp
  have R: "mem_ok h" "tree_at (Cells h) ?T" "path_at (Cells h) (at e) c" "Root tb = top (at e) c"
    "distinct (map at (lefts c @ entries ?T @ rights c))" "avl ?T" "fits (height ?T) c"
    "Count tb = length (lefts c @ entries ?T @ rights c)"
    using r unfolding rooted_def t by (auto simp: avl_plug)
  have e0: "at e \<noteq> 0" "Cells h (at e) = Some (cell_of e (addr l) (addr rr) b)"
    using R(1,2) by (auto dest: mem_ok_dom)
  have "length c + height ?T \<le> 31" using descend_height[OF d] hb by simp
  from detach_spec[OF R(1-7) this] obtain h1 t1 c1 where
    h1: "detach h tb (dstack_of c) (at e) = Some (h1, tb\<lparr>Root := top (addr t1) c1\<rparr>, dstack_of c1)"
    "mem_ok h1" "TFresh h1 = TFresh h" "tree_at (Cells h1) t1" "path_at (Cells h1) (addr t1) c1"
    "lefts c1 @ entries t1 @ rights c1 = lefts c @ entries l @ entries rr @ rights c"
    "avl t1" "fits (Suc (height t1)) c1"
    "\<forall>p. p \<notin> at ` set (lefts c @ entries l @ entries rr @ rights c) \<longrightarrow> Cells h1 p = Cells h p" by blast
  have dn: "distinct (map at (lefts c @ entries l @ entries rr @ rights c))" using R(5) by auto
  from climb_spec[OF h1(2,4,5), of "tb\<lparr>Root := top (addr t1) c1\<rparr>"] h1(6-8) dn obtain h2 t2 where
    h2: "climb h1 (tb\<lparr>Root := top (addr t1) c1\<rparr>) (dstack_of c1) = Some (h2, tb\<lparr>Root := addr t2\<rparr>)"
    "mem_ok h2" "TFresh h2 = TFresh h1" "tree_at (Cells h2) t2"
    "entries t2 = lefts c @ entries l @ entries rr @ rights c" "avl t2"
    "\<forall>p. p \<notin> at ` set (lefts c @ entries l @ entries rr @ rights c) \<longrightarrow> Cells h2 p = Cells h1 p" by auto
  let ?tb = "tb\<lparr>Root := addr t2, Count := Count tb - 1, Generation := inc32 (Generation tb)\<rparr>"
  have "dec32 (Count tb) = Count tb - 1" using R(8) by (simp add: dec32_pos)
  then have "avl_delete h tb key hash = Some (slot e, h2, ?tb)"
    using delete_start[OF r hb d] e0 R(1) h1(1) h2(1) by (simp add: avl_delete_def)
  moreover have "rooted h2 ?tb t2"
    using h2(2,4,5,6) dn R(8) by (simp add: rooted_def)
  moreover have "at e \<notin> at ` set (lefts c @ entries l @ entries rr @ rights c)" using R(5) by (auto simp: image_iff)
  then have "at ` set (entries t) - {at e} = at ` set (lefts c @ entries l @ entries rr @ rights c)"
    unfolding t by auto
  then have "\<forall>p. p \<notin> at ` set (entries t) - {at e} \<longrightarrow> Cells h2 p = Cells h p"
    using h1(9) h2(7) by metis
  moreover have "entries t = lefts c @ entries ?T @ rights c" unfolding t by simp
  ultimately show ?thesis using h2(3,5) h1(3) by (intro exI[of _ h2] exI[of _ t2]) simp
qed

end
