(* ===== verification/TableOrder.thy ===== *)
theory TableOrder
  imports TableDelete
begin

text \<open>
  Tables whose comparison is an order: the entries lie in the tree by increasing hash and key, so
  \<^verbatim>\<open>avl_find\<close>, \<^verbatim>\<open>avl_probe\<close> and \<^verbatim>\<open>avl_delete\<close> find the one entry of a key. This theory has the table
  invariant \<open>table_ok\<close>, the specifications of the three functions in terms of the list of entries, and
  the assignment to the value of a node.
\<close>

section \<open>The order of hashes and keys\<close>

text \<open>What the code needs of a comparison function: it orders the keys, with ties allowed.\<close>

definition key_order :: "('k \<Rightarrow> 'k \<Rightarrow> int) \<Rightarrow> bool" where
  "key_order cmp \<longleftrightarrow> (\<forall>x y. sgn (cmp y x) = - sgn (cmp x y)) \<and>
     (\<forall>x y z. cmp x y \<le> 0 \<longrightarrow> cmp y z \<le> 0 \<longrightarrow> cmp x z \<le> 0)"

definition before :: "('k \<Rightarrow> 'k \<Rightarrow> int) \<Rightarrow> ('k, 'v) entry \<Rightarrow> ('k, 'v) entry \<Rightarrow> bool" where
  "before cmp x y \<longleftrightarrow> toward cmp (ekey x) (ehash x) y < 0"

lemma key_order_sym:
  assumes "key_order cmp"
  shows "cmp x y < 0 \<longleftrightarrow> 0 < cmp y x" "cmp x y = 0 \<longleftrightarrow> cmp y x = 0" "cmp x y \<le> 0 \<longleftrightarrow> 0 \<le> cmp y x"
proof -
  have "sgn (cmp y x) = - sgn (cmp x y)" using assms unfolding key_order_def by blast
  note s = this
  show "cmp x y < 0 \<longleftrightarrow> 0 < cmp y x" by (metis s neg_0_less_iff_less sgn_greater sgn_less)
  show "cmp x y = 0 \<longleftrightarrow> cmp y x = 0" by (metis s neg_equal_0_iff_equal sgn_eq_0_iff)
  show "cmp x y \<le> 0 \<longleftrightarrow> 0 \<le> cmp y x" by (metis s linorder_not_le neg_less_0_iff_less sgn_greater sgn_less)
qed

lemma key_order_trans:
  assumes "key_order cmp"
  shows "cmp x y \<le> 0 \<Longrightarrow> cmp y z \<le> 0 \<Longrightarrow> cmp x z \<le> 0"
    and "cmp x y \<le> 0 \<Longrightarrow> cmp y z < 0 \<Longrightarrow> cmp x z < 0"
    and "cmp x y < 0 \<Longrightarrow> cmp y z \<le> 0 \<Longrightarrow> cmp x z < 0"
proof -
  have tr: "cmp x y \<le> 0 \<Longrightarrow> cmp y z \<le> 0 \<Longrightarrow> cmp x z \<le> 0" for x y z
    using assms unfolding key_order_def by blast
  note sy = key_order_sym[OF assms]
  show "cmp x y \<le> 0 \<Longrightarrow> cmp y z \<le> 0 \<Longrightarrow> cmp x z \<le> 0" by (rule tr)
  show "cmp x y \<le> 0 \<Longrightarrow> cmp y z < 0 \<Longrightarrow> cmp x z < 0"
    using tr[of z x y] sy(1,3)[of x z] sy(1)[of y z] by linarith
  show "cmp x y < 0 \<Longrightarrow> cmp y z \<le> 0 \<Longrightarrow> cmp x z < 0"
    using tr[of y z x] sy(1,3)[of x z] sy(1)[of x y] by linarith
qed

text \<open>Entries with the same hash and equal keys stand in the same place of the order.\<close>

lemma toward_before:
  assumes "key_order cmp" and "before cmp x y"
  shows "0 \<le> toward cmp k h y \<Longrightarrow> 0 < toward cmp k h x" "toward cmp k h x \<le> 0 \<Longrightarrow> toward cmp k h y < 0"
  using assms(2) key_order_trans[OF assms(1), of "ekey x" "ekey y" k] key_order_sym[OF assms(1), of k "ekey x"]
    key_order_sym[OF assms(1), of k "ekey y"] key_order_trans[OF assms(1), of k "ekey x" "ekey y"]
  by (auto simp: before_def toward_def split: if_splits)

lemma toward_zero: "toward cmp k h e = 0 \<longleftrightarrow> ehash e = h \<and> cmp k (ekey e) = 0"
  by (auto simp: toward_def)

section \<open>Keys in a list of entries\<close>

definition find_key :: "('k \<Rightarrow> 'k \<Rightarrow> int) \<Rightarrow> 'k \<Rightarrow> nat \<Rightarrow> ('k, 'v) entry list \<Rightarrow> ('k, 'v) entry option" where
  "find_key cmp k h es = List.find (\<lambda>e. toward cmp k h e = 0) es"

lemma find_key_simps [simp]:
  "find_key cmp k h [] = None"
  "find_key cmp k h (e # es) = (if toward cmp k h e = 0 then Some e else find_key cmp k h es)"
  by (simp_all add: find_key_def)

lemma find_key_append:
  "find_key cmp k h (es @ fs) = (case find_key cmp k h es of None \<Rightarrow> find_key cmp k h fs | Some e \<Rightarrow> Some e)"
  by (induction es) auto

lemma find_key_None: "find_key cmp k h es = None \<longleftrightarrow> (\<forall>e \<in> set es. toward cmp k h e \<noteq> 0)"
  by (induction es) auto

lemma find_key_Some: "find_key cmp k h es = Some e \<Longrightarrow> e \<in> set es \<and> toward cmp k h e = 0"
  by (induction es) (auto split: if_splits)

lemma find_key_here:
  assumes "\<forall>e \<in> set es. 0 < toward cmp k h e" and "toward cmp k h e = 0"
  shows "find_key cmp k h (es @ e # fs) = Some e"
  using assms by (induction es) auto

text \<open>Where the search ends.\<close>

lemma descend_find:
  assumes "key_order cmp" and "sorted_wrt (before cmp) (entries t)" and "descend (toward cmp k h) t [] = (t', c)"
  shows "t' = Tip \<Longrightarrow> find_key cmp k h (entries t) = None \<and> entries t = lefts c @ rights c \<and>
      (\<forall>e \<in> set (lefts c). 0 < toward cmp k h e) \<and> (\<forall>e \<in> set (rights c). toward cmp k h e < 0)"
    and "t' = Fork l e b r \<Longrightarrow> find_key cmp k h (entries t) = Some e"
proof -
  have t: "entries t = lefts c @ entries t' @ rights c" using descend_plug[OF assms(3)] by (metis entries_plug plug.simps(1))
  note tb = toward_before[OF assms(1)]
  have s1: "sorted_wrt (\<lambda>x y. toward cmp k h y \<ge> 0 \<longrightarrow> 0 < toward cmp k h x) (entries t)"
    using assms(2) by (rule sorted_wrt_mono_rel[rotated]) (use tb(1) in blast)
  have s2: "sorted_wrt (\<lambda>x y. toward cmp k h x \<le> 0 \<longrightarrow> toward cmp k h y < 0) (entries t)"
    using assms(2) by (rule sorted_wrt_mono_rel[rotated]) (use tb(2) in blast)
  have s: "(\<forall>e \<in> set (lefts c). 0 < toward cmp k h e) \<and> (\<forall>e \<in> set (rights c). toward cmp k h e < 0)"
    by (rule descend_sides[OF assms(3) _ _ s1 s2]) simp_all
  show "t' = Tip \<Longrightarrow> find_key cmp k h (entries t) = None \<and> entries t = lefts c @ rights c \<and>
      (\<forall>e \<in> set (lefts c). 0 < toward cmp k h e) \<and> (\<forall>e \<in> set (rights c). toward cmp k h e < 0)"
  proof -
    assume tip: "t' = Tip"
    then have "\<forall>e \<in> set (entries t). toward cmp k h e \<noteq> 0" using s unfolding t by fastforce
    then show ?thesis using s t tip by (simp add: find_key_None)
  qed
  assume f: "t' = Fork l e b r"
  have e0: "toward cmp k h e = 0" using descend_key[of "toward cmp k h" t "[]"] assms(3) f by blast
  have "sorted_wrt (before cmp) (entries l @ [e])" using assms(2) unfolding t f by (simp add: sorted_wrt_append)
  then have "\<forall>x \<in> set (entries l). 0 < toward cmp k h x" using tb(1)[of _ e] e0 by (auto simp: sorted_wrt_append)
  with s have "\<forall>x \<in> set (lefts c @ entries l). 0 < toward cmp k h x" by auto
  from find_key_here[OF this e0, of "entries r @ rights c"] show "find_key cmp k h (entries t) = Some e"
    unfolding t f by simp
qed

section \<open>The table invariant\<close>

text \<open>
  The stacks of the code have room for trees of height 31, which any table of fewer than 5702886
  entries has.
\<close>

definition max_entries :: nat where
  "max_entries = 5702885"

definition table_ok :: "('k, 'v) mem \<Rightarrow> ('k, 'v) table \<Rightarrow> ('k, 'v) entry tree \<Rightarrow> bool" where
  "table_ok h tb t \<longleftrightarrow> rooted h tb t \<and> key_order (Compare tb) \<and> sorted_wrt (before (Compare tb)) (entries t) \<and>
     Count tb \<le> max_entries"

lemma table_ok_height: "table_ok h tb t \<Longrightarrow> height t \<le> 31"
  using avl_height_bound[of t] by (auto simp: table_ok_def rooted_def max_entries_def)

lemma avl_find_spec:
  assumes "table_ok h tb t"
  shows "avl_find h tb k hk =
    Some (case find_key (Compare tb) k hk (entries t) of None \<Rightarrow> 0 | Some e \<Rightarrow> at e)"
proof -
  have r: "mem_ok h" "tree_at (Cells h) t" "Root tb = addr t" "key_order (Compare tb)"
    "sorted_wrt (before (Compare tb)) (entries t)" using assms by (auto simp: table_ok_def rooted_def)
  obtain t' c where d: "descend (toward (Compare tb) k hk) t [] = (t', c)" by (cases "descend (toward (Compare tb) k hk) t []")
  have "avl_find h tb k hk = Some (addr t')"
    using find_from_spec[OF r(1,2), of "Compare tb" k hk "[]"] r(3) d by (simp add: avl_find_def)
  then show ?thesis using descend_find[OF r(4,5) d] by (cases t') auto
qed

lemma entry_nonnull: "rooted h tb t \<Longrightarrow> e \<in> set (entries t) \<Longrightarrow> at e \<noteq> 0"
  using tree_at_nonnull[of h t] by (auto simp: rooted_def)

section \<open>Insertion and deletion\<close>

lemma before_entry:
  assumes "key_order cmp"
  shows "before cmp x (Entry p k v h) \<longleftrightarrow> 0 < toward cmp k h x" "before cmp (Entry p k v h) x \<longleftrightarrow> toward cmp k h x < 0"
  using key_order_sym(1)[OF assms, of "ekey x" k] by (auto simp: before_def toward_def)

text \<open>The entries before and after an entry do not have its key.\<close>

lemma find_key_middle:
  assumes "key_order cmp" and "sorted_wrt (before cmp) (xs @ e # ys)"
  shows "find_key cmp k h (xs @ e # ys) = (if toward cmp k h e = 0 then Some e else find_key cmp k h (xs @ ys))"
    and "toward cmp k h e = 0 \<Longrightarrow> find_key cmp k h (xs @ ys) = None"
proof -
  note tb = toward_before[OF assms(1)]
  have b: "\<forall>x \<in> set xs. before cmp x e" "\<forall>y \<in> set ys. before cmp e y" using assms(2) by (auto simp: sorted_wrt_append)
  have x: "find_key cmp k h xs = None \<and> find_key cmp k h ys = None" if e: "toward cmp k h e = 0"
  proof -
    have "toward cmp k h x \<noteq> 0" if "x \<in> set xs" for x using tb(1)[of x e k h] b(1) that e by force
    moreover have "toward cmp k h y \<noteq> 0" if "y \<in> set ys" for y using tb(2)[of e y k h] b(2) that e by force
    ultimately show ?thesis by (simp add: find_key_None)
  qed
  show "toward cmp k h e = 0 \<Longrightarrow> find_key cmp k h (xs @ ys) = None" by (simp add: find_key_append x)
  show "find_key cmp k h (xs @ e # ys) = (if toward cmp k h e = 0 then Some e else find_key cmp k h (xs @ ys))"
    by (cases "toward cmp k h e = 0") (simp_all add: find_key_append x split: option.split)
qed

lemma avl_probe_old:
  assumes "table_ok h tb t" and "find_key (Compare tb) k hk (entries t) = Some e"
  shows "avl_probe h tb k hk = Some (at e, h, tb)"
proof -
  have r: "rooted h tb t" "key_order (Compare tb)" "sorted_wrt (before (Compare tb)) (entries t)" "height t \<le> 32"
    using assms table_ok_height[of h tb t] by (auto simp: table_ok_def)
  obtain t' c where d: "descend (toward (Compare tb) k hk) t [] = (t', c)" by (cases "descend (toward (Compare tb) k hk) t []")
  obtain l b q where "t' = Fork l e b q" using descend_find[OF r(2,3) d] assms(2) by (cases t') auto
  then show ?thesis using probe_start[OF r(1,4) d] by (auto simp: avl_probe_def split: prod.splits)
qed

lemma avl_probe_fresh:
  assumes ok: "table_ok h tb t" and "find_key (Compare tb) k hk (entries t) = None"
    and "Count tb < max_entries" and room: "TFresh h < max_cells"
  shows "\<exists>h' t' g xs ys. avl_probe h tb k hk = Some (TFresh h, h', tb\<lparr>Root := addr t', Count := Suc (Count tb), Generation := g\<rparr>) \<and>
    table_ok h' (tb\<lparr>Root := addr t', Count := Suc (Count tb), Generation := g\<rparr>) t' \<and>
    entries t = xs @ ys \<and> entries t' = xs @ Entry (TFresh h) k None hk # ys \<and> TFresh h' = Suc (TFresh h) \<and>
    (\<forall>p. p \<notin> insert (TFresh h) (at ` set (entries t)) \<longrightarrow> Cells h' p = Cells h p)"
proof -
  have r: "rooted h tb t" "key_order (Compare tb)" "sorted_wrt (before (Compare tb)) (entries t)" "height t \<le> 32"
    using ok table_ok_height[of h tb t] by (auto simp: table_ok_def)
  obtain t' c where d: "descend (toward (Compare tb) k hk) t [] = (t', c)" by (cases "descend (toward (Compare tb) k hk) t []")
  have tip: "t' = Tip" using descend_find[OF r(2,3) d] assms(2) by (cases t') auto
  note s = descend_find(1)[OF r(2,3) d tip]
  from avl_probe_new[OF r(1,4) room d[unfolded tip]] obtain h' u g where
    u: "avl_probe h tb k hk = Some (TFresh h, h', tb\<lparr>Root := addr u, Count := Suc (Count tb), Generation := g\<rparr>)"
    "rooted h' (tb\<lparr>Root := addr u, Count := Suc (Count tb), Generation := g\<rparr>) u"
    "entries u = lefts c @ [Entry (TFresh h) k None hk] @ rights c" "TFresh h' = Suc (TFresh h)"
    "\<forall>p. p \<notin> insert (TFresh h) (at ` set (entries t)) \<longrightarrow> Cells h' p = Cells h p" by blast
  have "sorted_wrt (before (Compare tb)) (entries u)"
    using s r(3) unfolding u(3) by (auto simp: sorted_wrt_append before_entry[OF r(2)])
  then have "table_ok h' (tb\<lparr>Root := addr u, Count := Suc (Count tb), Generation := g\<rparr>) u"
    using u(2) r(2) assms(3) by (simp add: table_ok_def)
  then show ?thesis using u s by (intro exI[of _ h'] exI[of _ u] exI[of _ g] exI[of _ "lefts c"] exI[of _ "rights c"]) simp
qed

lemma avl_delete_absent:
  assumes "table_ok h tb t" and "find_key (Compare tb) k hk (entries t) = None"
  shows "avl_delete h tb k hk = Some (None, h, tb)"
proof -
  have r: "rooted h tb t" "key_order (Compare tb)" "sorted_wrt (before (Compare tb)) (entries t)"
    using assms by (auto simp: table_ok_def)
  obtain t' c where d: "descend (toward (Compare tb) k hk) t [] = (t', c)" by (cases "descend (toward (Compare tb) k hk) t []")
  have "t' = Tip" using descend_find[OF r(2,3) d] assms(2) by (cases t') auto
  then show ?thesis using avl_delete_none[OF r(1) table_ok_height[OF assms(1)]] d by blast
qed

lemma avl_delete_present:
  assumes ok: "table_ok h tb t" and "find_key (Compare tb) k hk (entries t) = Some e"
  shows "\<exists>h' t' xs ys. avl_delete h tb k hk = Some (slot e, h',
      tb\<lparr>Root := addr t', Count := Count tb - 1, Generation := inc32 (Generation tb)\<rparr>) \<and>
    table_ok h' (tb\<lparr>Root := addr t', Count := Count tb - 1, Generation := inc32 (Generation tb)\<rparr>) t' \<and>
    entries t = xs @ e # ys \<and> entries t' = xs @ ys \<and> TFresh h' = TFresh h \<and>
    (\<forall>p. p \<notin> at ` set (entries t) - {at e} \<longrightarrow> Cells h' p = Cells h p)"
proof -
  have r: "rooted h tb t" "key_order (Compare tb)" "sorted_wrt (before (Compare tb)) (entries t)"
    using assms by (auto simp: table_ok_def)
  obtain t' c where d: "descend (toward (Compare tb) k hk) t [] = (t', c)" by (cases "descend (toward (Compare tb) k hk) t []")
  obtain l b q where f: "t' = Fork l e b q" using descend_find[OF r(2,3) d] assms(2) by (cases t') auto
  from avl_delete_some[OF r(1) table_ok_height[OF ok] d[unfolded f]] obtain h' u where
    u: "avl_delete h tb k hk = Some (slot e, h', tb\<lparr>Root := addr u, Count := Count tb - 1, Generation := inc32 (Generation tb)\<rparr>)"
    "rooted h' (tb\<lparr>Root := addr u, Count := Count tb - 1, Generation := inc32 (Generation tb)\<rparr>) u"
    "entries t = lefts c @ entries (Fork l e b q) @ rights c" "entries u = lefts c @ entries l @ entries q @ rights c"
    "TFresh h' = TFresh h" "\<forall>p. p \<notin> at ` set (entries t) - {at e} \<longrightarrow> Cells h' p = Cells h p" by blast
  have "sorted_wrt (before (Compare tb)) (entries u)" using r(3) unfolding u(3,4) by (auto simp: sorted_wrt_append)
  then have "table_ok h' (tb\<lparr>Root := addr u, Count := Count tb - 1, Generation := inc32 (Generation tb)\<rparr>) u"
    using u(2) ok by (auto simp: table_ok_def)
  then show ?thesis using u
    by (intro exI[of _ h'] exI[of _ u] exI[of _ "lefts c @ entries l"] exI[of _ "entries q @ rights c"]) simp
qed

section \<open>Assigning the value of a node\<close>

definition get_slot :: "('k, 'v) mem \<Rightarrow> ptr \<Rightarrow> 'v option option" where
  "get_slot h p = map_option Slot (cell_at h p)"

definition set_slot :: "('k, 'v) mem \<Rightarrow> ptr \<Rightarrow> 'v option \<Rightarrow> ('k, 'v) mem option" where
  "set_slot h p v = map_option (\<lambda>n. put_cell h p (n\<lparr>Slot := v\<rparr>)) (cell_at h p)"

definition revalue :: "ptr \<Rightarrow> 'v option \<Rightarrow> ('k, 'v) entry \<Rightarrow> ('k, 'v) entry" where
  "revalue p v e = (if at e = p then Entry (at e) (ekey e) v (ehash e) else e)"

lemma revalue_simps [simp]: "at (revalue p v e) = at e" "ekey (revalue p v e) = ekey e" "ehash (revalue p v e) = ehash e"
  by (simp_all add: revalue_def)

lemma toward_assign [simp]: "toward cmp k h (revalue p v e) = toward cmp k h e"
  by (simp add: toward_def)

lemma before_assign [simp]: "before cmp (revalue p v x) (revalue p v y) = before cmp x y"
  by (simp add: before_def)

lemma addr_assign [simp]: "addr (map_tree (revalue p v) t) = addr t"
  by (cases t) auto

lemma cell_of_assign: "cell_of (revalue p v e) l r b = (if at e = p then (cell_of e l r b)\<lparr>Slot := v\<rparr> else cell_of e l r b)"
  by (simp add: revalue_def cell_of_def)

lemma tree_at_assign:
  "tree_at m t \<Longrightarrow> m p = Some n \<Longrightarrow> tree_at (m(p \<mapsto> n\<lparr>Slot := v\<rparr>)) (map_tree (revalue p v) t)"
  by (induction t) (auto simp: cell_of_assign)

lemma find_key_assign: "find_key cmp k h (map (revalue p v) es) = map_option (revalue p v) (find_key cmp k h es)"
  by (induction es) auto

lemma map_at_assign [simp]: "map (at \<circ> revalue p v) es = map at es" "map (\<lambda>e. at (revalue p v e)) es = map at es"
  by (simp_all add: comp_def)

lemma set_slot_spec:
  assumes "table_ok h tb t" and "e \<in> set (entries t)"
  shows "\<exists>h'. set_slot h (at e) v = Some h' \<and> table_ok h' tb (map_tree (revalue (at e) v) t) \<and> TFresh h' = TFresh h \<and>
    (\<forall>p. p \<noteq> at e \<longrightarrow> Cells h' p = Cells h p)" "get_slot h (at e) = Some (slot e)"
proof -
  have r: "mem_ok h" "tree_at (Cells h) t" using assms(1) by (auto simp: table_ok_def rooted_def)
  have ex: "\<exists>l r b. m (at e) = Some (cell_of e l r b)" if "tree_at m t" "e \<in> set (entries t)" for m and t :: "('a, 'b) entry tree"
    using that by (induction t) auto
  from ex[OF r(2) assms(2)] obtain l q b where n: "Cells h (at e) = Some (cell_of e l q b)" by blast
  show "get_slot h (at e) = Some (slot e)" using n r(1) by (simp add: get_slot_def)
  let ?h = "put_cell h (at e) ((cell_of e l q b)\<lparr>Slot := v\<rparr>)"
  have "set_slot h (at e) v = Some ?h" using n r(1) by (simp add: set_slot_def)
  moreover have "table_ok ?h tb (map_tree (revalue (at e) v) t)"
    using assms(1) n tree_at_assign[OF r(2) n, of v] by (simp add: table_ok_def rooted_def sorted_wrt_map)
  ultimately show "\<exists>h'. set_slot h (at e) v = Some h' \<and> table_ok h' tb (map_tree (revalue (at e) v) t) \<and> TFresh h' = TFresh h \<and>
    (\<forall>p. p \<noteq> at e \<longrightarrow> Cells h' p = Cells h p)" by (intro exI[of _ ?h]) simp
qed

end
