(* ===== verification/TableMap.thy ===== *)
theory TableMap
  imports TableOrder
begin

text \<open>
  The operations of an \<^verbatim>\<open>Agg$Table\<close> that concern one key (\<^verbatim>\<open>dev/src/lib/Agg/Table.c\<close>), as a finite
  map: the interface is the locale \<open>keyed_store\<close>, interpreted on the model of \<^verbatim>\<open>_insert\<close>, \<^verbatim>\<open>_index\<close> and
  \<^verbatim>\<open>delete\<close>. The locks are those of the THREADED build (\<^verbatim>\<open>ThrTable.c\<close>).
\<close>

section \<open>Definitions\<close>

definition t_rdlock :: "('k, 'v) table \<Rightarrow> ('k, 'v) table option" where
  "t_rdlock tb = (if TLock tb < 0 then None else Some (tb\<lparr>TLock := TLock tb + 1\<rparr>))"

definition t_wrlock :: "('k, 'v) table \<Rightarrow> ('k, 'v) table option" where
  "t_wrlock tb = (if TLock tb = 0 then Some (tb\<lparr>TLock := - 1\<rparr>) else None)"

definition t_unlock :: "('k, 'v) table \<Rightarrow> ('k, 'v) table option" where
  "t_unlock tb =
     (if TLock tb = 0 then None
      else if TLock tb < 0 then Some (tb\<lparr>TLock := 0\<rparr>)
      else Some (tb\<lparr>TLock := TLock tb - 1\<rparr>))"

text \<open>The result of the table's hash function, a \<^verbatim>\<open>long\<close>, becomes an \<^verbatim>\<open>unsigned long\<close>.\<close>

definition hash_of :: "('k, 'v) table \<Rightarrow> 'k \<Rightarrow> nat" where
  "hash_of tb key = ul (HashFn tb key)"

definition probe_key :: "('k, 'v) mem \<Rightarrow> ('k, 'v) table \<Rightarrow> 'k \<Rightarrow> (ptr \<times> ('k, 'v) mem \<times> ('k, 'v) table) option" where
  "probe_key h tb key = avl_probe h tb key (hash_of tb key)"

text \<open>
  \<^verbatim>\<open>_new\<close> and \<^verbatim>\<open>New\<close> replace a missing function by \<^verbatim>\<open>?\<close> or \<^verbatim>\<open>#\<close>; \<^verbatim>\<open>New\<close> has a second argument only if it
  has a first, and both of its branches for one argument do the same.
\<close>

definition new_c :: "('k \<Rightarrow> 'k \<Rightarrow> int) \<Rightarrow> ('k \<Rightarrow> int) \<Rightarrow> ('k \<Rightarrow> 'k \<Rightarrow> int) option \<Rightarrow> ('k \<Rightarrow> int) option \<Rightarrow> ('k, 'v) table" where
  "new_c dcmp dhash cmp hf =
     avl_create (case cmp of None \<Rightarrow> dcmp | Some c \<Rightarrow> c) (case hf of None \<Rightarrow> dhash | Some f \<Rightarrow> f)"

definition New_table :: "('k \<Rightarrow> 'k \<Rightarrow> int) \<Rightarrow> ('k \<Rightarrow> int) \<Rightarrow> ('k \<Rightarrow> 'k \<Rightarrow> int) option \<Rightarrow> ('k \<Rightarrow> int) option \<Rightarrow> ('k, 'v) table" where
  "New_table dcmp dhash cmp hf =
     (case (cmp, hf) of
        (None, _) \<Rightarrow> avl_create dcmp dhash
      | (Some c, None) \<Rightarrow> avl_create c dhash
      | (Some c, Some f) \<Rightarrow> avl_create c f)"

text \<open>The functions are those of the addresses of objects.\<close>

definition NewIdentity_table :: "('k \<Rightarrow> 'k \<Rightarrow> int) \<Rightarrow> ('k \<Rightarrow> int) \<Rightarrow> ('k, 'v) table" where
  "NewIdentity_table ocmp ohash = avl_create ocmp ohash"

definition empty_method :: "('k, 'v) table \<Rightarrow> ('k, 'v) table option" where
  "empty_method tb = do {
     tb \<leftarrow> t_wrlock tb;
     t_unlock (tb\<lparr>Root := 0, Count := 0, Generation := 0\<rparr>) }"

definition insert_c :: "'v \<Rightarrow> ('k, 'v) mem \<Rightarrow> ('k, 'v) table \<Rightarrow> 'k \<Rightarrow> 'v option \<Rightarrow> (('k, 'v) mem \<times> ('k, 'v) table) option" where
  "insert_c nil h tb key v = do {
     tb \<leftarrow> t_wrlock tb;
     (p, h, tb) \<leftarrow> probe_key h tb key;
     h \<leftarrow> set_slot h p (Some (case v of None \<Rightarrow> nil | Some v \<Rightarrow> v));
     tb \<leftarrow> t_unlock tb;
     Some (h, tb) }"

text \<open>\<open>v\<close> is the third argument, if there is one.\<close>

definition insert_key_method ::
  "'v \<Rightarrow> ('k, 'v) mem \<Rightarrow> ('k, 'v) table \<Rightarrow> 'k \<Rightarrow> 'v option \<Rightarrow> ((unit, 'v, unit) reply \<times> ('k, 'v) mem \<times> ('k, 'v) table) option" where
  "insert_key_method nil h tb key v = do {
     tb \<leftarrow> t_wrlock tb;
     (p, h, tb) \<leftarrow> probe_key h tb key;
     h \<leftarrow> set_slot h p (Some (case v of Some v \<Rightarrow> v | None \<Rightarrow> nil));
     tb \<leftarrow> t_unlock tb;
     Some (SUCCESS (), h, tb) }"

definition replace_method ::
  "('k, 'v) mem \<Rightarrow> ('k, 'v) table \<Rightarrow> 'k \<Rightarrow> 'v \<Rightarrow> (('v, 'v, unit) reply \<times> ('k, 'v) mem \<times> ('k, 'v) table) option" where
  "replace_method h tb key v = do {
     tb \<leftarrow> t_wrlock tb;
     (p, h, tb) \<leftarrow> probe_key h tb key;
     old \<leftarrow> get_slot h p;
     h \<leftarrow> set_slot h p (Some v);
     tb \<leftarrow> t_unlock tb;
     Some (case old of Some w \<Rightarrow> SUCCESS w | None \<Rightarrow> FAILURE, h, tb) }"

definition delete_c :: "('k, 'v) mem \<Rightarrow> ('k, 'v) table \<Rightarrow> 'k \<Rightarrow> (int \<times> ('k, 'v) mem \<times> ('k, 'v) table) option" where
  "delete_c h tb key = do {
     tb \<leftarrow> t_wrlock tb;
     (v, h, tb) \<leftarrow> avl_delete h tb key (hash_of tb key);
     tb \<leftarrow> t_unlock tb;
     Some (if v \<noteq> None then 0 else 1, h, tb) }"

definition delete_key_method ::
  "('k, 'v) mem \<Rightarrow> ('k, 'v) table \<Rightarrow> 'k \<Rightarrow> (('v, 'v, unit) reply \<times> ('k, 'v) mem \<times> ('k, 'v) table) option" where
  "delete_key_method h tb key = do {
     tb \<leftarrow> t_wrlock tb;
     (v, h, tb) \<leftarrow> avl_delete h tb key (hash_of tb key);
     tb \<leftarrow> t_unlock tb;
     Some (case v of Some w \<Rightarrow> SUCCESS w | None \<Rightarrow> FAILURE, h, tb) }"

text \<open>\<^verbatim>\<open>_index\<close>: the value of the key, or NULL.\<close>

definition index_c :: "('k, 'v) mem \<Rightarrow> ('k, 'v) table \<Rightarrow> 'k \<Rightarrow> ('v option \<times> ('k, 'v) table) option" where
  "index_c h tb key = do {
     tb \<leftarrow> t_rdlock tb;
     p \<leftarrow> avl_find h tb key (hash_of tb key);
     v \<leftarrow> (if p \<noteq> 0 then get_slot h p else Some None);
     tb \<leftarrow> t_unlock tb;
     Some (v, tb) }"

definition in_table_method :: "('k, 'v) mem \<Rightarrow> 'k \<Rightarrow> ('k, 'v) table \<Rightarrow> (('k, 'v, unit) reply \<times> ('k, 'v) table) option" where
  "in_table_method h key tb = do {
     tb \<leftarrow> t_rdlock tb;
     p \<leftarrow> avl_find h tb key (hash_of tb key);
     tb \<leftarrow> t_unlock tb;
     Some (if p \<noteq> 0 then SUCCESS key else FAILURE, tb) }"

text \<open>\<^verbatim>\<open>_probe\<close> and \<^verbatim>\<open>_slot\<close> return the address of the value, which the caller assigns.\<close>

definition probe_c :: "('k, 'v) mem \<Rightarrow> ('k, 'v) table \<Rightarrow> 'k \<Rightarrow> (ptr \<times> ('k, 'v) mem \<times> ('k, 'v) table) option" where
  "probe_c h tb key = do {
     tb \<leftarrow> t_wrlock tb;
     (p, h, tb) \<leftarrow> probe_key h tb key;
     tb \<leftarrow> t_unlock tb;
     Some (p, h, tb) }"

definition missing_c :: "('k, 'v) mem \<Rightarrow> ('k, 'v) table \<Rightarrow> 'k \<Rightarrow> (int \<times> ptr \<times> ('k, 'v) mem \<times> ('k, 'v) table) option" where
  "missing_c h tb key = do {
     tb \<leftarrow> t_wrlock tb;
     let size = Count tb;
     (p, h, tb) \<leftarrow> probe_key h tb key;
     let present = (Count tb = size);
     tb \<leftarrow> t_unlock tb;
     Some (if present then 0 else 1, p, h, tb) }"

text \<open>
  In the following methods a success comes with a reference to the value, here its node. \<^verbatim>\<open>check\<close> fails
  after creating the entry, \<open>[]\<close> with a default succeeds.
\<close>

definition check_table_method ::
  "('k, 'v) mem \<Rightarrow> ('k, 'v) table \<Rightarrow> 'k \<Rightarrow> 'v \<Rightarrow> (('v \<times> ptr, 'v, unit) reply \<times> ('k, 'v) mem \<times> ('k, 'v) table) option" where
  "check_table_method h tb key d = do {
     tb \<leftarrow> t_wrlock tb;
     (p, h, tb) \<leftarrow> probe_key h tb key;
     s \<leftarrow> get_slot h p;
     case s of
       None \<Rightarrow> do { h \<leftarrow> set_slot h p (Some d); tb \<leftarrow> t_unlock tb; Some (FAILURE, h, tb) }
     | Some v \<Rightarrow> do { tb \<leftarrow> t_unlock tb; Some (SUCCESS (v, p), h, tb) } }"

definition index_default_method ::
  "('k, 'v) mem \<Rightarrow> ('k, 'v) table \<Rightarrow> 'k \<Rightarrow> 'v \<Rightarrow> (('v \<times> ptr, 'v, unit) reply \<times> ('k, 'v) mem \<times> ('k, 'v) table) option" where
  "index_default_method h tb key d = do {
     tb \<leftarrow> t_wrlock tb;
     (p, h, tb) \<leftarrow> probe_key h tb key;
     s \<leftarrow> get_slot h p;
     (v, h) \<leftarrow> (case s of None \<Rightarrow> do { h \<leftarrow> set_slot h p (Some d); Some (d, h) } | Some v \<Rightarrow> Some (v, h));
     tb \<leftarrow> t_unlock tb;
     Some (SUCCESS (v, p), h, tb) }"

text \<open>The variable of \<^verbatim>\<open>missing\<close>, when there is one, gets the second component of the result.\<close>

definition missing_method ::
  "'v \<Rightarrow> ('k, 'v) mem \<Rightarrow> ('k, 'v) table \<Rightarrow> 'k \<Rightarrow>
   (('v \<times> ptr, 'v, unit) reply \<times> 'v option option \<times> ('k, 'v) mem \<times> ('k, 'v) table) option" where
  "missing_method nil h tb key = do {
     tb \<leftarrow> t_wrlock tb;
     let size = Count tb;
     (p, h, tb) \<leftarrow> probe_key h tb key;
     if Count tb = size then do {
       s \<leftarrow> get_slot h p;
       tb \<leftarrow> t_unlock tb;
       Some (FAILURE, Some s, h, tb) }
     else do {
       h \<leftarrow> set_slot h p (Some nil);
       tb \<leftarrow> t_unlock tb;
       Some (SUCCESS (nil, p), None, h, tb) } }"

text \<open>
  The value of a key in a table that has a default function: a new entry gets the function's result. If the
  function fails, the entry stays in the table without a value. The function is a pure function of the key here; the
  calls in \<^verbatim>\<open>[]\<close> and \<^verbatim>\<open>.\<close> pass it the table too, that in \<^verbatim>\<open>update\<close> the key only.
\<close>

definition default_slot ::
  "('k \<Rightarrow> ('v, 'v, unit) reply) \<Rightarrow> ('k, 'v) mem \<Rightarrow> ('k, 'v) table \<Rightarrow> 'k \<Rightarrow>
   (('v \<times> ptr, 'v, unit) reply \<times> ('k, 'v) mem \<times> ('k, 'v) table) option" where
  "default_slot f h tb key = do {
     (p, h, tb) \<leftarrow> probe_key h tb key;
     s \<leftarrow> get_slot h p;
     case s of
       Some v \<Rightarrow> Some (SUCCESS (v, p), h, tb)
     | None \<Rightarrow>
         (case f key of
            FAILURE \<Rightarrow> Some (FAILURE, h, tb)
          | MESSAGE m \<Rightarrow> Some (MESSAGE m, h, tb)
          | SUSPEND v g \<Rightarrow> do { h \<leftarrow> set_slot h p (Some v); Some (SUCCESS (v, p), h, tb) }
          | SUCCESS v \<Rightarrow> do { h \<leftarrow> set_slot h p (Some v); Some (SUCCESS (v, p), h, tb) }) }"

text \<open>
  \<open>[]\<close> without a default. A found entry without a value makes the method return a NULL object: in the
  model that is undefined.
\<close>

definition index_table_method ::
  "('k, 'v) mem \<Rightarrow> ('k, 'v) table \<Rightarrow> 'k \<Rightarrow> (('v \<times> ptr, 'v, unit) reply \<times> ('k, 'v) mem \<times> ('k, 'v) table) option" where
  "index_table_method h tb key =
     (case Default tb of
        Some f \<Rightarrow> do {
          tb \<leftarrow> t_wrlock tb;
          (r, h, tb) \<leftarrow> default_slot f h tb key;
          tb \<leftarrow> t_unlock tb;
          Some (r, h, tb) }
      | None \<Rightarrow> do {
          tb \<leftarrow> t_rdlock tb;
          p \<leftarrow> avl_find h tb key (hash_of tb key);
          if p \<noteq> 0 then do {
            s \<leftarrow> get_slot h p;
            v \<leftarrow> s;
            tb \<leftarrow> t_unlock tb;
            Some (SUCCESS (v, p), h, tb) }
          else do { tb \<leftarrow> t_unlock tb; Some (FAILURE, h, tb) } })"

text \<open>The method \<^verbatim>\<open>.\<close> takes a read lock in both cases, also where it inserts.\<close>

definition dot_method ::
  "('k, 'v) mem \<Rightarrow> ('k, 'v) table \<Rightarrow> 'k \<Rightarrow> (('v \<times> ptr, 'v, unit) reply \<times> ('k, 'v) mem \<times> ('k, 'v) table) option" where
  "dot_method h tb key = do {
     tb \<leftarrow> t_rdlock tb;
     case Default tb of
       Some f \<Rightarrow> do {
         (r, h, tb) \<leftarrow> default_slot f h tb key;
         tb \<leftarrow> t_unlock tb;
         Some (r, h, tb) }
     | None \<Rightarrow> do {
         p \<leftarrow> avl_find h tb key (hash_of tb key);
         if p \<noteq> 0 then do {
           s \<leftarrow> get_slot h p;
           v \<leftarrow> s;
           tb \<leftarrow> t_unlock tb;
           Some (SUCCESS (v, p), h, tb) }
         else do { tb \<leftarrow> t_unlock tb; Some (FAILURE, h, tb) } } }"

definition update_method ::
  "('k, 'v) mem \<Rightarrow> ('k, 'v) table \<Rightarrow> 'k \<Rightarrow> 'v fun1 \<Rightarrow> (('v, 'v, unit) reply \<times> ('k, 'v) mem \<times> ('k, 'v) table) option" where
  "update_method h tb key f = do {
     tb \<leftarrow> t_wrlock tb;
     (r, h, tb) \<leftarrow>
       (case Default tb of
          Some g \<Rightarrow> default_slot g h tb key
        | None \<Rightarrow> do {
            p \<leftarrow> avl_find h tb key (hash_of tb key);
            if p = 0 then Some (FAILURE, h, tb)
            else do { s \<leftarrow> get_slot h p; v \<leftarrow> s; Some (SUCCESS (v, p), h, tb) } });
     case r of
       SUCCESS (v, p) \<Rightarrow>
         (case f v of
            SUSPEND w g \<Rightarrow> do { h \<leftarrow> set_slot h p (Some w); tb \<leftarrow> t_unlock tb; Some (SUCCESS w, h, tb) }
          | SUCCESS w \<Rightarrow> do { h \<leftarrow> set_slot h p (Some w); tb \<leftarrow> t_unlock tb; Some (SUCCESS w, h, tb) }
          | FAILURE \<Rightarrow> do { tb \<leftarrow> t_unlock tb; Some (FAILURE, h, tb) }
          | MESSAGE m \<Rightarrow> do { tb \<leftarrow> t_unlock tb; Some (MESSAGE m, h, tb) })
     | MESSAGE m \<Rightarrow> do { tb \<leftarrow> t_unlock tb; Some (MESSAGE m, h, tb) }
     | _ \<Rightarrow> do { tb \<leftarrow> t_unlock tb; Some (FAILURE, h, tb) } }"

definition defval_method :: "('k, 'v) table \<Rightarrow> 'v \<Rightarrow> ('k, 'v) table option" where
  "defval_method tb v = do {
     tb \<leftarrow> t_wrlock tb;
     t_unlock (tb\<lparr>Default := Some (\<lambda>_. SUCCESS v)\<rparr>) }"

definition deffun_method :: "('k, 'v) table \<Rightarrow> ('k \<Rightarrow> ('v, 'v, unit) reply) \<Rightarrow> ('k, 'v) table option" where
  "deffun_method tb f = do {
     tb \<leftarrow> t_wrlock tb;
     t_unlock (tb\<lparr>Default := Some f\<rparr>) }"

definition size_c :: "('k, 'v) table \<Rightarrow> nat" where
  "size_c tb = Count tb"

text \<open>\<^verbatim>\<open>Make\<close> with alternating keys and values, as pairs.\<close>

fun make_loop ::
  "('k, 'v) mem \<Rightarrow> ('k, 'v) table \<Rightarrow> ('k \<times> 'v) list \<Rightarrow> (('k, 'v) mem \<times> ('k, 'v) table) option" where
  "make_loop h tb [] = Some (h, tb)"
| "make_loop h tb ((key, v) # kvs) = do {
     (p, h, tb) \<leftarrow> probe_key h tb key;
     h \<leftarrow> set_slot h p (Some v);
     make_loop h tb kvs }"

definition make_function ::
  "('k \<Rightarrow> 'k \<Rightarrow> int) \<Rightarrow> ('k \<Rightarrow> int) \<Rightarrow> ('k, 'v) mem \<Rightarrow> ('k \<times> 'v) list \<Rightarrow> (('k, 'v) mem \<times> ('k, 'v) table) option" where
  "make_function dcmp dhash h kvs = make_loop h (avl_create dcmp dhash) kvs"

declare probe_key_def [simp]

section \<open>The interface of a finite map\<close>

text \<open>
  What the clients of a table rely on: after \<open>put\<close> a key that is the same as the new one has the new
  value and all others what they had, after \<open>del\<close> the key is gone. \<open>get\<close> tells an absent key
  (\<^const>\<open>None\<close>) from an entry without a value (\<^term>\<open>Some None\<close>). \<open>room s n\<close> says that \<open>n\<close> more entries fit.
\<close>

locale keyed_store =
  fixes ok :: "'s \<Rightarrow> bool"
    and room :: "'s \<Rightarrow> nat \<Rightarrow> bool"
    and get :: "'s \<Rightarrow> 'k \<Rightarrow> 'v option option"
    and same :: "'s \<Rightarrow> 'k \<Rightarrow> 'k \<Rightarrow> bool"
    and put :: "'s \<Rightarrow> 'k \<Rightarrow> 'v \<Rightarrow> 's option"
    and del :: "'s \<Rightarrow> 'k \<Rightarrow> ('v option \<times> 's) option"
  assumes put_law: "ok s \<Longrightarrow> room s (Suc n) \<Longrightarrow>
      \<exists>s'. put s k v = Some s' \<and> ok s' \<and> room s' n \<and> same s' = same s \<and>
        get s' = (\<lambda>k'. if same s k' k then Some (Some v) else get s k')"
    and del_law: "ok s \<Longrightarrow> room s n \<Longrightarrow>
      \<exists>s'. del s k = Some (case get s k of Some v \<Rightarrow> v | None \<Rightarrow> None, s') \<and> ok s' \<and> room s' n \<and>
        same s' = same s \<and> get s' = (\<lambda>k'. if same s k' k then None else get s k')"
    and same_equiv: "ok s \<Longrightarrow> same s k k" "ok s \<Longrightarrow> same s k k' \<Longrightarrow> same s k' k"
      "ok s \<Longrightarrow> same s k k' \<Longrightarrow> same s k' k'' \<Longrightarrow> same s k k''"
    and room_mono: "room s (Suc n) \<Longrightarrow> room s n"
begin

fun put_all :: "'s \<Rightarrow> ('k \<times> 'v) list \<Rightarrow> 's option" where
  "put_all s [] = Some s"
| "put_all s ((k, v) # kvs) = do { s \<leftarrow> put s k v; put_all s kvs }"

text \<open>The last pair whose key is the same as \<open>k\<close> wins.\<close>

lemma put_all_law:
  assumes "ok s" and "room s (length kvs + n)"
  shows "\<exists>s'. put_all s kvs = Some s' \<and> ok s' \<and> room s' n \<and> same s' = same s \<and>
    get s' = (\<lambda>k. case List.find (\<lambda>kv. same s k (fst kv)) (rev kvs) of
       Some kv \<Rightarrow> Some (Some (snd kv)) | None \<Rightarrow> get s k)"
  using assms
proof (induction kvs arbitrary: s)
  case (Cons kv kvs)
  obtain k v where kv: "kv = (k, v)" by (cases kv)
  have fa: "List.find P (xs @ [y]) = (case List.find P xs of Some z \<Rightarrow> Some z | None \<Rightarrow> if P y then Some y else None)"
    for P :: "'k \<times> 'v \<Rightarrow> bool" and xs y by (induction xs) auto
  have "room s (Suc (length kvs + n))" using Cons.prems(2) by simp
  from put_law[OF Cons.prems(1) this, of k v] obtain s1 where
    s1: "put s k v = Some s1" "ok s1" "room s1 (length kvs + n)" "same s1 = same s"
    "get s1 = (\<lambda>k'. if same s k' k then Some (Some v) else get s k')" by blast
  from Cons.IH[OF s1(2,3)] obtain s2 where
    s2: "put_all s1 kvs = Some s2" "ok s2" "room s2 n" "same s2 = same s1"
    "get s2 = (\<lambda>k. case List.find (\<lambda>kv. same s1 k (fst kv)) (rev kvs) of
       Some kv \<Rightarrow> Some (Some (snd kv)) | None \<Rightarrow> get s1 k)" by blast
  then show ?case using s1 unfolding kv
    by (intro exI[of _ s2]) (auto simp: fa fun_eq_iff split: option.split)
qed simp

lemma put_del:
  assumes "ok s" and "room s (Suc n)" and "get s k = None"
  shows "\<exists>s' s''. put s k v = Some s' \<and> del s' k = Some (Some v, s'') \<and> ok s'' \<and>
    ((\<forall>k'. same s k' k \<longrightarrow> get s k' = None) \<longrightarrow> get s'' = get s)"
proof -
  from put_law[OF assms(1,2), of k v] obtain s1 where
    s1: "put s k v = Some s1" "ok s1" "room s1 n" "same s1 = same s"
    "get s1 = (\<lambda>k'. if same s k' k then Some (Some v) else get s k')" by blast
  from del_law[OF s1(2,3), of k] obtain s2 where
    s2: "del s1 k = Some (case get s1 k of Some v \<Rightarrow> v | None \<Rightarrow> None, s2)" "ok s2"
    "get s2 = (\<lambda>k'. if same s1 k' k then None else get s1 k')" by blast
  have "get s1 k = Some (Some v)" using s1(5) same_equiv(1)[OF assms(1), of k] by simp
  then show ?thesis using s1 s2 by (intro exI[of _ s1] exI[of _ s2]) (auto simp: fun_eq_iff)
qed

lemma put_put:
  assumes "ok s" and "room s (Suc (Suc n))" and "same s k k'"
  shows "\<exists>s1 s2 s3. put s k v = Some s1 \<and> put s1 k' w = Some s2 \<and> put s k' w = Some s3 \<and> get s2 = get s3"
proof -
  from put_law[OF assms(1,2), of k v] obtain s1 where
    s1: "put s k v = Some s1" "ok s1" "room s1 (Suc n)" "same s1 = same s"
    "get s1 = (\<lambda>k'. if same s k' k then Some (Some v) else get s k')" by blast
  from put_law[OF s1(2,3), of k' w] obtain s2 where
    s2: "put s1 k' w = Some s2" "get s2 = (\<lambda>k''. if same s1 k'' k' then Some (Some w) else get s1 k'')" by blast
  from put_law[OF assms(1,2), of k' w] obtain s3 where
    s3: "put s k' w = Some s3" "get s3 = (\<lambda>k''. if same s k'' k' then Some (Some w) else get s k'')" by blast
  have "same s k'' k \<longleftrightarrow> same s k'' k'" for k'' using same_equiv[OF assms(1)] assms(3) by blast
  then show ?thesis using s1 s2 s3 by (intro exI[of _ s1] exI[of _ s2] exI[of _ s3]) (auto simp: fun_eq_iff)
qed

end

section \<open>The table as a finite map\<close>

text \<open>What a table holds for a key, as the code's own search tells.\<close>

definition fetch :: "('k, 'v) mem \<times> ('k, 'v) table \<Rightarrow> 'k \<Rightarrow> 'v option option" where
  "fetch = (\<lambda>(h, tb) key.
     (case avl_find h tb key (hash_of tb key) of
        Some p \<Rightarrow> if p = 0 then None else get_slot h p
      | None \<Rightarrow> None))"

definition same_key :: "('k, 'v) mem \<times> ('k, 'v) table \<Rightarrow> 'k \<Rightarrow> 'k \<Rightarrow> bool" where
  "same_key = (\<lambda>(h, tb) k k'. hash_of tb k = hash_of tb k' \<and> Compare tb k k' = 0)"

text \<open>
  \<open>tholds F h tb\<close>: the table is well-formed, and the memory cells \<open>F\<close> hold other things; \<open>trep\<close> adds
  that it is not locked.
\<close>

definition tholds :: "(ptr \<Rightarrow> ('k, 'v) cell option) \<Rightarrow> ('k, 'v) mem \<Rightarrow> ('k, 'v) table \<Rightarrow> bool" where
  "tholds F h tb \<longleftrightarrow> (\<exists>t. table_ok h tb t \<and>
     (\<forall>p n. F p = Some n \<longrightarrow> Cells h p = Some n \<and> p \<notin> at ` set (entries t)))"

definition trep :: "(ptr \<Rightarrow> ('k, 'v) cell option) \<Rightarrow> ('k, 'v) mem \<times> ('k, 'v) table \<Rightarrow> bool" where
  "trep F = (\<lambda>(h, tb). TLock tb = 0 \<and> tholds F h tb)"

definition troom :: "('k, 'v) mem \<times> ('k, 'v) table \<Rightarrow> nat \<Rightarrow> bool" where
  "troom = (\<lambda>(h, tb) n. Count tb + n \<le> max_entries \<and> TFresh h + n \<le> max_cells)"

definition put_table :: "('k, 'v) mem \<times> ('k, 'v) table \<Rightarrow> 'k \<Rightarrow> 'v \<Rightarrow> (('k, 'v) mem \<times> ('k, 'v) table) option" where
  "put_table = (\<lambda>(h, tb) k v. insert_c v h tb k (Some v))"

definition del_table ::
  "('k, 'v) mem \<times> ('k, 'v) table \<Rightarrow> 'k \<Rightarrow> ('v option \<times> ('k, 'v) mem \<times> ('k, 'v) table) option" where
  "del_table = (\<lambda>(h, tb) k. do {
     (r, h, tb) \<leftarrow> delete_key_method h tb k;
     Some (case r of SUCCESS v \<Rightarrow> Some v | _ \<Rightarrow> None, h, tb) })"

lemma t_lock_simps [simp]:
  "TLock tb = 0 \<Longrightarrow> t_wrlock tb = Some (tb\<lparr>TLock := - 1\<rparr>)" "TLock tb = 0 \<Longrightarrow> t_rdlock tb = Some (tb\<lparr>TLock := 1\<rparr>)"
  "TLock tb = - 1 \<Longrightarrow> t_unlock tb = Some (tb\<lparr>TLock := 0\<rparr>)" "TLock tb = 1 \<Longrightarrow> t_unlock tb = Some (tb\<lparr>TLock := 0\<rparr>)"
  by (simp_all add: t_wrlock_def t_rdlock_def t_unlock_def)

lemma table_ok_lock [simp]: "table_ok h (tb\<lparr>TLock := n\<rparr>) t \<longleftrightarrow> table_ok h tb t"
  by (simp add: table_ok_def rooted_def)

lemma hash_of_simps [simp]:
  "hash_of (tb\<lparr>TLock := n\<rparr>) = hash_of tb" "hash_of (tb\<lparr>Root := r\<rparr>) = hash_of tb"
  "hash_of (tb\<lparr>Count := c\<rparr>) = hash_of tb" "hash_of (tb\<lparr>Generation := g\<rparr>) = hash_of tb"
  "hash_of (tb\<lparr>Default := d\<rparr>) = hash_of tb"
  by (simp_all add: hash_of_def fun_eq_iff)

lemma same_lock: "TLock tb = 0 \<Longrightarrow> tb\<lparr>TLock := 0\<rparr> = tb"
  by (cases tb) simp

lemma fetch_spec:
  assumes "table_ok h tb t"
  shows "fetch (h, tb) k = map_option slot (find_key (Compare tb) k (hash_of tb k) (entries t))"
proof (cases "find_key (Compare tb) k (hash_of tb k) (entries t)")
  case None
  then show ?thesis using avl_find_spec[OF assms, of k "hash_of tb k"] by (simp add: fetch_def)
next
  case (Some e)
  have e: "e \<in> set (entries t)" using find_key_Some[OF Some] by simp
  have "rooted h tb t" using assms by (simp add: table_ok_def)
  then show ?thesis
    using avl_find_spec[OF assms, of k "hash_of tb k"] Some entry_nonnull[OF _ e] set_slot_spec(2)[OF assms e]
    by (simp add: fetch_def)
qed

lemma key_order_tie:
  assumes "key_order cmp" and "cmp x y = 0"
  shows "cmp z x = 0 \<longleftrightarrow> cmp z y = 0"
proof -
  note s = key_order_sym[OF assms(1)] and tr = key_order_trans(1)[OF assms(1)]
  have step: "cmp z y = 0" if "cmp z x = 0" "cmp x y = 0" for x y
  proof -
    have "cmp z y \<le> 0" using tr[of z x y] that by simp
    moreover have "cmp y z \<le> 0" using tr[of y x z] that s(2)[of x y] s(2)[of z x] by simp
    ultimately show ?thesis using s(3)[of y z] by simp
  qed
  show ?thesis using step[of x y] step[of y x] assms(2) s(2)[of x y] by blast
qed

lemma find_key_cong:
  fixes es :: "('k, 'v) entry list"
  assumes "key_order cmp" and "toward cmp k hk e = 0"
  shows "find_key cmp (ekey e) (ehash e) es = find_key cmp k hk es"
proof -
  have "toward cmp (ekey e) (ehash e) x = 0 \<longleftrightarrow> toward cmp k hk x = 0" for x :: "('k, 'v) entry"
    using assms(2) key_order_tie[OF assms(1), of k "ekey e" "ekey x"] key_order_sym(2)[OF assms(1)]
    by (auto simp: toward_zero)
  then have "(\<lambda>x. toward cmp (ekey e) (ehash e) x = 0) = (\<lambda>x :: ('k, 'v) entry. toward cmp k hk x = 0)" by (rule ext)
  then show ?thesis by (simp only: find_key_def)
qed

lemma toward_same:
  assumes "key_order cmp" and "toward cmp k h e = 0"
  shows "toward cmp k' h' e = 0 \<longleftrightarrow> h' = h \<and> cmp k' k = 0"
  using assms(2) key_order_tie[OF assms(1), of k "ekey e" k'] by (auto simp: toward_zero)

lemma same_key_equiv:
  assumes "key_order (Compare tb)"
  shows "same_key (h, tb) k k" "same_key (h, tb) k k' \<Longrightarrow> same_key (h, tb) k' k"
    "same_key (h, tb) k k' \<Longrightarrow> same_key (h, tb) k' k'' \<Longrightarrow> same_key (h, tb) k k''"
proof -
  note s = key_order_sym[OF assms] and t = key_order_trans(1)[OF assms]
  have "Compare tb k k = 0" using s(1)[of k k] by linarith
  then show "same_key (h, tb) k k" by (simp add: same_key_def)
  show "same_key (h, tb) k k' \<Longrightarrow> same_key (h, tb) k' k" using s(2)[of k k'] by (simp add: same_key_def)
  show "same_key (h, tb) k k' \<Longrightarrow> same_key (h, tb) k' k'' \<Longrightarrow> same_key (h, tb) k k''"
    using s(2,3)[of k k'] s(2,3)[of k' k''] s(1,3)[of k k''] t[of k k' k''] t[of k'' k' k]
    by (auto simp: same_key_def)
qed

lemma assign_find:
  assumes "table_ok h tb t" and "e \<in> set (entries t)"
  shows "map_option slot (find_key (Compare tb) k hk (map (revalue (at e) v) (entries t))) =
    (if toward (Compare tb) k hk e = 0 then Some v else map_option slot (find_key (Compare tb) k hk (entries t)))"
proof -
  have r: "distinct (map at (entries t))" "key_order (Compare tb)" "sorted_wrt (before (Compare tb)) (entries t)"
    using assms(1) by (auto simp: table_ok_def rooted_def)
  obtain xs ys where t: "entries t = xs @ e # ys" using assms(2) by (metis split_list)
  have "at e \<notin> at ` set (xs @ ys)" using r(1) unfolding t by auto
  then have n: "x \<in> set (xs @ ys) \<Longrightarrow> at x \<noteq> at e" for x by (metis image_eqI)
  note f = find_key_middle(1)[OF r(2) r(3)[unfolded t], of k hk]
  have "map_option slot (map_option (revalue (at e) v) (find_key (Compare tb) k hk (xs @ ys))) =
      map_option slot (find_key (Compare tb) k hk (xs @ ys))"
  proof (cases "find_key (Compare tb) k hk (xs @ ys)")
    case (Some x)
    then have "at x \<noteq> at e" using n find_key_Some by metis
    then show ?thesis using Some by (simp add: revalue_def)
  qed simp
  then show ?thesis unfolding find_key_assign t f by (simp add: revalue_def)
qed

lemma tholdsI:
  "table_ok h tb t \<Longrightarrow> (\<And>p n. F p = Some n \<Longrightarrow> Cells h p = Some n \<and> p \<notin> at ` set (entries t)) \<Longrightarrow> tholds F h tb"
  by (auto simp: tholds_def)

lemma lock_irrelevant [simp]:
  "tholds F h (tb\<lparr>TLock := n\<rparr>) \<longleftrightarrow> tholds F h tb" "troom (h, tb\<lparr>TLock := n\<rparr>) m \<longleftrightarrow> troom (h, tb) m"
  "same_key (h, tb\<lparr>TLock := n\<rparr>) = same_key (h, tb)" "fetch (h, tb\<lparr>TLock := n\<rparr>) = fetch (h, tb)"
  by (simp_all add: tholds_def troom_def same_key_def fetch_def avl_find_def)

text \<open>An assignment to the value of the entry of a key.\<close>

lemma assign_spec:
  assumes t: "table_ok h tb t" and F: "\<forall>p n. F p = Some n \<longrightarrow> Cells h p = Some n \<and> p \<notin> at ` set (entries t)"
    and f: "find_key (Compare tb) k (hash_of tb k) (entries t) = Some e"
  shows "\<exists>h'. set_slot h (at e) v = Some h' \<and> tholds F h' tb \<and> TFresh h' = TFresh h \<and>
    fetch (h', tb) = (\<lambda>k'. if same_key (h, tb) k' k then Some v else fetch (h, tb) k')"
proof -
  have r: "key_order (Compare tb)" using t by (auto simp: table_ok_def)
  have e: "e \<in> set (entries t)" "toward (Compare tb) k (hash_of tb k) e = 0" using find_key_Some[OF f] by simp_all
  from set_slot_spec(1)[OF t e(1), of v] obtain h' where
    h': "set_slot h (at e) v = Some h'" "table_ok h' tb (map_tree (revalue (at e) v) t)" "TFresh h' = TFresh h"
    "\<forall>p. p \<noteq> at e \<longrightarrow> Cells h' p = Cells h p" by blast
  have "at e \<in> at ` set (entries t)" using e(1) by simp
  then have "Cells h' p = Some n \<and> p \<notin> at ` set (entries (map_tree (revalue (at e) v) t))" if "F p = Some n" for p n
    using F that h'(4) by (simp add: image_image) metis
  then have "tholds F h' tb" by (rule tholdsI[OF h'(2)])
  moreover have "fetch (h', tb) k' = (if same_key (h, tb) k' k then Some v else fetch (h, tb) k')" for k'
    using toward_same[OF r e(2), of k' "hash_of tb k'"]
    unfolding fetch_spec[OF h'(2)] fetch_spec[OF t] entries_map_tree assign_find[OF t e(1)] same_key_def by simp
  ultimately show ?thesis using h'(1,3) by (intro exI[of _ h']) (simp add: fun_eq_iff)
qed

text \<open>What a method can do with the slot that a probe for the key \<open>k\<close> gives it.\<close>

definition probed ::
  "(ptr \<Rightarrow> ('k, 'v) cell option) \<Rightarrow> nat \<Rightarrow> ('k, 'v) mem \<times> ('k, 'v) table \<Rightarrow> 'k \<Rightarrow> ptr \<Rightarrow>
   ('k, 'v) mem \<times> ('k, 'v) table \<Rightarrow> bool" where
  "probed F n s k p = (\<lambda>(h1, tb1).
     tholds F h1 tb1 \<and> troom (h1, tb1) n \<and> TLock tb1 = TLock (snd s) \<and> Default tb1 = Default (snd s) \<and>
     same_key (h1, tb1) = same_key s \<and>
     (Count tb1 = Count (snd s) \<longleftrightarrow> fetch s k \<noteq> None) \<and>
     get_slot h1 p = Some (case fetch s k of Some v \<Rightarrow> v | None \<Rightarrow> None) \<and>
     fetch (h1, tb1) = (\<lambda>k'. if same_key s k' k \<and> fetch s k = None then Some None else fetch s k') \<and>
     (\<forall>v. \<exists>h2. set_slot h1 p v = Some h2 \<and> tholds F h2 tb1 \<and> troom (h2, tb1) n \<and>
        same_key (h2, tb1) = same_key s \<and> fetch (h2, tb1) = (\<lambda>k'. if same_key s k' k then Some v else fetch s k')))"

lemma probe_key_spec:
  fixes h :: "('k, 'v) mem"
  assumes "tholds F h tb" and "troom (h, tb) (Suc n)"
  shows "\<exists>p h1 tb1. probe_key h tb k = Some (p, h1, tb1) \<and> probed F n (h, tb) k p (h1, tb1)"
proof -
  from assms(1) obtain t where t: "table_ok h tb t"
    and F: "\<forall>p n. F p = Some n \<longrightarrow> Cells h p = Some n \<and> p \<notin> at ` set (entries t)" by (auto simp: tholds_def)
  have rm: "Count tb + Suc n \<le> max_entries" "TFresh h + Suc n \<le> max_cells" using assms(2) by (simp_all add: troom_def)
  let ?f = "\<lambda>k. find_key (Compare tb) k (hash_of tb k)"
  have r: "mem_ok h" "key_order (Compare tb)" using t by (auto simp: table_ok_def rooted_def)
  note fs = fetch_spec[OF t]
  show ?thesis
  proof (cases "?f k (entries t)")
    case (Some e)
    have e: "e \<in> set (entries t)" using find_key_Some[OF Some] by simp
    have fk: "fetch (h, tb) k = Some (slot e)" unfolding fs Some by simp
    have "troom (h, tb) n" using assms(2) by (simp add: troom_def)
    then have "\<forall>v. \<exists>h2. set_slot h (at e) v = Some h2 \<and> tholds F h2 tb \<and> troom (h2, tb) n \<and>
        same_key (h2, tb) = same_key (h, tb) \<and>
        fetch (h2, tb) = (\<lambda>k'. if same_key (h, tb) k' k then Some v else fetch (h, tb) k')"
      using assign_spec[OF t F Some] by (fastforce simp: troom_def same_key_def)
    then have "probed F n (h, tb) k (at e) (h, tb)"
      using assms(1) \<open>troom (h, tb) n\<close> fk set_slot_spec(2)[OF t e] by (simp add: probed_def)
    then show ?thesis using avl_probe_old[OF t Some] by (intro exI[of _ "at e"] exI[of _ h] exI[of _ tb]) simp
  next
    case None
    have "Count tb < max_entries" "TFresh h < max_cells" using rm by simp_all
    from avl_probe_fresh[OF t None this] obtain h1 t1 g xs ys where
      u: "avl_probe h tb k (hash_of tb k) = Some (TFresh h, h1, tb\<lparr>Root := addr t1, Count := Suc (Count tb), Generation := g\<rparr>)"
      "table_ok h1 (tb\<lparr>Root := addr t1, Count := Suc (Count tb), Generation := g\<rparr>) t1"
      "entries t = xs @ ys" "entries t1 = xs @ Entry (TFresh h) k None (hash_of tb k) # ys" "TFresh h1 = Suc (TFresh h)"
      "\<forall>p. p \<notin> insert (TFresh h) (at ` set (entries t)) \<longrightarrow> Cells h1 p = Cells h p" by blast
    let ?tb = "tb\<lparr>Root := addr t1, Count := Suc (Count tb), Generation := g\<rparr>"
      and ?e = "Entry (TFresh h) k None (hash_of tb k) :: ('k, 'v) entry"
    have st: "sorted_wrt (before (Compare tb)) (xs @ ?e # ys)" using u(2,4) by (simp add: table_ok_def)
    have sk: "toward (Compare tb) k' (hash_of tb k') ?e = 0 \<longleftrightarrow> same_key (h, tb) k' k" for k'
      by (auto simp: toward_zero same_key_def)
    have f1: "?f k' (entries t1) = (if same_key (h, tb) k' k then Some ?e else ?f k' (entries t))" for k'
      using find_key_middle(1)[OF r(2) st, of k' "hash_of tb k'"] sk[of k'] u(3,4) by simp
    have fk: "fetch (h, tb) k = None" unfolding fs None by simp
    have skr: "same_key (h, tb) k k" by (rule same_key_equiv(1)[OF r(2)])
    have "p \<noteq> TFresh h" if "F p = Some n" for p n using F that mem_ok_dom[OF r(1), of p n] by auto
    moreover have ptrs: "at ` set (entries t1) = insert (TFresh h) (at ` set (entries t))" unfolding u(3,4) by auto
    ultimately have F1: "\<forall>p n. F p = Some n \<longrightarrow> Cells h1 p = Some n \<and> p \<notin> at ` set (entries t1)"
      using F u(6) by (metis insert_iff)
    have f1k: "find_key (Compare ?tb) k (hash_of ?tb k) (entries t1) = Some ?e" using f1[of k] skr by simp
    have rn: "troom (h2, ?tb) n" if "TFresh h2 = TFresh h1" for h2 :: "('k, 'v) mem" using rm u(5) that by (simp add: troom_def)
    have sks: "same_key (h2, ?tb) = same_key (h, tb)" for h2 :: "('k, 'v) mem" by (simp add: same_key_def fun_eq_iff)
    have fe: "fetch (h1, ?tb) = (\<lambda>k'. if same_key (h, tb) k' k then Some None else fetch (h, tb) k')"
      using f1 unfolding fetch_spec[OF u(2)] fs fun_eq_iff by simp
    have "\<exists>h2. set_slot h1 (TFresh h) v = Some h2 \<and> tholds F h2 ?tb \<and> troom (h2, ?tb) n \<and>
        same_key (h2, ?tb) = same_key (h, tb) \<and>
        fetch (h2, ?tb) = (\<lambda>k'. if same_key (h, tb) k' k then Some v else fetch (h, tb) k')" for v
    proof -
      from assign_spec[OF u(2) F1 f1k, of v] obtain h2 where h2: "set_slot h1 (TFresh h) v = Some h2" "tholds F h2 ?tb"
        "TFresh h2 = TFresh h1" "fetch (h2, ?tb) = (\<lambda>k'. if same_key (h1, ?tb) k' k then Some v else fetch (h1, ?tb) k')"
        by auto
      have "fetch (h2, ?tb) = (\<lambda>k'. if same_key (h, tb) k' k then Some v else fetch (h, tb) k')"
        unfolding h2(4) sks fe by auto
      then show ?thesis using h2(1,2) rn[OF h2(3)] sks[of h2] by blast
    qed
    moreover have "get_slot h1 (TFresh h) = Some None"
      using set_slot_spec(2)[OF u(2), of ?e] u(4) by simp
    ultimately have "probed F n (h, tb) k (TFresh h) (h1, ?tb)"
      using tholdsI[OF u(2), of F] F1 rn[of h1] sks[of h1] fe fk unfolding probed_def by simp
    then show ?thesis using u(1) by (intro exI[of _ "TFresh h"] exI[of _ h1] exI[of _ ?tb]) simp
  qed
qed

text \<open>The same under a lock, as the methods see it.\<close>

lemma locked_probe:
  assumes "trep F (h, tb)" and "troom (h, tb) (Suc n)"
  obtains p h1 tb1 where "probe_key h (tb\<lparr>TLock := m\<rparr>) k = Some (p, h1, tb1)" "TLock tb1 = m"
    "trep F (h1, tb1\<lparr>TLock := 0\<rparr>)" "troom (h1, tb1) n" "Default tb1 = Default tb"
    "same_key (h1, tb1) = same_key (h, tb)" "Count tb1 = Count tb \<longleftrightarrow> fetch (h, tb) k \<noteq> None"
    "get_slot h1 p = Some (case fetch (h, tb) k of Some v \<Rightarrow> v | None \<Rightarrow> None)"
    "fetch (h1, tb1) = (\<lambda>k'. if same_key (h, tb) k' k \<and> fetch (h, tb) k = None then Some None else fetch (h, tb) k')"
    "\<forall>v. \<exists>h2. set_slot h1 p v = Some h2 \<and> trep F (h2, tb1\<lparr>TLock := 0\<rparr>) \<and> troom (h2, tb1) n \<and>
       same_key (h2, tb1) = same_key (h, tb) \<and>
       fetch (h2, tb1) = (\<lambda>k'. if same_key (h, tb) k' k then Some v else fetch (h, tb) k')"
proof -
  from probe_key_spec[of F h "tb\<lparr>TLock := m\<rparr>" n k] assms obtain p h1 tb1 where
    u: "probe_key h (tb\<lparr>TLock := m\<rparr>) k = Some (p, h1, tb1)" "probed F n (h, tb\<lparr>TLock := m\<rparr>) k p (h1, tb1)"
    by (auto simp: trep_def)
  have p: "probed F n (h, tb) k p (h1, tb1\<lparr>TLock := TLock tb\<rparr>)" "TLock tb1 = m"
    using u(2) unfolding probed_def prod.case lock_irrelevant snd_conv by simp_all
  show thesis
    by (rule that[OF u(1) p(2)]) (use p(1) in \<open>unfold probed_def prod.case lock_irrelevant snd_conv trep_def, simp_all\<close>)
qed

lemma put_table_law:
  assumes "trep F s" and "troom s (Suc n)"
  shows "\<exists>s'. put_table s k v = Some s' \<and> trep F s' \<and> troom s' n \<and> same_key s' = same_key s \<and>
    fetch s' = (\<lambda>k'. if same_key s k' k then Some (Some v) else fetch s k')"
proof -
  obtain h tb where s: "s = (h, tb)" by (cases s)
  obtain p h1 tb1 where
    u: "probe_key h (tb\<lparr>TLock := - 1\<rparr>) k = Some (p, h1, tb1)" "TLock tb1 = - 1"
    "\<forall>v. \<exists>h2. set_slot h1 p v = Some h2 \<and> trep F (h2, tb1\<lparr>TLock := 0\<rparr>) \<and> troom (h2, tb1) n \<and>
       same_key (h2, tb1) = same_key (h, tb) \<and>
       fetch (h2, tb1) = (\<lambda>k'. if same_key (h, tb) k' k then Some v else fetch (h, tb) k')"
    by (rule locked_probe[OF assms[unfolded s], where m = "- 1" and k = k]) (rule that)
  from u(3) obtain h2 where h2: "set_slot h1 p (Some v) = Some h2" "trep F (h2, tb1\<lparr>TLock := 0\<rparr>)" "troom (h2, tb1) n"
    "same_key (h2, tb1) = same_key s" "fetch (h2, tb1) = (\<lambda>k'. if same_key s k' k then Some (Some v) else fetch s k')"
    unfolding s by blast
  have "put_table s k v = Some (h2, tb1\<lparr>TLock := 0\<rparr>)"
    using u(1,2) h2(1) assms(1) by (simp add: put_table_def insert_c_def trep_def s)
  then show ?thesis using h2 by (intro exI[of _ "(h2, tb1\<lparr>TLock := 0\<rparr>)"]) simp
qed

lemma del_table_law:
  assumes "trep F s" and "troom s n"
  shows "\<exists>s'. del_table s k = Some (case fetch s k of Some v \<Rightarrow> v | None \<Rightarrow> None, s') \<and> trep F s' \<and> troom s' n \<and>
    same_key s' = same_key s \<and> fetch s' = (\<lambda>k'. if same_key s k' k then None else fetch s k')"
proof -
  obtain h tb where s: "s = (h, tb)" by (cases s)
  from assms(1) obtain t where t: "table_ok h tb t" "TLock tb = 0"
    "\<forall>p n. F p = Some n \<longrightarrow> Cells h p = Some n \<and> p \<notin> at ` set (entries t)" by (auto simp: trep_def tholds_def s)
  have rm: "Count tb + n \<le> max_entries" "TFresh h + n \<le> max_cells" using assms(2) by (simp_all add: troom_def s)
  have r: "key_order (Compare tb)" "sorted_wrt (before (Compare tb)) (entries t)" using t(1) by (auto simp: table_ok_def)
  let ?l = "tb\<lparr>TLock := - 1\<rparr>"
  have okl: "table_ok h ?l t" using t(1) by simp
  note fs = fetch_spec[OF t(1)]
  show ?thesis
  proof (cases "find_key (Compare tb) k (hash_of tb k) (entries t)")
    case None
    have "find_key (Compare ?l) k (hash_of ?l k) (entries t) = None" using None by simp
    from avl_delete_absent[OF okl this] have d: "del_table s k = Some (None, s)"
      using t(2) s same_lock[OF t(2)] by (simp add: del_table_def delete_key_method_def)
    have "fetch s k' = None" if "same_key s k' k" for k'
    proof -
      have "\<forall>e \<in> set (entries t). toward (Compare tb) k' (hash_of tb k') e \<noteq> 0"
        using None that toward_same[OF r(1), of k' "hash_of tb k'" _ k "hash_of tb k"]
          key_order_sym(2)[OF r(1), of k k'] by (auto simp: find_key_None same_key_def s)
      then have "find_key (Compare tb) k' (hash_of tb k') (entries t) = None" by (simp add: find_key_None)
      then show ?thesis using fs[of k'] s by simp
    qed
    then have "fetch s = (\<lambda>k'. if same_key s k' k then None else fetch s k')" by (auto simp: fun_eq_iff)
    moreover have "fetch s k = None" using fs[of k] None s by simp
    ultimately show ?thesis using d assms by auto
  next
    case (Some e)
    have "find_key (Compare ?l) k (hash_of ?l k) (entries t) = Some e" using Some by simp
    from avl_delete_present[OF okl this] obtain h' t' xs ys where
      u: "avl_delete h ?l k (hash_of ?l k) = Some (slot e, h', ?l\<lparr>Root := addr t', Count := Count ?l - 1, Generation := inc32 (Generation ?l)\<rparr>)"
      "table_ok h' (?l\<lparr>Root := addr t', Count := Count ?l - 1, Generation := inc32 (Generation ?l)\<rparr>) t'"
      "entries t = xs @ e # ys" "entries t' = xs @ ys" "TFresh h' = TFresh h"
      "\<forall>p. p \<notin> at ` set (entries t) - {at e} \<longrightarrow> Cells h' p = Cells h p" by blast
    let ?tb = "tb\<lparr>Root := addr t', Count := Count tb - 1, Generation := inc32 (Generation tb)\<rparr>"
    have tb: "?l\<lparr>Root := addr t', Count := Count tb - 1, Generation := inc32 (Generation tb), TLock := 0\<rparr> = ?tb"
      using t(2) by (cases tb) simp
    have d: "del_table s k = Some (slot e, h', ?tb)"
      using t(2) s u(1) tb by (simp add: del_table_def delete_key_method_def split: option.split)
    have okt: "table_ok h' ?tb t'" using u(2) by (simp add: table_ok_def rooted_def)
    have "at ` set (entries t') \<subseteq> at ` set (entries t)" unfolding u(3,4) by auto
    then have "Cells h' p = Some n \<and> p \<notin> at ` set (entries t')" if "F p = Some n" for p n
      using that t(3) u(6) by (metis DiffD1 subsetD)
    then have "trep F (h', ?tb)" using tholdsI[OF okt, of F] t(2) by (simp add: trep_def)
    moreover have "same_key (h', ?tb) = same_key s" by (simp add: same_key_def s fun_eq_iff)
    moreover have "fetch (h', ?tb) k' = (if same_key s k' k then None else fetch s k')" for k'
    proof -
      have e0: "toward (Compare tb) k (hash_of tb k) e = 0" using find_key_Some[OF Some] by simp
      have sk: "toward (Compare tb) k' (hash_of tb k') e = 0 \<longleftrightarrow> same_key s k' k"
        using toward_same[OF r(1) e0, of k' "hash_of tb k'"] by (simp add: same_key_def s)
      show ?thesis
        using fetch_spec[OF okt, of k'] fs[of k'] find_key_middle[OF r(1) r(2)[unfolded u(3)], of k' "hash_of tb k'"] sk
        unfolding u(3,4) s by simp
    qed
    moreover have "fetch s k = Some (slot e)" using fs[of k] Some s by simp
    moreover have "troom (h', ?tb) n" using rm u(5) by (simp add: troom_def)
    ultimately show ?thesis using d by (intro exI[of _ "(h', ?tb)"]) (simp add: fun_eq_iff)
  qed
qed

interpretation tbl: keyed_store "trep F" troom fetch same_key put_table del_table for F
proof
  show "trep F s \<Longrightarrow> troom s (Suc n) \<Longrightarrow> \<exists>s'. put_table s k v = Some s' \<and> trep F s' \<and> troom s' n \<and>
      same_key s' = same_key s \<and> fetch s' = (\<lambda>k'. if same_key s k' k then Some (Some v) else fetch s k')" for s n k v
    by (rule put_table_law)
  show "trep F s \<Longrightarrow> troom s n \<Longrightarrow> \<exists>s'. del_table s k = Some (case fetch s k of Some v \<Rightarrow> v | None \<Rightarrow> None, s') \<and>
      trep F s' \<and> troom s' n \<and> same_key s' = same_key s \<and> fetch s' = (\<lambda>k'. if same_key s k' k then None else fetch s k')"
    for s n k by (rule del_table_law)
  have o: "key_order (Compare tb)" if "trep F (h, tb)" for h tb using that by (auto simp: trep_def tholds_def table_ok_def)
  show "trep F s \<Longrightarrow> same_key s k k" for s k by (cases s) (metis o same_key_equiv(1))
  show "trep F s \<Longrightarrow> same_key s k k' \<Longrightarrow> same_key s k' k" for s k k' by (cases s) (metis o same_key_equiv(2))
  show "trep F s \<Longrightarrow> same_key s k k' \<Longrightarrow> same_key s k' k'' \<Longrightarrow> same_key s k k''" for s k k' k''
    by (cases s) (metis o same_key_equiv(3))
  show "troom s (Suc n) \<Longrightarrow> troom s n" for s n by (cases s) (simp add: troom_def)
qed

section \<open>Two tables to try the operations on\<close>

definition int_compare :: "int \<Rightarrow> int \<Rightarrow> int" where
  "int_compare x y = sgn (x - y)"

lemma int_compare_order: "key_order int_compare"
  unfolding key_order_def int_compare_def by (auto simp: sgn_if)

definition sample_mem :: "(int, int) mem" where
  "sample_mem = \<lparr>Cells = [1 \<mapsto> \<lparr>Left = 2, Right = 3, Key = 2, Slot = Some 20, Hash = 2, Balance = 0\<rparr>,
      2 \<mapsto> \<lparr>Left = 0, Right = 0, Key = 1, Slot = Some 10, Hash = 1, Balance = 0\<rparr>,
      3 \<mapsto> \<lparr>Left = 0, Right = 0, Key = 3, Slot = Some 30, Hash = 3, Balance = 0\<rparr>,
      4 \<mapsto> \<lparr>Left = 0, Right = 5, Key = 2, Slot = Some 21, Hash = 2, Balance = 1\<rparr>,
      5 \<mapsto> \<lparr>Left = 0, Right = 0, Key = 5, Slot = Some 50, Hash = 5, Balance = 0\<rparr>], TFresh = 6\<rparr>"

definition sample_table :: "(int, int) table" where
  "sample_table = \<lparr>Root = 1, Count = 3, Generation = 0, Compare = int_compare, HashFn = id, Default = None, TLock = 0\<rparr>"

definition sample_tree :: "(int, int) entry tree" where
  "sample_tree = Fork (Fork Tip (Entry 2 1 (Some 10) 1) 0 Tip) (Entry 1 2 (Some 20) 2) 0 (Fork Tip (Entry 3 3 (Some 30) 3) 0 Tip)"

definition other_table :: "(int, int) table" where
  "other_table = \<lparr>Root = 4, Count = 2, Generation = 0, Compare = int_compare, HashFn = id, Default = None, TLock = 0\<rparr>"

definition other_tree :: "(int, int) entry tree" where
  "other_tree = Fork Tip (Entry 4 2 (Some 21) 2) 1 (Fork Tip (Entry 5 5 (Some 50) 5) 0 Tip)"

lemma sample_mem_ok: "mem_ok sample_mem"
  by (auto simp: mem_ok_def sample_mem_def max_cells_def split: if_splits)

lemma sample_table_ok: "table_ok sample_mem sample_table sample_tree" "table_ok sample_mem other_table other_tree"
  using sample_mem_ok
  by (simp_all add: table_ok_def rooted_def sample_table_def sample_tree_def other_table_def other_tree_def int_compare_order
      before_def toward_def max_entries_def) (simp_all add: sample_mem_def cell_of_def)

lemma sample_table_simps:
  "TLock sample_table = 0" "TLock other_table = 0" "Compare sample_table = int_compare" "Compare other_table = int_compare"
  "HashFn sample_table = id" "HashFn other_table = id" "Count sample_table = 3" "Count other_table = 2" "TFresh sample_mem = 6"
  "entries sample_tree = [Entry 2 1 (Some 10) 1, Entry 1 2 (Some 20) 2, Entry 3 3 (Some 30) 3]"
  "entries other_tree = [Entry 4 2 (Some 21) 2, Entry 5 5 (Some 50) 5]"
  "Default sample_table = None"
  by (simp_all add: sample_table_def other_table_def sample_mem_def sample_tree_def other_tree_def)

end
