(* ===== verification/TableIter.thy ===== *)
theory TableIter
  imports TableMap
begin

text \<open>
  Traversal of an \<^verbatim>\<open>Agg$Table\<close> in order (\<^verbatim>\<open>dev/src/lib/Agg/Table.c\<close>): \<^verbatim>\<open>avl_t_first\<close>, \<^verbatim>\<open>avl_t_next\<close> and
  \<^verbatim>\<open>trav_refresh\<close>, which finds the place again after the table has changed; and the loop
  \<^verbatim>\<open>for (Node = avl_t_first(..); Node; Node = avl_t_next(..))\<close> that the methods on whole tables share.
\<close>

section \<open>Definitions\<close>

text \<open>
  A traverser: the node it stands on (0 at the end), the nodes above it, innermost first (at most 32), and
  the generation of the table at that time. The field \<^verbatim>\<open>Height\<close> is the length of the stack, the field
  \<^verbatim>\<open>Table\<close> a parameter of the operations.
\<close>

record trav =
  TNode :: ptr
  TStack :: "ptr list"
  TGen :: nat

definition spush :: "ptr \<Rightarrow> ptr list \<Rightarrow> ptr list option" where
  "spush p st = (if length st < 32 then Some (p # st) else None)"

text \<open>\<^verbatim>\<open>while (x->Link[0] != 0) {Trav->Stack[Trav->Height++] = x; x = x->Link[0];}\<close>\<close>

partial_function (option) leftmost :: "('k, 'v) mem \<Rightarrow> ptr list \<Rightarrow> ptr \<Rightarrow> (ptr \<times> ptr list) option" where
  "leftmost h st x = do {
     l \<leftarrow> get_link h x False;
     if l \<noteq> 0 then do { st \<leftarrow> spush x st; leftmost h st l }
     else Some (x, st) }"

definition avl_t_first :: "('k, 'v) mem \<Rightarrow> ('k, 'v) table \<Rightarrow> trav option" where
  "avl_t_first h tb =
     (if Root tb = 0 then Some \<lparr>TNode = 0, TStack = [], TGen = Generation tb\<rparr>
      else do {
        (x, st) \<leftarrow> leftmost h [] (Root tb);
        Some \<lparr>TNode = x, TStack = st, TGen = Generation tb\<rparr> })"

text \<open>\<^verbatim>\<open>while (Trav->Stack[--Trav->Height] != j);\<close> it must not run below the stack.\<close>

fun unwind :: "ptr \<Rightarrow> ptr list \<Rightarrow> (ptr \<times> ptr list) option" where
  "unwind j [] = None"
| "unwind j (p # st) = (if p = j then Some (p, st) else unwind j st)"

text \<open>
  The search for the node \<open>p\<close>, with the key \<open>key\<close> and the hash \<open>hash\<close>, from the node \<open>i\<close> on. \<open>j\<close> is the last
  node from which the search went to the right.
\<close>

partial_function (option) refresh_find ::
  "('k, 'v) mem \<Rightarrow> ('k, 'v) table \<Rightarrow> ptr \<Rightarrow> 'k \<Rightarrow> nat \<Rightarrow> ptr list \<Rightarrow> ptr \<Rightarrow> ptr \<Rightarrow> (ptr \<times> ptr list) option" where
  "refresh_find h tb p key hash st j i =
     (if i = p then Some (p, st)
      else do {
        n \<leftarrow> cell_at h i;
        let d = (0 < steer (Compare tb) key hash n);
        let j = (if d then i else j);
        st' \<leftarrow> spush i st;
        if link d n = 0 then (if d then Some (i, st) else unwind j st')
        else refresh_find h tb p key hash st' j (link d n) })"

definition trav_refresh :: "('k, 'v) mem \<Rightarrow> ('k, 'v) table \<Rightarrow> trav \<Rightarrow> trav option" where
  "trav_refresh h tb tr =
     (if Root tb = 0 then Some (tr\<lparr>TGen := Generation tb, TNode := 0\<rparr>)
      else if TNode tr \<noteq> 0 then do {
        n \<leftarrow> cell_at h (TNode tr);
        (p, st) \<leftarrow> refresh_find h tb (TNode tr) (Key n) (Hash n) [] 0 (Root tb);
        Some \<lparr>TNode = p, TStack = st, TGen = Generation tb\<rparr> }
      else Some (tr\<lparr>TGen := Generation tb\<rparr>))"

text \<open>The way up to the first node that is left to its right child; 0 if there is none.\<close>

fun ascend :: "('k, 'v) mem \<Rightarrow> ptr \<Rightarrow> ptr list \<Rightarrow> (ptr \<times> ptr list) option" where
  "ascend h y [] = Some (0, [])"
| "ascend h y (x # st) = do {
     r \<leftarrow> get_link h x True;
     if y = r then ascend h x st else Some (x, st) }"

text \<open>The result of \<^verbatim>\<open>avl_t_next\<close> is always the node that the traverser stands on afterwards.\<close>

definition avl_t_next :: "('k, 'v) mem \<Rightarrow> ('k, 'v) table \<Rightarrow> trav \<Rightarrow> trav option" where
  "avl_t_next h tb tr = do {
     tr \<leftarrow> (if TGen tr \<noteq> Generation tb then trav_refresh h tb tr else Some tr);
     if TNode tr = 0 then avl_t_first h tb
     else do {
       r \<leftarrow> get_link h (TNode tr) True;
       (x, st) \<leftarrow>
         (if r \<noteq> 0 then do { st \<leftarrow> spush (TNode tr) (TStack tr); leftmost h st r }
          else ascend h (TNode tr) (TStack tr));
       Some (tr\<lparr>TNode := x, TStack := st\<rparr>) } }"

text \<open>
  The loop over a table. The body gets the node and may change the memory, the table and a state of its
  own; it goes on (\<^const>\<open>Inl\<close>) or leaves the loop (\<^const>\<open>Inr\<close>).
\<close>

type_synonym ('k, 'v, 's, 'r) body =
  "('k, 'v) mem \<Rightarrow> ('k, 'v) table \<Rightarrow> 's \<Rightarrow> ptr \<Rightarrow> (('s + 'r) \<times> ('k, 'v) mem \<times> ('k, 'v) table) option"

partial_function (option) each_from ::
  "('k, 'v, 's, 'r) body \<Rightarrow> ('k, 'v) mem \<Rightarrow> ('k, 'v) table \<Rightarrow> 's \<Rightarrow> trav \<Rightarrow>
   (('s + 'r) \<times> ('k, 'v) mem \<times> ('k, 'v) table) option" where
  "each_from body h tb s tr =
     (if TNode tr = 0 then Some (Inl s, h, tb)
      else do {
        (x, h, tb) \<leftarrow> body h tb s (TNode tr);
        case x of
          Inr r \<Rightarrow> Some (Inr r, h, tb)
        | Inl s \<Rightarrow> do { tr \<leftarrow> avl_t_next h tb tr; each_from body h tb s tr } })"

definition each ::
  "('k, 'v, 's, 'r) body \<Rightarrow> ('k, 'v) mem \<Rightarrow> ('k, 'v) table \<Rightarrow> 's \<Rightarrow>
   (('s + 'r) \<times> ('k, 'v) mem \<times> ('k, 'v) table) option" where
  "each body h tb s = do { tr \<leftarrow> avl_t_first h tb; each_from body h tb s tr }"

declare leftmost.simps [code] refresh_find.simps [code] each_from.simps [code]

section \<open>Where a traverser stands\<close>

text \<open>The stack that holds the path \<open>c\<close>, and a traverser between the entries \<open>xs\<close> and \<open>ys\<close>, on \<open>e\<close>.\<close>

definition stack_of :: "('k, 'v) entry path \<Rightarrow> ptr list" where
  "stack_of c = map (\<lambda>f. at (fent f)) c"

definition visits ::
  "('k, 'v) table \<Rightarrow> ('k, 'v) entry tree \<Rightarrow> trav \<Rightarrow> ('k, 'v) entry list \<Rightarrow> ('k, 'v) entry \<Rightarrow> ('k, 'v) entry list \<Rightarrow> bool" where
  "visits tb t tr xs e ys \<longleftrightarrow> (\<exists>c l b r. t = plug (Fork l e b r) c \<and>
     tr = \<lparr>TNode = at e, TStack = stack_of c, TGen = Generation tb\<rparr> \<and>
     xs = lefts c @ entries l \<and> ys = entries r @ rights c)"

lemma stack_of_simps [simp]:
  "stack_of [] = []" "stack_of (f # c) = at (fent f) # stack_of c" "stack_of (c @ c') = stack_of c @ stack_of c'"
  "length (stack_of c) = length c"
  by (simp_all add: stack_of_def)

lemma visits_entries: "visits tb t tr xs e ys \<Longrightarrow> entries t = xs @ e # ys"
  by (auto simp: visits_def)

lemma visits_node: "visits tb t tr xs e ys \<Longrightarrow> TNode tr = at e \<and> TGen tr = Generation tb"
  by (auto simp: visits_def)

lemma height_path: "length c + height t \<le> height (plug t c)"
  using length_up[of "height t" c] by (simp add: height_plug)

lemma leftmost_spec:
  "mem_ok h \<Longrightarrow> tree_at (Cells h) t \<Longrightarrow> t \<noteq> Tip \<Longrightarrow> length c + height t \<le> 33 \<Longrightarrow>
   \<exists>e b r c'. leftmost h (stack_of c) (addr t) = Some (at e, stack_of c') \<and>
     plug (Fork Tip e b r) c' = plug t c \<and> lefts c' = lefts c"
proof (induction t arbitrary: c)
  case (Fork l e b r)
  have n: "get_link h (at e) False = Some (addr l)" using Fork.prems(1,2) by (simp add: get_link_def)
  show ?case
  proof (cases "l = Tip")
    case True
    then show ?thesis using n
      by (subst leftmost.simps) (intro exI[of _ e] exI[of _ b] exI[of _ r] exI[of _ c], simp)
  next
    case False
    then have "addr l \<noteq> 0" using addr_nonnull[of h l] Fork.prems(1,2) by simp
    moreover have "spush (at e) (stack_of c) = Some (stack_of (Frame False e b r # c))"
      using Fork.prems(4) False by (cases l) (auto simp: spush_def)
    moreover obtain e' b' r' c' where u: "leftmost h (stack_of (Frame False e b r # c)) (addr l) = Some (at e', stack_of c')"
      "plug (Fork Tip e' b' r') c' = plug l (Frame False e b r # c)" "lefts c' = lefts (Frame False e b r # c)"
      using Fork.IH(1)[of "Frame False e b r # c"] Fork.prems False by fastforce
    ultimately show ?thesis using n
      by (subst leftmost.simps) (rule exI[of _ e'], rule exI[of _ b'], rule exI[of _ r'], rule exI[of _ c'], simp)
  qed
qed simp

text \<open>The first entry.\<close>

lemma avl_t_first_spec:
  assumes "rooted h tb t" and "height t \<le> 33"
  shows "entries t = [] \<Longrightarrow> avl_t_first h tb = Some \<lparr>TNode = 0, TStack = [], TGen = Generation tb\<rparr>"
    and "entries t = e # ys \<Longrightarrow> \<exists>tr. avl_t_first h tb = Some tr \<and> visits tb t tr [] e ys"
proof -
  have r: "mem_ok h" "tree_at (Cells h) t" "Root tb = addr t" using assms(1) by (auto simp: rooted_def)
  show "entries t = [] \<Longrightarrow> avl_t_first h tb = Some \<lparr>TNode = 0, TStack = [], TGen = Generation tb\<rparr>"
    using r by (simp add: avl_t_first_def)
  assume e: "entries t = e # ys"
  then have "t \<noteq> Tip" by auto
  then obtain e' b q c' where u: "leftmost h [] (addr t) = Some (at e', stack_of c')"
    "plug (Fork Tip e' b q) c' = t" "lefts c' = []"
    using leftmost_spec[OF r(1,2), of "[]"] assms(2) by auto
  have "entries t = e' # entries q @ rights c'" unfolding u(2)[symmetric] using u(3) by simp
  then have ee: "e' = e" "entries q @ rights c' = ys" using e by simp_all
  have "addr t \<noteq> 0" using addr_nonnull[OF r(1,2)] \<open>t \<noteq> Tip\<close> by simp
  then have "avl_t_first h tb = Some \<lparr>TNode = at e, TStack = stack_of c', TGen = Generation tb\<rparr>"
    using u(1) ee(1) r(3) by (simp add: avl_t_first_def)
  moreover have "visits tb t \<lparr>TNode = at e, TStack = stack_of c', TGen = Generation tb\<rparr> [] e ys"
    unfolding visits_def using u(2,3) ee
    by (intro exI[of _ c'] exI[of _ Tip] exI[of _ b] exI[of _ q]) simp
  ultimately show "\<exists>tr. avl_t_first h tb = Some tr \<and> visits tb t tr [] e ys" by blast
qed

text \<open>The way up from a subtree that has been visited.\<close>

lemma ascend_spec:
  assumes "mem_ok h" and "path_at (Cells h) (addr s) c" and "addr s \<noteq> 0"
    and "distinct (map at (lefts c @ entries s @ rights c))"
  shows "\<exists>x c'. ascend h (addr s) (stack_of c) = Some (x, stack_of c') \<and>
    (rights c = [] \<longrightarrow> x = 0) \<and>
    (\<forall>e ys. rights c = e # ys \<longrightarrow> x = at e \<and> (\<exists>l b r. plug (Fork l e b r) c' = plug s c \<and>
       lefts c' @ entries l = lefts c @ entries s \<and> entries r @ rights c' = ys))"
  using assms(2-)
proof (induction c arbitrary: s)
  case Nil
  then show ?case by (intro exI[of _ 0] exI[of _ "[]"]) simp
next
  case (Cons f c)
  have n: "get_link h (at (fent f)) True = Some (if fdir f then addr s else addr (fsib f))"
    using assms(1) Cons.prems(1) by (simp add: get_link_def split: if_splits)
  show ?case
  proof (cases "fdir f")
    case True
    have "plug s (f # c) = plug (graft f s) c" by simp
    moreover have "entries (graft f s) = entries (fsib f) @ fent f # entries s" using True by (simp add: graft_def br_def)
    moreover have "path_at (Cells h) (addr (graft f s)) c" using Cons.prems(1) by simp
    moreover have "addr (graft f s) \<noteq> 0" using mem_ok_dom[OF assms(1)] Cons.prems(1) by auto
    ultimately show ?thesis using Cons.IH[of "graft f s"] Cons.prems(3) n True by (auto simp: lefts.simps)
  next
    case False
    have s: "s \<noteq> Tip" using Cons.prems(2) by auto
    have "addr (fsib f) \<noteq> addr s"
    proof (cases "fsib f = Tip")
      case True
      then show ?thesis using Cons.prems(2) by simp
    next
      case ne: False
      have "addr s \<in> at ` set (entries s)" "addr (fsib f) \<in> at ` set (rights (f # c))"
        using addr_in[OF s] addr_in[OF ne] False by auto
      then show ?thesis using Cons.prems(3) by auto
    qed
    then have a: "ascend h (addr s) (stack_of (f # c)) = Some (at (fent f), stack_of c)" using n False by simp
    have "plug (Fork s (fent f) (fbal f) (fsib f)) c = plug s (f # c)" using False by (simp add: graft_def)
    then show ?thesis using a False
      by (intro exI[of _ "at (fent f)"] exI[of _ c]) (simp, rule exI[of _ s], rule exI[of _ "fbal f"], rule exI[of _ "fsib f"], simp)
  qed
qed

text \<open>The next entry, in a table that has not changed since.\<close>

lemma avl_t_next_spec:
  assumes "rooted h tb t" and "height t \<le> 32" and "visits tb t tr xs e ys"
  shows "ys = [] \<Longrightarrow> \<exists>tr'. avl_t_next h tb tr = Some tr' \<and> TNode tr' = 0"
    and "ys = e' # zs \<Longrightarrow> \<exists>tr'. avl_t_next h tb tr = Some tr' \<and> visits tb t tr' (xs @ [e]) e' zs"
proof -
  have r: "mem_ok h" "tree_at (Cells h) t" "distinct (map at (entries t))" using assms(1) by (auto simp: rooted_def)
  from assms(3) obtain c l b q where v: "t = plug (Fork l e b q) c" "tr = \<lparr>TNode = at e, TStack = stack_of c, TGen = Generation tb\<rparr>"
    "xs = lefts c @ entries l" "ys = entries q @ rights c" by (auto simp: visits_def)
  have p: "tree_at (Cells h) (Fork l e b q)" "path_at (Cells h) (at e) c" using r(2) unfolding v(1) by simp_all
  have n: "get_link h (at e) True = Some (addr q)" "at e \<noteq> 0" using p(1) r(1) mem_ok_dom[OF r(1)] by (auto simp: get_link_def)
  have ht: "length c + Suc (max (height l) (height q)) \<le> 32" using height_path[of c "Fork l e b q"] assms(2) v(1) by simp
  show "\<exists>tr'. avl_t_next h tb tr = Some tr' \<and> TNode tr' = 0" if ys: "ys = []"
  proof -
    have a: "\<exists>st. ascend h (at e) (stack_of c) = Some (0, st)"
      using ascend_spec[OF r(1), of "Fork l e b q" c] p(2) n(2) r(3) ys v(1,4) by auto
    then show ?thesis using n ys v(2,4) by (auto simp: avl_t_next_def)
  qed
  assume ys: "ys = e' # zs"
  show "\<exists>tr'. avl_t_next h tb tr = Some tr' \<and> visits tb t tr' (xs @ [e]) e' zs"
  proof (cases "q = Tip")
    case True
    have "distinct (map at (lefts c @ entries (Fork l e b q) @ rights c))" using r(3) unfolding v(1) by simp
    from ascend_spec[OF r(1) _ _ this] p(2) n(2) obtain x c' where
      a0: "ascend h (at e) (stack_of c) = Some (x, stack_of c')"
      "\<forall>e1 ys. rights c = e1 # ys \<longrightarrow> x = at e1 \<and> (\<exists>l' b' r'. plug (Fork l' e1 b' r') c' = plug (Fork l e b q) c \<and>
         lefts c' @ entries l' = lefts c @ entries (Fork l e b q) \<and> entries r' @ rights c' = ys)"
      unfolding addr.simps by blast
    have "rights c = e' # zs" using ys v(4) True by simp
    with a0(2) obtain l' b' r' where "x = at e'" and a1: "plug (Fork l' e' b' r') c' = t"
       "lefts c' @ entries l' = lefts c @ entries (Fork l e b q)" "entries r' @ rights c' = zs" unfolding v(1) by blast
    note a = a0(1)[unfolded this(1)] a1
    have "avl_t_next h tb tr = Some \<lparr>TNode = at e', TStack = stack_of c', TGen = Generation tb\<rparr>"
      using a(1) n True v(2) by (simp add: avl_t_next_def)
    moreover have "visits tb t \<lparr>TNode = at e', TStack = stack_of c', TGen = Generation tb\<rparr> (xs @ [e]) e' zs"
      unfolding visits_def using a(2-4) True v(3)
      by - (rule exI[of _ c'], rule exI[of _ l'], rule exI[of _ b'], rule exI[of _ r'], simp)
    ultimately show ?thesis by blast
  next
    case False
    let ?c = "Frame True e b l # c"
    have "addr q \<noteq> 0" using addr_nonnull[OF r(1)] p(1) False by simp
    have sp: "spush (at e) (stack_of c) = Some (stack_of ?c)" using ht by (simp add: spush_def)
    from leftmost_spec[OF r(1) _ False, of ?c] p(1) ht obtain e1 b1 r1 c1 where
      u: "leftmost h (stack_of ?c) (addr q) = Some (at e1, stack_of c1)" "plug (Fork Tip e1 b1 r1) c1 = plug q ?c"
      "lefts c1 = lefts ?c" by fastforce
    have t: "t = plug (Fork Tip e1 b1 r1) c1" using u(2) v(1) by simp
    have "entries t = lefts c1 @ e1 # entries r1 @ rights c1" unfolding t by simp
    then have ee: "e1 = e'" "entries r1 @ rights c1 = zs" using u(3) ys v by simp_all
    have "avl_t_next h tb tr = Some \<lparr>TNode = at e', TStack = stack_of c1, TGen = Generation tb\<rparr>"
      using u(1) n \<open>addr q \<noteq> 0\<close> v(2) sp ee by (simp add: avl_t_next_def)
    moreover have "visits tb t \<lparr>TNode = at e', TStack = stack_of c1, TGen = Generation tb\<rparr> (xs @ [e]) e' zs"
      unfolding visits_def using t u(3) ee v(3)
      by (intro exI[of _ c1] exI[of _ Tip] exI[of _ b1] exI[of _ r1]) simp
    ultimately show ?thesis by blast
  qed
qed

text \<open>
  A traverser finds its place again in a changed table. If its node is still there, that is its place;
  if not, it goes to the entry before, and if there is none, the code reads below its stack.
\<close>

lemma unwind_spec:
  assumes "at e \<noteq> 0" and "\<forall>f \<in> set c. at (fent f) \<noteq> at e"
  shows "unwind (at e) (stack_of c @ at e # st) = Some (at e, st)"
  using assms(2) by (induction c) auto

lemma unwind_none: "\<forall>f \<in> set c. at (fent f) \<noteq> j \<Longrightarrow> unwind j (stack_of c) = None"
  by (induction c) auto

definition last_right :: "('k, 'v) entry path \<Rightarrow> ptr" where
  "last_right c = (case dropWhile (\<lambda>f. \<not> fdir f) c of [] \<Rightarrow> 0 | f # _ \<Rightarrow> at (fent f))"

lemma last_right_simps [simp]:
  "last_right [] = 0" "last_right (f # c) = (if fdir f then at (fent f) else last_right c)"
  by (simp_all add: last_right_def)

lemma refresh_find_spec:
  assumes "mem_ok h" and "at n \<noteq> 0"
  shows "tree_at (Cells h) t \<Longrightarrow> t \<noteq> Tip \<Longrightarrow> length c + height t \<le> 32 \<Longrightarrow>
    descend (toward (Compare tb) (ekey n) (ehash n)) t c = (t', c') \<Longrightarrow>
    \<forall>e \<in> set (entries t). toward (Compare tb) (ekey n) (ehash n) e = 0 \<longleftrightarrow> at e = at n \<Longrightarrow>
    refresh_find h tb (at n) (ekey n) (ehash n) (stack_of c) (last_right c) (addr t) =
      (case t' of Fork l e b r \<Rightarrow> Some (at n, stack_of c')
       | Tip \<Rightarrow> if pdir c' then Some (parent c', List.tl (stack_of c')) else unwind (last_right c') (stack_of c'))"
proof (induction t arbitrary: c)
  case (Fork l e b r)
  let ?f = "toward (Compare tb) (ekey n) (ehash n)"
  have n: "cell_at h (at e) = Some (cell_of e (addr l) (addr r) b)" "at e \<noteq> 0"
    using Fork.prems(1) assms(1) mem_ok_dom[OF assms(1)] by auto
  have hit: "?f e = 0 \<longleftrightarrow> at e = at n" using Fork.prems(5) by simp
  have sp: "spush (at e) (stack_of c) = Some (at e # stack_of c)" using Fork.prems(3) by (simp add: spush_def)
  have nul: "addr l = 0 \<longleftrightarrow> l = Tip" "addr r = 0 \<longleftrightarrow> r = Tip" using addr_nonnull[OF assms(1)] Fork.prems(1) by simp_all
  consider (eq) "?f e = 0" | (lt) "?f e < 0" | (gt) "0 < ?f e" by linarith
  then show ?case
  proof cases
    case eq
    then show ?thesis using Fork.prems(4) hit by (subst refresh_find.simps) auto
  next
    case lt
    have d: "descend ?f l (Frame False e b r # c) = (t', c')" using Fork.prems(4) lt by simp
    show ?thesis
    proof (cases "l = Tip")
      case True
      then show ?thesis using n sp nul hit lt d by (subst refresh_find.simps) (auto simp: Let_def)
    next
      case False
      note IH = Fork.IH(1)[of "Frame False e b r # c"]
      show ?thesis using IH[OF _ False _ d] Fork.prems(1,3,5) n sp nul hit lt False
        by (subst refresh_find.simps) (simp add: Let_def)
    qed
  next
    case gt
    have d: "descend ?f r (Frame True e b l # c) = (t', c')" using Fork.prems(4) gt by simp
    show ?thesis
    proof (cases "r = Tip")
      case True
      then show ?thesis using n sp nul hit gt d by (subst refresh_find.simps) (auto simp: Let_def)
    next
      case False
      note IH = Fork.IH(2)[of "Frame True e b l # c"]
      show ?thesis using IH[OF _ False _ d] Fork.prems(1,3,5) n sp nul hit gt False
        by (subst refresh_find.simps) (simp add: Let_def)
    qed
  qed
qed simp

lemma avl_t_next_refresh:
  assumes "TGen tr \<noteq> Generation tb" and "trav_refresh h tb tr = Some tr'" and "TGen tr' = Generation tb"
  shows "avl_t_next h tb tr = avl_t_next h tb tr'"
  using assms by (simp add: avl_t_next_def)

lemma lefts_last:
  "lefts c \<noteq> [] \<Longrightarrow> \<exists>p f c'. c = p @ f # c' \<and> fdir f \<and> (\<forall>g \<in> set p. \<not> fdir g)"
proof (induction c)
  case (Cons f c)
  show ?case
  proof (cases "fdir f")
    case True
    then show ?thesis by (intro exI[of _ "[]"]) auto
  next
    case False
    then obtain p g c' where "c = p @ g # c'" "fdir g" "\<forall>g \<in> set p. \<not> fdir g" using Cons by auto
    then show ?thesis using False by (intro exI[of _ "f # p"] exI[of _ g] exI[of _ c']) auto
  qed
qed simp

lemma lefts_none: "lefts c = [] \<longleftrightarrow> (\<forall>f \<in> set c. \<not> fdir f)"
  by (induction c) auto

lemma trav_refresh_absent:
  assumes ok: "rooted h tb t" "t = plug Tip c" and ht: "height t \<le> 31"
    and d: "descend (toward (Compare tb) (ekey n) (ehash n)) t [] = (Tip, c)"
    and n: "cell_at h (at n) = Some m" "Key m = ekey n" "Hash m = ehash n" "TNode tr = at n"
    and no: "\<forall>e \<in> set (entries t). toward (Compare tb) (ekey n) (ehash n) e \<noteq> 0 \<and> at e \<noteq> at n" and c0: "c \<noteq> []"
  shows "lefts c = [] \<Longrightarrow> trav_refresh h tb tr = None"
    and "lefts c = xs @ [e] \<Longrightarrow> \<exists>tr'. trav_refresh h tb tr = Some tr' \<and> visits tb t tr' xs e (rights c)"
proof -
  have r: "mem_ok h" "tree_at (Cells h) t" "Root tb = addr t" "distinct (map at (lefts c @ rights c))"
    using ok(1) unfolding rooted_def ok(2) by simp_all
  have tip: "t \<noteq> Tip"
  proof
    assume "t = Tip"
    then have "c = []" using d by simp
    then show False using c0 by simp
  qed
  have n0: "at n \<noteq> 0" using n(1) by (auto simp: cell_at_def split: if_splits)
  have root: "Root tb \<noteq> 0" using addr_nonnull[OF r(1,2)] tip r(3) by simp
  have fr: "at (fent f) \<noteq> 0 \<and> (fent f) \<in> set (entries t)" if "f \<in> set c" for f
  proof -
    have "fent f \<in> set (lefts c @ rights c)" using that by (induction c) auto
    then have "fent f \<in> set (entries t)" unfolding ok(2) by simp
    then show ?thesis using tree_at_nonnull[OF r(1,2)] by auto
  qed
  have f: "refresh_find h tb (at n) (ekey n) (ehash n) [] 0 (Root tb) =
      (if pdir c then Some (parent c, List.tl (stack_of c)) else unwind (last_right c) (stack_of c))"
    using refresh_find_spec[OF r(1) n0 r(2) tip _ d] ht no r(3) by simp
  have rf: "trav_refresh h tb tr = (case refresh_find h tb (at n) (ekey n) (ehash n) [] 0 (Root tb) of
      None \<Rightarrow> None | Some (p, st) \<Rightarrow> Some \<lparr>TNode = p, TStack = st, TGen = Generation tb\<rparr>)"
    using root n0 n by (simp add: trav_refresh_def split: option.splits prod.splits)
  show "lefts c = [] \<Longrightarrow> trav_refresh h tb tr = None"
  proof -
    assume "lefts c = []"
    then have nd: "\<forall>f \<in> set c. \<not> fdir f" by (simp add: lefts_none)
    then have "last_right c = 0" by (induction c) auto
    moreover have "\<not> pdir c" using nd by (cases c) auto
    ultimately have "last_right c = 0" "\<not> pdir c" by simp_all
    then show ?thesis using rf f unwind_none[of c 0] fr by simp
  qed
  assume l: "lefts c = xs @ [e]"
  then have "lefts c \<noteq> []" by simp
  from lefts_last[OF this] obtain p g c' where c: "c = p @ g # c'" "fdir g" "\<forall>f \<in> set p. \<not> fdir f" by blast
  have lp: "lefts p = []" using c(3) by (simp add: lefts_none)
  have e: "e = fent g" "xs = lefts c' @ entries (fsib g)" using l c lp by auto
  have "unwind (last_right c) (stack_of c) = Some (at e, stack_of c')" if "p \<noteq> []"
  proof -
    have "last_right c = at e" using c(2,3) e(1) unfolding c(1) by (induction p) auto
    moreover have "\<forall>f \<in> set p. at (fent f) \<noteq> at e"
    proof
      fix f assume f: "f \<in> set p"
      then have "at (fent f) \<in> on_path p" by (induction p) auto
      moreover have "at e \<notin> on_path p"
        using r(4) c(2) e(1) unfolding c(1) on_path_def by auto
      ultimately show "at (fent f) \<noteq> at e" by metis
    qed
    ultimately show ?thesis using unwind_spec[of e p "stack_of c'"] fr[of g] e(1) unfolding c(1) by auto
  qed
  then have "trav_refresh h tb tr = Some \<lparr>TNode = at e, TStack = stack_of c', TGen = Generation tb\<rparr>"
    using rf f c e(1) by (cases p) (auto split: if_splits)
  moreover have "t = plug (Fork (fsib g) e (fbal g) (plug Tip p)) c'" using c(2) e(1) unfolding ok(2) c(1) by (simp add: graft_def)
  then have "visits tb t \<lparr>TNode = at e, TStack = stack_of c', TGen = Generation tb\<rparr> xs e (rights c)"
    unfolding visits_def using c e lp
    by - (rule exI[of _ c'], rule exI[of _ "fsib g"], rule exI[of _ "fbal g"], rule exI[of _ "plug Tip p"], simp)
  ultimately show "\<exists>tr'. trav_refresh h tb tr = Some tr' \<and> visits tb t tr' xs e (rights c)" by blast
qed

lemma split_by_sign:
  fixes f :: "'e \<Rightarrow> int"
  assumes "es = xs @ ys" and "\<forall>x \<in> set xs. 0 \<le> f x" and "\<forall>y \<in> set ys. f y < 0"
  shows "xs = filter (\<lambda>e. 0 \<le> f e) es \<and> ys = filter (\<lambda>e. f e < 0) es"
proof -
  have "filter (\<lambda>e. 0 \<le> f e) xs = xs" "filter (\<lambda>e. f e < 0) ys = ys" using assms(2,3) by (auto intro: filter_True)
  moreover have "filter (\<lambda>e. 0 \<le> f e) ys = []" "filter (\<lambda>e. f e < 0) xs = []"
    using assms(2,3) by (auto intro!: filter_False simp: not_le not_less)
  ultimately show ?thesis unfolding assms(1) by simp
qed

text \<open>
  The step to the next entry after a change of the table: to the first entry behind the one that the
  traverser stood on, provided that some entry is not behind it.
\<close>

lemma avl_t_next_changed:
  assumes ok: "table_ok h tb t" and gen: "TGen tr \<noteq> Generation tb"
    and n: "cell_at h (at n) = Some m" "Key m = ekey n" "Hash m = ehash n" "TNode tr = at n"
    and tie: "\<forall>e \<in> set (entries t). toward (Compare tb) (ekey n) (ehash n) e = 0 \<longrightarrow> at e = at n"
    and es: "entries t = xs @ ys" "\<forall>x \<in> set xs. 0 \<le> toward (Compare tb) (ekey n) (ehash n) x"
      "\<forall>y \<in> set ys. toward (Compare tb) (ekey n) (ehash n) y < 0"
  shows "xs = [] \<Longrightarrow> ys \<noteq> [] \<Longrightarrow> avl_t_next h tb tr = None"
    and "xs \<noteq> [] \<or> ys = [] \<Longrightarrow> ys = [] \<Longrightarrow> \<exists>tr'. avl_t_next h tb tr = Some tr' \<and> TNode tr' = 0"
    and "xs \<noteq> [] \<Longrightarrow> ys = e # zs \<Longrightarrow> \<exists>tr'. avl_t_next h tb tr = Some tr' \<and> visits tb t tr' xs e zs"
proof -
  let ?f = "toward (Compare tb) (ekey n) (ehash n)"
  have r: "rooted h tb t" "mem_ok h" "tree_at (Cells h) t" "Root tb = addr t" "key_order (Compare tb)"
    "sorted_wrt (before (Compare tb)) (entries t)" "height t \<le> 31"
    using ok table_ok_height[OF ok] by (auto simp: table_ok_def rooted_def)
  have cmp0: "Compare tb x x = 0" for x using key_order_sym(1)[OF r(5), of x x] by linarith
  have own: "ekey e = ekey n \<and> ehash e = ehash n" if "e \<in> set (entries t)" "at e = at n" for e
  proof -
    have "\<exists>l q b. Cells h (at e) = Some (cell_of e l q b)" using r(3) that(1) by (induction t) auto
    then show ?thesis using that(2) n(1-3) r(2) by auto
  qed
  then have "?f e = 0" if "e \<in> set (entries t)" "at e = at n" for e using that cmp0[of "ekey n"] by (simp add: toward_zero)
  then have tie2: "\<forall>e \<in> set (entries t). ?f e = 0 \<longleftrightarrow> at e = at n" using tie by blast
  obtain t' c where d: "descend ?f t [] = (t', c)" by (cases "descend ?f t []")
  have t: "t = plug t' c" using descend_plug[OF d] by simp
  have sides: "lefts c = xs \<and> rights c = ys \<and> (\<forall>e \<in> set (entries t). ?f e \<noteq> 0)" if "t' = Tip"
  proof -
    from descend_find(1)[OF r(5,6) d that] have s: "entries t = lefts c @ rights c"
      "\<forall>e \<in> set (lefts c). 0 < ?f e" "\<forall>e \<in> set (rights c). ?f e < 0" by blast+
    have "\<forall>e \<in> set (lefts c). 0 \<le> ?f e" using s(2) by (blast intro: less_imp_le)
    then have "lefts c = xs \<and> rights c = ys" using split_by_sign[OF es] split_by_sign[OF s(1) _ s(3)] by simp
    moreover have "\<forall>e \<in> set (entries t). ?f e \<noteq> 0" unfolding s(1) using s(2,3) by fastforce
    ultimately show ?thesis by blast
  qed
  have pos: "\<exists>tr' xs' e. trav_refresh h tb tr = Some tr' \<and> visits tb t tr' xs' e ys \<and> xs = xs' @ [e]" if "xs \<noteq> []"
  proof (cases t')
    case Tip
    have c0: "c \<noteq> []" using sides[OF Tip] that by (cases c) auto
    obtain xs' e where x: "xs = xs' @ [e]" using \<open>xs \<noteq> []\<close> by (cases xs rule: rev_cases) auto
    have no: "\<forall>e \<in> set (entries t). ?f e \<noteq> 0 \<and> at e \<noteq> at n" using sides[OF Tip] tie2 by blast
    from trav_refresh_absent(2)[OF r(1) t[unfolded Tip] r(7) d[unfolded Tip] n no c0] sides[OF Tip] x
    show ?thesis by fastforce
  next
    case (Fork l e b q)
    have tip: "t \<noteq> Tip" using d Fork by auto
    have e: "e \<in> set (entries t)" "?f e = 0" using descend_key[of ?f t "[]"] d Fork unfolding t by auto
    then have ae: "at e = at n" using tie2 by blast
    have n0: "at n \<noteq> 0" using n(1) by (auto simp: cell_at_def split: if_splits)
    have "Root tb \<noteq> 0" using addr_nonnull[OF r(2,3)] tip r(4) by simp
    then have "trav_refresh h tb tr = Some \<lparr>TNode = at e, TStack = stack_of c, TGen = Generation tb\<rparr>"
      using refresh_find_spec[OF r(2) n0 r(3) tip _ d tie2] Fork n n0 r(4,7) ae
      by (simp add: trav_refresh_def)
    moreover have "visits tb t \<lparr>TNode = at e, TStack = stack_of c, TGen = Generation tb\<rparr>
        (lefts c @ entries l) e (entries q @ rights c)"
      unfolding visits_def using t Fork by blast
    moreover have "entries t = (lefts c @ entries l) @ e # entries q @ rights c" unfolding t Fork by simp
    then have "xs = (lefts c @ entries l) @ [e] \<and> ys = entries q @ rights c"
    proof -
      assume en: "entries t = (lefts c @ entries l) @ e # entries q @ rights c"
      have "sorted_wrt (before (Compare tb)) ((lefts c @ entries l) @ e # entries q @ rights c)" using r(6) unfolding en .
      then have b: "\<forall>x \<in> set (lefts c @ entries l). before (Compare tb) x e" "\<forall>y \<in> set (entries q @ rights c). before (Compare tb) e y"
        unfolding sorted_wrt_append by auto
      have "0 \<le> ?f x" if "x \<in> set (lefts c @ entries l)" for x
        using toward_before(1)[OF r(5) bspec[OF b(1) that], of "ekey n" "ehash n"] e(2) by simp
      moreover have "?f y < 0" if "y \<in> set (entries q @ rights c)" for y
        using toward_before(2)[OF r(5) bspec[OF b(2) that], of "ekey n" "ehash n"] e(2) by simp
      ultimately have s: "\<forall>x \<in> set ((lefts c @ entries l) @ [e]). 0 \<le> ?f x" "\<forall>y \<in> set (entries q @ rights c). ?f y < 0"
        using e(2) by auto
      have "entries t = ((lefts c @ entries l) @ [e]) @ entries q @ rights c" using en by simp
      from split_by_sign[OF this s] split_by_sign[OF es] show ?thesis by simp
    qed
    ultimately show ?thesis by metis
  qed
  have g: "TGen tr' = Generation tb" if "visits tb t tr' xs' e' ys'" for tr' xs' e' ys' using visits_node[OF that] by simp
  show "avl_t_next h tb tr = None" if "xs = []" "ys \<noteq> []"
  proof (cases t')
    case Tip
    have c0: "c \<noteq> []" using sides[OF Tip] that by (cases c) auto
    have no: "\<forall>e \<in> set (entries t). ?f e \<noteq> 0 \<and> at e \<noteq> at n" using sides[OF Tip] tie2 by blast
    from trav_refresh_absent(1)[OF r(1) t[unfolded Tip] r(7) d[unfolded Tip] n no c0] sides[OF Tip] that
    show ?thesis using gen by (simp add: avl_t_next_def)
  next
    case (Fork l e b q)
    then have "e \<in> set (entries t)" "?f e = 0" using descend_key[of ?f t "[]"] d unfolding t by auto
    then have "e \<in> set ys" using es(1) that(1) by simp
    then show ?thesis using es(3) \<open>?f e = 0\<close> by fastforce
  qed
  show "\<exists>tr'. avl_t_next h tb tr = Some tr' \<and> TNode tr' = 0" if "xs \<noteq> [] \<or> ys = []" "ys = []"
  proof (cases "xs = []")
    case True
    then have "Root tb = 0" using es(1) that r(4) by simp
    then show ?thesis using gen by (simp add: avl_t_next_def trav_refresh_def avl_t_first_def)
  next
    case False
    from pos[OF False] obtain tr' xs' e where u: "trav_refresh h tb tr = Some tr'" "visits tb t tr' xs' e ys" by blast
    show ?thesis unfolding avl_t_next_refresh[OF gen u(1) g[OF u(2)]]
      by (rule avl_t_next_spec(1)[OF r(1) _ u(2) that(2)]) (use r(7) in simp)
  qed
  assume "xs \<noteq> []" and ys: "ys = e # zs"
  from pos[OF this(1)] obtain tr' xs' e' where u: "trav_refresh h tb tr = Some tr'" "visits tb t tr' xs' e' ys" "xs = xs' @ [e']" by blast
  show "\<exists>tr'. avl_t_next h tb tr = Some tr' \<and> visits tb t tr' xs e zs"
    unfolding avl_t_next_refresh[OF gen u(1) g[OF u(2)]] u(3)
    by (rule avl_t_next_spec(2)[OF r(1) _ u(2) ys]) (use r(7) in simp)
qed

section \<open>The loop over all entries\<close>

lemma addr_map_tree: "(\<And>e. at (f e) = at e) \<Longrightarrow> addr (map_tree f t) = addr t"
  by (cases t) auto

text \<open>A traverser is not disturbed by assignments to the values.\<close>

definition map_frame :: "('e \<Rightarrow> 'e) \<Rightarrow> 'e frame \<Rightarrow> 'e frame" where
  "map_frame f g = Frame (fdir g) (f (fent g)) (fbal g) (map_tree f (fsib g))"

lemma map_tree_plug: "map_tree f (plug t c) = plug (map_tree f t) (map (map_frame f) c)"
  by (induction c arbitrary: t) (auto simp: map_frame_def graft_def br_def)

lemma lefts_map_frame [simp]: "lefts (map (map_frame f) c) = map f (lefts c)" "rights (map (map_frame f) c) = map f (rights c)"
  by (induction c) (auto simp: map_frame_def)

lemma stack_of_map_frame: "(\<And>e. at (f e) = at e) \<Longrightarrow> stack_of (map (map_frame f) c) = stack_of c"
  by (simp add: stack_of_def map_frame_def)

lemma visits_map:
  assumes "visits tb t tr xs e ys" and "\<And>e. at (f e) = at e"
  shows "visits tb (map_tree f t) tr (map f xs) (f e) (map f ys)"
proof -
  from assms(1) obtain c l b r where "t = plug (Fork l e b r) c"
    "tr = \<lparr>TNode = at e, TStack = stack_of c, TGen = Generation tb\<rparr>" "xs = lefts c @ entries l" "ys = entries r @ rights c"
    by (auto simp: visits_def)
  then show ?thesis unfolding visits_def using assms(2)
    by - (rule exI[of _ "map (map_frame f) c"], rule exI[of _ "map_tree f l"], rule exI[of _ b], rule exI[of _ "map_tree f r"],
        simp add: map_tree_plug stack_of_map_frame)
qed

text \<open>
  The rule for loops that leave the table alone except for values: \<open>J h t s xs ys\<close> is the invariant before
  the rest \<open>ys\<close> of the entries, \<open>Q h r xs e ys\<close> holds when the body leaves the loop at \<open>e\<close>.
\<close>

lemma each_from_rule:
  assumes step: "\<And>h t s xs e ys. J h t s xs (e # ys) \<Longrightarrow> entries t = xs @ e # ys \<Longrightarrow>
      (\<exists>h' s' f. body h tb s (at e) = Some (Inl s', h', tb) \<and> (\<forall>e. at (f e) = at e) \<and>
         J h' (map_tree f t) s' (map f (xs @ [e])) (map f ys)) \<or>
      (\<exists>h' r. body h tb s (at e) = Some (Inr r, h', tb) \<and> Q h' r xs e ys)"
    and tree: "\<And>h t s xs ys. J h t s xs ys \<Longrightarrow> rooted h tb t \<and> height t \<le> 32"
  shows "visits tb t tr xs e ys \<Longrightarrow> J h t s xs (e # ys) \<Longrightarrow>
    (\<exists>h' t' s'. each_from body h tb s tr = Some (Inl s', h', tb) \<and> J h' t' s' (entries t') []) \<or>
    (\<exists>h' r xs e ys. each_from body h tb s tr = Some (Inr r, h', tb) \<and> Q h' r xs e ys)"
proof (induction "length ys" arbitrary: h t s tr xs e ys)
  case (0 ys h t s tr xs e)
  then have v: "visits tb t tr xs e []" "J h t s xs [e]" by simp_all
  have n: "TNode tr = at e" "at e \<noteq> 0"
    using visits_node[OF v(1)] visits_entries[OF v(1)] tree[OF v(2)] entry_nonnull[of h tb t e] by auto
  from step[OF v(2) visits_entries[OF v(1)]] show ?case
  proof (elim disjE exE conjE)
    fix h' s' f assume b: "body h tb s (at e) = Some (Inl s', h', tb)" "\<forall>e. at (f e) = at e"
      "J h' (map_tree f t) s' (map f (xs @ [e])) (map f [])"
    from visits_map[OF v(1), of f] b(2) have w: "visits tb (map_tree f t) tr (map f xs) (f e) []" by simp
    from avl_t_next_spec(1)[OF _ _ w] tree[OF b(3)] obtain tr' where "avl_t_next h' tb tr = Some tr'" "TNode tr' = 0" by auto
    then have "each_from body h tb s tr = Some (Inl s', h', tb)"
      using b(1) n by (subst each_from.simps) (simp, subst each_from.simps, simp)
    moreover have "J h' (map_tree f t) s' (entries (map_tree f t)) []" using b(3) visits_entries[OF v(1)] by simp
    ultimately show ?thesis by blast
  next
    fix h' r assume b: "body h tb s (at e) = Some (Inr r, h', tb)" "Q h' r xs e []"
    then have "each_from body h tb s tr = Some (Inr r, h', tb)" using n by (subst each_from.simps) simp
    then show ?thesis using b(2) by blast
  qed
next
  case (Suc k ys h t s tr xs e)
  obtain e2 zs where ys: "ys = e2 # zs" "length zs = k" using Suc.hyps(2) by (cases ys) auto
  note v = Suc.prems(1)[unfolded ys(1)] Suc.prems(2)[unfolded ys(1)]
  have n: "TNode tr = at e" "at e \<noteq> 0"
    using visits_node[OF v(1)] visits_entries[OF v(1)] tree[OF v(2)] entry_nonnull[of h tb t e] by auto
  from step[OF v(2) visits_entries[OF v(1)]] show ?case
  proof (elim disjE exE conjE)
    fix h' s' f assume b: "body h tb s (at e) = Some (Inl s', h', tb)" "\<forall>e. at (f e) = at e"
      "J h' (map_tree f t) s' (map f (xs @ [e])) (map f (e2 # zs))"
    from visits_map[OF v(1), of f] b(2) have w: "visits tb (map_tree f t) tr (map f xs) (f e) (f e2 # map f zs)" by simp
    from avl_t_next_spec(2)[OF _ _ w] tree[OF b(3)] obtain tr' where
      u: "avl_t_next h' tb tr = Some tr'" "visits tb (map_tree f t) tr' (map f xs @ [f e]) (f e2) (map f zs)" by auto
    have "each_from body h tb s tr = each_from body h' tb s' tr'" using b(1) n u(1) by (subst each_from.simps) simp
    moreover have "k = length (map f zs)" "J h' (map_tree f t) s' (map f xs @ [f e]) (f e2 # map f zs)" using ys b(3) by simp_all
    ultimately show ?thesis using Suc.hyps(1)[of "map f zs" "map_tree f t" tr' "map f xs @ [f e]" "f e2" h' s'] u(2) by simp
  next
    fix h' r assume b: "body h tb s (at e) = Some (Inr r, h', tb)" "Q h' r xs e (e2 # zs)"
    then have "each_from body h tb s tr = Some (Inr r, h', tb)" using n by (subst each_from.simps) simp
    then show ?thesis using b(2) by blast
  qed
qed

lemma each_rule:
  assumes step: "\<And>h t s xs e ys. J h t s xs (e # ys) \<Longrightarrow> entries t = xs @ e # ys \<Longrightarrow>
      (\<exists>h' s' f. body h tb s (at e) = Some (Inl s', h', tb) \<and> (\<forall>e. at (f e) = at e) \<and>
         J h' (map_tree f t) s' (map f (xs @ [e])) (map f ys)) \<or>
      (\<exists>h' r. body h tb s (at e) = Some (Inr r, h', tb) \<and> Q h' r xs e ys)"
    and tree: "\<And>h t s xs ys. J h t s xs ys \<Longrightarrow> rooted h tb t \<and> height t \<le> 32"
    and J: "J h t s [] (entries t)"
  shows "(\<exists>h' t' s'. each body h tb s = Some (Inl s', h', tb) \<and> J h' t' s' (entries t') []) \<or>
    (\<exists>h' r xs e ys. each body h tb s = Some (Inr r, h', tb) \<and> Q h' r xs e ys)"
proof (cases "entries t")
  case Nil
  have "each body h tb s = Some (Inl s, h, tb)"
    using avl_t_first_spec(1)[of h tb t] tree[OF J] Nil by (simp add: each_def each_from.simps)
  then show ?thesis using J Nil by (metis)
next
  case (Cons e ys)
  from avl_t_first_spec(2)[of h tb t e ys] tree[OF J] Cons obtain tr where
    tr: "avl_t_first h tb = Some tr" "visits tb t tr [] e ys" by auto
  have "each body h tb s = each_from body h tb s tr" using tr(1) by (simp add: each_def)
  moreover have "J h t s [] (e # ys)" using J Cons by simp
  ultimately show ?thesis using each_from_rule[of J body tb Q, OF step tree tr(2)] by simp
qed

text \<open>The rule for loops that leave the table alone.\<close>

lemma each_same_rule:
  assumes step: "\<And>h s xs e ys. J h s xs (e # ys) \<Longrightarrow> entries t = xs @ e # ys \<Longrightarrow>
      (\<exists>h' s'. body h tb s (at e) = Some (Inl s', h', tb) \<and> J h' s' (xs @ [e]) ys) \<or>
      (\<exists>h' r. body h tb s (at e) = Some (Inr r, h', tb) \<and> Q h' r xs e ys)"
    and tree: "\<And>h s xs ys. J h s xs ys \<Longrightarrow> rooted h tb t" and ht: "height t \<le> 32"
    and J: "J h s [] (entries t)"
  shows "(\<exists>h' s'. each body h tb s = Some (Inl s', h', tb) \<and> J h' s' (entries t) []) \<or>
    (\<exists>h' r xs e ys. each body h tb s = Some (Inr r, h', tb) \<and> entries t = xs @ e # ys \<and> Q h' r xs e ys)"
proof -
  have "(\<exists>h' t' s'. each body h tb s = Some (Inl s', h', tb) \<and> t' = t \<and> J h' s' (entries t') []) \<or>
    (\<exists>h' r xs e ys. each body h tb s = Some (Inr r, h', tb) \<and> entries t = xs @ e # ys \<and> Q h' r xs e ys)"
  proof (rule each_rule[where J = "\<lambda>h t' s xs ys. t' = t \<and> J h s xs ys" and Q = "\<lambda>h r xs e ys. entries t = xs @ e # ys \<and> Q h r xs e ys"])
    fix h t' s xs e ys assume a: "t' = t \<and> J h s xs (e # ys)" "entries t' = xs @ e # ys"
    have i: "map_tree id t = t" by (simp add: tree.map_id)
    from step[of h s xs e ys] a show "(\<exists>h' s' f. body h tb s (at e) = Some (Inl s', h', tb) \<and> (\<forall>e. at (f e) = at e) \<and>
         map_tree f t' = t \<and> J h' s' (map f (xs @ [e])) (map f ys)) \<or>
      (\<exists>h' r. body h tb s (at e) = Some (Inr r, h', tb) \<and> entries t = xs @ e # ys \<and> Q h' r xs e ys)"
      using i by (metis id_apply list.map_id)
  qed (use tree ht J in auto)
  then show ?thesis by blast
qed

end
