(* ===== verification/TableWhole.thy ===== *)
theory TableWhole
  imports TableIter ListFold
begin

text \<open>
  The operations on all entries of an \<^verbatim>\<open>Agg$Table\<close> (\<^verbatim>\<open>dev/src/lib/Agg/Table.c\<close>) that do not delete: copies,
  union, difference and intersection, equality, iteration, and the generators. A new table lies in the same
  memory as the tables it is made from. Two arguments are taken to be different tables.
\<close>

section \<open>Copies\<close>

text \<open>The state of a loop, whether it ran to its end or not.\<close>

fun outcome :: "'s + 's \<Rightarrow> 's" where
  "outcome (Inl s) = s"
| "outcome (Inr s) = s"

text \<open>\<^verbatim>\<open>avl_probe_asm(Table, Node->Key, Node->Hash)[0] = v\<close>\<close>

definition add_node ::
  "('k, 'v) mem \<Rightarrow> ('k, 'v) table \<Rightarrow> ptr \<Rightarrow> 'v option \<Rightarrow> (('k, 'v) mem \<times> ('k, 'v) table) option" where
  "add_node h out p v = do {
     n \<leftarrow> cell_at h p;
     (q, h, out) \<leftarrow> avl_probe h out (Key n) (Hash n);
     h \<leftarrow> set_slot h q v;
     Some (h, out) }"

definition copy_body :: "('k, 'v, ('k, 'v) table, ('k, 'v) table) body" where
  "copy_body h src out p = do {
     v \<leftarrow> get_slot h p;
     (h, out) \<leftarrow> add_node h out p v;
     Some (Inl out, h, src) }"

definition copy_table ::
  "('k, 'v) mem \<Rightarrow> ('k, 'v) table \<Rightarrow> (('k, 'v) table \<times> ('k, 'v) mem \<times> ('k, 'v) table) option" where
  "copy_table h src = do {
     let out = avl_create (Compare src) (HashFn src);
     src \<leftarrow> t_rdlock src;
     (out, h, src) \<leftarrow> each copy_body h src out;
     let out = (outcome out)\<lparr>Default := Default src\<rparr>;
     src \<leftarrow> t_unlock src;
     Some (out, h, src) }"

text \<open>A call of \<open>f\<close> with the key and the value of a node; a NULL value is not defined there.\<close>

definition call_node ::
  "('k \<Rightarrow> 'v \<Rightarrow> ('r, 'm, unit) reply) \<Rightarrow> ('k, 'v) mem \<Rightarrow> ptr \<Rightarrow> ('r, 'm, unit) reply option" where
  "call_node f h p = do { n \<leftarrow> cell_at h p; v \<leftarrow> Slot n; Some (f (Key n) v) }"

definition map_body ::
  "('k \<Rightarrow> 'v \<Rightarrow> ('v, 'v, unit) reply) \<Rightarrow> ('k, 'v, ('k, 'v) table, 'v) body" where
  "map_body f h src out p = do {
     r \<leftarrow> call_node f h p;
     case r of
       SUSPEND w g \<Rightarrow> do { (h, out) \<leftarrow> add_node h out p (Some w); Some (Inl out, h, src) }
     | SUCCESS w \<Rightarrow> do { (h, out) \<leftarrow> add_node h out p (Some w); Some (Inl out, h, src) }
     | FAILURE \<Rightarrow> Some (Inl out, h, src)
     | MESSAGE m \<Rightarrow> Some (Inr m, h, src) }"

text \<open>A message of the function ends \<open>map\<close> and \<open>list\<close> with the source still locked.\<close>

definition map_table ::
  "('k, 'v) mem \<Rightarrow> ('k, 'v) table \<Rightarrow> ('k \<Rightarrow> 'v \<Rightarrow> ('v, 'v, unit) reply) \<Rightarrow>
   ((('k, 'v) table, 'v, unit) reply \<times> ('k, 'v) mem \<times> ('k, 'v) table) option" where
  "map_table h src f = do {
     let out = avl_create (Compare src) (HashFn src);
     src \<leftarrow> t_rdlock src;
     (x, h, src) \<leftarrow> each (map_body f) h src out;
     case x of
       Inr m \<Rightarrow> Some (MESSAGE m, h, src)
     | Inl out \<Rightarrow> do { src \<leftarrow> t_unlock src; Some (SUCCESS out, h, src) } }"

definition list_body ::
  "('k \<Rightarrow> 'v \<Rightarrow> ('v, 'v, unit) reply) \<Rightarrow> ('k, 'v, 'v heap \<times> lst, 'v) body" where
  "list_body f h src s p = do {
     r \<leftarrow> call_node f h p;
     case r of
       SUSPEND w g \<Rightarrow> do { s \<leftarrow> put_c (fst s) (snd s) w; Some (Inl s, h, src) }
     | SUCCESS w \<Rightarrow> do { s \<leftarrow> put_c (fst s) (snd s) w; Some (Inl s, h, src) }
     | FAILURE \<Rightarrow> Some (Inl s, h, src)
     | MESSAGE m \<Rightarrow> Some (Inr m, h, src) }"

definition list_table ::
  "'v heap \<Rightarrow> ('k, 'v) mem \<Rightarrow> ('k, 'v) table \<Rightarrow> ('k \<Rightarrow> 'v \<Rightarrow> ('v, 'v, unit) reply) \<Rightarrow>
   (('v heap \<times> lst, 'v, unit) reply \<times> ('k, 'v) mem \<times> ('k, 'v) table) option" where
  "list_table lh h src f = do {
     src \<leftarrow> t_rdlock src;
     (x, h, src) \<leftarrow> each (list_body f) h src (lh, new0_list);
     case x of
       Inr m \<Rightarrow> Some (MESSAGE m, h, src)
     | Inl s \<Rightarrow> do { src \<leftarrow> t_unlock src; Some (SUCCESS s, h, src) } }"

section \<open>Union, difference, intersection\<close>

text \<open>The new table has the default functions \<^verbatim>\<open>?\<close> and \<^verbatim>\<open>#\<close>, but takes over the stored hashes.\<close>

definition plus_table ::
  "('k \<Rightarrow> 'k \<Rightarrow> int) \<Rightarrow> ('k \<Rightarrow> int) \<Rightarrow> ('k, 'v) mem \<Rightarrow> ('k, 'v) table \<Rightarrow> ('k, 'v) table \<Rightarrow>
   (('k, 'v) table \<times> ('k, 'v) mem \<times> ('k, 'v) table \<times> ('k, 'v) table) option" where
  "plus_table dcmp dhash h a b = do {
     let out = avl_create dcmp dhash;
     a \<leftarrow> t_rdlock a;
     (out, h, a) \<leftarrow> each copy_body h a out;
     a \<leftarrow> t_unlock a;
     b \<leftarrow> t_rdlock b;
     (out, h, b) \<leftarrow> each copy_body h b (outcome out);
     b \<leftarrow> t_unlock b;
     Some (outcome out, h, a, b) }"

definition minus_body :: "('k, 'v) table \<Rightarrow> ('k, 'v, ('k, 'v) table, ('k, 'v) table) body" where
  "minus_body b h a out p = do {
     n \<leftarrow> cell_at h p;
     q \<leftarrow> avl_find h b (Key n) (Hash n);
     if q = 0 then do { (h, out) \<leftarrow> add_node h out p (Slot n); Some (Inl out, h, a) }
     else Some (Inl out, h, a) }"

definition minus_table ::
  "('k \<Rightarrow> 'k \<Rightarrow> int) \<Rightarrow> ('k \<Rightarrow> int) \<Rightarrow> ('k, 'v) mem \<Rightarrow> ('k, 'v) table \<Rightarrow> ('k, 'v) table \<Rightarrow>
   (('k, 'v) table \<times> ('k, 'v) mem \<times> ('k, 'v) table \<times> ('k, 'v) table) option" where
  "minus_table dcmp dhash h a b = do {
     let out = avl_create dcmp dhash;
     a \<leftarrow> t_rdlock a;
     b \<leftarrow> t_rdlock b;
     (out, h, a) \<leftarrow> each (minus_body b) h a out;
     b \<leftarrow> t_unlock b;
     a \<leftarrow> t_unlock a;
     Some (outcome out, h, a, b) }"

text \<open>The smaller table is traversed; the values are always those of the first.\<close>

definition times_left_body :: "('k, 'v) table \<Rightarrow> ('k, 'v, ('k, 'v) table, ('k, 'v) table) body" where
  "times_left_body b h a out p = do {
     n \<leftarrow> cell_at h p;
     q \<leftarrow> avl_find h b (Key n) (Hash n);
     if q \<noteq> 0 then do { (h, out) \<leftarrow> add_node h out p (Slot n); Some (Inl out, h, a) }
     else Some (Inl out, h, a) }"

definition times_right_body :: "('k, 'v) table \<Rightarrow> ('k, 'v, ('k, 'v) table, ('k, 'v) table) body" where
  "times_right_body a h b out p = do {
     n \<leftarrow> cell_at h p;
     q \<leftarrow> avl_find h a (Key n) (Hash n);
     if q \<noteq> 0 then do {
       v \<leftarrow> get_slot h q;
       (h, out) \<leftarrow> add_node h out p v;
       Some (Inl out, h, b) }
     else Some (Inl out, h, b) }"

text \<open>At its end the method locks the two tables again instead of unlocking them.\<close>

definition times_table ::
  "('k \<Rightarrow> 'k \<Rightarrow> int) \<Rightarrow> ('k \<Rightarrow> int) \<Rightarrow> ('k, 'v) mem \<Rightarrow> ('k, 'v) table \<Rightarrow> ('k, 'v) table \<Rightarrow>
   (('k, 'v) table \<times> ('k, 'v) mem \<times> ('k, 'v) table \<times> ('k, 'v) table) option" where
  "times_table dcmp dhash h a b = do {
     let out = avl_create dcmp dhash;
     a \<leftarrow> t_rdlock a;
     b \<leftarrow> t_rdlock b;
     (out, h, a, b) \<leftarrow>
       (if Count a < Count b then do { (out, h, a) \<leftarrow> each (times_left_body b) h a out; Some (out, h, a, b) }
        else do { (out, h, b) \<leftarrow> each (times_right_body a) h b out; Some (out, h, a, b) });
     b \<leftarrow> t_rdlock b;
     a \<leftarrow> t_rdlock a;
     Some (outcome out, h, a, b) }"

section \<open>Equality\<close>

text \<open>
  The cache holds, for a table (here its address \<open>a\<close>), the table it is being compared with. The method
  does not lock the tables.
\<close>

definition equal_body ::
  "('c \<Rightarrow> 'v \<Rightarrow> 'v \<Rightarrow> ('v, 'm, unit) reply \<times> 'c) \<Rightarrow> ('k, 'v) table \<Rightarrow>
   ('k, 'v, 'c, (unit, 'm, unit) reply \<times> 'c) body" where
  "equal_body eq b h a c p = do {
     n \<leftarrow> cell_at h p;
     q \<leftarrow> avl_find h b (Key n) (Hash n);
     if q = 0 then Some (Inr (FAILURE, c), h, a)
     else do {
       v \<leftarrow> Slot n;
       w \<leftarrow> get_slot h q;
       w \<leftarrow> w;
       case eq c v w of
         (FAILURE, c) \<Rightarrow> Some (Inr (FAILURE, c), h, a)
       | (MESSAGE m, c) \<Rightarrow> Some (Inr (MESSAGE m, c), h, a)
       | (_, c) \<Rightarrow> Some (Inl c, h, a) } }"

definition equal_table ::
  "((ptr \<Rightarrow> ptr option) \<Rightarrow> 'v \<Rightarrow> 'v \<Rightarrow> ('v, 'm, unit) reply \<times> (ptr \<Rightarrow> ptr option)) \<Rightarrow>
   ('k, 'v) mem \<Rightarrow> ptr \<Rightarrow> ('k, 'v) table \<Rightarrow> ptr \<Rightarrow> ('k, 'v) table \<Rightarrow> (ptr \<Rightarrow> ptr option) \<Rightarrow>
   ((unit, 'm, unit) reply \<times> (ptr \<Rightarrow> ptr option)) option" where
  "equal_table eq h a A b B cache =
     (case cache a of
        Some p \<Rightarrow> Some (if p = b then SUCCESS () else FAILURE, cache)
      | None \<Rightarrow>
          (let cache = cache(a \<mapsto> b) in
           if Count A \<noteq> Count B then Some (FAILURE, cache)
           else if Count A = 0 then Some (SUCCESS (), cache(a \<mapsto> b))
           else do {
             (x, _) \<leftarrow> each (equal_body eq B) h A cache;
             Some (case x of Inl c \<Rightarrow> (SUCCESS (), c) | Inr r \<Rightarrow> r) }))"

section \<open>Iteration\<close>

text \<open>
  \<^verbatim>\<open>foreach\<close>: the function gets the key and a reference to the value; the model of a call is its reply and
  what it leaves in the reference. (The call also passes the table, as a third argument.)
\<close>

definition foreach_body :: "('k \<Rightarrow> 'v \<Rightarrow> ('v, 'm, unit) reply \<times> 'v) \<Rightarrow> ('k, 'v, unit, 'm) body" where
  "foreach_body f h tb s p = do {
     (r, w) \<leftarrow> do { n \<leftarrow> cell_at h p; v \<leftarrow> Slot n; Some (f (Key n) v) };
     h \<leftarrow> set_slot h p (Some w);
     Some (case r of MESSAGE m \<Rightarrow> Inr m | _ \<Rightarrow> Inl (), h, tb) }"

definition foreach_table ::
  "('k, 'v) mem \<Rightarrow> ('k, 'v) table \<Rightarrow> ('k \<Rightarrow> 'v \<Rightarrow> ('v, 'm, unit) reply \<times> 'v) \<Rightarrow>
   ((unit, 'm, unit) reply \<times> ('k, 'v) mem \<times> ('k, 'v) table) option" where
  "foreach_table h tb f = do {
     tb \<leftarrow> t_wrlock tb;
     (x, h, tb) \<leftarrow> each (foreach_body f) h tb ();
     tb \<leftarrow> t_unlock tb;
     Some (case x of Inl _ \<Rightarrow> SUCCESS () | Inr m \<Rightarrow> MESSAGE m, h, tb) }"

text \<open>\<^verbatim>\<open>_foreach\<close>: the callback works on its own data and stops the loop by a result other than 0.\<close>

definition foreach_c_body :: "('k \<Rightarrow> 'v option \<Rightarrow> 'd \<Rightarrow> int \<times> 'd) \<Rightarrow> ('k, 'v, 'd, 'd) body" where
  "foreach_c_body callback h tb d p = do {
     n \<leftarrow> cell_at h p;
     let (r, d) = callback (Key n) (Slot n) d;
     Some (if r \<noteq> 0 then Inr d else Inl d, h, tb) }"

definition foreach_c ::
  "('k, 'v) mem \<Rightarrow> ('k, 'v) table \<Rightarrow> ('k \<Rightarrow> 'v option \<Rightarrow> 'd \<Rightarrow> int \<times> 'd) \<Rightarrow> 'd \<Rightarrow> (int \<times> 'd) option" where
  "foreach_c h tb callback d = do {
     (x, _) \<leftarrow> each (foreach_c_body callback) h tb d;
     Some (case x of Inr d \<Rightarrow> (1, d) | Inl d \<Rightarrow> (0, d)) }"

text \<open>
  \<^verbatim>\<open>newv\<close>: each key is called on the new object for a reference to a field, which gets the value. \<open>field\<close>
  gives the reply of the call and the object after the assignment; after a failed call there is no
  reference.
\<close>

definition newv_body :: "('k \<Rightarrow> 'o \<Rightarrow> 'v option \<Rightarrow> ('o, 'm, unit) reply) \<Rightarrow> ('k, 'v, 'o, 'm) body" where
  "newv_body field h tb obj p = do {
     n \<leftarrow> cell_at h p;
     case field (Key n) obj (Slot n) of
       MESSAGE m \<Rightarrow> Some (Inr m, h, tb)
     | FAILURE \<Rightarrow> None
     | SUCCESS obj \<Rightarrow> Some (Inl obj, h, tb)
     | SUSPEND obj _ \<Rightarrow> Some (Inl obj, h, tb) }"

definition newv_table ::
  "('k, 'v) mem \<Rightarrow> 'o \<Rightarrow> ('k, 'v) table \<Rightarrow> ('k \<Rightarrow> 'o \<Rightarrow> 'v option \<Rightarrow> ('o, 'm, unit) reply) \<Rightarrow>
   ('o, 'm, unit) reply option" where
  "newv_table h new tb field = do {
     (x, _) \<leftarrow> each (newv_body field) h tb new;
     Some (case x of Inl obj \<Rightarrow> SUCCESS obj | Inr m \<Rightarrow> MESSAGE m) }"

text \<open>\<^verbatim>\<open>String.Of\<close>; a value that is \<^verbatim>\<open>NIL\<close> is not written.\<close>

definition piece :: "('x \<Rightarrow> (string, 'm, unit) reply) \<Rightarrow> string \<Rightarrow> 'x \<Rightarrow> string" where
  "piece str other x = (case returned (str x) of Some s \<Rightarrow> s | None \<Rightarrow> other)"

definition entry_string ::
  "('k \<Rightarrow> (string, 'm, unit) reply) \<Rightarrow> ('v \<Rightarrow> (string, 'm, unit) reply) \<Rightarrow> 'v \<Rightarrow> ('k, 'v) mem \<Rightarrow> ptr \<Rightarrow> string \<Rightarrow>
   string option" where
  "entry_string kstr vstr nil h p acc = do {
     n \<leftarrow> cell_at h p;
     let acc = acc @ piece kstr ''<key>'' (Key n);
     v \<leftarrow> Slot n;
     Some (if v \<noteq> nil then acc @ '' is '' @ piece vstr ''<value>'' v else acc) }"

definition string_body ::
  "('k \<Rightarrow> (string, 'm, unit) reply) \<Rightarrow> ('v \<Rightarrow> (string, 'm, unit) reply) \<Rightarrow> 'v \<Rightarrow> ('k, 'v, string, string) body" where
  "string_body kstr vstr nil h tb acc p = do {
     acc \<leftarrow> entry_string kstr vstr nil h p (acc @ '', '');
     Some (Inl acc, h, tb) }"

definition string_of_table ::
  "('k \<Rightarrow> (string, 'm, unit) reply) \<Rightarrow> ('v \<Rightarrow> (string, 'm, unit) reply) \<Rightarrow> 'v \<Rightarrow>
   ('k, 'v) mem \<Rightarrow> ('k, 'v) table \<Rightarrow> (string \<times> ('k, 'v) table) option" where
  "string_of_table kstr vstr nil h tb = do {
     tb \<leftarrow> t_rdlock tb;
     tr \<leftarrow> avl_t_first h tb;
     acc \<leftarrow> (if TNode tr \<noteq> 0 then entry_string kstr vstr nil h (TNode tr) ''{'' else Some ''{'');
     tr \<leftarrow> avl_t_next h tb tr;
     (acc, h, tb) \<leftarrow> each_from (string_body kstr vstr nil) h tb acc tr;
     tb \<leftarrow> t_unlock tb;
     Some (outcome acc @ ''}'', tb) }"

section \<open>Generators\<close>

text \<open>
  A suspended generator keeps a traverser. \<open>offer\<close> is the end of every generator and of its resumption:
  it suspends with the node reached, or fails.
\<close>

definition offer :: "(ptr \<Rightarrow> 'r option) \<Rightarrow> trav \<Rightarrow> ('r, unit, trav) reply option" where
  "offer result tr =
     (if TNode tr \<noteq> 0 then do { r \<leftarrow> result (TNode tr); Some (SUSPEND r tr) } else Some FAILURE)"

definition node_key :: "('k, 'v) mem \<Rightarrow> ptr \<Rightarrow> 'k option" where
  "node_key h p = map_option Key (cell_at h p)"

text \<open>The value of a node, with the reference to it.\<close>

definition node_value :: "('k, 'v) mem \<Rightarrow> ptr \<Rightarrow> ('v \<times> ptr) option" where
  "node_value h p = do { n \<leftarrow> cell_at h p; v \<leftarrow> Slot n; Some (v, p) }"

definition items_table :: "('k, 'v) mem \<Rightarrow> ('k, 'v) table \<Rightarrow> (ptr, unit, trav) reply option" where
  "items_table h tb = do { tr \<leftarrow> avl_t_first h tb; offer Some tr }"

definition resume_items_table :: "('k, 'v) mem \<Rightarrow> ('k, 'v) table \<Rightarrow> trav \<Rightarrow> (ptr, unit, trav) reply option" where
  "resume_items_table h tb tr = do { tr \<leftarrow> avl_t_next h tb tr; offer Some tr }"

definition keys_table :: "('k, 'v) mem \<Rightarrow> ('k, 'v) table \<Rightarrow> ('k, unit, trav) reply option" where
  "keys_table h tb = do { tr \<leftarrow> avl_t_first h tb; offer (node_key h) tr }"

definition resume_keys_table :: "('k, 'v) mem \<Rightarrow> ('k, 'v) table \<Rightarrow> trav \<Rightarrow> ('k, unit, trav) reply option" where
  "resume_keys_table h tb tr = do { tr \<leftarrow> avl_t_next h tb tr; offer (node_key h) tr }"

definition values_table :: "('k, 'v) mem \<Rightarrow> ('k, 'v) table \<Rightarrow> ('v \<times> ptr, unit, trav) reply option" where
  "values_table h tb = do { tr \<leftarrow> avl_t_first h tb; offer (node_value h) tr }"

definition resume_values_table :: "('k, 'v) mem \<Rightarrow> ('k, 'v) table \<Rightarrow> trav \<Rightarrow> ('v \<times> ptr, unit, trav) reply option" where
  "resume_values_table h tb tr = do { tr \<leftarrow> avl_t_next h tb tr; offer (node_value h) tr }"

text \<open>
  The generators that assign to variables of the caller: the state has the references. A variable holds a
  key or a value.
\<close>

type_synonym ('k, 'v) tvars = "nat \<Rightarrow> 'k + 'v"

record pair_state =
  PTrav :: trav
  Pair :: nat

record loop_state =
  LTrav :: trav
  KeyRef :: nat
  ValueRef :: nat

definition step_keys2 ::
  "('k, 'v) mem \<Rightarrow> nat \<Rightarrow> trav \<Rightarrow> ('k, 'v) tvars \<Rightarrow> (('k, unit, pair_state) reply \<times> ('k, 'v) tvars) option" where
  "step_keys2 h pair tr e =
     (if TNode tr \<noteq> 0 then do {
        n \<leftarrow> cell_at h (TNode tr);
        v \<leftarrow> Slot n;
        Some (SUSPEND (Key n) \<lparr>PTrav = tr, Pair = pair\<rparr>, e(pair := Inr v)) }
      else Some (FAILURE, e))"

definition keys2_table ::
  "('k, 'v) mem \<Rightarrow> ('k, 'v) table \<Rightarrow> nat \<Rightarrow> ('k, 'v) tvars \<Rightarrow> (('k, unit, pair_state) reply \<times> ('k, 'v) tvars) option" where
  "keys2_table h tb pair e = do { tr \<leftarrow> avl_t_first h tb; step_keys2 h pair tr e }"

definition resume_keys2_table ::
  "('k, 'v) mem \<Rightarrow> ('k, 'v) table \<Rightarrow> pair_state \<Rightarrow> ('k, 'v) tvars \<Rightarrow> (('k, unit, pair_state) reply \<times> ('k, 'v) tvars) option" where
  "resume_keys2_table h tb g e = do { tr \<leftarrow> avl_t_next h tb (PTrav g); step_keys2 h (Pair g) tr e }"

definition step_values2 ::
  "('k, 'v) mem \<Rightarrow> nat \<Rightarrow> trav \<Rightarrow> ('k, 'v) tvars \<Rightarrow> (('v \<times> ptr, unit, pair_state) reply \<times> ('k, 'v) tvars) option" where
  "step_values2 h pair tr e =
     (if TNode tr \<noteq> 0 then do {
        n \<leftarrow> cell_at h (TNode tr);
        v \<leftarrow> Slot n;
        Some (SUSPEND (v, TNode tr) \<lparr>PTrav = tr, Pair = pair\<rparr>, e(pair := Inl (Key n))) }
      else Some (FAILURE, e))"

definition values2_table ::
  "('k, 'v) mem \<Rightarrow> ('k, 'v) table \<Rightarrow> nat \<Rightarrow> ('k, 'v) tvars \<Rightarrow> (('v \<times> ptr, unit, pair_state) reply \<times> ('k, 'v) tvars) option" where
  "values2_table h tb pair e = do { tr \<leftarrow> avl_t_first h tb; step_values2 h pair tr e }"

definition resume_values2_table ::
  "('k, 'v) mem \<Rightarrow> ('k, 'v) table \<Rightarrow> pair_state \<Rightarrow> ('k, 'v) tvars \<Rightarrow> (('v \<times> ptr, unit, pair_state) reply \<times> ('k, 'v) tvars) option" where
  "resume_values2_table h tb g e = do { tr \<leftarrow> avl_t_next h tb (PTrav g); step_values2 h (Pair g) tr e }"

definition step_loop ::
  "('k, 'v) mem \<Rightarrow> nat \<Rightarrow> nat \<Rightarrow> trav \<Rightarrow> ('k, 'v) tvars \<Rightarrow> ((ptr, unit, loop_state) reply \<times> ('k, 'v) tvars) option" where
  "step_loop h kr vr tr e =
     (if TNode tr \<noteq> 0 then do {
        n \<leftarrow> cell_at h (TNode tr);
        v \<leftarrow> Slot n;
        Some (SUSPEND (TNode tr) \<lparr>LTrav = tr, KeyRef = kr, ValueRef = vr\<rparr>, e(kr := Inl (Key n), vr := Inr v)) }
      else Some (FAILURE, e))"

definition loop_table ::
  "('k, 'v) mem \<Rightarrow> ('k, 'v) table \<Rightarrow> nat \<Rightarrow> nat \<Rightarrow> ('k, 'v) tvars \<Rightarrow> ((ptr, unit, loop_state) reply \<times> ('k, 'v) tvars) option" where
  "loop_table h tb kr vr e = do { tr \<leftarrow> avl_t_first h tb; step_loop h kr vr tr e }"

definition resume_loop_table ::
  "('k, 'v) mem \<Rightarrow> ('k, 'v) table \<Rightarrow> loop_state \<Rightarrow> ('k, 'v) tvars \<Rightarrow> ((ptr, unit, loop_state) reply \<times> ('k, 'v) tvars) option" where
  "resume_loop_table h tb g e = do { tr \<leftarrow> avl_t_next h tb (LTrav g); step_loop h (KeyRef g) (ValueRef g) tr e }"

text \<open>\<^verbatim>\<open>find\<close> generates the keys of the values equal to a given one; its resumption swaps the arguments of \<^verbatim>\<open>=\<close>.\<close>

record 'v find_state =
  FTrav :: trav
  FValue :: 'v

partial_function (option) find_scan ::
  "('v \<Rightarrow> ('r, 'm, unit) reply) \<Rightarrow> 'v \<Rightarrow> ('k, 'v) mem \<Rightarrow> ('k, 'v) table \<Rightarrow> trav \<Rightarrow> ('k, 'm, 'v find_state) reply option" where
  "find_scan test v h tb tr =
     (if TNode tr = 0 then Some FAILURE
      else do {
        n \<leftarrow> cell_at h (TNode tr);
        w \<leftarrow> Slot n;
        case test w of
          MESSAGE m \<Rightarrow> Some (MESSAGE m)
        | FAILURE \<Rightarrow> do { tr \<leftarrow> avl_t_next h tb tr; find_scan test v h tb tr }
        | SUCCESS _ \<Rightarrow> Some (SUSPEND (Key n) \<lparr>FTrav = tr, FValue = v\<rparr>)
        | SUSPEND _ _ \<Rightarrow> Some (SUSPEND (Key n) \<lparr>FTrav = tr, FValue = v\<rparr>) })"

definition find_table ::
  "('v \<Rightarrow> 'v \<Rightarrow> ('r, 'm, unit) reply) \<Rightarrow> ('k, 'v) mem \<Rightarrow> ('k, 'v) table \<Rightarrow> 'v \<Rightarrow> ('k, 'm, 'v find_state) reply option" where
  "find_table eq h tb v = do { tr \<leftarrow> avl_t_first h tb; find_scan (\<lambda>w. eq v w) v h tb tr }"

definition resume_find_table ::
  "('v \<Rightarrow> 'v \<Rightarrow> ('r, 'm, unit) reply) \<Rightarrow> ('k, 'v) mem \<Rightarrow> ('k, 'v) table \<Rightarrow> 'v find_state \<Rightarrow> ('k, 'm, 'v find_state) reply option" where
  "resume_find_table eq h tb g = do {
     tr \<leftarrow> avl_t_next h tb (FTrav g);
     find_scan (\<lambda>w. eq w (FValue g)) (FValue g) h tb tr }"

declare find_scan.simps [code]

section \<open>Collect, and the functions that read one field\<close>

text \<open>The table whose keys are the results of a generator; every value is \<^verbatim>\<open>NIL\<close>.\<close>

definition add_key ::
  "'v \<Rightarrow> ('k, 'v) mem \<Rightarrow> ('k, 'v) table \<Rightarrow> 'k \<Rightarrow> (('k, 'v) mem \<times> ('k, 'v) table) option" where
  "add_key nil h tb key = do {
     (p, h, tb) \<leftarrow> probe_key h tb key;
     h \<leftarrow> set_slot h p (Some nil);
     Some (h, tb) }"

partial_function (option) collect_table_rest ::
  "('g \<Rightarrow> ('k, 'm, 'g) reply) \<Rightarrow> 'v \<Rightarrow> ('k, 'v) mem \<Rightarrow> ('k, 'v) table \<Rightarrow> 'g \<Rightarrow>
   ((('k, 'v) table, 'm, unit) reply \<times> ('k, 'v) mem) option" where
  "collect_table_rest resume nil h tb g =
     (case resume g of
        SUSPEND key g \<Rightarrow> do { (h, tb) \<leftarrow> add_key nil h tb key; collect_table_rest resume nil h tb g }
      | SUCCESS key \<Rightarrow> do { (h, tb) \<leftarrow> add_key nil h tb key; Some (SUCCESS tb, h) }
      | MESSAGE m \<Rightarrow> Some (MESSAGE m, h)
      | FAILURE \<Rightarrow> Some (SUCCESS tb, h))"

definition Collect_table ::
  "('k \<Rightarrow> 'k \<Rightarrow> int) \<Rightarrow> ('k \<Rightarrow> int) \<Rightarrow> 'v \<Rightarrow> ('g \<Rightarrow> ('k, 'm, 'g) reply) \<Rightarrow> ('k, 'm, 'g) reply \<Rightarrow> ('k, 'v) mem \<Rightarrow>
   ((('k, 'v) table, 'm, unit) reply \<times> ('k, 'v) mem) option" where
  "Collect_table dcmp dhash nil resume r h =
     (let tb = avl_create dcmp dhash in
      case r of
        SUCCESS key \<Rightarrow> do { (h, tb) \<leftarrow> add_key nil h tb key; Some (SUCCESS tb, h) }
      | SUSPEND key g \<Rightarrow> do { (h, tb) \<leftarrow> add_key nil h tb key; collect_table_rest resume nil h tb g }
      | MESSAGE m \<Rightarrow> Some (MESSAGE m, h)
      | FAILURE \<Rightarrow> Some (SUCCESS tb, h))"

declare collect_table_rest.simps [code]

definition generation_c :: "('k, 'v) table \<Rightarrow> nat" where
  "generation_c tb = Generation tb"

text \<open>\<^verbatim>\<open>Std$Integer$new_small\<close> takes a \<^verbatim>\<open>long\<close>.\<close>

definition size_table :: "('k, 'v) table \<Rightarrow> (int, unit, unit) reply" where
  "size_table tb = SUCCESS (s32 (int (Count tb)))"

definition hash_table :: "('k, 'v) table \<Rightarrow> ('k \<Rightarrow> int, unit, unit) reply" where
  "hash_table tb = SUCCESS (HashFn tb)"

definition compare_table :: "('k, 'v) table \<Rightarrow> ('k \<Rightarrow> 'k \<Rightarrow> int, unit, unit) reply" where
  "compare_table tb = SUCCESS (Compare tb)"

text \<open>\<^verbatim>\<open>_trav_first\<close> and \<^verbatim>\<open>_trav_next\<close> return the node as well; the other functions read a node.\<close>

definition trav_first_c :: "('k, 'v) mem \<Rightarrow> ('k, 'v) table \<Rightarrow> (ptr \<times> trav) option" where
  "trav_first_c h tb = do { tr \<leftarrow> avl_t_first h tb; Some (TNode tr, tr) }"

definition trav_next_c :: "('k, 'v) mem \<Rightarrow> ('k, 'v) table \<Rightarrow> trav \<Rightarrow> (ptr \<times> trav) option" where
  "trav_next_c h tb tr = do { tr \<leftarrow> avl_t_next h tb tr; Some (TNode tr, tr) }"

definition node_hash_c :: "('k, 'v) mem \<Rightarrow> ptr \<Rightarrow> nat option" where
  "node_hash_c h p = map_option Hash (cell_at h p)"

end
