(* ===== verification/TableCopy.thy ===== *)
theory TableCopy
  imports TableWhole
begin

text \<open>
  The methods that make a new table or list from the entries of tables: \<^verbatim>\<open>copy\<close>, \<^verbatim>\<open>map\<close>, \<^verbatim>\<open>list\<close>, union,
  difference and intersection. They insert in the order of the traversal, which is the order of the new
  table, so every insertion but those of the second half of a union goes behind the last entry.
\<close>

section \<open>The contents of a table\<close>

text \<open>Key, value and hash of an entry, without its address.\<close>

definition datum :: "('k, 'v) entry \<Rightarrow> 'k \<times> 'v option \<times> nat" where
  "datum e = (ekey e, slot e, ehash e)"

text \<open>
  \<open>holds_list F h tb ds\<close>: the table is well-formed with exactly the contents \<open>ds\<close>, in order, and uses none
  of the cells \<open>F\<close>.
\<close>

definition holds_list ::
  "(ptr \<Rightarrow> ('k, 'v) cell option) \<Rightarrow> ('k, 'v) mem \<Rightarrow> ('k, 'v) table \<Rightarrow> ('k \<times> 'v option \<times> nat) list \<Rightarrow> bool" where
  "holds_list F h tb ds \<longleftrightarrow> (\<exists>t. table_ok h tb t \<and> map datum (entries t) = ds \<and>
     (\<forall>p n. F p = Some n \<longrightarrow> Cells h p = Some n \<and> p \<notin> at ` set (entries t)))"

lemma holds_list_tholds: "holds_list F h tb ds \<Longrightarrow> tholds F h tb"
  by (auto simp: holds_list_def tholds_def)

lemma tholds_holds_list: "tholds F h tb \<Longrightarrow> \<exists>ds. holds_list F h tb ds"
  unfolding holds_list_def tholds_def by blast

lemma holds_list_lock [simp]: "holds_list F h (tb\<lparr>TLock := n\<rparr>) ds \<longleftrightarrow> holds_list F h tb ds"
  by (simp add: holds_list_def)

lemma holds_list_Default [simp]: "holds_list F h (tb\<lparr>Default := d\<rparr>) ds \<longleftrightarrow> holds_list F h tb ds"
  by (simp add: holds_list_def table_ok_def rooted_def)

lemma holds_list_cells: "holds_list F h tb ds \<Longrightarrow> F p = Some n \<Longrightarrow> Cells h p = Some n"
  by (auto simp: holds_list_def)

lemma holds_list_count: "holds_list F h tb ds \<Longrightarrow> Count tb = length ds"
  by (auto simp: holds_list_def table_ok_def rooted_def)

text \<open>A new table is empty.\<close>

lemma avl_create_empty:
  assumes "mem_ok h" and "key_order cmp"
  shows "holds_list (Cells h) h (avl_create cmp hf) []"
  unfolding holds_list_def
  by (rule exI[of _ Tip]) (use assms in \<open>simp add: table_ok_def rooted_def avl_create_def max_entries_def\<close>)

lemma avl_create_simps [simp]:
  "Compare (avl_create cmp hf) = cmp" "HashFn (avl_create cmp hf) = hf" "Count (avl_create cmp hf) = 0"
  "TLock (avl_create cmp hf) = 0" "Default (avl_create cmp hf) = None" "Root (avl_create cmp hf) = 0"
  by (simp_all add: avl_create_def)

text \<open>The tables in the cells \<open>F\<close> stay what they are.\<close>

lemma tree_at_kept: "tree_at (Cells h0) t \<Longrightarrow> (\<And>p n. Cells h0 p = Some n \<Longrightarrow> Cells h p = Some n) \<Longrightarrow> tree_at (Cells h) t"
  by (induction t) auto

lemma rooted_kept:
  assumes "holds_list (Cells h0) h out ds" and "rooted h0 tb t"
  shows "rooted h tb t"
proof -
  have "mem_ok h" using assms(1) by (auto simp: holds_list_def table_ok_def rooted_def)
  moreover have "tree_at (Cells h) t"
    by (rule tree_at_kept[of h0]) (use assms holds_list_cells[OF assms(1)] in \<open>auto simp: rooted_def\<close>)
  ultimately show ?thesis using assms(2) by (simp add: rooted_def)
qed

lemma table_ok_kept: "holds_list (Cells h0) h out ds \<Longrightarrow> table_ok h0 tb t \<Longrightarrow> table_ok h tb t"
  using rooted_kept[of h0 h out ds tb t] by (simp add: table_ok_def)

text \<open>A table that differs from \<open>out\<close> only in its tree.\<close>

definition regrown :: "('k, 'v) table \<Rightarrow> ('k, 'v) table \<Rightarrow> bool" where
  "regrown out out' \<longleftrightarrow> Compare out' = Compare out \<and> HashFn out' = HashFn out \<and> Default out' = Default out \<and> TLock out' = TLock out"

lemma regrown_refl: "regrown out out"
  by (simp add: regrown_def)

lemma regrown_step: "regrown out out1 \<Longrightarrow> regrown out (out1\<lparr>Root := r, Count := c, Generation := g\<rparr>)"
  by (simp add: regrown_def)

lemma regrown_simps:
  "regrown out out' \<Longrightarrow> Compare out' = Compare out \<and> HashFn out' = HashFn out \<and> Default out' = Default out \<and> TLock out' = TLock out"
  by (simp add: regrown_def)

lemma set_child_regrown: "set_child h tb p d w = Some (h', tb') \<Longrightarrow> regrown tb tb'"
  by (auto simp: set_child_def regrown_def split: if_splits)

lemma avl_probe_regrown:
  assumes "avl_probe h tb key hash = Some (p, h', tb')"
  shows "regrown tb tb'"
proof -
  from assms obtain r where r: "probe_find h (Compare tb) key hash 0 (Root tb) [] 0 False (Root tb) = Some r"
    by (auto simp: avl_probe_def bind_Some_iff)
  show ?thesis
  proof (cases r)
    case (Inl q)
    then show ?thesis using assms r by (simp add: avl_probe_def regrown_def)
  next
    case (Inr x)
    obtain z y da q d where x: "x = (z, y, da, q, d)" by (cases x)
    with assms r Inr obtain n h1 h2 tb2 where s: "set_child h1 tb q d n = Some (h2, tb2)"
      and e: "(if y = 0 then Some (n, h2, tb2\<lparr>Count := inc32 (Count tb2)\<rparr>)
         else do {
           h \<leftarrow> bump h2 n y da;
           b \<leftarrow> get_balance h y;
           if b = - 2 \<or> b = 2 then do {
             (w, h) \<leftarrow> settle (b = 2) h y;
             l \<leftarrow> get_child h (tb2\<lparr>Count := inc32 (Count tb2)\<rparr>) z False;
             (h, tb) \<leftarrow> set_child h (tb2\<lparr>Count := inc32 (Count tb2)\<rparr>) z (y \<noteq> l) w;
             Some (n, h, tb\<lparr>Generation := inc32 (Generation tb)\<rparr>) }
           else Some (n, h, tb2\<lparr>Count := inc32 (Count tb2)\<rparr>) }) = Some (p, h', tb')"
      by (auto simp: avl_probe_def Let_def bind_Some_iff)
    have "regrown (tb2\<lparr>Count := inc32 (Count tb2)\<rparr>) tb'"
    proof -
      have "regrown (tb2\<lparr>Count := inc32 (Count tb2)\<rparr>) (t\<lparr>Generation := g\<rparr>)"
        if "set_child h (tb2\<lparr>Count := inc32 (Count tb2)\<rparr>) z f w = Some (h3, t)" for h f w h3 t g
        using set_child_regrown[OF that] by (simp add: regrown_def)
      then show ?thesis using e regrown_refl by (fastforce simp: bind_Some_iff split: if_splits)
    qed
    then show ?thesis using set_child_regrown[OF s] by (simp add: regrown_def)
  qed
qed

lemma add_node_regrown: "add_node h out p v = Some (h', out') \<Longrightarrow> regrown out out'"
  by (auto simp: add_node_def bind_Some_iff dest: avl_probe_regrown)

section \<open>Insertion behind the last entry, and anywhere\<close>

definition dtoward :: "('k \<Rightarrow> 'k \<Rightarrow> int) \<Rightarrow> 'k \<Rightarrow> nat \<Rightarrow> 'k \<times> 'v option \<times> nat \<Rightarrow> int" where
  "dtoward cmp k hk = (\<lambda>(k', v', h'). toward cmp k hk (Entry 0 k' v' h'))"

lemma dtoward_datum [simp]: "dtoward cmp k hk (datum e) = toward cmp k hk e"
  by (simp add: dtoward_def datum_def toward_def)

lemma dtoward_entry [simp]: "dtoward cmp k hk (ekey e, v, ehash e) = toward cmp k hk e"
  by (simp add: dtoward_def toward_def)

lemma add_node_last:
  assumes u: "holds_list F h out ds" and n: "cell_at h p = Some n"
    and last: "\<forall>d \<in> set ds. 0 < dtoward (Compare out) (Key n) (Hash n) d" and room: "troom (h, out) (Suc m)"
  shows "\<exists>h' r c g. add_node h out p v = Some (h', out\<lparr>Root := r, Count := c, Generation := g\<rparr>) \<and>
    holds_list F h' (out\<lparr>Root := r, Count := c, Generation := g\<rparr>) (ds @ [(Key n, v, Hash n)]) \<and>
    troom (h', out\<lparr>Root := r, Count := c, Generation := g\<rparr>) m"
proof -
  from u obtain t where t: "table_ok h out t" "map datum (entries t) = ds"
    "\<forall>p n. F p = Some n \<longrightarrow> Cells h p = Some n \<and> p \<notin> at ` set (entries t)" by (auto simp: holds_list_def)
  have g: "\<forall>e \<in> set (entries t). 0 < toward (Compare out) (Key n) (Hash n) e" using last unfolding t(2)[symmetric] by simp
  then have none: "find_key (Compare out) (Key n) (Hash n) (entries t) = None" by (force simp: find_key_None)
  have rm: "Count out < max_entries" "TFresh h < max_cells" using room by (simp_all add: troom_def)
  from avl_probe_fresh[OF t(1) none rm] obtain h1 t1 g1 xs ys where
    w: "avl_probe h out (Key n) (Hash n) = Some (TFresh h, h1, out\<lparr>Root := addr t1, Count := Suc (Count out), Generation := g1\<rparr>)"
    "table_ok h1 (out\<lparr>Root := addr t1, Count := Suc (Count out), Generation := g1\<rparr>) t1"
    "entries t = xs @ ys" "entries t1 = xs @ Entry (TFresh h) (Key n) None (Hash n) # ys" "TFresh h1 = Suc (TFresh h)"
    "\<forall>p. p \<notin> insert (TFresh h) (at ` set (entries t)) \<longrightarrow> Cells h1 p = Cells h p" by blast
  let ?o = "out\<lparr>Root := addr t1, Count := Suc (Count out), Generation := g1\<rparr>"
  let ?e = "Entry (TFresh h) (Key n) None (Hash n) :: ('a, 'b) entry"
  have ord: "key_order (Compare out)" using t(1) by (simp add: table_ok_def)
  have "sorted_wrt (before (Compare out)) (xs @ ?e # ys)" using w(2,4) by (simp add: table_ok_def)
  then have "\<forall>y \<in> set ys. toward (Compare out) (Key n) (Hash n) y < 0"
    by (simp add: sorted_wrt_append before_entry[OF ord])
  then have ys: "ys = []" using g w(3) by (cases ys) fastforce+
  have e1: "?e \<in> set (entries t1)" using w(4) by simp
  from set_slot_spec(1)[OF w(2) e1, of v] obtain h2 where h2: "set_slot h1 (TFresh h) v = Some h2"
    "table_ok h2 ?o (map_tree (revalue (TFresh h) v) t1)" "TFresh h2 = TFresh h1" "\<forall>p. p \<noteq> TFresh h \<longrightarrow> Cells h2 p = Cells h1 p"
    by auto
  have mo: "mem_ok h" using t(1) by (simp add: table_ok_def rooted_def)
  have dist: "TFresh h \<notin> at ` set xs"
    using w(2,4) by (auto simp: table_ok_def rooted_def)
  have ents: "map datum (entries (map_tree (revalue (TFresh h) v) t1)) = ds @ [(Key n, v, Hash n)]"
  proof -
    have "map (datum \<circ> revalue (TFresh h) v) xs = map datum xs"
      using dist by (auto simp: revalue_def intro!: image_eqI)
    also have "\<dots> = ds" using w(3) ys t(2) by simp
    finally have "map (datum \<circ> revalue (TFresh h) v) xs = ds" .
    moreover have "datum (revalue (TFresh h) v ?e) = (Key n, v, Hash n)" by (simp add: revalue_def datum_def)
    ultimately show ?thesis using w(3,4) ys t(2) by simp
  qed
  have fr: "\<forall>p n. F p = Some n \<longrightarrow> Cells h2 p = Some n \<and> p \<notin> at ` set (entries (map_tree (revalue (TFresh h) v) t1))"
  proof (intro allI impI)
    fix p n assume a: "F p = Some n"
    then have "Cells h p = Some n" "p \<notin> at ` set (entries t)" using t(3) by blast+
    moreover have "p \<noteq> TFresh h" using \<open>Cells h p = Some n\<close> mem_ok_fresh[OF mo, of p] by auto
    ultimately show "Cells h2 p = Some n \<and> p \<notin> at ` set (entries (map_tree (revalue (TFresh h) v) t1))"
      using w(3,4,6) h2(4) ys by (simp add: image_image)
  qed
  have "add_node h out p v = Some (h2, ?o)" using n w(1) h2(1) by (simp add: add_node_def)
  moreover have "holds_list F h2 ?o (ds @ [(Key n, v, Hash n)])" unfolding holds_list_def using h2(2) ents fr by blast
  moreover have "troom (h2, ?o) m" using room w(5) h2(3) by (simp add: troom_def)
  ultimately show ?thesis by blast
qed

text \<open>An insertion with the hash that the new table's own hash function gives.\<close>

lemma add_node_put:
  assumes "tholds F h out" and n: "cell_at h p = Some n" and "Hash n = hash_of out (Key n)" and "troom (h, out) (Suc m)"
  shows "\<exists>h' out'. add_node h out p v = Some (h', out') \<and> tholds F h' out' \<and> troom (h', out') m \<and>
    TLock out' = TLock out \<and> Default out' = Default out \<and> same_key (h', out') = same_key (h, out) \<and>
    fetch (h', out') = (\<lambda>k'. if same_key (h, out) k' (Key n) then Some v else fetch (h, out) k')"
proof -
  from probe_key_spec[OF assms(1,4), of "Key n"] obtain q h1 out1 where
    q: "probe_key h out (Key n) = Some (q, h1, out1)" "probed F m (h, out) (Key n) q (h1, out1)" by blast
  from q(2) obtain h2 where "set_slot h1 q v = Some h2" "tholds F h2 out1" "troom (h2, out1) m"
    "same_key (h2, out1) = same_key (h, out)"
    "fetch (h2, out1) = (\<lambda>k'. if same_key (h, out) k' (Key n) then Some v else fetch (h, out) k')"
    "TLock out1 = TLock out" "Default out1 = Default out" unfolding probed_def by auto
  then show ?thesis using q(1) n assms(3) by (intro exI[of _ h2] exI[of _ out1]) (simp add: add_node_def)
qed

section \<open>The loop that builds a table\<close>

text \<open>
  What a method does with an entry: add it with some value (\<open>Inl (Some v)\<close>), skip it (\<open>Inl None\<close>), or
  stop with a message (\<open>Inr m\<close>).
\<close>

definition kept :: "(('k, 'v) entry \<Rightarrow> 'v option option + 'm) \<Rightarrow> ('k, 'v) entry list \<Rightarrow> ('k \<times> 'v option \<times> nat) list" where
  "kept pick = List.map_filter (\<lambda>e. case pick e of Inl (Some v) \<Rightarrow> Some (ekey e, v, ehash e) | _ \<Rightarrow> None)"

lemma kept_simps [simp]:
  "kept pick [] = []" "kept pick (es @ fs) = kept pick es @ kept pick fs"
  "kept pick [e] = (case pick e of Inl (Some v) \<Rightarrow> [(ekey e, v, ehash e)] | _ \<Rightarrow> [])"
  by (simp_all add: kept_def map_filter_def split: sum.split option.split)

lemma kept_set: "d \<in> set (kept pick es) \<Longrightarrow> \<exists>e \<in> set es. \<exists>v. d = (ekey e, v, ehash e)"
  by (induction es) (auto simp: kept_def map_filter_simps split: sum.splits option.splits)

definition builds ::
  "('k, 'v, ('k, 'v) table, 'm) body \<Rightarrow> ('k, 'v) mem \<Rightarrow> ('k, 'v) table \<Rightarrow> ('k, 'v) entry tree \<Rightarrow>
   (('k, 'v) entry \<Rightarrow> 'v option option + 'm) \<Rightarrow> bool" where
  "builds body h0 src t pick \<longleftrightarrow>
     (\<forall>h out e ds. e \<in> set (entries t) \<longrightarrow> holds_list (Cells h0) h out ds \<longrightarrow>
        body h src out (at e) =
          (case pick e of
             Inr m \<Rightarrow> Some (Inr m, h, src)
           | Inl None \<Rightarrow> Some (Inl out, h, src)
           | Inl (Some v) \<Rightarrow> do { (h, out) \<leftarrow> add_node h out (at e) v; Some (Inl out, h, src) }))"

lemma entry_cell:
  assumes "rooted h tb t" and "e \<in> set (entries t)"
  shows "\<exists>n. cell_at h (at e) = Some n \<and> Key n = ekey e \<and> Slot n = slot e \<and> Hash n = ehash e"
proof -
  have "tree_at (Cells h) t" "mem_ok h" using assms(1) by (auto simp: rooted_def)
  then have "\<exists>l r b. Cells h (at e) = Some (cell_of e l r b)" using assms(2) by (induction t) auto
  then show ?thesis using \<open>mem_ok h\<close> by auto
qed

lemma before_toward: "key_order cmp \<Longrightarrow> before cmp x e \<Longrightarrow> 0 < toward cmp (ekey e) (ehash e) x"
  using before_entry(1)[of cmp x "at e" "ekey e" "slot e" "ehash e"] by (cases e) simp

lemma build_loop:
  fixes t :: "('k, 'v) entry tree"
  assumes ok: "table_ok h0 src t" and b: "builds body h0 src t pick"
    and out: "out = avl_create (Compare src) hf" and room: "troom (h0, out) (length (entries t) + m)"
  shows "(\<exists>h' out'. each body h0 src out = Some (Inl out', h', src) \<and>
       holds_list (Cells h0) h' out' (kept pick (entries t)) \<and> regrown out out' \<and> troom (h', out') m \<and> (\<forall>e \<in> set (entries t). isl (pick e))) \<or>
    (\<exists>h' msg xs e ys. each body h0 src out = Some (Inr msg, h', src) \<and> entries t = xs @ e # ys \<and>
       (\<forall>x \<in> set xs. isl (pick x)) \<and> pick e = Inr msg \<and> (\<exists>out' ds. holds_list (Cells h0) h' out' ds))"
proof -
  have ord: "key_order (Compare src)" "sorted_wrt (before (Compare src)) (entries t)" "mem_ok h0" "rooted h0 src t"
    using ok by (auto simp: table_ok_def rooted_def)
  let ?J = "\<lambda>h o' xs (ys :: ('k, 'v) entry list). holds_list (Cells h0) h o' (kept pick xs) \<and> troom (h, o') (length ys + m) \<and> regrown out o' \<and>
      (\<forall>x \<in> set xs. isl (pick x))"
  let ?Q = "\<lambda>h msg xs e (ys :: ('k, 'v) entry list). (\<forall>x \<in> set xs. isl (pick x)) \<and> pick e = Inr msg \<and> (\<exists>out' ds. holds_list (Cells h0) h out' ds)"
  have "(\<exists>h' s'. each body h0 src out = Some (Inl s', h', src) \<and> ?J h' s' (entries t) []) \<or>
    (\<exists>h' r xs e ys. each body h0 src out = Some (Inr r, h', src) \<and> entries t = xs @ e # ys \<and> ?Q h' r xs e ys)"
  proof (rule each_same_rule[where J = ?J and Q = ?Q])
    fix h o' xs e ys assume J: "?J h o' xs (e # ys)" and t: "entries t = xs @ e # ys"
    have e: "e \<in> set (entries t)" using t by simp
    have hl: "holds_list (Cells h0) h o' (kept pick xs)" using J by blast
    have bd: "body h src o' (at e) = (case pick e of
             Inr m \<Rightarrow> Some (Inr m, h, src)
           | Inl None \<Rightarrow> Some (Inl o', h, src)
           | Inl (Some v) \<Rightarrow> do { (h, out) \<leftarrow> add_node h o' (at e) v; Some (Inl out, h, src) })"
      using b e hl unfolding builds_def by blast
    show "(\<exists>h' s'. body h src o' (at e) = Some (Inl s', h', src) \<and> ?J h' s' (xs @ [e]) ys) \<or>
        (\<exists>h' r. body h src o' (at e) = Some (Inr r, h', src) \<and> ?Q h' r xs e ys)"
    proof (cases "pick e")
      case (Inr m)
      then show ?thesis using bd J by auto
    next
      case pl: (Inl x)
      show ?thesis
      proof (cases x)
        case None
        then have "body h src o' (at e) = Some (Inl o', h, src)" using bd pl by simp
        moreover have "?J h o' (xs @ [e]) ys" using J pl None by (auto simp: troom_def)
        ultimately show ?thesis by blast
      next
        case (Some v)
        from entry_cell[OF rooted_kept[OF hl ord(4)] e] obtain n where
          n: "cell_at h (at e) = Some n" "Key n = ekey e" "Hash n = ehash e" by blast
        have cmp: "Compare o' = Compare src" using regrown_simps[of out o'] J out by simp
        have last: "\<forall>d \<in> set (kept pick xs). 0 < dtoward (Compare o') (Key n) (Hash n) d"
        proof
          fix d assume "d \<in> set (kept pick xs)"
          then obtain x v where x: "x \<in> set xs" "d = (ekey x, v, ehash x)" using kept_set[of d pick xs] by blast
          then have "before (Compare src) x e" using ord(2) unfolding t by (simp add: sorted_wrt_append)
          then have "0 < toward (Compare src) (ekey e) (ehash e) x" by (rule before_toward[OF ord(1)])
          then show "0 < dtoward (Compare o') (Key n) (Hash n) d" using x n cmp by simp
        qed
        have "troom (h, o') (Suc (length ys + m))" using J by simp
        from add_node_last[OF hl n(1) last this, of v] obtain h' r c g where
          "add_node h o' (at e) v = Some (h', o'\<lparr>Root := r, Count := c, Generation := g\<rparr>)"
          "holds_list (Cells h0) h' (o'\<lparr>Root := r, Count := c, Generation := g\<rparr>) (kept pick xs @ [(Key n, v, Hash n)])"
          "troom (h', o'\<lparr>Root := r, Count := c, Generation := g\<rparr>) (length ys + m)" by blast
        then show ?thesis using bd pl Some n J regrown_step[of out o' g c r]
          by (intro disjI1) (rule exI[of _ h'], rule exI[of _ "o'\<lparr>Root := r, Count := c, Generation := g\<rparr>"], auto)
      qed
    qed
  next
    show "rooted h src t" if "?J h o' xs ys" for h o' xs ys
      using rooted_kept[OF conjunct1[OF that] ord(4)] .
    show "height t \<le> 32" using table_ok_height[OF ok] by simp
    show "?J h0 out [] (entries t)"
      using avl_create_empty[OF ord(3,1)] out room regrown_refl[of out] by simp
  qed
  then show ?thesis unfolding list.size(3) add_0 by blast
qed

text \<open>The same when no entry stops the loop.\<close>

lemma build_loop_all:
  assumes "table_ok h0 src t" and "builds body h0 src t pick" and "\<forall>e \<in> set (entries t). isl (pick e)"
    and "out = avl_create (Compare src) hf" and "troom (h0, out) (length (entries t) + m)"
  shows "\<exists>h' out'. each body h0 src out = Some (Inl out', h', src) \<and>
     holds_list (Cells h0) h' out' (kept pick (entries t)) \<and> regrown out out' \<and> troom (h', out') m"
  using build_loop[OF assms(1,2,4,5)] assms(3) by force

section \<open>copy, map and list\<close>

lemma kept_all: "(\<And>e. e \<in> set es \<Longrightarrow> pick e = Inl (Some (slot e))) \<Longrightarrow> kept pick es = map datum es"
  by (induction es) (auto simp: kept_def map_filter_simps datum_def)

lemma builds_copy: "rooted h0 src t \<Longrightarrow> builds copy_body h0 src t (\<lambda>e. Inl (Some (slot e)))"
  unfolding builds_def
proof (intro allI impI)
  fix h out e ds assume a: "rooted h0 src t" "e \<in> set (entries t)" "holds_list (Cells h0) h out ds"
  from entry_cell[OF rooted_kept[OF a(3,1)] a(2)] show "copy_body h src out (at e) =
      (case Inl (Some (slot e)) of Inr m \<Rightarrow> Some (Inr m, h, src) | Inl None \<Rightarrow> Some (Inl out, h, src)
       | Inl (Some v) \<Rightarrow> do { (h, out) \<leftarrow> add_node h out (at e) v; Some (Inl out, h, src) })"
    by (auto simp: copy_body_def get_slot_def)
qed

lemma rooted_lock: "table_ok h tb t \<Longrightarrow> rooted h (tb\<lparr>TLock := n\<rparr>) t"
  by (simp add: table_ok_def rooted_def)

lemma copy_table_spec:
  assumes ok: "table_ok h src t" and "TLock src = 0" and "TFresh h + Count src \<le> max_cells"
  shows "\<exists>out h'. copy_table h src = Some (out, h', src) \<and> holds_list (Cells h) h' out (map datum (entries t)) \<and>
    Compare out = Compare src \<and> HashFn out = HashFn src \<and> Default out = Default src \<and> TLock out = 0"
proof -
  let ?l = "src\<lparr>TLock := 1\<rparr>" and ?out = "avl_create (Compare src) (HashFn src) :: ('a, 'b) table"
  have okl: "table_ok h ?l t" using ok by simp
  have cnt: "Count src = length (entries t)" "Count src \<le> max_entries" using ok by (auto simp: table_ok_def rooted_def)
  have room: "troom (h, ?out) (length (entries t) + 0)" using assms(3) cnt by (simp add: troom_def)
  have out: "?out = avl_create (Compare ?l) (HashFn src)" by simp
  from build_loop_all[OF okl builds_copy[OF rooted_lock[OF ok]] _ out room] obtain h' out' where
    u: "each copy_body h ?l ?out = Some (Inl out', h', ?l)"
    "holds_list (Cells h) h' out' (kept (\<lambda>e. Inl (Some (slot e)) :: 'b option option + ('a, 'b) table) (entries t))"
    "regrown ?out out'" by auto
  have "kept (\<lambda>e. Inl (Some (slot e)) :: 'b option option + ('a, 'b) table) (entries t) = map datum (entries t)" by (rule kept_all) simp
  then show ?thesis using u assms(2) regrown_simps[OF u(3)] same_lock[OF assms(2)]
    by (simp add: copy_table_def)
qed

text \<open>How \<open>map\<close> treats an entry.\<close>

definition map_pick :: "('k \<Rightarrow> 'v \<Rightarrow> ('v, 'v, unit) reply) \<Rightarrow> ('k, 'v) entry \<Rightarrow> 'v option option + 'v" where
  "map_pick f e =
     (case f (ekey e) (the (slot e)) of
        MESSAGE m \<Rightarrow> Inr m
      | r \<Rightarrow> Inl (map_option Some (returned r)))"

lemma builds_map:
  assumes "rooted h0 src t" and "\<forall>e \<in> set (entries t). slot e \<noteq> None"
  shows "builds (map_body f) h0 src t (map_pick f)"
  unfolding builds_def
proof (intro allI impI)
  fix h out e ds assume a: "e \<in> set (entries t)" "holds_list (Cells h0) h out ds"
  from entry_cell[OF rooted_kept[OF a(2) assms(1)] a(1)] obtain n where
    n: "cell_at h (at e) = Some n" "Key n = ekey e" "Slot n = slot e" by blast
  obtain v where v: "slot e = Some v" using assms(2) a(1) by blast
  have "call_node f h (at e) = Some (f (ekey e) v)" using n v by (simp add: call_node_def)
  then show "map_body f h src out (at e) =
      (case map_pick f e of Inr m \<Rightarrow> Some (Inr m, h, src) | Inl None \<Rightarrow> Some (Inl out, h, src)
       | Inl (Some v) \<Rightarrow> do { (h, out) \<leftarrow> add_node h out (at e) v; Some (Inl out, h, src) })"
    using v by (simp add: map_body_def map_pick_def split: reply.splits)
qed

lemma map_table_spec:
  assumes ok: "table_ok h src t" and "TLock src = 0" and "TFresh h + Count src \<le> max_cells"
    and "\<forall>e \<in> set (entries t). slot e \<noteq> None"
  shows "(\<exists>out h'. map_table h src f = Some (SUCCESS out, h', src) \<and> (\<forall>e \<in> set (entries t). isl (map_pick f e)) \<and>
      holds_list (Cells h) h' out (kept (map_pick f) (entries t)) \<and> Compare out = Compare src \<and> HashFn out = HashFn src \<and>
      Default out = None \<and> TLock out = 0) \<or>
    (\<exists>m h' xs e ys. map_table h src f = Some (MESSAGE m, h', src\<lparr>TLock := 1\<rparr>) \<and> entries t = xs @ e # ys \<and>
      (\<forall>x \<in> set xs. isl (map_pick f x)) \<and> map_pick f e = Inr m)"
proof -
  let ?l = "src\<lparr>TLock := 1\<rparr>" and ?out = "avl_create (Compare src) (HashFn src) :: ('a, 'b) table"
  have okl: "table_ok h ?l t" using ok by simp
  have cnt: "Count src = length (entries t)" "Count src \<le> max_entries" using ok by (auto simp: table_ok_def rooted_def)
  have room: "troom (h, ?out) (length (entries t) + 0)" using assms(3) cnt by (simp add: troom_def)
  have out: "?out = avl_create (Compare ?l) (HashFn src)" by simp
  show ?thesis
    using build_loop[OF okl builds_map[OF rooted_lock[OF ok] assms(4), where f = f] out room]
  proof (elim disjE exE conjE)
    fix h' out' assume u: "each (map_body f) h ?l ?out = Some (Inl out', h', ?l)"
      "holds_list (Cells h) h' out' (kept (map_pick f) (entries t))" "regrown ?out out'"
      "\<forall>e \<in> set (entries t). isl (map_pick f e)"
    then have "map_table h src f = Some (SUCCESS out', h', src)"
      using assms(2) same_lock[OF assms(2)] by (simp add: map_table_def)
    then show ?thesis using u regrown_simps[OF u(3)] by auto
  next
    fix h' m xs e ys assume u: "each (map_body f) h ?l ?out = Some (Inr m, h', ?l)" "entries t = xs @ e # ys"
      "\<forall>x \<in> set xs. isl (map_pick f x)" "map_pick f e = Inr m"
    then have "map_table h src f = Some (MESSAGE m, h', src\<lparr>TLock := 1\<rparr>)"
      using assms(2) by (simp add: map_table_def)
    then show ?thesis using u by blast
  qed
qed

lemma put_c_spec:
  assumes "rep h l xs" and "room h (Suc n)"
  shows "\<exists>h' l'. put_c h l v = Some (h', l') \<and> rep h' l' (xs @ [(Fresh h, v)]) \<and> room h' n \<and>
    frame h h' (fst ` set xs)"
proof -
  have l: "lbase h (l\<lparr>Lock := -1\<rparr>) xs" "Lock l = 0"
    using assms by (simp_all add: rep_def lrep_base)
  obtain h' l' where u: "put_node h (l\<lparr>Lock := -1\<rparr>) v = Some (h', l')" "lbase h' l' (xs @ [(Fresh h, v)])"
    "Lock l' = Lock (l\<lparr>Lock := -1\<rparr>)" "room h' n" "frame h h' (fst ` set xs)"
    by (rule put_node_spec[OF l(1) assms(2), of v]) (rule that)
  then show ?thesis using l(2)
    by (intro exI[of _ h'] exI[of _ "(recache l')\<lparr>Lock := 0\<rparr>"]) (simp add: put_c_def)
qed

lemma new0_list_rep: "heap_ok h \<Longrightarrow> rep h new0_list []"
  by (simp add: rep_def lrep_def new0_list_def zero_list_def cache_ok_def array_ok_def)

text \<open>The values that \<open>list\<close> puts into its list.\<close>

definition list_values :: "('k \<Rightarrow> 'v \<Rightarrow> ('v, 'v, unit) reply) \<Rightarrow> ('k, 'v) entry list \<Rightarrow> 'v list" where
  "list_values f = List.map_filter (\<lambda>e. returned (f (ekey e) (the (slot e))))"

lemma list_values_simps [simp]:
  "list_values f [] = []" "list_values f (es @ fs) = list_values f es @ list_values f fs"
  "list_values f [e] = (case returned (f (ekey e) (the (slot e))) of None \<Rightarrow> [] | Some v \<Rightarrow> [v])"
  by (auto simp: list_values_def map_filter_def split: option.split)

lemma list_table_spec:
  fixes t :: "('k, 'v) entry tree" and f :: "'k \<Rightarrow> 'v \<Rightarrow> ('v, 'v, unit) reply"
  assumes ok: "table_ok h src t" and lk: "TLock src = 0" and null: "\<forall>e \<in> set (entries t). slot e \<noteq> None"
    and lh: "heap_ok lh" "room lh (length (entries t))"
  shows "(\<exists>lh' l. list_table lh h src f = Some (SUCCESS (lh', l), h, src) \<and> (\<forall>e \<in> set (entries t). isl (map_pick f e)) \<and>
      is_list lh' l (list_values f (entries t)) \<and> frame lh lh' {}) \<or>
    (\<exists>m xs e ys. list_table lh h src f = Some (MESSAGE m, h, src\<lparr>TLock := 1\<rparr>) \<and> entries t = xs @ e # ys \<and>
      (\<forall>x \<in> set xs. isl (map_pick f x)) \<and> map_pick f e = Inr m)"
proof -
  let ?l = "src\<lparr>TLock := 1\<rparr>"
  let ?J = "\<lambda>h1 s xs (ys :: ('k, 'v) entry list). h1 = h \<and> (\<forall>x \<in> set xs. isl (map_pick f x)) \<and>
      (\<exists>zs. rep (fst s) (snd s) zs \<and> map snd zs = list_values f xs \<and> (\<forall>z \<in> set zs. Fresh lh \<le> fst z)) \<and>
      room (fst s) (length ys) \<and> frame lh (fst s) {}"
  let ?Q = "\<lambda>h1 m xs e (ys :: ('k, 'v) entry list). h1 = h \<and> (\<forall>x \<in> set xs. isl (map_pick f x)) \<and> map_pick f e = Inr m"
  have rt: "rooted h ?l t" by (rule rooted_lock[OF ok])
  have "(\<exists>h' s'. each (list_body f) h ?l (lh, new0_list) = Some (Inl s', h', ?l) \<and> ?J h' s' (entries t) []) \<or>
    (\<exists>h' r xs e ys. each (list_body f) h ?l (lh, new0_list) = Some (Inr r, h', ?l) \<and> entries t = xs @ e # ys \<and> ?Q h' r xs e ys)"
  proof (rule each_same_rule[where J = ?J and Q = ?Q])
    fix h1 s xs e ys assume J: "?J h1 s xs (e # ys)" and t: "entries t = xs @ e # ys"
    obtain n v where n: "cell_at h (at e) = Some n" "Key n = ekey e" "Slot n = slot e" "slot e = Some v"
      using entry_cell[OF rt, of e] null t by force
    then have c: "call_node f h1 (at e) = Some (f (ekey e) v)" using J by (simp add: call_node_def)
    have put: "\<exists>s'. put_c (fst s) (snd s) w = Some s' \<and> (returned (f (ekey e) v) = Some w \<longrightarrow> isl (map_pick f e) \<longrightarrow> ?J h1 s' (xs @ [e]) ys)" for w
    proof -
      from J obtain zs where zs: "rep (fst s) (snd s) zs" "map snd zs = list_values f xs" "\<forall>z \<in> set zs. Fresh lh \<le> fst z" by blast
      have "room (fst s) (Suc (length ys))" using J by simp
      from put_c_spec[OF zs(1) this, of w] obtain h' l' where
        p: "put_c (fst s) (snd s) w = Some (h', l')" "rep h' l' (zs @ [(Fresh (fst s), w)])" "room h' (length ys)"
        "frame (fst s) h' (fst ` set zs)" by blast
      have fr: "frame lh h' {}" using frame_trans[of lh "fst s" "{}" h' "fst ` set zs"] J p(4) zs(3) by auto
      have "Fresh lh \<le> Fresh (fst s)" using J by (simp add: frame_def)
      then show ?thesis using p fr zs J n by (auto intro!: exI[of _ "zs @ [(Fresh (fst s), w)]"])
    qed
    show "(\<exists>h' s'. list_body f h1 ?l s (at e) = Some (Inl s', h', ?l) \<and> ?J h' s' (xs @ [e]) ys) \<or>
        (\<exists>h' r. list_body f h1 ?l s (at e) = Some (Inr r, h', ?l) \<and> ?Q h' r xs e ys)"
    proof (cases "f (ekey e) v")
      case (MESSAGE m)
      then show ?thesis using c J n by (simp add: list_body_def map_pick_def)
    next
      case FAILURE
      then show ?thesis using c J n by (auto simp: list_body_def map_pick_def room_def)
    next
      case (SUCCESS w)
      then have "isl (map_pick f e)" using n by (simp add: map_pick_def)
      then show ?thesis using put[of w] SUCCESS c by (auto simp: list_body_def)
    next
      case (SUSPEND w g)
      then have "isl (map_pick f e)" using n by (simp add: map_pick_def)
      then show ?thesis using put[of w] SUSPEND c by (auto simp: list_body_def)
    qed
  next
    show "rooted h1 ?l t" if "?J h1 s xs ys" for h1 s xs ys using that rt by blast
    show "height t \<le> 32" using table_ok_height[OF ok] by simp
    show "?J h (lh, new0_list) [] (entries t)" using new0_list_rep[OF lh(1)] lh(2) by (auto intro: exI[of _ "[]"])
  qed
  then show ?thesis
  proof (elim disjE exE conjE)
    fix h1 s zs assume u: "each (list_body f) h ?l (lh, new0_list) = Some (Inl s, h1, ?l)" "h1 = h"
      "\<forall>x \<in> set (entries t). isl (map_pick f x)" "rep (fst s) (snd s) zs" "map snd zs = list_values f (entries t)"
      "frame lh (fst s) {}"
    then have "list_table lh h src f = Some (SUCCESS (fst s, snd s), h, src)"
      using lk same_lock[OF lk] by (simp add: list_table_def)
    moreover have "is_list (fst s) (snd s) (list_values f (entries t))" using u(4,5) by (auto simp: is_list_rep)
    ultimately show ?thesis using u by blast
  next
    fix h1 m xs e ys assume u: "each (list_body f) h ?l (lh, new0_list) = Some (Inr m, h1, ?l)" "h1 = h"
      "entries t = xs @ e # ys" "\<forall>x \<in> set xs. isl (map_pick f x)" "map_pick f e = Inr m"
    then have "list_table lh h src f = Some (MESSAGE m, h, src\<lparr>TLock := 1\<rparr>)" using lk by (simp add: list_table_def)
    then show ?thesis using u by blast
  qed
qed

section \<open>Union, difference and intersection\<close>

lemma kept_filter:
  "kept (\<lambda>e. Inl (if P e then Some (g e) else None)) es = map (\<lambda>e. (ekey e, g e, ehash e)) (filter P es)"
  by (induction es) (auto simp: kept_def map_filter_simps)

definition holds_key :: "('k, 'v) table \<Rightarrow> ('k, 'v) entry tree \<Rightarrow> ('k, 'v) entry \<Rightarrow> bool" where
  "holds_key tb t e \<longleftrightarrow> find_key (Compare tb) (ekey e) (ehash e) (entries t) \<noteq> None"

lemma holds_key_lock [simp]: "holds_key (tb\<lparr>TLock := n\<rparr>) = holds_key tb"
  by (simp add: holds_key_def fun_eq_iff)

lemma find_at_node:
  assumes "table_ok h tb t" and "cell_at h p = Some n" and "Key n = ekey e" and "Hash n = ehash e"
  shows "avl_find h tb (Key n) (Hash n) = Some (case find_key (Compare tb) (ekey e) (ehash e) (entries t) of None \<Rightarrow> 0 | Some x \<Rightarrow> at x)"
  using avl_find_spec[OF assms(1), of "ekey e" "ehash e"] assms(3,4) by simp

lemma found_entry:
  assumes "table_ok h tb t" and "find_key (Compare tb) k hk (entries t) = Some x"
  shows "at x \<noteq> 0" "get_slot h (at x) = Some (slot x)" "x \<in> set (entries t)"
proof -
  show x: "x \<in> set (entries t)" using find_key_Some[OF assms(2)] by simp
  have "rooted h tb t" using assms(1) by (simp add: table_ok_def)
  then show "at x \<noteq> 0" "get_slot h (at x) = Some (slot x)"
    using entry_nonnull[OF _ x] set_slot_spec(2)[OF assms(1) x] by simp_all
qed

lemma builds_minus:
  assumes "rooted h0 a ta" and "table_ok h0 b tb"
  shows "builds (minus_body b) h0 a ta (\<lambda>e. Inl (if \<not> holds_key b tb e then Some (slot e) else None))"
  unfolding builds_def
proof (intro allI impI)
  fix h out e ds assume x: "e \<in> set (entries ta)" "holds_list (Cells h0) h out ds"
  from entry_cell[OF rooted_kept[OF x(2) assms(1)] x(1)] obtain n where
    n: "cell_at h (at e) = Some n" "Key n = ekey e" "Slot n = slot e" "Hash n = ehash e" by blast
  have b: "table_ok h b tb" by (rule table_ok_kept[OF x(2) assms(2)])
  show "minus_body b h a out (at e) =
      (case Inl (if \<not> holds_key b tb e then Some (slot e) else None) of
         Inr m \<Rightarrow> Some (Inr m, h, a) | Inl None \<Rightarrow> Some (Inl out, h, a)
       | Inl (Some v) \<Rightarrow> do { (h, out) \<leftarrow> add_node h out (at e) v; Some (Inl out, h, a) })"
    using find_at_node[OF b n(1,2,4)] n found_entry(1)[OF b, of "ekey e" "ehash e"]
    by (cases "find_key (Compare b) (ekey e) (ehash e) (entries tb)") (simp_all add: minus_body_def holds_key_def)
qed

lemma builds_times_left:
  assumes "rooted h0 a ta" and "table_ok h0 b tb"
  shows "builds (times_left_body b) h0 a ta (\<lambda>e. Inl (if holds_key b tb e then Some (slot e) else None))"
  unfolding builds_def
proof (intro allI impI)
  fix h out e ds assume x: "e \<in> set (entries ta)" "holds_list (Cells h0) h out ds"
  from entry_cell[OF rooted_kept[OF x(2) assms(1)] x(1)] obtain n where
    n: "cell_at h (at e) = Some n" "Key n = ekey e" "Slot n = slot e" "Hash n = ehash e" by blast
  have b: "table_ok h b tb" by (rule table_ok_kept[OF x(2) assms(2)])
  show "times_left_body b h a out (at e) =
      (case Inl (if holds_key b tb e then Some (slot e) else None) of
         Inr m \<Rightarrow> Some (Inr m, h, a) | Inl None \<Rightarrow> Some (Inl out, h, a)
       | Inl (Some v) \<Rightarrow> do { (h, out) \<leftarrow> add_node h out (at e) v; Some (Inl out, h, a) })"
    using find_at_node[OF b n(1,2,4)] n found_entry(1)[OF b, of "ekey e" "ehash e"]
    by (cases "find_key (Compare b) (ekey e) (ehash e) (entries tb)") (simp_all add: times_left_body_def holds_key_def)
qed

text \<open>The value that the first table has for the key of an entry of the second.\<close>

definition value_for :: "('k, 'v) table \<Rightarrow> ('k, 'v) entry tree \<Rightarrow> ('k, 'v) entry \<Rightarrow> 'v option" where
  "value_for tb t e = (case find_key (Compare tb) (ekey e) (ehash e) (entries t) of Some x \<Rightarrow> slot x | None \<Rightarrow> None)"

lemma value_for_lock [simp]: "value_for (tb\<lparr>TLock := n\<rparr>) = value_for tb"
  by (simp add: value_for_def fun_eq_iff)

lemma builds_times_right:
  assumes "rooted h0 b tb" and "table_ok h0 a ta"
  shows "builds (times_right_body a) h0 b tb (\<lambda>e. Inl (if holds_key a ta e then Some (value_for a ta e) else None))"
  unfolding builds_def
proof (intro allI impI)
  fix h out e ds assume x: "e \<in> set (entries tb)" "holds_list (Cells h0) h out ds"
  from entry_cell[OF rooted_kept[OF x(2) assms(1)] x(1)] obtain n where
    n: "cell_at h (at e) = Some n" "Key n = ekey e" "Slot n = slot e" "Hash n = ehash e" by blast
  have a: "table_ok h a ta" by (rule table_ok_kept[OF x(2) assms(2)])
  show "times_right_body a h b out (at e) =
      (case Inl (if holds_key a ta e then Some (value_for a ta e) else None) of
         Inr m \<Rightarrow> Some (Inr m, h, b) | Inl None \<Rightarrow> Some (Inl out, h, b)
       | Inl (Some v) \<Rightarrow> do { (h, out) \<leftarrow> add_node h out (at e) v; Some (Inl out, h, b) })"
    using find_at_node[OF a n(1,2,4)] n found_entry(1,2)[OF a, of "ekey e" "ehash e"]
    by (cases "find_key (Compare a) (ekey e) (ehash e) (entries ta)") (simp_all add: times_right_body_def holds_key_def value_for_def)
qed

lemma minus_table_spec:
  fixes ta tb :: "('k, 'v) entry tree"
  assumes a: "table_ok h a ta" "TLock a = 0" and b: "table_ok h b tb" "TLock b = 0" and "Compare a = dcmp"
    and "TFresh h + Count a \<le> max_cells"
  shows "\<exists>out h'. minus_table dcmp dhash h a b = Some (out, h', a, b) \<and> regrown (avl_create dcmp dhash) out \<and>
    holds_list (Cells h) h' out (map datum (filter (\<lambda>e. \<not> holds_key b tb e) (entries ta)))"
proof -
  let ?a = "a\<lparr>TLock := 1\<rparr>" and ?b = "b\<lparr>TLock := 1\<rparr>" and ?out = "avl_create dcmp dhash :: ('k, 'v) table"
  have ok: "table_ok h ?a ta" "table_ok h ?b tb" using a b by simp_all
  have room: "troom (h, ?out) (length (entries ta) + 0)" using assms(6) a(1) by (auto simp: troom_def table_ok_def rooted_def)
  have out: "?out = avl_create (Compare ?a) dhash" using assms(5) by simp
  have bl: "builds (minus_body ?b) h ?a ta (\<lambda>e. Inl (if \<not> holds_key ?b tb e then Some (slot e) else None))"
    by (rule builds_minus[OF rooted_lock[OF a(1)] ok(2)])
  from build_loop_all[OF ok(1) bl _ out room] obtain h' out' where u: "each (minus_body ?b) h ?a ?out = Some (Inl out', h', ?a)"
    "holds_list (Cells h) h' out' (map datum (filter (\<lambda>e. \<not> holds_key ?b tb e) (entries ta)))" "regrown ?out out'"
    unfolding kept_filter datum_def[symmetric] by auto
  then show ?thesis using a(2) b(2) same_lock[OF a(2)] same_lock[OF b(2)]
    by (simp add: minus_table_def holds_key_def)
qed

lemma times_table_spec:
  fixes ta tb :: "('k, 'v) entry tree"
  assumes a: "table_ok h a ta" "TLock a = 0" and b: "table_ok h b tb" "TLock b = 0" and cmp: "Compare a = dcmp" "Compare b = dcmp"
    and fr: "TFresh h + Count a \<le> max_cells" "TFresh h + Count b \<le> max_cells"
  shows "\<exists>out h'. times_table dcmp dhash h a b = Some (out, h', a\<lparr>TLock := 2\<rparr>, b\<lparr>TLock := 2\<rparr>) \<and>
    regrown (avl_create dcmp dhash) out \<and>
    holds_list (Cells h) h' out
      (if Count a < Count b then map datum (filter (holds_key b tb) (entries ta))
       else map (\<lambda>e. (ekey e, value_for a ta e, ehash e)) (filter (holds_key a ta) (entries tb)))"
proof -
  let ?a = "a\<lparr>TLock := 1\<rparr>" and ?b = "b\<lparr>TLock := 1\<rparr>" and ?out = "avl_create dcmp dhash :: ('k, 'v) table"
  have ok: "table_ok h ?a ta" "table_ok h ?b tb" using a b by simp_all
  have room: "troom (h, ?out) (length (entries ta) + 0)" "troom (h, ?out) (length (entries tb) + 0)"
    using fr a(1) b(1) by (auto simp: troom_def table_ok_def rooted_def)
  have out: "?out = avl_create (Compare ?a) dhash" "?out = avl_create (Compare ?b) dhash" using cmp by simp_all
  have lock: "t_rdlock ?a = Some (a\<lparr>TLock := 2\<rparr>)" "t_rdlock ?b = Some (b\<lparr>TLock := 2\<rparr>)" by (simp_all add: t_rdlock_def)
  show ?thesis
  proof (cases "Count a < Count b")
    case True
    have bl: "builds (times_left_body ?b) h ?a ta (\<lambda>e. Inl (if holds_key ?b tb e then Some (slot e) else None))"
      by (rule builds_times_left[OF rooted_lock[OF a(1)] ok(2)])
    from build_loop_all[OF ok(1) bl _ out(1) room(1)] obtain h' out' where
      u: "each (times_left_body ?b) h ?a ?out = Some (Inl out', h', ?a)"
      "holds_list (Cells h) h' out' (map datum (filter (holds_key ?b tb) (entries ta)))" "regrown ?out out'"
      unfolding kept_filter datum_def[symmetric] by auto
    then show ?thesis using a(2) b(2) True lock
      by (simp add: times_table_def holds_key_def)
  next
    case False
    have bl: "builds (times_right_body ?a) h ?b tb (\<lambda>e. Inl (if holds_key ?a ta e then Some (value_for ?a ta e) else None))"
      by (rule builds_times_right[OF rooted_lock[OF b(1)] ok(1)])
    from build_loop_all[OF ok(2) bl _ out(2) room(2)] obtain h' out' where
      u: "each (times_right_body ?a) h ?b ?out = Some (Inl out', h', ?b)"
      "holds_list (Cells h) h' out' (map (\<lambda>e. (ekey e, value_for ?a ta e, ehash e)) (filter (holds_key ?a ta) (entries tb)))"
      "regrown ?out out'"
      unfolding kept_filter by auto
    then show ?thesis using a(2) b(2) False lock
      by (simp add: times_table_def holds_key_def value_for_def)
  qed
qed

text \<open>The second half of a union: each entry replaces the one with its key, or is added.\<close>

definition hashed :: "('k \<Rightarrow> int) \<Rightarrow> ('k, 'v) entry tree \<Rightarrow> bool" where
  "hashed hf t \<longleftrightarrow> (\<forall>e \<in> set (entries t). ehash e = ul (hf (ekey e)))"

lemma same_key_toward:
  assumes "Compare tb = cmp" and "HashFn tb = hf" and "ehash e = ul (hf (ekey e))"
  shows "same_key (h, tb) k (ekey e) \<longleftrightarrow> toward cmp k (ul (hf k)) e = 0"
  using assms by (auto simp: same_key_def toward_zero hash_of_def)

lemma put_loop:
  fixes t :: "('k, 'v) entry tree"
  assumes ok: "table_ok h0 src t" and cmp: "Compare src = cmp" "hashed hf t"
    and out: "holds_list (Cells h0) h out ds" "Compare out = cmp" "HashFn out = hf" and room: "troom (h, out) (length (entries t))"
  shows "\<exists>h' out'. each copy_body h src out = Some (Inl out', h', src) \<and> tholds (Cells h0) h' out' \<and>
    TLock out' = TLock out \<and> Default out' = Default out \<and>
    fetch (h', out') = (\<lambda>k. case find_key cmp k (ul (hf k)) (entries t) of Some e \<Rightarrow> Some (slot e) | None \<Rightarrow> fetch (h, out) k)"
proof -
  let ?J = "\<lambda>h1 o' xs (ys :: ('k, 'v) entry list). tholds (Cells h0) h1 o' \<and> troom (h1, o') (length ys) \<and>
      same_key (h1, o') = same_key (h, out) \<and> hash_of o' = hash_of out \<and> TLock o' = TLock out \<and> Default o' = Default out \<and>
      fetch (h1, o') = (\<lambda>k. case find_key cmp k (ul (hf k)) xs of Some e \<Rightarrow> Some (slot e) | None \<Rightarrow> fetch (h, out) k)"
  let ?Q = "\<lambda>(h1 :: ('k, 'v) mem) (m :: ('k, 'v) table) (xs :: ('k, 'v) entry list) e (ys :: ('k, 'v) entry list). False"
  have s: "key_order cmp" "sorted_wrt (before cmp) (entries t)" "rooted h0 src t" using ok cmp by (auto simp: table_ok_def)
  have "(\<exists>h' s'. each copy_body h src out = Some (Inl s', h', src) \<and> ?J h' s' (entries t) []) \<or>
    (\<exists>h' r xs e ys. each copy_body h src out = Some (Inr r, h', src) \<and> entries t = xs @ e # ys \<and> ?Q h' r xs e ys)"
  proof (rule each_same_rule[where J = ?J and Q = ?Q])
    fix h1 o' xs e ys assume J: "?J h1 o' xs (e # ys)" and t: "entries t = xs @ e # ys"
    obtain ds1 where hl: "holds_list (Cells h0) h1 o' ds1" using tholds_holds_list J by blast
    from entry_cell[OF rooted_kept[OF hl s(3)], of e] t obtain n where
      n: "cell_at h1 (at e) = Some n" "Key n = ekey e" "Slot n = slot e" "Hash n = ehash e" by auto
    have he: "ehash e = ul (hf (ekey e))" using cmp(2) t by (simp add: hashed_def)
    then have hh: "Hash n = hash_of o' (Key n)" using n J out(3) by (simp add: hash_of_def)
    have "troom (h1, o') (Suc (length ys))" "tholds (Cells h0) h1 o'" using J by simp_all
    from add_node_put[OF this(2) n(1) hh this(1), of "slot e"] obtain h2 o2 where
      u: "add_node h1 o' (at e) (slot e) = Some (h2, o2)" "tholds (Cells h0) h2 o2" "troom (h2, o2) (length ys)"
      "TLock o2 = TLock o'" "Default o2 = Default o'" "same_key (h2, o2) = same_key (h1, o')"
      "fetch (h2, o2) = (\<lambda>k'. if same_key (h1, o') k' (Key n) then Some (slot e) else fetch (h1, o') k')" by blast
    have ho: "hash_of o2 = hash_of out" using regrown_simps[OF add_node_regrown[OF u(1)]] J by (simp add: hash_of_def fun_eq_iff)
    have "fetch (h2, o2) k = (case find_key cmp k (ul (hf k)) (xs @ [e]) of Some e \<Rightarrow> Some (slot e) | None \<Rightarrow> fetch (h, out) k)" for k
    proof -
      have sk: "same_key (h1, o') k (Key n) \<longleftrightarrow> toward cmp k (ul (hf k)) e = 0"
        using same_key_toward[of out cmp hf e h k] out he J n(2) by simp
      have "toward cmp k (ul (hf k)) e = 0 \<Longrightarrow> find_key cmp k (ul (hf k)) xs = None"
        using find_key_middle(2)[OF s(1) s(2)[unfolded t], of k "ul (hf k)"] by (simp add: find_key_append split: option.splits)
      then show ?thesis using u(7) sk J by (simp add: find_key_append split: option.split)
    qed
    moreover have "copy_body h1 src o' (at e) = Some (Inl o2, h2, src)"
      using n u(1) by (simp add: copy_body_def get_slot_def)
    ultimately show "(\<exists>h' s'. copy_body h1 src o' (at e) = Some (Inl s', h', src) \<and> ?J h' s' (xs @ [e]) ys) \<or>
        (\<exists>h' r. copy_body h1 src o' (at e) = Some (Inr r, h', src) \<and> ?Q h' r xs e ys)"
      using u J ho by (intro disjI1 exI[of _ h2] exI[of _ o2]) auto
  next
    show "rooted h1 src t" if "?J h1 o' xs ys" for h1 o' xs ys
    proof -
      have "tholds (Cells h0) h1 o'" using that by simp
      then obtain ds1 where "holds_list (Cells h0) h1 o' ds1" using tholds_holds_list by blast
      then show ?thesis by (rule rooted_kept[OF _ s(3)])
    qed
    show "height t \<le> 32" using table_ok_height[OF ok] by simp
    show "?J h out [] (entries t)" using out room holds_list_tholds[OF out(1)] by simp
  qed
  then show ?thesis by auto
qed

lemma fetch_list:
  assumes "holds_list F h tb ds"
  shows "fetch (h, tb) k = map_option (\<lambda>d. fst (snd d)) (List.find (\<lambda>d. dtoward (Compare tb) k (hash_of tb k) d = 0) ds)"
proof -
  from assms obtain t where t: "table_ok h tb t" "map datum (entries t) = ds" by (auto simp: holds_list_def)
  have "map_option slot (List.find (\<lambda>e. toward cmp k hk e = 0) es) =
      map_option (\<lambda>d. fst (snd d)) (List.find (\<lambda>d. dtoward cmp k hk d = 0) (map datum es))" for cmp hk and es :: "('a, 'b) entry list"
    by (induction es) (simp_all, simp add: datum_def)
  then show ?thesis unfolding fetch_spec[OF t(1)] find_key_def t(2)[symmetric] .
qed

lemma plus_table_spec:
  fixes ta tb :: "('k, 'v) entry tree"
  assumes a: "table_ok h a ta" "TLock a = 0" and b: "table_ok h b tb" "TLock b = 0"
    and cmp: "Compare a = dcmp" "Compare b = dcmp" and hf: "HashFn a = dhash" "HashFn b = dhash" "hashed dhash tb"
    and room: "Count a + Count b \<le> max_entries" "TFresh h + Count a + Count b \<le> max_cells"
  shows "\<exists>out h'. plus_table dcmp dhash h a b = Some (out, h', a, b) \<and> trep (Cells h) (h', out) \<and> Default out = None \<and>
    fetch (h', out) = (\<lambda>k. case fetch (h, b) k of Some v \<Rightarrow> Some v | None \<Rightarrow> fetch (h, a) k)"
proof -
  let ?a = "a\<lparr>TLock := 1\<rparr>" and ?b = "b\<lparr>TLock := 1\<rparr>" and ?out = "avl_create dcmp dhash :: ('k, 'v) table"
  have ok: "table_ok h ?a ta" "table_ok h ?b tb" using a b by simp_all
  have cnt: "Count a = length (entries ta)" "Count b = length (entries tb)" using a(1) b(1) by (auto simp: table_ok_def rooted_def)
  have rm: "troom (h, ?out) (length (entries ta) + length (entries tb))" using room cnt by (simp add: troom_def)
  have out: "?out = avl_create (Compare ?a) dhash" using cmp by simp
  from build_loop_all[OF ok(1) builds_copy[OF rooted_lock[OF a(1)]] _ out rm] obtain h1 o1 where
    u: "each copy_body h ?a ?out = Some (Inl o1, h1, ?a)"
    "holds_list (Cells h) h1 o1 (kept (\<lambda>e. Inl (Some (slot e)) :: 'v option option + ('k, 'v) table) (entries ta))"
    "regrown ?out o1" "troom (h1, o1) (length (entries tb))" by auto
  have k: "kept (\<lambda>e. Inl (Some (slot e)) :: 'v option option + ('k, 'v) table) (entries ta) = map datum (entries ta)" by (rule kept_all) simp
  note o = regrown_simps[OF u(3)]
  have hl: "holds_list (Cells h) h1 o1 (map datum (entries ta))" using u(2) unfolding k .
  have okb: "table_ok h1 ?b tb" by (rule table_ok_kept[OF hl ok(2)])
  have f1: "fetch (h1, o1) = fetch (h, a)"
  proof
    fix key
    have "holds_list Map.empty h a (map datum (entries ta))" using a(1) by (auto simp: holds_list_def)
    from fetch_list[OF this, of key] fetch_list[OF hl, of key] show "fetch (h1, o1) key = fetch (h, a) key"
      using o cmp(1) hf(1) by (simp add: hash_of_def)
  qed
  have oc: "Compare o1 = dcmp" "HashFn o1 = dhash" "Compare ?b = dcmp" using o cmp(2) by simp_all
  from put_loop[OF ok(2) oc(3) hf(3), of h1 o1 "map datum (entries ta)"] hl oc u(4) obtain h2 o2 where
    w: "each copy_body h1 ?b o1 = Some (Inl o2, h2, ?b)" "tholds (Cells h) h2 o2" "TLock o2 = TLock o1" "Default o2 = Default o1"
    "fetch (h2, o2) = (\<lambda>k. case find_key dcmp k (ul (dhash k)) (entries tb) of Some e \<Rightarrow> Some (slot e) | None \<Rightarrow> fetch (h1, o1) k)"
    by blast
  have "fetch (h2, o2) = (\<lambda>k. case fetch (h, b) k of Some v \<Rightarrow> Some v | None \<Rightarrow> fetch (h, a) k)"
    unfolding w(5) f1 fetch_spec[OF b(1)] cmp(2) hash_of_def hf(2) by (rule ext) (simp split: option.split)
  moreover have "plus_table dcmp dhash h a b = Some (o2, h2, a, b)"
    using u(1) w(1) a(2) b(2) same_lock[OF a(2)] same_lock[OF b(2)] by (simp add: plus_table_def)
  moreover have "trep (Cells h) (h2, o2)" "Default o2 = None" using w(2,3,4) o by (simp_all add: trep_def)
  ultimately show ?thesis by blast
qed

text \<open>The contents of a difference and of an intersection, as maps.\<close>

lemma find_filter_const:
  "(\<And>x. x \<in> set xs \<Longrightarrow> Q x \<Longrightarrow> P x = p) \<Longrightarrow> List.find Q (filter P xs) = (if p then List.find Q xs else None)"
  by (induction xs) (auto simp: find_None_iff)

lemma holds_key_fetch:
  assumes ord: "key_order cmp" and b: "table_ok h b tb" "Compare b = cmp" "HashFn b = hf"
    and e: "toward cmp k (ul (hf k)) e = 0"
  shows "holds_key b tb e \<longleftrightarrow> fetch (h, b) k \<noteq> None"
    and "value_for b tb e = (case fetch (h, b) k of Some v \<Rightarrow> v | None \<Rightarrow> None)"
  using find_key_cong[OF ord e, of "entries tb"] fetch_spec[OF b(1), of k] b(2,3)
  by (auto simp: holds_key_def value_for_def hash_of_def split: option.split)

lemma fetch_find:
  assumes "table_ok h a ta" and "Compare a = cmp" and "HashFn a = hf"
  shows "fetch (h, a) k = map_option slot (List.find (\<lambda>e. toward cmp k (ul (hf k)) e = 0) (entries ta))"
  using fetch_spec[OF assms(1), of k] assms(2,3) by (simp add: find_key_def hash_of_def)

lemma find_datum:
  "map_option (\<lambda>d. fst (snd d)) (List.find (\<lambda>d. dtoward cmp k hk d = 0) (map (\<lambda>e. (ekey e, g e, ehash e)) es)) =
   map_option g (List.find (\<lambda>e. toward cmp k hk e = 0) es)"
  by (induction es) auto

lemma datum_fun: "datum = (\<lambda>e. (ekey e, slot e, ehash e))"
  by (simp add: datum_def fun_eq_iff)

lemma minus_fetch:
  assumes a: "table_ok h a ta" "Compare a = cmp" "HashFn a = hf" and b: "table_ok h b tb" "Compare b = cmp" "HashFn b = hf"
    and out: "holds_list F h' out (map datum (filter (\<lambda>e. \<not> holds_key b tb e) (entries ta)))" "Compare out = cmp" "HashFn out = hf"
  shows "fetch (h', out) k = (if fetch (h, b) k = None then fetch (h, a) k else None)"
proof -
  have ord: "key_order cmp" using a by (auto simp: table_ok_def)
  have "fetch (h', out) k = map_option slot (List.find (\<lambda>e. toward cmp k (ul (hf k)) e = 0) (filter (\<lambda>e. \<not> holds_key b tb e) (entries ta)))"
    using fetch_list[OF out(1), of k] out(2,3) unfolding datum_fun find_datum hash_of_def by simp
  also have "\<dots> = (if fetch (h, b) k = None then fetch (h, a) k else None)"
    unfolding fetch_find[OF a]
    by (subst find_filter_const[where p = "fetch (h, b) k = None"]) (use holds_key_fetch(1)[OF ord b] in auto)
  finally show ?thesis .
qed

lemma times_fetch:
  assumes a: "table_ok h a ta" "Compare a = cmp" "HashFn a = hf" and b: "table_ok h b tb" "Compare b = cmp" "HashFn b = hf"
    and out: "holds_list F h' out (if c then map datum (filter (holds_key b tb) (entries ta))
       else map (\<lambda>e. (ekey e, value_for a ta e, ehash e)) (filter (holds_key a ta) (entries tb)))"
      "Compare out = cmp" "HashFn out = hf"
  shows "fetch (h', out) k = (if fetch (h, b) k = None then None else fetch (h, a) k)"
proof -
  have ord: "key_order cmp" using a by (auto simp: table_ok_def)
  show ?thesis
  proof (cases c)
    case True
    then have "fetch (h', out) k = map_option slot (List.find (\<lambda>e. toward cmp k (ul (hf k)) e = 0) (filter (holds_key b tb) (entries ta)))"
      using fetch_list[OF out(1), of k] out(2,3) unfolding datum_fun if_P[OF True] find_datum hash_of_def by simp
    also have "\<dots> = (if fetch (h, b) k \<noteq> None then fetch (h, a) k else None)"
      unfolding fetch_find[OF a]
      by (subst find_filter_const[where p = "fetch (h, b) k \<noteq> None"]) (use holds_key_fetch(1)[OF ord b] in auto)
    finally show ?thesis by simp
  next
    case False
    then have "fetch (h', out) k =
        map_option (value_for a ta) (List.find (\<lambda>e. toward cmp k (ul (hf k)) e = 0) (filter (holds_key a ta) (entries tb)))"
      using fetch_list[OF out(1), of k] out(2,3) unfolding if_not_P[OF False] find_datum hash_of_def by simp
    also have "\<dots> = (if fetch (h, a) k \<noteq> None then map_option (value_for a ta) (List.find (\<lambda>e. toward cmp k (ul (hf k)) e = 0) (entries tb)) else None)"
      by (subst find_filter_const[where p = "fetch (h, a) k \<noteq> None"]) (use holds_key_fetch(1)[OF ord a] in auto)
    also have "\<dots> = (if fetch (h, b) k = None then None else fetch (h, a) k)"
    proof (cases "List.find (\<lambda>e. toward cmp k (ul (hf k)) e = 0) (entries tb)")
      case None
      then show ?thesis unfolding fetch_find[OF b] by simp
    next
      case (Some e)
      then have "toward cmp k (ul (hf k)) e = 0" by (simp add: find_Some_iff) blast
      then show ?thesis using Some holds_key_fetch(2)[OF ord a] unfolding fetch_find[OF b] by (auto split: option.split)
    qed
    finally show ?thesis .
  qed
qed

section \<open>The properties\<close>

text \<open>
  C25: copy returns a new unlocked table with the contents of the old one in the same order, the same
  functions and the same default; map(f) one with the keys on which f returns a value, and this value; list(f)
  the list of the results of f, in order. The old table is left as it was. A message of f ends map and
  list at once, with the table still read-locked.
\<close>

theorem table_copy_correct:
  assumes "table_ok h src t" and "TLock src = 0" and "TFresh h + Count src \<le> max_cells"
    and "\<forall>e \<in> set (entries t). slot e \<noteq> None" and "heap_ok lh" and "room lh (length (entries t))"
  shows "(\<exists>out h'. copy_table h src = Some (out, h', src) \<and> holds_list (Cells h) h' out (map datum (entries t)) \<and>
      Compare out = Compare src \<and> HashFn out = HashFn src \<and> Default out = Default src \<and> TLock out = 0) \<and>
    ((\<forall>e \<in> set (entries t). isl (map_pick f e)) \<longrightarrow>
      (\<exists>out h'. map_table h src f = Some (SUCCESS out, h', src) \<and>
         holds_list (Cells h) h' out (kept (map_pick f) (entries t)) \<and>
         Compare out = Compare src \<and> HashFn out = HashFn src \<and> Default out = None \<and> TLock out = 0) \<and>
      (\<exists>lh' l. list_table lh h src f = Some (SUCCESS (lh', l), h, src) \<and>
         is_list lh' l (list_values f (entries t)) \<and> frame lh lh' {})) \<and>
    (\<not> (\<forall>e \<in> set (entries t). isl (map_pick f e)) \<longrightarrow>
      (\<exists>m h' xs e ys. map_table h src f = Some (MESSAGE m, h', src\<lparr>TLock := 1\<rparr>) \<and>
         list_table lh h src f = Some (MESSAGE m, h, src\<lparr>TLock := 1\<rparr>) \<and>
         entries t = xs @ e # ys \<and> (\<forall>x \<in> set xs. isl (map_pick f x)) \<and> map_pick f e = Inr m))"
proof -
  note m = map_table_spec[OF assms(1-4), of f] and l = list_table_spec[OF assms(1,2,4-6), of f]
  have first: "xs' = xs \<and> e' = e" if "xs @ e # ys = xs' @ e' # ys'" "\<forall>x \<in> set xs. isl (map_pick f x)"
    "\<forall>x \<in> set xs'. isl (map_pick f x)" "map_pick f e = Inr i" "map_pick f e' = Inr i'" for xs e ys xs' e' ys' i i'
  proof -
    have 1: "takeWhile (\<lambda>x. isl (map_pick f x)) (xs @ e # ys) = xs" using that(2,4) by simp
    have "takeWhile (\<lambda>x. isl (map_pick f x)) (xs' @ e' # ys') = xs'" using that(3,5) by simp
    then have "xs = xs'" using 1 unfolding that(1) by simp
    then show ?thesis using that(1) by simp
  qed
  have "\<exists>m h' xs e ys. map_table h src f = Some (MESSAGE m, h', src\<lparr>TLock := 1\<rparr>) \<and>
         list_table lh h src f = Some (MESSAGE m, h, src\<lparr>TLock := 1\<rparr>) \<and>
         entries t = xs @ e # ys \<and> (\<forall>x \<in> set xs. isl (map_pick f x)) \<and> map_pick f e = Inr m"
    if n: "\<not> (\<forall>e \<in> set (entries t). isl (map_pick f e))"
  proof -
    from m n obtain i h' xs e ys where u: "map_table h src f = Some (MESSAGE i, h', src\<lparr>TLock := 1\<rparr>)"
      "entries t = xs @ e # ys" "\<forall>x \<in> set xs. isl (map_pick f x)" "map_pick f e = Inr i" by blast
    from l n obtain j xs' e' ys' where w: "list_table lh h src f = Some (MESSAGE j, h, src\<lparr>TLock := 1\<rparr>)"
      "entries t = xs' @ e' # ys'" "\<forall>x \<in> set xs'. isl (map_pick f x)" "map_pick f e' = Inr j" by blast
    have "xs @ e # ys = xs' @ e' # ys'" using u(2) w(2) by simp
    from first[OF this u(3) w(3) u(4) w(4)] have "i = j" using u(4) w(4) by simp
    then show ?thesis using u w(1) by blast
  qed
  moreover have "(\<exists>out h'. map_table h src f = Some (SUCCESS out, h', src) \<and>
         holds_list (Cells h) h' out (kept (map_pick f) (entries t)) \<and>
         Compare out = Compare src \<and> HashFn out = HashFn src \<and> Default out = None \<and> TLock out = 0) \<and>
      (\<exists>lh' l. list_table lh h src f = Some (SUCCESS (lh', l), h, src) \<and>
         is_list lh' l (list_values f (entries t)) \<and> frame lh lh' {})"
    if a: "\<forall>e \<in> set (entries t). isl (map_pick f e)"
  proof -
    have no: "\<not> (entries t = xs @ e # ys \<and> map_pick f e = Inr i)" for xs e ys i using a by auto
    show ?thesis using m l no by blast
  qed
  ultimately show ?thesis using copy_table_spec[OF assms(1-3)] by blast
qed

lemma table_copy_correct_witness:
  "\<exists>out h' lh' l. map_table sample_mem sample_table (\<lambda>k v. if k = 2 then FAILURE else SUCCESS (k + v)) = Some (SUCCESS out, h', sample_table) \<and>
     holds_list (Cells sample_mem) h' out [(1, Some 11, 1), (3, Some 33, 3)] \<and>
     list_table (empty_heap :: int heap) sample_mem sample_table (\<lambda>k v. if k = 2 then FAILURE else SUCCESS (k + v)) =
       Some (SUCCESS (lh', l), sample_mem, sample_table) \<and> is_list lh' l [11, 33]"
proof -
  let ?f = "\<lambda>k v :: int. if k = 2 then FAILURE else SUCCESS (k + v) :: (int, int, unit) reply"
  have r: "room (empty_heap :: int heap) (length (entries sample_tree))"
    by (simp add: room_def empty_heap_def max_nodes_def sample_table_simps)
  have k: "kept (map_pick ?f) (entries sample_tree) = [(1, Some 11, 1), (3, Some 33, 3)]"
    "list_values ?f (entries sample_tree) = [11, 33]" "\<forall>e \<in> set (entries sample_tree). isl (map_pick ?f e)"
    by (simp_all add: sample_table_simps kept_def list_values_def map_filter_simps map_pick_def)
  have "TFresh sample_mem + Count sample_table \<le> max_cells" by (simp add: sample_table_simps max_cells_def)
  from table_copy_correct[OF sample_table_ok(1) sample_table_simps(1) this _ heap_ok_empty r, of ?f] k
  show ?thesis by (simp add: sample_table_simps) blast
qed

text \<open>
  C26: For unlocked tables with the default comparison and hash function, where the second holds the hashes of its keys, a + b maps a key to its value in b, or else in a;
  a - b has the keys of a that are not in b, and a * b those that are, with their values in a. Each is a new
  unlocked table; + and - leave the operands as they were, * leaves each of them locked twice.
\<close>

theorem table_set_operations:
  assumes "table_ok h a ta" and "TLock a = 0" and "table_ok h b tb" and "TLock b = 0"
    and "Compare a = dcmp" and "Compare b = dcmp" and "HashFn a = dhash" and "HashFn b = dhash" and "hashed dhash tb"
    and "Count a + Count b \<le> max_entries" and "TFresh h + Count a + Count b \<le> max_cells"
  shows "(\<exists>out h'. plus_table dcmp dhash h a b = Some (out, h', a, b) \<and> trep (Cells h) (h', out) \<and>
      fetch (h', out) = (\<lambda>k. case fetch (h, b) k of Some v \<Rightarrow> Some v | None \<Rightarrow> fetch (h, a) k)) \<and>
    (\<exists>out h'. minus_table dcmp dhash h a b = Some (out, h', a, b) \<and> trep (Cells h) (h', out) \<and>
      fetch (h', out) = (\<lambda>k. if fetch (h, b) k = None then fetch (h, a) k else None)) \<and>
    (\<exists>out h'. times_table dcmp dhash h a b = Some (out, h', a\<lparr>TLock := 2\<rparr>, b\<lparr>TLock := 2\<rparr>) \<and> trep (Cells h) (h', out) \<and>
      fetch (h', out) = (\<lambda>k. if fetch (h, b) k = None then None else fetch (h, a) k))"
proof (intro conjI)
  show "\<exists>out h'. plus_table dcmp dhash h a b = Some (out, h', a, b) \<and> trep (Cells h) (h', out) \<and>
      fetch (h', out) = (\<lambda>k. case fetch (h, b) k of Some v \<Rightarrow> Some v | None \<Rightarrow> fetch (h, a) k)"
    using plus_table_spec[OF assms] by blast
  have r: "TFresh h + Count a \<le> max_cells" "TFresh h + Count b \<le> max_cells" using assms(11) by simp_all
  from minus_table_spec[OF assms(1-5) r(1), of dhash] obtain out h' where
    u: "minus_table dcmp dhash h a b = Some (out, h', a, b)" "regrown (avl_create dcmp dhash) out"
    "holds_list (Cells h) h' out (map datum (filter (\<lambda>e. \<not> holds_key b tb e) (entries ta)))" by blast
  note o = regrown_simps[OF u(2)]
  have "fetch (h', out) = (\<lambda>k. if fetch (h, b) k = None then fetch (h, a) k else None)"
    by (rule ext) (rule minus_fetch[OF assms(1,5,7,3,6,8) u(3)], use o in simp_all)
  then show "\<exists>out h'. minus_table dcmp dhash h a b = Some (out, h', a, b) \<and> trep (Cells h) (h', out) \<and>
      fetch (h', out) = (\<lambda>k. if fetch (h, b) k = None then fetch (h, a) k else None)"
    using u o holds_list_tholds[OF u(3)] by (auto simp: trep_def)
  from times_table_spec[OF assms(1-6) r, of dhash] obtain out h' where
    u: "times_table dcmp dhash h a b = Some (out, h', a\<lparr>TLock := 2\<rparr>, b\<lparr>TLock := 2\<rparr>)" "regrown (avl_create dcmp dhash) out"
    "holds_list (Cells h) h' out
      (if Count a < Count b then map datum (filter (holds_key b tb) (entries ta))
       else map (\<lambda>e. (ekey e, value_for a ta e, ehash e)) (filter (holds_key a ta) (entries tb)))" by blast
  note o = regrown_simps[OF u(2)]
  have "fetch (h', out) = (\<lambda>k. if fetch (h, b) k = None then None else fetch (h, a) k)"
    by (rule ext) (rule times_fetch[OF assms(1,5,7,3,6,8) u(3)], use o in simp_all)
  then show "\<exists>out h'. times_table dcmp dhash h a b = Some (out, h', a\<lparr>TLock := 2\<rparr>, b\<lparr>TLock := 2\<rparr>) \<and> trep (Cells h) (h', out) \<and>
      fetch (h', out) = (\<lambda>k. if fetch (h, b) k = None then None else fetch (h, a) k)"
    using u o holds_list_tholds[OF u(3)] by (auto simp: trep_def)
qed

lemma table_set_operations_witness:
  "\<exists>out h'. plus_table int_compare id sample_mem sample_table other_table = Some (out, h', sample_table, other_table) \<and>
     map (fetch (h', out)) [1, 2, 3, 4, 5] = [Some (Some 10), Some (Some 21), Some (Some 30), None, Some (Some 50)]"
proof -
  have h: "hashed id other_tree" by (simp add: hashed_def sample_table_simps)
  have c: "Count sample_table + Count other_table \<le> max_entries" "TFresh sample_mem + Count sample_table + Count other_table \<le> max_cells"
    by (simp_all add: sample_table_simps max_entries_def max_cells_def)
  from table_set_operations[OF sample_table_ok(1) sample_table_simps(1) sample_table_ok(2) sample_table_simps(2-6) h c]
  obtain out h' where "plus_table int_compare id sample_mem sample_table other_table = Some (out, h', sample_table, other_table)"
    "fetch (h', out) = (\<lambda>k. case fetch (sample_mem, other_table) k of Some v \<Rightarrow> Some v | None \<Rightarrow> fetch (sample_mem, sample_table) k)" by blast
  then show ?thesis
    by (intro exI[of _ out] exI[of _ h'])
      (simp add: fetch_spec[OF sample_table_ok(1)] fetch_spec[OF sample_table_ok(2)] sample_table_simps hash_of_def toward_def int_compare_def)
qed

end
