(* ===== verification/TableOps.thy ===== *)
theory TableOps
  imports TableMap
begin

text \<open>
  What the operations on one key of an \<^verbatim>\<open>Agg$Table\<close> do, on every branch, in terms of \<^const>\<open>fetch\<close>: the
  finite map that the table is, where a key may also be present without a value (after a failed default).
\<close>

section \<open>Insertion, deletion and lookup\<close>

definition value_of :: "'v option option \<Rightarrow> 'v option" where
  "value_of x = (case x of Some v \<Rightarrow> v | None \<Rightarrow> None)"

lemma value_of_simps [simp]: "value_of None = None" "value_of (Some v) = v"
  by (simp_all add: value_of_def)

definition reply_of :: "'v option \<Rightarrow> ('v, 'v, unit) reply" where
  "reply_of v = (case v of Some w \<Rightarrow> SUCCESS w | None \<Rightarrow> FAILURE)"

lemma reply_of_simps [simp]: "reply_of None = FAILURE" "reply_of (Some v) = SUCCESS v"
  by (simp_all add: reply_of_def)

lemma insert_key_eq:
  "insert_key_method nil h tb k v = map_option (\<lambda>(h, tb). (SUCCESS (), h, tb)) (insert_c nil h tb k v)"
  by (auto simp: insert_key_method_def insert_c_def split: bind_splits option.splits)

lemma delete_eq: "delete_c h tb k = map_option (\<lambda>(r, h, tb). (if r = FAILURE then 1 else 0, h, tb)) (delete_key_method h tb k)"
  by (auto simp: delete_key_method_def delete_c_def split: bind_splits option.splits)

lemma insert_spec:
  assumes "trep F (h, tb)" and "troom (h, tb) (Suc n)"
  shows "\<exists>h' tb'. insert_c nil h tb k v = Some (h', tb') \<and> trep F (h', tb') \<and> troom (h', tb') n \<and>
    same_key (h', tb') = same_key (h, tb) \<and>
    fetch (h', tb') = (\<lambda>k'. if same_key (h, tb) k' k then Some (Some (case v of Some v \<Rightarrow> v | None \<Rightarrow> nil)) else fetch (h, tb) k')"
proof -
  from put_table_law[OF assms, of k "case v of Some v \<Rightarrow> v | None \<Rightarrow> nil"] show ?thesis
    by (cases v) (auto simp: put_table_def insert_c_def)
qed

lemma delete_spec:
  assumes "trep F (h, tb)" and "troom (h, tb) n"
  shows "\<exists>h' tb'. delete_key_method h tb k = Some (reply_of (value_of (fetch (h, tb) k)), h', tb') \<and> trep F (h', tb') \<and>
    troom (h', tb') n \<and> same_key (h', tb') = same_key (h, tb) \<and>
    fetch (h', tb') = (\<lambda>k'. if same_key (h, tb) k' k then None else fetch (h, tb) k')"
proof -
  from del_table_law[OF assms, of k] obtain s' where s: "del_table (h, tb) k = Some (value_of (fetch (h, tb) k), s')" "trep F s'" "troom s' n"
    "same_key s' = same_key (h, tb)" "fetch s' = (\<lambda>k'. if same_key (h, tb) k' k then None else fetch (h, tb) k')"
    unfolding value_of_def by blast
  obtain h' tb' where s': "s' = (h', tb')" by (cases s')
  from s(1) obtain q where q: "delete_key_method h tb k = Some (q, h', tb')"
    "(case q of SUCCESS v \<Rightarrow> Some v | _ \<Rightarrow> None) = value_of (fetch (h, tb) k)"
    by (auto simp: del_table_def s' bind_Some_iff)
  from q(1) have "(\<exists>w. q = SUCCESS w) \<or> q = FAILURE" by (auto simp: delete_key_method_def bind_Some_iff split: option.splits)
  then have "q = reply_of (value_of (fetch (h, tb) k))" using q(2) by (auto simp: reply_of_def split: option.splits)
  then show ?thesis using q(1) s s' by auto
qed

lemma lookup_spec:
  assumes "trep F (h, tb)"
  shows "index_c h tb k = Some (value_of (fetch (h, tb) k), tb)"
    and "in_table_method h k tb = Some (if fetch (h, tb) k = None then FAILURE else SUCCESS k, tb)"
proof -
  from assms obtain t where t: "table_ok h tb t" "TLock tb = 0" by (auto simp: trep_def tholds_def)
  have okl: "table_ok h (tb\<lparr>TLock := 1\<rparr>) t" using t(1) by simp
  have f: "avl_find h (tb\<lparr>TLock := 1\<rparr>) k (hash_of tb k) =
      Some (case find_key (Compare tb) k (hash_of tb k) (entries t) of None \<Rightarrow> 0 | Some e \<Rightarrow> at e)"
    using avl_find_spec[OF okl, of k "hash_of tb k"] by simp
  have e: "at e \<noteq> 0 \<and> get_slot h (at e) = Some (slot e)" if "find_key (Compare tb) k (hash_of tb k) (entries t) = Some e" for e
    using find_key_Some[OF that] set_slot_spec(2)[OF t(1), of e] entry_nonnull[of h tb t e] t(1) by (simp add: table_ok_def)
  show "index_c h tb k = Some (value_of (fetch (h, tb) k), tb)"
    using t(2) f e same_lock[OF t(2)] fetch_spec[OF t(1), of k]
    by (cases "find_key (Compare tb) k (hash_of tb k) (entries t)") (simp_all add: index_c_def)
  show "in_table_method h k tb = Some (if fetch (h, tb) k = None then FAILURE else SUCCESS k, tb)"
    using t(2) f e same_lock[OF t(2)] fetch_spec[OF t(1), of k]
    by (cases "find_key (Compare tb) k (hash_of tb k) (entries t)") (simp_all add: in_table_method_def)
qed

section \<open>Operations that may create an entry\<close>

lemma fetch_same:
  assumes "trep F s" and "same_key s k' k"
  shows "fetch s k' = fetch s k"
proof -
  obtain h tb where s: "s = (h, tb)" by (cases s)
  from assms(1) obtain t where t: "table_ok h tb t" by (auto simp: trep_def tholds_def s)
  have ord: "key_order (Compare tb)" using t by (simp add: table_ok_def)
  let ?e = "Entry 0 k None (hash_of tb k) :: ('a, 'b) entry"
  have "toward (Compare tb) k' (hash_of tb k') ?e = 0" using assms(2) by (simp add: s same_key_def toward_zero)
  from find_key_cong[OF ord this, of "entries t"] show ?thesis unfolding s fetch_spec[OF t] by simp
qed

text \<open>\<open>now F n s k x s'\<close>: the operation has left the table as it was except that the key \<open>k\<close> has \<open>x\<close> now.\<close>

definition now ::
  "(ptr \<Rightarrow> ('k, 'v) cell option) \<Rightarrow> nat \<Rightarrow> ('k, 'v) mem \<times> ('k, 'v) table \<Rightarrow> 'k \<Rightarrow> 'v option option \<Rightarrow>
   ('k, 'v) mem \<times> ('k, 'v) table \<Rightarrow> bool" where
  "now F n s k x s' \<longleftrightarrow> trep F s' \<and> troom s' n \<and> same_key s' = same_key s \<and>
     fetch s' = (\<lambda>k'. if same_key s k' k then x else fetch s k')"

lemma get_slot_set: "set_slot h p v = Some h' \<Longrightarrow> get_slot h' p = Some v"
  by (auto simp: set_slot_def get_slot_def cell_at_def split: if_splits)

text \<open>A probe under a lock, with what the method can do with the slot.\<close>

lemma probe_now:
  assumes "trep F (h, tb)" and "troom (h, tb) (Suc n)"
  shows "\<exists>p h1 tb1. avl_probe h (tb\<lparr>TLock := m\<rparr>) k (hash_of tb k) = Some (p, h1, tb1) \<and> TLock tb1 = m \<and>
    now F n (h, tb) k (Some (value_of (fetch (h, tb) k))) (h1, tb1\<lparr>TLock := 0\<rparr>) \<and>
    get_slot h1 p = Some (value_of (fetch (h, tb) k)) \<and> (Count tb1 = Count tb \<longleftrightarrow> fetch (h, tb) k \<noteq> None) \<and>
    (\<forall>v. \<exists>h2. set_slot h1 p v = Some h2 \<and> get_slot h2 p = Some v \<and> now F n (h, tb) k (Some v) (h2, tb1\<lparr>TLock := 0\<rparr>))"
proof -
  obtain p h1 tb1 where u: "probe_key h (tb\<lparr>TLock := m\<rparr>) k = Some (p, h1, tb1)" "TLock tb1 = m"
    "trep F (h1, tb1\<lparr>TLock := 0\<rparr>)" "troom (h1, tb1) n" "Default tb1 = Default tb"
    "same_key (h1, tb1) = same_key (h, tb)" "Count tb1 = Count tb \<longleftrightarrow> fetch (h, tb) k \<noteq> None"
    "get_slot h1 p = Some (case fetch (h, tb) k of Some v \<Rightarrow> v | None \<Rightarrow> None)"
    "fetch (h1, tb1) = (\<lambda>k'. if same_key (h, tb) k' k \<and> fetch (h, tb) k = None then Some None else fetch (h, tb) k')"
    "\<forall>v. \<exists>h2. set_slot h1 p v = Some h2 \<and> trep F (h2, tb1\<lparr>TLock := 0\<rparr>) \<and> troom (h2, tb1) n \<and>
       same_key (h2, tb1) = same_key (h, tb) \<and>
       fetch (h2, tb1) = (\<lambda>k'. if same_key (h, tb) k' k then Some v else fetch (h, tb) k')"
    by (rule locked_probe[OF assms, where m = m and k = k]) (rule that)
  have "fetch (h1, tb1) = (\<lambda>k'. if same_key (h, tb) k' k then Some (value_of (fetch (h, tb) k)) else fetch (h, tb) k')"
    unfolding u(9) using fetch_same[OF assms(1), of _ k] by (auto simp: fun_eq_iff value_of_def split: option.split)
  then have "now F n (h, tb) k (Some (value_of (fetch (h, tb) k))) (h1, tb1\<lparr>TLock := 0\<rparr>)"
    using u(3,4,6) by (simp add: now_def)
  moreover have "\<forall>v. \<exists>h2. set_slot h1 p v = Some h2 \<and> get_slot h2 p = Some v \<and> now F n (h, tb) k (Some v) (h2, tb1\<lparr>TLock := 0\<rparr>)"
    using u(10) get_slot_set unfolding now_def lock_irrelevant by blast
  ultimately show ?thesis using u(1,2,7,8) by (intro exI[of _ p] exI[of _ h1] exI[of _ tb1]) (simp add: value_of_def)
qed

lemma replace_spec:
  assumes "trep F (h, tb)" and "troom (h, tb) (Suc n)"
  shows "\<exists>h' tb'. replace_method h tb k v = Some (reply_of (value_of (fetch (h, tb) k)), h', tb') \<and> now F n (h, tb) k (Some (Some v)) (h', tb')"
proof -
  from probe_now[OF assms, of "- 1" k] obtain p h1 tb1 where u: "avl_probe h (tb\<lparr>TLock := - 1\<rparr>) k (hash_of tb k) = Some (p, h1, tb1)" "TLock tb1 = - 1"
    "get_slot h1 p = Some (value_of (fetch (h, tb) k))"
    "\<forall>v. \<exists>h2. set_slot h1 p v = Some h2 \<and> get_slot h2 p = Some v \<and> now F n (h, tb) k (Some v) (h2, tb1\<lparr>TLock := 0\<rparr>)" by blast
  from u(4) obtain h2 where "set_slot h1 p (Some v) = Some h2" "now F n (h, tb) k (Some (Some v)) (h2, tb1\<lparr>TLock := 0\<rparr>)" by blast
  then show ?thesis using u(1-3) assms(1)
    by (intro exI[of _ h2] exI[of _ "tb1\<lparr>TLock := 0\<rparr>"]) (simp add: replace_method_def reply_of_def trep_def)
qed

lemma check_spec:
  assumes "trep F (h, tb)" and "troom (h, tb) (Suc n)"
  shows "\<exists>p h' tb' x. check_table_method h tb k d = Some (map_reply (\<lambda>v. (v, p)) id id (reply_of (value_of (fetch (h, tb) k))), h', tb') \<and>
    x = (case value_of (fetch (h, tb) k) of None \<Rightarrow> d | Some v \<Rightarrow> v) \<and> get_slot h' p = Some (Some x) \<and>
    now F n (h, tb) k (Some (Some x)) (h', tb')"
proof -
  from probe_now[OF assms, of "- 1" k] obtain p h1 tb1 where u: "avl_probe h (tb\<lparr>TLock := - 1\<rparr>) k (hash_of tb k) = Some (p, h1, tb1)" "TLock tb1 = - 1"
    "now F n (h, tb) k (Some (value_of (fetch (h, tb) k))) (h1, tb1\<lparr>TLock := 0\<rparr>)"
    "get_slot h1 p = Some (value_of (fetch (h, tb) k))"
    "\<forall>v. \<exists>h2. set_slot h1 p v = Some h2 \<and> get_slot h2 p = Some v \<and> now F n (h, tb) k (Some v) (h2, tb1\<lparr>TLock := 0\<rparr>)" by blast
  from u(5) obtain h2 where s: "set_slot h1 p (Some d) = Some h2" "get_slot h2 p = Some (Some d)" "now F n (h, tb) k (Some (Some d)) (h2, tb1\<lparr>TLock := 0\<rparr>)" by blast
  have L: "TLock tb = 0" using assms(1) by (simp add: trep_def)
  show ?thesis
  proof (cases "value_of (fetch (h, tb) k)")
    case None
    then show ?thesis using u(1-4) s L by (intro exI[of _ p] exI[of _ h2] exI[of _ "tb1\<lparr>TLock := 0\<rparr>"]) (simp add: check_table_method_def)
  next
    case (Some v)
    then show ?thesis using u(1-4) L by (intro exI[of _ p] exI[of _ h1] exI[of _ "tb1\<lparr>TLock := 0\<rparr>"]) (simp add: check_table_method_def)
  qed
qed

lemma index_default_spec:
  assumes "trep F (h, tb)" and "troom (h, tb) (Suc n)"
  shows "\<exists>p h' tb' x. index_default_method h tb k d = Some (SUCCESS (x, p), h', tb') \<and>
    x = (case value_of (fetch (h, tb) k) of None \<Rightarrow> d | Some v \<Rightarrow> v) \<and> get_slot h' p = Some (Some x) \<and>
    now F n (h, tb) k (Some (Some x)) (h', tb')"
proof -
  from probe_now[OF assms, of "- 1" k] obtain p h1 tb1 where u: "avl_probe h (tb\<lparr>TLock := - 1\<rparr>) k (hash_of tb k) = Some (p, h1, tb1)" "TLock tb1 = - 1"
    "now F n (h, tb) k (Some (value_of (fetch (h, tb) k))) (h1, tb1\<lparr>TLock := 0\<rparr>)"
    "get_slot h1 p = Some (value_of (fetch (h, tb) k))"
    "\<forall>v. \<exists>h2. set_slot h1 p v = Some h2 \<and> get_slot h2 p = Some v \<and> now F n (h, tb) k (Some v) (h2, tb1\<lparr>TLock := 0\<rparr>)" by blast
  from u(5) obtain h2 where s: "set_slot h1 p (Some d) = Some h2" "get_slot h2 p = Some (Some d)" "now F n (h, tb) k (Some (Some d)) (h2, tb1\<lparr>TLock := 0\<rparr>)" by blast
  have L: "TLock tb = 0" using assms(1) by (simp add: trep_def)
  show ?thesis
  proof (cases "value_of (fetch (h, tb) k)")
    case None
    then show ?thesis using u(1-4) s L by (intro exI[of _ p] exI[of _ h2] exI[of _ "tb1\<lparr>TLock := 0\<rparr>"]) (simp add: index_default_method_def)
  next
    case (Some v)
    then show ?thesis using u(1-4) L by (intro exI[of _ p] exI[of _ h1] exI[of _ "tb1\<lparr>TLock := 0\<rparr>"]) (simp add: index_default_method_def)
  qed
qed

lemma missing_spec:
  assumes "trep F (h, tb)" and "troom (h, tb) (Suc n)"
  shows "(fetch (h, tb) k = None \<longrightarrow> (\<exists>p h' tb'. missing_method nil h tb k = Some (SUCCESS (nil, p), None, h', tb') \<and>
      get_slot h' p = Some (Some nil) \<and> now F n (h, tb) k (Some (Some nil)) (h', tb'))) \<and>
    (\<forall>x. fetch (h, tb) k = Some x \<longrightarrow> (\<exists>h' tb'. missing_method nil h tb k = Some (FAILURE, Some x, h', tb') \<and>
      now F n (h, tb) k (Some x) (h', tb')))"
proof -
  from probe_now[OF assms, of "- 1" k] obtain p h1 tb1 where u: "avl_probe h (tb\<lparr>TLock := - 1\<rparr>) k (hash_of tb k) = Some (p, h1, tb1)" "TLock tb1 = - 1"
    "now F n (h, tb) k (Some (value_of (fetch (h, tb) k))) (h1, tb1\<lparr>TLock := 0\<rparr>)"
    "get_slot h1 p = Some (value_of (fetch (h, tb) k))" "Count tb1 = Count tb \<longleftrightarrow> fetch (h, tb) k \<noteq> None"
    "\<forall>v. \<exists>h2. set_slot h1 p v = Some h2 \<and> get_slot h2 p = Some v \<and> now F n (h, tb) k (Some v) (h2, tb1\<lparr>TLock := 0\<rparr>)" by blast
  from u(6) obtain h2 where s: "set_slot h1 p (Some nil) = Some h2" "get_slot h2 p = Some (Some nil)"
    "now F n (h, tb) k (Some (Some nil)) (h2, tb1\<lparr>TLock := 0\<rparr>)" by blast
  have L: "TLock tb = 0" using assms(1) by (simp add: trep_def)
  show ?thesis
  proof (intro conjI allI impI)
    assume "fetch (h, tb) k = None"
    then show "\<exists>p h' tb'. missing_method nil h tb k = Some (SUCCESS (nil, p), None, h', tb') \<and>
      get_slot h' p = Some (Some nil) \<and> now F n (h, tb) k (Some (Some nil)) (h', tb')"
      using u(1-5) s L by (intro exI[of _ p] exI[of _ h2] exI[of _ "tb1\<lparr>TLock := 0\<rparr>"]) (simp add: missing_method_def)
  next
    fix x assume "fetch (h, tb) k = Some x"
    then show "\<exists>h' tb'. missing_method nil h tb k = Some (FAILURE, Some x, h', tb') \<and> now F n (h, tb) k (Some x) (h', tb')"
      using u(1-5) L by (intro exI[of _ h1] exI[of _ "tb1\<lparr>TLock := 0\<rparr>"]) (simp add: missing_method_def)
  qed
qed

section \<open>Default functions\<close>

text \<open>What a key gives in a table with the default function \<open>f\<close>, when it has the value \<open>cur\<close> now.\<close>

definition defaulted :: "('k \<Rightarrow> ('v, 'v, unit) reply) \<Rightarrow> 'k \<Rightarrow> 'v option \<Rightarrow> ('v, 'v, unit) reply" where
  "defaulted f k cur =
     (case cur of Some v \<Rightarrow> SUCCESS v | None \<Rightarrow> (case f k of SUSPEND w _ \<Rightarrow> SUCCESS w | r \<Rightarrow> r))"

lemma default_slot_spec:
  assumes "trep F (h, tb)" and "troom (h, tb) (Suc n)"
  shows "\<exists>p h1 tb1. default_slot f h (tb\<lparr>TLock := m\<rparr>) k =
      Some (map_reply (\<lambda>v. (v, p)) id id (defaulted f k (value_of (fetch (h, tb) k))), h1, tb1) \<and> TLock tb1 = m \<and>
    now F n (h, tb) k (Some (returned (defaulted f k (value_of (fetch (h, tb) k))))) (h1, tb1\<lparr>TLock := 0\<rparr>) \<and>
    (returned (defaulted f k (value_of (fetch (h, tb) k))) \<noteq> None \<longrightarrow>
       get_slot h1 p = Some (returned (defaulted f k (value_of (fetch (h, tb) k)))) \<and>
       (\<forall>v. \<exists>h2. set_slot h1 p v = Some h2 \<and> now F n (h, tb) k (Some v) (h2, tb1\<lparr>TLock := 0\<rparr>)))"
proof -
  from probe_now[OF assms, of m k] obtain p h1 tb1 where u: "avl_probe h (tb\<lparr>TLock := m\<rparr>) k (hash_of tb k) = Some (p, h1, tb1)" "TLock tb1 = m"
    "now F n (h, tb) k (Some (value_of (fetch (h, tb) k))) (h1, tb1\<lparr>TLock := 0\<rparr>)"
    "get_slot h1 p = Some (value_of (fetch (h, tb) k))"
    "\<forall>v. \<exists>h2. set_slot h1 p v = Some h2 \<and> get_slot h2 p = Some v \<and> now F n (h, tb) k (Some v) (h2, tb1\<lparr>TLock := 0\<rparr>)" by blast
  have again: "\<exists>h3. set_slot h2 p v = Some h3 \<and> now F n (h, tb) k (Some v) (h3, tb1\<lparr>TLock := 0\<rparr>)"
    if "set_slot h1 p w = Some h2" for w v h2
  proof -
    from u(5) obtain h3 where h3: "set_slot h1 p v = Some h3" "now F n (h, tb) k (Some v) (h3, tb1\<lparr>TLock := 0\<rparr>)" by blast
    have "set_slot h2 p v = set_slot h1 p v"
      using that by (auto simp: set_slot_def cell_at_def put_cell_def split: if_splits)
    then show ?thesis using h3 by simp
  qed
  show ?thesis
  proof (cases "returned (defaulted f k (value_of (fetch (h, tb) k))) = None \<or> value_of (fetch (h, tb) k) \<noteq> None")
    case True
    then show ?thesis using u
      by (intro exI[of _ p] exI[of _ h1] exI[of _ "tb1"])
        (auto simp: default_slot_def defaulted_def split: reply.splits option.splits)
  next
    case False
    then obtain w where w: "value_of (fetch (h, tb) k) = None" "returned (defaulted f k None) = Some w" by auto
    from u(5) obtain h2 where s: "set_slot h1 p (Some w) = Some h2" "get_slot h2 p = Some (Some w)"
      "now F n (h, tb) k (Some (Some w)) (h2, tb1\<lparr>TLock := 0\<rparr>)" by blast
    show ?thesis using u(1,2,4) s w again[OF s(1)]
      by (intro exI[of _ p] exI[of _ h2] exI[of _ "tb1"])
        (auto simp: default_slot_def defaulted_def split: reply.splits)
  qed
qed

text \<open>A lookup under a lock, and the assignment to what it finds.\<close>

lemma find_now:
  assumes "trep F (h, tb)" and "troom (h, tb) n"
  shows "\<exists>p. avl_find h (tb\<lparr>TLock := m\<rparr>) k (hash_of tb k) = Some p \<and> (p = 0 \<longleftrightarrow> fetch (h, tb) k = None) \<and>
    (p \<noteq> 0 \<longrightarrow> get_slot h p = fetch (h, tb) k \<and>
       (\<forall>v. \<exists>h2. set_slot h p v = Some h2 \<and> now F n (h, tb) k (Some v) (h2, tb)))"
proof -
  from assms obtain t where t: "table_ok h tb t" "TLock tb = 0"
    and F: "\<forall>p n. F p = Some n \<longrightarrow> Cells h p = Some n \<and> p \<notin> at ` set (entries t)" by (auto simp: trep_def tholds_def)
  have "table_ok h (tb\<lparr>TLock := m\<rparr>) t" using t(1) by simp
  from avl_find_spec[OF this, of k "hash_of tb k"] have f: "avl_find h (tb\<lparr>TLock := m\<rparr>) k (hash_of tb k) =
      Some (case find_key (Compare tb) k (hash_of tb k) (entries t) of None \<Rightarrow> 0 | Some e \<Rightarrow> at e)" by simp
  show ?thesis
  proof (cases "find_key (Compare tb) k (hash_of tb k) (entries t)")
    case None
    then show ?thesis using f fetch_spec[OF t(1), of k] by simp
  next
    case (Some e)
    have e: "e \<in> set (entries t)" using find_key_Some[OF Some] by simp
    have nz: "at e \<noteq> 0" using entry_nonnull[of h tb t e] e t(1) by (simp add: table_ok_def)
    have "\<exists>h2. set_slot h (at e) v = Some h2 \<and> now F n (h, tb) k (Some v) (h2, tb)" for v
    proof -
      from assign_spec[OF t(1) F Some, of v] obtain h' where h': "set_slot h (at e) v = Some h'" "tholds F h' tb" "TFresh h' = TFresh h"
        "fetch (h', tb) = (\<lambda>k'. if same_key (h, tb) k' k then Some v else fetch (h, tb) k')" by blast
      then show ?thesis using t(2) assms(2) by (auto simp: now_def trep_def troom_def same_key_def)
    qed
    then show ?thesis using f Some nz set_slot_spec(2)[OF t(1) e] fetch_spec[OF t(1), of k]
      by (intro exI[of _ "at e"]) simp
  qed
qed

lemma index_defaulted:
  assumes "trep F (h, tb)" and "troom (h, tb) (Suc n)" and "Default tb = Some f" and "op = index_table_method \<or> op = dot_method"
  shows "\<exists>p h' tb'. op h tb k = Some (map_reply (\<lambda>v. (v, p)) id id (defaulted f k (value_of (fetch (h, tb) k))), h', tb') \<and>
    now F n (h, tb) k (Some (returned (defaulted f k (value_of (fetch (h, tb) k))))) (h', tb')"
proof -
  have L: "TLock tb = 0" using assms(1) by (simp add: trep_def)
  define m where "m = (if op = index_table_method then - 1 else 1 :: int)"
  from default_slot_spec[OF assms(1,2), of f m k] obtain p h1 tb1 where
    u: "default_slot f h (tb\<lparr>TLock := m\<rparr>) k = Some (map_reply (\<lambda>v. (v, p)) id id (defaulted f k (value_of (fetch (h, tb) k))), h1, tb1)"
    "TLock tb1 = m" "now F n (h, tb) k (Some (returned (defaulted f k (value_of (fetch (h, tb) k))))) (h1, tb1\<lparr>TLock := 0\<rparr>)" by blast
  have "op h tb k = Some (map_reply (\<lambda>v. (v, p)) id id (defaulted f k (value_of (fetch (h, tb) k))), h1, tb1\<lparr>TLock := 0\<rparr>)"
  proof (cases "op = index_table_method")
    case True
    then show ?thesis using u(1,2) L assms(3) by (simp add: index_table_method_def m_def)
  next
    case False
    then have "op = dot_method" using assms(4) by blast
    then show ?thesis using u(1,2) L assms(3) False by (simp add: dot_method_def m_def)
  qed
  then show ?thesis using u(3) by blast
qed

lemma index_plain:
  assumes "trep F (h, tb)" and "Default tb = None" and "op = index_table_method \<or> op = dot_method"
  shows "fetch (h, tb) k = None \<Longrightarrow> op h tb k = Some (FAILURE, h, tb)"
    and "fetch (h, tb) k = Some (Some v) \<Longrightarrow> \<exists>p. op h tb k = Some (SUCCESS (v, p), h, tb) \<and> get_slot h p = Some (Some v)"
    and "fetch (h, tb) k = Some None \<Longrightarrow> op h tb k = None"
proof -
  have L: "TLock tb = 0" using assms(1) by (simp add: trep_def)
  from assms(1) obtain t where t: "table_ok h tb t" by (auto simp: trep_def tholds_def)
  have "table_ok h (tb\<lparr>TLock := 1\<rparr>) t" using t by simp
  from avl_find_spec[OF this, of k "hash_of tb k"] have f: "avl_find h (tb\<lparr>TLock := 1\<rparr>) k (hash_of tb k) =
      Some (case find_key (Compare tb) k (hash_of tb k) (entries t) of None \<Rightarrow> 0 | Some e \<Rightarrow> at e)" by simp
  have e: "at e \<noteq> 0 \<and> get_slot h (at e) = Some (slot e)" if "find_key (Compare tb) k (hash_of tb k) (entries t) = Some e" for e
    using find_key_Some[OF that] set_slot_spec(2)[OF t, of e] entry_nonnull[of h tb t e] t by (simp add: table_ok_def)
  note s = f e fetch_spec[OF t, of k] same_lock[OF L] L assms(2)
  show "fetch (h, tb) k = None \<Longrightarrow> op h tb k = Some (FAILURE, h, tb)"
    using assms(3) s by (auto simp: index_table_method_def dot_method_def)
  show "fetch (h, tb) k = Some (Some v) \<Longrightarrow> \<exists>p. op h tb k = Some (SUCCESS (v, p), h, tb) \<and> get_slot h p = Some (Some v)"
  proof -
    assume "fetch (h, tb) k = Some (Some v)"
    then obtain e where "find_key (Compare tb) k (hash_of tb k) (entries t) = Some e" "slot e = Some v" using s(3) by auto
    then show ?thesis using assms(3) s by (intro exI[of _ "at e"]) (auto simp: index_table_method_def dot_method_def)
  qed
  show "fetch (h, tb) k = Some None \<Longrightarrow> op h tb k = None"
  proof -
    assume "fetch (h, tb) k = Some None"
    then obtain e where "find_key (Compare tb) k (hash_of tb k) (entries t) = Some e" "slot e = None" using s(3) by auto
    then show ?thesis using assms(3) s by (auto simp: index_table_method_def dot_method_def)
  qed
qed

text \<open>\<open>update\<close>: \<open>g\<close> is applied to what the key gives.\<close>

definition current :: "('k, 'v) mem \<Rightarrow> ('k, 'v) table \<Rightarrow> 'k \<Rightarrow> ('v, 'v, unit) reply" where
  "current h tb k =
     (case Default tb of Some f \<Rightarrow> defaulted f k (value_of (fetch (h, tb) k)) | None \<Rightarrow> reply_of (value_of (fetch (h, tb) k)))"

lemma update_spec:
  assumes "trep F (h, tb)" and "troom (h, tb) (Suc n)" and "Default tb = None \<Longrightarrow> fetch (h, tb) k \<noteq> Some None"
  shows "\<exists>h' tb'. update_method h tb k g =
      Some (case current h tb k of SUCCESS v \<Rightarrow> (case g v of SUSPEND w _ \<Rightarrow> SUCCESS w | r \<Rightarrow> r) | r \<Rightarrow> r, h', tb') \<and>
    now F n (h, tb) k
      (case current h tb k of
         SUCCESS v \<Rightarrow> Some (Some (case returned (g v) of Some w \<Rightarrow> w | None \<Rightarrow> v))
       | _ \<Rightarrow> if Default tb = None then None else Some None) (h', tb')"
proof -
  have L: "TLock tb = 0" using assms(1) by (simp add: trep_def)
  have n: "troom (h, tb) n" using assms(2) by (simp add: troom_def)
  show ?thesis
  proof (cases "Default tb")
    case None
    from find_now[OF assms(1) n, of "- 1" k] obtain p where p: "avl_find h (tb\<lparr>TLock := - 1\<rparr>) k (hash_of tb k) = Some p"
      "p = 0 \<longleftrightarrow> fetch (h, tb) k = None" and p34: "p \<noteq> 0 \<longrightarrow> get_slot h p = fetch (h, tb) k \<and>
      (\<forall>v. \<exists>h2. set_slot h p v = Some h2 \<and> now F n (h, tb) k (Some v) (h2, tb))" by (elim exE conjE) (rule that)
    have same: "now F n (h, tb) k (fetch (h, tb) k) (h, tb)"
      using assms(1) n fetch_same[OF assms(1)] by (auto simp: now_def fun_eq_iff)
    show ?thesis
    proof (cases "fetch (h, tb) k")
      case f: None
      then show ?thesis using p(1,2) None L same_lock[OF L] same
        by (intro exI[of _ h] exI[of _ tb]) (simp add: update_method_def current_def)
    next
      case (Some x)
      then obtain v where x: "x = Some v" using assms(3)[OF None] by (cases x) auto
      have p0: "p \<noteq> 0" using p(2) Some by simp
      note p3 = conjunct1[OF mp[OF p34 p0]] and p4 = conjunct2[OF mp[OF p34 p0]]
      show ?thesis
      proof (cases "returned (g v)")
        case r: None
        then show ?thesis using p(1) p3 p0 None L same_lock[OF L] same Some x
          by (intro exI[of _ h] exI[of _ tb]) (cases "g v"; simp add: update_method_def current_def)
      next
        case r: (Some w)
        from p4 obtain h2 where h2: "set_slot h p (Some w) = Some h2" "now F n (h, tb) k (Some (Some w)) (h2, tb)" by blast
        then show ?thesis using p(1) p3 p0 None L same_lock[OF L] Some x r
          by (intro exI[of _ h2] exI[of _ tb]) (cases "g v"; simp add: update_method_def current_def)
      qed
    qed
  next
    case (Some f)
    let ?d = "defaulted f k (value_of (fetch (h, tb) k))"
    from default_slot_spec[OF assms(1,2), of f "- 1" k] obtain p h1 tb1 where
      u: "default_slot f h (tb\<lparr>TLock := - 1\<rparr>) k = Some (map_reply (\<lambda>v. (v, p)) id id ?d, h1, tb1)" "TLock tb1 = - 1"
      "now F n (h, tb) k (Some (returned ?d)) (h1, tb1\<lparr>TLock := 0\<rparr>)"
      "returned ?d \<noteq> None \<longrightarrow> get_slot h1 p = Some (returned ?d) \<and>
       (\<forall>v. \<exists>h2. set_slot h1 p v = Some h2 \<and> now F n (h, tb) k (Some v) (h2, tb1\<lparr>TLock := 0\<rparr>))"
      by (elim exE conjE) (rule that)
    have c: "current h tb k = ?d" using Some by (simp add: current_def)
    show ?thesis
    proof (cases ?d)
      case (SUCCESS v)
      show ?thesis
      proof (cases "returned (g v)")
        case r: None
        then show ?thesis using u Some L SUCCESS c
          by (intro exI[of _ h1] exI[of _ "tb1\<lparr>TLock := 0\<rparr>"]) (cases "g v"; simp add: update_method_def)
      next
        case r: (Some w)
        from u(4) SUCCESS obtain h2 where "set_slot h1 p (Some w) = Some h2" "now F n (h, tb) k (Some (Some w)) (h2, tb1\<lparr>TLock := 0\<rparr>)" by auto
        then show ?thesis using u(1,2) u(4) Some L SUCCESS c r
          by (intro exI[of _ h2] exI[of _ "tb1\<lparr>TLock := 0\<rparr>"]) (cases "g v"; simp add: update_method_def)
      qed
    next
      case (SUSPEND v q)
      then show ?thesis by (simp add: defaulted_def split: option.splits reply.splits)
    next
      case FAILURE
      then show ?thesis using u(1-3) Some L c
        by (intro exI[of _ h1] exI[of _ "tb1\<lparr>TLock := 0\<rparr>"]) (simp add: update_method_def)
    next
      case (MESSAGE i)
      then show ?thesis using u(1-3) Some L c
        by (intro exI[of _ h1] exI[of _ "tb1\<lparr>TLock := 0\<rparr>"]) (simp add: update_method_def)
    qed
  qed
qed

section \<open>Make\<close>

text \<open>One step of \<^verbatim>\<open>Make\<close>, as an insertion: it is the one of the interface, without locks.\<close>

definition make_step :: "('k, 'v) mem \<times> ('k, 'v) table \<Rightarrow> 'k \<Rightarrow> 'v \<Rightarrow> (('k, 'v) mem \<times> ('k, 'v) table) option" where
  "make_step = (\<lambda>(h, tb) k v. do { (p, h, tb) \<leftarrow> probe_key h tb k; h \<leftarrow> set_slot h p (Some v); Some (h, tb) })"

lemma make_step_law:
  assumes "trep F s" and "troom s (Suc n)"
  shows "\<exists>s'. make_step s k v = Some s' \<and> trep F s' \<and> troom s' n \<and> same_key s' = same_key s \<and>
    fetch s' = (\<lambda>k'. if same_key s k' k then Some (Some v) else fetch s k')"
proof -
  obtain h tb where s: "s = (h, tb)" by (cases s)
  have L: "TLock tb = 0" using assms(1) by (simp add: trep_def s)
  from probe_now[OF assms[unfolded s], of 0 k] obtain p h1 tb1 where
    u: "avl_probe h (tb\<lparr>TLock := 0\<rparr>) k (hash_of tb k) = Some (p, h1, tb1)" "TLock tb1 = 0"
    "\<forall>v. \<exists>h2. set_slot h1 p v = Some h2 \<and> get_slot h2 p = Some v \<and> now F n (h, tb) k (Some v) (h2, tb1\<lparr>TLock := 0\<rparr>)" by blast
  from u(3) obtain h2 where "set_slot h1 p (Some v) = Some h2" "now F n (h, tb) k (Some (Some v)) (h2, tb1\<lparr>TLock := 0\<rparr>)" by blast
  then show ?thesis using u(1,2) same_lock[OF L] same_lock[OF u(2)] unfolding s
    by (intro exI[of _ "(h2, tb1)"]) (simp add: make_step_def now_def)
qed

interpretation made: keyed_store "trep F" troom fetch same_key make_step del_table for F
proof
  show "trep F s \<Longrightarrow> troom s (Suc n) \<Longrightarrow> \<exists>s'. make_step s k v = Some s' \<and> trep F s' \<and> troom s' n \<and>
      same_key s' = same_key s \<and> fetch s' = (\<lambda>k'. if same_key s k' k then Some (Some v) else fetch s k')" for s n k v
    by (rule make_step_law)
  show "trep F s \<Longrightarrow> troom s n \<Longrightarrow> \<exists>s'. del_table s k = Some (case fetch s k of Some v \<Rightarrow> v | None \<Rightarrow> None, s') \<and>
      trep F s' \<and> troom s' n \<and> same_key s' = same_key s \<and> fetch s' = (\<lambda>k'. if same_key s k' k then None else fetch s k')"
    for s n k by (rule del_table_law)
qed (fact tbl.same_equiv tbl.room_mono)+

lemma make_loop_step:
  "make_loop h tb ((k, v) # kvs) = do { s \<leftarrow> make_step (h, tb) k v; make_loop (fst s) (snd s) kvs }"
  by (auto simp: make_step_def split: bind_splits)

lemma make_loop_put_all: "make_loop (fst s) (snd s) kvs = made.put_all s kvs"
proof (induction kvs arbitrary: s)
  case (Cons kv kvs)
  then show ?case by (cases kv) (simp add: make_loop_step del: make_loop.simps)
qed simp

lemma make_function_spec:
  assumes "mem_ok h" and "key_order dcmp" and "length kvs \<le> max_entries" and "TFresh h + length kvs \<le> max_cells"
  shows "\<exists>h' tb'. make_function dcmp dhash h kvs = Some (h', tb') \<and> trep (Cells h) (h', tb') \<and>
    fetch (h', tb') = (\<lambda>k. case List.find (\<lambda>kv. ul (dhash k) = ul (dhash (fst kv)) \<and> dcmp k (fst kv) = 0) (rev kvs) of
       Some kv \<Rightarrow> Some (Some (snd kv)) | None \<Rightarrow> None)"
proof -
  let ?t = "avl_create dcmp dhash :: ('a, 'b) table"
  have ok: "table_ok h ?t Tip"
    using assms(1,2) by (simp add: table_ok_def rooted_def avl_create_def max_entries_def)
  have r: "trep (Cells h) (h, ?t)" unfolding trep_def tholds_def prod.case
    by (intro conjI exI[of _ Tip]) (use ok in \<open>simp_all add: avl_create_def\<close>)
  have rm: "troom (h, ?t) (length kvs + 0)" using assms(3,4) by (simp add: troom_def avl_create_def)
  have f: "fetch (h, ?t) = (\<lambda>k. None)" unfolding fetch_spec[OF ok] fun_eq_iff by simp
  have sk: "same_key (h, ?t) k k' \<longleftrightarrow> ul (dhash k) = ul (dhash k') \<and> dcmp k k' = 0" for k k'
    by (simp add: same_key_def hash_of_def avl_create_def)
  from made.put_all_law[OF r rm] obtain s' where "made.put_all (h, ?t) kvs = Some s'" "trep (Cells h) s'"
    "fetch s' = (\<lambda>k. case List.find (\<lambda>kv. same_key (h, ?t) k (fst kv)) (rev kvs) of
       Some kv \<Rightarrow> Some (Some (snd kv)) | None \<Rightarrow> fetch (h, ?t) k)" by blast
  then show ?thesis using make_loop_put_all[of "(h, ?t)" kvs] unfolding f sk make_function_def by (cases s') auto
qed

section \<open>The properties\<close>

text \<open>
  C18: A table is a finite map: insert sets the value of a key (NIL without a third argument), delete removes it and
  returns its value, index and in look it up. All other keys keep what they have, and every operation leaves
  a well-formed, unlocked table that uses only its own nodes and new ones.
\<close>

theorem table_is_map:
  assumes "trep F (h, tb)" and "troom (h, tb) (Suc n)"
  shows "(\<exists>h' tb'. insert_c nil h tb k v = Some (h', tb') \<and> insert_key_method nil h tb k v = Some (SUCCESS (), h', tb') \<and>
      now F n (h, tb) k (Some (Some (case v of Some v \<Rightarrow> v | None \<Rightarrow> nil))) (h', tb')) \<and>
    (\<exists>h' tb'. delete_key_method h tb k = Some (reply_of (value_of (fetch (h, tb) k)), h', tb') \<and>
      delete_c h tb k = Some (if value_of (fetch (h, tb) k) = None then 1 else 0, h', tb') \<and> now F n (h, tb) k None (h', tb')) \<and>
    index_c h tb k = Some (value_of (fetch (h, tb) k), tb) \<and>
    in_table_method h k tb = Some (if fetch (h, tb) k = None then FAILURE else SUCCESS k, tb)"
proof (intro conjI)
  from insert_spec[OF assms, of nil k v] obtain h' tb' where "insert_c nil h tb k v = Some (h', tb')"
    "now F n (h, tb) k (Some (Some (case v of Some v \<Rightarrow> v | None \<Rightarrow> nil))) (h', tb')" unfolding now_def by blast
  then show "\<exists>h' tb'. insert_c nil h tb k v = Some (h', tb') \<and> insert_key_method nil h tb k v = Some (SUCCESS (), h', tb') \<and>
      now F n (h, tb) k (Some (Some (case v of Some v \<Rightarrow> v | None \<Rightarrow> nil))) (h', tb')" by (simp add: insert_key_eq)
  have n: "troom (h, tb) n" using assms(2) by (simp add: troom_def)
  from delete_spec[OF assms(1) n, of k] obtain h' tb' where
    "delete_key_method h tb k = Some (reply_of (value_of (fetch (h, tb) k)), h', tb')" "now F n (h, tb) k None (h', tb')"
    unfolding now_def by blast
  then show "\<exists>h' tb'. delete_key_method h tb k = Some (reply_of (value_of (fetch (h, tb) k)), h', tb') \<and>
      delete_c h tb k = Some (if value_of (fetch (h, tb) k) = None then 1 else 0, h', tb') \<and> now F n (h, tb) k None (h', tb')"
    by (cases "value_of (fetch (h, tb) k)") (auto simp: delete_eq)
qed (rule lookup_spec[OF assms(1)])+

lemma sample_trep: "trep Map.empty (sample_mem, sample_table)" "troom (sample_mem, sample_table) (Suc (Suc (Suc 0)))"
  using sample_table_ok(1) by (auto simp: trep_def tholds_def troom_def sample_table_simps max_entries_def max_cells_def)

lemma sample_fetch:
  "fetch (sample_mem, sample_table) 2 = Some (Some 20)" "fetch (sample_mem, sample_table) 4 = None"
  "same_key (sample_mem, sample_table) i j \<longleftrightarrow> ul i = ul j \<and> sgn (i - j) = 0"
  unfolding fetch_spec[OF sample_table_ok(1)]
  by (simp_all add: sample_table_simps hash_of_def toward_def int_compare_def same_key_def)

lemma table_is_map_witness:
  "(\<exists>h' tb'. delete_key_method sample_mem sample_table 2 = Some (SUCCESS 20, h', tb') \<and> fetch (h', tb') 2 = None) \<and>
   (\<exists>h' tb'. insert_c 0 sample_mem sample_table 4 (Some 40) = Some (h', tb') \<and> fetch (h', tb') 4 = Some (Some 40) \<and>
      fetch (h', tb') 2 = Some (Some 20))"
  using table_is_map[OF sample_trep, of 0 2 None] table_is_map[OF sample_trep, of 0 4 "Some 40"]
  by (auto simp: sample_fetch now_def)

text \<open>
  Deleting a key that has just been inserted gives its value back and restores every lookup; of two insertions
  of the same key the second wins; and a value that has been inserted is found.
\<close>

theorem table_insert_delete:
  assumes "trep F (h, tb)" and "troom (h, tb) (Suc (Suc n))" and "fetch (h, tb) k = None" and "same_key (h, tb) k k'"
  shows "(\<exists>h1 tb1 h2 tb2. insert_c nil h tb k (Some v) = Some (h1, tb1) \<and> index_c h1 tb1 k = Some (Some v, tb1) \<and>
      delete_key_method h1 tb1 k = Some (SUCCESS v, h2, tb2) \<and> trep F (h2, tb2) \<and> fetch (h2, tb2) = fetch (h, tb)) \<and>
    (\<exists>h1 tb1 h2 tb2 h3 tb3. insert_c nil h tb k (Some v) = Some (h1, tb1) \<and> insert_c nil h1 tb1 k' (Some w) = Some (h2, tb2) \<and>
      insert_c nil h tb k' (Some w) = Some (h3, tb3) \<and> fetch (h2, tb2) = fetch (h3, tb3))"
proof (intro conjI)
  have n1: "troom (h, tb) (Suc n)" using assms(2) by (simp add: troom_def)
  have none: "\<forall>x. same_key (h, tb) x k \<longrightarrow> fetch (h, tb) x = None" using fetch_same[OF assms(1)] assms(3) by simp
  from tbl.put_del[OF assms(1) n1 assms(3), of v] none obtain s1 s2 where
    s: "put_table (h, tb) k v = Some s1" "del_table s1 k = Some (Some v, s2)" "trep F s2" "fetch s2 = fetch (h, tb)" by blast
  obtain h1 tb1 h2 tb2 where p: "s1 = (h1, tb1)" "s2 = (h2, tb2)" by (cases s1, cases s2)
  have i: "insert_c nil h tb k (Some v) = Some (h1, tb1)" using s(1) p by (simp add: put_table_def insert_c_def)
  from insert_spec[OF assms(1) n1, of nil k "Some v"] i have t1: "trep F (h1, tb1)" "troom (h1, tb1) n"
    "fetch (h1, tb1) k = Some (Some v)" using tbl.same_equiv(1)[OF assms(1), of k] by auto
  from delete_spec[OF t1(1,2), of k] t1(3) obtain h3 tb3 where d: "delete_key_method h1 tb1 k = Some (SUCCESS v, h3, tb3)" by auto
  then have "s2 = (h3, tb3)" using s(2) p by (simp add: del_table_def)
  then show "\<exists>h1 tb1 h2 tb2. insert_c nil h tb k (Some v) = Some (h1, tb1) \<and> index_c h1 tb1 k = Some (Some v, tb1) \<and>
      delete_key_method h1 tb1 k = Some (SUCCESS v, h2, tb2) \<and> trep F (h2, tb2) \<and> fetch (h2, tb2) = fetch (h, tb)"
    using i d lookup_spec(1)[OF t1(1), of k] t1(3) s(3,4) p
    by - (rule exI[of _ h1], rule exI[of _ tb1], rule exI[of _ h3], rule exI[of _ tb3], simp)
  from tbl.put_put[OF assms(1,2,4), of v w] obtain s1 s2 s3 where
    q: "put_table (h, tb) k v = Some s1" "put_table s1 k' w = Some s2" "put_table (h, tb) k' w = Some s3" "fetch s2 = fetch s3" by blast
  obtain h1 tb1 h2 tb2 h3 tb3 where "s1 = (h1, tb1)" "s2 = (h2, tb2)" "s3 = (h3, tb3)" by (cases s1, cases s2, cases s3)
  then show "\<exists>h1 tb1 h2 tb2 h3 tb3. insert_c nil h tb k (Some v) = Some (h1, tb1) \<and> insert_c nil h1 tb1 k' (Some w) = Some (h2, tb2) \<and>
      insert_c nil h tb k' (Some w) = Some (h3, tb3) \<and> fetch (h2, tb2) = fetch (h3, tb3)"
    using q by (auto simp: put_table_def insert_c_def)
qed

lemma table_insert_delete_witness:
  "\<exists>h1 tb1 h2 tb2. insert_c 0 sample_mem sample_table 4 (Some 40) = Some (h1, tb1) \<and>
     delete_key_method h1 tb1 4 = Some (SUCCESS 40, h2, tb2) \<and> fetch (h2, tb2) = fetch (sample_mem, sample_table)"
  using table_insert_delete[OF sample_trep sample_fetch(2), of 4 0 40 41] by (auto simp: sample_fetch(3))

text \<open>C28: Make builds a well-formed table in which each key has the last value given for it.\<close>

theorem table_make_correct:
  assumes "mem_ok h" and "key_order dcmp" and "length kvs \<le> max_entries" and "TFresh h + length kvs \<le> max_cells"
  shows "\<exists>h' tb'. make_function dcmp dhash h kvs = Some (h', tb') \<and> trep (Cells h) (h', tb') \<and>
    fetch (h', tb') = (\<lambda>k. case List.find (\<lambda>kv. ul (dhash k) = ul (dhash (fst kv)) \<and> dcmp k (fst kv) = 0) (rev kvs) of
       Some kv \<Rightarrow> Some (Some (snd kv)) | None \<Rightarrow> None)"
  by (rule make_function_spec[OF assms])

lemma table_make_correct_witness:
  "\<exists>h' tb'. make_function int_compare id \<lparr>Cells = Map.empty, TFresh = 1\<rparr> [(1, 10 :: int), (2, 20), (1, 11)] = Some (h', tb') \<and>
     map (fetch (h', tb')) [0, 1, 2] = [None, Some (Some 11), Some (Some 20)]"
proof -
  have "mem_ok \<lparr>Cells = Map.empty, TFresh = 1\<rparr>" by (simp add: mem_ok_def max_cells_def)
  from table_make_correct[OF this int_compare_order, of "[(1, 10 :: int), (2, 20), (1, 11)]" id]
  show ?thesis by (auto simp: max_entries_def max_cells_def int_compare_def)
qed

text \<open>
  C27: The operations that create an entry when there is none, on every branch. In a table with a default
  function, [] and . give the value of the key, or else set it to the result of the function; when the function
  fails or sends a message, they return that and the key stays in the table without a value. check inserts the
  given value and fails, [] with a second argument inserts it and returns it, missing inserts NIL and succeeds,
  or fails if the key is there, replace returns the old value, and update applies its function to what the key
  gives.
\<close>

theorem table_defaults_correct:
  assumes "trep F (h, tb)" and "troom (h, tb) (Suc n)"
  shows "(\<forall>f op. Default tb = Some f \<longrightarrow> op = index_table_method \<or> op = dot_method \<longrightarrow>
      (\<exists>p h' tb'. op h tb k = Some (map_reply (\<lambda>v. (v, p)) id id (defaulted f k (value_of (fetch (h, tb) k))), h', tb') \<and>
        now F n (h, tb) k (Some (returned (defaulted f k (value_of (fetch (h, tb) k))))) (h', tb'))) \<and>
    (\<forall>op. Default tb = None \<longrightarrow> op = index_table_method \<or> op = dot_method \<longrightarrow>
      (fetch (h, tb) k = None \<longrightarrow> op h tb k = Some (FAILURE, h, tb)) \<and>
      (\<forall>v. fetch (h, tb) k = Some (Some v) \<longrightarrow> (\<exists>p. op h tb k = Some (SUCCESS (v, p), h, tb) \<and> get_slot h p = Some (Some v)))) \<and>
    (\<exists>p h' tb' x. check_table_method h tb k d = Some (map_reply (\<lambda>v. (v, p)) id id (reply_of (value_of (fetch (h, tb) k))), h', tb') \<and>
      x = (case value_of (fetch (h, tb) k) of None \<Rightarrow> d | Some v \<Rightarrow> v) \<and> get_slot h' p = Some (Some x) \<and>
      now F n (h, tb) k (Some (Some x)) (h', tb')) \<and>
    (\<exists>p h' tb' x. index_default_method h tb k d = Some (SUCCESS (x, p), h', tb') \<and>
      x = (case value_of (fetch (h, tb) k) of None \<Rightarrow> d | Some v \<Rightarrow> v) \<and> get_slot h' p = Some (Some x) \<and>
      now F n (h, tb) k (Some (Some x)) (h', tb')) \<and>
    (fetch (h, tb) k = None \<longrightarrow> (\<exists>p h' tb'. missing_method nil h tb k = Some (SUCCESS (nil, p), None, h', tb') \<and>
      get_slot h' p = Some (Some nil) \<and> now F n (h, tb) k (Some (Some nil)) (h', tb'))) \<and>
    (\<forall>x. fetch (h, tb) k = Some x \<longrightarrow> (\<exists>h' tb'. missing_method nil h tb k = Some (FAILURE, Some x, h', tb') \<and>
      now F n (h, tb) k (Some x) (h', tb'))) \<and>
    (\<exists>h' tb'. replace_method h tb k v = Some (reply_of (value_of (fetch (h, tb) k)), h', tb') \<and>
      now F n (h, tb) k (Some (Some v)) (h', tb')) \<and>
    (Default tb \<noteq> None \<or> fetch (h, tb) k \<noteq> Some None \<longrightarrow>
      (\<exists>h' tb'. update_method h tb k g =
        Some (case current h tb k of SUCCESS v \<Rightarrow> (case g v of SUSPEND w _ \<Rightarrow> SUCCESS w | r \<Rightarrow> r) | r \<Rightarrow> r, h', tb') \<and>
      now F n (h, tb) k
        (case current h tb k of
           SUCCESS v \<Rightarrow> Some (Some (case returned (g v) of Some w \<Rightarrow> w | None \<Rightarrow> v))
         | _ \<Rightarrow> if Default tb = None then None else Some None) (h', tb')))"
  using missing_spec[OF assms, of k nil]
  by (intro conjI allI impI index_defaulted[OF assms] index_plain(1,2)[OF assms(1)] check_spec[OF assms] index_default_spec[OF assms]
      replace_spec[OF assms] update_spec[OF assms]) auto

lemma table_defaults_correct_witness:
  "\<exists>h' tb'. index_table_method sample_mem (sample_table\<lparr>Default := Some (\<lambda>_. FAILURE)\<rparr>) 4 = Some (FAILURE, h', tb') \<and>
     fetch (h', tb') 4 = Some None \<and> fetch (h', tb') 2 = Some (Some 20)"
proof -
  let ?tb = "sample_table\<lparr>Default := Some (\<lambda>_. FAILURE)\<rparr>"
  have ok: "table_ok sample_mem ?tb sample_tree" using sample_table_ok(1) by (simp add: table_ok_def rooted_def)
  have t: "trep Map.empty (sample_mem, ?tb)" "troom (sample_mem, ?tb) (Suc 0)"
    using ok sample_trep(2) by (auto simp: trep_def tholds_def troom_def sample_table_simps)
  have f: "fetch (sample_mem, ?tb) 4 = None" "fetch (sample_mem, ?tb) 2 = Some (Some 20)" "\<not> same_key (sample_mem, ?tb) 2 4"
    "same_key (sample_mem, ?tb) 4 4"
    unfolding fetch_spec[OF ok] by (simp_all add: sample_table_simps hash_of_def toward_def int_compare_def same_key_def)
  note c = conjunct1[OF table_defaults_correct[OF t, of 4], rule_format, of "\<lambda>_. FAILURE" index_table_method]
  have "\<exists>p h' tb'. index_table_method sample_mem ?tb 4 = Some (FAILURE, h', tb') \<and> now Map.empty 0 (sample_mem, ?tb) 4 (Some None) (h', tb')"
    using c f by (simp add: defaulted_def)
  then show ?thesis using f by (auto simp: now_def)
qed

end
