(* ===== verification/TableBounds.thy ===== *)
theory TableBounds
  imports TableOps
begin

text \<open>
  The two invariants of the AVL tree of an \<^verbatim>\<open>Agg$Table\<close> that do not depend on what its functions compare:
  insertion and deletion keep it balanced, and the stacks of 32 elements in \<^verbatim>\<open>avl_delete\<close> are
  large enough for exactly 5702885 entries.
\<close>

section \<open>Balance\<close>

lemma probe_delete_rooted:
  assumes "rooted h tb t" and "height t \<le> 31" and "TFresh h < max_cells"
  shows "(\<exists>p h' tb' t'. avl_probe h tb k hk = Some (p, h', tb') \<and> rooted h' tb' t' \<and>
      (h' = h \<and> tb' = tb \<and> t' = t \<and> (\<exists>e \<in> set (entries t). p = at e \<and> toward (Compare tb) k hk e = 0) \<or>
       p = TFresh h \<and> (\<exists>xs ys. entries t = xs @ ys \<and> entries t' = xs @ Entry p k None hk # ys))) \<and>
    (\<exists>v h' tb' t'. avl_delete h tb k hk = Some (v, h', tb') \<and> rooted h' tb' t' \<and>
      (h' = h \<and> tb' = tb \<and> t' = t \<and> v = None \<or>
       (\<exists>xs e ys. entries t = xs @ e # ys \<and> entries t' = xs @ ys \<and> v = slot e \<and> toward (Compare tb) k hk e = 0)))"
proof -
  obtain t' c where d: "descend (toward (Compare tb) k hk) t [] = (t', c)" by (cases "descend (toward (Compare tb) k hk) t []")
  have t: "entries t = lefts c @ entries t' @ rights c" using descend_plug[OF d] by (metis entries_plug plug.simps(1))
  show ?thesis
  proof (cases t')
    case Tip
    have "height t \<le> 32" using assms(2) by simp
    from avl_probe_new[OF assms(1) this assms(3) d[unfolded Tip]] avl_delete_none[OF assms(1,2) d[unfolded Tip]]
    show ?thesis using assms(1) t Tip by (simp, blast)
  next
    case (Fork l e b r)
    have k: "toward (Compare tb) k hk e = 0" using descend_key[of "toward (Compare tb) k hk" t "[]"] d Fork by blast
    have e: "e \<in> set (entries t)" unfolding t Fork by simp
    have "avl_probe h tb k hk = Some (at e, h, tb)"
      using probe_start[OF assms(1) _ d] assms(2) Fork by (auto simp: avl_probe_def split: prod.splits)
    moreover from avl_delete_some[OF assms(1,2) d[unfolded Fork]] obtain h' u where
      u: "avl_delete h tb k hk = Some (slot e, h', tb\<lparr>Root := addr u, Count := Count tb - 1, Generation := inc32 (Generation tb)\<rparr>)"
      "rooted h' (tb\<lparr>Root := addr u, Count := Count tb - 1, Generation := inc32 (Generation tb)\<rparr>) u"
      "entries u = lefts c @ entries l @ entries r @ rights c" by blast
    have "entries t = (lefts c @ entries l) @ e # entries r @ rights c" "entries u = (lefts c @ entries l) @ entries r @ rights c"
      unfolding t Fork using u(3) by simp_all
    then have "\<exists>xs e' ys. entries t = xs @ e' # ys \<and> entries u = xs @ ys \<and> slot e = slot e' \<and> toward (Compare tb) k hk e' = 0"
      using k by blast
    ultimately show ?thesis using assms(1) u(1,2) e k by blast
  qed
qed

text \<open>
  C19: Whatever its comparison function, insertion and deletion keep a table an AVL tree with right balance factors
  and the right count: insertion finds an entry of the key or adds a new one, deletion takes out at most one
  entry, of that key, and returns its value. No other entry is changed or moves in the order.
\<close>

theorem table_avl_invariant:
  assumes "rooted h tb t" and "height t \<le> 31" and "TFresh h < max_cells"
  shows "(\<exists>p h' tb' t'. avl_probe h tb k hk = Some (p, h', tb') \<and> rooted h' tb' t' \<and>
      (h' = h \<and> tb' = tb \<and> t' = t \<and> (\<exists>e \<in> set (entries t). p = at e \<and> toward (Compare tb) k hk e = 0) \<or>
       p = TFresh h \<and> (\<exists>xs ys. entries t = xs @ ys \<and> entries t' = xs @ Entry p k None hk # ys))) \<and>
    (\<exists>v h' tb' t'. avl_delete h tb k hk = Some (v, h', tb') \<and> rooted h' tb' t' \<and>
      (h' = h \<and> tb' = tb \<and> t' = t \<and> v = None \<or>
       (\<exists>xs e ys. entries t = xs @ e # ys \<and> entries t' = xs @ ys \<and> v = slot e \<and> toward (Compare tb) k hk e = 0)))"
  by (rule probe_delete_rooted[OF assms])

lemma table_avl_invariant_witness:
  "\<exists>v h' tb' t'. avl_delete sample_mem sample_table 7 7 = Some (v, h', tb') \<and> rooted h' tb' t' \<and> length (entries t') \<le> 3"
proof -
  have "rooted sample_mem sample_table sample_tree" "height sample_tree \<le> 31"
    using sample_table_ok(1) table_ok_height by (auto simp: table_ok_def)
  moreover have "TFresh sample_mem < max_cells" by (simp add: sample_table_simps max_cells_def)
  ultimately obtain v h' tb' t' where "avl_delete sample_mem sample_table 7 7 = Some (v, h', tb')" "rooted h' tb' t'"
    "t' = sample_tree \<or> (\<exists>xs e ys. entries sample_tree = xs @ e # ys \<and> entries t' = xs @ ys)"
    using conjunct2[OF table_avl_invariant[of sample_mem sample_table sample_tree 7 7]] by blast
  moreover have "length (entries t') \<le> length (entries sample_tree)" using calculation(3) by auto
  ultimately show ?thesis by (auto simp: sample_table_simps)
qed

section \<open>The stacks\<close>

text \<open>A search for a missing key below 32 nodes leaves the stack.\<close>

lemma delete_find_overflow:
  "mem_ok h \<Longrightarrow> tree_at (Cells h) t \<Longrightarrow> get_child h tb (parent c) (pdir c) = Some (addr t) \<Longrightarrow>
   descend (toward (Compare tb) key hash) t c = (Tip, c') \<Longrightarrow> 32 \<le> length c' \<Longrightarrow>
   delete_find h tb key hash (List.tl (dstack_of c)) (parent c) (pdir c) = None"
proof (induction t arbitrary: c)
  case Tip
  then show ?case by (subst delete_find.simps) (simp add: dpush_def)
next
  case (Fork l e b r)
  let ?f = "toward (Compare tb) key hash"
  show ?case
  proof (cases "length c < 32")
    case False
    then show ?thesis by (subst delete_find.simps) (simp add: dpush_def)
  next
    case True
    have pu: "dpush (parent c) (pdir c) (List.tl (dstack_of c)) = Some (dstack_of c)"
      using True dstack_head[of c] by (simp add: dpush_def)
    have n: "cell_at h (at e) = Some (cell_of e (addr l) (addr r) b)" "at e \<noteq> 0"
      using Fork.prems(1,2) mem_ok_dom[OF Fork.prems(1)] by auto
    have ne: "?f e \<noteq> 0" using Fork.prems(4) by auto
    have ch: "get_child h tb (at e) d = Some (if d then addr r else addr l)" for d
      using n by (auto simp: get_child_def get_link_def)
    have st: "delete_find h tb key hash (List.tl (dstack_of c)) (parent c) (pdir c) =
        delete_find h tb key hash (dstack_of c) (at e) (0 < ?f e)"
      using pu n ne Fork.prems(3) by (subst delete_find.simps) simp
    show ?thesis
    proof (cases "?f e < 0")
      case lt: True
      then show ?thesis unfolding st
        using Fork.IH(1)[of "Frame False e b r # c"] Fork.prems ch[of False] by simp
    next
      case False
      then have "0 < ?f e" using ne by simp
      then show ?thesis unfolding st
        using Fork.IH(2)[of "Frame True e b l # c"] Fork.prems ch[of True] by simp
    qed
  qed
qed

text \<open>The smallest AVL trees of each height, with the keys and addresses from \<open>i\<close> on.\<close>

fun fib_tree :: "nat \<Rightarrow> nat \<Rightarrow> (int, int) entry tree" where
  "fib_tree 0 i = Tip"
| "fib_tree (Suc 0) i = Fork Tip (Entry (Suc i) (int i) None 0) 0 Tip"
| "fib_tree (Suc (Suc n)) i = Fork (fib_tree (Suc n) i) (Entry (Suc (i + least (Suc n))) (int (i + least (Suc n))) None 0) (- 1)
     (fib_tree n (Suc (i + least (Suc n))))"

lemma fib_tree_height [simp]: "height (fib_tree n i) = n"
  by (induction n i rule: fib_tree.induct) auto

lemma fib_tree_avl: "avl (fib_tree n i)"
  by (induction n i rule: fib_tree.induct) auto

lemma fib_tree_at: "map at (entries (fib_tree n i)) = [Suc i..<Suc (i + least n)]"
proof (induction n i rule: fib_tree.induct)
  case (3 n i)
  have "[Suc i..<Suc (i + least (Suc (Suc n)))] =
      [Suc i..<Suc (i + least (Suc n))] @ [Suc (i + least (Suc n))..<Suc (i + least (Suc (Suc n)))]"
    using upt_add_eq_append[of "Suc i" "Suc (i + least (Suc n))" "Suc (least n)"] by (simp add: add.commute add.left_commute)
  moreover have "[Suc (i + least (Suc n))..<Suc (i + least (Suc (Suc n)))] =
      Suc (i + least (Suc n)) # [Suc (Suc (i + least (Suc n)))..<Suc (i + least (Suc (Suc n)))]" by (simp add: upt_conv_Cons)
  ultimately show ?case using 3 by (simp add: add.commute add.left_commute)
qed simp_all

lemma fib_tree_keys: "e \<in> set (entries (fib_tree n i)) \<Longrightarrow> 0 \<le> ekey e \<and> ehash e = 0"
  by (induction n i rule: fib_tree.induct) auto

lemma descend_left:
  "\<forall>e \<in> set (entries t). f e < 0 \<Longrightarrow> \<exists>c'. descend f t c = (Tip, c' @ c) \<and> (\<forall>g \<in> set c'. \<not> fdir g)"
proof (induction t arbitrary: c)
  case (Fork l e b r)
  then obtain c' where "descend f l (Frame False e b r # c) = (Tip, c' @ Frame False e b r # c)" "\<forall>g \<in> set c'. \<not> fdir g" by force
  then show ?case using Fork.prems by (intro exI[of _ "c' @ [Frame False e b r]"]) auto
qed simp

lemma fib_tree_spine:
  "\<forall>e \<in> set (entries (fib_tree n i)). f e < 0 \<Longrightarrow> descend f (fib_tree n i) c = (t', c') \<Longrightarrow> t' = Tip \<and> length c' = n + length c"
proof (induction n i arbitrary: c rule: fib_tree.induct)
  case (3 n i)
  then show ?case by fastforce
qed auto

fun cells_of :: "('k, 'v) entry tree \<Rightarrow> ptr \<Rightarrow> ('k, 'v) cell option" where
  "cells_of Tip = Map.empty"
| "cells_of (Fork l e b r) = (cells_of l ++ cells_of r)(at e \<mapsto> cell_of e (addr l) (addr r) b)"

lemma cells_of_Fork: "cells_of (Fork l e b r) = (cells_of l ++ cells_of r)(at e \<mapsto> cell_of e (addr l) (addr r) b)"
  by (rule ext) simp

declare cells_of.simps(2) [simp del]

lemma dom_cells_of: "dom (cells_of t) = at ` set (entries t)"
proof (induction t)
  case (Fork l e b r)
  then show ?case unfolding cells_of_Fork dom_fun_upd by (auto simp: dom_map_add)
qed simp

lemma tree_at_cells_of: "distinct (map at (entries t)) \<Longrightarrow> tree_at (cells_of t) t"
proof (induction t)
  case (Fork l e b r)
  have "tree_at (cells_of (Fork l e b r)) l"
  proof (rule tree_at_cong)
    show "tree_at (cells_of l) l" using Fork by simp
    fix p assume p: "p \<in> at ` set (entries l)"
    moreover have "at e \<notin> at ` set (entries l)" "at ` set (entries l) \<inter> at ` set (entries r) = {}" using Fork.prems by auto
    ultimately have "p \<noteq> at e" "p \<notin> dom (cells_of r)" unfolding dom_cells_of by blast+
    then show "cells_of (Fork l e b r) p = cells_of l p" by (simp add: cells_of_Fork map_add_dom_app_simps)
  qed
  moreover have "tree_at (cells_of (Fork l e b r)) r"
  proof (rule tree_at_cong)
    show "tree_at (cells_of r) r" using Fork by simp
    fix p assume p: "p \<in> at ` set (entries r)"
    moreover have "at e \<notin> at ` set (entries r)" using Fork.prems by auto
    ultimately have "p \<noteq> at e" "p \<in> dom (cells_of r)" unfolding dom_cells_of by blast+
    then show "cells_of (Fork l e b r) p = cells_of r p" by (simp add: cells_of_Fork map_add_dom_app_simps)
  qed
  moreover have "cells_of (Fork l e b r) (at e) = Some (cell_of e (addr l) (addr r) b)" by (simp add: cells_of_Fork)
  ultimately show ?case by simp
qed simp

text \<open>
  C20: The stacks of 32 elements suffice for every table of at most 5702885 entries: insertion, deletion and search
  are defined there. They do not suffice for one entry more: there is a well-formed table of 5702886 entries,
  ordered by its comparison function, in which the deletion of a missing key writes past the end of its stack.
\<close>

theorem table_stack_bound:
  "(\<forall>(h :: ('k, 'v) mem) tb t k hk. rooted h tb t \<and> Count tb \<le> 5702885 \<longrightarrow>
      avl_delete h tb k hk \<noteq> None \<and> avl_find h tb k hk \<noteq> None \<and> (TFresh h < max_cells \<longrightarrow> avl_probe h tb k hk \<noteq> None)) \<and>
   (\<exists>(h :: (int, int) mem) tb t k hk. rooted h tb t \<and> Count tb = 5702886 \<and> key_order (Compare tb) \<and>
      avl_delete h tb k hk = None)"
proof (intro conjI allI impI)
  fix h :: "('k, 'v) mem" and tb t k hk assume a: "rooted h tb t \<and> Count tb \<le> 5702885"
  then have ht: "height t \<le> 31" using avl_height_bound[of t] by (auto simp: rooted_def)
  obtain t' c where d: "descend (toward (Compare tb) k hk) t [] = (t', c)" by (cases "descend (toward (Compare tb) k hk) t []")
  show "avl_delete h tb k hk \<noteq> None"
  proof (cases t')
    case Tip
    then show ?thesis using avl_delete_none[OF conjunct1[OF a] ht] d by simp
  next
    case (Fork l e b r)
    from avl_delete_some[OF conjunct1[OF a] ht d[unfolded Fork]] show ?thesis by auto
  qed
  show "avl_find h tb k hk \<noteq> None"
    using find_from_spec[of h t "Compare tb" k hk "[]"] a by (simp add: avl_find_def rooted_def)
  assume "TFresh h < max_cells"
  from conjunct1[OF probe_delete_rooted[OF conjunct1[OF a] ht this, of k hk]] show "avl_probe h tb k hk \<noteq> None" by auto
next
  let ?t = "fib_tree 32 0"
  let ?h = "\<lparr>Cells = cells_of ?t, TFresh = 5702887\<rparr> :: (int, int) mem"
  let ?tb = "\<lparr>Root = addr ?t, Count = 5702886, Generation = 0, Compare = int_compare, HashFn = id, Default = None, TLock = 0\<rparr> :: (int, int) table"
  have at: "map at (entries ?t) = [1..<5702887]" unfolding fib_tree_at least_32 by simp
  have len: "length (entries ?t) = 5702886" using arg_cong[OF at, of length] by simp
  have dist: "distinct (map at (entries ?t))" unfolding at by (rule distinct_upt)
  have "at ` set (entries ?t) = {1..<5702887}" using arg_cong[OF at, of set] by simp
  then have dm: "dom (cells_of ?t) = {1..<5702887}" by (simp add: dom_cells_of)
  have in_dom: "p \<in> {1..<5702887}" if "cells_of ?t p \<noteq> None" for p using that unfolding dm[symmetric] by (simp add: dom_def)
  have ok: "mem_ok ?h" unfolding mem_ok_def using in_dom by (fastforce simp: max_cells_def)
  have r: "rooted ?h ?tb ?t"
    unfolding rooted_def using ok tree_at_cells_of[OF dist] fib_tree_avl[of 32 0] dist len by simp
  have neg: "\<forall>e \<in> set (entries ?t). toward int_compare (- 1) 0 e < 0"
    using fib_tree_keys by (fastforce simp: toward_def int_compare_def)
  obtain t' c where d: "descend (toward int_compare (- 1) 0) ?t [] = (t', c)" by (cases "descend (toward int_compare (- 1) 0) ?t []")
  have c: "t' = Tip" "length c = 32" using fib_tree_spine[OF neg d] by simp_all
  have "delete_find ?h ?tb (- 1) 0 [] 0 False = None"
    using delete_find_overflow[OF ok, where t = ?t and tb = ?tb and c = "[]" and key = "- 1" and hash = 0 and c' = c] r d c
    by (simp add: rooted_def get_child_def)
  then have "avl_delete ?h ?tb (- 1) 0 = None" by (simp add: avl_delete_def)
  then show "\<exists>(h :: (int, int) mem) tb t k hk. rooted h tb t \<and> Count tb = 5702886 \<and> key_order (Compare tb) \<and>
      avl_delete h tb k hk = None"
    using r int_compare_order by (intro exI[of _ ?h] exI[of _ ?tb] exI[of _ ?t] exI[of _ "- 1 :: int"] exI[of _ "0 :: nat"]) simp
qed

lemma table_stack_bound_witness:
  "avl_delete sample_mem sample_table 7 7 \<noteq> None \<and> avl_find sample_mem sample_table 7 7 \<noteq> None"
proof -
  have "rooted sample_mem sample_table sample_tree" using sample_table_ok(1) by (simp add: table_ok_def)
  then show ?thesis using conjunct1[OF table_stack_bound] by (fastforce simp: sample_table_simps)
qed

end
