(* ===== verification/TableEach.thy ===== *)
theory TableEach
  imports TableCopy TableBounds
begin

text \<open>
  The loops over an \<^verbatim>\<open>Agg$Table\<close> that change no table but for values, and the generators: each entry is
  visited once, in order.
\<close>

section \<open>Generators\<close>

text \<open>Running a generator to its end, with the variables of the caller after each result.\<close>

partial_function (option) drain_assigned ::
  "('g \<Rightarrow> 'e \<Rightarrow> (('r, 'm, 'g) reply \<times> 'e) option) \<Rightarrow> ('r, 'm, 'g) reply \<Rightarrow> 'e \<Rightarrow> ('r \<times> 'e) list option" where
  "drain_assigned resume r e =
     (case r of
        FAILURE \<Rightarrow> Some []
      | MESSAGE m \<Rightarrow> Some []
      | SUCCESS x \<Rightarrow> Some [(x, e)]
      | SUSPEND x g \<Rightarrow> do {
          (r, e') \<leftarrow> resume g e;
          xs \<leftarrow> drain_assigned resume r e';
          Some ((x, e) # xs) })"

text \<open>What \<open>avl_t_next\<close> gives from an entry on, as one statement.\<close>

lemma next_cases:
  assumes "rooted h tb t" and "height t \<le> 32" and "visits tb t tr xs e ys"
  obtains tr' where "avl_t_next h tb tr = Some tr'" "ys = []" "TNode tr' = 0"
  | tr' e' zs where "avl_t_next h tb tr = Some tr'" "ys = e' # zs" "visits tb t tr' (xs @ [e]) e' zs" "TNode tr' = at e'" "at e' \<noteq> 0"
proof (cases ys)
  case Nil
  then show ?thesis using avl_t_next_spec(1)[OF assms] that(1) by blast
next
  case (Cons e' zs)
  then obtain tr' where u: "avl_t_next h tb tr = Some tr'" "visits tb t tr' (xs @ [e]) e' zs"
    using avl_t_next_spec(2)[OF assms] by blast
  have "at e' \<noteq> 0" using entry_nonnull[OF assms(1), of e'] visits_entries[OF u(2)] by simp
  then show ?thesis using that(2)[OF u(1) Cons u(2)] visits_node[OF u(2)] by simp
qed

lemma drain_from:
  assumes r: "rooted h tb t" "height t \<le> 32" and res: "\<And>x. x \<in> set (entries t) \<Longrightarrow> result (at x) = Some (g x)"
  shows "visits tb t tr xs e ys \<Longrightarrow>
    run_out (\<lambda>tr. do { tr \<leftarrow> avl_t_next h tb tr; offer result tr }) (SUSPEND (g e) tr) = Some (map g (e # ys), None)"
proof (induction ys arbitrary: tr xs e)
  case Nil
  from r Nil show ?case
    by (cases rule: next_cases) (simp_all add: run_out.simps offer_def)
next
  case (Cons e2 ys)
  from r Cons.prems show ?case
  proof (cases rule: next_cases)
    case (2 tr' e' zs)
    then have "offer result tr' = Some (SUSPEND (g e2) tr')" using res[of e2] visits_entries[OF Cons.prems] by (simp add: offer_def)
    then show ?thesis using 2 Cons.IH[of tr' "xs @ [e]" e2] by (subst run_out.simps) simp
  qed simp
qed

lemma drain_entries:
  assumes ok: "table_ok h tb t" and res: "\<And>x. x \<in> set (entries t) \<Longrightarrow> result (at x) = Some (g x)"
  shows "\<exists>r. do { tr \<leftarrow> avl_t_first h tb; offer result tr } = Some r \<and>
    run_out (\<lambda>tr. do { tr \<leftarrow> avl_t_next h tb tr; offer result tr }) r = Some (map g (entries t), None)"
proof -
  have r: "rooted h tb t" "height t \<le> 32" "height t \<le> 33" using ok table_ok_height[OF ok] by (simp_all add: table_ok_def)
  show ?thesis
  proof (cases "entries t")
    case Nil
    then show ?thesis using avl_t_first_spec(1)[OF r(1,3)] by (simp add: offer_def run_out.simps)
  next
    case (Cons e ys)
    from avl_t_first_spec(2)[OF r(1,3) Cons] obtain tr where tr: "avl_t_first h tb = Some tr" "visits tb t tr [] e ys" by blast
    have "offer result tr = Some (SUSPEND (g e) tr)"
      using entry_nonnull[OF r(1), of e] res[of e] Cons visits_node[OF tr(2)] by (simp add: offer_def)
    moreover have "run_out (\<lambda>tr. do { tr \<leftarrow> avl_t_next h tb tr; offer result tr }) (SUSPEND (g e) tr) = Some (map g (e # ys), None)"
      by (rule drain_from[OF r(1,2) _ tr(2)]) (rule res)
    ultimately show ?thesis using tr(1) Cons by simp
  qed
qed

lemma drain_assigned_from:
  assumes r: "rooted h tb t" "height t \<le> 32"
    and step: "\<And>tr e env. e \<in> set (entries t) \<Longrightarrow> TNode tr = at e \<Longrightarrow> step tr env = Some (SUSPEND (g e) (mk tr), upd e env)"
      "\<And>tr env. TNode tr = 0 \<Longrightarrow> step tr env = Some (FAILURE, env)"
    and res: "\<And>tr env. resume (mk tr) env = do { tr \<leftarrow> avl_t_next h tb tr; step tr env }"
    and upd: "\<And>e e' env. upd e (upd e' env) = upd e env"
  shows "visits tb t tr xs e ys \<Longrightarrow>
    drain_assigned resume (SUSPEND (g e) (mk tr)) (upd e env) = Some (map (\<lambda>e. (g e, upd e env)) (e # ys))"
proof (induction ys arbitrary: tr xs e)
  case Nil
  from r Nil show ?case
    by (cases rule: next_cases) (simp_all add: drain_assigned.simps res step(2))
next
  case (Cons e2 ys)
  from r Cons.prems show ?case
  proof (cases rule: next_cases)
    case (2 tr' e' zs)
    then have "step tr' (upd e env) = Some (SUSPEND (g e2) (mk tr'), upd e2 env)"
      using step(1)[of e2 tr'] visits_entries[OF Cons.prems] upd by simp
    then show ?thesis using 2 Cons.IH[of tr' "xs @ [e]" e2] by (subst drain_assigned.simps) (simp add: res)
  qed simp
qed

lemma drain_assigned_all:
  assumes ok: "table_ok h tb t"
    and step: "\<And>tr e env. e \<in> set (entries t) \<Longrightarrow> TNode tr = at e \<Longrightarrow> step tr env = Some (SUSPEND (g e) (mk tr), upd e env)"
      "\<And>tr env. TNode tr = 0 \<Longrightarrow> step tr env = Some (FAILURE, env)"
    and res: "\<And>tr env. resume (mk tr) env = do { tr \<leftarrow> avl_t_next h tb tr; step tr env }"
    and upd: "\<And>e e' env. upd e (upd e' env) = upd e env"
  shows "\<exists>r env'. do { tr \<leftarrow> avl_t_first h tb; step tr env } = Some (r, env') \<and>
    drain_assigned resume r env' = Some (map (\<lambda>e. (g e, upd e env)) (entries t))"
proof -
  have r: "rooted h tb t" "height t \<le> 32" "height t \<le> 33" using ok table_ok_height[OF ok] by (simp_all add: table_ok_def)
  show ?thesis
  proof (cases "entries t")
    case Nil
    then show ?thesis using avl_t_first_spec(1)[OF r(1,3)] by (simp add: step(2) drain_assigned.simps)
  next
    case (Cons e ys)
    from avl_t_first_spec(2)[OF r(1,3) Cons] obtain tr where tr: "avl_t_first h tb = Some tr" "visits tb t tr [] e ys" by blast
    have "step tr env = Some (SUSPEND (g e) (mk tr), upd e env)" using step(1)[of e tr] visits_node[OF tr(2)] Cons by simp
    moreover have "drain_assigned resume (SUSPEND (g e) (mk tr)) (upd e env) = Some (map (\<lambda>e. (g e, upd e env)) (e # ys))"
      by (rule drain_assigned_from[OF r(1,2) step res upd tr(2)])
    ultimately show ?thesis using tr(1) Cons by simp
  qed
qed

lemma table_entry_cell:
  assumes "table_ok h tb t" and "e \<in> set (entries t)"
  shows "\<exists>n. cell_at h (at e) = Some n \<and> Key n = ekey e \<and> Slot n = slot e \<and> Hash n = ehash e"
  using entry_cell[OF _ assms(2), of h tb] assms(1) by (simp add: table_ok_def)

text \<open>\<open>find\<close>: the tests until the first hit are \<open>eq v w\<close>, those after it \<open>eq w v\<close>.\<close>

fun find_hits :: "('v \<Rightarrow> ('r, 'm, unit) reply) \<Rightarrow> ('v \<Rightarrow> ('r, 'm, unit) reply) \<Rightarrow> ('k, 'v) entry list \<Rightarrow> 'k list \<times> 'm option" where
  "find_hits test again [] = ([], None)"
| "find_hits test again (e # es) =
     (case test (the (slot e)) of
        MESSAGE m \<Rightarrow> ([], Some m)
      | FAILURE \<Rightarrow> find_hits test again es
      | _ \<Rightarrow> map_prod (Cons (ekey e)) id (find_hits again again es))"

lemma find_hits_filter:
  assumes "\<forall>e \<in> set es. (test (the (slot e)) = FAILURE \<longleftrightarrow> again (the (slot e)) = FAILURE) \<and>
    (\<forall>m. test (the (slot e)) \<noteq> MESSAGE m \<and> again (the (slot e)) \<noteq> MESSAGE m)"
  shows "find_hits test again es = (map ekey (filter (\<lambda>e. test (the (slot e)) \<noteq> FAILURE) es), None)"
    and "find_hits again again es = (map ekey (filter (\<lambda>e. test (the (slot e)) \<noteq> FAILURE) es), None)"
  using assms by (induction es) (auto split: reply.split)

text \<open>The scan from an entry on, and what is left to the resumptions.\<close>

lemma find_scan_drain:
  assumes ok: "table_ok h tb t" and null: "\<forall>e \<in> set (entries t). slot e \<noteq> None"
  shows "visits tb t tr xs e ys \<Longrightarrow>
    \<exists>r. find_scan test v h tb tr = Some r \<and>
      run_out (resume_find_table eq h tb) r = Some (find_hits test (\<lambda>w. eq w v) (e # ys))"
proof (induction ys arbitrary: tr xs e test)
  case Nil
  have r: "rooted h tb t" "height t \<le> 32" using ok table_ok_height[OF ok] by (simp_all add: table_ok_def)
  obtain n w where c: "TNode tr = at e" "at e \<noteq> 0" "cell_at h (at e) = Some n" "Key n = ekey e" "Slot n = Some w" "slot e = Some w"
    using visits_node[OF Nil] visits_entries[OF Nil] entry_nonnull[OF r(1), of e] table_entry_cell[OF ok, of e] null by auto
  from r Nil obtain tr' where "avl_t_next h tb tr = Some tr'" "TNode tr' = 0"
    by (cases rule: next_cases) simp_all
  then show ?case
    using c by (cases "test w") (simp_all add: find_scan.simps run_out.simps resume_find_table_def)
next
  case (Cons e2 ys)
  have r: "rooted h tb t" "height t \<le> 32" using ok table_ok_height[OF ok] by (simp_all add: table_ok_def)
  obtain n w where c: "TNode tr = at e" "at e \<noteq> 0" "cell_at h (at e) = Some n" "Key n = ekey e" "Slot n = Some w" "slot e = Some w"
    using visits_node[OF Cons.prems] visits_entries[OF Cons.prems] entry_nonnull[OF r(1), of e] table_entry_cell[OF ok, of e] null by auto
  from r Cons.prems obtain tr' where nx: "avl_t_next h tb tr = Some tr'" "visits tb t tr' (xs @ [e]) e2 ys"
    by (cases rule: next_cases) simp_all
  obtain r1 where r1: "find_scan test v h tb tr' = Some r1"
    "run_out (resume_find_table eq h tb) r1 = Some (find_hits test (\<lambda>w. eq w v) (e2 # ys))"
    using Cons.IH[OF nx(2)] by blast
  obtain r2 where r2: "find_scan (\<lambda>w. eq w v) v h tb tr' = Some r2"
    "run_out (resume_find_table eq h tb) r2 = Some (find_hits (\<lambda>w. eq w v) (\<lambda>w. eq w v) (e2 # ys))"
    using Cons.IH[OF nx(2)] by blast
  note here = find_scan.simps[of test v h tb tr] find_hits.simps(2)[of _ _ e "e2 # ys"]
  have resume: "resume_find_table eq h tb \<lparr>FTrav = tr, FValue = v\<rparr> = Some r2" using nx(1) r2(1) by (simp add: resume_find_table_def)
  have more: "run_out (resume_find_table eq h tb) (SUSPEND (ekey e) \<lparr>FTrav = tr, FValue = v\<rparr>) =
      Some (map_prod (Cons (ekey e)) id (find_hits (\<lambda>w. eq w v) (\<lambda>w. eq w v) (e2 # ys)))"
    using resume r2(2) by (subst run_out.simps) (simp del: find_hits.simps split: prod.split)
  show ?case
  proof (cases "test w")
    case (MESSAGE m)
    then show ?thesis using c by (simp add: here run_out.simps)
  qed (use c nx r1 more in \<open>simp_all add: here del: find_hits.simps\<close>)
qed

section \<open>The generators and the find generator, as wholes\<close>

lemma generators_drain:
  assumes ok: "table_ok h tb t"
  shows "\<exists>r. items_table h tb = Some r \<and> run_out (resume_items_table h tb) r = Some (map at (entries t), None)"
    and "\<exists>r. keys_table h tb = Some r \<and> run_out (resume_keys_table h tb) r = Some (map ekey (entries t), None)"
    and "\<forall>e \<in> set (entries t). slot e \<noteq> None \<Longrightarrow>
      \<exists>r. values_table h tb = Some r \<and>
        run_out (resume_values_table h tb) r = Some (map (\<lambda>e. (the (slot e), at e)) (entries t), None)"
proof -
  show "\<exists>r. items_table h tb = Some r \<and> run_out (resume_items_table h tb) r = Some (map at (entries t), None)"
    unfolding items_table_def resume_items_table_def by (rule drain_entries[OF ok]) simp
  show "\<exists>r. keys_table h tb = Some r \<and> run_out (resume_keys_table h tb) r = Some (map ekey (entries t), None)"
    unfolding keys_table_def resume_keys_table_def
    by (rule drain_entries[OF ok]) (use table_entry_cell[OF ok] in \<open>auto simp: node_key_def\<close>)
  assume null: "\<forall>e \<in> set (entries t). slot e \<noteq> None"
  show "\<exists>r. values_table h tb = Some r \<and>
      run_out (resume_values_table h tb) r = Some (map (\<lambda>e. (the (slot e), at e)) (entries t), None)"
    unfolding values_table_def resume_values_table_def
  proof (rule drain_entries[OF ok])
    fix x assume x: "x \<in> set (entries t)"
    with null obtain v where "slot x = Some v" by auto
    with table_entry_cell[OF ok x] show "node_value h (at x) = Some (the (slot x), at x)"
      by (auto simp: node_value_def)
  qed
qed

lemma pair_generators_drain:
  assumes ok: "table_ok h tb t" and null: "\<forall>e \<in> set (entries t). slot e \<noteq> None"
  shows "\<exists>r env'. keys2_table h tb p env = Some (r, env') \<and>
      drain_assigned (resume_keys2_table h tb) r env' = Some (map (\<lambda>e. (ekey e, env(p := Inr (the (slot e))))) (entries t))"
    and "\<exists>r env'. values2_table h tb p env = Some (r, env') \<and>
      drain_assigned (resume_values2_table h tb) r env' =
        Some (map (\<lambda>e. ((the (slot e), at e), env(p := Inl (ekey e)))) (entries t))"
    and "\<exists>r env'. loop_table h tb p q env = Some (r, env') \<and>
      drain_assigned (resume_loop_table h tb) r env' =
        Some (map (\<lambda>e. (at e, env(p := Inl (ekey e), q := Inr (the (slot e))))) (entries t))"
proof -
  have c: "\<exists>n v. cell_at h (at e) = Some n \<and> at e \<noteq> 0 \<and> Key n = ekey e \<and> Slot n = Some v \<and> slot e = Some v"
    if "e \<in> set (entries t)" for e
    using table_entry_cell[OF ok that] null that entry_nonnull[of h tb t e] ok by (auto simp: table_ok_def)
  show "\<exists>r env'. keys2_table h tb p env = Some (r, env') \<and>
      drain_assigned (resume_keys2_table h tb) r env' = Some (map (\<lambda>e. (ekey e, env(p := Inr (the (slot e))))) (entries t))"
    unfolding keys2_table_def
    by (rule drain_assigned_all[OF ok, where mk = "\<lambda>tr. \<lparr>PTrav = tr, Pair = p\<rparr>" and upd = "\<lambda>e env. env(p := Inr (the (slot e)))"])
      (use c in \<open>force simp: step_keys2_def resume_keys2_table_def\<close>)+
  show "\<exists>r env'. values2_table h tb p env = Some (r, env') \<and>
      drain_assigned (resume_values2_table h tb) r env' =
        Some (map (\<lambda>e. ((the (slot e), at e), env(p := Inl (ekey e)))) (entries t))"
    unfolding values2_table_def
    by (rule drain_assigned_all[OF ok, where mk = "\<lambda>tr. \<lparr>PTrav = tr, Pair = p\<rparr>" and upd = "\<lambda>e env. env(p := Inl (ekey e))"])
      (use c in \<open>force simp: step_values2_def resume_values2_table_def\<close>)+
  show "\<exists>r env'. loop_table h tb p q env = Some (r, env') \<and>
      drain_assigned (resume_loop_table h tb) r env' =
        Some (map (\<lambda>e. (at e, env(p := Inl (ekey e), q := Inr (the (slot e))))) (entries t))"
    unfolding loop_table_def
    by (rule drain_assigned_all[OF ok, where mk = "\<lambda>tr. \<lparr>LTrav = tr, KeyRef = p, ValueRef = q\<rparr>"
          and upd = "\<lambda>e env. env(p := Inl (ekey e), q := Inr (the (slot e)))"])
      (use c in \<open>force simp: step_loop_def resume_loop_table_def\<close>)+
qed

lemma find_drain:
  assumes ok: "table_ok h tb t" and null: "\<forall>e \<in> set (entries t). slot e \<noteq> None"
  shows "\<exists>r. find_table eq h tb v = Some r \<and>
    run_out (resume_find_table eq h tb) r = Some (find_hits (\<lambda>w. eq v w) (\<lambda>w. eq w v) (entries t))"
proof -
  have r: "rooted h tb t" "height t \<le> 33" using ok table_ok_height[OF ok] by (simp_all add: table_ok_def)
  show ?thesis
  proof (cases "entries t")
    case Nil
    then show ?thesis using avl_t_first_spec(1)[OF r] by (simp add: find_table_def find_scan.simps run_out.simps)
  next
    case (Cons e ys)
    from avl_t_first_spec(2)[OF r Cons] obtain tr where tr: "avl_t_first h tb = Some tr" "visits tb t tr [] e ys" by blast
    from find_scan_drain[OF ok null tr(2), of "\<lambda>w. eq v w" v eq] show ?thesis
      using tr(1) Cons by (simp add: find_table_def)
  qed
qed

text \<open>
  C22: the generators of a table visit every entry once, in the order of the tree, and then end. Drained by
  resuming them until they fail, \<^verbatim>\<open>items\<close> gives the nodes, \<^verbatim>\<open>keys\<close> the keys, and, where no value is NULL,
  \<^verbatim>\<open>values\<close> the values with references to them; the forms with variables assign the value, the key or both
  before each result, where \<^verbatim>\<open>loop\<close> gives the node; and \<^verbatim>\<open>find\<close> gives the keys of the values that are equal to the given one, whichever
  way round \<^verbatim>\<open>=\<close> is asked, up to a message of \<^verbatim>\<open>=\<close>.
\<close>

theorem table_generators_correct:
  assumes "table_ok h tb t"
  shows "(\<exists>r. items_table h tb = Some r \<and> run_out (resume_items_table h tb) r = Some (map at (entries t), None)) \<and>
    (\<exists>r. keys_table h tb = Some r \<and> run_out (resume_keys_table h tb) r = Some (map ekey (entries t), None)) \<and>
    ((\<forall>e \<in> set (entries t). slot e \<noteq> None) \<longrightarrow>
      (\<exists>r. values_table h tb = Some r \<and>
        run_out (resume_values_table h tb) r = Some (map (\<lambda>e. (the (slot e), at e)) (entries t), None)) \<and>
      (\<exists>r env'. keys2_table h tb p env = Some (r, env') \<and>
        drain_assigned (resume_keys2_table h tb) r env' = Some (map (\<lambda>e. (ekey e, env(p := Inr (the (slot e))))) (entries t))) \<and>
      (\<exists>r env'. values2_table h tb p env = Some (r, env') \<and>
        drain_assigned (resume_values2_table h tb) r env' =
          Some (map (\<lambda>e. ((the (slot e), at e), env(p := Inl (ekey e)))) (entries t))) \<and>
      (\<exists>r env'. loop_table h tb p q env = Some (r, env') \<and>
        drain_assigned (resume_loop_table h tb) r env' =
          Some (map (\<lambda>e. (at e, env(p := Inl (ekey e), q := Inr (the (slot e))))) (entries t))) \<and>
      (\<exists>r. find_table eq h tb v = Some r \<and>
        run_out (resume_find_table eq h tb) r = Some (find_hits (\<lambda>w. eq v w) (\<lambda>w. eq w v) (entries t))) \<and>
      ((\<forall>e \<in> set (entries t). (eq v (the (slot e)) = FAILURE \<longleftrightarrow> eq (the (slot e)) v = FAILURE) \<and>
          (\<forall>m. eq v (the (slot e)) \<noteq> MESSAGE m \<and> eq (the (slot e)) v \<noteq> MESSAGE m)) \<longrightarrow>
        find_hits (\<lambda>w. eq v w) (\<lambda>w. eq w v) (entries t) =
          (map ekey (filter (\<lambda>e. eq v (the (slot e)) \<noteq> FAILURE) (entries t)), None)))"
  using generators_drain(1,2)[OF assms] generators_drain(3)[OF assms] pair_generators_drain[OF assms]
    find_drain[OF assms, of eq v] find_hits_filter(1)[of "entries t" "\<lambda>w. eq v w" "\<lambda>w. eq w v"]
  by simp

lemma table_generators_correct_witness:
  "(\<exists>r. keys_table sample_mem sample_table = Some r \<and>
     run_out (resume_keys_table sample_mem sample_table) r = Some ([1, 2, 3], None)) \<and>
   (\<exists>r. find_table (\<lambda>v w. if v = w then SUCCESS w else FAILURE) sample_mem sample_table 20 = Some r \<and>
     run_out (resume_find_table (\<lambda>v w. if v = w then SUCCESS w else FAILURE) sample_mem sample_table) r =
       Some ([2], None :: int option))"
  using table_generators_correct[OF sample_table_ok(1), of 0 "\<lambda>_. Inl 0" 1
      "\<lambda>v w. if v = w then SUCCESS w else FAILURE :: (int, int, unit) reply" 20]
  by (simp add: sample_table_simps)

section \<open>Loops that change nothing\<close>

fun fold_steps :: "('s \<Rightarrow> 'e \<Rightarrow> 's + 'r) \<Rightarrow> 's \<Rightarrow> 'e list \<Rightarrow> 's + 'r" where
  "fold_steps step s [] = Inl s"
| "fold_steps step s (e # es) = (case step s e of Inl s \<Rightarrow> fold_steps step s es | Inr r \<Rightarrow> Inr r)"

lemma each_from_pure:
  assumes r: "rooted h tb t" "height t \<le> 32"
    and step: "\<And>e s. e \<in> set (entries t) \<Longrightarrow> body h tb s (at e) = Some (step s e, h, tb)"
  shows "visits tb t tr xs e ys \<Longrightarrow> each_from body h tb s tr = Some (fold_steps step s (e # ys), h, tb)"
proof (induction ys arbitrary: tr xs e s)
  case Nil
  have b: "TNode tr = at e" "at e \<noteq> 0" "body h tb s (at e) = Some (step s e, h, tb)"
    using visits_node[OF Nil] visits_entries[OF Nil] entry_nonnull[OF r(1), of e] step[of e] by simp_all
  show ?case
  proof (cases "step s e")
    case (Inl s')
    from r Nil show ?thesis by (cases rule: next_cases) (use b Inl in \<open>simp_all add: each_from.simps\<close>)
  qed (use b in \<open>subst each_from.simps, simp\<close>)
next
  case (Cons e2 ys)
  have b: "TNode tr = at e" "at e \<noteq> 0" "body h tb s (at e) = Some (step s e, h, tb)"
    using visits_node[OF Cons.prems] visits_entries[OF Cons.prems] entry_nonnull[OF r(1), of e] step[of e] by simp_all
  show ?case
  proof (cases "step s e")
    case (Inl s')
    from r Cons.prems show ?thesis
    proof (cases rule: next_cases)
      case (2 tr' e' zs)
      then show ?thesis using Cons.IH[of tr' "xs @ [e]" e2 s'] b Inl by (subst each_from.simps) simp
    qed simp
  qed (use b in \<open>subst each_from.simps, simp\<close>)
qed

lemma each_pure:
  assumes ok: "table_ok h tb t" and step: "\<And>e s. e \<in> set (entries t) \<Longrightarrow> body h tb s (at e) = Some (step s e, h, tb)"
  shows "each body h tb s = Some (fold_steps step s (entries t), h, tb)"
proof -
  have r: "rooted h tb t" "height t \<le> 32" "height t \<le> 33" using ok table_ok_height[OF ok] by (simp_all add: table_ok_def)
  show ?thesis
  proof (cases "entries t")
    case Nil
    then show ?thesis using avl_t_first_spec(1)[OF r(1,3)] by (simp add: each_def each_from.simps)
  next
    case (Cons e ys)
    from avl_t_first_spec(2)[OF r(1,3) Cons] obtain tr where tr: "avl_t_first h tb = Some tr" "visits tb t tr [] e ys" by blast
    have "each_from body h tb s tr = Some (fold_steps step s (e # ys), h, tb)"
      by (rule each_from_pure[OF r(1,2) _ tr(2)]) (rule step)
    then show ?thesis using tr(1) Cons by (simp add: each_def)
  qed
qed

text \<open>Equality, with a comparison whose result does not depend on the cache.\<close>

definition same_value ::
  "('v \<Rightarrow> 'v \<Rightarrow> ('v, 'm, unit) reply) \<Rightarrow> ('k, 'v) table \<Rightarrow> ('k, 'v) entry tree \<Rightarrow> ('k, 'v) entry \<Rightarrow> (unit, 'm, unit) reply" where
  "same_value eq b tb e =
     (case find_key (Compare b) (ekey e) (ehash e) (entries tb) of
        None \<Rightarrow> FAILURE
      | Some x \<Rightarrow> (case eq (the (slot e)) (the (slot x)) of
          MESSAGE m \<Rightarrow> MESSAGE m | FAILURE \<Rightarrow> FAILURE | _ \<Rightarrow> SUCCESS ()))"

definition equal_step ::
  "('v \<Rightarrow> 'v \<Rightarrow> ('v, 'm, unit) reply) \<Rightarrow> ('k, 'v) table \<Rightarrow> ('k, 'v) entry tree \<Rightarrow> 'c \<Rightarrow> ('k, 'v) entry \<Rightarrow>
   'c + (unit, 'm, unit) reply \<times> 'c" where
  "equal_step eq b tb c e = (if same_value eq b tb e = SUCCESS () then Inl c else Inr (same_value eq b tb e, c))"

lemma equal_body_step:
  assumes a: "table_ok h A ta" and b: "table_ok h B tb" and e: "e \<in> set (entries ta)"
    and null: "\<forall>e \<in> set (entries ta). slot e \<noteq> None" "\<forall>e \<in> set (entries tb). slot e \<noteq> None"
  shows "equal_body (\<lambda>c v w. (eq v w, c)) B h A c (at e) = Some (equal_step eq B tb c e, h, A)"
proof -
  obtain n where n: "cell_at h (at e) = Some n" "Key n = ekey e" "Slot n = slot e" "Hash n = ehash e"
    using table_entry_cell[OF a e] by blast
  obtain v where v: "slot e = Some v" using null(1) e by blast
  note f = find_at_node[OF b n(1,2,4)]
  show ?thesis
  proof (cases "find_key (Compare B) (ekey e) (ehash e) (entries tb)")
    case None
    then show ?thesis using n v f by (simp add: equal_body_def equal_step_def same_value_def)
  next
    case (Some x)
    note x = found_entry[OF b Some]
    obtain w where w: "slot x = Some w" using null(2) x(3) by blast
    show ?thesis using n v f Some x w
      by (cases "eq v w") (simp_all add: equal_body_def equal_step_def same_value_def)
  qed
qed

lemma fold_equal:
  "fold_steps (equal_step eq b tb) c es =
     (case List.find (\<lambda>e. same_value eq b tb e \<noteq> SUCCESS ()) es of
        None \<Rightarrow> Inl c | Some e \<Rightarrow> Inr (same_value eq b tb e, c))"
  by (induction es) (auto simp: equal_step_def)

lemma equal_table_spec:
  assumes a: "table_ok h A ta" and b: "table_ok h B tb"
    and null: "\<forall>e \<in> set (entries ta). slot e \<noteq> None" "\<forall>e \<in> set (entries tb). slot e \<noteq> None" and "cache a = None"
  shows "equal_table (\<lambda>c v w. (eq v w, c)) h a A b B cache =
     Some (if Count A \<noteq> Count B then FAILURE
       else case List.find (\<lambda>e. same_value eq B tb e \<noteq> SUCCESS ()) (entries ta) of
         None \<Rightarrow> SUCCESS () | Some e \<Rightarrow> same_value eq B tb e, cache(a \<mapsto> b))"
proof -
  have "each (equal_body (\<lambda>c v w. (eq v w, c)) B) h A c = Some (fold_steps (equal_step eq B tb) c (entries ta), h, A)" for c :: "ptr \<Rightarrow> ptr option"
    by (rule each_pure[OF a]) (rule equal_body_step[OF a b _ null])
  moreover have "entries ta = []" if "Count A = 0" using a that by (auto simp: table_ok_def rooted_def)
  ultimately show ?thesis using assms(5)
    by (auto simp: equal_table_def fold_equal Let_def split: option.split)
qed

text \<open>Equality, with a comparison that reads and changes the cache, as that of tables and lists does.\<close>

definition cached_step ::
  "('c \<Rightarrow> 'v \<Rightarrow> 'v \<Rightarrow> ('v, 'm, unit) reply \<times> 'c) \<Rightarrow> ('k, 'v) table \<Rightarrow> ('k, 'v) entry tree \<Rightarrow> 'c \<Rightarrow> ('k, 'v) entry \<Rightarrow>
   'c + (unit, 'm, unit) reply \<times> 'c" where
  "cached_step eq b tb c e =
     (case find_key (Compare b) (ekey e) (ehash e) (entries tb) of
        None \<Rightarrow> Inr (FAILURE, c)
      | Some x \<Rightarrow> (case eq c (the (slot e)) (the (slot x)) of
          (MESSAGE m, c) \<Rightarrow> Inr (MESSAGE m, c) | (FAILURE, c) \<Rightarrow> Inr (FAILURE, c) | (_, c) \<Rightarrow> Inl c))"

lemma cached_body_step:
  assumes a: "table_ok h A ta" and b: "table_ok h B tb" and e: "e \<in> set (entries ta)"
    and null: "\<forall>e \<in> set (entries ta). slot e \<noteq> None" "\<forall>e \<in> set (entries tb). slot e \<noteq> None"
  shows "equal_body eq B h A c (at e) = Some (cached_step eq B tb c e, h, A)"
proof -
  obtain n where n: "cell_at h (at e) = Some n" "Key n = ekey e" "Slot n = slot e" "Hash n = ehash e"
    using table_entry_cell[OF a e] by blast
  obtain v where v: "slot e = Some v" using null(1) e by blast
  note f = find_at_node[OF b n(1,2,4)]
  show ?thesis
  proof (cases "find_key (Compare B) (ekey e) (ehash e) (entries tb)")
    case None
    then show ?thesis using n v f by (simp add: equal_body_def cached_step_def)
  next
    case (Some x)
    note x = found_entry[OF b Some]
    obtain w where w: "slot x = Some w" using null(2) x(3) by blast
    obtain q c' where "eq c v w = (q, c')" by (cases "eq c v w")
    then show ?thesis using n v f Some x w
      by (cases q) (simp_all add: equal_body_def cached_step_def)
  qed
qed

lemma cached_table_spec:
  assumes a: "table_ok h A ta" and b: "table_ok h B tb"
    and null: "\<forall>e \<in> set (entries ta). slot e \<noteq> None" "\<forall>e \<in> set (entries tb). slot e \<noteq> None" and "cache a = None"
  shows "equal_table eq h a A b B cache =
     Some (if Count A \<noteq> Count B then (FAILURE, cache(a \<mapsto> b))
       else case fold_steps (cached_step eq B tb) (cache(a \<mapsto> b)) (entries ta) of
         Inl c \<Rightarrow> (SUCCESS (), c) | Inr r \<Rightarrow> r)"
proof -
  have "each (equal_body eq B) h A c = Some (fold_steps (cached_step eq B tb) c (entries ta), h, A)" for c :: "ptr \<Rightarrow> ptr option"
    by (rule each_pure[OF a]) (rule cached_body_step[OF a b _ null])
  moreover have "entries ta = []" if "Count A = 0" using a that by (auto simp: table_ok_def rooted_def)
  ultimately show ?thesis using assms(5)
    by (auto simp: equal_table_def Let_def split: sum.split)
qed

text \<open>
  Two tables are not equal to each other if the values of the first are one and the same table and those of the second two
  different tables, even if all these are equal: the second comparison of the one table is answered from
  the cache. Here the comparison of the values is that of tables that are equal.
\<close>

definition nested_eq :: "(ptr \<Rightarrow> ptr option) \<Rightarrow> ptr \<Rightarrow> ptr \<Rightarrow> (ptr, 'm, unit) reply \<times> (ptr \<Rightarrow> ptr option)" where
  "nested_eq c v w =
     (case c v of Some p \<Rightarrow> (if p = w then SUCCESS w else FAILURE, c) | None \<Rightarrow> (SUCCESS w, c(v \<mapsto> w)))"

lemma table_equal_nested:
  assumes "table_ok h A ta" and "table_ok h B tb" and "entries ta = [e1, e2]" and "Count A = Count B"
    and "find_key (Compare B) (ekey e1) (ehash e1) (entries tb) = Some x1"
    and "find_key (Compare B) (ekey e2) (ehash e2) (entries tb) = Some x2"
    and "slot e1 = Some X" and "slot e2 = Some X" and "slot x1 = Some Y" and "slot x2 = Some Z" and "Y \<noteq> Z" and "X \<noteq> a"
    and "\<forall>e \<in> set (entries tb). slot e \<noteq> None"
  shows "equal_table nested_eq h a A b B Map.empty = Some (FAILURE, [a \<mapsto> b, X \<mapsto> Y])"
proof -
  have null: "\<forall>e \<in> set (entries ta). slot e \<noteq> None" using assms(3,7,8) by simp
  show ?thesis
    unfolding cached_table_spec[where cache = Map.empty and a = a and b = b and eq = nested_eq, OF assms(1,2) null assms(13) refl]
    using assms(3-12) by (auto simp: cached_step_def nested_eq_def)
qed

text \<open>The C function \<^verbatim>\<open>_foreach\<close>, \<^verbatim>\<open>newv\<close> and the string.\<close>

lemma foreach_c_spec:
  assumes "table_ok h tb t"
  shows "foreach_c h tb callback d =
    Some (case fold_steps (\<lambda>d e. let (r, d) = callback (ekey e) (slot e) d in if r \<noteq> 0 then Inr d else Inl d) d (entries t) of
      Inl d \<Rightarrow> (0, d) | Inr d \<Rightarrow> (1, d))"
proof -
  have "each (foreach_c_body callback) h tb d =
      Some (fold_steps (\<lambda>d e. let (r, d) = callback (ekey e) (slot e) d in if r \<noteq> 0 then Inr d else Inl d) d (entries t), h, tb)"
  proof (rule each_pure[OF assms])
    fix e s assume "e \<in> set (entries t)"
    from table_entry_cell[OF assms this] show "foreach_c_body callback h tb s (at e) =
        Some (let (r, d) = callback (ekey e) (slot e) s in if r \<noteq> 0 then Inr d else Inl d, h, tb)"
      by (auto simp: foreach_c_body_def split: prod.split)
  qed
  then show ?thesis by (simp add: foreach_c_def split: sum.split)
qed

lemma newv_table_spec:
  assumes "table_ok h tb t" and "\<And>e obj. e \<in> set (entries t) \<Longrightarrow> field (ekey e) obj (slot e) \<noteq> FAILURE"
  shows "newv_table h new tb field =
    Some (case fold_steps (\<lambda>obj e. case field (ekey e) obj (slot e) of MESSAGE m \<Rightarrow> Inr m | r \<Rightarrow> Inl (the (returned r))) new (entries t) of
      Inl obj \<Rightarrow> SUCCESS obj | Inr m \<Rightarrow> MESSAGE m)"
proof -
  have "each (newv_body field) h tb new =
      Some (fold_steps (\<lambda>obj e. case field (ekey e) obj (slot e) of MESSAGE m \<Rightarrow> Inr m | r \<Rightarrow> Inl (the (returned r))) new (entries t), h, tb)"
  proof (rule each_pure[OF assms(1)])
    fix e s assume e: "e \<in> set (entries t)"
    from table_entry_cell[OF assms(1) e] assms(2)[OF e, of s] show "newv_body field h tb s (at e) =
        Some (case field (ekey e) s (slot e) of MESSAGE m \<Rightarrow> Inr m | r \<Rightarrow> Inl (the (returned r)), h, tb)"
      by (auto simp: newv_body_def split: reply.split)
  qed
  then show ?thesis by (simp add: newv_table_def split: sum.split)
qed

definition entry_text ::
  "('k \<Rightarrow> (string, 'm, unit) reply) \<Rightarrow> ('v \<Rightarrow> (string, 'm, unit) reply) \<Rightarrow> 'v \<Rightarrow> ('k, 'v) entry \<Rightarrow> string" where
  "entry_text kstr vstr nil e = piece kstr ''<key>'' (ekey e) @
     (if the (slot e) \<noteq> nil then '' is '' @ piece vstr ''<value>'' (the (slot e)) else '''')"

lemma entry_string_spec:
  assumes "table_ok h tb t" and "e \<in> set (entries t)" and "slot e \<noteq> None"
  shows "entry_string kstr vstr nil h (at e) acc = Some (acc @ entry_text kstr vstr nil e)"
  using table_entry_cell[OF assms(1,2)] assms(3) by (auto simp: entry_string_def entry_text_def)

lemma fold_string:
  "fold_steps (\<lambda>acc e. Inl (acc @ text e)) acc es = Inl (acc @ concat (map text es))"
  by (induction es arbitrary: acc) auto

lemma string_of_table_spec:
  assumes ok: "table_ok h tb t" and lk: "TLock tb = 0" and null: "\<forall>e \<in> set (entries t). slot e \<noteq> None"
  shows "string_of_table kstr vstr nil h tb =
    Some (''{'' @ (case entries t of [] \<Rightarrow> ''''
       | e # es \<Rightarrow> entry_text kstr vstr nil e @ concat (map (\<lambda>e. '', '' @ entry_text kstr vstr nil e) es)) @ ''}'', tb)"
proof -
  let ?l = "tb\<lparr>TLock := 1\<rparr>" and ?x = "entry_text kstr vstr nil"
  have okl: "table_ok h ?l t" using ok by simp
  have r: "rooted h ?l t" "height t \<le> 32" "height t \<le> 33" using okl table_ok_height[OF okl] by (simp_all add: table_ok_def)
  have step: "string_body kstr vstr nil h ?l acc (at e) = Some (Inl (acc @ '', '' @ ?x e), h, ?l)" if "e \<in> set (entries t)" for e acc
    using entry_string_spec[OF ok that, of kstr vstr nil "acc @ '', ''"] null that by (simp add: string_body_def)
  show ?thesis
  proof (cases "entries t")
    case Nil
    from avl_t_first_spec(1)[OF r(1,3) Nil] have f: "avl_t_first h ?l = Some \<lparr>TNode = 0, TStack = [], TGen = Generation ?l\<rparr>" .
    then show ?thesis using lk Nil same_lock[OF lk]
      by (simp add: string_of_table_def avl_t_next_def each_from.simps)
  next
    case (Cons e ys)
    from avl_t_first_spec(2)[OF r(1,3) Cons] obtain tr where tr: "avl_t_first h ?l = Some tr" "visits ?l t tr [] e ys" by blast
    have e: "TNode tr = at e" "at e \<noteq> 0" "entry_string kstr vstr nil h (at e) ''{'' = Some (''{'' @ ?x e)"
      using visits_node[OF tr(2)] entry_nonnull[OF r(1), of e] entry_string_spec[OF ok, of e kstr vstr nil "''{''"] null Cons by simp_all
    from r(1,2) tr(2) show ?thesis
    proof (cases rule: next_cases)
      case (1 tr')
      then show ?thesis using lk Cons same_lock[OF lk] tr(1) e by (simp add: string_of_table_def each_from.simps)
    next
      case (2 tr' e' zs)
      have "each_from (string_body kstr vstr nil) h ?l (''{'' @ ?x e) tr' =
          Some (fold_steps (\<lambda>acc e. Inl (acc @ '', '' @ ?x e)) (''{'' @ ?x e) (e' # zs), h, ?l)"
        by (rule each_from_pure[OF r(1,2) _ 2(3)]) (rule step)
      then show ?thesis using 2 lk Cons same_lock[OF lk] tr(1) e by (simp add: string_of_table_def fold_string)
    qed
  qed
qed

section \<open>foreach\<close>

text \<open>The entries after \<^verbatim>\<open>foreach\<close>, and the message that stopped it.\<close>

fun updated :: "('k \<Rightarrow> 'v \<Rightarrow> ('v, 'm, unit) reply \<times> 'v) \<Rightarrow> ('k, 'v) entry list \<Rightarrow> ('k, 'v) entry list \<times> 'm option" where
  "updated f [] = ([], None)"
| "updated f (e # es) =
     (let (r, w) = f (ekey e) (the (slot e)); e' = Entry (at e) (ekey e) (Some w) (ehash e) in
      case r of MESSAGE m \<Rightarrow> (e' # es, Some m) | _ \<Rightarrow> map_prod (Cons e') id (updated f es))"

lemma revalue_list:
  assumes "distinct (map at (xs @ e # ys))"
  shows "map (revalue (at e) v) (xs @ e # ys) = xs @ Entry (at e) (ekey e) v (ehash e) # ys"
    and "map (revalue (at e) v) (xs @ [e]) = xs @ [Entry (at e) (ekey e) v (ehash e)]"
    and "map (revalue (at e) v) ys = ys"
proof -
  have "at e \<notin> at ` (set xs \<union> set ys)" using assms by (simp add: image_Un)
  then have "at x \<noteq> at e" if "x \<in> set xs \<union> set ys" for x using imageI[OF that, of at] by metis
  then have "map (revalue (at e) v) xs = xs" "map (revalue (at e) v) ys = ys"
    by (auto simp: revalue_def intro!: map_idI)
  then show "map (revalue (at e) v) (xs @ e # ys) = xs @ Entry (at e) (ekey e) v (ehash e) # ys"
    "map (revalue (at e) v) (xs @ [e]) = xs @ [Entry (at e) (ekey e) v (ehash e)]" "map (revalue (at e) v) ys = ys"
    by (simp_all add: revalue_def)
qed

lemma foreach_table_spec:
  assumes ok: "table_ok h tb t" and lk: "TLock tb = 0" and null: "\<forall>e \<in> set (entries t). slot e \<noteq> None"
  shows "\<exists>h' t'. foreach_table h tb f =
      Some (case snd (updated f (entries t)) of None \<Rightarrow> SUCCESS () | Some m \<Rightarrow> MESSAGE m, h', tb) \<and>
    table_ok h' tb t' \<and> entries t' = fst (updated f (entries t)) \<and> TFresh h' = TFresh h"
proof -
  let ?l = "tb\<lparr>TLock := - 1\<rparr>" and ?u = "updated f (entries t)"
  let ?J = "\<lambda>h' t' (s :: unit) xs ys. table_ok h' ?l t' \<and> TFresh h' = TFresh h \<and> (\<forall>e \<in> set ys. slot e \<noteq> None) \<and>
    ?u = (xs @ fst (updated f ys), snd (updated f ys))"
  let ?Q = "\<lambda>h' m (xs :: ('a, 'b) entry list) (e :: ('a, 'b) entry) (ys :: ('a, 'b) entry list).
    \<exists>t'. table_ok h' ?l t' \<and> TFresh h' = TFresh h \<and> ?u = (entries t', Some m)"
  have "(\<exists>h' t' s'. each (foreach_body f) h ?l () = Some (Inl s', h', ?l) \<and> ?J h' t' s' (entries t') []) \<or>
    (\<exists>h' r xs e ys. each (foreach_body f) h ?l () = Some (Inr r, h', ?l) \<and> ?Q h' r xs e ys)"
  proof (rule each_rule[where J = ?J and Q = ?Q])
    fix h1 t1 s xs e ys
    assume J: "?J h1 t1 s xs (e # ys)" and en: "entries t1 = xs @ e # ys"
    then have e: "e \<in> set (entries t1)" and t1: "table_ok h1 ?l t1" by simp_all
    obtain v where v: "slot e = Some v" using J by auto
    obtain n where n: "cell_at h1 (at e) = Some n" "Key n = ekey e" "Slot n = slot e" using table_entry_cell[OF t1 e] by blast
    obtain r w where f: "f (ekey e) v = (r, w)" by fastforce
    obtain h2 where h2: "set_slot h1 (at e) (Some w) = Some h2" "table_ok h2 ?l (map_tree (revalue (at e) (Some w)) t1)" "TFresh h2 = TFresh h1"
      using set_slot_spec(1)[OF t1 e] by blast
    have d: "distinct (map at (xs @ e # ys))" using t1 en by (auto simp: table_ok_def rooted_def)
    note m = revalue_list[OF d, of "Some w"]
    have b: "foreach_body f h1 ?l s (at e) = Some (case r of MESSAGE m \<Rightarrow> Inr m | _ \<Rightarrow> Inl (), h2, ?l)"
      using n v f h2(1) by (simp add: foreach_body_def)
    show "(\<exists>h' s' g. foreach_body f h1 ?l s (at e) = Some (Inl s', h', ?l) \<and> (\<forall>e. at (g e) = at e) \<and>
         ?J h' (map_tree g t1) s' (map g (xs @ [e])) (map g ys)) \<or>
      (\<exists>h' r. foreach_body f h1 ?l s (at e) = Some (Inr r, h', ?l) \<and> ?Q h' r xs e ys)"
    proof (cases "\<exists>m. r = MESSAGE m")
      case True
      then show ?thesis using b h2 J v f en m(1)
        by - (rule disjI2, auto intro!: exI[of _ "map_tree (revalue (at e) (Some w)) t1"])
    next
      case False
      have "?J h2 (map_tree (revalue (at e) (Some w)) t1) () (map (revalue (at e) (Some w)) (xs @ [e])) (map (revalue (at e) (Some w)) ys)"
        unfolding m using False h2 J v f by (cases r) auto
      moreover have "foreach_body f h1 ?l s (at e) = Some (Inl (), h2, ?l)" using b False by (cases r) auto
      ultimately show ?thesis 
        by - (rule disjI1, rule exI[of _ h2], rule exI[of _ "()"], rule exI[of _ "revalue (at e) (Some w)"], simp)
    qed
  next
    show "rooted h1 ?l t1 \<and> height t1 \<le> 32" if "?J h1 t1 s xs ys" for h1 t1 s xs ys
      using that table_ok_height[of h1 ?l t1] by (auto simp: table_ok_def)
    show "?J h t () [] (entries t)" using ok null by simp
  qed
  then show ?thesis
  proof (elim disjE exE conjE)
    fix h' t' s' assume "each (foreach_body f) h ?l () = Some (Inl s', h', ?l)" "table_ok h' ?l t'" "TFresh h' = TFresh h"
      "?u = (entries t' @ fst (updated f []), snd (updated f []))"
    then show ?thesis using lk same_lock[OF lk] by (intro exI[of _ h'] exI[of _ t']) (simp add: foreach_table_def)
  next
    fix h' m t' assume "each (foreach_body f) h ?l () = Some (Inr m, h', ?l)" "table_ok h' ?l t'" "TFresh h' = TFresh h"
      "?u = (entries t', Some m)"
    then show ?thesis using lk same_lock[OF lk] by (intro exI[of _ h'] exI[of _ t']) (simp add: foreach_table_def)
  qed
qed

section \<open>Equality and iteration as properties\<close>

lemma same_value_success:
  "same_value eq b tb e = SUCCESS () \<longleftrightarrow>
    (\<exists>x. find_key (Compare b) (ekey e) (ehash e) (entries tb) = Some x \<and>
      (case eq (the (slot e)) (the (slot x)) of SUCCESS _ \<Rightarrow> True | SUSPEND _ _ \<Rightarrow> True | _ \<Rightarrow> False))"
  by (auto simp: same_value_def split: option.split reply.split)

lemma equal_table_decides:
  assumes a: "table_ok h A ta" and b: "table_ok h B tb"
    and null: "\<forall>e \<in> set (entries ta). slot e \<noteq> None" "\<forall>e \<in> set (entries tb). slot e \<noteq> None" and "cache a = None"
  shows "map_option fst (equal_table (\<lambda>c v w. (eq v w, c)) h a A b B cache) = Some (SUCCESS ()) \<longleftrightarrow>
    Count A = Count B \<and> (\<forall>e \<in> set (entries ta). same_value eq B tb e = SUCCESS ())"
  unfolding equal_table_spec[where cache = cache and a = a and b = b and eq = eq, OF a b null assms(5)]
  by (auto simp: find_None_iff find_Some_iff split: option.split if_splits)

text \<open>
  C30: \<^verbatim>\<open>=\<close> of two tables without NULL values, asked for the first time. If \<^verbatim>\<open>=\<close> of the values neither reads nor
  changes the cache, it succeeds exactly when the tables have the same number of entries
  and every key of the first is in the second with a value that \<^verbatim>\<open>=\<close> accepts; otherwise the answer is that of
  the first entry that does not match, so a message of \<^verbatim>\<open>=\<close> is passed on. Asked again with the cache the
  comparison has filled, it answers from the cache: the second table is equal to the first, every other table
  is not, whatever the first comparison gave. If \<^verbatim>\<open>=\<close> of the values does use the cache, as for nested tables, it is called
  for the entries in order, each time with the cache that the calls before have left, up to the first that does not succeed.
\<close>

theorem table_equal_correct:
  assumes "table_ok h A ta" and "table_ok h B tb"
    and "\<forall>e \<in> set (entries ta). slot e \<noteq> None" "\<forall>e \<in> set (entries tb). slot e \<noteq> None" and "cache a = None"
  shows "\<exists>r. equal_table (\<lambda>c v w. (eq v w, c)) h a A b B cache = Some (r, cache(a \<mapsto> b)) \<and>
    (r = SUCCESS () \<longleftrightarrow> Count A = Count B \<and>
      (\<forall>e \<in> set (entries ta). \<exists>x. find_key (Compare B) (ekey e) (ehash e) (entries tb) = Some x \<and>
        (case eq (the (slot e)) (the (slot x)) of SUCCESS _ \<Rightarrow> True | SUSPEND _ _ \<Rightarrow> True | _ \<Rightarrow> False))) \<and>
    (\<forall>xs e ys x m. Count A = Count B \<and> entries ta = xs @ e # ys \<and> (\<forall>e \<in> set xs. same_value eq B tb e = SUCCESS ()) \<and>
      find_key (Compare B) (ekey e) (ehash e) (entries tb) = Some x \<and> eq (the (slot e)) (the (slot x)) = MESSAGE m \<longrightarrow>
      r = MESSAGE m) \<and>
    equal_table (\<lambda>c v w. (eq v w, c)) h a A c C (cache(a \<mapsto> b)) =
      Some (if b = c then SUCCESS () else FAILURE, cache(a \<mapsto> b)) \<and>
    equal_table ceq h a A b B cache =
      Some (if Count A \<noteq> Count B then (FAILURE, cache(a \<mapsto> b))
        else case fold_steps (cached_step ceq B tb) (cache(a \<mapsto> b)) (entries ta) of
          Inl c \<Rightarrow> (SUCCESS (), c) | Inr r \<Rightarrow> r)"
proof -
  let ?r = "if Count A \<noteq> Count B then FAILURE
       else case List.find (\<lambda>e. same_value eq B tb e \<noteq> SUCCESS ()) (entries ta) of
         None \<Rightarrow> SUCCESS () | Some e \<Rightarrow> same_value eq B tb e"
  note s = equal_table_spec[where cache = cache and a = a and b = b and eq = eq, OF assms]
  have d: "?r = SUCCESS () \<longleftrightarrow> Count A = Count B \<and> (\<forall>e \<in> set (entries ta). same_value eq B tb e = SUCCESS ())"
    using equal_table_decides[where cache = cache and a = a and b = b and eq = eq, OF assms] unfolding s by simp
  have m: "?r = MESSAGE m" if "Count A = Count B" "entries ta = xs @ e # ys" "\<forall>e \<in> set xs. same_value eq B tb e = SUCCESS ()"
    "find_key (Compare B) (ekey e) (ehash e) (entries tb) = Some x" "eq (the (slot e)) (the (slot x)) = MESSAGE m" for xs e ys x m
  proof -
    have "List.find (\<lambda>e. same_value eq B tb e \<noteq> SUCCESS ()) (xs @ e # ys) = Some e"
      using that(3-5) by (induction xs) (auto simp: same_value_def)
    then show ?thesis using that by (simp add: same_value_def)
  qed
  have "(\<forall>e \<in> set (entries ta). same_value eq B tb e = SUCCESS ()) \<longleftrightarrow>
    (\<forall>e \<in> set (entries ta). \<exists>x. find_key (Compare B) (ekey e) (ehash e) (entries tb) = Some x \<and>
        (case eq (the (slot e)) (the (slot x)) of SUCCESS _ \<Rightarrow> True | SUSPEND _ _ \<Rightarrow> True | _ \<Rightarrow> False))"
    by (simp add: same_value_success)
  note d = d[unfolded this]
  have c: "equal_table (\<lambda>c v w. (eq v w, c)) h a A c C (cache(a \<mapsto> b)) =
      Some (if b = c then SUCCESS () else FAILURE, cache(a \<mapsto> b))" by (simp add: equal_table_def)
  note g = cached_table_spec[where cache = cache and a = a and b = b and eq = ceq, OF assms]
  show ?thesis by (intro exI[of _ ?r] conjI s d allI impI c g) (elim conjE, rule m, assumption+)
qed

lemma table_equal_correct_witness:
  "\<exists>r. equal_table (\<lambda>c v w. (if v = w then SUCCESS w else FAILURE :: (int, int, unit) reply, c))
     sample_mem 7 sample_table 8 other_table Map.empty = Some (r, [7 \<mapsto> 8]) \<and> r \<noteq> SUCCESS ()"
proof -
  have n: "\<forall>e \<in> set (entries sample_tree). slot e \<noteq> None" "\<forall>e \<in> set (entries other_tree). slot e \<noteq> None"
    by (simp_all add: sample_table_simps)
  from table_equal_correct[OF sample_table_ok n, of Map.empty 7 "\<lambda>v w. if v = w then SUCCESS w else FAILURE" 8 9 sample_table]
  show ?thesis by (auto simp: sample_table_simps)
qed

text \<open>
  C31: the loops over a table reach every entry once, in order, and leave the table well-formed. \<^verbatim>\<open>foreach\<close>
  stores, entry by entry, what the function leaves in the reference, and stops with the lock released at
  the first message, the later entries being untouched; \<^verbatim>\<open>_foreach\<close> threads the data of the callback through
  all entries and returns 1 at the first non-zero result; \<^verbatim>\<open>newv\<close> assigns the fields of a new object, one for each
  key, unless a call gives a message; and \<^verbatim>\<open>String.Of\<close> gives the entries in order between braces.
\<close>

theorem table_iteration_correct:
  assumes "table_ok h tb t" and "TLock tb = 0" and "\<forall>e \<in> set (entries t). slot e \<noteq> None"
  shows "(\<exists>h' t'. foreach_table h tb f =
        Some (case snd (updated f (entries t)) of None \<Rightarrow> SUCCESS () | Some m \<Rightarrow> MESSAGE m, h', tb) \<and>
      table_ok h' tb t' \<and> entries t' = fst (updated f (entries t))) \<and>
    foreach_c h tb callback d =
      Some (case fold_steps (\<lambda>d e. let (r, d) = callback (ekey e) (slot e) d in if r \<noteq> 0 then Inr d else Inl d) d (entries t) of
        Inl d \<Rightarrow> (0, d) | Inr d \<Rightarrow> (1, d)) \<and>
    ((\<forall>e \<in> set (entries t). \<forall>obj. field (ekey e) obj (slot e) \<noteq> FAILURE) \<longrightarrow>
      newv_table h new tb field =
        Some (case fold_steps (\<lambda>obj e. case field (ekey e) obj (slot e) of MESSAGE m \<Rightarrow> Inr m | r \<Rightarrow> Inl (the (returned r)))
            new (entries t) of Inl obj \<Rightarrow> SUCCESS obj | Inr m \<Rightarrow> MESSAGE m)) \<and>
    string_of_table kstr vstr nil h tb =
      Some (''{'' @ (case entries t of [] \<Rightarrow> ''''
         | e # es \<Rightarrow> entry_text kstr vstr nil e @ concat (map (\<lambda>e. '', '' @ entry_text kstr vstr nil e) es)) @ ''}'', tb)"
  using foreach_table_spec[OF assms, of f] foreach_c_spec[OF assms(1), of callback d]
    newv_table_spec[OF assms(1), of field new] string_of_table_spec[OF assms, of kstr vstr nil] by blast

lemma table_iteration_correct_witness:
  "\<exists>h' t'. foreach_table sample_mem sample_table (\<lambda>k v. (if k = 2 then MESSAGE 5 else SUCCESS v, v + 1)) =
     Some (MESSAGE (5 :: int), h', sample_table) \<and>
   table_ok h' sample_table t' \<and> entries t' = [Entry 2 1 (Some 11) 1, Entry 1 2 (Some 21) 2, Entry 3 3 (Some 30) 3]"
proof -
  have n: "\<forall>e \<in> set (entries sample_tree). slot e \<noteq> None" by (simp add: sample_table_simps)
  from conjunct1[OF table_iteration_correct[OF sample_table_ok(1) sample_table_simps(1) n,
    where f = "\<lambda>k v. (if k = 2 then MESSAGE (5 :: int) else SUCCESS v, v + 1)" and callback = "\<lambda>_ _ _. (0, ())" and d = "()"
      and field = "\<lambda>_ (o' :: unit) _. SUCCESS o' :: (unit, unit, unit) reply" and new = "()"
      and kstr = "\<lambda>_. FAILURE :: (string, unit, unit) reply" and vstr = "\<lambda>_. FAILURE :: (string, unit, unit) reply" and nil = 0]]
  show ?thesis by (auto simp: sample_table_simps)
qed

section \<open>Collect\<close>

lemma add_key_loop:
  "add_key nil h tb k = make_loop h tb [(k, nil)]"
  by (simp add: add_key_def split: bind_split prod.split)

lemma make_loop_Cons: "make_loop h tb ((k, v) # kvs) = do { (h, tb) \<leftarrow> make_loop h tb [(k, v)]; make_loop h tb kvs }"
  by (auto split: bind_split prod.split)

lemma collect_table_rest_make:
  assumes "yields resume r ks e"
  shows "resume g = r \<Longrightarrow> collect_table_rest resume nil h tb g =
    map_option (\<lambda>(h, tb). (case e of None \<Rightarrow> SUCCESS tb | Some m \<Rightarrow> MESSAGE m, h)) (make_loop h tb (map (\<lambda>k. (k, nil)) ks))"
  using assms
proof (induction arbitrary: h tb g rule: yields.induct)
  case (4 g' ks e k)
  have "collect_table_rest resume nil h1 tb1 g' =
      map_option (\<lambda>(h, tb). (case e of None \<Rightarrow> SUCCESS tb | Some m \<Rightarrow> MESSAGE m, h)) (make_loop h1 tb1 (map (\<lambda>k. (k, nil)) ks))"
    for h1 tb1 by (rule 4(2)) simp
  then show ?case using 4(3) by (subst collect_table_rest.simps) (auto simp: add_key_def split: bind_split prod.split)
qed (subst collect_table_rest.simps, auto simp: add_key_def split: bind_split prod.split)+

lemma Collect_table_make:
  assumes "yields resume r ks e"
  shows "Collect_table dcmp dhash nil resume r h =
    map_option (\<lambda>(h, tb). (case e of None \<Rightarrow> SUCCESS tb | Some m \<Rightarrow> MESSAGE m, h)) (make_function dcmp dhash h (map (\<lambda>k. (k, nil)) ks))"
  using assms
proof (cases rule: yields.cases)
  case (4 g vs k)
  have "collect_table_rest resume nil h1 tb1 g =
      map_option (\<lambda>(h, tb). (case e of None \<Rightarrow> SUCCESS tb | Some m \<Rightarrow> MESSAGE m, h)) (make_loop h1 tb1 (map (\<lambda>k. (k, nil)) vs))"
    for h1 tb1 by (rule collect_table_rest_make[OF 4(3)]) simp
  then show ?thesis using 4 by (auto simp: Collect_table_def make_function_def add_key_def split: bind_split prod.split)
qed (auto simp: Collect_table_def make_function_def add_key_def split: bind_split prod.split)

text \<open>
  C29: For every generator that ends, \<^verbatim>\<open>Collect\<close> ends as well. It is the same as \<^verbatim>\<open>Make\<close> with the generated
  values as keys and NIL as every value: the result is a well-formed table with exactly the generated keys. When
  the generator ends with a message, that is the result and the table is dropped.
\<close>

theorem table_collect_correct:
  assumes "mem_ok h" and "key_order dcmp" and "length ks \<le> max_entries" and "TFresh h + length ks \<le> max_cells"
    and "yields resume r ks e"
  shows "\<exists>h' tb. make_function dcmp dhash h (map (\<lambda>k. (k, nil)) ks) = Some (h', tb) \<and>
    Collect_table dcmp dhash nil resume r h = Some (case e of None \<Rightarrow> SUCCESS tb | Some m \<Rightarrow> MESSAGE m, h') \<and>
    trep (Cells h) (h', tb) \<and>
    (\<forall>k. fetch (h', tb) k = (if \<exists>k' \<in> set ks. ul (dhash k) = ul (dhash k') \<and> dcmp k k' = 0 then Some (Some nil) else None))"
proof -
  let ?kvs = "map (\<lambda>k. (k, nil)) ks"
  have l: "length ?kvs \<le> max_entries" "TFresh h + length ?kvs \<le> max_cells" using assms(3,4) by simp_all
  have find: "(case List.find (\<lambda>kv. P (fst kv)) (rev ?kvs) of Some kv \<Rightarrow> Some (Some (snd kv)) | None \<Rightarrow> None) =
      (if \<exists>k' \<in> set ks. P k' then Some (Some nil) else None)" for P
  proof (cases "List.find (\<lambda>kv. P (fst kv)) (rev ?kvs)")
    case None
    then have "\<forall>k' \<in> set ks. \<not> P k'" unfolding find_None_iff by auto
    then show ?thesis using None by simp
  next
    case (Some kv)
    then have "kv \<in> set ?kvs" "P (fst kv)" by (metis find_Some_iff nth_mem set_rev)+
    then show ?thesis using Some by auto
  qed
  from make_function_spec[OF assms(1,2) l, of dhash] obtain h' tb where
    m: "make_function dcmp dhash h ?kvs = Some (h', tb)" "trep (Cells h) (h', tb)"
    "fetch (h', tb) = (\<lambda>k. case List.find (\<lambda>kv. ul (dhash k) = ul (dhash (fst kv)) \<and> dcmp k (fst kv) = 0) (rev ?kvs) of
       Some kv \<Rightarrow> Some (Some (snd kv)) | None \<Rightarrow> None)" by blast
  have "fetch (h', tb) k = (if \<exists>k' \<in> set ks. ul (dhash k) = ul (dhash k') \<and> dcmp k k' = 0 then Some (Some nil) else None)" for k
    unfolding m(3) by (rule find)
  then show ?thesis using m(1,2) Collect_table_make[OF assms(5), of dcmp dhash nil h]
    by (intro exI[of _ h'] exI[of _ tb]) simp
qed

lemma table_collect_correct_witness:
  "\<exists>h' tb. Collect_table int_compare id (0 :: int) (\<lambda>n. if n = 0 then FAILURE else SUSPEND (n mod 2) (n - 1)) (SUSPEND 7 3) \<lparr>Cells = Map.empty, TFresh = 1\<rparr> =
     Some (SUCCESS tb :: ((int, int) table, unit, unit) reply, h') \<and> map (fetch (h', tb)) [0, 2, 7] = [Some (Some 0), None, Some (Some 0)]"
proof -
  have m: "mem_ok \<lparr>Cells = Map.empty, TFresh = 1\<rparr>" by (simp add: mem_ok_def max_cells_def)
  have y: "yields (\<lambda>n. if n = 0 then FAILURE else SUSPEND (n mod 2) (n - 1)) (SUSPEND 7 (3 :: int)) [7, 1, 0, 1] (None :: unit option)"
    by (simp add: yields.intros)
  from table_collect_correct[OF m int_compare_order _ _ y, of id "0 :: int"]
  show ?thesis by (auto simp: max_entries_def max_cells_def int_compare_def)
qed

end
