(* ===== verification/TableRemove.thy ===== *)
theory TableRemove
  imports TableEach
begin

text \<open>
  The operations of an \<^verbatim>\<open>Agg$Table\<close> (\<^verbatim>\<open>dev/src/lib/Agg/Table.c\<close>) that delete entries while a traverser is at
  work: \<^verbatim>\<open>remove\<close>, \<^verbatim>\<open>remove_if\<close> and \<^verbatim>\<open>remove_all\<close>. A deleted node stays in memory, which is garbage
  collected, with its key and hash: that is what the traverser finds its place by.
\<close>

section \<open>The methods\<close>

text \<open>
  The replies below \<^verbatim>\<open>FAILURE\<close> are \<^verbatim>\<open>SUSPEND\<close> and \<^verbatim>\<open>SUCCESS\<close>; a message counts as a failure in \<^verbatim>\<open>remove\<close> and
  \<^verbatim>\<open>remove_if\<close>. \<^verbatim>\<open>remove\<close> reads the value from the node after it has been deleted.
\<close>

definition remove_body ::
  "('v \<Rightarrow> 'v \<Rightarrow> ('r, 'm, unit) reply) \<Rightarrow> 'v \<Rightarrow> ('k, 'v, unit, ptr) body" where
  "remove_body eq v h tb s p = do {
     n \<leftarrow> cell_at h p;
     w \<leftarrow> Slot n;
     if returned (eq v w) \<noteq> None then do {
       (_, h, tb) \<leftarrow> avl_delete h tb (Key n) (Hash n);
       Some (Inr p, h, tb) }
     else Some (Inl (), h, tb) }"

definition remove_table ::
  "('v \<Rightarrow> 'v \<Rightarrow> ('r, 'm, unit) reply) \<Rightarrow> ('k, 'v) mem \<Rightarrow> ('k, 'v) table \<Rightarrow> 'v \<Rightarrow>
   (('v option, unit, unit) reply \<times> ('k, 'v) mem \<times> ('k, 'v) table) option" where
  "remove_table eq h tb v = do {
     tb \<leftarrow> t_wrlock tb;
     (x, h, tb) \<leftarrow> each (remove_body eq v) h tb ();
     tb \<leftarrow> t_unlock tb;
     case x of
       Inl _ \<Rightarrow> Some (FAILURE, h, tb)
     | Inr p \<Rightarrow> do { n \<leftarrow> cell_at h p; Some (SUCCESS (Slot n), h, tb) } }"

definition remove_if_body ::
  "('k \<Rightarrow> 'v \<Rightarrow> ('r, 'm, unit) reply) \<Rightarrow> ('k, 'v, unit, 'v option) body" where
  "remove_if_body f h tb s p = do {
     n \<leftarrow> cell_at h p;
     r \<leftarrow> call_node f h p;
     if returned r \<noteq> None then do {
       (v, h, tb) \<leftarrow> avl_delete h tb (Key n) (Hash n);
       Some (Inr v, h, tb) }
     else Some (Inl (), h, tb) }"

definition remove_if_table ::
  "('k, 'v) mem \<Rightarrow> ('k, 'v) table \<Rightarrow> ('k \<Rightarrow> 'v \<Rightarrow> ('r, 'm, unit) reply) \<Rightarrow>
   (('v option, unit, unit) reply \<times> ('k, 'v) mem \<times> ('k, 'v) table) option" where
  "remove_if_table h tb f = do {
     tb \<leftarrow> t_wrlock tb;
     (x, h, tb) \<leftarrow> each (remove_if_body f) h tb ();
     tb \<leftarrow> t_unlock tb;
     Some (case x of Inl _ \<Rightarrow> FAILURE | Inr v \<Rightarrow> SUCCESS v, h, tb) }"

text \<open>The state of the loop of \<^verbatim>\<open>remove_all\<close> is the number of entries removed, a \<^verbatim>\<open>size_t\<close>.\<close>

definition remove_all_body ::
  "('k \<Rightarrow> 'v \<Rightarrow> ('r, 'm, unit) reply) \<Rightarrow> ('k, 'v, nat, 'm) body" where
  "remove_all_body f h tb removed p = do {
     n \<leftarrow> cell_at h p;
     r \<leftarrow> call_node f h p;
     case r of
       MESSAGE m \<Rightarrow> Some (Inr m, h, tb)
     | FAILURE \<Rightarrow> Some (Inl removed, h, tb)
     | SUSPEND _ _ \<Rightarrow> do { (_, h, tb) \<leftarrow> avl_delete h tb (Key n) (Hash n); Some (Inl (inc32 removed), h, tb) }
     | SUCCESS _ \<Rightarrow> do { (_, h, tb) \<leftarrow> avl_delete h tb (Key n) (Hash n); Some (Inl (inc32 removed), h, tb) } }"

definition remove_all_table ::
  "('k, 'v) mem \<Rightarrow> ('k, 'v) table \<Rightarrow> ('k \<Rightarrow> 'v \<Rightarrow> ('r, 'm, unit) reply) \<Rightarrow>
   ((int, 'm, unit) reply \<times> ('k, 'v) mem \<times> ('k, 'v) table) option" where
  "remove_all_table h tb f = do {
     tb \<leftarrow> t_wrlock tb;
     (x, h, tb) \<leftarrow> each (remove_all_body f) h tb 0;
     tb \<leftarrow> t_unlock tb;
     Some (case x of Inl removed \<Rightarrow> SUCCESS (s32 (int removed)) | Inr m \<Rightarrow> MESSAGE m, h, tb) }"

section \<open>A traverser over a table that changes\<close>

lemma entries_split:
  assumes "key_order cmp" and "sorted_wrt (before cmp) es"
  shows "es = filter (\<lambda>e. 0 \<le> toward cmp k hk e) es @ filter (\<lambda>e. toward cmp k hk e < 0) es"
  using assms(2)
proof (induction es)
  case (Cons x es)
  show ?case
  proof (cases "0 \<le> toward cmp k hk x")
    case False
    then have "\<forall>y \<in> set es. toward cmp k hk y < 0"
      using Cons.prems toward_before(2)[OF assms(1), of x _ k hk] by fastforce
    then show ?thesis using False by (auto simp: filter_empty_conv not_le intro!: filter_True[symmetric])
  qed (use Cons in auto)
qed simp

text \<open>Deleting the entry of a node with the key of the node takes out that entry.\<close>

lemma delete_node:
  assumes ok: "table_ok h tb t" and en: "entries t = xs @ e # ys"
  shows "\<exists>h' tb' t'. avl_delete h tb (ekey e) (ehash e) = Some (slot e, h', tb') \<and> table_ok h' tb' t' \<and>
    entries t' = xs @ ys \<and> TFresh h' = TFresh h \<and> cell_at h' (at e) = cell_at h (at e) \<and>
    Generation tb' = inc32 (Generation tb) \<and> regrown tb tb'"
proof -
  have r: "key_order (Compare tb)" "sorted_wrt (before (Compare tb)) (xs @ e # ys)" "distinct (map at (xs @ e # ys))"
    using ok en by (auto simp: table_ok_def rooted_def)
  have "Compare tb (ekey e) (ekey e) = 0" using key_order_sym(1)[OF r(1), of "ekey e" "ekey e"] by linarith
  then have "toward (Compare tb) (ekey e) (ehash e) e = 0" by (simp add: toward_zero)
  then have f: "find_key (Compare tb) (ekey e) (ehash e) (entries t) = Some e" using find_key_middle(1)[OF r(1,2)] en by simp
  from avl_delete_present[OF ok f] obtain h' t' xs' ys' where
    u: "avl_delete h tb (ekey e) (ehash e) = Some (slot e, h',
      tb\<lparr>Root := addr t', Count := Count tb - 1, Generation := inc32 (Generation tb)\<rparr>)"
    "table_ok h' (tb\<lparr>Root := addr t', Count := Count tb - 1, Generation := inc32 (Generation tb)\<rparr>) t'"
    "entries t = xs' @ e # ys'" "entries t' = xs' @ ys'" "TFresh h' = TFresh h"
    "\<forall>p. p \<notin> at ` set (entries t) - {at e} \<longrightarrow> Cells h' p = Cells h p" by blast
  have "xs' @ e # ys' = xs @ e # ys" using u(3) en by simp
  moreover have "e \<notin> set xs" "e \<notin> set ys" using r(3) by auto
  ultimately have "xs' = xs \<and> ys' = ys" by (metis append_Cons_eq_iff)
  moreover have "cell_at h' (at e) = cell_at h (at e)" using u(6) by (simp add: cell_at_def)
  ultimately show ?thesis using u by (auto simp: regrown_def)
qed

lemma inc32_other: "inc32 n \<noteq> n"
proof
  assume "inc32 n = n"
  then have e: "(n + 1) mod 4294967296 = n" by (simp add: inc32_def u32_def)
  then have "n < 4294967296" using mod_less_divisor[of 4294967296 "n + 1"] by linarith
  with e show False by (cases "n + 1 = 4294967296") simp_all
qed

text \<open>The step of the loop after the entry it stands on has been deleted.\<close>

lemma next_after_delete:
  assumes ok: "table_ok h tb t" and v: "visits tb t tr xs e ys"
    and ok': "table_ok h' tb' t'" "entries t' = xs @ ys" "cell_at h' (at e) = cell_at h (at e)"
      "Generation tb' = inc32 (Generation tb)" "Compare tb' = Compare tb"
  shows "xs = [] \<Longrightarrow> ys \<noteq> [] \<Longrightarrow> avl_t_next h' tb' tr = None"
    and "ys = [] \<Longrightarrow> \<exists>tr'. avl_t_next h' tb' tr = Some tr' \<and> TNode tr' = 0"
    and "xs \<noteq> [] \<Longrightarrow> ys = e' # zs \<Longrightarrow> \<exists>tr'. avl_t_next h' tb' tr = Some tr' \<and> visits tb' t' tr' xs e' zs"
proof -
  have en: "entries t = xs @ e # ys" using visits_entries[OF v] .
  have r: "key_order (Compare tb)" "sorted_wrt (before (Compare tb)) (xs @ e # ys)" using ok en by (auto simp: table_ok_def)
  let ?f = "toward (Compare tb') (ekey e) (ehash e)"
  have "Compare tb (ekey e) (ekey e) = 0" using key_order_sym(1)[OF r(1), of "ekey e" "ekey e"] by linarith
  then have e0: "toward (Compare tb) (ekey e) (ehash e) e = 0" by (simp add: toward_zero)
  have b: "\<forall>x \<in> set xs. before (Compare tb) x e" "\<forall>y \<in> set ys. before (Compare tb) e y"
    using r(2) by (auto simp: sorted_wrt_append)
  have s: "\<forall>x \<in> set xs. 0 < ?f x" "\<forall>y \<in> set ys. ?f y < 0"
    unfolding ok'(5)
    using toward_before(1)[OF r(1) bspec[OF b(1)], of _ "ekey e" "ehash e"]
      toward_before(2)[OF r(1) bspec[OF b(2)], of _ "ekey e" "ehash e"] e0 by (simp_all only: order_refl) blast+
  have s1: "\<forall>x \<in> set xs. 0 \<le> ?f x" using s(1) by (blast intro: less_imp_le)
  have tie: "\<forall>x \<in> set (entries t'). ?f x = 0 \<longrightarrow> at x = at e" unfolding ok'(2) using s by fastforce
  obtain n where n: "cell_at h (at e) = Some n" "Key n = ekey e" "Hash n = ehash e"
    using table_entry_cell[OF ok, of e] en by auto
  have g: "TGen tr \<noteq> Generation tb'" "TNode tr = at e" using visits_node[OF v] ok'(4) inc32_other[of "Generation tb"] by auto
  note c = avl_t_next_changed[OF ok'(1) g(1) n(1)[folded ok'(3)] n(2,3) g(2) tie ok'(2) s1 s(2)]
  show "xs = [] \<Longrightarrow> ys \<noteq> [] \<Longrightarrow> avl_t_next h' tb' tr = None" by (rule c(1))
  show "ys = [] \<Longrightarrow> \<exists>tr'. avl_t_next h' tb' tr = Some tr' \<and> TNode tr' = 0" by (rule c(2)) simp_all
  show "xs \<noteq> [] \<Longrightarrow> ys = e' # zs \<Longrightarrow> \<exists>tr'. avl_t_next h' tb' tr = Some tr' \<and> visits tb' t' tr' xs e' zs" by (rule c(3))
qed

section \<open>remove and remove_if\<close>

text \<open>A loop whose body changes nothing on the entries before \<open>e\<close> comes to \<open>e\<close>.\<close>

lemma each_from_until:
  assumes r: "rooted h tb t" "height t \<le> 32"
  shows "visits tb t tr xs x zs \<Longrightarrow> x # zs = ws @ e # ys \<Longrightarrow> (\<And>w. w \<in> set ws \<Longrightarrow> body h tb s (at w) = Some (Inl s, h, tb)) \<Longrightarrow>
    body h tb s (at e) = Some (Inr y, h', tb') \<Longrightarrow> each_from body h tb s tr = Some (Inr y, h', tb')"
proof (induction ws arbitrary: tr xs x zs)
  case Nil
  then have "TNode tr = at e" "at e \<noteq> 0"
    using visits_node[OF Nil.prems(1)] visits_entries[OF Nil.prems(1)] entry_nonnull[OF r(1), of e] by simp_all
  then show ?case using Nil.prems(4) by (subst each_from.simps) simp
next
  case (Cons w ws)
  have b: "TNode tr = at w" "at w \<noteq> 0" "body h tb s (at w) = Some (Inl s, h, tb)"
    using Cons.prems(2,3) visits_node[OF Cons.prems(1)] visits_entries[OF Cons.prems(1)] entry_nonnull[OF r(1), of w] by simp_all
  from r Cons.prems(1) show ?case
  proof (cases rule: next_cases)
    case (2 tr' e' vs)
    then have "each_from body h tb s tr' = Some (Inr y, h', tb')" using Cons.prems(2-4) Cons.IH[of tr' "xs @ [x]" e' vs] by simp
    then show ?thesis using b 2(1) by (subst each_from.simps) simp
  qed (use Cons.prems(2) in simp)
qed

lemma each_until:
  assumes ok: "table_ok h tb t" and en: "entries t = ws @ e # ys"
    and "\<And>w. w \<in> set ws \<Longrightarrow> body h tb s (at w) = Some (Inl s, h, tb)" and "body h tb s (at e) = Some (Inr y, h', tb')"
  shows "each body h tb s = Some (Inr y, h', tb')"
proof -
  have r: "rooted h tb t" "height t \<le> 32" "height t \<le> 33" using ok table_ok_height[OF ok] by (simp_all add: table_ok_def)
  obtain x zs where x: "entries t = x # zs" using en by (metis append_is_Nil_conv list.distinct(1) neq_Nil_conv)
  from avl_t_first_spec(2)[OF r(1,3) x] obtain tr where "avl_t_first h tb = Some tr" "visits tb t tr [] x zs" by blast
  then show ?thesis using each_from_until[OF r(1,2), of tr "[]" x zs ws e ys body s, OF _ _ assms(3,4)] x en by (simp add: each_def)
qed

text \<open>The first entry with a property, if there is one.\<close>

lemma first_hit:
  obtains ws e ys where "es = ws @ e # ys" "\<forall>w \<in> set ws. \<not> P w" "P e" | "\<forall>w \<in> set es. \<not> P w"
  using split_list_first_prop[of es P] by blast

lemma remove_table_spec:
  assumes ok: "table_ok h tb t" and lk: "TLock tb = 0" and null: "\<forall>e \<in> set (entries t). slot e \<noteq> None"
  shows "entries t = ws @ e # ys \<Longrightarrow> \<forall>w \<in> set ws. returned (eq v (the (slot w))) = None \<Longrightarrow> returned (eq v (the (slot e))) \<noteq> None \<Longrightarrow>
      \<exists>h' tb' t'. remove_table eq h tb v = Some (SUCCESS (slot e), h', tb') \<and> table_ok h' tb' t' \<and> entries t' = ws @ ys \<and>
        TFresh h' = TFresh h \<and> regrown tb tb'"
    and "\<forall>w \<in> set (entries t). returned (eq v (the (slot w))) = None \<Longrightarrow> remove_table eq h tb v = Some (FAILURE, h, tb)"
proof -
  let ?l = "tb\<lparr>TLock := - 1\<rparr>"
  have okl: "table_ok h ?l t" using ok by simp
  have body: "remove_body eq v h ?l s (at w) = Some (Inl s, h, ?l)"
    if "w \<in> set (entries t)" "returned (eq v (the (slot w))) = None" for w s
    using table_entry_cell[OF okl that(1)] null that by (auto simp: remove_body_def)
  {
    assume en: "entries t = ws @ e # ys" and ws: "\<forall>w \<in> set ws. returned (eq v (the (slot w))) = None"
      and e: "returned (eq v (the (slot e))) \<noteq> None"
    obtain n where n: "cell_at h (at e) = Some n" "Key n = ekey e" "Slot n = slot e" "Hash n = ehash e"
      using table_entry_cell[OF okl, of e] en by auto
    obtain w where w: "slot e = Some w" using null en by auto
    from delete_node[OF okl en] obtain h' tb' t' where
      d: "avl_delete h ?l (ekey e) (ehash e) = Some (slot e, h', tb')" "table_ok h' tb' t'" "entries t' = ws @ ys"
      "TFresh h' = TFresh h" "cell_at h' (at e) = cell_at h (at e)" "regrown ?l tb'" by blast
    have "each (remove_body eq v) h ?l () = Some (Inr (at e), h', tb')"
      by (rule each_until[OF okl en]) (use body ws en n w d(1) e in \<open>simp_all add: remove_body_def\<close>)
    then show "\<exists>h' tb' t'. remove_table eq h tb v = Some (SUCCESS (slot e), h', tb') \<and> table_ok h' tb' t' \<and> entries t' = ws @ ys \<and>
        TFresh h' = TFresh h \<and> regrown tb tb'"
      using lk d n by (intro exI[of _ h'] exI[of _ "tb'\<lparr>TLock := 0\<rparr>"] exI[of _ t']) (simp add: remove_table_def regrown_def)
  }
  assume "\<forall>w \<in> set (entries t). returned (eq v (the (slot w))) = None"
  then have "each (remove_body eq v) h ?l () = Some (fold_steps (\<lambda>_ _. Inl ()) () (entries t), h, ?l)"
    using body by (intro each_pure[OF okl]) auto
  moreover have "fold_steps (\<lambda>_ _. Inl ()) () es = (Inl () :: unit + ptr)" for es :: "('a, 'b) entry list" by (induction es) auto
  ultimately show "remove_table eq h tb v = Some (FAILURE, h, tb)" using lk same_lock[OF lk] by (simp add: remove_table_def)
qed

lemma remove_if_table_spec:
  assumes ok: "table_ok h tb t" and lk: "TLock tb = 0" and null: "\<forall>e \<in> set (entries t). slot e \<noteq> None"
  shows "entries t = ws @ e # ys \<Longrightarrow> \<forall>w \<in> set ws. returned (f (ekey w) (the (slot w))) = None \<Longrightarrow>
      returned (f (ekey e) (the (slot e))) \<noteq> None \<Longrightarrow>
      \<exists>h' tb' t'. remove_if_table h tb f = Some (SUCCESS (slot e), h', tb') \<and> table_ok h' tb' t' \<and> entries t' = ws @ ys \<and>
        TFresh h' = TFresh h \<and> regrown tb tb'"
    and "\<forall>w \<in> set (entries t). returned (f (ekey w) (the (slot w))) = None \<Longrightarrow> remove_if_table h tb f = Some (FAILURE, h, tb)"
proof -
  let ?l = "tb\<lparr>TLock := - 1\<rparr>"
  have okl: "table_ok h ?l t" using ok by simp
  have body: "remove_if_body f h ?l s (at w) = Some (Inl s, h, ?l)"
    if "w \<in> set (entries t)" "returned (f (ekey w) (the (slot w))) = None" for w s
    using table_entry_cell[OF okl that(1)] null that by (auto simp: remove_if_body_def call_node_def)
  {
    assume en: "entries t = ws @ e # ys" and ws: "\<forall>w \<in> set ws. returned (f (ekey w) (the (slot w))) = None"
      and e: "returned (f (ekey e) (the (slot e))) \<noteq> None"
    obtain n where n: "cell_at h (at e) = Some n" "Key n = ekey e" "Slot n = slot e" "Hash n = ehash e"
      using table_entry_cell[OF okl, of e] en by auto
    obtain w where w: "slot e = Some w" using null en by auto
    from delete_node[OF okl en] obtain h' tb' t' where
      d: "avl_delete h ?l (ekey e) (ehash e) = Some (slot e, h', tb')" "table_ok h' tb' t'" "entries t' = ws @ ys"
      "TFresh h' = TFresh h" "regrown ?l tb'" by blast
    have "each (remove_if_body f) h ?l () = Some (Inr (slot e), h', tb')"
      by (rule each_until[OF okl en]) (use body ws en n w d(1) e in \<open>simp_all add: remove_if_body_def call_node_def\<close>)
    then show "\<exists>h' tb' t'. remove_if_table h tb f = Some (SUCCESS (slot e), h', tb') \<and> table_ok h' tb' t' \<and> entries t' = ws @ ys \<and>
        TFresh h' = TFresh h \<and> regrown tb tb'"
      using lk d by (intro exI[of _ h'] exI[of _ "tb'\<lparr>TLock := 0\<rparr>"] exI[of _ t']) (simp add: remove_if_table_def regrown_def)
  }
  assume "\<forall>w \<in> set (entries t). returned (f (ekey w) (the (slot w))) = None"
  then have "each (remove_if_body f) h ?l () = Some (fold_steps (\<lambda>_ _. Inl ()) () (entries t), h, ?l)"
    using body by (intro each_pure[OF okl]) auto
  moreover have "fold_steps (\<lambda>_ _. Inl ()) () es = (Inl () :: unit + 'b option)" for es :: "('a, 'b) entry list" by (induction es) auto
  ultimately show "remove_if_table h tb f = Some (FAILURE, h, tb)" using lk same_lock[OF lk] by (simp add: remove_if_table_def)
qed

section \<open>remove_all\<close>

text \<open>The entries that stay, the number of the others, and the message that ended the loop.\<close>

fun removal :: "('k \<Rightarrow> 'v \<Rightarrow> ('r, 'm, unit) reply) \<Rightarrow> ('k, 'v) entry list \<Rightarrow> ('k, 'v) entry list \<times> nat \<times> 'm option" where
  "removal f [] = ([], 0, None)"
| "removal f (e # es) =
     (case f (ekey e) (the (slot e)) of
        MESSAGE m \<Rightarrow> (e # es, 0, Some m)
      | FAILURE \<Rightarrow> (let (ks, n, m) = removal f es in (e # ks, n, m))
      | _ \<Rightarrow> (let (ks, n, m) = removal f es in (ks, Suc n, m)))"

definition removed_loop :: "nat \<Rightarrow> nat \<times> 'm option \<Rightarrow> nat + 'm" where
  "removed_loop n r = (case snd r of None \<Rightarrow> Inl (n + fst r) | Some m \<Rightarrow> Inr m)"

lemma removed_loop_Suc: "removed_loop n (case r of (k, m) \<Rightarrow> (Suc k, m)) = removed_loop (Suc n) r"
  by (simp add: removed_loop_def split: prod.split option.split)

lemma remove_all_step:
  assumes ok: "table_ok h tb t" and en: "entries t = xs @ e # ys" and null: "slot e \<noteq> None" and n: "n < max_entries"
  shows "f (ekey e) (the (slot e)) = MESSAGE m \<Longrightarrow> remove_all_body f h tb n (at e) = Some (Inr m, h, tb)"
    and "f (ekey e) (the (slot e)) = FAILURE \<Longrightarrow> remove_all_body f h tb n (at e) = Some (Inl n, h, tb)"
    and "returned (f (ekey e) (the (slot e))) \<noteq> None \<Longrightarrow> \<exists>h' tb' t'. remove_all_body f h tb n (at e) = Some (Inl (Suc n), h', tb') \<and>
      table_ok h' tb' t' \<and> entries t' = xs @ ys \<and> TFresh h' = TFresh h \<and> cell_at h' (at e) = cell_at h (at e) \<and>
      Generation tb' = inc32 (Generation tb) \<and> regrown tb tb'"
proof -
  obtain c where c: "cell_at h (at e) = Some c" "Key c = ekey e" "Slot c = slot e" "Hash c = ehash e"
    using table_entry_cell[OF ok, of e] en by auto
  obtain w where w: "slot e = Some w" using null by auto
  show "f (ekey e) (the (slot e)) = MESSAGE m \<Longrightarrow> remove_all_body f h tb n (at e) = Some (Inr m, h, tb)"
    "f (ekey e) (the (slot e)) = FAILURE \<Longrightarrow> remove_all_body f h tb n (at e) = Some (Inl n, h, tb)"
    using c w by (simp_all add: remove_all_body_def call_node_def)
  assume r: "returned (f (ekey e) (the (slot e))) \<noteq> None"
  from delete_node[OF ok en] obtain h' tb' t' where
    d: "avl_delete h tb (ekey e) (ehash e) = Some (slot e, h', tb')" "table_ok h' tb' t'" "entries t' = xs @ ys" "TFresh h' = TFresh h"
    "cell_at h' (at e) = cell_at h (at e)" "Generation tb' = inc32 (Generation tb)" "regrown tb tb'" by blast
  have i: "inc32 n = Suc n" using n by (simp add: max_entries_def)
  have "remove_all_body f h tb n (at e) = Some (Inl (Suc n), h', tb')"
    using c w d(1) r i by (cases "f (ekey e) w") (simp_all add: remove_all_body_def call_node_def)
  then show "\<exists>h' tb' t'. remove_all_body f h tb n (at e) = Some (Inl (Suc n), h', tb') \<and>
      table_ok h' tb' t' \<and> entries t' = xs @ ys \<and> TFresh h' = TFresh h \<and> cell_at h' (at e) = cell_at h (at e) \<and>
      Generation tb' = inc32 (Generation tb) \<and> regrown tb tb'" using d by blast
qed

lemma remove_all_advance:
  assumes ok: "table_ok h tb t" and v: "visits tb t tr xs e ys" and null: "slot e \<noteq> None" and n: "n < max_entries"
    and stay: "xs \<noteq> [] \<or> ys = [] \<or> f (ekey e) (the (slot e)) = FAILURE" and nm: "\<And>m. f (ekey e) (the (slot e)) \<noteq> MESSAGE m"
  shows "\<exists>h1 tb1 t1 tr1 n1 xs1. remove_all_body f h tb n (at e) = Some (Inl n1, h1, tb1) \<and> avl_t_next h1 tb1 tr = Some tr1 \<and>
    table_ok h1 tb1 t1 \<and> entries t1 = xs1 @ ys \<and> TFresh h1 = TFresh h \<and> regrown tb tb1 \<and>
    (ys = [] \<longrightarrow> TNode tr1 = 0) \<and> (\<forall>e' zs. ys = e' # zs \<longrightarrow> visits tb1 t1 tr1 xs1 e' zs \<and> xs1 \<noteq> []) \<and>
    (if f (ekey e) (the (slot e)) = FAILURE then xs1 = xs @ [e] \<and> n1 = n else xs1 = xs \<and> n1 = Suc n)"
proof (cases "f (ekey e) (the (slot e)) = FAILURE")
  case True
  have r: "rooted h tb t" "height t \<le> 32" using ok table_ok_height[OF ok] by (auto simp: table_ok_def)
  note b = remove_all_step(2)[where f = f, OF ok visits_entries[OF v] null n True]
  have e: "entries t = (xs @ [e]) @ ys" using visits_entries[OF v] by simp
  from r v obtain tr1 where nx: "avl_t_next h tb tr = Some tr1"
    "ys = [] \<longrightarrow> TNode tr1 = 0" "\<forall>e' zs. ys = e' # zs \<longrightarrow> visits tb t tr1 (xs @ [e]) e' zs"
    by (cases rule: next_cases) auto
  then show ?thesis using True b ok e regrown_refl
    by - (rule exI[of _ h], rule exI[of _ tb], rule exI[of _ t], rule exI[of _ tr1], rule exI[of _ n], rule exI[of _ "xs @ [e]"], simp)
next
  case False
  then have r: "returned (f (ekey e) (the (slot e))) \<noteq> None" using nm by (cases "f (ekey e) (the (slot e))") auto
  from remove_all_step(3)[where f = f, OF ok visits_entries[OF v] null n r] obtain h1 tb1 t1 where
    b: "remove_all_body f h tb n (at e) = Some (Inl (Suc n), h1, tb1)" "table_ok h1 tb1 t1" "entries t1 = xs @ ys"
    "TFresh h1 = TFresh h" "cell_at h1 (at e) = cell_at h (at e)" "Generation tb1 = inc32 (Generation tb)" "regrown tb tb1" by blast
  have cmp: "Compare tb1 = Compare tb" using b(7) by (simp add: regrown_def)
  note nx = next_after_delete[OF ok v b(2,3,5,6) cmp]
  have "\<exists>tr1. avl_t_next h1 tb1 tr = Some tr1 \<and> (ys = [] \<longrightarrow> TNode tr1 = 0) \<and>
      (\<forall>e' zs. ys = e' # zs \<longrightarrow> visits tb1 t1 tr1 xs e' zs \<and> xs \<noteq> [])"
  proof (cases ys)
    case (Cons e' zs)
    then have "xs \<noteq> []" using stay False by simp
    from nx(3)[OF this Cons] show ?thesis using Cons \<open>xs \<noteq> []\<close> by auto
  qed (use nx(2) in auto)
  then show ?thesis using False b by auto
qed

lemma removal_append_simps:
  "f (ekey e) (the (slot e)) = FAILURE \<Longrightarrow> removal f (e # es) = (e # fst (removal f es), snd (removal f es))"
  "returned (f (ekey e) (the (slot e))) \<noteq> None \<Longrightarrow>
    removal f (e # es) = (fst (removal f es), (case snd (removal f es) of (k, m) \<Rightarrow> (Suc k, m)))"
  by (cases "f (ekey e) (the (slot e))"; simp split: prod.split)+

lemma remove_all_from:
  "table_ok h tb t \<Longrightarrow> visits tb t tr xs e ys \<Longrightarrow>
   xs \<noteq> [] \<or> ys = [] \<or> returned (f (ekey e) (the (slot e))) = None \<Longrightarrow>
   \<forall>x \<in> set (e # ys). slot x \<noteq> None \<Longrightarrow> n + length (e # ys) \<le> max_entries \<Longrightarrow>
   \<exists>h' tb' t'. each_from (remove_all_body f) h tb n tr = Some (removed_loop n (snd (removal f (e # ys))), h', tb') \<and>
     table_ok h' tb' t' \<and> entries t' = xs @ fst (removal f (e # ys)) \<and> TFresh h' = TFresh h \<and> regrown tb tb'"
proof (induction ys arbitrary: h tb t tr xs e n)
  case (Nil h tb t tr xs e n)
  note p = Nil.prems
  have en: "entries t = xs @ [e]" and nd: "TNode tr = at e" "at e \<noteq> 0"
    using visits_entries[OF p(2)] visits_node[OF p(2)] entry_nonnull[of h tb t e] p(1) by (simp_all add: table_ok_def)
  have nn: "slot e \<noteq> None" "n < max_entries" using p(4,5) by simp_all
  show ?case
  proof (cases "\<exists>m. f (ekey e) (the (slot e)) = MESSAGE m")
    case True
    then obtain m where m: "f (ekey e) (the (slot e)) = MESSAGE m" by blast
    then show ?thesis using remove_all_step(1)[where f = f, OF p(1) en nn m] nd p(1) en regrown_refl
      by (subst each_from.simps) (auto simp: removed_loop_def)
  next
    case False
    from remove_all_advance[where f = f, OF p(1,2) nn] False obtain h1 tb1 t1 tr1 n1 xs1 where
      s: "remove_all_body f h tb n (at e) = Some (Inl n1, h1, tb1)" "avl_t_next h1 tb1 tr = Some tr1" "table_ok h1 tb1 t1"
      "entries t1 = xs1 @ []" "TFresh h1 = TFresh h" "regrown tb tb1" "TNode tr1 = 0"
      "if f (ekey e) (the (slot e)) = FAILURE then xs1 = xs @ [e] \<and> n1 = n else xs1 = xs \<and> n1 = Suc n" by auto
    have "each_from (remove_all_body f) h tb n tr = Some (Inl n1, h1, tb1)"
      using s nd by (subst each_from.simps) (simp, subst each_from.simps, simp)
    then show ?thesis using s(3-8) False
      by (cases "f (ekey e) (the (slot e))") (auto simp: removed_loop_def)
  qed
next
  case (Cons e2 ys h tb t tr xs e n)
  note p = Cons.prems
  have en: "entries t = xs @ e # e2 # ys" and nd: "TNode tr = at e" "at e \<noteq> 0"
    using visits_entries[OF p(2)] visits_node[OF p(2)] entry_nonnull[of h tb t e] p(1) by (simp_all add: table_ok_def)
  have nn: "slot e \<noteq> None" "n < max_entries" using p(4,5) by simp_all
  show ?case
  proof (cases "\<exists>m. f (ekey e) (the (slot e)) = MESSAGE m")
    case True
    then obtain m where m: "f (ekey e) (the (slot e)) = MESSAGE m" by blast
    then show ?thesis using remove_all_step(1)[where f = f, OF p(1) en nn m] nd p(1) en regrown_refl
      by (subst each_from.simps) (auto simp: removed_loop_def)
  next
    case False
    have stay: "xs \<noteq> [] \<or> e2 # ys = [] \<or> f (ekey e) (the (slot e)) = FAILURE"
      using p(3) False by (cases "f (ekey e) (the (slot e))") auto
    from remove_all_advance[where f = f, OF p(1,2) nn stay] False obtain h1 tb1 t1 tr1 n1 xs1 where
      s: "remove_all_body f h tb n (at e) = Some (Inl n1, h1, tb1)" "avl_t_next h1 tb1 tr = Some tr1" "table_ok h1 tb1 t1"
      "TFresh h1 = TFresh h" "regrown tb tb1" "visits tb1 t1 tr1 xs1 e2 ys" "xs1 \<noteq> []"
      "if f (ekey e) (the (slot e)) = FAILURE then xs1 = xs @ [e] \<and> n1 = n else xs1 = xs \<and> n1 = Suc n" by blast
    have "n1 + length (e2 # ys) \<le> max_entries" "\<forall>x \<in> set (e2 # ys). slot x \<noteq> None" using s(8) p(4,5) by (auto split: if_splits)
    with Cons.IH[OF s(3,6) disjI1[OF s(7)]] obtain h' tb' t' where
      u: "each_from (remove_all_body f) h1 tb1 n1 tr1 = Some (removed_loop n1 (snd (removal f (e2 # ys))), h', tb')"
      "table_ok h' tb' t'" "entries t' = xs1 @ fst (removal f (e2 # ys))" "TFresh h' = TFresh h1" "regrown tb1 tb'" by blast
    have g: "regrown tb tb'" using s(5) u(5) by (simp add: regrown_def)
    have "each_from (remove_all_body f) h tb n tr = Some (removed_loop n1 (snd (removal f (e2 # ys))), h', tb')"
      using s(1,2) nd u(1) by (subst each_from.simps) (simp del: removal.simps)
    moreover have "entries t' = xs @ fst (removal f (e # e2 # ys)) \<and>
        removed_loop n1 (snd (removal f (e2 # ys))) = removed_loop n (snd (removal f (e # e2 # ys)))"
    proof (cases "f (ekey e) (the (slot e)) = FAILURE")
      case True
      then show ?thesis using s(8) u(3) by (simp add: removal_append_simps(1) del: removal.simps)
    next
      case no: False
      then have "returned (f (ekey e) (the (slot e))) \<noteq> None" using False by (cases "f (ekey e) (the (slot e))") auto
      from removal_append_simps(2)[where f = f and e = e, OF this] show ?thesis using s(8) u(3) no by (simp add: removed_loop_Suc del: removal.simps)
    qed
    ultimately show ?thesis using u(2,4) s(4) g by auto
  qed
qed

lemma removal_count: "fst (snd (removal f es)) \<le> length es"
  by (induction es) (auto split: reply.split prod.split)

lemma remove_all_table_spec:
  assumes ok: "table_ok h tb t" and lk: "TLock tb = 0" and null: "\<forall>e \<in> set (entries t). slot e \<noteq> None"
  shows "(\<forall>e e2 ys. entries t = e # e2 # ys \<longrightarrow> returned (f (ekey e) (the (slot e))) = None) \<Longrightarrow>
      \<exists>h' tb' t'. remove_all_table h tb f = Some (case snd (removal f (entries t)) of
          (n, None) \<Rightarrow> SUCCESS (int n) | (n, Some m) \<Rightarrow> MESSAGE m, h', tb') \<and>
        table_ok h' tb' t' \<and> entries t' = fst (removal f (entries t)) \<and> TFresh h' = TFresh h \<and> regrown tb tb'"
    and "entries t = e # e2 # ys \<Longrightarrow> returned (f (ekey e) (the (slot e))) \<noteq> None \<Longrightarrow> remove_all_table h tb f = None"
proof -
  let ?l = "tb\<lparr>TLock := - 1\<rparr>"
  have okl: "table_ok h ?l t" using ok by simp
  have r: "rooted h ?l t" "height t \<le> 33" "length (entries t) \<le> max_entries"
    using okl table_ok_height[OF okl] by (auto simp: table_ok_def rooted_def)
  {
    assume first: "\<forall>e e2 ys. entries t = e # e2 # ys \<longrightarrow> returned (f (ekey e) (the (slot e))) = None"
    obtain h' tb' t' where u: "each (remove_all_body f) h ?l 0 = Some (removed_loop 0 (snd (removal f (entries t))), h', tb')"
      "table_ok h' tb' t'" "entries t' = fst (removal f (entries t))" "TFresh h' = TFresh h" "regrown ?l tb'"
    proof (cases "entries t")
      case Nil
      then show ?thesis using that[of h ?l t] avl_t_first_spec(1)[OF r(1,2)] okl regrown_refl[of ?l]
        by (simp add: each_def each_from.simps removed_loop_def)
    next
      case (Cons e ys)
      from avl_t_first_spec(2)[OF r(1,2) Cons] obtain tr where tr: "avl_t_first h ?l = Some tr" "visits ?l t tr [] e ys" by blast
      have "[] \<noteq> [] \<or> ys = [] \<or> returned (f (ekey e) (the (slot e))) = None" using first Cons by (cases ys) auto
      from remove_all_from[where f = f and n = 0, OF okl tr(2) this] Cons null r(3) show ?thesis using that tr(1) by (auto simp: each_def)
    qed
    have "fst (snd (removal f (entries t))) \<le> max_entries" using removal_count[of f "entries t"] r(3) by simp
    then have "s32 (int (fst (snd (removal f (entries t))))) = int (fst (snd (removal f (entries t))))"
      by (simp add: max_entries_def)
    then show "\<exists>h' tb' t'. remove_all_table h tb f = Some (case snd (removal f (entries t)) of
          (n, None) \<Rightarrow> SUCCESS (int n) | (n, Some m) \<Rightarrow> MESSAGE m, h', tb') \<and>
        table_ok h' tb' t' \<and> entries t' = fst (removal f (entries t)) \<and> TFresh h' = TFresh h \<and> regrown tb tb'"
      using lk u by (intro exI[of _ h'] exI[of _ "tb'\<lparr>TLock := 0\<rparr>"] exI[of _ t'])
        (auto simp: remove_all_table_def regrown_def removed_loop_def split: prod.split option.split)
  }
  assume en: "entries t = e # e2 # ys" and hit: "returned (f (ekey e) (the (slot e))) \<noteq> None"
  from avl_t_first_spec(2)[OF r(1,2) en] obtain tr where tr: "avl_t_first h ?l = Some tr" "visits ?l t tr [] e (e2 # ys)" by blast
  have nn: "slot e \<noteq> None" "0 < max_entries" using null en by (simp_all add: max_entries_def)
  from remove_all_step(3)[where f = f, OF okl visits_entries[OF tr(2)] nn hit] obtain h1 tb1 t1 where
    b: "remove_all_body f h ?l 0 (at e) = Some (Inl (Suc 0), h1, tb1)" "table_ok h1 tb1 t1" "entries t1 = [] @ e2 # ys"
    "cell_at h1 (at e) = cell_at h (at e)" "Generation tb1 = inc32 (Generation ?l)" "regrown ?l tb1" by blast
  have cmp: "Compare tb1 = Compare ?l" using b(6) by (simp add: regrown_def)
  have "avl_t_next h1 tb1 tr = None" by (rule next_after_delete(1)[OF okl tr(2) b(2-5) cmp]) simp_all
  moreover have "TNode tr = at e" "at e \<noteq> 0" using visits_node[OF tr(2)] entry_nonnull[OF r(1), of e] en by simp_all
  ultimately have "each (remove_all_body f) h ?l 0 = None" using b(1) tr(1) by (simp add: each_def each_from.simps)
  then show "remove_all_table h tb f = None" using lk by (simp add: remove_all_table_def)
qed

section \<open>The properties\<close>

text \<open>
  C24: \<^verbatim>\<open>remove\<close> and \<^verbatim>\<open>remove_if\<close> delete exactly the first entry, in the order of the table, that matches, return
  its value and fail when there is none, the table then being untouched.
\<close>

theorem table_remove_correct:
  assumes "table_ok h tb t" and "TLock tb = 0" and "\<forall>e \<in> set (entries t). slot e \<noteq> None"
  shows "(\<forall>ws e ys. entries t = ws @ e # ys \<and> (\<forall>w \<in> set ws. returned (eq v (the (slot w))) = None) \<and>
        returned (eq v (the (slot e))) \<noteq> None \<longrightarrow>
      (\<exists>h' tb' t'. remove_table eq h tb v = Some (SUCCESS (slot e), h', tb') \<and> table_ok h' tb' t' \<and> entries t' = ws @ ys \<and>
        regrown tb tb')) \<and>
    ((\<forall>w \<in> set (entries t). returned (eq v (the (slot w))) = None) \<longrightarrow> remove_table eq h tb v = Some (FAILURE, h, tb)) \<and>
    (\<forall>ws e ys. entries t = ws @ e # ys \<and> (\<forall>w \<in> set ws. returned (f (ekey w) (the (slot w))) = None) \<and>
        returned (f (ekey e) (the (slot e))) \<noteq> None \<longrightarrow>
      (\<exists>h' tb' t'. remove_if_table h tb f = Some (SUCCESS (slot e), h', tb') \<and> table_ok h' tb' t' \<and> entries t' = ws @ ys \<and>
        regrown tb tb')) \<and>
    ((\<forall>w \<in> set (entries t). returned (f (ekey w) (the (slot w))) = None) \<longrightarrow> remove_if_table h tb f = Some (FAILURE, h, tb))"
proof (intro conjI allI impI)
  note r = remove_table_spec[where eq = eq and v = v, OF assms] and i = remove_if_table_spec[where f = f, OF assms]
  show "\<forall>w \<in> set (entries t). returned (eq v (the (slot w))) = None \<Longrightarrow> remove_table eq h tb v = Some (FAILURE, h, tb)" by (rule r(2))
  show "\<forall>w \<in> set (entries t). returned (f (ekey w) (the (slot w))) = None \<Longrightarrow> remove_if_table h tb f = Some (FAILURE, h, tb)"
    by (rule i(2))
qed (elim conjE, use remove_table_spec(1)[where eq = eq and v = v, OF assms] remove_if_table_spec(1)[where f = f, OF assms] in blast)+

lemma table_remove_correct_witness:
  "\<exists>h' tb' t'. remove_table (\<lambda>v w. if v = w then SUCCESS w else FAILURE :: (int, int, unit) reply) sample_mem sample_table 20 =
     Some (SUCCESS (Some 20), h', tb') \<and> table_ok h' tb' t' \<and> entries t' = [Entry 2 1 (Some 10) 1, Entry 3 3 (Some 30) 3]"
proof -
  have n: "\<forall>e \<in> set (entries sample_tree). slot e \<noteq> None" by (simp add: sample_table_simps)
  have en: "entries sample_tree = [Entry 2 1 (Some 10) 1] @ Entry 1 2 (Some 20) 2 # [Entry 3 3 (Some 30) 3]"
    by (simp add: sample_table_simps)
  from conjunct1[OF table_remove_correct[OF sample_table_ok(1) sample_table_simps(1) n,
    where eq = "\<lambda>v w. if v = w then SUCCESS w else FAILURE :: (int, int, unit) reply" and v = 20
      and f = "\<lambda>_ _. FAILURE :: (unit, unit, unit) reply"], rule_format, of "[Entry 2 1 (Some 10) 1]" "Entry 1 2 (Some 20) 2"
      "[Entry 3 3 (Some 30) 3]"] en
  show ?thesis by auto
qed

text \<open>
  C23: \<^verbatim>\<open>remove_all\<close> deletes every entry on which the function succeeds, returns their number and keeps the
  rest in order, or stops, with the lock released, at the first message; but only if the first entry stays or
  is the only one. When the first of several entries is deleted, the traverser finds no place behind it and
  reads before the beginning of its stack, so the behaviour is undefined.
\<close>

theorem table_remove_all_correct:
  assumes "table_ok h tb t" and "TLock tb = 0" and "\<forall>e \<in> set (entries t). slot e \<noteq> None"
  shows "((\<forall>e e2 ys. entries t = e # e2 # ys \<longrightarrow> returned (f (ekey e) (the (slot e))) = None) \<longrightarrow>
      (\<exists>h' tb' t'. remove_all_table h tb f = Some (case snd (removal f (entries t)) of
          (n, None) \<Rightarrow> SUCCESS (int n) | (n, Some m) \<Rightarrow> MESSAGE m, h', tb') \<and>
        table_ok h' tb' t' \<and> entries t' = fst (removal f (entries t)) \<and> regrown tb tb')) \<and>
    (\<forall>e e2 ys. entries t = e # e2 # ys \<and> returned (f (ekey e) (the (slot e))) \<noteq> None \<longrightarrow> remove_all_table h tb f = None)"
  using remove_all_table_spec(1)[where f = f, OF assms] remove_all_table_spec(2)[where f = f, OF assms] by blast

lemma table_remove_all_correct_witness:
  "(\<exists>h' tb' t'. remove_all_table sample_mem sample_table (\<lambda>k v. if k > 1 then SUCCESS k else FAILURE :: (int, int, unit) reply) =
     Some (SUCCESS 2, h', tb') \<and> table_ok h' tb' t' \<and> entries t' = [Entry 2 1 (Some 10) 1]) \<and>
   remove_all_table sample_mem sample_table (\<lambda>k v. SUCCESS k :: (int, int, unit) reply) = None"
proof -
  have n: "\<forall>e \<in> set (entries sample_tree). slot e \<noteq> None" by (simp add: sample_table_simps)
  from conjunct1[OF table_remove_all_correct[OF sample_table_ok(1) sample_table_simps(1) n,
    where f = "\<lambda>k v. if k > 1 then SUCCESS k else FAILURE :: (int, int, unit) reply"]]
    conjunct2[OF table_remove_all_correct[OF sample_table_ok(1) sample_table_simps(1) n,
    where f = "\<lambda>k v. SUCCESS k :: (int, int, unit) reply"]]
  show ?thesis by (auto simp: sample_table_simps)
qed

text \<open>
  C21: A traverser survives changes of the table. If the generation has changed and the node it stands on is
  still in memory with its key and hash, whether or not it is still in the table, the next step goes to
  the first entry with a greater key or to the end, provided that no other node of the table has an equal key (as when
  the entry has been deleted and its key inserted again). An insertion without a rotation leaves the generation as it was. The exception is a traverser all of whose smaller entries are
  gone with its own: when greater ones remain, the step is undefined.
\<close>

theorem table_traverser_survives:
  assumes ok: "table_ok h tb t" and gen: "TGen tr \<noteq> Generation tb"
    and n: "cell_at h (TNode tr) = Some m"
    and tie: "\<forall>e \<in> set (entries t). toward (Compare tb) (Key m) (Hash m) e = 0 \<longrightarrow> at e = TNode tr"
  shows "case (filter (\<lambda>e. 0 \<le> toward (Compare tb) (Key m) (Hash m) e) (entries t),
      filter (\<lambda>e. toward (Compare tb) (Key m) (Hash m) e < 0) (entries t)) of
    (xs, []) \<Rightarrow> \<exists>tr'. avl_t_next h tb tr = Some tr' \<and> TNode tr' = 0
  | ([], _) \<Rightarrow> avl_t_next h tb tr = None
  | (xs, e # zs) \<Rightarrow> \<exists>tr'. avl_t_next h tb tr = Some tr' \<and> TNode tr' = at e \<and> visits tb t tr' xs e zs"
proof -
  let ?f = "toward (Compare tb) (Key m) (Hash m)" and ?e = "Entry (TNode tr) (Key m) (Slot m) (Hash m)"
  let ?xs = "filter (\<lambda>e. 0 \<le> ?f e) (entries t)" and ?ys = "filter (\<lambda>e. ?f e < 0) (entries t)"
  have "key_order (Compare tb)" "sorted_wrt (before (Compare tb)) (entries t)" using ok by (simp_all add: table_ok_def)
  note es = entries_split[OF this, of "Key m" "Hash m"]
  have s: "\<forall>x \<in> set ?xs. 0 \<le> ?f x" "\<forall>y \<in> set ?ys. ?f y < 0" by simp_all
  have e: "at ?e = TNode tr" "ekey ?e = Key m" "ehash ?e = Hash m" by simp_all
  note c = avl_t_next_changed[of h tb t tr ?e m ?xs ?ys, unfolded e, OF ok gen n refl refl refl tie es s]
  show ?thesis
  proof (cases ?ys)
    case Nil
    then show ?thesis using c(2) by (simp split: list.split)
  next
    case y: (Cons e zs)
    show ?thesis
    proof (cases ?xs)
      case Nil
      then show ?thesis using c(1) y by simp
    next
      case (Cons x xs)
      with c(3)[OF _ y] obtain tr' where "avl_t_next h tb tr = Some tr'" "visits tb t tr' ?xs e zs" by auto
      then have "\<exists>tr'. avl_t_next h tb tr = Some tr' \<and> TNode tr' = at e \<and> visits tb t tr' ?xs e zs"
        using visits_node[of tb t tr' ?xs e zs] by blast
      then show ?thesis unfolding y by (simp add: Cons)
    qed
  qed
qed

lemma table_traverser_survives_witness:
  "\<exists>tr'. avl_t_next sample_mem (sample_table\<lparr>Generation := 1\<rparr>) \<lparr>TNode = 1, TStack = [], TGen = 0\<rparr> = Some tr' \<and> TNode tr' = 3"
proof -
  have ok: "table_ok sample_mem (sample_table\<lparr>Generation := 1\<rparr>) sample_tree"
    using sample_table_ok(1) by (simp add: table_ok_def rooted_def)
  have n: "cell_at sample_mem (TNode \<lparr>TNode = 1, TStack = [], TGen = 0\<rparr>) =
      Some \<lparr>Left = 2, Right = 3, Key = 2, Slot = Some 20, Hash = 2, Balance = 0\<rparr>"
    by (simp add: cell_at_def sample_mem_def)
  from table_traverser_survives[OF ok _ n] show ?thesis
    by (auto simp: sample_table_simps toward_def int_compare_def)
qed

end
