(* ===== verification/StringBlocks.thy ===== *)
theory StringBlocks
  imports Prelude "HOL-Library.Sublist"
begin

text \<open>
  Strings of Riva (\<^verbatim>\<open>dev/inc/gcc/Std/String.h\<close>): a string is a sequence of blocks of characters that
  ends with a block of length 0. This theory has the data, what a string denotes, and the reading of a
  string character by character that the methods of \<^verbatim>\<open>dev/src/lib/Std/Methods2.c\<close> share.
\<close>

section \<open>Blocks and strings\<close>

text \<open>
  A block has a length and a pointer to characters, \<^const>\<open>None\<close> for NULL. A pointer to characters is the
  list of all characters from there to the end of the memory it points into. A pointer to a block is the list of the
  blocks of the string's memory from there on; reading at or behind its end is undefined.
\<close>

type_synonym byte = "8 word"

record 'c block =
  BLen :: nat
  BChars :: "'c list option"

record 'c str =
  SLen :: nat
  SCount :: nat
  SBlocks :: "'c block list"

text \<open>A place in a string: the current block, the characters left in it, and the pointer to the next one.\<close>

type_synonym 'c cursor = "'c block list \<times> nat \<times> 'c list option"

definition open_block :: "'c block list \<Rightarrow> 'c cursor option" where
  "open_block bs = (case bs of [] \<Rightarrow> None | b # _ \<Rightarrow> Some (bs, BLen b, BChars b))"

definition next_block :: "'c block list \<Rightarrow> 'c cursor option" where
  "next_block bs = (case bs of [] \<Rightarrow> None | _ # r \<Rightarrow> open_block r)"

definition peek :: "'c list option \<Rightarrow> 'c option" where
  "peek cs = (case cs of Some (c # _) \<Rightarrow> Some c | _ \<Rightarrow> None)"

text \<open>\<^verbatim>\<open>SC++; if (--SL == 0) {S1 += 1; SL = S1->Length.Value; SC = S1->Chars.Value;}\<close>\<close>

definition advance_char :: "'c cursor \<Rightarrow> 'c cursor option" where
  "advance_char = (\<lambda>(bs, n, cs). let n = dec32 n in
     if n = 0 then next_block bs else Some (bs, n, map_option tl cs))"

section \<open>What a string denotes\<close>

fun text_of :: "'c block list \<Rightarrow> 'c list" where
  "text_of [] = []"
| "text_of (b # bs) = (if BLen b = 0 then [] else take (BLen b) (the (BChars b)) @ text_of bs)"

fun good_blocks :: "'c block list \<Rightarrow> bool" where
  "good_blocks [] = False"
| "good_blocks (b # bs) =
     (if BLen b = 0 then BChars b = None
      else (\<exists>c. BChars b = Some c \<and> BLen b \<le> length c) \<and> good_blocks bs)"

text \<open>The number of blocks before the one that ends the string.\<close>

fun used_blocks :: "'c block list \<Rightarrow> nat" where
  "used_blocks [] = 0"
| "used_blocks (b # bs) = (if BLen b = 0 then 0 else Suc (used_blocks bs))"

text \<open>
  A well-formed string. The block that ends an empty string may have characters: that is how
  \<^verbatim>\<open>Std$String$new("")\<close> makes it. Lengths are positive values of a \<^verbatim>\<open>long\<close>.
\<close>

definition wf_str :: "'c str \<Rightarrow> bool" where
  "wf_str s \<longleftrightarrow> SLen s = length (text_of (SBlocks s)) \<and> SLen s < 2 ^ 31 \<and> SCount s = used_blocks (SBlocks s) \<and>
     (good_blocks (SBlocks s) \<or> (\<exists>b bs. SBlocks s = b # bs \<and> BLen b = 0))"

definition chars_of :: "'c str \<Rightarrow> 'c list" where
  "chars_of s = text_of (SBlocks s)"

definition at_text :: "'c cursor \<Rightarrow> 'c list \<Rightarrow> bool" where
  "at_text = (\<lambda>(bs, n, cs) xs.
     if n = 0 then xs = []
     else (\<exists>b r c. bs = b # r \<and> cs = Some c \<and> n \<le> length c \<and> n \<le> BLen b \<and> good_blocks r \<and> xs = take n c @ text_of r))"

lemma good_text_nonempty: "good_blocks bs \<Longrightarrow> bs \<noteq> []"
  by (cases bs) auto

lemma open_good: "good_blocks bs \<Longrightarrow> \<exists>cur. open_block bs = Some cur \<and> at_text cur (text_of bs)"
  by (cases bs) (auto simp: open_block_def at_text_def)

lemma open_string:
  assumes "wf_str s"
  shows "\<exists>cur. open_block (SBlocks s) = Some cur \<and> at_text cur (chars_of s)"
proof (cases "good_blocks (SBlocks s)")
  case True
  then show ?thesis using open_good by (simp add: chars_of_def)
next
  case False
  then obtain b bs where "SBlocks s = b # bs" "BLen b = 0" using assms by (auto simp: wf_str_def)
  then show ?thesis by (simp add: chars_of_def open_block_def at_text_def)
qed

lemma at_text_end: "at_text (bs, n, cs) xs \<Longrightarrow> n = 0 \<longleftrightarrow> xs = []"
  by (auto simp: at_text_def split: if_splits)

lemma at_text_step:
  assumes "at_text (bs, n, cs) (x # xs)"
  shows "peek cs = Some x" and "\<exists>cur. advance_char (bs, n, cs) = Some cur \<and> at_text cur xs"
proof -
  from assms obtain b r c where c: "n \<noteq> 0" "bs = b # r" "cs = Some c" "n \<le> length c" "n \<le> BLen b" "good_blocks r" "x # xs = take n c @ text_of r"
    by (auto simp: at_text_def split: if_splits)
  then obtain k c' where k: "n = Suc k" "c = x # c'" "xs = take k c' @ text_of r" by (cases n; cases c) auto
  show "peek cs = Some x" using c k by (simp add: peek_def)
  show "\<exists>cur. advance_char (bs, n, cs) = Some cur \<and> at_text cur xs"
  proof (cases k)
    case 0
    then show ?thesis using c k open_good[OF c(6)] by (simp add: advance_char_def next_block_def)
  next
    case (Suc j)
    then show ?thesis using c k by (simp add: advance_char_def at_text_def)
  qed
qed

section \<open>Comparing from two places\<close>

text \<open>
  The inner loop of \<^verbatim>\<open>in\<close>, \<^verbatim>\<open>begins\<close>, \<^verbatim>\<open>ends\<close> and \<^verbatim>\<open>find\<close>: the pattern is used up, the subject is used up, or two
  characters differ.
\<close>

datatype comparison = Matched | Exhausted | Differs

partial_function (option) match_loop :: "'c cursor \<Rightarrow> 'c cursor \<Rightarrow> comparison option" where
  "match_loop s p =
     (if fst (snd p) = 0 then Some Matched
      else if fst (snd s) = 0 then Some Exhausted
      else do {
        c \<leftarrow> peek (snd (snd s));
        d \<leftarrow> peek (snd (snd p));
        if c \<noteq> d then Some Differs
        else do { s \<leftarrow> advance_char s; p \<leftarrow> advance_char p; match_loop s p } })"

declare match_loop.simps [code]

definition compared :: "'c list \<Rightarrow> 'c list \<Rightarrow> comparison" where
  "compared xs ps = (if prefix ps xs then Matched else if prefix xs ps then Exhausted else Differs)"

lemma compared_simps [simp]:
  "compared xs [] = Matched" "compared [] (p # ps) = Exhausted"
  "compared (x # xs) (p # ps) = (if x = p then compared xs ps else Differs)"
  by (auto simp: compared_def)

lemma match_loop_spec: "at_text s xs \<Longrightarrow> at_text p ps \<Longrightarrow> match_loop s p = Some (compared xs ps)"
proof (induction ps arbitrary: s p xs)
  case Nil
  then show ?case by (cases p) (auto simp: match_loop.simps dest: at_text_end)
next
  case (Cons y ps)
  obtain sb sn sc pb pn pc where sp: "s = (sb, sn, sc)" "p = (pb, pn, pc)" by (cases s, cases p)
  note ends = at_text_end[OF Cons.prems(1)[unfolded sp]] at_text_end[OF Cons.prems(2)[unfolded sp]]
  note q = at_text_step[OF Cons.prems(2)[unfolded sp]]
  show ?case
  proof (cases xs)
    case Nil
    then show ?thesis using ends by (simp add: sp match_loop.simps)
  next
    case (Cons x xs')
    note r = at_text_step[OF Cons.prems(1)[unfolded sp Cons]]
    from q(2) r(2) obtain s' p' where s': "advance_char (sb, sn, sc) = Some s'" "at_text s' xs'"
      and p': "advance_char (pb, pn, pc) = Some p'" "at_text p' ps" by blast
    show ?thesis using ends q(1) r(1) s'(1) p'(1) Cons.IH[OF s'(2) p'(2)] Cons
      by (subst match_loop.simps) (simp add: sp)
  qed
qed


section \<open>Building strings\<close>

text \<open>Blocks with characters, and the string of such blocks.\<close>

definition full_block :: "'c block \<Rightarrow> bool" where
  "full_block b \<longleftrightarrow> BLen b \<noteq> 0 \<and> (\<exists>c. BChars b = Some c \<and> BLen b \<le> length c)"

definition zero_block :: "'c block" where
  "zero_block = \<lparr>BLen = 0, BChars = None\<rparr>"

lemma zero_block_simps [simp]: "BLen zero_block = 0" "BChars zero_block = None"
  by (simp_all add: zero_block_def)

lemma text_append: "\<forall>b \<in> set bs. full_block b \<Longrightarrow> text_of (bs @ cs) = text_of bs @ text_of cs"
  by (induction bs) (auto simp: full_block_def)

lemma used_append: "\<forall>b \<in> set bs. full_block b \<Longrightarrow> used_blocks (bs @ cs) = length bs + used_blocks cs"
  by (induction bs) (auto simp: full_block_def)

lemma good_append: "\<forall>b \<in> set bs. full_block b \<Longrightarrow> good_blocks (bs @ cs) = good_blocks cs"
  by (induction bs) (auto simp: full_block_def)

lemma good_split:
  "good_blocks bs \<Longrightarrow> \<exists>r. bs = take (used_blocks bs) bs @ zero_block # r \<and> length (take (used_blocks bs) bs) = used_blocks bs \<and>
     (\<forall>b \<in> set (take (used_blocks bs) bs). full_block b) \<and> text_of (take (used_blocks bs) bs) = text_of bs"
proof (induction bs)
  case (Cons b bs)
  show ?case
  proof (cases "BLen b = 0")
    case True
    then have "b = zero_block" using Cons.prems by (simp add: zero_block_def)
    then show ?thesis by simp
  next
    case False
    then have "full_block b" "good_blocks bs" using Cons.prems by (auto simp: full_block_def)
    then show ?thesis using Cons.IH False by auto
  qed
qed simp

text \<open>
  \<^verbatim>\<open>Std$String$alloc\<close> makes room for \<open>n\<close> blocks and one more, all zero; here with the blocks then written and
  the length then set.
\<close>

definition alloc_with :: "'c block list \<Rightarrow> nat \<Rightarrow> 'c str" where
  "alloc_with bs n = \<lparr>SLen = n, SCount = length bs, SBlocks = bs @ [zero_block]\<rparr>"

lemma alloc_string:
  assumes "\<forall>b \<in> set bs. full_block b" and "n = length (text_of bs)" and "n < 2147483648"
  shows "wf_str (alloc_with bs n)" and "chars_of (alloc_with bs n) = text_of bs"
  using assms by (simp_all add: wf_str_def alloc_with_def chars_of_def text_append used_append good_append)

lemma wf_split:
  assumes "wf_str s"
  shows "\<forall>b \<in> set (take (SCount s) (SBlocks s)). full_block b" and "text_of (take (SCount s) (SBlocks s)) = chars_of s"
    and "SCount s \<le> length (SBlocks s)"
proof -
  have "(\<forall>b \<in> set (take (SCount s) (SBlocks s)). full_block b) \<and> text_of (take (SCount s) (SBlocks s)) = chars_of s \<and> SCount s \<le> length (SBlocks s)"
  proof (cases "good_blocks (SBlocks s)")
    case True
    then show ?thesis using good_split[OF True] assms by (metis chars_of_def wf_str_def length_take min.absorb_iff2 min.cobounded1)
  next
    case False
    then show ?thesis using assms by (auto simp: wf_str_def chars_of_def)
  qed
  then show "\<forall>b \<in> set (take (SCount s) (SBlocks s)). full_block b" "text_of (take (SCount s) (SBlocks s)) = chars_of s"
    "SCount s \<le> length (SBlocks s)" by auto
qed

text \<open>The characters of a block.\<close>

definition read_chars :: "'c block \<Rightarrow> 'c list option" where
  "read_chars b =
     (if BLen b = 0 then Some []
      else do { cs \<leftarrow> BChars b; if length cs < BLen b then None else Some (take (BLen b) cs) })"

lemma read_full: "full_block b \<Longrightarrow> \<exists>cs. read_chars b = Some cs \<and> length cs = BLen b \<and> cs \<noteq> [] \<and> text_of [b] = cs"
  by (auto simp: full_block_def read_chars_def)

end
