(* ===== verification/StringSearch.thy ===== *)
theory StringSearch
  imports StringBlocks
begin

text \<open>
  Searching for a string in a string (\<^verbatim>\<open>dev/src/lib/Std/Methods2.c\<close>): \<^verbatim>\<open>in\<close>, \<^verbatim>\<open>begins\<close>, \<^verbatim>\<open>ends\<close> and the three
  generators \<^verbatim>\<open>find\<close>, which search from place to place without any table.
\<close>

section \<open>The code\<close>

text \<open>
  The place where the next comparison starts, as the search loops set it up from \<^verbatim>\<open>Subject\<close> and \<^verbatim>\<open>Start\<close>; the
  result is \<open>Some None\<close> at the end of the subject.
\<close>

definition seek_text :: "'c block list \<Rightarrow> nat \<Rightarrow> ('c block list \<times> nat \<times> 'c cursor) option option" where
  "seek_text subject start =
     (case subject of
        [] \<Rightarrow> None
      | b # r \<Rightarrow>
          (let sl = sub32 (BLen b) start in
           if sl = 0 then
             (case r of
                [] \<Rightarrow> None
              | b' # _ \<Rightarrow>
                  if BLen b' = 0 then Some None
                  else Some (Some (r, 1, (r, BLen b', BChars b'))))
           else Some (Some (subject, inc32 start, (subject, sl, map_option (drop start) (BChars b))))))"

text \<open>
  The loop of \<^verbatim>\<open>find\<close>, of its resumption and, less the position, of \<^verbatim>\<open>in\<close>: the position found, and the
  \<^verbatim>\<open>Subject\<close> and \<^verbatim>\<open>Start\<close> to go on with. The loops without a limit have the limit \<open>2 ^ 32 - 1\<close> in the generator.
\<close>

partial_function (option) search_loop ::
  "'c block list \<Rightarrow> nat \<Rightarrow> 'c block list \<Rightarrow> nat \<Rightarrow> nat \<Rightarrow> (nat \<times> 'c block list \<times> nat) option option" where
  "search_loop pattern limit subject start position =
     (let position = inc32 position in
      if limit < position then Some None
      else do {
        s \<leftarrow> seek_text subject start;
        case s of
          None \<Rightarrow> Some None
        | Some (subject, start, sc) \<Rightarrow> do {
            pc \<leftarrow> open_block pattern;
            m \<leftarrow> match_loop sc pc;
            case m of
              Matched \<Rightarrow> Some (Some (position, subject, start))
            | Exhausted \<Rightarrow> Some None
            | Differs \<Rightarrow> search_loop pattern limit subject start position } })"

declare search_loop.simps [code]

definition no_limit :: nat where
  "no_limit = 2 ^ 32 - 1"

definition in_string :: "'c str \<Rightarrow> 'c str \<Rightarrow> ('c str, string, unit) reply option" where
  "in_string a b = do {
     r \<leftarrow> search_loop (SBlocks a) no_limit (SBlocks b) 0 0;
     Some (if r = None then FAILURE else SUCCESS a) }"

definition begins_string :: "'c str \<Rightarrow> 'c str \<Rightarrow> ('c str, string, unit) reply option" where
  "begins_string s p = do {
     sc \<leftarrow> open_block (SBlocks s);
     pc \<leftarrow> open_block (SBlocks p);
     m \<leftarrow> match_loop sc pc;
     Some (if m = Matched then SUCCESS s else FAILURE) }"

text \<open>\<^verbatim>\<open>while (Skip >= SL) {Skip -= SL; S1 += 1; SL = S1->Length.Value;}\<close>\<close>

fun skip_blocks :: "'c block list \<Rightarrow> nat \<Rightarrow> ('c block list \<times> nat) option" where
  "skip_blocks [] skip = None"
| "skip_blocks (b # r) skip =
     (if BLen b \<le> skip then skip_blocks r (skip - BLen b) else Some (b # r, skip))"

definition ends_string :: "'c str \<Rightarrow> 'c str \<Rightarrow> ('c str, string, unit) reply option" where
  "ends_string s p =
     (if SLen s < SLen p then Some FAILURE
      else do {
        (s1, skip) \<leftarrow> skip_blocks (SBlocks s) (SLen s - SLen p);
        (bs, sl, cs) \<leftarrow> open_block s1;
        pc \<leftarrow> open_block (SBlocks p);
        m \<leftarrow> match_loop (bs, sl - skip, map_option (drop skip) cs) pc;
        Some (if m = Matched then SUCCESS s else FAILURE) })"

text \<open>
  \<^verbatim>\<open>memchr\<close>, and the functions \<^verbatim>\<open>findcset\<close> and \<^verbatim>\<open>skipcset\<close>: the offset of the first of \<open>n\<close> characters that
  passes the test.
\<close>

fun scan_chars :: "('c \<Rightarrow> bool) \<Rightarrow> 'c list \<Rightarrow> nat \<Rightarrow> nat option option" where
  "scan_chars test cs 0 = Some None"
| "scan_chars test [] (Suc n) = None"
| "scan_chars test (c # cs) (Suc n) =
     (if test c then Some (Some 0) else map_option (map_option Suc) (scan_chars test cs n))"

text \<open>
  The search block by block of \<^verbatim>\<open>find\<close>, \<^verbatim>\<open>any\<close> and \<^verbatim>\<open>skip\<close>: \<^verbatim>\<open>Last\<close>, \<^verbatim>\<open>Subject\<close> and \<^verbatim>\<open>Index\<close> of the first hit.
\<close>

fun block_scan :: "('c \<Rightarrow> bool) \<Rightarrow> 'c block list \<Rightarrow> nat \<Rightarrow> (nat \<times> 'c block list \<times> nat) option option" where
  "block_scan test [] index = None"
| "block_scan test (b # r) index =
     (if BLen b = 0 then Some None
      else do {
        cs \<leftarrow> BChars b;
        p \<leftarrow> scan_chars test cs (BLen b);
        case p of
          Some k \<Rightarrow> Some (Some (Suc k, b # r, index))
        | None \<Rightarrow> block_scan test r (u32 (index + BLen b)) })"

text \<open>The resumptions go on from \<^verbatim>\<open>Start\<close> in the current block; they end at a block without characters.\<close>

fun resume_scan :: "('c \<Rightarrow> bool) \<Rightarrow> 'c block list \<Rightarrow> nat \<Rightarrow> nat \<Rightarrow> (nat \<times> 'c block list \<times> nat) option option" where
  "resume_scan test [] index start = None"
| "resume_scan test (b # r) index start =
     (case BChars b of
        None \<Rightarrow> if start = 0 then Some None else None
      | Some cs \<Rightarrow> do {
          p \<leftarrow> scan_chars test (drop start cs) (sub32 (BLen b) start);
          case p of
            Some k \<Rightarrow> Some (Some (u32 (start + k + 1), b # r, index))
          | None \<Rightarrow> resume_scan test r (u32 (index + BLen b)) 0 })"

text \<open>\<^verbatim>\<open>Std$Integer$new_small\<close> of an unsigned number\<close>

definition new_small :: "nat \<Rightarrow> int" where
  "new_small n = s32 (int n)"

text \<open>
  The reply of a generator that searches block by block: \<open>mk\<close> makes its state from \<^verbatim>\<open>Subject\<close>, \<^verbatim>\<open>Start\<close> and \<^verbatim>\<open>Index\<close>.
\<close>

definition scan_reply ::
  "('c block list \<Rightarrow> nat \<Rightarrow> nat \<Rightarrow> 'g) \<Rightarrow> (nat \<times> 'c block list \<times> nat) option \<Rightarrow> (int, string, 'g) reply" where
  "scan_reply mk r =
     (case r of
        None \<Rightarrow> FAILURE
      | Some (k, subject, index) \<Rightarrow> SUSPEND (new_small (index + k)) (mk subject k index))"

record 'c find_string_generator =
  FSubject :: "'c block list"
  FPattern :: "'c block list"
  FStart :: nat
  FPosition :: nat
  FLimit :: nat

record 'c find_char_generator =
  CChar :: 'c
  CSubject :: "'c block list"
  CStart :: nat
  CIndex :: nat

text \<open>The states of the generator \<^verbatim>\<open>ToSmallSmall\<close> of \<^verbatim>\<open>Std/Integer.asm\<close> are the current and the last number.\<close>

datatype 'c find_string_state =
    ToState int int
  | FindString "'c find_string_generator"
  | FindChar "'c find_char_generator"

definition to_small_small :: "(int \<Rightarrow> int \<Rightarrow> 'g) \<Rightarrow> int \<Rightarrow> int \<Rightarrow> (int, string, 'g) reply" where
  "to_small_small mk i n =
     (if n < i then FAILURE else if n = i then SUCCESS i else SUSPEND i (mk i n))"

definition resume_to_small_small :: "(int \<Rightarrow> int \<Rightarrow> 'g) \<Rightarrow> int \<Rightarrow> int \<Rightarrow> (int, string, 'g) reply" where
  "resume_to_small_small mk i n =
     (let i = s32 (i + 1) in if n < i then FAILURE else if n = i then SUCCESS i else SUSPEND i (mk i n))"

definition resume_find_string_string :: "'c find_string_generator \<Rightarrow> (int, string, 'c find_string_state) reply option" where
  "resume_find_string_string g = do {
     r \<leftarrow> search_loop (FPattern g) (FLimit g) (FSubject g) (FStart g) (FPosition g);
     Some (case r of
       None \<Rightarrow> FAILURE
     | Some (position, subject, start) \<Rightarrow>
         SUSPEND (new_small position)
           (FindString (g\<lparr>FStart := start, FPosition := position, FSubject := subject\<rparr>))) }"

definition resume_find_char_string :: "'c find_char_generator \<Rightarrow> (int, string, 'c find_string_state) reply option" where
  "resume_find_char_string g = do {
     r \<leftarrow> resume_scan ((=) (CChar g)) (CSubject g) (CIndex g) (CStart g);
     Some (scan_reply (\<lambda>subject start index.
       FindChar (g\<lparr>CIndex := index, CStart := start, CSubject := subject\<rparr>)) r) }"

fun resume_find :: "'c find_string_state \<Rightarrow> (int, string, 'c find_string_state) reply option" where
  "resume_find (ToState i n) = Some (resume_to_small_small ToState i n)"
| "resume_find (FindString g) = resume_find_string_string g"
| "resume_find (FindChar g) = resume_find_char_string g"

text \<open>The reply of a \<^verbatim>\<open>find\<close> whose search loop has ended.\<close>

definition found_string ::
  "'c block list \<Rightarrow> nat \<Rightarrow> (nat \<times> 'c block list \<times> nat) option \<Rightarrow> (int, string, 'c find_string_state) reply" where
  "found_string pattern limit r =
     (case r of
        None \<Rightarrow> FAILURE
      | Some (position, subject, start) \<Rightarrow>
          SUSPEND (new_small position)
            (FindString \<lparr>FSubject = subject, FPattern = pattern, FStart = start, FPosition = position, FLimit = limit\<rparr>))"

definition find_string :: "'c str \<Rightarrow> 'c str \<Rightarrow> (int, string, 'c find_string_state) reply option" where
  "find_string a b =
     (if SLen b = 0 then Some (to_small_small ToState 1 (int (SLen a)))
      else if SLen b = 1 then do {
        (_, _, cs) \<leftarrow> open_block (SBlocks b);
        c \<leftarrow> peek cs;
        r \<leftarrow> block_scan ((=) c) (SBlocks a) 0;
        Some (scan_reply (\<lambda>subject start index.
          FindChar \<lparr>CChar = c, CSubject = subject, CStart = start, CIndex = index\<rparr>) r) }
      else do {
        r \<leftarrow> search_loop (SBlocks b) no_limit (SBlocks a) 0 0;
        Some (found_string (SBlocks b) no_limit r) })"

text \<open>
  \<^verbatim>\<open>Start\<close> of the forms with a first position: negative and zero positions count from behind the end.
\<close>

definition start_of :: "int \<Rightarrow> 'c str \<Rightarrow> int" where
  "start_of m a = (let start = s32 (m - 1) in if start < 0 then s32 (start + int (SLen a) + 1) else start)"

text \<open>
  \<^verbatim>\<open>while (Start >= Subject->Length.Value)\<close>, with the failure at the end of the subject
\<close>

fun find_start :: "'c block list \<Rightarrow> nat \<Rightarrow> ('c block list \<times> nat) option option" where
  "find_start [] start = None"
| "find_start (b # r) start =
     (if BLen b \<le> start then
        (case r of
           [] \<Rightarrow> None
         | b' # _ \<Rightarrow> if BLen b' = 0 then Some None else find_start r (start - BLen b))
      else Some (Some (b # r, start)))"

definition find_between :: "'c str \<Rightarrow> 'c str \<Rightarrow> int \<Rightarrow> nat \<Rightarrow> (int, string, 'c find_string_state) reply option" where
  "find_between a b m limit =
     (let start = start_of m a in
      if start < 0 then Some FAILURE
      else do {
        r \<leftarrow> find_start (SBlocks a) (nat start);
        case r of
          None \<Rightarrow> Some FAILURE
        | Some (subject, left) \<Rightarrow> do {
            r \<leftarrow> search_loop (SBlocks b) limit subject left (nat start);
            Some (found_string (SBlocks b) limit r) } })"

definition find_from_string :: "'c str \<Rightarrow> 'c str \<Rightarrow> int \<Rightarrow> (int, string, 'c find_string_state) reply option" where
  "find_from_string a b m = find_between a b m no_limit"

definition find_limit_string :: "'c str \<Rightarrow> 'c str \<Rightarrow> int \<Rightarrow> int \<Rightarrow> (int, string, 'c find_string_state) reply option" where
  "find_limit_string a b m n = find_between a b m (ul n)"

section \<open>Places\<close>

text \<open>
  The positions, counted from \<open>k\<close>, at which a rest of the text satisfies a predicate: the list that a
  generator of positions gives.
\<close>

fun places :: "('c list \<Rightarrow> bool) \<Rightarrow> 'c list \<Rightarrow> nat \<Rightarrow> nat list" where
  "places P [] k = []"
| "places P (x # xs) k = (if P (x # xs) then [k] else []) @ places P xs (Suc k)"

definition occurrences :: "('c list \<Rightarrow> bool) \<Rightarrow> 'c list \<Rightarrow> nat list" where
  "occurrences P xs = map Suc (filter (\<lambda>i. P (drop i xs)) [0..<length xs])"

lemma places_ge: "i \<in> set (places P xs k) \<Longrightarrow> k \<le> i"
  by (induction P xs k rule: places.induct) (auto split: if_splits)

lemma places_lt: "i \<in> set (places P xs k) \<Longrightarrow> i < k + length xs"
  by (induction P xs k rule: places.induct) (auto split: if_splits)

lemma places_filter: "places P xs k = map (\<lambda>i. i + k) (filter (\<lambda>i. P (drop i xs)) [0..<length xs])"
proof (induction P xs k rule: places.induct)
  case (2 P x xs k)
  have "[0..<length (x # xs)] = 0 # map Suc [0..<length xs]"
    by (simp add: upt_conv_Cons map_Suc_upt del: upt_Suc)
  then show ?case using 2 by (simp only: filter.simps filter_map) (simp add: comp_def)
qed simp

lemma places_occurrences: "places P xs 1 = occurrences P xs"
  by (simp add: places_filter occurrences_def)

lemma places_above: "s \<le> length xs \<Longrightarrow> places P (drop s xs) (k + s) = filter (\<lambda>i. k + s \<le> i) (places P xs k)"
proof (induction s arbitrary: xs k)
  case 0
  have "filter (\<lambda>i. k \<le> i) (places P xs k) = places P xs k" by (simp add: filter_id_conv places_ge)
  then show ?case by simp
next
  case (Suc s)
  then obtain x ys where xs: "xs = x # ys" by (cases xs) auto
  then show ?case using Suc.IH[of ys "Suc k"] Suc.prems by simp
qed

lemma places_short: "length xs < length ps \<Longrightarrow> places (prefix ps) xs k = []"
  by (induction "prefix ps" xs k rule: places.induct) (auto dest: prefix_length_le)

lemma limit_none: "limit < k \<Longrightarrow> filter (\<lambda>i. i \<le> limit) (places P xs k) = []"
  using places_ge by (fastforce simp: filter_empty_conv)

section \<open>The search loop\<close>

definition left_at :: "'c block list \<Rightarrow> nat \<Rightarrow> 'c list \<Rightarrow> bool" where
  "left_at bs start xs \<longleftrightarrow> (\<exists>b r c. bs = b # r \<and> BLen b \<noteq> 0 \<and> BLen b < 2 ^ 32 \<and> BChars b = Some c \<and> BLen b \<le> length c \<and>
     good_blocks r \<and> start \<le> BLen b \<and> xs = drop start (take (BLen b) c) @ text_of r)"

lemma seek_end: "left_at bs start [] \<Longrightarrow> seek_text bs start = Some None"
proof -
  assume "left_at bs start []"
  then obtain b r c where b: "bs = b # r" "BLen b < 2 ^ 32" "BChars b = Some c" "BLen b \<le> length c"
    "good_blocks r" "start = BLen b" "text_of r = []"
    by (auto simp: left_at_def)
  then obtain b' r' where "r = b' # r'" "BLen b' = 0" by (cases r) (auto split: if_splits)
  then show ?thesis using b by (simp add: seek_text_def Let_def)
qed

lemma seek_Cons:
  assumes "left_at bs start (x # xs)" and "length xs < 2 ^ 31"
  shows "\<exists>bs' start' cur. seek_text bs start = Some (Some (bs', start', cur)) \<and> at_text cur (x # xs) \<and> left_at bs' start' xs"
proof -
  from assms obtain b r c where b: "bs = b # r" "BLen b \<noteq> 0" "BLen b < 2 ^ 32" "BChars b = Some c" "BLen b \<le> length c"
    "good_blocks r" "start \<le> BLen b" "x # xs = drop start (take (BLen b) c) @ text_of r"
    by (auto simp: left_at_def)
  show ?thesis
  proof (cases "start = BLen b")
    case True
    then obtain b' r' c' where r: "r = b' # r'" "BLen b' \<noteq> 0" "BChars b' = Some c'" "BLen b' \<le> length c'" "good_blocks r'"
      "x # xs = take (BLen b') c' @ text_of r'"
      using b by (cases r) (auto split: if_splits)
    moreover have "BLen b' < 2 ^ 32" using arg_cong[OF r(6), of length] r(4) assms(2) by simp
    moreover have "xs = drop 1 (take (BLen b') c') @ text_of r'" using r(2,4,6) by (cases c'; cases "BLen b'") auto
    ultimately show ?thesis using b True
      by (auto simp: seek_text_def Let_def at_text_def left_at_def)
  next
    case False
    have "drop start (take (BLen b) c) = take (BLen b) c ! start # drop (Suc start) (take (BLen b) c)"
      using b False by (intro Cons_nth_drop_Suc[symmetric]) auto
    then have ne: "drop start (take (BLen b) c) = x # drop (Suc start) (take (BLen b) c)"
      using b(8) by (metis append_Cons list.inject)
    then have "xs = drop (Suc start) (take (BLen b) c) @ text_of r" using b(8) by simp
    moreover have "drop start (take (BLen b) c) = take (BLen b - start) (drop start c)" by (simp add: drop_take)
    ultimately show ?thesis using b False ne
      by (auto simp: seek_text_def Let_def at_text_def left_at_def)
  qed
qed


lemma search_loop_spec:
  assumes "open_block pattern = Some pc" and "at_text pc ps"
  shows "left_at bs start xs \<Longrightarrow> k + length xs < 2 ^ 31 \<Longrightarrow>
    (search_loop pattern limit bs start k = Some None \<and> filter (\<lambda>i. i \<le> limit) (places (prefix ps) xs (Suc k)) = []) \<or>
    (\<exists>i bs' start' xs'. search_loop pattern limit bs start k = Some (Some (i, bs', start')) \<and> left_at bs' start' xs' \<and>
       filter (\<lambda>i. i \<le> limit) (places (prefix ps) xs (Suc k)) = i # filter (\<lambda>i. i \<le> limit) (places (prefix ps) xs' (Suc i)) \<and>
       i + length xs' = k + length xs \<and> k < i)"
proof (induction xs arbitrary: bs start k)
  case Nil
  then show ?case by (subst search_loop.simps) (auto simp: seek_end)
next
  case (Cons x xs)
  have k: "inc32 k = Suc k" using Cons.prems(2) by simp
  obtain bs' start' cur where s: "seek_text bs start = Some (Some (bs', start', cur))" "at_text cur (x # xs)" "left_at bs' start' xs"
    using seek_Cons[OF Cons.prems(1)] Cons.prems(2) by auto
  note m = match_loop_spec[OF s(2) assms(2)]
  note run = search_loop.simps[of pattern limit bs start k] s(1) assms(1) m k
  show ?case
  proof (cases "limit < Suc k")
    case True
    then have "search_loop pattern limit bs start k = Some None" by (subst search_loop.simps) (simp add: k)
    then show ?thesis using limit_none[OF True] by blast
  next
    case False
    show ?thesis
    proof (cases "compared (x # xs) ps")
      case Matched
      then have p: "prefix ps (x # xs)" by (auto simp: compared_def split: if_splits)
      have "search_loop pattern limit bs start k = Some (Some (Suc k, bs', start'))" using False Matched by (simp add: run)
      then show ?thesis using s(3) p False by (intro disjI2 exI[of _ "Suc k"] exI[of _ bs'] exI[of _ start'] exI[of _ xs]) simp
    next
      case Exhausted
      then have p: "\<not> prefix ps (x # xs)" "prefix (x # xs) ps" by (auto simp: compared_def split: if_splits)
      then have "length (x # xs) < length ps" by (metis prefix_def prefix_length_le le_neq_implies_less append_eq_conv_conj take_all order_refl)
      then have "places (prefix ps) (x # xs) (Suc k) = []" by (rule places_short)
      moreover have "search_loop pattern limit bs start k = Some None" using False Exhausted by (simp add: run)
      ultimately show ?thesis by (simp del: places.simps)
    next
      case Differs
      then have p: "\<not> prefix ps (x # xs)" by (auto simp: compared_def split: if_splits)
      have "search_loop pattern limit bs start k = search_loop pattern limit bs' start' (Suc k)" using False Differs by (simp add: run)
      moreover have "Suc k + length xs < 2 ^ 31" using Cons.prems(2) by simp
      ultimately show ?thesis using Cons.IH[OF s(3), of "Suc k"] p by (auto simp: Suc_lessD)
    qed
  qed
qed


text \<open>A string that is not empty starts with a block of characters.\<close>

lemma wf_nonempty:
  assumes "wf_str s" and "chars_of s \<noteq> []"
  shows "good_blocks (SBlocks s)" and "left_at (SBlocks s) 0 (chars_of s)"
proof -
  show g: "good_blocks (SBlocks s)" using assms by (auto simp: wf_str_def chars_of_def)
  then obtain b r where b: "SBlocks s = b # r" by (cases "SBlocks s") auto
  moreover from this have "BLen b \<noteq> 0" using assms(2) by (cases "BLen b = 0") (auto simp: chars_of_def)
  ultimately obtain c where c: "BChars b = Some c" "BLen b \<le> length c" "good_blocks r" using g by auto
  have "length (chars_of s) < 2 ^ 31" using assms(1) by (simp add: wf_str_def chars_of_def)
  then have "BLen b < 2 ^ 32" using b c by (simp add: chars_of_def split: if_splits)
  then show "left_at (SBlocks s) 0 (chars_of s)" using b c \<open>BLen b \<noteq> 0\<close> by (simp add: left_at_def chars_of_def)
qed

lemma wf_length: "wf_str s \<Longrightarrow> SLen s = length (chars_of s) \<and> length (chars_of s) < 2147483648"
  by (auto simp: wf_str_def chars_of_def)

lemma places_empty: "places (prefix ps) xs k = [] \<longleftrightarrow> (xs = [] \<or> \<not> sublist ps xs)"
proof (induction xs arbitrary: k)
  case (Cons x xs)
  then show ?case by (cases "xs = []") (auto simp: sublist_Cons_right)
qed simp

lemma search_whole:
  assumes "wf_str a" and "wf_str b" and "chars_of b \<noteq> []"
  shows "(search_loop (SBlocks a) limit (SBlocks b) 0 0 = Some None \<and>
      filter (\<lambda>i. i \<le> limit) (occurrences (prefix (chars_of a)) (chars_of b)) = []) \<or>
    (\<exists>i bs start xs. search_loop (SBlocks a) limit (SBlocks b) 0 0 = Some (Some (i, bs, start)) \<and> left_at bs start xs \<and>
      filter (\<lambda>i. i \<le> limit) (occurrences (prefix (chars_of a)) (chars_of b)) =
        i # filter (\<lambda>i. i \<le> limit) (places (prefix (chars_of a)) xs (Suc i)) \<and> i + length xs = length (chars_of b))"
proof -
  obtain pc where "open_block (SBlocks a) = Some pc" "at_text pc (chars_of a)" using open_string[OF assms(1)] by auto
  from search_loop_spec[OF this wf_nonempty(2)[OF assms(2,3)], of 0 limit] show ?thesis
    using wf_length[OF assms(2)] by (fastforce simp: places_occurrences[symmetric])
qed

section \<open>in, begins and ends\<close>

lemma in_string_spec:
  assumes "wf_str a" and "wf_str b" and "chars_of b \<noteq> []"
  shows "in_string a b = Some (if sublist (chars_of a) (chars_of b) then SUCCESS a else FAILURE)"
proof -
  let ?P = "occurrences (prefix (chars_of a)) (chars_of b)"
  have all: "filter (\<lambda>i. i \<le> no_limit) ?P = ?P"
    using places_lt[of _ "prefix (chars_of a)" "chars_of b" 1] wf_length[OF assms(2)]
    unfolding places_occurrences filter_id_conv no_limit_def by fastforce
  have e: "?P = [] \<longleftrightarrow> \<not> sublist (chars_of a) (chars_of b)"
    using places_empty[of "chars_of a" "chars_of b" 1] assms(3) unfolding places_occurrences by simp
  from search_whole[OF assms, of no_limit] show ?thesis unfolding all using e by (auto simp: in_string_def)
qed

text \<open>In an empty subject, the code reads the block behind the one that ends the string.\<close>

lemma in_string_empty:
  assumes "wf_str b" and "chars_of b = []"
  shows "tl (SBlocks b) = [] \<Longrightarrow> in_string a b = None"
    and "tl (SBlocks b) = b' # bs \<Longrightarrow> BLen b' = 0 \<Longrightarrow> in_string a b = Some FAILURE"
proof -
  have ne: "SBlocks b \<noteq> []" using assms by (auto simp: wf_str_def good_text_nonempty)
  then obtain b0 r where b: "SBlocks b = b0 # r" by (cases "SBlocks b") auto
  have "BLen b0 = 0" using assms b by (cases "BLen b0") (auto simp: wf_str_def chars_of_def)
  then have s: "seek_text (SBlocks b) 0 = (case r of [] \<Rightarrow> None | b' # _ \<Rightarrow> if BLen b' = 0 then Some None else Some (Some (r, 1, (r, BLen b', BChars b'))))"
    using b by (simp add: seek_text_def)
  show "tl (SBlocks b) = [] \<Longrightarrow> in_string a b = None"
    unfolding in_string_def search_loop.simps[of "SBlocks a" no_limit "SBlocks b" 0 0] using s b by (simp add: no_limit_def)
  show "tl (SBlocks b) = b' # bs \<Longrightarrow> BLen b' = 0 \<Longrightarrow> in_string a b = Some FAILURE"
    unfolding in_string_def search_loop.simps[of "SBlocks a" no_limit "SBlocks b" 0 0] using s b by (simp add: no_limit_def)
qed

lemma begins_string_spec:
  assumes "wf_str s" and "wf_str p"
  shows "begins_string s p = Some (if prefix (chars_of p) (chars_of s) then SUCCESS s else FAILURE)"
proof -
  obtain sc pc where c: "open_block (SBlocks s) = Some sc" "at_text sc (chars_of s)"
    "open_block (SBlocks p) = Some pc" "at_text pc (chars_of p)"
    using open_string[OF assms(1)] open_string[OF assms(2)] by auto
  show ?thesis using match_loop_spec[OF c(2,4)] by (simp add: begins_string_def c compared_def)
qed

lemma skip_blocks_spec:
  "good_blocks bs \<Longrightarrow> skip < length (text_of bs) \<Longrightarrow>
   \<exists>b r c k. skip_blocks bs skip = Some (b # r, k) \<and> k < BLen b \<and> BChars b = Some c \<and> BLen b \<le> length c \<and> good_blocks r \<and>
     drop skip (text_of bs) = take (BLen b - k) (drop k c) @ text_of r"
proof (induction bs skip rule: skip_blocks.induct)
  case (2 b r skip)
  have b: "BLen b \<noteq> 0" using 2(3) by (cases "BLen b = 0") simp_all
  then obtain c where c: "BChars b = Some c" "BLen b \<le> length c" "good_blocks r" using 2(2) by auto
  show ?case
  proof (cases "BLen b \<le> skip")
    case True
    then have "skip - BLen b < length (text_of r)" using 2(3) b c by simp
    then show ?thesis using 2(1)[OF True c(3)] True b c by simp
  next
    case False
    then show ?thesis using b c by (simp add: drop_take)
  qed
qed simp

text \<open>When the whole subject is to be skipped, the loop runs behind the end of the string.\<close>

lemma skip_blocks_over:
  "\<forall>b \<in> set (drop (used_blocks bs) bs). BLen b = 0 \<Longrightarrow> good_blocks bs \<or> bs \<noteq> [] \<and> BLen (hd bs) = 0 \<Longrightarrow>
   length (text_of bs) \<le> skip \<Longrightarrow> skip_blocks bs skip = None"
proof (induction bs skip rule: skip_blocks.induct)
  case (2 b r skip)
  show ?case
  proof (cases "BLen b = 0")
    case True
    have "\<forall>b \<in> set r. BLen b = 0 \<Longrightarrow> skip_blocks r n = None" for n
      by (induction r) auto
    then show ?thesis using 2(2) True by simp
  next
    case False
    then have "length (text_of r) \<le> skip - BLen b" "BLen b \<le> skip" "good_blocks r" using 2(3,4) by auto
    then show ?thesis using 2(1)[of] 2(2) False by simp
  qed
qed simp


lemma ends_string_spec:
  assumes "wf_str s" and "wf_str p" and "chars_of p \<noteq> []"
  shows "ends_string s p = Some (if suffix (chars_of p) (chars_of s) then SUCCESS s else FAILURE)"
proof (cases "SLen s < SLen p")
  case True
  then have "\<not> suffix (chars_of p) (chars_of s)"
    using wf_length[OF assms(1)] wf_length[OF assms(2)] by (auto dest: suffix_length_le)
  then show ?thesis using True by (simp add: ends_string_def)
next
  case False
  let ?n = "SLen s - SLen p"
  have n: "?n < length (chars_of s)" "?n = length (chars_of s) - length (chars_of p)" "length (chars_of p) \<le> length (chars_of s)"
    using False assms(3) wf_length[OF assms(1)] wf_length[OF assms(2)] by (auto intro!: diff_less Nat.gr0I)
  then have "good_blocks (SBlocks s)" using wf_nonempty(1)[OF assms(1)] by fastforce
  from skip_blocks_spec[OF this] n(1) obtain b r c k where sk:
    "skip_blocks (SBlocks s) ?n = Some (b # r, k)" "k < BLen b" "BChars b = Some c" "BLen b \<le> length c" "good_blocks r"
    "drop ?n (chars_of s) = take (BLen b - k) (drop k c) @ text_of r"
    by (force simp: chars_of_def)
  then have at: "at_text (b # r, BLen b - k, Some (drop k c)) (drop ?n (chars_of s))" by (simp add: at_text_def)
  obtain pc where pc: "open_block (SBlocks p) = Some pc" "at_text pc (chars_of p)" using open_string[OF assms(2)] by auto
  have len: "length (drop ?n (chars_of s)) = length (chars_of p)" using n by simp
  have "prefix (chars_of p) (drop ?n (chars_of s)) \<longleftrightarrow> drop ?n (chars_of s) = chars_of p"
    using len by (metis append_eq_append_conv append_Nil2 prefix_def)
  also have "\<dots> \<longleftrightarrow> suffix (chars_of p) (chars_of s)"
  proof
    show "drop ?n (chars_of s) = chars_of p \<Longrightarrow> suffix (chars_of p) (chars_of s)" using suffix_drop[of ?n "chars_of s"] by simp
    show "suffix (chars_of p) (chars_of s) \<Longrightarrow> drop ?n (chars_of s) = chars_of p" unfolding n(2) by (auto simp: suffix_def)
  qed
  finally show ?thesis
    using False sk(1,3) pc(1) match_loop_spec[OF at pc(2)] by (simp add: ends_string_def open_block_def compared_def)
qed

lemma ends_string_empty:
  assumes "wf_str s" and "SLen p = 0" and "\<forall>b \<in> set (drop (SCount s) (SBlocks s)). BLen b = 0"
  shows "ends_string s p = None"
proof -
  have "skip_blocks (SBlocks s) (SLen s) = None"
    using assms by (intro skip_blocks_over) (auto simp: wf_str_def)
  then show ?thesis using assms(2) by (simp add: ends_string_def)
qed

section \<open>find\<close>

lemma new_small_id [simp]: "n < 2147483648 \<Longrightarrow> new_small n = int n"
  by (simp add: new_small_def)

lemma drain_find_string:
  assumes "open_block pattern = Some pc" and "at_text pc ps"
  shows "left_at bs start xs \<Longrightarrow> k + length xs < 2 ^ 31 \<Longrightarrow>
    \<exists>r. search_loop pattern limit bs start k = Some r \<and>
      run_out resume_find (found_string pattern limit r) =
        Some (map int (filter (\<lambda>i. i \<le> limit) (places (prefix ps) xs (Suc k))), None :: string option)"
proof (induction "length xs" arbitrary: bs start xs k rule: less_induct)
  case less
  from search_loop_spec[OF assms less.prems, of limit] show ?case
  proof (elim disjE conjE exE)
    assume "search_loop pattern limit bs start k = Some None"
      and "filter (\<lambda>i. i \<le> limit) (places (prefix ps) xs (Suc k)) = []"
    then show ?thesis by (simp add: found_string_def)
  next
    fix i bs' start' xs'
    assume s: "search_loop pattern limit bs start k = Some (Some (i, bs', start'))" "left_at bs' start' xs'"
      "filter (\<lambda>i. i \<le> limit) (places (prefix ps) xs (Suc k)) = i # filter (\<lambda>i. i \<le> limit) (places (prefix ps) xs' (Suc i))"
      "i + length xs' = k + length xs" "k < i"
    then have "length xs' < length xs" "i + length xs' < 2 ^ 31" using less.prems(2) by auto
    from less.hyps[OF this(1) s(2) this(2)] obtain r where r: "search_loop pattern limit bs' start' i = Some r"
      "run_out resume_find (found_string pattern limit r) =
        Some (map int (filter (\<lambda>i. i \<le> limit) (places (prefix ps) xs' (Suc i))), None :: string option)" by blast
    have more: "resume_find (FindString \<lparr>FSubject = bs', FPattern = pattern, FStart = start', FPosition = i, FLimit = limit\<rparr>) =
      Some (found_string pattern limit r :: (int, string, 'a find_string_state) reply)"
      using r(1) by (cases r) (auto simp: resume_find_string_string_def found_string_def)
    have "(found_string pattern limit (Some (i, bs', start')) :: (int, string, 'a find_string_state) reply) =
      SUSPEND (int i) (FindString \<lparr>FSubject = bs', FPattern = pattern, FStart = start', FPosition = i, FLimit = limit\<rparr>)"
      using s(4) less.prems(2) by (simp add: found_string_def)
    then show ?thesis using s(1,3) run_out_more[OF more r(2)] by simp
  qed
qed


section \<open>Block by block\<close>

lemma scan_chars_spec:
  "n \<le> length cs \<Longrightarrow>
   (scan_chars test cs n = Some None \<and> (\<forall>c \<in> set (take n cs). \<not> test c)) \<or>
   (\<exists>j < n. scan_chars test cs n = Some (Some j) \<and> test (cs ! j) \<and> (\<forall>c \<in> set (take j cs). \<not> test c))"
proof (induction test cs n rule: scan_chars.induct)
  case (3 test c cs n)
  show ?case
  proof (cases "test c")
    case True
    then show ?thesis by (intro disjI2 exI[of _ 0]) simp
  next
    case False
    then have "n \<le> length cs" using "3.prems" by simp
    from "3.IH"[OF False this] show ?thesis
    proof (elim disjE exE conjE)
      fix j assume j: "j < n" "scan_chars test cs n = Some (Some j)" "test (cs ! j)" "\<forall>c \<in> set (take j cs). \<not> test c"
      then show ?thesis using False by (intro disjI2 exI[of _ "Suc j"]) simp
    qed (use False in simp)
  qed
qed simp_all

text \<open>Places where the next character passes a test.\<close>

definition starts :: "('c \<Rightarrow> bool) \<Rightarrow> 'c list \<Rightarrow> bool" where
  "starts test xs \<longleftrightarrow> (\<exists>x ys. xs = x # ys \<and> test x)"

lemma starts_simps [simp]: "\<not> starts test []" "starts test (x # xs) = test x"
  by (simp_all add: starts_def)

lemma places_pass: "\<forall>c \<in> set xs. \<not> test c \<Longrightarrow> places (starts test) (xs @ ys) k = places (starts test) ys (k + length xs)"
  by (induction xs arbitrary: k) simp_all

text \<open>The text is left from \<open>start\<close> in the first block of \<open>bs\<close>, or \<open>bs\<close> is at the end.\<close>

definition rest_at :: "'c block list \<Rightarrow> nat \<Rightarrow> 'c list \<Rightarrow> bool" where
  "rest_at bs start xs \<longleftrightarrow> left_at bs start xs \<or> start = 0 \<and> xs = [] \<and> (\<exists>b r. bs = b # r \<and> BLen b = 0 \<and> BChars b = None)"

lemma rest_text: "good_blocks bs \<Longrightarrow> length (text_of bs) < 2 ^ 31 \<Longrightarrow> rest_at bs 0 (text_of bs)"
  by (cases bs) (auto simp: rest_at_def left_at_def)

lemma resume_scan_spec:
  "rest_at bs start xs \<Longrightarrow> index + start + length xs < 2 ^ 31 \<Longrightarrow>
   (resume_scan test bs index start = Some None \<and> places (starts test) xs (Suc (index + start)) = []) \<or>
   (\<exists>k bs' index' xs'. resume_scan test bs index start = Some (Some (k, bs', index')) \<and> rest_at bs' k xs' \<and>
      places (starts test) xs (Suc (index + start)) = (index' + k) # places (starts test) xs' (Suc (index' + k)) \<and>
      index' + k + length xs' = index + start + length xs \<and> index + start < index' + k)"
proof (induction bs arbitrary: start xs index)
  case Nil
  then show ?case by (simp add: rest_at_def left_at_def)
next
  case (Cons b r)
  show ?case
  proof (cases "left_at (b # r) start xs")
    case False
    then have "start = 0" "xs = []" "BChars b = None" using Cons.prems(1) by (auto simp: rest_at_def)
    then show ?thesis by simp
  next
    case True
    then obtain c where c: "BLen b \<noteq> 0" "BLen b < 2 ^ 32" "BChars b = Some c" "BLen b \<le> length c" "good_blocks r" "start \<le> BLen b"
      "xs = drop start (take (BLen b) c) @ text_of r"
      by (auto simp: left_at_def)
    let ?n = "BLen b - start"
    have here: "take ?n (drop start c) = drop start (take (BLen b) c)" by (simp add: drop_take)
    have "?n \<le> length (drop start c)" using c by simp
    from scan_chars_spec[OF this, of test] show ?thesis
    proof (elim disjE exE conjE)
      assume s: "scan_chars test (drop start c) ?n = Some None" "\<forall>c \<in> set (take ?n (drop start c)). \<not> test c"
      have i: "u32 (index + BLen b) = index + BLen b" using Cons.prems(2) c by simp
      have run: "resume_scan test (b # r) index start = resume_scan test r (index + BLen b) 0"
        using c s i by simp
      have pl: "places (starts test) xs (Suc (index + start)) = places (starts test) (text_of r) (Suc (index + BLen b))"
        using places_pass[OF s(2), of "text_of r" "Suc (index + start)"] c(4,6,7) here by simp
      have len: "index + BLen b + length (text_of r) = index + start + length xs" using c by simp
      then have "rest_at r 0 (text_of r)" using rest_text[OF c(5)] Cons.prems(2) by simp
      moreover have "index + BLen b + 0 + length (text_of r) < 2 ^ 31" using len Cons.prems(2) by simp
      ultimately have ih: "(resume_scan test r (index + BLen b) 0 = Some None \<and> places (starts test) (text_of r) (Suc (index + BLen b + 0)) = []) \<or>
         (\<exists>k bs' index' xs'. resume_scan test r (index + BLen b) 0 = Some (Some (k, bs', index')) \<and> rest_at bs' k xs' \<and>
           places (starts test) (text_of r) (Suc (index + BLen b + 0)) = (index' + k) # places (starts test) xs' (Suc (index' + k)) \<and>
           index' + k + length xs' = index + BLen b + 0 + length (text_of r) \<and> index + BLen b + 0 < index' + k)"
        by (rule Cons.IH)
      then show ?thesis unfolding run pl using len c(6) by (elim disjE exE conjE) (auto simp: add.assoc)
    next
      fix j assume s: "j < ?n" "scan_chars test (drop start c) ?n = Some (Some j)" "test (drop start c ! j)" "\<forall>c \<in> set (take j (drop start c)). \<not> test c"
      let ?k = "start + j + 1" and ?ys = "drop (start + j + 1) (take (BLen b) c) @ text_of r"
      have "?k \<le> BLen b" using s(1) by simp
      then have u: "u32 ?k = ?k" using c(2) by simp
      have "take ?n (drop start c) = take j (take ?n (drop start c)) @ take ?n (drop start c) ! j # drop (Suc j) (take ?n (drop start c))"
        using s(1) c(4,6) by (intro id_take_nth_drop) simp
      then have split: "xs = take j (drop start c) @ (drop start c ! j) # ?ys"
        using s(1) c(7) unfolding here[symmetric] by (simp add: drop_take min_def add.commute)
      have len: "length (take j (drop start c)) = j" using s(1) c(4,6) by simp
      have "places (starts test) xs (Suc (index + start)) = (index + ?k) # places (starts test) ?ys (Suc (index + ?k))"
        unfolding split using places_pass[OF s(4), of "(drop start c ! j) # ?ys" "Suc (index + start)"] s(3) len
        by (simp add: add.assoc)
      moreover have "resume_scan test (b # r) index start = Some (Some (?k, b # r, index))" using c s(2) u by simp
      moreover have "rest_at (b # r) ?k ?ys" using c \<open>?k \<le> BLen b\<close> by (auto simp: rest_at_def left_at_def)
      moreover have "index + ?k + length ?ys = index + start + length xs" using split s(1) c(4,6) by simp
      ultimately show ?thesis
        by (intro disjI2, intro exI[of _ ?k] exI[of _ "b # r"] exI[of _ index] exI[of _ ?ys]) simp
    qed
  qed
qed


section \<open>Generators of positions\<close>

text \<open>
  What the generators that search block by block share: a state is made of \<^verbatim>\<open>Subject\<close>, \<^verbatim>\<open>Start\<close> and
  \<^verbatim>\<open>Index\<close>, and the resumption goes on with the same test.
\<close>

locale position_generator =
  fixes test :: "'c \<Rightarrow> bool"
    and mk :: "'c block list \<Rightarrow> nat \<Rightarrow> nat \<Rightarrow> 'g"
    and resume :: "'g \<Rightarrow> (int, string, 'g) reply option"
  assumes goes_on: "resume (mk bs start index) = map_option (scan_reply mk) (resume_scan test bs index start)"
begin

lemma gives_places:
  "rest_at bs start xs \<Longrightarrow> index + start + length xs < 2 ^ 31 \<Longrightarrow>
    \<exists>r. resume_scan test bs index start = Some r \<and>
      run_out resume (scan_reply mk r) = Some (map int (places (starts test) xs (Suc (index + start))), None)"
proof (induction "length xs" arbitrary: bs start xs index rule: less_induct)
  case less
  from resume_scan_spec[OF less.prems, of test] show ?case
  proof (elim disjE conjE exE)
    fix k bs' index' xs'
    assume s: "resume_scan test bs index start = Some (Some (k, bs', index'))" "rest_at bs' k xs'"
      "places (starts test) xs (Suc (index + start)) = (index' + k) # places (starts test) xs' (Suc (index' + k))"
      "index' + k + length xs' = index + start + length xs" "index + start < index' + k"
    then have "length xs' < length xs" "index' + k + length xs' < 2 ^ 31" using less.prems(2) by auto
    from less.hyps[OF this(1) s(2) this(2)] obtain r where r: "resume_scan test bs' index' k = Some r"
      "run_out resume (scan_reply mk r) = Some (map int (places (starts test) xs' (Suc (index' + k))), None)" by blast
    have "resume (mk bs' k index') = Some (scan_reply mk r)" using r(1) by (simp add: goes_on)
    from run_out_more[OF this r(2), of "int (index' + k)"] show ?thesis
      using s(1,3,4) less.prems(2) by (simp add: scan_reply_def)
  qed (simp add: scan_reply_def)
qed

end

lemma block_resume: "good_blocks bs \<Longrightarrow> index + length (text_of bs) < 2 ^ 31 \<Longrightarrow> block_scan test bs index = resume_scan test bs index 0"
proof (induction bs arbitrary: index)
  case (Cons b r)
  show ?case
  proof (cases "BLen b = 0")
    case False
    then obtain c where c: "BChars b = Some c" "BLen b \<le> length c" "good_blocks r" using Cons.prems(1) by auto
    then have n: "index + BLen b + length (text_of r) < 2 ^ 31" using False Cons.prems(2) by simp
    then have "BLen b < 4294967296" "u32 (index + BLen b) = index + BLen b" by simp_all
    then show ?thesis using False c Cons.IH[OF c(3) n] scan_chars_spec[OF c(2), of test] by auto
  qed (use Cons.prems in simp)
qed simp

lemma bind_option_map: "Option.bind m (\<lambda>x. Some (f x)) = map_option f m"
  by (cases m) auto

interpretation find_char: position_generator "(=) c"
  "\<lambda>subject start index. FindChar \<lparr>CChar = c, CSubject = subject, CStart = start, CIndex = index\<rparr>" resume_find for c
  by unfold_locales (simp add: resume_find_char_string_def scan_reply_def[abs_def] bind_option_map)

lemma run_out_to_small:
  assumes "\<And>i n. resume (mk i n) = Some (resume_to_small_small mk i n)"
  shows "- 2147483648 \<le> i \<Longrightarrow> n < 2147483648 \<Longrightarrow> run_out resume (to_small_small mk i n) = Some ([i..n], None)"
proof (induction "nat (n - i)" arbitrary: i rule: less_induct)
  case less
  consider "n < i" | "n = i" | "i < n" by linarith
  then show ?case
  proof cases
    case 3
    then have "resume (mk i n) = Some (to_small_small mk (i + 1) n)"
      using less.prems by (simp add: assms resume_to_small_small_def to_small_small_def Let_def)
    moreover have "run_out resume (to_small_small mk (i + 1) n) = Some ([i + 1..n], None)" using 3 less.prems by (intro less.hyps) auto
    ultimately show ?thesis using 3 run_out_more[of resume "mk i n"] by (simp add: to_small_small_def upto_rec1)
  qed (simp_all add: to_small_small_def upto_rec1)
qed


section \<open>What find generates\<close>

definition gives :: "('g \<Rightarrow> ('r, 'm, 'g) reply option) \<Rightarrow> ('r, 'm, 'g) reply option \<Rightarrow> 'r list \<Rightarrow> bool" where
  "gives resume call rs \<longleftrightarrow> (\<exists>r. call = Some r \<and> run_out resume r = Some (rs, None))"

lemma everywhere: "map int (occurrences (prefix []) xs) = [1..int (length xs)]"
proof -
  have "map int (map Suc [0..<n]) = [1..int n]" for n
    by (induction n) (simp_all add: upto_rec2[of 1 "1 + int n" for n])
  then show ?thesis by (simp add: occurrences_def)
qed

lemma all_below: "length xs < 2147483648 \<Longrightarrow> filter (\<lambda>i. i \<le> no_limit) (occurrences P xs) = occurrences P xs"
  using places_lt[of _ P xs 1] unfolding places_occurrences filter_id_conv no_limit_def by fastforce

lemma find_string_gives:
  assumes "wf_str (a :: 'c str)" and "wf_str b" and "chars_of a \<noteq> []"
  shows "gives (resume_find :: 'c find_string_state \<Rightarrow> (int, string, 'c find_string_state) reply option) (find_string a b) (map int (occurrences (prefix (chars_of b)) (chars_of a)))"
proof -
  note la = wf_length[OF assms(1)] and lb = wf_length[OF assms(2)]
  note g = wf_nonempty[OF assms(1,3)]
  consider "chars_of b = []" | c where "chars_of b = [c]" | "length (chars_of b) > 1"
    by (cases "chars_of b" rule: remdups_adj.cases) auto
  then show ?thesis
  proof cases
    case 1
    then show ?thesis using la lb run_out_to_small[of resume_find ToState 1 "int (length (chars_of a))"]
      by (simp add: gives_def find_string_def everywhere)
  next
    case (2 c)
    let ?mk = "\<lambda>subject start index. FindChar \<lparr>CChar = c, CSubject = subject, CStart = start, CIndex = index\<rparr>"
    obtain bs n cs where o: "open_block (SBlocks b) = Some (bs, n, cs)" "at_text (bs, n, cs) [c]"
      using open_string[OF assms(2)] 2 by auto
    have "places (starts ((=) c)) xs k = places (prefix [c]) xs k" for xs k
      by (induction xs arbitrary: k) simp_all
    then have p: "places (starts ((=) c)) (chars_of a) (Suc 0) = occurrences (prefix (chars_of b)) (chars_of a)"
      using places_occurrences 2 by simp
    have "rest_at (SBlocks a) 0 (chars_of a)" "0 + 0 + length (chars_of a) < 2 ^ 31" using g(2) la by (auto simp: rest_at_def)
    from find_char.gives_places[OF this, where c = c] obtain r where r: "resume_scan ((=) c) (SBlocks a) 0 0 = Some r"
      "run_out resume_find (scan_reply ?mk r) = Some (map int (occurrences (prefix (chars_of b)) (chars_of a)), None :: string option)"
      using p by auto
    have "block_scan ((=) c) (SBlocks a) 0 = Some r"
      using block_resume[OF g(1), of 0 "(=) c"] r(1) la by (simp add: chars_of_def)
    then show ?thesis using o(1) at_text_step(1)[OF o(2)] lb 2 r(2) by (auto simp: gives_def find_string_def)
  next
    case 3
    obtain pc where pc: "open_block (SBlocks b) = Some pc" "at_text pc (chars_of b)" using open_string[OF assms(2)] by auto
    have "0 + length (chars_of a) < 2 ^ 31" using la by simp
    from drain_find_string[OF pc g(2) this, of no_limit] obtain r where "search_loop (SBlocks b) no_limit (SBlocks a) 0 0 = Some r"
      "run_out resume_find (found_string (SBlocks b) no_limit r) =
        Some (map int (filter (\<lambda>i. i \<le> no_limit) (places (prefix (chars_of b)) (chars_of a) (Suc 0))), None :: string option)" by blast
    moreover have "filter (\<lambda>i. i \<le> no_limit) (places (prefix (chars_of b)) (chars_of a) (Suc 0)) = occurrences (prefix (chars_of b)) (chars_of a)"
      using all_below[of "chars_of a" "prefix (chars_of b)"] la places_occurrences[of "prefix (chars_of b)" "chars_of a"] by simp
    ultimately show ?thesis using lb 3 by (auto simp: gives_def find_string_def)
  qed
qed


lemma find_start_spec:
  "good_blocks bs \<Longrightarrow> length (text_of bs) < 2 ^ 31 \<Longrightarrow> text_of bs \<noteq> [] \<Longrightarrow>
   (length (text_of bs) \<le> start \<and> find_start bs start = Some None) \<or>
   (start < length (text_of bs) \<and> (\<exists>bs' k. find_start bs start = Some (Some (bs', k)) \<and> left_at bs' k (drop start (text_of bs))))"
proof (induction bs arbitrary: start)
  case (Cons b r)
  have b: "BLen b \<noteq> 0" using Cons.prems(3) by (cases "BLen b = 0") simp_all
  then obtain c where c: "BChars b = Some c" "BLen b \<le> length c" "good_blocks r" using Cons.prems(1) by auto
  show ?case
  proof (cases "BLen b \<le> start")
    case False
    then have "left_at (b # r) start (drop start (text_of (b # r)))" using b c Cons.prems(2) by (simp add: left_at_def)
    then show ?thesis using False b c by simp
  next
    case True
    obtain b' r' where r: "r = b' # r'" using c(3) by (cases r) auto
    show ?thesis
    proof (cases "BLen b' = 0")
      case True
      then show ?thesis using \<open>BLen b \<le> start\<close> r b c by simp
    next
      case False
      then have "length (text_of r) < 2 ^ 31" "text_of r \<noteq> []" using r b c Cons.prems(2) by auto
      from Cons.IH[OF c(3) this, of "start - BLen b"] show ?thesis using \<open>BLen b \<le> start\<close> r b c False by auto
    qed
  qed
qed simp

lemma find_between_gives:
  assumes "wf_str (a :: 'c str)" and "wf_str b" and "chars_of a \<noteq> []"
  shows "gives (resume_find :: 'c find_string_state \<Rightarrow> (int, string, 'c find_string_state) reply option) (find_between a b m limit)
    (if start_of m a < 0 then []
     else map int (filter (\<lambda>i. start_of m a < int i \<and> i \<le> limit) (occurrences (prefix (chars_of b)) (chars_of a))))"
proof (cases "start_of m a < 0")
  case True
  then show ?thesis by (simp add: gives_def find_between_def Let_def)
next
  case False
  let ?P = "prefix (chars_of b)" and ?s = "nat (start_of m a)"
  note la = wf_length[OF assms(1)]
  have idx: "start_of m a < int i \<longleftrightarrow> Suc ?s \<le> i" for i using False by linarith
  have "length (text_of (SBlocks a)) < 2 ^ 31" "text_of (SBlocks a) \<noteq> []" using la assms(3) by (auto simp: chars_of_def)
  from find_start_spec[OF wf_nonempty(1)[OF assms(1,3)] this, of ?s] show ?thesis
  proof (elim disjE conjE exE)
    assume s: "length (text_of (SBlocks a)) \<le> ?s" "find_start (SBlocks a) ?s = Some None"
    have "filter (\<lambda>i. start_of m a < int i \<and> i \<le> limit) (occurrences ?P (chars_of a)) = []"
      using places_lt[of _ ?P "chars_of a" 1] s(1) unfolding filter_empty_conv idx places_occurrences chars_of_def by fastforce
    then show ?thesis using s(2) False by (simp add: gives_def find_between_def Let_def)
  next
    fix bs' k assume s: "?s < length (text_of (SBlocks a))" "find_start (SBlocks a) ?s = Some (Some (bs', k))"
      "left_at bs' k (drop ?s (text_of (SBlocks a)))"
    have at: "left_at bs' k (drop ?s (chars_of a))" and lt: "?s + length (drop ?s (chars_of a)) < 2 ^ 31"
      using s(1,3) la by (auto simp: chars_of_def)
    obtain pc where pc: "open_block (SBlocks b) = Some pc" "at_text pc (chars_of b)" using open_string[OF assms(2)] by auto
    from drain_find_string[OF pc at lt, of limit] obtain r where r: "search_loop (SBlocks b) limit bs' k ?s = Some r"
      "run_out resume_find (found_string (SBlocks b) limit r) =
        Some (map int (filter (\<lambda>i. i \<le> limit) (places ?P (drop ?s (chars_of a)) (Suc ?s))), None :: string option)" by blast
    have "filter (\<lambda>i. i \<le> limit) (places ?P (drop ?s (chars_of a)) (Suc ?s)) =
      filter (\<lambda>i. start_of m a < int i \<and> i \<le> limit) (occurrences ?P (chars_of a))"
      using places_above[of ?s "chars_of a" ?P 1] s(1) unfolding places_occurrences idx by (simp add: chars_of_def conj_commute)
    then show ?thesis using r s(2) False by (auto simp: gives_def find_between_def Let_def)
  qed
qed

section \<open>The properties\<close>

text \<open>A string as the runtime makes it: the blocks, and then one that ends it.\<close>

definition str_of :: "'c list list \<Rightarrow> 'c str" where
  "str_of css = \<lparr>SLen = length (concat css), SCount = length css,
     SBlocks = map (\<lambda>cs. \<lparr>BLen = length cs, BChars = Some cs\<rparr>) css @ [\<lparr>BLen = 0, BChars = None\<rparr>]\<rparr>"

text \<open>
  C32: On a subject that is not empty, \<open>a in b\<close> succeeds, with \<open>a\<close>, exactly if \<open>a\<close> is a substring, wherever the blocks
  of either end; \<open>begins\<close> decides prefixes; \<open>ends\<close> decides suffixes for a pattern that is not empty. With an
  empty pattern \<open>ends\<close> always runs behind the end of the subject, and \<open>in\<close> on an empty subject reads a block
  behind its end.
\<close>

theorem string_search_correct:
  assumes "wf_str a" and "wf_str b"
  shows "(chars_of b \<noteq> [] \<longrightarrow> in_string a b = Some (if sublist (chars_of a) (chars_of b) then SUCCESS a else FAILURE)) \<and>
    (chars_of b = [] \<longrightarrow> tl (SBlocks b) = [] \<longrightarrow> in_string a b = None) \<and>
    begins_string a b = Some (if prefix (chars_of b) (chars_of a) then SUCCESS a else FAILURE) \<and>
    (chars_of b \<noteq> [] \<longrightarrow> ends_string a b = Some (if suffix (chars_of b) (chars_of a) then SUCCESS a else FAILURE)) \<and>
    (chars_of b = [] \<longrightarrow> (\<forall>b \<in> set (drop (SCount a) (SBlocks a)). BLen b = 0) \<longrightarrow> ends_string a b = None)"
  using wf_length[OF assms(2)]
  by (simp add: in_string_spec[OF assms] in_string_empty(1)[OF assms(2)] begins_string_spec[OF assms] ends_string_spec[OF assms]
    ends_string_empty[OF assms(1)])

theorem string_search_correct_witness:
  "in_string (str_of [[3, 4], [2::nat]]) (str_of [[2, 3], [4, 2, 5]]) = Some (SUCCESS (str_of [[3, 4], [2]])) \<and>
   ends_string (str_of [[2, 3], [4::nat]]) (str_of []) = None"
proof -
  have wf: "wf_str (str_of [[3, 4], [2::nat]])" "wf_str (str_of [[2, 3], [4, 2, 5::nat]])" "wf_str (str_of ([] :: nat list list))"
    "wf_str (str_of [[2, 3], [4::nat]])"
    by (simp_all add: wf_str_def str_of_def)
  have c: "chars_of (str_of [[3, 4], [2::nat]]) = [3, 4, 2]" "chars_of (str_of [[2, 3], [4, 2, 5::nat]]) = [2, 3, 4, 2, 5]"
    "chars_of (str_of ([] :: nat list list)) = []" "SCount (str_of [[2, 3], [4::nat]]) = 2"
    "SBlocks (str_of [[2, 3], [4::nat]]) = [\<lparr>BLen = 2, BChars = Some [2, 3]\<rparr>, \<lparr>BLen = 1, BChars = Some [4]\<rparr>, \<lparr>BLen = 0, BChars = None\<rparr>]"
    by (simp_all add: chars_of_def str_of_def)
  have "sublist [3, 4, 2] [2, 3, 4, 2, 5::nat]" by (simp add: sublist_Cons_right)
  then show ?thesis using string_search_correct[OF wf(1,2)] string_search_correct[OF wf(4,3)] by (simp add: c)
qed

text \<open>
  C33: The generator \<open>find\<close>, resumed to its end, gives exactly the positions where the pattern occurs in a subject that is
  not empty, each once, in increasing order; with a first position it gives those from there on (zero and
  negative ones count from behind the end), with a last one as an unsigned number those up to it.
\<close>

theorem string_find_correct:
  assumes "wf_str (a :: 'c str)" and "wf_str b" and "chars_of a \<noteq> []"
  defines "P \<equiv> occurrences (prefix (chars_of b)) (chars_of a)"
  shows "gives (resume_find :: 'c find_string_state \<Rightarrow> (int, string, 'c find_string_state) reply option) (find_string a b) (map int P) \<and>
    gives (resume_find :: 'c find_string_state \<Rightarrow> (int, string, 'c find_string_state) reply option) (find_from_string a b m)
      (if start_of m a < 0 then [] else map int (filter (\<lambda>i. start_of m a < int i) P)) \<and>
    gives (resume_find :: 'c find_string_state \<Rightarrow> (int, string, 'c find_string_state) reply option) (find_limit_string a b m n)
      (if start_of m a < 0 then [] else map int (filter (\<lambda>i. start_of m a < int i \<and> i \<le> ul n) P))"
proof -
  have "\<forall>i \<in> set P. i \<le> no_limit" using all_below[of "chars_of a" "prefix (chars_of b)"] wf_length[OF assms(1)]
    unfolding P_def filter_id_conv by simp
  then have "filter (\<lambda>i. start_of m a < int i \<and> i \<le> no_limit) P = filter (\<lambda>i. start_of m a < int i) P"
    by (intro filter_cong) auto
  then show ?thesis
    using find_string_gives[OF assms(1-3)] find_between_gives[OF assms(1-3), of m no_limit] find_between_gives[OF assms(1-3), of m "ul n"]
    by (auto simp: find_from_string_def find_limit_string_def P_def)
qed

theorem string_find_correct_witness:
  "gives (resume_find :: nat find_string_state \<Rightarrow> (int, string, nat find_string_state) reply option)
     (find_string (str_of [[4, 2], [4, 2, 4]]) (str_of [[4], [2, 4]])) [1, 3] \<and>
   gives (resume_find :: nat find_string_state \<Rightarrow> (int, string, nat find_string_state) reply option)
     (find_from_string (str_of [[4, 2], [4, 2, 4]]) (str_of [[4], [2, 4]]) (- 3)) [3]"
proof -
  have wf: "wf_str (str_of [[4, 2], [4, 2, 4::nat]])" "wf_str (str_of [[4], [2, 4::nat]])"
    by (simp_all add: wf_str_def str_of_def)
  have c: "chars_of (str_of [[4, 2], [4, 2, 4::nat]]) = [4, 2, 4, 2, 4]" "chars_of (str_of [[4], [2, 4::nat]]) = [4, 2, 4]"
    by (simp_all add: chars_of_def str_of_def)
  have p: "occurrences (prefix [4, 2, 4]) [4, 2, 4, 2, 4::nat] = [1, 3]" by (simp add: occurrences_def upt_rec)
  have s: "start_of (- 3) (str_of [[4, 2], [4, 2, 4::nat]]) = 2" by (simp add: start_of_def str_of_def)
  show ?thesis using string_find_correct[OF wf, of "- 3"] by (simp add: c p s)
qed

end
