(* ===== verification/StringSets.thy ===== *)
theory StringSets
  imports StringSearch
begin

text \<open>
  Sets of characters in strings (\<^verbatim>\<open>dev/src/lib/Std/Methods2.c\<close>): the 256-bit masks, and the generators \<^verbatim>\<open>any\<close> and
  \<^verbatim>\<open>skip\<close> of the positions of characters in a set or outside it.
\<close>

unbundle bit_operations_syntax

section \<open>Masks\<close>

text \<open>\<^verbatim>\<open>uint8_t Mask[32]\<close>; a byte divided by 8 is always an index of it.\<close>

type_synonym mask = "byte list"

definition zero_mask :: mask where
  "zero_mask = replicate 32 0"

text \<open>\<^verbatim>\<open>Mask[Char >> 3] |= 1 << (Char & 7)\<close>\<close>

definition mask_add :: "byte \<Rightarrow> mask \<Rightarrow> mask" where
  "mask_add c m = (let i = unat (drop_bit 3 c) in m[i := m ! i OR push_bit (unat (c AND 7)) 1])"

text \<open>\<^verbatim>\<open>CSet[Char >> 3] & (1 << (Char & 7))\<close>, as a truth value\<close>

definition charcset :: "byte \<Rightarrow> mask \<Rightarrow> bool" where
  "charcset c m \<longleftrightarrow> m ! unat (drop_bit 3 c) AND push_bit (unat (c AND 7)) 1 \<noteq> 0"

fun mask_blocks :: "byte block list \<Rightarrow> mask \<Rightarrow> mask option" where
  "mask_blocks [] m = None"
| "mask_blocks (b # r) m =
     (if BLen b = 0 then Some m
      else do {
        cs \<leftarrow> BChars b;
        if length cs < BLen b then None else mask_blocks r (fold mask_add (take (BLen b) cs) m) })"

definition mask_of :: "byte str \<Rightarrow> mask option" where
  "mask_of s = mask_blocks (SBlocks s) zero_mask"

section \<open>The generators\<close>

text \<open>The structures \<^verbatim>\<open>any_char_generator\<close> and \<^verbatim>\<open>skip_char_generator\<close>; their field \<^verbatim>\<open>Limit\<close> is not used.\<close>

record char_generator =
  GMask :: mask
  GSubject :: "byte block list"
  GStart :: nat
  GIndex :: nat

datatype set_state = SetRange int int | SetChars char_generator

definition set_state_at :: "mask \<Rightarrow> byte block list \<Rightarrow> nat \<Rightarrow> nat \<Rightarrow> set_state" where
  "set_state_at m subject start index = SetChars \<lparr>GMask = m, GSubject = subject, GStart = start, GIndex = index\<rparr>"

definition findcset :: "mask \<Rightarrow> byte \<Rightarrow> bool" where
  "findcset m c \<longleftrightarrow> charcset c m"

definition skipcset :: "mask \<Rightarrow> byte \<Rightarrow> bool" where
  "skipcset m c \<longleftrightarrow> \<not> charcset c m"

fun resume_any :: "set_state \<Rightarrow> (int, string, set_state) reply option" where
  "resume_any (SetRange i n) = Some (resume_to_small_small SetRange i n)"
| "resume_any (SetChars g) = do {
     r \<leftarrow> resume_scan (findcset (GMask g)) (GSubject g) (GIndex g) (GStart g);
     Some (scan_reply (\<lambda>subject start index.
       SetChars (g\<lparr>GIndex := index, GStart := start, GSubject := subject\<rparr>)) r) }"

fun resume_skip :: "set_state \<Rightarrow> (int, string, set_state) reply option" where
  "resume_skip (SetRange i n) = Some (resume_to_small_small SetRange i n)"
| "resume_skip (SetChars g) = do {
     r \<leftarrow> resume_scan (skipcset (GMask g)) (GSubject g) (GIndex g) (GStart g);
     Some (scan_reply (\<lambda>subject start index.
       SetChars (g\<lparr>GIndex := index, GStart := start, GSubject := subject\<rparr>)) r) }"

definition any_string :: "byte str \<Rightarrow> byte str \<Rightarrow> (int, string, set_state) reply option" where
  "any_string a chars =
     (if SLen a = 0 then Some FAILURE
      else if SLen chars = 0 then Some (to_small_small SetRange 1 (int (SLen a)))
      else do {
        m \<leftarrow> mask_of chars;
        r \<leftarrow> block_scan (findcset m) (SBlocks a) 0;
        Some (scan_reply (set_state_at m) r) })"

definition skip_string :: "byte str \<Rightarrow> byte str \<Rightarrow> (int, string, set_state) reply option" where
  "skip_string a chars =
     (if SLen chars = 0 then Some (to_small_small SetRange 1 (int (SLen a)))
      else do {
        m \<leftarrow> mask_of chars;
        r \<leftarrow> block_scan (skipcset m) (SBlocks a) 0;
        Some (scan_reply (set_state_at m) r) })"

text \<open>
  The forms with a first position: \<^verbatim>\<open>while (Start >= Subject->Length.Value)\<close>, and then the search, which starts inside
  a block.
\<close>

fun seek_block :: "byte block list \<Rightarrow> nat \<Rightarrow> nat \<Rightarrow> (byte block list \<times> nat \<times> nat) option" where
  "seek_block [] index start = None"
| "seek_block (b # r) index start =
     (if BLen b \<le> start then seek_block r (u32 (index + BLen b)) (start - BLen b) else Some (b # r, index, start))"

definition offset_scan ::
  "(byte \<Rightarrow> bool) \<Rightarrow> byte block list \<Rightarrow> nat \<Rightarrow> nat \<Rightarrow> (nat \<times> byte block list \<times> nat) option option" where
  "offset_scan test bs index start =
     (case bs of
        [] \<Rightarrow> None
      | b # r \<Rightarrow>
          if BLen b = 0 then Some None
          else do {
            cs \<leftarrow> BChars b;
            p \<leftarrow> scan_chars test (drop start cs) (sub32 (BLen b) start);
            case p of
              Some k \<Rightarrow> Some (Some (u32 (start + k + 1), b # r, index))
            | None \<Rightarrow> block_scan test r (u32 (index + BLen b)) })"

definition set_from ::
  "(mask \<Rightarrow> byte \<Rightarrow> bool) \<Rightarrow> byte str \<Rightarrow> byte str \<Rightarrow> int \<Rightarrow> (int, string, set_state) reply option" where
  "set_from test a chars m =
     (let start = start_of m a in
      if start < 0 then Some FAILURE
      else if int (SLen a) \<le> start then Some FAILURE
      else if SLen chars = 0 then Some (to_small_small SetRange 1 (int (SLen a)))
      else do {
        mask \<leftarrow> mask_of chars;
        (subject, index, start) \<leftarrow> seek_block (SBlocks a) 0 (nat start);
        r \<leftarrow> offset_scan (test mask) subject index start;
        Some (scan_reply (set_state_at mask) r) })"

definition any_from_string :: "byte str \<Rightarrow> byte str \<Rightarrow> int \<Rightarrow> (int, string, set_state) reply option" where
  "any_from_string = set_from findcset"

definition skip_from_string :: "byte str \<Rightarrow> byte str \<Rightarrow> int \<Rightarrow> (int, string, set_state) reply option" where
  "skip_from_string = set_from skipcset"

section \<open>What a mask contains\<close>

lemma byte_parts: "unat (drop_bit 3 (c :: byte)) = unat c div 8" "unat (c AND 7) = unat c mod 8"
proof -
  show "unat (drop_bit 3 (c :: byte)) = unat c div 8" by (simp add: drop_bit_eq_div unat_div)
  have "c AND 7 = c mod 8" using take_bit_eq_mask[of 3 c] by (simp add: mask_eq_exp_minus_1 take_bit_eq_mod)
  then show "unat (c AND 7) = unat c mod 8" by (simp add: unat_mod)
qed

lemma byte_split: "unat c div 8 = unat d div 8 \<and> unat c mod 8 = unat d mod 8 \<longleftrightarrow> c = (d :: byte)"
  by (metis div_mult_mod_eq word_unat_eq_iff)

lemma charcset_bit: "charcset c m \<longleftrightarrow> bit (m ! (unat c div 8)) (unat c mod 8)"
proof -
  have "(w AND push_bit n 1 \<noteq> 0) = bit w n" for w :: byte and n
    by (simp add: push_bit_of_1 and_exp_eq_0_iff_not_bit)
  then show ?thesis by (simp add: charcset_def byte_parts)
qed

lemma charcset_add:
  assumes "length m = 32"
  shows "charcset c (mask_add d m) \<longleftrightarrow> c = d \<or> charcset c m"
proof -
  have "unat d div 8 < 32" using unsigned_less[of d, where ?'a = nat] by simp
  moreover have "bit (1 :: byte) n = (n = 0)" for n by (simp add: bit_1_iff)
  ultimately show ?thesis using assms byte_split[of c d]
    by (auto simp: charcset_bit mask_add_def byte_parts nth_list_update Let_def bit_simps)
qed

lemma length_mask_add [simp]: "length (mask_add c m) = length m"
  by (simp add: mask_add_def Let_def)

lemma charcset_fold: "length m = 32 \<Longrightarrow> charcset c (fold mask_add cs m) \<longleftrightarrow> c \<in> set cs \<or> charcset c m"
  by (induction cs arbitrary: m) (auto simp: charcset_add)

lemma mask_blocks_spec: "good_blocks bs \<Longrightarrow> mask_blocks bs m = Some (fold mask_add (text_of bs) m)"
  by (induction bs arbitrary: m) auto

lemma length_zero: "length zero_mask = 32"
  by (simp add: zero_mask_def)

lemma charcset_zero: "\<not> charcset c zero_mask"
proof -
  have "unat c div 8 < 32" using unsigned_less[of c, where ?'a = nat] by simp
  then show ?thesis by (simp add: charcset_bit zero_mask_def)
qed

lemma mask_of_spec:
  assumes "wf_str s" and "chars_of s \<noteq> []"
  shows "\<exists>m. mask_of s = Some m \<and> (\<forall>c. charcset c m \<longleftrightarrow> c \<in> set (chars_of s))"
  using wf_nonempty(1)[OF assms]
  by (simp add: mask_of_def mask_blocks_spec charcset_fold charcset_zero chars_of_def length_zero)


section \<open>What any and skip generate\<close>

interpretation any_char: position_generator "findcset m" "set_state_at m" resume_any for m
  by unfold_locales (simp add: set_state_at_def bind_option_map scan_reply_def[abs_def])

interpretation skip_char: position_generator "skipcset m" "set_state_at m" resume_skip for m
  by unfold_locales (simp add: set_state_at_def bind_option_map scan_reply_def[abs_def])

text \<open>The search from a place in a subject, for both generators.\<close>

definition drains ::
  "(set_state \<Rightarrow> (int, string, set_state) reply option) \<Rightarrow> mask \<Rightarrow> (byte \<Rightarrow> bool) \<Rightarrow> bool" where
  "drains resume m test \<longleftrightarrow> (\<forall>bs start xs index. rest_at bs start xs \<longrightarrow> index + start + length xs < 2 ^ 31 \<longrightarrow>
     (\<exists>r. resume_scan test bs index start = Some r \<and>
       run_out resume (scan_reply (set_state_at m) r) = Some (map int (places (starts test) xs (Suc (index + start))), None)))"

lemma drains_any: "drains resume_any m (findcset m)"
  using any_char.gives_places unfolding drains_def by blast

lemma drains_skip: "drains resume_skip m (skipcset m)"
  using skip_char.gives_places unfolding drains_def by blast

lemma set_scan_gives:
  assumes "drains resume m test" and "wf_str a" and "chars_of a \<noteq> []"
  shows "\<exists>r. block_scan test (SBlocks a) 0 = Some r \<and>
    run_out resume (scan_reply (set_state_at m) r) = Some (map int (occurrences (starts test) (chars_of a)), None)"
proof -
  note la = wf_length[OF assms(2)] and g = wf_nonempty[OF assms(2,3)]
  have "rest_at (SBlocks a) 0 (chars_of a)" "0 + 0 + length (chars_of a) < 2 ^ 31" using g(2) la by (auto simp: rest_at_def)
  then obtain r where r: "resume_scan test (SBlocks a) 0 0 = Some r"
    "run_out resume (scan_reply (set_state_at m) r) = Some (map int (places (starts test) (chars_of a) (Suc (0 + 0))), None)"
    using assms(1) unfolding drains_def by blast
  have "block_scan test (SBlocks a) 0 = resume_scan test (SBlocks a) 0 0"
    using la g(1) by (intro block_resume) (auto simp: chars_of_def)
  then show ?thesis using r places_occurrences[of "starts test" "chars_of a"] by simp
qed

lemma seek_block_spec:
  "good_blocks bs \<Longrightarrow> start < length (text_of bs) \<Longrightarrow> index + length (text_of bs) < 2 ^ 31 \<Longrightarrow>
   \<exists>bs' index' k. seek_block bs index start = Some (bs', index', k) \<and> good_blocks bs' \<and> left_at bs' k (drop start (text_of bs)) \<and>
     k < BLen (hd bs') \<and> index' + k = index + start"
proof (induction bs index start rule: seek_block.induct)
  case (2 b r index start)
  have b: "BLen b \<noteq> 0" using 2(3) by (cases "BLen b = 0") simp_all
  then obtain c where c: "BChars b = Some c" "BLen b \<le> length c" "good_blocks r" using 2(2) by auto
  show ?case
  proof (cases "BLen b \<le> start")
    case True
    have "start - BLen b < length (text_of r)" "u32 (index + BLen b) + length (text_of r) < 2 ^ 31" "u32 (index + BLen b) = index + BLen b"
      using True 2(3,4) b c by auto
    then show ?thesis using 2(1)[OF True c(3)] True b c by auto
  next
    case False
    then show ?thesis using 2(2,4) b c by (auto simp: left_at_def)
  qed
qed simp

lemma offset_resume:
  assumes "left_at bs start xs" and "start < BLen (hd bs)" and "index + start + length xs < 2 ^ 31"
  shows "offset_scan test bs index start = resume_scan test bs index start"
proof -
  obtain b r c where b: "bs = b # r" "BLen b \<noteq> 0" "BLen b < 2 ^ 32" "BChars b = Some c" "BLen b \<le> length c" "good_blocks r"
    "start \<le> BLen b" "xs = drop start (take (BLen b) c) @ text_of r"
    using assms(1) by (auto simp: left_at_def)
  have i: "u32 (index + BLen b) = index + BLen b" using assms(3) b by simp
  have "block_scan test r (index + BLen b) = resume_scan test r (index + BLen b) 0"
    using b assms(3) by (intro block_resume) auto
  then show ?thesis using b i by (simp add: offset_scan_def cong: option.case_cong)
qed

lemma set_from_gives:
  assumes "\<And>m. drains resume m (test m)" and "wf_str a" and "wf_str chars" and "chars_of chars \<noteq> []"
    and "\<And>m. mask_of chars = Some m \<Longrightarrow> test m = P"
  shows "gives resume (set_from test a chars m)
    (if start_of m a < 0 then [] else map int (filter (\<lambda>i. start_of m a < int i) (occurrences (starts P) (chars_of a))))"
proof -
  let ?s = "nat (start_of m a)"
  note la = wf_length[OF assms(2)] and lc = wf_length[OF assms(3)]
  consider "start_of m a < 0" | "\<not> start_of m a < 0" "length (chars_of a) \<le> ?s" | "\<not> start_of m a < 0" "?s < length (chars_of a)"
    by linarith
  then show ?thesis
  proof cases
    case 1
    then show ?thesis by (simp add: gives_def set_from_def Let_def)
  next
    case 2
    then have "int (SLen a) \<le> start_of m a" using la by linarith
    moreover have "filter (\<lambda>i. start_of m a < int i) (occurrences (starts P) (chars_of a)) = []"
      using places_lt[of _ "starts P" "chars_of a" 1] 2 unfolding filter_empty_conv places_occurrences by fastforce
    ultimately show ?thesis using 2(1) by (simp add: gives_def set_from_def Let_def)
  next
    case 3
    then have lt: "\<not> int (SLen a) \<le> start_of m a" using la by linarith
    have idx: "start_of m a < int i \<longleftrightarrow> Suc ?s \<le> i" for i using 3(1) by linarith
    have ne: "chars_of a \<noteq> []" using 3(2) by auto
    note g = wf_nonempty[OF assms(2) ne]
    obtain mk where mk: "mask_of chars = Some mk" using mask_of_spec[OF assms(3,4)] by blast
    have "0 + length (text_of (SBlocks a)) < 2 ^ 31" "?s < length (text_of (SBlocks a))" using la 3(2) by (auto simp: chars_of_def)
    from seek_block_spec[OF g(1) this(2,1)] obtain bs' index' k where s: "seek_block (SBlocks a) 0 ?s = Some (bs', index', k)"
      "good_blocks bs'" "left_at bs' k (drop ?s (chars_of a))" "k < BLen (hd bs')" "index' + k = ?s" by (auto simp: chars_of_def)
    have len: "index' + k + length (drop ?s (chars_of a)) < 2 ^ 31" using s(5) la 3(2) by simp
    obtain r where r: "resume_scan P bs' index' k = Some r"
      "run_out resume (scan_reply (set_state_at mk) r) =
        Some (map int (places (starts P) (drop ?s (chars_of a)) (Suc (index' + k))), None)"
      using assms(1)[of mk] s(3) len unfolding drains_def assms(5)[OF mk] rest_at_def by blast
    from offset_resume[OF s(3,4) len, of P] have o: "offset_scan P bs' index' k = Some r" using r(1) by simp
    have "places (starts P) (drop ?s (chars_of a)) (Suc ?s) = filter (\<lambda>i. start_of m a < int i) (occurrences (starts P) (chars_of a))"
      using places_above[of ?s "chars_of a" "starts P" 1] 3(2) unfolding places_occurrences idx by simp
    then show ?thesis using 3(1) lt lc assms(4) mk s(1,5) o r(2) assms(5)[OF mk] by (simp add: gives_def set_from_def Let_def)
  qed
qed

text \<open>
  C34: On a string that is not empty, the generators \<open>any\<close> and \<open>skip\<close>, resumed to their ends, give exactly the positions of
  characters in, or outside, a set that is not empty, each once, in order; with a first position those from that position itself on. With an empty set
  they give every position of a string that is not empty, and from a first position inside the string
  they then ignore that position.
\<close>

theorem string_sets_correct:
  assumes "wf_str a" and "wf_str chars" and "chars_of a \<noteq> []"
  defines "In \<equiv> occurrences (starts (\<lambda>c. c \<in> set (chars_of chars))) (chars_of a)"
    and "Out \<equiv> occurrences (starts (\<lambda>c. c \<notin> set (chars_of chars))) (chars_of a)"
  shows "(if chars_of chars = [] then
      gives resume_any (any_string a chars) [1..int (length (chars_of a))] \<and>
      gives resume_skip (skip_string a chars) [1..int (length (chars_of a))] \<and>
      (0 \<le> start_of m a \<longrightarrow> start_of m a < int (length (chars_of a)) \<longrightarrow>
        gives resume_any (any_from_string a chars m) [1..int (length (chars_of a))] \<and>
        gives resume_skip (skip_from_string a chars m) [1..int (length (chars_of a))])
    else
      gives resume_any (any_string a chars) (map int In) \<and>
      gives resume_skip (skip_string a chars) (map int Out) \<and>
      gives resume_any (any_from_string a chars m) (if start_of m a < 0 then [] else map int (filter (\<lambda>i. start_of m a < int i) In)) \<and>
      gives resume_skip (skip_from_string a chars m) (if start_of m a < 0 then [] else map int (filter (\<lambda>i. start_of m a < int i) Out)))"
proof (cases "chars_of chars = []")
  case True
  note la = wf_length[OF assms(1)] and lc = wf_length[OF assms(2)]
  have r: "run_out resume_any (to_small_small SetRange 1 (int (length (chars_of a)))) = Some ([1..int (length (chars_of a))], None)"
    "run_out resume_skip (to_small_small SetRange 1 (int (length (chars_of a)))) = Some ([1..int (length (chars_of a))], None)"
    using la by (simp_all add: run_out_to_small)
  show ?thesis using True la lc r assms(3)
    by (simp add: gives_def any_string_def skip_string_def any_from_string_def skip_from_string_def set_from_def Let_def)
next
  case False
  note la = wf_length[OF assms(1)] and lc = wf_length[OF assms(2)]
  obtain m0 where m0: "mask_of chars = Some m0" "\<forall>c. charcset c m0 \<longleftrightarrow> c \<in> set (chars_of chars)"
    using mask_of_spec[OF assms(2) False] by blast
  then have t: "findcset m0 = (\<lambda>c. c \<in> set (chars_of chars))" "skipcset m0 = (\<lambda>c. c \<notin> set (chars_of chars))"
    by (auto simp: findcset_def skipcset_def)
  have all: "mask_of chars = Some m \<Longrightarrow> findcset m = (\<lambda>c. c \<in> set (chars_of chars))"
    "mask_of chars = Some m \<Longrightarrow> skipcset m = (\<lambda>c. c \<notin> set (chars_of chars))" for m
    using m0(1) t by auto
  show ?thesis
    using False la lc m0(1) set_scan_gives[OF drains_any[of m0] assms(1,3)] set_scan_gives[OF drains_skip[of m0] assms(1,3)]
      set_from_gives[OF drains_any assms(1,2) False all(1), of m] set_from_gives[OF drains_skip assms(1,2) False all(2), of m] assms(3)
    by (auto simp: gives_def any_string_def skip_string_def any_from_string_def skip_from_string_def t In_def Out_def)
qed

theorem string_sets_correct_witness:
  "gives resume_any (any_string (str_of [[104, 97], [108, 108, 111]]) (str_of [[111], [97]])) [2, 5] \<and>
   gives resume_skip (skip_from_string (str_of [[104, 97], [108, 108, 111]]) (str_of [[111], [97]]) 2) [3, 4]"
proof -
  have wf: "wf_str (str_of [[104, 97], [108, 108, 111 :: byte]])" "wf_str (str_of [[111], [97 :: byte]])"
    by (simp_all add: wf_str_def str_of_def)
  have c: "chars_of (str_of [[104, 97], [108, 108, 111 :: byte]]) = [104, 97, 108, 108, 111]" "chars_of (str_of [[111], [97 :: byte]]) = [111, 97]"
    by (simp_all add: chars_of_def str_of_def)
  have p: "occurrences (starts (\<lambda>c. c \<in> set [111, 97])) [104, 97, 108, 108, 111 :: byte] = [2, 5]"
    "occurrences (starts (\<lambda>c. c \<notin> set [111, 97])) [104, 97, 108, 108, 111 :: byte] = [1, 3, 4]"
    by (simp_all add: occurrences_def upt_rec)
  have s: "start_of 2 (str_of [[104, 97], [108, 108, 111 :: byte]]) = 1" by (simp add: start_of_def str_of_def)
  show ?thesis using string_sets_correct[OF wf, of 2] unfolding c p s by simp
qed

end
