(* ===== verification/StringMake.thy ===== *)
theory StringMake
  imports StringSearch
begin

text \<open>
  Methods of \<^verbatim>\<open>dev/src/lib/Std/Methods2.c\<close> that make a string: \<^verbatim>\<open>lower\<close>, \<^verbatim>\<open>upper\<close>, \<^verbatim>\<open>map\<close> with two strings,
  \<^verbatim>\<open>reverse\<close> and \<^verbatim>\<open>centre\<close>. They never change a string: each makes new blocks of characters.
\<close>

section \<open>Replacing characters\<close>

text \<open>
  The loop that ends \<^verbatim>\<open>lower\<close>, \<^verbatim>\<open>upper\<close> and \<^verbatim>\<open>map\<close>: \<^verbatim>\<open>Count + 1\<close> blocks are copied, and the characters of the
  first \<^verbatim>\<open>Count\<close> are replaced by their images in a table of 256 bytes.
\<close>

fun recode_blocks :: "byte list \<Rightarrow> nat \<Rightarrow> byte block list \<Rightarrow> byte block list option" where
  "recode_blocks table n [] = None"
| "recode_blocks table 0 (b # r) = Some [b]"
| "recode_blocks table (Suc n) (b # r) = do {
     cs \<leftarrow> read_chars b;
     r \<leftarrow> recode_blocks table n r;
     Some (b\<lparr>BChars := Some (map (\<lambda>c. table ! unat c) cs)\<rparr> # r) }"

definition recode :: "byte list \<Rightarrow> byte str \<Rightarrow> (byte str, string, unit) reply option" where
  "recode table s = do {
     bs \<leftarrow> recode_blocks table (SCount s) (SBlocks s);
     Some (SUCCESS (s\<lparr>SBlocks := bs\<rparr>)) }"

text \<open>The tables written out in the code.\<close>

definition lower_table :: "byte list" where
  "lower_table = map of_nat ([0..<65] @ [97..<123] @ [91..<256])"

definition upper_table :: "byte list" where
  "upper_table = map of_nat ([0..<97] @ [65..<91] @ [123..<256])"

definition lower_string :: "byte str \<Rightarrow> (byte str, string, unit) reply option" where
  "lower_string s = (if SLen s = 0 then Some (SUCCESS s) else recode lower_table s)"

definition upper_string :: "byte str \<Rightarrow> (byte str, string, unit) reply option" where
  "upper_string s = (if SLen s = 0 then Some (SUCCESS s) else recode upper_table s)"

text \<open>
  The table of \<^verbatim>\<open>map\<close>: the loop that fills it stops before index 255, whose byte is what the stack held (\<open>junk\<close>).
  The replacements are read along their own blocks: \<open>(tb, k)\<close> are \<^verbatim>\<open>ToBlock\<close> and \<^verbatim>\<open>K\<close>.
\<close>

definition initial_table :: "byte \<Rightarrow> byte list" where
  "initial_table junk = map of_nat [0..<255] @ [junk]"

fun map_chars :: "byte list \<Rightarrow> byte block list \<Rightarrow> nat \<Rightarrow> byte list \<Rightarrow> (byte block list \<times> nat \<times> byte list) option" where
  "map_chars [] tb k table = Some (tb, k, table)"
| "map_chars (c # cs) tb k table = do {
     (b, r) \<leftarrow> (case tb of [] \<Rightarrow> None | b # r \<Rightarrow> Some (b, r));
     x \<leftarrow> peek (map_option (drop k) (BChars b));
     let table = table[unat c := x];
     let k = k + 1;
     if BLen b \<le> k then (if r = [] then None else map_chars cs r 0 table)
     else map_chars cs tb k table }"

fun map_blocks :: "byte block list \<Rightarrow> byte block list \<Rightarrow> nat \<Rightarrow> byte list \<Rightarrow> byte list option" where
  "map_blocks [] tb k table = None"
| "map_blocks (b # r) tb k table =
     (if BLen b = 0 then Some table
      else do {
        cs \<leftarrow> read_chars b;
        (tb, k, table) \<leftarrow> map_chars cs tb k table;
        map_blocks r tb k table })"

definition map_string :: "byte \<Rightarrow> byte str \<Rightarrow> byte str \<Rightarrow> byte str \<Rightarrow> (byte str, string, unit) reply option" where
  "map_string junk s old new =
     (if SLen s = 0 then Some (SUCCESS s)
      else if SLen old \<noteq> SLen new then Some (MESSAGE ''Operands to :map must have same length'')
      else if SBlocks new = [] then None
      else do {
        table \<leftarrow> map_blocks (SBlocks old) (SBlocks new) 0 (initial_table junk);
        recode table s })"

section \<open>reverse and centre\<close>

text \<open>The new block at \<^verbatim>\<open>I\<close> comes from the old one at \<^verbatim>\<open>BlockCount - 1 - I\<close>, the last of those still to do.\<close>

fun reverse_blocks :: "byte block list \<Rightarrow> nat \<Rightarrow> byte block list option" where
  "reverse_blocks bs 0 = Some []"
| "reverse_blocks bs (Suc n) =
     (if n < length bs then do {
        cs \<leftarrow> read_chars (bs ! n);
        r \<leftarrow> reverse_blocks bs n;
        Some (\<lparr>BLen = length cs, BChars = Some (rev cs @ [0])\<rparr> # r) }
      else None)"

definition reverse_string :: "byte str \<Rightarrow> (byte str, string, unit) reply option" where
  "reverse_string s = do {
     bs \<leftarrow> reverse_blocks (SBlocks s) (SCount s);
     Some (SUCCESS (alloc_with bs (SLen s))) }"

definition pad_block :: "nat \<Rightarrow> byte \<Rightarrow> byte block" where
  "pad_block n c = \<lparr>BLen = n, BChars = Some (replicate n c @ [0])\<rparr>"

definition centre_with :: "byte str \<Rightarrow> int \<Rightarrow> byte \<Rightarrow> (byte str, string, unit) reply option" where
  "centre_with s target pad =
     (let padding = s32 (target - int (SLen s)) in
      if padding \<le> 0 then Some (SUCCESS s)
      else if length (SBlocks s) < SCount s then None
      else
        (let left = nat (padding div 2); right = nat padding - left in
         Some (SUCCESS (alloc_with
           (pad_block left pad # take (SCount s) (SBlocks s) @ [pad_block right pad]) (nat target)))))"

definition centre_string :: "byte str \<Rightarrow> int \<Rightarrow> (byte str, string, unit) reply option" where
  "centre_string s target = centre_with s target 32"

definition centre_pad_string :: "byte str \<Rightarrow> int \<Rightarrow> byte str \<Rightarrow> (byte str, string, unit) reply option" where
  "centre_pad_string s target pad =
     (if SLen pad = 0 then Some (SUCCESS s)
      else do {
        (_, _, cs) \<leftarrow> open_block (SBlocks pad);
        c \<leftarrow> peek cs;
        centre_with s target c })"


section \<open>What they do\<close>

lemma recode_blocks_spec:
  "good_blocks bs \<Longrightarrow> \<exists>bs'. recode_blocks table (used_blocks bs) bs = Some bs' \<and> good_blocks bs' \<and>
     used_blocks bs' = used_blocks bs \<and> text_of bs' = map (\<lambda>c. table ! unat c) (text_of bs)"
proof (induction bs)
  case (Cons b bs)
  then show ?case by (cases "BLen b = 0") (auto simp: read_chars_def)
qed simp

lemma recode_spec:
  assumes "wf_str s" and "chars_of s \<noteq> []"
  shows "\<exists>s'. recode table s = Some (SUCCESS s') \<and> wf_str s' \<and> chars_of s' = map (\<lambda>c. table ! unat c) (chars_of s)"
proof -
  from recode_blocks_spec[OF wf_nonempty(1)[OF assms], of table] obtain bs where
    "recode_blocks table (used_blocks (SBlocks s)) (SBlocks s) = Some bs" "good_blocks bs"
    "used_blocks bs = used_blocks (SBlocks s)" "text_of bs = map (\<lambda>c. table ! unat c) (text_of (SBlocks s))" by blast
  then show ?thesis using assms(1) by (simp add: recode_def wf_str_def chars_of_def)
qed

text \<open>The two tables change the letters of the other case only.\<close>

definition to_lower :: "byte \<Rightarrow> byte" where
  "to_lower c = (if 65 \<le> c \<and> c \<le> 90 then c + 32 else c)"

definition to_upper :: "byte \<Rightarrow> byte" where
  "to_upper c = (if 97 \<le> c \<and> c \<le> 122 then c - 32 else c)"

lemma byte_less: "unat (c :: byte) < 256"
  using unsigned_less[of c, where ?'a = nat] by simp

lemma lower_nth: "lower_table ! unat c = to_lower c"
proof -
  have u: "65 \<le> c \<and> c \<le> 90 \<longleftrightarrow> 65 \<le> unat c \<and> unat c \<le> 90" by (simp add: word_le_nat_alt)
  have "lower_table ! n = of_nat (if 65 \<le> n \<and> n \<le> 90 then n + 32 else n)" if "n < 256" for n
    using that by (auto simp: lower_table_def nth_append simp del: upt_rec_numeral)
  from this[OF byte_less[of c]] show ?thesis by (simp add: to_lower_def u)
qed

lemma upper_nth: "upper_table ! unat c = to_upper c"
proof -
  have u: "97 \<le> c \<and> c \<le> 122 \<longleftrightarrow> 97 \<le> unat c \<and> unat c \<le> 122" by (simp add: word_le_nat_alt)
  have "upper_table ! n = of_nat (if 97 \<le> n \<and> n \<le> 122 then n - 32 else n)" if "n < 256" for n
    using that by (auto simp: upper_table_def nth_append of_nat_diff simp del: upt_rec_numeral)
  from this[OF byte_less[of c]] show ?thesis by (auto simp: to_upper_def u of_nat_diff)
qed

subsection \<open>map\<close>

definition write_pairs :: "(byte \<times> byte) list \<Rightarrow> byte list \<Rightarrow> byte list" where
  "write_pairs ps table = fold (\<lambda>(c, x) t. t[unat c := x]) ps table"

lemma write_pairs_nth:
  "length table = 256 \<Longrightarrow> write_pairs ps table ! unat c = (case map_of (rev ps) c of Some x \<Rightarrow> x | None \<Rightarrow> table ! unat c)"
proof (induction ps arbitrary: table)
  case (Cons p ps)
  then show ?case using byte_less[of "fst p"]
    by (cases p) (auto simp: write_pairs_def map_add_def nth_list_update word_unat_eq_iff split: option.split)
qed (simp add: write_pairs_def)

definition to_at :: "byte block list \<Rightarrow> nat \<Rightarrow> byte list \<Rightarrow> bool" where
  "to_at tb k ys \<longleftrightarrow> (\<exists>b r. tb = b # r \<and>
     (if BLen b = 0 then ys = []
      else full_block b \<and> good_blocks r \<and> k < BLen b \<and> ys = drop k (take (BLen b) (the (BChars b))) @ text_of r))"

lemma to_at_start: "good_blocks bs \<Longrightarrow> to_at bs 0 (text_of bs)"
  by (cases bs) (auto simp: to_at_def full_block_def)

lemma map_chars_spec:
  "to_at tb k ys \<Longrightarrow> length cs \<le> length ys \<Longrightarrow>
   \<exists>tb' k'. map_chars cs tb k table = Some (tb', k', write_pairs (zip cs ys) table) \<and> to_at tb' k' (drop (length cs) ys)"
proof (induction cs arbitrary: tb k ys table)
  case Nil
  then show ?case by (simp add: write_pairs_def)
next
  case (Cons c cs)
  then obtain y ys' where ys: "ys = y # ys'" by (cases ys) auto
  then obtain b r cb where b: "tb = b # r" "BLen b \<noteq> 0" "BChars b = Some cb" "BLen b \<le> length cb" "good_blocks r" "k < BLen b"
    "y # ys' = drop k (take (BLen b) cb) @ text_of r"
    using Cons.prems(1) by (auto simp: to_at_def full_block_def split: if_splits)
  have d: "drop k (take (BLen b) cb) = cb ! k # drop (Suc k) (take (BLen b) cb)"
    using b(4,6) Cons_nth_drop_Suc[of k "take (BLen b) cb"] by simp
  have y: "y = cb ! k" and ys': "ys' = drop (Suc k) (take (BLen b) cb) @ text_of r" using b(7) d by auto
  have pk: "peek (Some (drop k cb)) = Some y"
    using b(4,6) y Cons_nth_drop_Suc[of k cb, symmetric] by (simp add: peek_def)
  have len: "length cs \<le> length ys'" using Cons.prems(2) ys by simp
  show ?case
  proof (cases "BLen b \<le> Suc k")
    case True
    then have "to_at r 0 ys'" using to_at_start[OF b(5)] ys' by simp
    from Cons.IH[OF this len, of "table[unat c := y]"] show ?thesis
      using True b(1-6) pk ys good_text_nonempty[OF b(5)] by (simp add: write_pairs_def)
  next
    case False
    then have "to_at tb (Suc k) ys'" using b ys' by (simp add: to_at_def full_block_def)
    from Cons.IH[OF this len, of "table[unat c := y]"] show ?thesis using False b(1-6) pk ys by (simp add: write_pairs_def)
  qed
qed

lemma write_pairs_append: "write_pairs (ps @ qs) table = write_pairs qs (write_pairs ps table)"
  by (simp add: write_pairs_def)

lemma zip_take_length: "zip xs (take (length xs) ys) = zip xs ys"
  by (induction xs ys rule: list_induct2') auto

lemma map_blocks_spec:
  "good_blocks bs \<Longrightarrow> to_at tb k ys \<Longrightarrow> length (text_of bs) \<le> length ys \<Longrightarrow>
   map_blocks bs tb k table = Some (write_pairs (zip (text_of bs) ys) table)"
proof (induction bs arbitrary: tb k ys table)
  case (Cons b bs)
  show ?case
  proof (cases "BLen b = 0")
    case True
    then show ?thesis by (simp add: write_pairs_def)
  next
    case False
    then obtain cs where c: "read_chars b = Some cs" "text_of (b # bs) = cs @ text_of bs" "good_blocks bs"
      using Cons.prems(1) by (auto simp: read_chars_def)
    then have "length cs \<le> length ys" using Cons.prems(3) by simp
    from map_chars_spec[OF Cons.prems(2) this, of table] obtain tb' k' where m:
      "map_chars cs tb k table = Some (tb', k', write_pairs (zip cs ys) table)" "to_at tb' k' (drop (length cs) ys)" by blast
    have "length (text_of bs) \<le> length (drop (length cs) ys)" using c(2) Cons.prems(3) by simp
    from Cons.IH[OF c(3) m(2) this] show ?thesis
      using False c m(1) by (simp add: write_pairs_append[symmetric] zip_append1 zip_take_length del: text_of.simps)
  qed
qed simp

lemma initial_nth: "initial_table junk ! unat c = (if c = 255 then junk else c)"
proof -
  have "c = 255 \<longleftrightarrow> unat c = 255" by (simp add: word_unat_eq_iff)
  moreover have "initial_table junk ! n = (if n = 255 then junk else of_nat n)" if "n < 256" for n
    using that by (auto simp: initial_table_def nth_append simp del: upt_rec_numeral)
  ultimately show ?thesis using byte_less[of c] by simp
qed

lemma map_string_spec:
  assumes "wf_str s" and "wf_str old" and "wf_str new" and "chars_of s \<noteq> []" and "SLen old = SLen new"
  shows "\<exists>s'. map_string junk s old new = Some (SUCCESS s') \<and> wf_str s' \<and>
    chars_of s' = map (\<lambda>c. case map_of (rev (zip (chars_of old) (chars_of new))) c of
      Some x \<Rightarrow> x | None \<Rightarrow> if c = 255 then junk else c) (chars_of s)"
proof -
  let ?ps = "zip (chars_of old) (chars_of new)"
  have len: "length (chars_of old) = length (chars_of new)" using wf_length[OF assms(2)] wf_length[OF assms(3)] assms(5) by simp
  have m: "map_blocks (SBlocks old) (SBlocks new) 0 (initial_table junk) = Some (write_pairs ?ps (initial_table junk))"
  proof (cases "chars_of old = []")
    case True
    then have "BLen (hd (SBlocks old)) = 0" "SBlocks old \<noteq> []" using assms(2)
      by (cases "SBlocks old"; auto simp: wf_str_def chars_of_def split: if_splits)+
    then show ?thesis using True by (cases "SBlocks old") (auto simp: write_pairs_def)
  next
    case False
    then have "chars_of new \<noteq> []" using len by auto
    then show ?thesis
      using map_blocks_spec[OF wf_nonempty(1)[OF assms(2) False] to_at_start[OF wf_nonempty(1)[OF assms(3)]]] len
      by (simp add: chars_of_def)
  qed
  have ne: "SBlocks new \<noteq> []" using assms(3) by (auto simp: wf_str_def)
  have l256: "length (initial_table junk) = 256" by (simp add: initial_table_def)
  have "write_pairs ?ps (initial_table junk) ! unat c = (case map_of (rev ?ps) c of Some x \<Rightarrow> x | None \<Rightarrow> if c = 255 then junk else c)" for c
    using write_pairs_nth[OF l256, of ?ps c] unfolding initial_nth .
  with recode_spec[OF assms(1,4), of "write_pairs ?ps (initial_table junk)"] show ?thesis
    using m ne assms(4,5) wf_length[OF assms(1)] by (simp add: map_string_def)
qed

subsection \<open>reverse and centre\<close>

lemma reverse_blocks_spec:
  "\<forall>b \<in> set (take n bs). full_block b \<Longrightarrow> n \<le> length bs \<Longrightarrow>
   \<exists>rs. reverse_blocks bs n = Some rs \<and> length rs = n \<and> (\<forall>b \<in> set rs. full_block b) \<and> text_of rs = rev (text_of (take n bs))"
proof (induction n)
  case (Suc n)
  then have tk: "take (Suc n) bs = take n bs @ [bs ! n]" "n < length bs" by (auto simp: take_Suc_conv_app_nth)
  then have f: "full_block (bs ! n)" "\<forall>b \<in> set (take n bs). full_block b" using Suc.prems(1) by auto
  from Suc.IH[OF f(2)] Suc.prems(2) obtain rs where rs: "reverse_blocks bs n = Some rs" "length rs = n" "\<forall>b \<in> set rs. full_block b"
    "text_of rs = rev (text_of (take n bs))" by auto
  from read_full[OF f(1)] obtain cs where cs: "read_chars (bs ! n) = Some cs" "cs \<noteq> []" "text_of [bs ! n] = cs" by blast
  then have "text_of (take (Suc n) bs) = text_of (take n bs) @ cs" by (simp add: tk(1) text_append[OF f(2)])
  then show ?case using rs cs tk(2) by (simp add: full_block_def)
qed simp

lemma reverse_string_spec:
  assumes "wf_str s"
  shows "\<exists>s'. reverse_string s = Some (SUCCESS s') \<and> wf_str s' \<and> chars_of s' = rev (chars_of s)"
proof -
  note w = wf_split[OF assms]
  from reverse_blocks_spec[OF w(1,3)] obtain rs where rs: "reverse_blocks (SBlocks s) (SCount s) = Some rs" "\<forall>b \<in> set rs. full_block b"
    "text_of rs = rev (chars_of s)" using w(2) by auto
  then show ?thesis using alloc_string[OF rs(2), of "SLen s"] wf_length[OF assms] by (simp add: reverse_string_def)
qed

lemma centre_with_spec:
  assumes "wf_str s" and "t < 2147483648" and "t = int (SLen s + p)" and "2 \<le> p"
  shows "\<exists>s'. centre_with s t c = Some (SUCCESS s') \<and> wf_str s' \<and>
    chars_of s' = replicate (p div 2) c @ chars_of s @ replicate (p - p div 2) c"
proof -
  note w = wf_split[OF assms(1)]
  have p: "s32 (t - int (SLen s)) = int p" using assms by simp
  have l: "nat (int p div 2) = p div 2" by (simp add: nat_div_distrib)
  let ?bs = "pad_block (p div 2) c # take (SCount s) (SBlocks s) @ [pad_block (p - p div 2) c]"
  have f: "\<forall>b \<in> set ?bs. full_block b" using w(1) assms(4) by (auto simp: full_block_def pad_block_def)
  have pos: "0 < p div 2" "\<not> p \<le> p div 2" using assms(4) by linarith+
  have t: "text_of ?bs = replicate (p div 2) c @ chars_of s @ replicate (p - p div 2) c"
    using pos by (simp add: pad_block_def text_append[OF w(1)] w(2))
  have "nat t = length (text_of ?bs)" unfolding t using wf_length[OF assms(1)] assms(3) by simp
  from alloc_string[OF f this] have "wf_str (alloc_with ?bs (nat t))" "chars_of (alloc_with ?bs (nat t)) = text_of ?bs" using assms(2) by auto
  moreover have "centre_with s t c = Some (SUCCESS (alloc_with ?bs (nat t)))"
    using assms(4) w(3) by (simp add: centre_with_def p l Let_def)
  ultimately show ?thesis unfolding t by blast
qed

text \<open>With one character to add, the block on the left is empty and ends the string.\<close>

lemma centre_with_one:
  assumes "wf_str s" and "int (SLen s) + 1 = t" and "t < 2147483648"
  shows "\<exists>s'. centre_with s t c = Some (SUCCESS s') \<and> chars_of s' = [] \<and> SLen s' = SLen s + 1 \<and> \<not> wf_str s'"
  using assms wf_split(3)[OF assms(1)]
  by (auto simp: centre_with_def alloc_with_def chars_of_def wf_str_def pad_block_def)

lemma centre_with_short:
  "- 2147483648 \<le> t - int (SLen s) \<Longrightarrow> t \<le> int (SLen s) \<Longrightarrow> centre_with s t c = Some (SUCCESS s)"
  by (simp add: centre_with_def)

lemma centre_pad_spec:
  assumes "wf_str pad" and "chars_of pad \<noteq> []"
  shows "centre_pad_string s t pad = centre_with s t (hd (chars_of pad))"
proof -
  obtain c cs where c: "chars_of pad = c # cs" using assms(2) by (cases "chars_of pad") auto
  obtain bs n p where o: "open_block (SBlocks pad) = Some (bs, n, p)" "at_text (bs, n, p) (c # cs)"
    using open_string[OF assms(1)] c by auto
  show ?thesis using o(1) at_text_step(1)[OF o(2)] wf_length[OF assms(1)] assms(2) c by (simp add: centre_pad_string_def)
qed

lemma centre_with_wf:
  assumes "wf_str s" and "t < 2147483648" and "- 2147483648 \<le> t - int (SLen s)" and "t \<noteq> int (SLen s) + 1"
  shows "\<exists>s'. centre_with s t c = Some (SUCCESS s') \<and> wf_str s'"
proof (cases "t \<le> int (SLen s)")
  case True
  then show ?thesis using centre_with_short[OF assms(3) True] assms(1) by blast
next
  case False
  then have "t = int (SLen s + nat (t - int (SLen s)))" "2 \<le> nat (t - int (SLen s))" using assms(4) by auto
  from centre_with_spec[OF assms(1,2) this] show ?thesis by blast
qed

section \<open>The properties\<close>

text \<open>
  C35: \<open>lower\<close> and \<open>upper\<close> change exactly the letters of the other case; \<open>map\<close> replaces each character by the one at its last
  place in the second string, leaves others as they are, but for the byte 255, which becomes what the stack
  held, and sends a message if the lengths differ; \<open>reverse\<close> gives the characters in reverse order.
\<close>

theorem string_map_correct:
  assumes "wf_str s" and "wf_str old" and "wf_str new" and "chars_of s \<noteq> []"
  shows "(\<exists>s'. lower_string s = Some (SUCCESS s') \<and> chars_of s' = map to_lower (chars_of s)) \<and>
    (\<exists>s'. upper_string s = Some (SUCCESS s') \<and> chars_of s' = map to_upper (chars_of s)) \<and>
    (if SLen old = SLen new then
      (\<exists>s'. map_string junk s old new = Some (SUCCESS s') \<and>
        chars_of s' = map (\<lambda>c. case map_of (rev (zip (chars_of old) (chars_of new))) c of
          Some x \<Rightarrow> x | None \<Rightarrow> if c = 255 then junk else c) (chars_of s))
     else map_string junk s old new = Some (MESSAGE ''Operands to :map must have same length'')) \<and>
    (\<exists>s'. reverse_string s = Some (SUCCESS s') \<and> chars_of s' = rev (chars_of s))"
proof -
  have ne: "SLen s \<noteq> 0" using assms(4) wf_length[OF assms(1)] by simp
  show ?thesis
    using recode_spec[OF assms(1,4), of lower_table] recode_spec[OF assms(1,4), of upper_table] map_string_spec[OF assms, of junk]
      reverse_string_spec[OF assms(1)] ne
    by (auto simp: lower_string_def upper_string_def lower_nth upper_nth) (simp add: map_string_def)
qed

theorem string_map_correct_witness:
  "(\<exists>s'. upper_string (str_of [[104, 105], [33]]) = Some (SUCCESS s') \<and> chars_of s' = [72, 73, 33]) \<and>
   (\<exists>s'. map_string 0 (str_of [[104, 105], [33]]) (str_of [[105, 104]]) (str_of [[97], [98]]) = Some (SUCCESS s') \<and>
     chars_of s' = [98, 97, 33])"
proof -
  have wf: "wf_str (str_of [[104, 105], [33 :: byte]])" "wf_str (str_of [[105, 104 :: byte]])" "wf_str (str_of [[97], [98 :: byte]])"
    by (simp_all add: wf_str_def str_of_def)
  have c: "chars_of (str_of [[104, 105], [33 :: byte]]) = [104, 105, 33]" "chars_of (str_of [[105, 104 :: byte]]) = [105, 104]"
    "chars_of (str_of [[97], [98 :: byte]]) = [97, 98]" "SLen (str_of [[105, 104 :: byte]]) = SLen (str_of [[97], [98 :: byte]])"
    by (simp_all add: chars_of_def str_of_def)
  show ?thesis using string_map_correct[OF wf, of 0] by (simp add: c to_upper_def)
qed

text \<open>
  C36: \<open>centre\<close> puts half of the missing characters, rounded down, before the string and the others behind it, and returns the
  string itself if none are missing; with one missing character the result is broken: its length is right,
  but its first block is empty, so that it has no characters.
\<close>

theorem string_centre_correct:
  assumes "wf_str s" and "wf_str pad" and "t < 2147483648" and "- 2147483648 \<le> t - int (SLen s)"
  defines "c \<equiv> (if chars_of pad = [] then 32 else hd (chars_of pad))" and "p \<equiv> nat (t - int (SLen s))"
  shows "(chars_of pad = [] \<longrightarrow> centre_pad_string s t pad = Some (SUCCESS s)) \<and>
    (let r = (if chars_of pad = [] then centre_string s t else centre_pad_string s t pad) in
     if p = 0 then r = Some (SUCCESS s)
     else if p = 1 then \<exists>s'. r = Some (SUCCESS s') \<and> SLen s' = SLen s + 1 \<and> chars_of s' = [] \<and> \<not> wf_str s'
     else \<exists>s'. r = Some (SUCCESS s') \<and> chars_of s' = replicate (p div 2) c @ chars_of s @ replicate (p - p div 2) c)"
proof -
  have r: "(if chars_of pad = [] then centre_string s t else centre_pad_string s t pad) = centre_with s t c"
    using centre_pad_spec[OF assms(2)] by (simp add: c_def centre_string_def)
  have e: "chars_of pad = [] \<Longrightarrow> centre_pad_string s t pad = Some (SUCCESS s)"
    using wf_length[OF assms(2)] by (simp add: centre_pad_string_def)
  consider "p = 0" "t \<le> int (SLen s)" | "p = 1" "int (SLen s) + 1 = t" | "2 \<le> p" "t = int (SLen s + p)"
    unfolding p_def by linarith
  then show ?thesis
  proof cases
    case 1
    then show ?thesis unfolding r Let_def using e centre_with_short[OF assms(4)] by simp
  next
    case 2
    then show ?thesis unfolding r Let_def using e centre_with_one[OF assms(1) 2(2) assms(3), of c] by auto
  next
    case 3
    then show ?thesis unfolding r Let_def using e centre_with_spec[OF assms(1,3) 3(2,1), of c] by auto
  qed
qed

theorem string_centre_correct_witness:
  "\<exists>s'. centre_pad_string (str_of [[104, 105]]) 5 (str_of [[42]]) = Some (SUCCESS s') \<and> chars_of s' = [42, 104, 105, 42, 42]"
proof -
  have wf: "wf_str (str_of [[104, 105 :: byte]])" "wf_str (str_of [[42 :: byte]])" by (simp_all add: wf_str_def str_of_def)
  have c: "chars_of (str_of [[104, 105 :: byte]]) = [104, 105]" "chars_of (str_of [[42 :: byte]]) = [42]" "SLen (str_of [[104, 105 :: byte]]) = 2"
    by (simp_all add: chars_of_def str_of_def)
  have "replicate 2 (42 :: byte) = [42, 42]" by (simp add: numeral_2_eq_2)
  then show ?thesis using string_centre_correct[OF wf, of 5] by (simp add: c)
qed

text \<open>
  C37: Every string that \<open>lower\<close>, \<open>upper\<close>, \<open>map\<close>, \<open>reverse\<close> and \<open>centre\<close> make of well-formed strings is well-formed: its
  length and its number of blocks are right, and every block but the last has characters. The exception is
  \<open>centre\<close> with exactly one character to add.
\<close>

theorem string_results_wf:
  assumes "wf_str s" and "wf_str old" and "wf_str new" and "t < 2147483648" and "- 2147483648 \<le> t - int (SLen s)"
    and "t \<noteq> int (SLen s) + 1"
  shows "(\<forall>call \<in> {lower_string s, upper_string s, reverse_string s, centre_string s t, centre_pad_string s t old}.
      \<exists>s'. call = Some (SUCCESS s') \<and> wf_str s') \<and>
    (case map_string junk s old new of Some (SUCCESS s') \<Rightarrow> wf_str s' | Some (MESSAGE m) \<Rightarrow> SLen old \<noteq> SLen new | _ \<Rightarrow> False)"
proof -
  have low: "\<exists>s'. lower_string s = Some (SUCCESS s') \<and> wf_str s'" "\<exists>s'. upper_string s = Some (SUCCESS s') \<and> wf_str s'"
    using recode_spec[OF assms(1)] wf_length[OF assms(1)] assms(1) by (fastforce simp: lower_string_def upper_string_def)+
  have pad: "\<exists>s'. centre_pad_string s t old = Some (SUCCESS s') \<and> wf_str s'"
    using centre_pad_spec[OF assms(2), of s t] centre_with_wf[OF assms(1,4-6)] wf_length[OF assms(2)] assms(1)
    by (cases "chars_of old = []") (simp_all add: centre_pad_string_def)
  have mp: "case map_string junk s old new of Some (SUCCESS s') \<Rightarrow> wf_str s' | Some (MESSAGE m) \<Rightarrow> SLen old \<noteq> SLen new | _ \<Rightarrow> False"
  proof (cases "chars_of s = [] \<or> SLen old \<noteq> SLen new")
    case True
    then show ?thesis using wf_length[OF assms(1)] assms(1) by (auto simp: map_string_def)
  next
    case False
    then show ?thesis using map_string_spec[OF assms(1-3), of junk] by auto
  qed
  show ?thesis using low pad mp reverse_string_spec[OF assms(1)] centre_with_wf[OF assms(1,4-6), of 32]
    by (auto simp: centre_string_def)
qed

theorem string_results_wf_witness:
  "\<exists>s'. reverse_string (str_of [[104, 105], [33]]) = Some (SUCCESS s') \<and> wf_str s'"
proof -
  have wf: "wf_str (str_of [[104, 105], [33 :: byte]])" "wf_str (str_of [[42 :: byte]])" by (simp_all add: wf_str_def str_of_def)
  have "SLen (str_of [[104, 105], [33 :: byte]]) = 3" by (simp add: str_of_def)
  then show ?thesis using string_results_wf[OF wf(1,2,2), of 7] by simp
qed

end
