(* ===== verification/StringSplit.thy ===== *)
theory StringSplit
  imports StringSets StringMake
begin

text \<open>
  The generators \<^verbatim>\<open>chars\<close> and \<^verbatim>\<open>split\<close> of \<^verbatim>\<open>dev/src/lib/Std/Methods2.c\<close>. The parts that \<^verbatim>\<open>split\<close> gives share the
  characters of the string: a part is made of the blocks it spans, the first and the last of them cut.
\<close>

section \<open>The code\<close>

text \<open>\<^verbatim>\<open>Std$String$new_char\<close>\<close>

definition new_char :: "byte \<Rightarrow> byte str" where
  "new_char c = alloc_with [\<lparr>BLen = 1, BChars = Some [c, 0]\<rparr>] 1"

record chars_generator =
  HSubject :: "byte block list"
  HLeft :: int
  HNext :: "byte list option"

text \<open>The generator \<^verbatim>\<open>split_char_generator\<close> has a cursor (\<^verbatim>\<open>SB\<close>, \<^verbatim>\<open>SL\<close>, \<^verbatim>\<open>SC\<close>) and the position \<^verbatim>\<open>SI\<close>.\<close>

record split_char_generator =
  PMask :: mask
  PCursor :: "byte cursor"
  PIndex :: nat

datatype split_state = CharsState chars_generator | SplitState split_char_generator

text \<open>\<^verbatim>\<open>Result->Val = Std$String$new_char(*Gen->Next++)\<close>\<close>

definition give_char :: "byte block list \<Rightarrow> int \<Rightarrow> byte list option \<Rightarrow> (byte str, string, split_state) reply option" where
  "give_char subject left next_chars = do {
     c \<leftarrow> peek next_chars;
     Some (SUSPEND (new_char c)
       (CharsState \<lparr>HSubject = subject, HLeft = left, HNext = map_option tl next_chars\<rparr>)) }"

definition resume_chars_string :: "chars_generator \<Rightarrow> (byte str, string, split_state) reply option" where
  "resume_chars_string g =
     (let left = HLeft g - 1 in
      if left < 0 then
        (case HSubject g of
           _ # b # r \<Rightarrow>
             (let left = int (BLen b) - 1 in
              if left < 0 then Some FAILURE else give_char (b # r) left (BChars b))
         | _ \<Rightarrow> None)
      else give_char (HSubject g) left (HNext g))"

definition chars_string :: "byte str \<Rightarrow> (byte str, string, split_state) reply option" where
  "chars_string s =
     (if SLen s = 0 then Some FAILURE
      else do {
        (bs, n, cs) \<leftarrow> open_block (SBlocks s);
        give_char bs (int n - 1) cs })"

text \<open>
  The two loops of \<^verbatim>\<open>split\<close>: go on while characters pass the test; the result says whether the end of the
  string was reached.
\<close>

partial_function (option) span_loop ::
  "(byte \<Rightarrow> bool) \<Rightarrow> byte cursor \<Rightarrow> nat \<Rightarrow> (bool \<times> byte cursor \<times> nat) option" where
  "span_loop test cur si = do {
     c \<leftarrow> peek (snd (snd cur));
     if \<not> test c then Some (False, cur, si)
     else do {
       cur \<leftarrow> advance_char cur;
       let si = inc32 si;
       if snd (snd cur) = None then Some (True, cur, si) else span_loop test cur si } }"

declare span_loop.simps [code]

text \<open>The new string from the cursor \<open>(SB0, SL0, SC0)\<close> up to the beginning of the block \<^verbatim>\<open>SB\<close>.\<close>

definition slice_blocks :: "byte cursor \<Rightarrow> byte block list \<Rightarrow> nat \<Rightarrow> byte str option" where
  "slice_blocks = (\<lambda>(sb0, sl0, sc0) sb n.
     let k = length sb0 - length sb in
     if k = 0 then None
     else Some (alloc_with (\<lparr>BLen = sl0, BChars = sc0\<rparr> # take (k - 1) (tl sb0)) n))"

text \<open>The new string that ends inside a block.\<close>

definition slice_part :: "byte cursor \<Rightarrow> byte cursor \<Rightarrow> nat \<Rightarrow> byte str option" where
  "slice_part = (\<lambda>(sb0, sl0, sc0) (sb, sl, sc) n.
     let k = length sb0 - length sb in
     if k = 0 then Some (alloc_with [\<lparr>BLen = sl0 - sl, BChars = sc0\<rparr>] n)
     else
       (case sb of
          [] \<Rightarrow> None
        | b # _ \<Rightarrow>
            Some (alloc_with (\<lparr>BLen = sl0, BChars = sc0\<rparr> # take (k - 1) (tl sb0) @ [\<lparr>BLen = BLen b - sl, BChars = BChars b\<rparr>]) n)))"

text \<open>What \<^verbatim>\<open>split\<close> and \<^verbatim>\<open>resume_split_char_string\<close> both do.\<close>

definition split_next :: "mask \<Rightarrow> byte cursor \<Rightarrow> nat \<Rightarrow> (byte str, string, split_state) reply option" where
  "split_next m cur si = do {
     (over, cur0, si0) \<leftarrow> span_loop (\<lambda>c. charcset c m) cur si;
     if over then Some FAILURE
     else do {
       (over, cur1, si1) \<leftarrow> span_loop (\<lambda>c. \<not> charcset c m) cur0 si0;
       let n = sub32 si1 si0;
       if over then do { s \<leftarrow> slice_blocks cur0 (fst cur1) n; Some (SUCCESS s) }
       else do {
         (_, whole, _) \<leftarrow> open_block (fst cur1);
         s \<leftarrow> (if fst (snd cur1) = whole then slice_blocks cur0 (fst cur1) n else slice_part cur0 cur1 n);
         Some (SUSPEND s (SplitState \<lparr>PMask = m, PCursor = cur1, PIndex = si1\<rparr>)) } } }"

definition split_string :: "byte str \<Rightarrow> byte str \<Rightarrow> (byte str, string, split_state) reply option" where
  "split_string s sep =
     (if SLen s = 0 then Some FAILURE
      else if SLen sep = 0 then chars_string s
      else do {
        m \<leftarrow> mask_of sep;
        cur \<leftarrow> open_block (SBlocks s);
        split_next m cur 1 })"

fun resume_split :: "split_state \<Rightarrow> (byte str, string, split_state) reply option" where
  "resume_split (CharsState g) = resume_chars_string g"
| "resume_split (SplitState g) = split_next (PMask g) (PCursor g) (PIndex g)"

section \<open>chars\<close>

lemma new_char [simp]: "wf_str (new_char c)" "chars_of (new_char c) = [c]"
  by (simp_all add: new_char_def alloc_with_def wf_str_def chars_of_def)

text \<open>The characters that a generator has still to give.\<close>

definition chars_left :: "byte block list \<Rightarrow> int \<Rightarrow> byte list option \<Rightarrow> byte list \<Rightarrow> bool" where
  "chars_left bs n cs xs \<longleftrightarrow> (\<exists>b r c. bs = b # r \<and> 0 \<le> n \<and> cs = Some c \<and> nat n \<le> length c \<and> good_blocks r \<and>
     xs = take (nat n) c @ text_of r)"

lemma chars_left_gives:
  "chars_left bs n cs xs \<Longrightarrow>
   \<exists>r. resume_split (CharsState \<lparr>HSubject = bs, HLeft = n, HNext = cs\<rparr>) = Some r \<and>
     run_out resume_split r = Some (map new_char xs, None)"
proof (induction xs arbitrary: bs n cs)
  case Nil
  then obtain b r c where b: "bs = b # r" "n = 0" "cs = Some c" "good_blocks r" "text_of r = []"
    by (auto simp: chars_left_def)
  then obtain b' r' where "r = b' # r'" "BLen b' = 0" by (cases r) (auto split: if_splits)
  then show ?case using b by (simp add: resume_chars_string_def Let_def)
next
  case (Cons x xs)
  then obtain b r c where b: "bs = b # r" "0 \<le> n" "cs = Some c" "nat n \<le> length c" "good_blocks r" "x # xs = take (nat n) c @ text_of r"
    by (auto simp: chars_left_def)
  have "\<exists>bs' n' cs'. resume_split (CharsState \<lparr>HSubject = bs, HLeft = n, HNext = cs\<rparr>) =
    Some (SUSPEND (new_char x) (CharsState \<lparr>HSubject = bs', HLeft = n', HNext = cs'\<rparr>)) \<and> chars_left bs' n' cs' xs"
  proof (cases "n = 0")
    case True
    then obtain b' r' c' where r: "r = b' # r'" "BLen b' \<noteq> 0" "BChars b' = Some c'" "BLen b' \<le> length c'" "good_blocks r'"
      "x # xs = take (BLen b') c' @ text_of r'"
      using b by (cases r) (auto split: if_splits)
    then obtain k c2 where "BLen b' = Suc k" "c' = x # c2" "xs = take k c2 @ text_of r'" by (cases "BLen b'"; cases c') auto
    then show ?thesis using True b(1,3) r by (simp add: resume_chars_string_def give_char_def peek_def chars_left_def)
  next
    case False
    then obtain k c2 where "nat n = Suc k" "c = x # c2" "xs = take k c2 @ text_of r" using b by (cases "nat n"; cases c) auto
    moreover from this(1) have "nat (n - 1) = k" by simp
    ultimately show ?thesis using False b(1-5) by (auto simp: resume_chars_string_def give_char_def peek_def chars_left_def)
  qed
  then obtain bs' n' cs' where s: "resume_split (CharsState \<lparr>HSubject = bs, HLeft = n, HNext = cs\<rparr>) =
    Some (SUSPEND (new_char x) (CharsState \<lparr>HSubject = bs', HLeft = n', HNext = cs'\<rparr>))" "chars_left bs' n' cs' xs" by blast
  from Cons.IH[OF s(2)] show ?case using s(1) run_out_more[of resume_split] by fastforce
qed

lemma chars_string_gives:
  assumes "wf_str s"
  shows "gives resume_split (chars_string s) (map new_char (chars_of s))"
proof (cases "chars_of s = []")
  case True
  then show ?thesis using wf_length[OF assms] by (simp add: gives_def chars_string_def)
next
  case False
  obtain b r c where b: "SBlocks s = b # r" "BLen b \<noteq> 0" "BChars b = Some c" "BLen b \<le> length c" "good_blocks r" "chars_of s = take (BLen b) c @ text_of r"
    using wf_nonempty(2)[OF assms False] by (auto simp: left_at_def)
  then obtain k x c2 where c: "BLen b = Suc k" "c = x # c2" by (cases "BLen b"; cases c) auto
  then have xs: "chars_of s = x # take k c2 @ text_of r" using b(6) by simp
  have "chars_left (b # r) (int k) (Some c2) (take k c2 @ text_of r)" using b c by (simp add: chars_left_def)
  from chars_left_gives[OF this] obtain q where
    "resume_split (CharsState \<lparr>HSubject = b # r, HLeft = int k, HNext = Some c2\<rparr>) = Some q"
    "run_out resume_split q = Some (map new_char (take k c2 @ text_of r), None)" by blast
  from run_out_more[OF this, of "new_char x"] show ?thesis
    using wf_length[OF assms] b c xs by (simp add: gives_def chars_string_def open_block_def give_char_def peek_def)
qed


section \<open>The parts of split\<close>

text \<open>
  The way from one cursor to another: the characters between them, and the blocks they lie in.
\<close>

definition same_block :: "byte cursor \<Rightarrow> byte cursor \<Rightarrow> byte list \<Rightarrow> bool" where
  "same_block = (\<lambda>(bs0, n0, c0) (bs, n, c) ys. \<exists>b r cs. bs0 = b # r \<and> bs = bs0 \<and> c0 = Some cs \<and> n \<le> n0 \<and> n0 \<le> length cs \<and> n0 \<le> BLen b \<and>
     0 < n \<and> good_blocks r \<and> c = Some (drop (n0 - n) cs) \<and> ys = take (n0 - n) cs)"

definition later_block :: "byte cursor \<Rightarrow> byte cursor \<Rightarrow> byte list \<Rightarrow> bool" where
  "later_block = (\<lambda>(bs0, n0, c0) (bs, n, c) ys. \<exists>b0 mid b r cs. bs0 = b0 # mid @ bs \<and> (\<forall>b \<in> set mid. full_block b) \<and>
     c0 = Some cs \<and> 0 < n0 \<and> n0 \<le> length cs \<and> bs = b # r \<and> good_blocks bs \<and> n \<le> BLen b \<and> (n = 0 \<longrightarrow> BLen b = 0) \<and>
     c = map_option (drop (BLen b - n)) (BChars b) \<and>
     ys = take n0 cs @ text_of mid @ (if BLen b = 0 then [] else take (BLen b - n) (the (BChars b))))"

lemma same_block_refl: "at_text cur xs \<Longrightarrow> xs \<noteq> [] \<Longrightarrow> same_block cur cur []"
  by (cases cur) (auto simp: same_block_def at_text_def split: if_splits)

lemma same_block_step:
  assumes "same_block cur0 cur ys" and "at_text cur (x # xs)" and "advance_char cur = Some cur'"
  shows "same_block cur0 cur' (ys @ [x]) \<or> later_block cur0 cur' (ys @ [x])"
proof -
  obtain bs0 n0 c0 bs n c where p: "cur0 = (bs0, n0, c0)" "cur = (bs, n, c)" by (cases cur0, cases cur)
  obtain b r cs where s: "bs0 = b # r" "bs = b # r" "c0 = Some cs" "n \<le> n0" "n0 \<le> length cs" "n0 \<le> BLen b" "good_blocks r"
    "c = Some (drop (n0 - n) cs)" "ys = take (n0 - n) cs"
    using assms(1) p by (auto simp: same_block_def)
  have n: "0 < n" "x # xs = take n (drop (n0 - n) cs) @ text_of r"
    using assms(2) p s by (auto simp: at_text_def split: if_splits)
  have x: "take (Suc (n0 - n)) cs = ys @ [x]"
  proof -
    have "n0 - n < length cs" using n(1) s(4,5) by simp
    moreover from this have "cs ! (n0 - n) = x" using n by (cases n) (auto simp: Cons_nth_drop_Suc[symmetric])
    ultimately show ?thesis using s(9) by (simp add: take_Suc_conv_app_nth)
  qed
  obtain b1 r1 where r: "r = b1 # r1" using s(7) by (cases r) auto
  show ?thesis
  proof (cases "n = 1")
    case True
    then have "cur' = (b1 # r1, BLen b1, BChars b1)" using assms(3) p s r by (simp add: advance_char_def next_block_def open_block_def)
    moreover have "take n0 cs = ys @ [x]" using True x s(4) n(1) by simp
    ultimately have "later_block cur0 cur' (ys @ [x])"
      using p s r True n(1) by (auto simp: later_block_def option.map_ident intro!: exI[of _ "[]"])
    then show ?thesis by blast
  next
    case False
    have e: "n0 - (n - 1) = Suc (n0 - n)" using n(1) s(4) by simp
    have "tl (drop (n0 - n) cs) = drop (n0 - (n - 1)) cs" unfolding e by (simp add: drop_Suc tl_drop)
    moreover have "dec32 n = n - 1" "n - 1 \<noteq> 0" using False n(1) by (simp_all add: dec32_pos)
    ultimately have "cur' = (bs, n - 1, Some (drop (n0 - (n - 1)) cs))"
      using assms(3) unfolding p s(8) advance_char_def by (simp only: prod.case Let_def if_False option.map option.inject)
    moreover have "ys @ [x] = take (n0 - (n - 1)) cs" unfolding e by (simp add: x)
    moreover have "n - 1 \<le> n0" "0 < n - 1" using s(4) False n(1) by auto
    ultimately have "same_block cur0 cur' (ys @ [x])" using p s(1-3,5-7) unfolding same_block_def by auto
    then show ?thesis by blast
  qed
qed

lemma later_block_step:
  assumes "later_block cur0 cur ys" and "at_text cur (x # xs)" and "advance_char cur = Some cur'"
  shows "later_block cur0 cur' (ys @ [x])"
proof -
  obtain bs0 n0 c0 bs n c where p: "cur0 = (bs0, n0, c0)" "cur = (bs, n, c)" by (cases cur0, cases cur)
  obtain b0 mid b r cs where s: "bs0 = b0 # mid @ bs" "\<forall>b \<in> set mid. full_block b" "c0 = Some cs" "0 < n0" "n0 \<le> length cs" "bs = b # r"
    "good_blocks bs" "n \<le> BLen b" "c = map_option (drop (BLen b - n)) (BChars b)"
    "ys = take n0 cs @ text_of mid @ (if BLen b = 0 then [] else take (BLen b - n) (the (BChars b)))"
    using assms(1) p by (auto simp: later_block_def)
  have "0 < n" using assms(2) p by (auto simp: at_text_def split: if_splits)
  then obtain cb where cb: "BLen b \<noteq> 0" "BChars b = Some cb" "BLen b \<le> length cb" "good_blocks r" using s(6-8) by auto
  have n: "x # xs = take n (drop (BLen b - n) cb) @ text_of r"
    using assms(2) p s(6,9) cb \<open>0 < n\<close> by (auto simp: at_text_def)
  have x: "take (Suc (BLen b - n)) cb = take (BLen b - n) cb @ [x]"
  proof -
    have "BLen b - n < length cb" using \<open>0 < n\<close> s(8) cb(3) by simp
    moreover from this have "cb ! (BLen b - n) = x" using n \<open>0 < n\<close> by (cases n) (auto simp: Cons_nth_drop_Suc[symmetric])
    ultimately show ?thesis by (simp add: take_Suc_conv_app_nth)
  qed
  obtain b1 r1 where r: "r = b1 # r1" using cb(4) by (cases r) auto
  show ?thesis
  proof (cases "n = 1")
    case True
    then have c': "cur' = (b1 # r1, BLen b1, BChars b1)" using assms(3) p s(6) r by (simp add: advance_char_def next_block_def open_block_def)
    have "ys @ [x] = take n0 cs @ text_of (mid @ [b])"
      using s(8,10) cb x True by (simp add: text_append[OF s(2)])
    moreover have "full_block b" using cb by (simp add: full_block_def)
    ultimately show ?thesis using p s(1-6) r cb(4) c' by (auto simp: later_block_def option.map_ident intro!: exI[of _ "mid @ [b]"])
  next
    case False
    have e: "BLen b - (n - 1) = Suc (BLen b - n)" using \<open>0 < n\<close> s(8) by simp
    have "tl (drop (BLen b - n) cb) = drop (BLen b - (n - 1)) cb" unfolding e by (simp add: drop_Suc tl_drop)
    moreover have "dec32 n = n - 1" "n - 1 \<noteq> 0" using False \<open>0 < n\<close> by (simp_all add: dec32_pos)
    ultimately have c': "cur' = (bs, n - 1, Some (drop (BLen b - (n - 1)) cb))"
      using assms(3) unfolding p s(9) cb(2) advance_char_def by (simp only: prod.case Let_def if_False option.map option.inject)
    have "ys @ [x] = take n0 cs @ text_of mid @ take (BLen b - (n - 1)) cb" using s(10) cb(1,2) x e by simp
    moreover have "n - 1 \<le> BLen b" "n - 1 \<noteq> 0" using s(8) False \<open>0 < n\<close> by auto
    ultimately show ?thesis using p s(1-7) cb c' unfolding later_block_def by auto
  qed
qed


definition spans :: "byte cursor \<Rightarrow> byte cursor \<Rightarrow> byte list \<Rightarrow> bool" where
  "spans cur0 cur ys \<longleftrightarrow> same_block cur0 cur ys \<or> later_block cur0 cur ys"

lemma spans_step: "spans cur0 cur ys \<Longrightarrow> at_text cur (x # xs) \<Longrightarrow> advance_char cur = Some cur' \<Longrightarrow> spans cur0 cur' (ys @ [x])"
  using same_block_step later_block_step unfolding spans_def by blast

lemma spans_end:
  assumes "spans cur0 cur ys" and "at_text cur xs"
  shows "snd (snd cur) = None \<longleftrightarrow> xs = []"
proof -
  obtain bs n c where p: "cur = (bs, n, c)" by (cases cur)
  show ?thesis
  proof (cases "xs = []")
    case False
    then show ?thesis using assms(2) p by (auto simp: at_text_def split: if_splits)
  next
    case True
    then have "n = 0" using assms(2) at_text_end p by blast
    then show ?thesis using assms(1) p True by (cases cur0) (auto simp: spans_def same_block_def later_block_def)
  qed
qed

lemma spans_at_end: "spans cur0 (bs, 0, c) ys \<Longrightarrow> BLen (hd bs) = 0"
  by (cases cur0) (auto simp: spans_def same_block_def later_block_def)

lemma at_text_block: "at_text cur xs \<Longrightarrow> xs \<noteq> [] \<Longrightarrow> \<exists>b r. fst cur = b # r"
  by (cases cur) (auto simp: at_text_def split: if_splits)

lemma span_loop_spec:
  "spans cur0 cur ys \<Longrightarrow> at_text cur xs \<Longrightarrow> xs \<noteq> [] \<Longrightarrow> si + length xs < 4294967295 \<Longrightarrow>
   \<exists>cur'. span_loop test cur si = Some (dropWhile test xs = [], cur', si + length (takeWhile test xs)) \<and>
     spans cur0 cur' (ys @ takeWhile test xs) \<and> at_text cur' (dropWhile test xs)"
proof (induction xs arbitrary: cur ys si)
  case (Cons x xs)
  obtain bs n c where p: "cur = (bs, n, c)" by (cases cur)
  note st = at_text_step[OF Cons.prems(2)[unfolded p]]
  then obtain cur' where c': "advance_char cur = Some cur'" "at_text cur' xs" using p by blast
  note sp = spans_step[OF Cons.prems(1,2) c'(1)]
  show ?case
  proof (cases "test x")
    case False
    then show ?thesis using st(1) p Cons.prems by (subst span_loop.simps) (auto intro!: exI[of _ cur])
  next
    case True
    have si: "inc32 si = Suc si" using Cons.prems(4) by simp
    show ?thesis
    proof (cases "xs = []")
      case True
      then have "snd (snd cur') = None" using spans_end[OF sp c'(2)] by simp
      then show ?thesis using \<open>test x\<close> st(1) p c' sp True si by (subst span_loop.simps) (auto simp: Let_def)
    next
      case False
      then have "snd (snd cur') \<noteq> None" using spans_end[OF sp c'(2)] by simp
      then have "span_loop test cur si = span_loop test cur' (Suc si)"
        using \<open>test x\<close> st(1) p c'(1) si by (subst span_loop.simps) (auto simp: Let_def)
      moreover have "Suc si + length xs < 4294967295" using Cons.prems(4) by simp
      ultimately show ?thesis using Cons.IH[OF sp c'(2) False, of "Suc si"] \<open>test x\<close> by auto
    qed
  qed
qed simp

text \<open>The two kinds of slices.\<close>

lemma full_cut: "0 < n \<Longrightarrow> n \<le> length cs \<Longrightarrow> full_block \<lparr>BLen = n, BChars = Some cs\<rparr>"
  by (simp add: full_block_def)

lemma slice_blocks_spec:
  assumes "spans cur0 cur ys" and "ys \<noteq> []" and "length ys < 2147483648"
    and "fst (snd cur) = BLen (hd (fst cur))"
  shows "\<exists>s. slice_blocks cur0 (fst cur) (length ys) = Some s \<and> wf_str s \<and> chars_of s = ys"
proof -
  obtain bs0 n0 c0 bs n c where p: "cur0 = (bs0, n0, c0)" "cur = (bs, n, c)" by (cases cur0, cases cur)
  have "\<not> same_block cur0 cur ys" using assms(2,4) p by (auto simp: same_block_def)
  then obtain b0 mid b r cs where s: "bs0 = b0 # mid @ bs" "\<forall>b \<in> set mid. full_block b" "c0 = Some cs" "0 < n0" "n0 \<le> length cs"
    "bs = b # r" "ys = take n0 cs @ text_of mid @ (if BLen b = 0 then [] else take (BLen b - n) (the (BChars b)))"
    using assms(1) p by (auto simp: spans_def later_block_def)
  let ?bs = "\<lparr>BLen = n0, BChars = c0\<rparr> # mid"
  have f: "\<forall>b \<in> set ?bs. full_block b" using s full_cut by auto
  have t: "text_of ?bs = ys" using s assms(4) p by simp
  have "slice_blocks cur0 (fst cur) (length ys) = Some (alloc_with ?bs (length ys))"
    using p s(1) by (simp add: slice_blocks_def Let_def)
  then show ?thesis using alloc_string[OF f, of "length ys"] t assms(3) by simp
qed

lemma slice_part_spec:
  assumes "spans cur0 cur ys" and "ys \<noteq> []" and "length ys < 2147483648"
    and "fst (snd cur) \<noteq> BLen (hd (fst cur))"
  shows "\<exists>s. slice_part cur0 cur (length ys) = Some s \<and> wf_str s \<and> chars_of s = ys"
proof -
  obtain bs0 n0 c0 bs n c where p: "cur0 = (bs0, n0, c0)" "cur = (bs, n, c)" by (cases cur0, cases cur)
  show ?thesis
  proof (cases "same_block cur0 cur ys")
    case True
    then obtain cs where s: "bs = bs0" "c0 = Some cs" "n \<le> n0" "n0 \<le> length cs" "ys = take (n0 - n) cs" using p by (auto simp: same_block_def)
    then have "0 < n0 - n" using assms(2) by (cases "n0 - n") auto
    then have f: "\<forall>b \<in> set [\<lparr>BLen = n0 - n, BChars = c0\<rparr>]. full_block b" using s full_cut[of "n0 - n" cs] by simp
    have "slice_part cur0 cur (length ys) = Some (alloc_with [\<lparr>BLen = n0 - n, BChars = c0\<rparr>] (length ys))"
      using p s(1) by (simp add: slice_part_def Let_def)
    then show ?thesis using alloc_string[OF f, of "length ys"] s \<open>0 < n0 - n\<close> assms(3) by simp
  next
    case False
    then obtain b0 mid b r cs where s: "bs0 = b0 # mid @ bs" "\<forall>b \<in> set mid. full_block b" "c0 = Some cs" "0 < n0" "n0 \<le> length cs"
      "bs = b # r" "good_blocks bs" "n \<le> BLen b" "ys = take n0 cs @ text_of mid @ (if BLen b = 0 then [] else take (BLen b - n) (the (BChars b)))"
      using assms(1) p by (auto simp: spans_def later_block_def)
    have n: "n < BLen b" using assms(4) p s(6,8) by simp
    then obtain cb where cb: "BChars b = Some cb" "BLen b \<le> length cb" using s(6,7) by auto
    let ?l = "\<lparr>BLen = BLen b - n, BChars = BChars b\<rparr>"
    let ?bs = "\<lparr>BLen = n0, BChars = c0\<rparr> # mid @ [?l]"
    have f: "\<forall>b \<in> set ?bs. full_block b" using s(2-5) full_cut[of n0 cs] full_cut[of "BLen b - n" cb] n cb by auto
    have t: "text_of ?bs = ys" using s n cb by (simp add: text_append[OF s(2)])
    have "slice_part cur0 cur (length ys) = Some (alloc_with ?bs (length ys))"
      using p s(1,6) by (simp add: slice_part_def Let_def)
    then show ?thesis using alloc_string[OF f, of "length ys"] t assms(3) by simp
  qed
qed

section \<open>What split generates\<close>

text \<open>The words of a text: the longest parts without separators.\<close>

function words :: "('c \<Rightarrow> bool) \<Rightarrow> 'c list \<Rightarrow> 'c list list" where
  "words sep xs =
     (let ys = dropWhile sep xs in
      if ys = [] then []
      else takeWhile (\<lambda>c. \<not> sep c) ys # words sep (dropWhile (\<lambda>c. \<not> sep c) ys))"
  by pat_completeness auto
termination
proof (relation "measure (\<lambda>(sep, xs). length xs)", simp)
  fix sep :: "'c \<Rightarrow> bool" and xs ys
  assume ys: "ys = dropWhile sep xs" "ys \<noteq> []"
  then have "\<not> sep (hd ys)" using hd_dropWhile by blast
  then have "length (dropWhile (\<lambda>c. \<not> sep c) ys) < length ys" using ys(2)
    by (cases ys) (auto simp: length_dropWhile_le less_Suc_eq_le)
  also have "\<dots> \<le> length xs" unfolding ys(1) by (rule length_dropWhile_le)
  finally show "((sep, dropWhile (\<lambda>c. \<not> sep c) ys), (sep, xs)) \<in> measure (\<lambda>(sep, xs). length xs)" by simp
qed

declare words.simps [simp del]

lemma words_Nil [simp]: "words sep [] = []"
  by (simp add: words.simps)

lemma split_next_over:
  "span_loop (\<lambda>c. charcset c m) cur si = Some (False, cur0, si0) \<Longrightarrow>
   span_loop (\<lambda>c. \<not> charcset c m) cur0 si0 = Some (True, cur1, si1) \<Longrightarrow>
   slice_blocks cur0 (fst cur1) (sub32 si1 si0) = Some s \<Longrightarrow> split_next m cur si = Some (SUCCESS s)"
  by (simp add: split_next_def)

lemma split_next_more:
  "span_loop (\<lambda>c. charcset c m) cur si = Some (False, cur0, si0) \<Longrightarrow>
   span_loop (\<lambda>c. \<not> charcset c m) cur0 si0 = Some (False, cur1, si1) \<Longrightarrow>
   open_block (fst cur1) = Some (bs, whole, cs) \<Longrightarrow>
   (if fst (snd cur1) = whole then slice_blocks cur0 (fst cur1) (sub32 si1 si0) else slice_part cur0 cur1 (sub32 si1 si0)) = Some s \<Longrightarrow>
   split_next m cur si = Some (SUSPEND s (SplitState \<lparr>PMask = m, PCursor = cur1, PIndex = si1\<rparr>))"
  by (simp add: split_next_def)

lemma split_next_gives:
  "at_text cur xs \<Longrightarrow> xs \<noteq> [] \<Longrightarrow> si + length xs < 4294967295 \<Longrightarrow> length xs < 2147483648 \<Longrightarrow>
   \<exists>r ss. split_next m cur si = Some r \<and> run_out resume_split r = Some (ss, None) \<and> (\<forall>s \<in> set ss. wf_str s) \<and>
     map chars_of ss = words (\<lambda>c. charcset c m) xs"
proof (induction "length xs" arbitrary: cur xs si rule: less_induct)
  case less
  let ?sep = "\<lambda>c. charcset c m" and ?ys = "dropWhile (\<lambda>c. charcset c m) xs"
  let ?w = "takeWhile (\<lambda>c. \<not> charcset c m) ?ys" and ?zs = "dropWhile (\<lambda>c. \<not> charcset c m) ?ys"
  have refl: "spans cur cur []" using same_block_refl[OF less.prems(1,2)] by (simp add: spans_def)
  from span_loop_spec[OF refl less.prems(1-3), of ?sep] obtain cur0 where c0:
    "span_loop ?sep cur si = Some (?ys = [], cur0, si + length (takeWhile ?sep xs))" "at_text cur0 ?ys" by auto
  show ?case
  proof (cases "?ys = []")
    case True
    then have "split_next m cur si = Some FAILURE" using c0(1) by (simp add: split_next_def)
    moreover have "words ?sep xs = []" using True by (simp add: words.simps)
    ultimately show ?thesis by (intro exI[of _ FAILURE] exI[of _ "[]"]) simp
  next
    case False
    let ?si = "si + length (takeWhile ?sep xs)"
    have len: "length xs = length (takeWhile ?sep xs) + length ?ys" by (metis length_append takeWhile_dropWhile_id)
    have len2: "length ?ys = length ?w + length ?zs" by (metis length_append takeWhile_dropWhile_id)
    have si: "?si + length ?ys < 4294967295" using less.prems(3) len by simp
    have refl0: "spans cur0 cur0 []" using same_block_refl[OF c0(2) False] by (simp add: spans_def)
    from span_loop_spec[OF refl0 c0(2) False si, of "\<lambda>c. \<not> ?sep c"] obtain cur1 where c1:
      "span_loop (\<lambda>c. \<not> ?sep c) cur0 ?si = Some (?zs = [], cur1, ?si + length ?w)" "spans cur0 cur1 ?w" "at_text cur1 ?zs" by auto
    have w: "?w \<noteq> []" using False hd_dropWhile[of ?sep xs] by (cases ?ys) auto
    have n: "sub32 (?si + length ?w) ?si = length ?w" using si len2 by simp
    have wl: "length ?w < 2147483648" using less.prems(4) len len2 by simp
    have words: "words ?sep xs = ?w # words ?sep ?zs" using False by (subst words.simps) (simp add: Let_def)
    show ?thesis
    proof (cases "?zs = []")
      case True
      obtain bs1 n1 k1 where p1: "cur1 = (bs1, n1, k1)" by (cases cur1)
      have "n1 = 0" using c1(3) True at_text_end unfolding p1 by metis
      then have "fst (snd cur1) = BLen (hd (fst cur1))" using spans_at_end[of cur0 bs1 k1] c1(2) p1 by simp
      from slice_blocks_spec[OF c1(2) w wl this] obtain s where s: "slice_blocks cur0 (fst cur1) (length ?w) = Some s" "wf_str s" "chars_of s = ?w" by blast
      have "split_next m cur si = Some (SUCCESS s)"
      proof (rule split_next_over)
        show "span_loop ?sep cur si = Some (False, cur0, ?si)" using c0(1) False by (simp only: simp_thms)
        show "span_loop (\<lambda>c. \<not> ?sep c) cur0 ?si = Some (True, cur1, ?si + length ?w)" using c1(1) True by (simp only: simp_thms)
        show "slice_blocks cur0 (fst cur1) (sub32 (?si + length ?w) ?si) = Some s" unfolding n by (rule s(1))
      qed
      moreover have "words ?sep xs = [?w]" unfolding words True by simp
      ultimately show ?thesis using s(2,3) by (intro exI[of _ "SUCCESS s"] exI[of _ "[s]"]) simp
    next
      case nz: False
      have "\<exists>s. (if fst (snd cur1) = BLen (hd (fst cur1)) then slice_blocks cur0 (fst cur1) (length ?w) else slice_part cur0 cur1 (length ?w)) = Some s \<and>
        wf_str s \<and> chars_of s = ?w"
      proof (cases "fst (snd cur1) = BLen (hd (fst cur1))")
        case True
        show ?thesis unfolding if_P[OF True] by (rule slice_blocks_spec[OF c1(2) w wl True])
      next
        case False
        show ?thesis unfolding if_not_P[OF False] by (rule slice_part_spec[OF c1(2) w wl False])
      qed
      then obtain s where s: "(if fst (snd cur1) = BLen (hd (fst cur1)) then slice_blocks cur0 (fst cur1) (length ?w) else slice_part cur0 cur1 (length ?w)) = Some s"
        "wf_str s" "chars_of s = ?w" by blast
      obtain b r where "fst cur1 = b # r" using at_text_block[OF c1(3) nz] by blast
      then have whole: "open_block (fst cur1) = Some (fst cur1, BLen (hd (fst cur1)), BChars b)" by (simp add: open_block_def)
      let ?g = "SplitState \<lparr>PMask = m, PCursor = cur1, PIndex = ?si + length ?w\<rparr>"
      have run: "split_next m cur si = Some (SUSPEND s ?g)"
      proof (rule split_next_more)
        show "span_loop ?sep cur si = Some (False, cur0, ?si)" using c0(1) False by (simp only: simp_thms)
        show "span_loop (\<lambda>c. \<not> ?sep c) cur0 ?si = Some (False, cur1, ?si + length ?w)" using c1(1) nz by (simp only: simp_thms)
        show "(if fst (snd cur1) = BLen (hd (fst cur1)) then slice_blocks cur0 (fst cur1) (sub32 (?si + length ?w) ?si)
          else slice_part cur0 cur1 (sub32 (?si + length ?w) ?si)) = Some s" unfolding n by (rule s(1))
      qed (rule whole)
      have "0 < length ?w" using w by blast
      then have "length ?zs < length xs" "?si + length ?w + length ?zs < 4294967295" "length ?zs < 2147483648" using len len2 si less.prems(4) by linarith+
      from less.hyps[OF this(1) c1(3) nz this(2,3)] obtain r ss where r: "split_next m cur1 (?si + length ?w) = Some r"
        "run_out resume_split r = Some (ss, None)" "\<forall>s \<in> set ss. wf_str s" "map chars_of ss = words ?sep ?zs" by blast
      have "resume_split ?g = Some r" using r(1) by simp
      from run_out_more[OF this r(2), of s] show ?thesis
        using run r(3,4) s(2,3) words by (intro exI[of _ "SUSPEND s ?g"] exI[of _ "s # ss"]) simp
    qed
  qed
qed

text \<open>
  C39: \<open>chars\<close>, resumed to its end, gives the characters of a string in order as strings; \<open>split\<close> gives the words between the
  characters of the separator set, each a well-formed string, whatever blocks the string consists of, and ends;
  with no separators it gives the characters.
\<close>

theorem string_split_correct:
  assumes "wf_str s" and "wf_str sep"
  shows "gives resume_split (chars_string s) (map new_char (chars_of s)) \<and>
    (\<exists>ss. gives resume_split (split_string s sep) ss \<and> (\<forall>t \<in> set ss. wf_str t) \<and>
      map chars_of ss = (if chars_of sep = [] then map (\<lambda>c. [c]) (chars_of s) else words (\<lambda>c. c \<in> set (chars_of sep)) (chars_of s)))"
proof -
  note ls = wf_length[OF assms(1)] and lp = wf_length[OF assms(2)] and ch = chars_string_gives[OF assms(1)]
  consider "chars_of s = []" | "chars_of s \<noteq> []" "chars_of sep = []" | "chars_of s \<noteq> []" "chars_of sep \<noteq> []" by blast
  then show ?thesis
  proof cases
    case 1
    then show ?thesis using ch ls by (auto simp: gives_def split_string_def intro!: exI[of _ "[]"])
  next
    case 2
    then show ?thesis using ch ls lp
      by (intro conjI exI[of _ "map new_char (chars_of s)"]) (auto simp: split_string_def comp_def)
  next
    case 3
    obtain m where m: "mask_of sep = Some m" "\<forall>c. charcset c m \<longleftrightarrow> c \<in> set (chars_of sep)" using mask_of_spec[OF assms(2) 3(2)] by blast
    obtain cur where cur: "open_block (SBlocks s) = Some cur" "at_text cur (chars_of s)" using open_string[OF assms(1)] by blast
    have e: "(\<lambda>c. charcset c m) = (\<lambda>c. c \<in> set (chars_of sep))" using m(2) by auto
    have "1 + length (chars_of s) < 4294967295" "length (chars_of s) < 2147483648" using ls by simp_all
    from split_next_gives[OF cur(2) 3(1) this, of m] obtain r ss where r: "split_next m cur 1 = Some r"
      "run_out resume_split r = Some (ss, None)" "\<forall>s \<in> set ss. wf_str s" "map chars_of ss = words (\<lambda>c. c \<in> set (chars_of sep)) (chars_of s)"
      unfolding e by blast
    have "split_string s sep = Some r" using r(1) m(1) cur(1) 3 ls lp by (simp add: split_string_def)
    then show ?thesis using r(2-4) ch 3(2) by (auto simp: gives_def)
  qed
qed

theorem string_split_correct_witness:
  "\<exists>ss. gives resume_split (split_string (str_of [[97, 32, 98], [99, 32], [32, 100]]) (str_of [[32]])) ss \<and>
    map chars_of ss = [[97], [98, 99], [100]]"
proof -
  have wf: "wf_str (str_of [[97, 32, 98], [99, 32], [32, 100 :: byte]])" "wf_str (str_of [[32 :: byte]])" by (simp_all add: wf_str_def str_of_def)
  have c: "chars_of (str_of [[97, 32, 98], [99, 32], [32, 100 :: byte]]) = [97, 32, 98, 99, 32, 32, 100]" "chars_of (str_of [[32 :: byte]]) = [32]"
    by (simp_all add: chars_of_def str_of_def)
  have "words (\<lambda>c. c \<in> set [32]) [97, 32, 98, 99, 32, 32, 100 :: byte] = [[97], [98, 99], [100]]"
    by (simp add: words.simps)
  then show ?thesis using string_split_correct[OF wf] unfolding c by auto
qed

end
