(* ===== verification/StringDistance.thy ===== *)
theory StringDistance
  imports StringMake
begin

text \<open>
  The distances of strings of \<^verbatim>\<open>dev/src/lib/Std/Methods2.c\<close>: the method \<^verbatim>\<open>~\<close> with one row of the table of
  distances of prefixes, and \<^verbatim>\<open>distance\<close> with three rows. Distances are numbers up to the length of the longer
  string, so the additions do not wrap around.
\<close>

section \<open>The code of ~\<close>

text \<open>
  One character \<open>a\<close> of the first string: \<open>dist\<close> is \<^verbatim>\<open>DistanceA\<close>, \<open>r\<close> is \<^verbatim>\<open>R\<close>.
\<close>

definition lev_char :: "'c \<Rightarrow> 'c \<Rightarrow> nat \<times> nat \<times> nat \<times> nat list \<Rightarrow> (nat \<times> nat \<times> nat \<times> nat list) option" where
  "lev_char c a = (\<lambda>(pos, dist, r, cache).
     if length cache \<le> pos then None
     else
       (let distb = (if c = a then dist else dist + 1);
            dist = cache ! pos;
            r = (if r < dist then (if r < distb then r + 1 else distb)
                 else (if dist < distb then dist + 1 else distb))
        in Some (pos + 1, dist, r, cache[pos := r])))"

fun lev_chars :: "'c \<Rightarrow> 'c list \<Rightarrow> nat \<times> nat \<times> nat \<times> nat list \<Rightarrow> (nat \<times> nat \<times> nat \<times> nat list) option" where
  "lev_chars c [] s = Some s"
| "lev_chars c (a # as) s = do { s \<leftarrow> lev_char c a s; lev_chars c as s }"

text \<open>\<^verbatim>\<open>for (BlockA = A->Blocks; BlockA->Length.Value; ++BlockA)\<close>\<close>

fun over_blocks :: "('c list \<Rightarrow> 's \<Rightarrow> 's option) \<Rightarrow> 'c block list \<Rightarrow> 's \<Rightarrow> 's option" where
  "over_blocks f [] s = None"
| "over_blocks f (b # r) s =
     (if BLen b = 0 then Some s
      else do { cs \<leftarrow> read_chars b; s \<leftarrow> f cs s; over_blocks f r s })"

text \<open>The characters of the second string: the state is \<^verbatim>\<open>PosB\<close>, \<^verbatim>\<open>R\<close> and \<^verbatim>\<open>Cache\<close>.\<close>

fun lev_rows :: "'c block list \<Rightarrow> 'c list \<Rightarrow> nat \<times> nat \<times> nat list \<Rightarrow> (nat \<times> nat \<times> nat list) option" where
  "lev_rows as [] s = Some s"
| "lev_rows as (c # cs) (posb, r, cache) = do {
     (_, _, r, cache) \<leftarrow> over_blocks (lev_chars c) as (0, posb, posb, cache);
     lev_rows as cs (posb + 1, r, cache) }"

text \<open>\<open>same\<close> says that the two arguments are one object.\<close>

definition levenshtein :: "bool \<Rightarrow> 'c str \<Rightarrow> 'c str \<Rightarrow> (nat, string, unit) reply option" where
  "levenshtein same a b =
     (if same then Some (SUCCESS 0)
      else if SLen a = 0 then Some (SUCCESS (SLen b))
      else if SLen b = 0 then Some (SUCCESS (SLen a))
      else do {
        (_, r, _) \<leftarrow> over_blocks (lev_rows (SBlocks a)) (SBlocks b) (0, 0, map (\<lambda>i. i + 1) [0..<SLen a]);
        Some (SUCCESS r) })"

section \<open>The code of distance\<close>

text \<open>
  One character \<open>b\<close> of the shorter string. The state is \<^verbatim>\<open>J\<close>, \<^verbatim>\<open>PrevB\<close> and \<^verbatim>\<open>Row2\<close>.
\<close>

definition dist_char ::
  "nat \<Rightarrow> 'c \<Rightarrow> 'c \<Rightarrow> nat list \<Rightarrow> nat list \<Rightarrow> 'c \<Rightarrow> nat \<times> 'c \<times> nat list \<Rightarrow> (nat \<times> 'c \<times> nat list) option" where
  "dist_char i prev a row0 row1 b = (\<lambda>(j, prevb, row2).
     if length row1 \<le> j + 1 \<or> length row2 \<le> j + 1 \<or> length row0 \<le> j + 1 then None
     else
       (let m = row1 ! j + (if a \<noteq> b then 1 else 0);
            m = (if 0 < i \<and> 0 < j \<and> prev = b \<and> a = prevb \<and> row0 ! (j - 1) + 1 < m then row0 ! (j - 1) + 1 else m);
            m = (if row1 ! (j + 1) + 1 < m then row1 ! (j + 1) + 1 else m);
            m = (if row2 ! j + 1 < m then row2 ! j + 1 else m)
        in Some (j + 1, b, row2[j + 1 := m])))"

fun dist_chars ::
  "nat \<Rightarrow> 'c \<Rightarrow> 'c \<Rightarrow> nat list \<Rightarrow> nat list \<Rightarrow> 'c list \<Rightarrow> nat \<times> 'c \<times> nat list \<Rightarrow> (nat \<times> 'c \<times> nat list) option" where
  "dist_chars i prev a row0 row1 [] s = Some s"
| "dist_chars i prev a row0 row1 (b # bs) s = do {
     s \<leftarrow> dist_char i prev a row0 row1 b s;
     dist_chars i prev a row0 row1 bs s }"

text \<open>
  The characters of the longer string. The state is \<^verbatim>\<open>I\<close>, \<^verbatim>\<open>PrevA\<close>, \<^verbatim>\<open>PrevB\<close> and the three rows, which change
  places after each character.
\<close>

fun dist_rows ::
  "'c block list \<Rightarrow> 'c list \<Rightarrow> nat \<times> 'c \<times> 'c \<times> nat list \<times> nat list \<times> nat list \<Rightarrow>
    (nat \<times> 'c \<times> 'c \<times> nat list \<times> nat list \<times> nat list) option" where
  "dist_rows bs [] s = Some s"
| "dist_rows bs (a # as) (i, prev, prevb, row0, row1, row2) =
     (if row2 = [] then None
      else do {
        (_, prevb, row2) \<leftarrow> over_blocks (dist_chars i prev a row0 row1) bs (0, prevb, row2[0 := i + 1]);
        dist_rows bs as (i + 1, a, prevb, row1, row2, row0) })"

text \<open>What the stack holds before it is written is \<open>junk\<close> and, for the characters, \<open>c\<close> and \<open>d\<close>.\<close>

definition distance_string ::
  "nat list \<Rightarrow> nat list \<Rightarrow> 'c \<Rightarrow> 'c \<Rightarrow> 'c str \<Rightarrow> 'c str \<Rightarrow> (nat, string, unit) reply option" where
  "distance_string junk0 junk2 c d a b =
     (let (a, b) = (if SLen a < SLen b then (b, a) else (a, b));
          n = SLen b in
      do {
        (_, _, _, _, row1, _) \<leftarrow> over_blocks (dist_rows (SBlocks b)) (SBlocks a)
          (0, c, d, take (n + 1) junk0, [0..<n + 1], take (n + 1) junk2);
        if length row1 \<le> n then None else Some (SUCCESS (row1 ! n)) })"


section \<open>Loops over the blocks of a string\<close>

lemma over_good:
  assumes "\<And>xs ys s. f (xs @ ys) s = do { s \<leftarrow> f xs s; f ys s }" and "\<And>s. f [] s = Some s"
  shows "good_blocks bs \<Longrightarrow> over_blocks f bs s = f (text_of bs) s"
  by (induction bs arbitrary: s) (auto simp: assms read_chars_def split: bind_split)

lemma over_string:
  assumes "\<And>xs ys s. f (xs @ ys) s = do { s \<leftarrow> f xs s; f ys s }" and "\<And>s. f [] s = Some s" and "wf_str b"
  shows "over_blocks f (SBlocks b) s = f (chars_of b) s"
proof (cases "good_blocks (SBlocks b)")
  case True
  then show ?thesis using over_good[OF assms(1,2)] by (simp add: chars_of_def)
next
  case False
  then show ?thesis using assms(2,3) by (auto simp: wf_str_def chars_of_def)
qed

lemma lev_chars_append: "lev_chars c (xs @ ys) s = do { s \<leftarrow> lev_chars c xs s; lev_chars c ys s }"
  by (induction c xs s rule: lev_chars.induct) (auto split: bind_split)

lemma lev_rows_append: "lev_rows as (xs @ ys) s = do { s \<leftarrow> lev_rows as xs s; lev_rows as ys s }"
  by (induction as xs s rule: lev_rows.induct) (auto split: bind_split)

lemma dist_chars_append: "dist_chars i p a r0 r1 (xs @ ys) s = do { s \<leftarrow> dist_chars i p a r0 r1 xs s; dist_chars i p a r0 r1 ys s }"
  by (induction i p a r0 r1 xs s rule: dist_chars.induct) (auto split: bind_split)

lemma dist_rows_append: "dist_rows bs (xs @ ys) s = do { s \<leftarrow> dist_rows bs xs s; dist_rows bs ys s }"
  by (induction bs xs s rule: dist_rows.induct) (auto split: bind_split)

section \<open>The Levenshtein distance\<close>

text \<open>One edit inserts, deletes or replaces a character.\<close>

inductive edit :: "'c list \<Rightarrow> 'c list \<Rightarrow> bool" where
  insert: "edit xs (c # xs)"
| delete: "edit (c # xs) xs"
| replace: "edit (c # xs) (d # xs)"
| later: "edit xs ys \<Longrightarrow> edit (c # xs) (c # ys)"

text \<open>The recursion that the table of the code computes, on reversed prefixes.\<close>

fun ed :: "'c list \<Rightarrow> 'c list \<Rightarrow> nat" where
  "ed [] ys = length ys"
| "ed xs [] = length xs"
| "ed (x # xs) (y # ys) =
     min (ed xs ys + (if x = y then 0 else 1)) (min (ed xs (y # ys) + 1) (ed (x # xs) ys + 1))"

lemma ed_Nil [simp]: "ed xs [] = length xs"
  by (cases xs) auto

lemma ed_insert: "ed xs zs \<le> ed (c # xs) zs + 1"
proof (induction zs)
  case (Cons z zs)
  have "ed xs (z # zs) \<le> ed xs zs + 1" by (cases xs) auto
  then show ?case using Cons.IH by (auto simp: min_def)
qed simp

lemma ed_delete: "ed (c # xs) zs \<le> ed xs zs + 1"
  by (cases zs) auto

lemma ed_replace: "ed (c # xs) zs \<le> ed (d # xs) zs + 1" for c d
  by (induction zs) (auto simp: min_def)

lemma ed_edit: "edit xs ys \<Longrightarrow> ed xs zs \<le> ed ys zs + 1"
proof (induction arbitrary: zs rule: edit.induct)
  case (later xs ys c)
  show ?case
  proof (induction zs)
    case Nil
    then show ?case using later.IH[of "[]"] by simp
  next
    case (Cons z zs)
    then show ?case using later.IH[of zs] later.IH[of "z # zs"] by (auto simp: min_def)
  qed
qed (rule ed_insert ed_delete ed_replace)+

lemma ed_same: "ed xs xs = 0"
  by (induction xs) auto

lemma edits_ge: "(edit ^^ n) xs ys \<Longrightarrow> ed xs ys \<le> n"
proof (induction n arbitrary: xs)
  case 0
  then show ?case by (simp add: ed_same)
next
  case (Suc n)
  then obtain zs where "edit xs zs" "(edit ^^ n) zs ys" by (metis relpowp_Suc_D2)
  then show ?case using Suc.IH[of zs] ed_edit[of xs zs ys] by simp
qed

lemma edits_later: "(edit ^^ n) xs ys \<Longrightarrow> (edit ^^ n) (c # xs) (c # ys)"
proof (induction n arbitrary: ys)
  case (Suc n)
  then obtain zs where "(edit ^^ n) xs zs" "edit zs ys" by auto
  then show ?case using Suc.IH[of zs] edit.later[of zs ys c] by auto
qed simp

lemma edits_then: "edit xs ys \<Longrightarrow> (edit ^^ n) ys zs \<Longrightarrow> (edit ^^ Suc n) xs zs"
  by (metis relpowp_Suc_I2)

lemma edits_empty: "(edit ^^ length xs) xs []" "(edit ^^ length xs) [] xs"
proof -
  show "(edit ^^ length xs) xs []"
  proof (induction xs)
    case (Cons x xs)
    then show ?case using edits_then[OF edit.delete] by simp
  qed simp
  show "(edit ^^ length xs) [] xs" by (induction xs) (auto intro: edit.insert)
qed

lemma edits_ed: "(edit ^^ ed xs ys) xs ys"
proof (induction xs ys rule: ed.induct)
  case (1 ys)
  show ?case unfolding ed.simps by (rule edits_empty)
next
  case (2 x xs)
  show ?case unfolding ed.simps by (rule edits_empty)
next
  case (3 x xs y ys)
  consider "ed (x # xs) (y # ys) = ed xs ys" "x = y" | "ed (x # xs) (y # ys) = Suc (ed xs ys)"
    | "ed (x # xs) (y # ys) = Suc (ed xs (y # ys))" | "ed (x # xs) (y # ys) = Suc (ed (x # xs) ys)"
  proof -
    assume r: "ed (x # xs) (y # ys) = ed xs ys \<Longrightarrow> x = y \<Longrightarrow> thesis" "ed (x # xs) (y # ys) = Suc (ed xs ys) \<Longrightarrow> thesis"
      "ed (x # xs) (y # ys) = Suc (ed xs (y # ys)) \<Longrightarrow> thesis" "ed (x # xs) (y # ys) = Suc (ed (x # xs) ys) \<Longrightarrow> thesis"
    have "min a (min b c) = a \<or> min a (min b c) = b \<or> min a (min b c) = c" for a b c :: nat by linarith
    from this[of "ed xs ys + (if x = y then 0 else 1)" "ed xs (y # ys) + 1" "ed (x # xs) ys + 1"]
    show thesis by (elim disjE; cases "x = y") (use r in \<open>simp_all only: ed.simps if_True if_False refl add_0_right Suc_eq_plus1\<close>)
  qed
  then show ?case
  proof cases
    case 1
    then show ?thesis using edits_later[OF "3.IH"(1)] by simp
  next
    case 2
    then show ?thesis using edits_then[OF edit.replace edits_later[OF "3.IH"(1)]] by simp
  next
    case 3
    then show ?thesis using edits_then[OF edit.delete "3.IH"(2)] by simp
  next
    case 4
    have "(edit ^^ ed (x # xs) ys) (x # xs) ys" "edit ys (y # ys)" using "3.IH"(3) edit.insert by auto
    then show ?thesis unfolding 4 by (rule relpowp_Suc_I)
  qed
qed


lemma edit_append: "edit xs ys \<Longrightarrow> edit (xs @ zs) (ys @ zs)"
  by (induction rule: edit.induct) (auto intro: edit.intros)

lemma edit_behind: "edit xs ys \<Longrightarrow> edit (zs @ xs) (zs @ ys)"
  by (induction zs) (auto intro: edit.later)

lemma edit_rev: "edit xs ys \<Longrightarrow> edit (rev xs) (rev ys)"
proof (induction rule: edit.induct)
  case (insert xs c)
  show ?case using edit_behind[OF edit.insert[of "[]" c], of "rev xs"] by simp
next
  case (delete c xs)
  show ?case using edit_behind[OF edit.delete[of c "[]"], of "rev xs"] by simp
next
  case (replace c xs d)
  show ?case using edit_behind[OF edit.replace[of c "[]" d], of "rev xs"] by simp
qed (simp add: edit_append)

lemma edits_rev: "(edit ^^ n) xs ys \<Longrightarrow> (edit ^^ n) (rev xs) (rev ys)"
proof (induction n arbitrary: ys)
  case (Suc n)
  then obtain zs where "(edit ^^ n) xs zs" "edit zs ys" by auto
  then show ?case using Suc.IH[of zs] edit_rev[of zs ys] by auto
qed simp

text \<open>The distance on reversed strings is the least number of edits.\<close>

lemma ed_least: "(edit ^^ ed (rev xs) (rev ys)) xs ys \<and> (\<forall>n < ed (rev xs) (rev ys). \<not> (edit ^^ n) xs ys)"
  using edits_rev[OF edits_ed[of "rev xs" "rev ys"]] edits_rev[of _ xs ys] edits_ge[of _ "rev xs" "rev ys"] by (fastforce simp: not_less)

section \<open>The row of ~\<close>

text \<open>The row of the distances of all prefixes of \<open>as\<close> that are not empty to a reversed prefix.\<close>

definition lev_row :: "'c list \<Rightarrow> 'c list \<Rightarrow> nat list" where
  "lev_row as rs = map (\<lambda>i. ed (rev (take (Suc i) as)) rs) [0..<length as]"

lemma length_lev_row [simp]: "length (lev_row as rs) = length as"
  by (simp add: lev_row_def)

lemma lev_row_nth: "i < length as \<Longrightarrow> lev_row as rs ! i = ed (rev (take (Suc i) as)) rs"
  by (simp add: lev_row_def)

text \<open>The part of the row before \<open>pos\<close> is that of the next prefix.\<close>

definition lev_mixed :: "'c list \<Rightarrow> 'c \<Rightarrow> 'c list \<Rightarrow> nat \<Rightarrow> nat list \<Rightarrow> bool" where
  "lev_mixed as c rs pos cache \<longleftrightarrow> cache = take pos (lev_row as (c # rs)) @ drop pos (lev_row as rs)"

lemma lev_char_spec:
  assumes "as = pre @ a # post" and "lev_mixed as c rs (length pre) cache" and "dist = ed (rev pre) rs"
    and "r = ed (rev pre) (c # rs) \<or> pre = [] \<and> r = length rs"
  shows "\<exists>cache'. lev_char c a (length pre, dist, r, cache) =
      Some (Suc (length pre), ed (rev (pre @ [a])) rs, ed (rev (pre @ [a])) (c # rs), cache') \<and>
    lev_mixed as c rs (Suc (length pre)) cache'"
proof -
  let ?n = "length pre"
  have n: "?n < length as" using assms(1) by simp
  have tk: "take (Suc ?n) as = pre @ [a]" using assms(1) by simp
  have len: "length cache = length as" using assms(2) n by (simp add: lev_mixed_def)
  have at: "cache ! ?n = ed (rev (pre @ [a])) rs"
    using assms(2) n tk by (simp add: lev_mixed_def nth_append lev_row_nth)
  let ?d = "ed (rev (pre @ [a])) rs" and ?db = "if c = a then dist else dist + 1"
  have new: "(if r < ?d then (if r < ?db then r + 1 else ?db) else (if ?d < ?db then ?d + 1 else ?db)) = ed (rev (pre @ [a])) (c # rs)"
    using assms(3,4) by (auto simp: min_def)
  have "lev_mixed as c rs (Suc ?n) (cache[?n := ed (rev (pre @ [a])) (c # rs)])"
    using assms(2) n tk unfolding lev_mixed_def
    by (simp add: list_update_append take_Suc_conv_app_nth lev_row_nth Cons_nth_drop_Suc[symmetric])
  moreover have "(length cache \<le> ?n) = False" using n len by simp
  then have "lev_char c a (?n, dist, r, cache) =
      Some (Suc ?n, ?d, ed (rev (pre @ [a])) (c # rs), cache[?n := ed (rev (pre @ [a])) (c # rs)])"
    by (simp only: lev_char_def prod.case Let_def at new if_False Suc_eq_plus1)
  ultimately show ?thesis by blast
qed

lemma lev_chars_spec:
  "as = pre @ post \<Longrightarrow> lev_mixed as c rs (length pre) cache \<Longrightarrow> dist = ed (rev pre) rs \<Longrightarrow>
   r = ed (rev pre) (c # rs) \<or> pre = [] \<and> post \<noteq> [] \<and> r = length rs \<Longrightarrow>
   \<exists>dist' cache'. lev_chars c post (length pre, dist, r, cache) = Some (length as, dist', ed (rev as) (c # rs), cache') \<and>
     lev_mixed as c rs (length as) cache'"
proof (induction post arbitrary: pre dist r cache)
  case (Cons a post)
  have r: "r = ed (rev pre) (c # rs) \<or> pre = [] \<and> r = length rs" using Cons.prems(4) by auto
  from lev_char_spec[OF Cons.prems(1-3) r] obtain cache' where c':
    "lev_char c a (length pre, dist, r, cache) = Some (Suc (length pre), ed (rev (pre @ [a])) rs, ed (rev (pre @ [a])) (c # rs), cache')"
    "lev_mixed as c rs (Suc (length pre)) cache'" by blast
  have "as = (pre @ [a]) @ post" "lev_mixed as c rs (length (pre @ [a])) cache'" using Cons.prems(1) c'(2) by simp_all
  from Cons.IH[OF this refl disjI1[OF refl]] show ?case using c'(1) by simp
qed auto

lemma lev_rows_spec:
  assumes "wf_str a" and "chars_of a \<noteq> []"
  shows "lev_rows (SBlocks a) ys (length us, r, lev_row (chars_of a) (rev us)) =
    Some (length us + length ys, if ys = [] then r else ed (rev (chars_of a)) (rev (us @ ys)), lev_row (chars_of a) (rev (us @ ys)))"
proof (induction ys arbitrary: us r)
  case (Cons y ys)
  let ?as = "chars_of a"
  have "over_blocks (lev_chars y) (SBlocks a) s = lev_chars y ?as s" for s
    by (rule over_string[OF lev_chars_append _ assms(1)]) simp
  moreover obtain dist' cache' where "lev_chars y ?as (0, length us, length us, lev_row ?as (rev us)) =
      Some (length ?as, dist', ed (rev ?as) (y # rev us), cache')" "lev_mixed ?as y (rev us) (length ?as) cache'"
    using lev_chars_spec[of ?as "[]" ?as y "rev us" "lev_row ?as (rev us)" "length us" "length us"] assms(2) by (auto simp: lev_mixed_def)
  moreover from this(2) have "cache' = lev_row ?as (rev (us @ [y]))" by (simp add: lev_mixed_def)
  ultimately show ?case using Cons.IH[of "us @ [y]" "ed (rev ?as) (y # rev us)"] by auto
qed simp

lemma levenshtein_spec:
  assumes "wf_str a" and "wf_str b"
  shows "levenshtein False a b = Some (SUCCESS (ed (rev (chars_of a)) (rev (chars_of b))))"
proof -
  let ?as = "chars_of a" and ?bs = "chars_of b"
  note la = wf_length[OF assms(1)] and lb = wf_length[OF assms(2)]
  show ?thesis
  proof (cases "?as = [] \<or> ?bs = []")
    case True
    then show ?thesis using la lb by (auto simp: levenshtein_def)
  next
    case False
    have "over_blocks (lev_rows (SBlocks a)) (SBlocks b) s = lev_rows (SBlocks a) ?bs s" for s
      by (rule over_string[OF lev_rows_append _ assms(2)]) simp
    moreover have "lev_row ?as [] = map (\<lambda>i. i + 1) [0..<SLen a]" using la by (auto simp: lev_row_def)
    ultimately show ?thesis using False la lb lev_rows_spec[OF assms(1), of ?bs "[]" 0] by (simp add: levenshtein_def)
  qed
qed


section \<open>Alignments\<close>

text \<open>
  What \<open>distance\<close> counts: an alignment of two strings in which each character is kept, replaced, inserted or deleted, or
  exchanged with its neighbour.
\<close>

inductive align :: "nat \<Rightarrow> 'c list \<Rightarrow> 'c list \<Rightarrow> bool" where
  nothing: "align 0 [] []"
| keep: "align n xs ys \<Longrightarrow> align n (c # xs) (c # ys)"
| insertion: "align n xs ys \<Longrightarrow> align (Suc n) xs (c # ys)"
| deletion: "align n xs ys \<Longrightarrow> align (Suc n) (c # xs) ys"
| replacement: "align n xs ys \<Longrightarrow> align (Suc n) (c # xs) (d # ys)"
| exchange: "align n xs ys \<Longrightarrow> align (Suc n) (c # d # xs) (d # c # ys)"

function osa :: "'c list \<Rightarrow> 'c list \<Rightarrow> nat" where
  "osa [] ys = length ys"
| "osa (x # xs) [] = Suc (length xs)"
| "osa (x # xs) (y # ys) =
     (let m = min (osa xs ys + (if x = y then 0 else 1)) (min (osa xs (y # ys) + 1) (osa (x # xs) ys + 1)) in
      if xs \<noteq> [] \<and> ys \<noteq> [] \<and> hd xs = y \<and> x = hd ys then min m (osa (tl xs) (tl ys) + 1) else m)"
  by pat_completeness auto
termination by (relation "measure (\<lambda>(xs, ys). length xs + length ys)") auto

declare osa.simps(3) [simp del]

lemma osa_Nil [simp]: "osa xs [] = length xs"
  by (cases xs) auto

lemma osa_step:
  "osa (x # xs) (y # ys) \<le> osa xs ys + (if x = y then 0 else 1)"
  "osa (x # xs) (y # ys) \<le> osa xs (y # ys) + 1"
  "osa (x # xs) (y # ys) \<le> osa (x # xs) ys + 1"
  "xs \<noteq> [] \<Longrightarrow> ys \<noteq> [] \<Longrightarrow> hd xs = y \<Longrightarrow> x = hd ys \<Longrightarrow> osa (x # xs) (y # ys) \<le> osa (tl xs) (tl ys) + 1"
proof -
  have h: "(if P then min (min a (min b c)) d else min a (min b c)) \<le> a" "(if P then min (min a (min b c)) d else min a (min b c)) \<le> b"
    "(if P then min (min a (min b c)) d else min a (min b c)) \<le> c" "P \<Longrightarrow> (if P then min (min a (min b c)) d else min a (min b c)) \<le> d"
    for P and a b c d :: nat by (simp_all add: min_le_iff_disj)
  show "osa (x # xs) (y # ys) \<le> osa xs ys + (if x = y then 0 else 1)" unfolding osa.simps(3) Let_def by (rule h)
  show "osa (x # xs) (y # ys) \<le> osa xs (y # ys) + 1" unfolding osa.simps(3)[of x xs y ys] Let_def by (rule h)
  show "osa (x # xs) (y # ys) \<le> osa (x # xs) ys + 1" unfolding osa.simps(3)[of x xs y ys] Let_def by (rule h)
  show "xs \<noteq> [] \<Longrightarrow> ys \<noteq> [] \<Longrightarrow> hd xs = y \<Longrightarrow> x = hd ys \<Longrightarrow> osa (x # xs) (y # ys) \<le> osa (tl xs) (tl ys) + 1"
    unfolding osa.simps(3)[of x xs y ys] Let_def by (rule h) blast
qed

lemma osa_insertion: "osa xs (c # ys) \<le> Suc (osa xs ys)"
  using osa_step(3)[of _ _ c ys] by (cases xs) simp_all

lemma osa_deletion: "osa (c # xs) ys \<le> Suc (osa xs ys)"
  using osa_step(2)[of c xs] by (cases ys) simp_all

lemma osa_exchange: "osa (c # d # xs) (d # c # ys) \<le> Suc (osa xs ys)"
  using osa_step(4)[of "d # xs" "c # ys" d c] by simp

lemma align_osa: "align n xs ys \<Longrightarrow> osa xs ys \<le> n"
proof (induction rule: align.induct)
  case (keep n xs ys c)
  then show ?case using osa_step(1)[of c xs c ys] by simp
next
  case (insertion n xs ys c)
  then show ?case using osa_insertion[of xs c ys] by simp
next
  case (deletion n xs ys c)
  then show ?case using osa_deletion[of c xs ys] by simp
next
  case (replacement n xs ys c d)
  then show ?case using osa_step(1)[of c xs d ys] by (auto split: if_splits)
next
  case (exchange n xs ys c d)
  then show ?case using osa_exchange[of c d xs ys] by simp
qed simp

lemma align_empty: "align (length ys) [] ys" "align (length xs) xs []"
proof -
  show "align (length ys) [] ys" by (induction ys) (simp_all add: align.nothing align.insertion)
  show "align (length xs) xs []" by (induction xs) (simp_all add: align.nothing align.deletion)
qed

lemma osa_align: "align (osa xs ys) xs ys"
proof (induction xs ys rule: osa.induct)
  case (1 ys)
  show ?case by (simp add: align_empty)
next
  case (2 x xs)
  show ?case using align_empty(2)[of "x # xs"] by simp
next
  case (3 x xs y ys)
  let ?m = "min (osa xs ys + (if x = y then 0 else 1)) (min (osa xs (y # ys) + 1) (osa (x # xs) ys + 1))"
  let ?swap = "xs \<noteq> [] \<and> ys \<noteq> [] \<and> hd xs = y \<and> x = hd ys"
  have "?m = osa xs ys + (if x = y then 0 else 1) \<or> ?m = osa xs (y # ys) + 1 \<or> ?m = osa (x # xs) ys + 1" by linarith
  moreover have "align (osa xs ys + (if x = y then 0 else 1)) (x # xs) (y # ys)"
    using align.keep[OF "3.IH"(1), of x] align.replacement[OF "3.IH"(1), of x y] by (cases "x = y") simp_all
  moreover have "align (osa xs (y # ys) + 1) (x # xs) (y # ys)" "align (osa (x # xs) ys + 1) (x # xs) (y # ys)"
    using align.deletion[OF "3.IH"(2), of x] align.insertion[OF "3.IH"(3), of y] by (simp_all only: Suc_eq_plus1)
  ultimately have m: "align ?m (x # xs) (y # ys)" by metis
  let ?d = "osa (tl xs) (tl ys) + 1"
  have e: "osa (x # xs) (y # ys) = (if ?swap then min ?m ?d else ?m)" by (simp only: osa.simps(3) Let_def)
  show ?case
  proof (cases "?swap \<and> ?d < ?m")
    case True
    then have sw: ?swap and lt: "?d < ?m" by blast+
    from sw obtain x2 xs2 y2 ys2 where s: "xs = x2 # xs2" "ys = y2 # ys2" "x2 = y" "x = y2" by (cases xs; cases ys) auto
    have "align (osa (tl xs) (tl ys)) (tl xs) (tl ys)" using "3.IH"(4)[OF refl sw] .
    then have "align ?d (x # xs) (y # ys)" using s by (simp add: align.exchange)
    moreover have "osa (x # xs) (y # ys) = ?d" unfolding e if_P[OF sw] using lt by (rule min_absorb2[OF less_imp_le])
    ultimately show ?thesis by (simp only:)
  next
    case False
    then have "osa (x # xs) (y # ys) = ?m" unfolding e by (cases ?swap) (simp_all only: if_True if_False simp_thms not_less min_absorb1)
    then show ?thesis using m by (simp only:)
  qed
qed

lemma align_append: "align m xs ys \<Longrightarrow> align n us vs \<Longrightarrow> align (m + n) (xs @ us) (ys @ vs)"
  by (induction rule: align.induct) (simp_all add: align.keep align.insertion align.deletion align.replacement align.exchange)

lemma align_rev: "align n xs ys \<Longrightarrow> align n (rev xs) (rev ys)"
proof (induction rule: align.induct)
  case (keep n xs ys c)
  then show ?case using align_append[OF keep.IH align.keep[OF align.nothing]] by simp
next
  case (insertion n xs ys c)
  then show ?case using align_append[OF insertion.IH align.insertion[OF align.nothing]] by simp
next
  case (deletion n xs ys c)
  then show ?case using align_append[OF deletion.IH align.deletion[OF align.nothing]] by simp
next
  case (replacement n xs ys c d)
  then show ?case using align_append[OF replacement.IH align.replacement[OF align.nothing]] by simp
next
  case (exchange n xs ys c d)
  then show ?case using align_append[OF exchange.IH align.exchange[OF align.nothing]] by simp
qed (simp add: align.nothing)

lemma align_sym: "align n xs ys \<Longrightarrow> align n ys xs"
  by (induction rule: align.induct) (simp_all add: align.intros)

lemma osa_sym: "osa xs ys = osa ys xs"
  using align_osa[OF align_sym[OF osa_align[of xs ys]]] align_osa[OF align_sym[OF osa_align[of ys xs]]] by simp

lemma osa_least: "align (osa (rev xs) (rev ys)) xs ys \<and> (\<forall>n < osa (rev xs) (rev ys). \<not> align n xs ys)"
  using align_rev[OF osa_align[of "rev xs" "rev ys"]] align_osa[OF align_rev[of _ xs ys]] by (fastforce simp: not_less)


section \<open>The rows of distance\<close>

text \<open>The distances of a reversed prefix to all prefixes of \<open>bs\<close>.\<close>

definition osa_row :: "'c list \<Rightarrow> 'c list \<Rightarrow> nat list" where
  "osa_row bs rs = map (\<lambda>j. osa rs (rev (take j bs))) [0..<Suc (length bs)]"

lemma length_osa_row [simp]: "length (osa_row bs rs) = Suc (length bs)"
  by (simp add: osa_row_def)

lemma osa_row_nth: "j \<le> length bs \<Longrightarrow> osa_row bs rs ! j = osa rs (rev (take j bs))"
  by (simp add: osa_row_def del: upt_Suc)

text \<open>
  \<open>rows_at\<close>: the rows that the inner loop reads are those of the prefixes that lack the last one and the last two
  characters; the first one is read only from the second character on.
\<close>

definition rows_at :: "'c list \<Rightarrow> 'c list \<Rightarrow> nat \<Rightarrow> 'c \<Rightarrow> nat list \<Rightarrow> nat list \<Rightarrow> bool" where
  "rows_at bs rs i prev row0 row1 \<longleftrightarrow> i = length rs \<and> row1 = osa_row bs rs \<and> length row0 = Suc (length bs) \<and>
     (rs \<noteq> [] \<longrightarrow> row0 = osa_row bs (tl rs) \<and> prev = hd rs)"

lemma dist_char_spec:
  assumes "bs = pre @ b # post" and "rows_at bs rs i prev row0 row1" and "pre \<noteq> [] \<longrightarrow> prevb = last pre"
    and "length row2 = Suc (length bs)" and "take (Suc (length pre)) row2 = take (Suc (length pre)) (osa_row bs (a # rs))"
  shows "\<exists>row2'. dist_char i prev a row0 row1 b (length pre, prevb, row2) = Some (Suc (length pre), b, row2') \<and>
    length row2' = Suc (length bs) \<and> take (Suc (Suc (length pre))) row2' = take (Suc (Suc (length pre))) (osa_row bs (a # rs))"
proof -
  let ?j = "length pre" and ?ys = "rev pre"
  have j: "Suc ?j \<le> length bs" using assms(1) by simp
  have tk: "rev (take ?j bs) = ?ys" "rev (take (Suc ?j) bs) = b # ?ys" using assms(1) by simp_all
  have i: "i = length rs" and r1: "row1 = osa_row bs rs" and l0: "length row0 = Suc (length bs)"
    using assms(2) by (auto simp: rows_at_def)
  have r1j: "row1 ! ?j = osa rs ?ys" "row1 ! (?j + 1) = osa rs (b # ?ys)" using j tk by (simp_all add: r1 osa_row_nth)
  have "row2 ! ?j = take (Suc ?j) row2 ! ?j" by simp
  also have "\<dots> = osa (a # rs) ?ys" unfolding assms(5) using j tk by (simp add: osa_row_nth)
  finally have r2j: "row2 ! ?j = osa (a # rs) ?ys" .
  let ?swap = "rs \<noteq> [] \<and> ?ys \<noteq> [] \<and> hd rs = b \<and> a = hd ?ys"
  have cond: "0 < i \<and> 0 < ?j \<and> prev = b \<and> a = prevb \<longleftrightarrow> ?swap"
    using assms(2,3) by (auto simp: rows_at_def hd_rev)
  have r0j: "row0 ! (?j - 1) = osa (tl rs) (tl ?ys)" if ?swap
  proof -
    have "rev (take (?j - 1) bs) = tl ?ys" using assms(1) that by (cases pre rule: rev_cases) simp_all
    then show ?thesis using assms(2) that j by (simp add: rows_at_def osa_row_nth)
  qed
  let ?m0 = "osa rs ?ys + (if a \<noteq> b then 1 else 0)" and ?d = "row0 ! (?j - 1) + 1"
  let ?m1 = "if 0 < i \<and> 0 < ?j \<and> prev = b \<and> a = prevb \<and> ?d < ?m0 then ?d else ?m0"
  let ?m2 = "if osa rs (b # ?ys) + 1 < ?m1 then osa rs (b # ?ys) + 1 else ?m1"
  let ?m3 = "if osa (a # rs) ?ys + 1 < ?m2 then osa (a # rs) ?ys + 1 else ?m2"
  have mins: "(if l < (if u < m then u else m) then l else (if u < m then u else m)) = min (min u l) m" for l u m :: nat
    by auto
  have "?m3 = osa (a # rs) (b # ?ys)"
  proof (cases ?swap)
    case True
    then have "0 < i \<and> 0 < ?j \<and> prev = b \<and> a = prevb" using cond by blast
    then have m1: "?m1 = min ?m0 ?d" by (simp add: min_def)
    have "osa (a # rs) (b # ?ys) = min (min ?m0 (min (osa rs (b # ?ys) + 1) (osa (a # rs) ?ys + 1))) ?d"
      unfolding osa.simps(3) Let_def if_P[OF True] r0j[OF True] by simp
    then show ?thesis unfolding m1 mins by (simp only: ac_simps)
  next
    case False
    then have "\<not> (0 < i \<and> 0 < ?j \<and> prev = b \<and> a = prevb)" using cond by blast
    then have m1: "?m1 = ?m0" by auto
    have "osa (a # rs) (b # ?ys) = min ?m0 (min (osa rs (b # ?ys) + 1) (osa (a # rs) ?ys + 1))"
      unfolding osa.simps(3) Let_def if_not_P[OF False] by simp
    then show ?thesis unfolding m1 mins by (simp only: ac_simps)
  qed
  moreover have "dist_char i prev a row0 row1 b (?j, prevb, row2) = Some (Suc ?j, b, row2[Suc ?j := ?m3])"
  proof -
    have "(length row1 \<le> ?j + 1 \<or> length row2 \<le> ?j + 1 \<or> length row0 \<le> ?j + 1) = False" using j l0 r1 assms(4) by simp
    then show ?thesis by (simp only: dist_char_def prod.case Let_def if_False r1j r2j Suc_eq_plus1)
  qed
  moreover have "take (Suc (Suc ?j)) (row2[Suc ?j := osa (a # rs) (b # ?ys)]) = take (Suc (Suc ?j)) (osa_row bs (a # rs))"
  proof -
    have "Suc ?j < length row2" "Suc ?j < length (osa_row bs (a # rs))" using j assms(4) by simp_all
    then have "take (Suc (Suc ?j)) (row2[Suc ?j := v]) = take (Suc ?j) row2 @ [v]"
      and "take (Suc (Suc ?j)) (osa_row bs (a # rs)) = take (Suc ?j) (osa_row bs (a # rs)) @ [osa_row bs (a # rs) ! Suc ?j]" for v
      by (simp_all only: take_Suc_conv_app_nth length_list_update take_update_cancel nth_list_update_eq order_refl)
    then show ?thesis using assms(5) osa_row_nth[OF j] tk(2) by (simp only:)
  qed
  ultimately show ?thesis
    by (intro exI[of _ "row2[Suc ?j := ?m3]"]) (simp only: length_list_update assms(4) simp_thms)
qed

lemma dist_chars_spec:
  "bs = pre @ post \<Longrightarrow> rows_at bs rs i prev row0 row1 \<Longrightarrow> (pre \<noteq> [] \<longrightarrow> prevb = last pre) \<Longrightarrow> length row2 = Suc (length bs) \<Longrightarrow>
   take (Suc (length pre)) row2 = take (Suc (length pre)) (osa_row bs (a # rs)) \<Longrightarrow>
   \<exists>prevb'. dist_chars i prev a row0 row1 post (length pre, prevb, row2) = Some (length bs, prevb', osa_row bs (a # rs))"
proof (induction post arbitrary: pre prevb row2)
  case (Cons b post)
  from dist_char_spec[OF Cons.prems] obtain row2' where r:
    "dist_char i prev a row0 row1 b (length pre, prevb, row2) = Some (Suc (length pre), b, row2')" "length row2' = Suc (length bs)"
    "take (Suc (Suc (length pre))) row2' = take (Suc (Suc (length pre))) (osa_row bs (a # rs))" by blast
  have "bs = (pre @ [b]) @ post" "pre @ [b] \<noteq> [] \<longrightarrow> b = last (pre @ [b])"
    "take (Suc (length (pre @ [b]))) row2' = take (Suc (length (pre @ [b]))) (osa_row bs (a # rs))" using Cons.prems(1) r(3) by simp_all
  from Cons.IH[OF this(1) Cons.prems(2) this(2) r(2) this(3)] show ?case using r(1) by simp
qed simp

lemma dist_rows_spec:
  assumes "wf_str b"
  shows "rows_at (chars_of b) (rev us) i prev row0 row1 \<Longrightarrow> length row2 = Suc (length (chars_of b)) \<Longrightarrow>
    \<exists>i' prev' prevb' row0' row2'. dist_rows (SBlocks b) xs (i, prev, prevb, row0, row1, row2) =
      Some (i', prev', prevb', row0', osa_row (chars_of b) (rev (us @ xs)), row2')"
proof (induction xs arbitrary: us i prev prevb row0 row1 row2)
  case Nil
  then show ?case by (simp add: rows_at_def)
next
  case (Cons x xs)
  let ?bs = "chars_of b"
  have i: "i = length us" and l0: "length row0 = Suc (length ?bs)" and r1: "row1 = osa_row ?bs (rev us)"
    using Cons.prems(1) by (auto simp: rows_at_def)
  have ne: "row2 \<noteq> []" using Cons.prems(2) by auto
  have "take (Suc 0) (row2[0 := i + 1]) = take (Suc 0) (osa_row ?bs (x # rev us))"
    using ne i by (cases row2) (simp_all add: osa_row_def upt_conv_Cons del: upt_Suc)
  then obtain prevb' where "dist_chars i prev x row0 row1 ?bs (0, prevb, row2[0 := i + 1]) =
      Some (length ?bs, prevb', osa_row ?bs (x # rev us))"
    using dist_chars_spec[of ?bs "[]" ?bs "rev us" i prev row0 row1 prevb "row2[0 := i + 1]" x] Cons.prems by auto
  moreover have "over_blocks (dist_chars i prev x row0 row1) (SBlocks b) s = dist_chars i prev x row0 row1 ?bs s" for s
    by (rule over_string[OF dist_chars_append _ assms]) simp
  moreover have "rows_at ?bs (rev (us @ [x])) (i + 1) x row1 (osa_row ?bs (x # rev us))"
    using i r1 by (simp add: rows_at_def)
  ultimately show ?case using Cons.IH[of "us @ [x]" "i + 1" x row1 "osa_row ?bs (x # rev us)" row0 prevb'] l0 ne by simp
qed

lemma distance_string_spec:
  assumes "wf_str a" and "wf_str b" and "min (SLen a) (SLen b) < length junk0" and "min (SLen a) (SLen b) < length junk2"
  shows "distance_string junk0 junk2 c d a b = Some (SUCCESS (osa (rev (chars_of a)) (rev (chars_of b))))"
proof -
  have main: "\<exists>i p q r0 r2. over_blocks (dist_rows (SBlocks y)) (SBlocks x) (0, c, d, take (SLen y + 1) junk0, [0..<SLen y + 1], take (SLen y + 1) junk2) =
      Some (i, p, q, r0, osa_row (chars_of y) (rev (chars_of x)), r2)"
    if "wf_str x" "wf_str y" "SLen y < length junk0" "SLen y < length junk2" for x y
  proof -
    have ly: "SLen y = length (chars_of y)" using wf_length[OF that(2)] by simp
    have "over_blocks (dist_rows (SBlocks y)) (SBlocks x) s = dist_rows (SBlocks y) (chars_of x) s" for s
      by (rule over_string[OF dist_rows_append _ that(1)]) simp
    moreover have "rows_at (chars_of y) (rev []) 0 c (take (SLen y + 1) junk0) [0..<SLen y + 1]"
      using that(3) ly by (simp add: rows_at_def osa_row_def del: upt_Suc) (auto intro!: nth_equalityI)
    moreover have "length (take (SLen y + 1) junk2) = Suc (length (chars_of y))" using that(4) ly by simp
    ultimately show ?thesis using dist_rows_spec[OF that(2), of "[]"] by fastforce
  qed
  have at: "osa_row (chars_of y) r ! SLen y = osa r (rev (chars_of y))" "SLen y < length (osa_row (chars_of y) r)" if "wf_str y" for y :: "'a str" and r
    using wf_length[OF that] by (simp_all add: osa_row_nth)
  show ?thesis
  proof (cases "SLen a < SLen b")
    case True
    then show ?thesis using main[OF assms(2,1)] at[OF assms(1)] assms(3,4) osa_sym[of "rev (chars_of b)"]
      by (auto simp: distance_string_def simp del: upt_Suc)
  next
    case False
    then show ?thesis using main[OF assms(1,2)] at[OF assms(2)] assms(3,4)
      by (auto simp: distance_string_def simp del: upt_Suc)
  qed
qed


section \<open>The property\<close>

text \<open>
  C38: \<open>~\<close> returns the least number of insertions, deletions and replacements of single characters that turn one string into
  the other; \<open>distance\<close> returns the least number when exchanges of neighbours count too but no character takes
  part in two edits, whatever the rows held before; it does not depend on the order of its arguments.
\<close>

theorem string_distance_correct:
  assumes "wf_str a" and "wf_str b" and "same \<longrightarrow> a = b"
    and "min (SLen a) (SLen b) < length junk0" and "min (SLen a) (SLen b) < length junk2"
  shows "\<exists>n m. levenshtein same a b = Some (SUCCESS n) \<and>
    (edit ^^ n) (chars_of a) (chars_of b) \<and> (\<forall>k < n. \<not> (edit ^^ k) (chars_of a) (chars_of b)) \<and>
    distance_string junk0 junk2 c d a b = Some (SUCCESS m) \<and> distance_string junk0 junk2 c d b a = Some (SUCCESS m) \<and>
    align m (chars_of a) (chars_of b) \<and> (\<forall>k < m. \<not> align k (chars_of a) (chars_of b))"
proof -
  let ?n = "ed (rev (chars_of a)) (rev (chars_of b))" and ?m = "osa (rev (chars_of a)) (rev (chars_of b))"
  have "levenshtein same a b = Some (SUCCESS ?n)"
  proof (cases same)
    case True
    then show ?thesis using assms(3) by (simp add: levenshtein_def ed_same)
  next
    case False
    then show ?thesis using levenshtein_spec[OF assms(1,2)] by simp
  qed
  moreover have "distance_string junk0 junk2 c d b a = Some (SUCCESS ?m)"
    using distance_string_spec[OF assms(2,1), of junk0 junk2] assms(4,5) osa_sym by (simp add: min.commute)
  ultimately show ?thesis
    using ed_least[of "chars_of a" "chars_of b"] osa_least[of "chars_of a" "chars_of b"]
      distance_string_spec[OF assms(1,2,4,5), of c d] by blast
qed

theorem string_distance_correct_witness:
  "\<exists>n m. levenshtein False (str_of [[1, 2], [3]]) (str_of [[2], [1 :: nat]]) = Some (SUCCESS n) \<and>
     (edit ^^ n) (chars_of (str_of [[1, 2], [3]])) (chars_of (str_of [[2], [1 :: nat]])) \<and>
     distance_string [0, 0, 0] [0, 0, 0] 0 0 (str_of [[1, 2], [3]]) (str_of [[2], [1 :: nat]]) = Some (SUCCESS m) \<and>
     align m (chars_of (str_of [[1, 2], [3]])) (chars_of (str_of [[2], [1 :: nat]]))"
proof -
  have wf: "wf_str (str_of [[1, 2], [3 :: nat]])" "wf_str (str_of [[2], [1 :: nat]])" by (simp_all add: wf_str_def str_of_def)
  have len: "SLen (str_of [[1, 2], [3 :: nat]]) = 3" "SLen (str_of [[2], [1 :: nat]]) = 2" by (simp_all add: str_of_def)
  show ?thesis using string_distance_correct[OF wf, of False "[0, 0, 0]" "[0, 0, 0]" 0 0] unfolding len by simp blast
qed

end
