(* ===== verification/UtilBase16.thy ===== *)
theory UtilBase16
  imports StringDistance
begin

text \<open>
  Hexadecimal encoding of strings: \<^verbatim>\<open>Encode\<close> and \<^verbatim>\<open>Decode\<close> of \<^verbatim>\<open>dev/src/lib/Util/Base16.c\<close>. A \<^verbatim>\<open>char\<close> is signed there.
\<close>

unbundle bit_operations_syntax

section \<open>The code\<close>

text \<open>\<^verbatim>\<open>Std$String$new_length\<close>: one block, and one that ends the string.\<close>

definition new_length :: "'c list \<Rightarrow> nat \<Rightarrow> 'c str" where
  "new_length cs n = \<lparr>SLen = n, SCount = (if n = 0 then 0 else 1),
     SBlocks = [\<lparr>BLen = n, BChars = Some cs\<rparr>, zero_block]\<rparr>"

definition hex_digits :: "byte list" where
  "hex_digits = map of_nat ([48..<58] @ [65..<71] @ [0])"

definition hex_pair :: "byte \<Rightarrow> byte list" where
  "hex_pair c = [hex_digits ! unat (signed_drop_bit 4 c AND 15), hex_digits ! unat (c AND 15)]"

text \<open>The loop over the characters of a block; the state is what has been written.\<close>

fun hex_chars :: "byte list \<Rightarrow> byte list \<Rightarrow> byte list option" where
  "hex_chars [] out = Some out"
| "hex_chars (c # cs) out = hex_chars cs (out @ hex_pair c)"

text \<open>
  The buffer has \<^verbatim>\<open>Length + 1\<close> bytes, where \<^verbatim>\<open>Length\<close> is an \<^verbatim>\<open>int\<close>; \<open>None\<close> if more is written.
\<close>

definition Encode16 :: "byte str \<Rightarrow> (byte str, string, unit) reply option" where
  "Encode16 s = do {
     let n = s32 (int (SLen s) * 2);
     out \<leftarrow> over_blocks hex_chars (SBlocks s) [];
     if n < 0 \<or> nat n < length out then None
     else Some (SUCCESS (new_length (out @ [0]) (nat n))) }"

definition hex_value :: "byte \<Rightarrow> byte" where
  "hex_value c = (if 97 \<le> sint c then c - 87 else if 65 \<le> sint c then c - 55 else c - 48)"

text \<open>
  The state is the string up to \<^verbatim>\<open>SP\<close>, and the byte at \<^verbatim>\<open>SP\<close> if it has been written, that is unless \<^verbatim>\<open>Odd\<close>.
\<close>

fun unhex_chars :: "byte list \<Rightarrow> byte list \<times> byte option \<Rightarrow> (byte list \<times> byte option) option" where
  "unhex_chars [] s = Some s"
| "unhex_chars (c # cs) (out, None) = unhex_chars cs (out, Some (push_bit 4 (hex_value c)))"
| "unhex_chars (c # cs) (out, Some b) = unhex_chars cs (out @ [b + hex_value c], None)"

definition Decode16 :: "byte str \<Rightarrow> (byte str, string, unit) reply option" where
  "Decode16 s = do {
     let n = s32 (int (SLen s) + 1) div 2;
     (out, b) \<leftarrow> over_blocks unhex_chars (SBlocks s) ([], None);
     let out = (case b of None \<Rightarrow> out | Some b \<Rightarrow> out @ [b]);
     if n < 0 \<or> nat n < length out then None
     else Some (SUCCESS (new_length (out @ [0]) (nat n))) }"

section \<open>What it does\<close>

lemma new_length_string:
  assumes "length cs < 2147483648"
  shows "wf_str (new_length (cs @ ds) (length cs))" and "chars_of (new_length (cs @ ds) (length cs)) = cs"
  using assms by (simp_all add: new_length_def wf_str_def chars_of_def zero_block_def)

lemma hex_chars_spec: "hex_chars cs out = Some (out @ concat (map hex_pair cs))"
  by (induction cs arbitrary: out) simp_all

lemma hex_chars_append: "hex_chars (xs @ ys) s = do { s \<leftarrow> hex_chars xs s; hex_chars ys s }"
  by (simp add: hex_chars_spec)

lemma unhex_chars_append: "unhex_chars (xs @ ys) s = do { s \<leftarrow> unhex_chars xs s; unhex_chars ys s }"
  by (induction xs s rule: unhex_chars.induct) simp_all

lemma length_hex: "length (concat (map hex_pair cs)) = 2 * length cs"
  by (induction cs) (simp_all add: hex_pair_def)

lemma Encode16_spec:
  assumes "wf_str s" and "SLen s < 1073741824"
  shows "\<exists>s'. Encode16 s = Some (SUCCESS s') \<and> wf_str s' \<and> chars_of s' = concat (map hex_pair (chars_of s))"
proof -
  let ?out = "concat (map hex_pair (chars_of s))"
  have "over_blocks hex_chars (SBlocks s) [] = hex_chars (chars_of s) []"
    by (rule over_string[OF hex_chars_append _ assms(1)]) simp
  then have o: "over_blocks hex_chars (SBlocks s) [] = Some ?out" by (simp add: hex_chars_spec)
  have n: "nat (s32 (int (SLen s) * 2)) = length ?out" "0 \<le> s32 (int (SLen s) * 2)"
    using assms(2) wf_length[OF assms(1)] by (simp_all add: length_hex)
  have "length ?out < 2147483648" using assms(2) wf_length[OF assms(1)] by (simp add: length_hex)
  from new_length_string[OF this, of "[0]"] show ?thesis using o n by (simp add: Encode16_def Let_def)
qed

text \<open>Two digits are read back as the byte.\<close>

lemma hex_value_digit: "\<forall>n \<in> set [0..<16]. hex_value (hex_digits ! n) = of_nat n"
  by code_simp

lemma nibbles: "(signed_drop_bit 4 c AND 15 :: byte) = drop_bit 4 c" "(c AND 15 :: byte) = take_bit 4 c"
proof -
  have m: "(15 :: byte) = mask 4" by (simp add: mask_eq_exp_minus_1)
  show "(c AND 15 :: byte) = take_bit 4 c" unfolding m by (simp add: take_bit_eq_mask)
  show "(signed_drop_bit 4 c AND 15 :: byte) = drop_bit 4 c"
    unfolding m by (rule bit_eqI) (auto simp: bit_simps dest: bit_imp_le_length)
qed

lemma unhex_pair: "unhex_chars (hex_pair c @ cs) (out, None) = unhex_chars cs (out @ [c], None)"
proof -
  have "unat (drop_bit 4 c) < 16" "unat (take_bit 4 c) < 16"
    using unsigned_less[of c, where ?'a = nat] by (simp_all add: drop_bit_eq_div unat_div take_bit_eq_mod unat_mod)
  then have "hex_value (hex_digits ! unat (drop_bit 4 c)) = drop_bit 4 c" "hex_value (hex_digits ! unat (take_bit 4 c)) = take_bit 4 c"
    using hex_value_digit by auto
  moreover have "push_bit 4 (drop_bit 4 c) + take_bit 4 c = c" by (rule bits_ident)
  moreover have "hex_pair c = [hex_digits ! unat (drop_bit 4 c), hex_digits ! unat (take_bit 4 c)]"
    unfolding hex_pair_def nibbles(1) by (simp only: nibbles(2))
  ultimately show ?thesis by (simp only: append_Cons append_Nil unhex_chars.simps)
qed

lemma unhex_hex: "unhex_chars (concat (map hex_pair cs)) (out, None) = Some (out @ cs, None)"
  by (induction cs arbitrary: out) (simp_all add: unhex_pair)

lemma unhex_length: "unhex_chars cs (out, b) = Some (out', b') \<Longrightarrow>
   2 * length out' + (if b' = None then 0 else 1) = 2 * length out + (if b = None then 0 else 1) + length cs"
  by (induction cs "(out, b)" arbitrary: out b rule: unhex_chars.induct) (auto split: if_splits)

lemma unhex_total: "\<exists>out' b'. unhex_chars cs (out, b) = Some (out', b')"
proof (induction cs arbitrary: out b)
  case (Cons c cs)
  then show ?case by (cases b) simp_all
qed simp

lemma Decode16_total:
  assumes "wf_str s" and "SLen s < 2147483647"
  shows "\<exists>s'. Decode16 s = Some (SUCCESS s') \<and> wf_str s' \<and> SLen s' = (SLen s + 1) div 2 \<and>
    (\<forall>cs. chars_of s = concat (map hex_pair cs) \<longrightarrow> chars_of s' = cs)"
proof -
  obtain out b where u: "unhex_chars (chars_of s) ([], None) = Some (out, b)" using unhex_total by blast
  have o: "over_blocks unhex_chars (SBlocks s) ([], None) = Some (out, b)"
    using over_string[OF unhex_chars_append _ assms(1)] u by simp
  let ?out = "case b of None \<Rightarrow> out | Some b \<Rightarrow> out @ [b]"
  note ls = wf_length[OF assms(1)]
  have n: "(SLen s + 1) div 2 = length ?out" using unhex_length[OF u] ls by (cases b) simp_all
  have i: "s32 (int (SLen s) + 1) div 2 = int (length ?out)" using assms(2) unfolding n[symmetric] by simp
  have "length ?out < 2147483648" unfolding n[symmetric] using assms(2) by linarith
  note wf = new_length_string[OF this, of "[0]"]
  have "chars_of s = concat (map hex_pair cs) \<Longrightarrow> ?out = cs" for cs using u unhex_hex[of cs "[]"] by auto
  moreover have "Decode16 s = Some (SUCCESS (new_length (?out @ [0]) (length ?out)))" using o i by (simp add: Decode16_def Let_def)
  moreover have "SLen (new_length (?out @ [0]) (length ?out)) = (SLen s + 1) div 2" unfolding n by (simp add: new_length_def)
  ultimately show ?thesis using wf by blast
qed

text \<open>
  Base 16: \<open>Encode\<close> writes two upper-case digits for every byte, and \<open>Decode\<close> of what \<open>Encode\<close> has made gives the bytes
  back, whatever blocks the strings consist of. \<open>Decode\<close> accepts every string, of whatever characters, and makes
  half as many bytes, rounded up.
\<close>

theorem base16_round_trip:
  assumes "wf_str s" and "SLen s < 1073741824"
  shows "\<exists>h. Encode16 s = Some (SUCCESS h) \<and> wf_str h \<and> chars_of h = concat (map hex_pair (chars_of s)) \<and>
    (\<exists>s'. Decode16 h = Some (SUCCESS s') \<and> wf_str s' \<and> chars_of s' = chars_of s) \<and>
    (\<exists>s'. Decode16 s = Some (SUCCESS s') \<and> wf_str s' \<and> SLen s' = (SLen s + 1) div 2)"
proof -
  obtain h where h: "Encode16 s = Some (SUCCESS h)" "wf_str h" "chars_of h = concat (map hex_pair (chars_of s))"
    using Encode16_spec[OF assms] by blast
  have "SLen h < 2147483647" using wf_length[OF h(2)] wf_length[OF assms(1)] assms(2) h(3) length_hex by simp
  from Decode16_total[OF h(2) this] Decode16_total[OF assms(1)] h assms(2) show ?thesis by force
qed

theorem base16_round_trip_witness:
  "\<exists>h s'. Encode16 (str_of [[200], [10, 255]]) = Some (SUCCESS h) \<and> chars_of h = [67, 56, 48, 65, 70, 70] \<and>
    Decode16 h = Some (SUCCESS s') \<and> chars_of s' = [200, 10, 255]"
proof -
  have wf: "wf_str (str_of [[200], [10, 255 :: byte]])" "SLen (str_of [[200], [10, 255 :: byte]]) < 1073741824"
    by (simp_all add: wf_str_def str_of_def)
  have c: "chars_of (str_of [[200], [10, 255 :: byte]]) = [200, 10, 255]" by (simp add: chars_of_def str_of_def)
  have "concat (map hex_pair [200, 10, 255]) = [67, 56, 48, 65, 70, 70]" by code_simp
  then show ?thesis using base16_round_trip[OF wf] unfolding c by metis
qed

end
