(* ===== verification/UtilBase64.thy ===== *)
theory UtilBase64
  imports StringDistance
begin

text \<open>
  Base 64: \<^verbatim>\<open>Encode\<close> and \<^verbatim>\<open>Decode\<close> of \<^verbatim>\<open>dev/src/lib/Util/Base64.c\<close>, and the functions \<^verbatim>\<open>_encode\<close> and \<^verbatim>\<open>_decode\<close>
  that the module exports for characters in one piece of memory. The values of type \<^verbatim>\<open>int\<close> that the
  shifts make are small and positive: they are natural numbers here; what is put into an \<^verbatim>\<open>uint8_t\<close> is a byte.
\<close>

unbundle bit_operations_syntax

section \<open>The code\<close>

definition base64_chars :: "byte list" where
  "base64_chars = map of_nat ([65..<91] @ [97..<123] @ [48..<58] @ [43, 47])"

text \<open>The table of 128 values that \<^verbatim>\<open>INITIAL\<close> fills. A character at or above 128 is outside of it.\<close>

definition base64_value :: "byte list" where
  "base64_value = (fold (\<lambda>i t. t[unat (base64_chars ! i) := of_nat i]) [0..<64] (replicate 128 0))[61 := 255]"

definition value64 :: "byte \<Rightarrow> byte option" where
  "value64 c = (if unat c < 128 then Some (base64_value ! unat c) else None)"

definition quad :: "byte \<Rightarrow> byte \<Rightarrow> byte \<Rightarrow> byte list" where
  "quad c1 c2 c3 =
     [base64_chars ! drop_bit 2 (unat c1),
      base64_chars ! ((push_bit 4 (unat c1) AND 63) + drop_bit 4 (unat c2)),
      base64_chars ! ((push_bit 2 (unat c2) AND 63) + drop_bit 6 (unat c3)),
      base64_chars ! (unat c3 AND 63)]"

definition quad1 :: "byte \<Rightarrow> byte list" where
  "quad1 c1 = [base64_chars ! drop_bit 2 (unat c1), base64_chars ! (push_bit 4 (unat c1) AND 63), 61, 61]"

definition quad2 :: "byte \<Rightarrow> byte \<Rightarrow> byte list" where
  "quad2 c1 c2 =
     [base64_chars ! drop_bit 2 (unat c1),
      base64_chars ! ((push_bit 4 (unat c1) AND 63) + drop_bit 4 (unat c2)),
      base64_chars ! (push_bit 2 (unat c2) AND 63), 61]"

definition triple :: "byte \<Rightarrow> byte \<Rightarrow> byte \<Rightarrow> byte \<Rightarrow> byte list" where
  "triple b1 b2 b3 b4 = [push_bit 2 b1 + drop_bit 4 b2, push_bit 4 b2 + drop_bit 2 b3, push_bit 6 b3 + b4]"

text \<open>\<^verbatim>\<open>_encode\<close>: the loop over groups of three characters, and what it does with the one or two left.\<close>

fun flat_groups :: "nat \<Rightarrow> byte list \<Rightarrow> byte list \<Rightarrow> (byte list \<times> byte list) option" where
  "flat_groups 0 cs out = Some (cs, out)"
| "flat_groups (Suc k) (c1 # c2 # c3 # cs) out = flat_groups k cs (out @ quad c1 c2 c3)"
| "flat_groups (Suc k) _ out = None"

definition encode_flat :: "byte list \<Rightarrow> nat \<Rightarrow> byte list option" where
  "encode_flat cs n = do {
     (cs, out) \<leftarrow> flat_groups (n div 3) cs [];
     if n mod 3 = 1 then (case cs of c1 # _ \<Rightarrow> Some (out @ quad1 c1) | _ \<Rightarrow> None)
     else if n mod 3 = 2 then (case cs of c1 # c2 # _ \<Rightarrow> Some (out @ quad2 c1 c2) | _ \<Rightarrow> None)
     else Some out }"

text \<open>
  The loop of \<^verbatim>\<open>_decode\<close>: what has been written up to \<^verbatim>\<open>OutChars\<close>, with the characters written behind it on return. The length
  that is returned is \<open>OutLength\<close> and at most two; it is the length of the list. A \<^verbatim>\<open>char\<close> is signed.
\<close>

fun unflat_groups :: "nat \<Rightarrow> byte list \<Rightarrow> byte list \<Rightarrow> byte list option" where
  "unflat_groups 0 cs out = Some out"
| "unflat_groups (Suc k) cs out = do {
     (c, cs) \<leftarrow> (case cs of c # r \<Rightarrow> Some (c, r) | _ \<Rightarrow> None);
     b1 \<leftarrow> value64 c;
     if b1 = 255 then Some out
     else do {
       (c, cs) \<leftarrow> (case cs of c # r \<Rightarrow> Some (c, r) | _ \<Rightarrow> None);
       b2 \<leftarrow> value64 c;
       if b2 = 255 then Some out
       else do {
         (c, cs) \<leftarrow> (case cs of c # r \<Rightarrow> Some (c, r) | _ \<Rightarrow> None);
         b3 \<leftarrow> value64 c;
         if b3 = 255 then Some (out @ [push_bit 2 b1 + drop_bit 4 b2])
         else do {
           (c, cs) \<leftarrow> (case cs of c # r \<Rightarrow> Some (c, r) | _ \<Rightarrow> None);
           b4 \<leftarrow> value64 c;
           if b4 = 255 then Some (out @ [push_bit 2 b1 + drop_bit 4 b2, push_bit 4 b2 + drop_bit 2 b3])
           else unflat_groups k cs (out @ triple b1 b2 b3 b4) } } } }"

definition decode_flat :: "byte list \<Rightarrow> nat \<Rightarrow> byte list option" where
  "decode_flat cs n = unflat_groups (n div 4) cs []"

text \<open>
  Strings are read from a place in them: \<^verbatim>\<open>InBlock\<close>, \<^verbatim>\<open>InLength\<close>, \<^verbatim>\<open>InChars\<close>. \<open>skip_empty\<close> is the loop that goes on to
  the next block that has characters, and \<open>next_char\<close> is that loop and the reading of one.
\<close>

fun skip_empty :: "'c block list \<Rightarrow> nat \<Rightarrow> 'c list option \<Rightarrow> 'c cursor option" where
  "skip_empty [] n cs = (if n = 0 then None else Some ([], n, cs))"
| "skip_empty (b # r) n cs =
     (if n \<noteq> 0 then Some (b # r, n, cs)
      else case r of [] \<Rightarrow> None | b' # _ \<Rightarrow> skip_empty r (BLen b') (BChars b'))"

definition next_char :: "'c cursor \<Rightarrow> ('c \<times> 'c cursor) option" where
  "next_char = (\<lambda>(bs, n, cs). do {
     (bs, n, cs) \<leftarrow> skip_empty bs n cs;
     c \<leftarrow> peek cs;
     Some (c, bs, n - 1, map_option tl cs) })"

fun encode_groups :: "nat \<Rightarrow> byte cursor \<Rightarrow> byte list \<Rightarrow> (byte cursor \<times> byte list) option" where
  "encode_groups 0 s out = Some (s, out)"
| "encode_groups (Suc k) s out = do {
     (c1, s) \<leftarrow> next_char s;
     (c2, s) \<leftarrow> next_char s;
     (c3, s) \<leftarrow> next_char s;
     encode_groups k s (out @ quad c1 c2 c3) }"

text \<open>The loop that makes blocks of 64 characters from 48; \<open>left\<close> is \<^verbatim>\<open>TotalInLength\<close> and \<open>n\<close> \<^verbatim>\<open>TotalOutLength\<close>.\<close>

fun encode_full :: "nat \<Rightarrow> byte cursor \<Rightarrow> byte block list \<Rightarrow> nat \<Rightarrow> (nat \<times> byte cursor \<times> byte block list \<times> nat) option" where
  "encode_full left s bs n =
     (if left \<le> 48 then Some (left, s, bs, n)
      else do {
        (s, out) \<leftarrow> encode_groups 16 s [];
        encode_full (left - 48) s (bs @ [\<lparr>BLen = 64, BChars = Some out\<rparr>]) (n + 64) })"

declare encode_full.simps [simp del]

definition encode_rest :: "nat \<Rightarrow> byte cursor \<Rightarrow> byte list \<Rightarrow> byte list option" where
  "encode_rest r s out =
     (if r = 1 then do { (c1, s) \<leftarrow> next_char s; Some (out @ quad1 c1) }
      else if r = 2 then do { (c1, s) \<leftarrow> next_char s; (c2, s) \<leftarrow> next_char s; Some (out @ quad2 c1 c2) }
      else Some out)"

text \<open>
  \<^verbatim>\<open>Std$String$alloc\<close> of \<open>k\<close> blocks, of which some are then written. There is room for one more. Lengths are
  \<^verbatim>\<open>int\<close>s, whose overflow is undefined.
\<close>

definition allocated :: "nat \<Rightarrow> 'c block list \<Rightarrow> nat \<Rightarrow> 'c str option" where
  "allocated k bs n =
     (if k + 1 < length bs \<or> 2 ^ 31 \<le> n then None
      else Some \<lparr>SLen = n, SCount = k, SBlocks = bs @ replicate (k + 1 - length bs) zero_block\<rparr>)"

definition Encode64 :: "byte str \<Rightarrow> (byte str, string, unit) reply option" where
  "Encode64 s =
     (if 2 ^ 31 \<le> SLen s + 47 then None
      else do {
        cur \<leftarrow> open_block (SBlocks s);
        (left, cur, bs, n) \<leftarrow> encode_full (SLen s) cur [] 0;
        (bs, n) \<leftarrow>
          (if left = 0 then Some (bs, n)
           else do {
             let k = left div 3 * 4 + (if left mod 3 = 0 then 0 else 4);
             (cur, out) \<leftarrow> encode_groups (left div 3) cur [];
             out \<leftarrow> encode_rest (left mod 3) cur out;
             Some (bs @ [\<lparr>BLen = k, BChars = Some out\<rparr>], n + k) });
        map_option SUCCESS (allocated ((SLen s + 47) div 48) bs n) })"

text \<open>The loop that makes blocks of 48 characters from 64 does not look for \<^verbatim>\<open>=\<close>.\<close>

fun decode_block :: "nat \<Rightarrow> byte cursor \<Rightarrow> byte list \<Rightarrow> (byte cursor \<times> byte list) option" where
  "decode_block 0 s out = Some (s, out)"
| "decode_block (Suc k) s out = do {
     (c, s) \<leftarrow> next_char s; b1 \<leftarrow> value64 c;
     (c, s) \<leftarrow> next_char s; b2 \<leftarrow> value64 c;
     (c, s) \<leftarrow> next_char s; b3 \<leftarrow> value64 c;
     (c, s) \<leftarrow> next_char s; b4 \<leftarrow> value64 c;
     decode_block k s (out @ triple b1 b2 b3 b4) }"

fun decode_full :: "nat \<Rightarrow> byte cursor \<Rightarrow> byte block list \<Rightarrow> nat \<Rightarrow> (nat \<times> byte cursor \<times> byte block list \<times> nat) option" where
  "decode_full left s bs n =
     (if left \<le> 64 then Some (left, s, bs, n)
      else do {
        (s, out) \<leftarrow> decode_block 16 s [];
        decode_full (left - 64) s (bs @ [\<lparr>BLen = 48, BChars = Some out\<rparr>]) (n + 48) })"

declare decode_full.simps [simp del]

text \<open>
  The loop over the last groups stops at \<^verbatim>\<open>=\<close>; the result is what has been written and how much the length
  has then been reduced.
\<close>

fun decode_groups :: "nat \<Rightarrow> byte cursor \<Rightarrow> byte list \<Rightarrow> (byte list \<times> nat) option" where
  "decode_groups 0 s out = Some (out, 0)"
| "decode_groups (Suc k) s out = do {
     (c, s) \<leftarrow> next_char s;
     b1 \<leftarrow> value64 c;
     if b1 = 255 then Some (out, 3)
     else do {
       (c, s) \<leftarrow> next_char s;
       b2 \<leftarrow> value64 c;
       if b2 = 255 then Some (out, 3)
       else do {
         (c, s) \<leftarrow> next_char s;
         b3 \<leftarrow> value64 c;
         if b3 = 255 then Some (out @ [push_bit 2 b1 + drop_bit 4 b2], 2)
         else do {
           (c, s) \<leftarrow> next_char s;
           b4 \<leftarrow> value64 c;
           if b4 = 255 then Some (out @ [push_bit 2 b1 + drop_bit 4 b2, push_bit 4 b2 + drop_bit 2 b3], 1)
           else decode_groups k s (out @ triple b1 b2 b3 b4) } } } }"

text \<open>The memory of the last block is not cleared: \<open>fresh k\<close> is what \<open>k\<close> bytes hold before.\<close>

definition Decode64 :: "(nat \<Rightarrow> byte list) \<Rightarrow> byte str \<Rightarrow> (byte str, string, unit) reply option" where
  "Decode64 fresh s =
     (if 2 ^ 31 \<le> SLen s + 63 then None
      else do {
        cur \<leftarrow> open_block (SBlocks s);
        (left, cur, bs, n) \<leftarrow> decode_full (SLen s) cur [] 0;
        (bs, n) \<leftarrow>
          (if left = 0 then Some (bs, n)
           else do {
             let k = left div 4 * 3;
             (out, less) \<leftarrow> decode_groups (left div 4) cur [];
             Some (bs @ [\<lparr>BLen = k - less, BChars = Some (out @ drop (length out) (fresh k))\<rparr>], n + k - less) });
        map_option SUCCESS (allocated ((SLen s + 63) div 64) bs n) })"



section \<open>Groups of characters\<close>

text \<open>What the loops write: four characters for three, and padding at the end.\<close>

fun base64 :: "byte list \<Rightarrow> byte list" where
  "base64 [] = []"
| "base64 [c1] = quad1 c1"
| "base64 [c1, c2] = quad2 c1 c2"
| "base64 (c1 # c2 # c3 # cs) = quad c1 c2 c3 @ base64 cs"

lemma length_quads [simp]: "length (quad c1 c2 c3) = 4" "length (quad1 c1) = 4" "length (quad2 c1 c2) = 4"
  by (simp_all add: quad_def quad1_def quad2_def)

lemma length_base64: "length (base64 cs) = (length cs + 2) div 3 * 4"
proof (induction cs rule: base64.induct)
  case (4 c1 c2 c3 cs)
  have "length (c1 # c2 # c3 # cs) + 2 = length cs + 2 + 3 * 1" by simp
  then have "(length (c1 # c2 # c3 # cs) + 2) div 3 = (length cs + 2) div 3 + 1" by (simp only: div_mult_self2)
  then show ?case using 4 by simp
qed simp_all

lemma list_triple:
  assumes "length xs = 3 * Suc k"
  obtains c1 c2 c3 ys where "xs = c1 # c2 # c3 # ys" "length ys = 3 * k"
proof -
  from assms have "length xs = Suc (Suc (Suc (3 * k)))" by simp
  then show ?thesis using that by (auto simp: length_Suc_conv)
qed

lemma base64_append: "length xs = 3 * k \<Longrightarrow> base64 (xs @ ys) = base64 xs @ base64 ys"
proof (induction k arbitrary: xs)
  case (Suc k)
  from list_triple[OF Suc.prems] obtain c1 c2 c3 zs where "xs = c1 # c2 # c3 # zs" "length zs = 3 * k" by metis
  then show ?case using Suc.IH by simp
qed simp

lemma flat_groups_spec: "length xs = 3 * k \<Longrightarrow> flat_groups k (xs @ ys) out = Some (ys, out @ base64 xs)"
proof (induction k arbitrary: xs out)
  case (Suc k)
  from list_triple[OF Suc.prems] obtain c1 c2 c3 zs where "xs = c1 # c2 # c3 # zs" "length zs = 3 * k" by metis
  then show ?case using Suc.IH by simp
qed simp

text \<open>A list is a number of triples and a rest.\<close>

lemma base64_rest:
  "length ys < 3 \<Longrightarrow> base64 ys =
     (if length ys = 1 then quad1 (hd ys) else if length ys = 2 then quad2 (hd ys) (hd (tl ys)) else [])"
  by (cases ys rule: base64.cases) simp_all

lemma triples_rest:
  obtains xs ys where "cs = xs @ ys" "length xs = 3 * (length cs div 3)" "length ys = length cs mod 3" "length ys < 3"
proof
  let ?k = "3 * (length cs div 3)"
  show "cs = take ?k cs @ drop ?k cs" by simp
  show "length (take ?k cs) = ?k" by simp
  show "length (drop ?k cs) = length cs mod 3" by (simp add: minus_mult_div_eq_mod)
  then show "length (drop ?k cs) < 3" by simp
qed

lemma short_lists: "length ys = 1 \<Longrightarrow> \<exists>a. ys = [a]" "length ys = 2 \<Longrightarrow> \<exists>a b. ys = [a, b]"
  by (auto simp: length_Suc_conv numeral_2_eq_2)

lemma encode_flat_spec: "encode_flat cs (length cs) = Some (base64 cs)"
proof -
  obtain xs ys where c: "cs = xs @ ys" "length xs = 3 * (length cs div 3)" "length ys = length cs mod 3" "length ys < 3"
    by (rule triples_rest)
  have g: "flat_groups (length cs div 3) cs [] = Some (ys, base64 xs)" using flat_groups_spec[OF c(2)] c(1) by simp
  have b: "base64 cs = base64 xs @ base64 ys" using base64_append[OF c(2)] c(1) by simp
  from c(4) consider "ys = []" | a where "ys = [a]" | a d where "ys = [a, d]"
    using short_lists[of ys] by (auto simp: less_Suc_eq numeral_3_eq_3 simp del: One_nat_def)
  then show ?thesis using g b c(3) by cases (simp_all add: encode_flat_def)
qed

section \<open>The digits\<close>

lemma base64_value_list: "base64_value = [0, 0, 0, 0, 0, 0, 0, 0, 0, 0, 0, 0, 0, 0, 0, 0, 0, 0, 0, 0, 0, 0, 0, 0, 0,
    0, 0, 0, 0, 0, 0, 0, 0, 0, 0, 0, 0, 0, 0, 0, 0, 0, 0, 62, 0, 0, 0, 63, 52, 53, 54, 55, 56, 57, 58, 59, 60, 61, 0, 0,
    0, 255, 0, 0, 0, 0, 1, 2, 3, 4, 5, 6, 7, 8, 9, 10, 11, 12, 13, 14, 15, 16, 17, 18, 19, 20, 21, 22, 23, 24, 25, 0, 0,
    0, 0, 0, 0, 26, 27, 28, 29, 30, 31, 32, 33, 34, 35, 36, 37, 38, 39, 40, 41, 42, 43, 44, 45, 46, 47, 48, 49, 50, 51, 0,
    0, 0, 0, 0]"
  by code_simp
lemma base64_chars_list: "base64_chars = [65, 66, 67, 68, 69, 70, 71, 72, 73, 74, 75, 76, 77, 78, 79, 80, 81, 82, 83,
    84, 85, 86, 87, 88, 89, 90, 97, 98, 99, 100, 101, 102, 103, 104, 105, 106, 107, 108, 109, 110, 111, 112, 113, 114,
    115, 116, 117, 118, 119, 120, 121, 122, 48, 49, 50, 51, 52, 53, 54, 55, 56, 57, 43, 47]"
  by code_simp

lemma value_table: "map value64 base64_chars = map (\<lambda>i. Some (of_nat i)) [0..<64]"
  unfolding base64_chars_list value64_def base64_value_list by code_simp

lemma length_chars: "length base64_chars = 64"
  by (simp add: base64_chars_list)

lemma value_digit: "i < 64 \<Longrightarrow> value64 (base64_chars ! i) = Some (of_nat i)" "i < 64 \<Longrightarrow> (of_nat i :: byte) \<noteq> 255"
proof -
  assume i: "i < 64"
  then have "map value64 base64_chars ! i = map (\<lambda>i. Some (of_nat i)) [0..<64] ! i" by (simp only: value_table)
  then show "value64 (base64_chars ! i) = Some (of_nat i)" using i by (simp add: length_chars)
  have "unat (of_nat i :: byte) = i" using i by (simp add: unat_of_nat)
  then show "(of_nat i :: byte) \<noteq> 255" using i by auto
qed

lemma value_pad: "value64 61 = Some 255"
  by (simp add: value64_def base64_value_list)

lemma pad_table: "map (\<lambda>v. v = 255) base64_value = map (\<lambda>i. i = 61) [0..<128]"
  unfolding base64_value_list by code_simp

lemma chars_table: "list_all (\<lambda>c. unat c < 128 \<and> c \<noteq> 61) base64_chars"
  by (simp add: base64_chars_list)


lemma value_pads: "i < 128 \<Longrightarrow> base64_value ! i = 255 \<longleftrightarrow> i = 61"
proof -
  assume i: "i < 128"
  then have "map (\<lambda>v. v = 255) base64_value ! i = map (\<lambda>i. i = 61) [0..<128] ! i" by (simp only: pad_table)
  moreover have "length base64_value = 128" by (simp add: base64_value_list)
  ultimately show ?thesis using i by simp
qed

definition sextet2 :: "byte \<Rightarrow> byte \<Rightarrow> nat" where
  "sextet2 c1 c2 = 16 * (unat c1 mod 4) + unat c2 div 16"

definition sextet3 :: "byte \<Rightarrow> byte \<Rightarrow> nat" where
  "sextet3 c2 c3 = 4 * (unat c2 mod 16) + unat c3 div 64"

lemma low_six: "(n AND 63 :: nat) = n mod 64"
proof -
  have "(63 :: nat) = mask 6" by (simp add: mask_eq_exp_minus_1)
  then have "n AND 63 = take_bit 6 n" by (simp only: take_bit_eq_mask)
  then show ?thesis by (simp add: take_bit_eq_mod)
qed

lemma quads_digits:
  "quad c1 c2 c3 = [base64_chars ! (unat c1 div 4), base64_chars ! sextet2 c1 c2, base64_chars ! sextet3 c2 c3, base64_chars ! (unat c3 mod 64)]"
  "quad1 c1 = [base64_chars ! (unat c1 div 4), base64_chars ! sextet2 c1 0, 61, 61]"
  "quad2 c1 c2 = [base64_chars ! (unat c1 div 4), base64_chars ! sextet2 c1 c2, base64_chars ! sextet3 c2 0, 61]"
proof -
  have "push_bit 4 (unat c) mod 64 = 16 * (unat c mod 4)" "push_bit 2 (unat c) mod 64 = 4 * (unat c mod 16)" for c :: byte
    using mult_mod_right[of 16 "unat c" 4] mult_mod_right[of 4 "unat c" 16] by (simp_all add: push_bit_eq_mult mult.commute)
  note e = this drop_bit_eq_div low_six
  show "quad c1 c2 c3 = [base64_chars ! (unat c1 div 4), base64_chars ! sextet2 c1 c2, base64_chars ! sextet3 c2 c3, base64_chars ! (unat c3 mod 64)]"
    by (simp add: quad_def sextet2_def sextet3_def e)
  show "quad1 c1 = [base64_chars ! (unat c1 div 4), base64_chars ! sextet2 c1 0, 61, 61]"
    by (simp add: quad1_def sextet2_def e)
  show "quad2 c1 c2 = [base64_chars ! (unat c1 div 4), base64_chars ! sextet2 c1 c2, base64_chars ! sextet3 c2 0, 61]"
    by (simp add: quad2_def sextet2_def sextet3_def e)
qed

lemma sextets: "unat (c1 :: byte) div 4 < 64" "sextet2 c1 c2 < 64" "sextet3 c2 c3 < 64" "unat c3 mod 64 < 64"
proof -
  show "unat c1 div 4 < 64" using byte_less[of c1] by simp
  have "unat c1 mod 4 < 4" "unat c2 div 16 < 16" "unat c2 mod 16 < 16" "unat c3 div 64 < 4"
    using byte_less[of c2] byte_less[of c3] by simp_all
  then show "sextet2 c1 c2 < 64" "sextet3 c2 c3 < 64" unfolding sextet2_def sextet3_def by linarith+
qed simp

text \<open>The digits put together are the characters.\<close>

lemma join_digits:
  assumes "j < 256"
  shows "push_bit n (of_nat i) + drop_bit m (of_nat j :: byte) = of_nat (2 ^ n * i + j div 2 ^ m)"
proof -
  have l: "j div 2 ^ m < 256" using assms div_le_dividend le_less_trans by blast
  have "unat (of_nat j :: byte) = j" using assms by (simp only: unat_of_nat) simp
  then have "unat (drop_bit m (of_nat j :: byte)) = j div 2 ^ m" by (simp only: unat_drop_bit_eq) (simp only: drop_bit_eq_div)
  then have "drop_bit m (of_nat j :: byte) = of_nat (j div 2 ^ m)" using l by (simp only: word_unat_eq_iff unat_of_nat) simp
  then show ?thesis by (simp add: push_bit_eq_mult mult.commute)
qed

lemma of_nat_split: "(of_nat (256 * i + unat c) :: byte) = c"
proof -
  have "unat (of_nat (256 * i + unat c) :: byte) = unat c" using byte_less[of c] by (simp only: unat_of_nat) simp
  then show ?thesis by (simp only: word_unat_eq_iff)
qed

lemma triple_digits:
  "push_bit 2 (of_nat (unat c1 div 4)) + drop_bit 4 (of_nat (sextet2 c1 c2)) = (c1 :: byte)"
  "push_bit 4 (of_nat (sextet2 c1 c2)) + drop_bit 2 (of_nat (sextet3 c2 c3)) = (c2 :: byte)"
  "push_bit 6 (of_nat (sextet3 c2 c3)) + of_nat (unat c3 mod 64) = (c3 :: byte)"
proof -
  have l: "sextet2 c1 c2 < 256" "sextet3 c2 c3 < 256" "unat c3 mod 64 < 256"
    using sextets(2)[of c1 c2] sextets(3)[of c2 c3] sextets(4)[of c3] by simp_all
  have b: "unat c2 div 16 < 16" "unat c3 div 64 < 4" using byte_less[of c2] byte_less[of c3] by simp_all
  have n: "2 ^ 2 * (unat c1 div 4) + sextet2 c1 c2 div 2 ^ 4 = 256 * 0 + unat c1"
    "2 ^ 4 * sextet2 c1 c2 + sextet3 c2 c3 div 2 ^ 2 = 256 * (unat c1 mod 4) + unat c2"
    "2 ^ 6 * sextet3 c2 c3 + unat c3 mod 64 div 2 ^ 0 = 256 * (unat c2 mod 16) + unat c3"
    using b by (simp_all add: sextet2_def sextet3_def)
  show "push_bit 2 (of_nat (unat c1 div 4)) + drop_bit 4 (of_nat (sextet2 c1 c2)) = c1"
    unfolding join_digits[OF l(1)] n by (rule of_nat_split)
  show "push_bit 4 (of_nat (sextet2 c1 c2)) + drop_bit 2 (of_nat (sextet3 c2 c3)) = c2"
    unfolding join_digits[OF l(2)] n by (rule of_nat_split)
  have "push_bit 6 (of_nat (sextet3 c2 c3)) + drop_bit 0 (of_nat (unat c3 mod 64)) = c3"
    unfolding join_digits[OF l(3)] n by (rule of_nat_split)
  then show "push_bit 6 (of_nat (sextet3 c2 c3)) + of_nat (unat c3 mod 64) = c3" by simp
qed



section \<open>Reading from the blocks\<close>

text \<open>The characters that are still to be read.\<close>

definition feeds :: "'c cursor \<Rightarrow> 'c list \<Rightarrow> bool" where
  "feeds = (\<lambda>(bs, n, cs) xs. xs = [] \<or> (\<exists>b r. bs = b # r \<and> good_blocks r \<and>
     (if n = 0 then xs = text_of r else \<exists>c. cs = Some c \<and> n \<le> length c \<and> xs = take n c @ text_of r)))"

lemma feeds_nothing [simp]: "feeds s []"
  by (cases s) (simp add: feeds_def)

lemma feeds_open: "wf_str s \<Longrightarrow> \<exists>cur. open_block (SBlocks s) = Some cur \<and> feeds cur (chars_of s)"
  using open_string[of s] by (fastforce simp: at_text_def feeds_def split: if_splits)

lemma feeds_step: "feeds s (x # xs) \<Longrightarrow> \<exists>s'. next_char s = Some (x, s') \<and> feeds s' xs"
proof -
  assume f: "feeds s (x # xs)"
  obtain bs n cs where s: "s = (bs, n, cs)" by (cases s)
  have step: "\<exists>s'. next_char (b # r, n, Some c) = Some (x, s') \<and> feeds s' xs"
    if "n \<noteq> 0" "good_blocks r" "n \<le> length c" "x # xs = take n c @ text_of r" for b :: "'a block" and r n c
  proof -
    from that obtain k c' where "n = Suc k" "c = x # c'" "xs = take k c' @ text_of r" by (cases n; cases c) auto
    then show ?thesis using that by (cases k) (auto simp: next_char_def peek_def feeds_def)
  qed
  from f obtain b r where b: "bs = b # r" "good_blocks r"
    "if n = 0 then x # xs = text_of r else \<exists>c. cs = Some c \<and> n \<le> length c \<and> x # xs = take n c @ text_of r"
    by (auto simp: s feeds_def)
  show ?thesis
  proof (cases "n = 0")
    case False
    then show ?thesis using step[of n r] b by (auto simp: s)
  next
    case True
    then obtain d q where d: "r = d # q" "BLen d \<noteq> 0" using b by (cases r) (auto split: if_splits)
    then obtain c where c: "BChars d = Some c" "BLen d \<le> length c" "good_blocks q" using b(2) by auto
    have "next_char s = next_char (d # q, BLen d, Some c)" using True b(1) d c(1) by (simp add: s next_char_def)
    then show ?thesis using step[OF d(2) c(3,2), of d] True b(3) d c by simp
  qed
qed

section \<open>Encoding\<close>

lemma encode_groups_spec:
  "feeds s (xs @ ys) \<Longrightarrow> length xs = 3 * k \<Longrightarrow> \<exists>s'. encode_groups k s out = Some (s', out @ base64 xs) \<and> feeds s' ys"
proof (induction k arbitrary: s xs out)
  case (Suc k)
  from list_triple[OF Suc.prems(2)] obtain c1 c2 c3 zs where x: "xs = c1 # c2 # c3 # zs" "length zs = 3 * k" by metis
  obtain s1 where s1: "next_char s = Some (c1, s1)" "feeds s1 (c2 # c3 # zs @ ys)" using feeds_step Suc.prems(1) x(1) by fastforce
  obtain s2 where s2: "next_char s1 = Some (c2, s2)" "feeds s2 (c3 # zs @ ys)" using feeds_step s1(2) by fastforce
  obtain s3 where s3: "next_char s2 = Some (c3, s3)" "feeds s3 (zs @ ys)" using feeds_step s2(2) by fastforce
  obtain s' where "encode_groups k s3 (out @ quad c1 c2 c3) = Some (s', (out @ quad c1 c2 c3) @ base64 zs)" "feeds s' ys"
    using Suc.IH[OF s3(2) x(2)] by blast
  then show ?case using s1(1) s2(1) s3(1) by (simp add: x(1))
qed simp

lemma encode_rest_spec:
  assumes "feeds s ys" and "length ys < 3"
  shows "encode_rest (length ys) s out = Some (out @ base64 ys)"
proof -
  from assms(2) consider "ys = []" | a where "ys = [a]" | a d where "ys = [a, d]"
    using short_lists[of ys] by (auto simp: less_Suc_eq numeral_3_eq_3 simp del: One_nat_def)
  then show ?thesis
  proof cases
    case 1
    then show ?thesis by (simp add: encode_rest_def)
  next
    case (2 a)
    then obtain s1 where "next_char s = Some (a, s1)" using feeds_step[of s a "[]"] assms(1) by auto
    then show ?thesis by (simp add: 2 encode_rest_def)
  next
    case (3 a d)
    then obtain s1 where "next_char s = Some (a, s1)" "feeds s1 [d]" using feeds_step[of s a "[d]"] assms(1) by auto
    moreover obtain s2 where "next_char s1 = Some (d, s2)" using feeds_step[of s1 d "[]"] calculation(2) by auto
    ultimately show ?thesis by (simp add: 3 encode_rest_def)
  qed
qed

text \<open>
  The loops over the blocks that are made full: \<open>run\<close> makes the \<open>m\<close> characters of one from \<open>k\<close>. It stops
  before the last.
\<close>

locale block_loop =
  fixes run :: "byte cursor \<Rightarrow> (byte cursor \<times> byte list) option"
    and k m :: nat
    and conv :: "byte list \<Rightarrow> byte list"
    and good :: "byte \<Rightarrow> bool"
    and loop :: "nat \<Rightarrow> byte cursor \<Rightarrow> byte block list \<Rightarrow> nat \<Rightarrow> (nat \<times> byte cursor \<times> byte block list \<times> nat) option"
  assumes positive: "0 < k" "0 < m"
    and run: "\<lbrakk>feeds s (xs @ ys); length xs = k; \<forall>c \<in> set xs. good c\<rbrakk> \<Longrightarrow>
      \<exists>s'. run s = Some (s', conv xs) \<and> feeds s' ys \<and> length (conv xs) = m"
    and conv_empty: "conv [] = []"
    and conv_append: "length xs = k \<Longrightarrow> conv (xs @ ys) = conv xs @ conv ys"
    and loop: "loop left s bs n =
      (if left \<le> k then Some (left, s, bs, n)
       else do {
         (s, out) \<leftarrow> run s;
         loop (left - k) s (bs @ [\<lparr>BLen = m, BChars = Some out\<rparr>]) (n + m) })"
begin

lemma blocks:
  assumes "feeds s cs" and "\<forall>c \<in> set cs. good c"
  shows "\<exists>s' xs ys made. loop (length cs) s bs n = Some (length ys, s', bs @ made, n + m * length made) \<and> feeds s' ys \<and>
    cs = xs @ ys \<and> length xs = k * length made \<and> length ys \<le> k \<and> (ys = [] \<longrightarrow> cs = []) \<and>
    (\<forall>b \<in> set made. full_block b) \<and> text_of made = conv xs \<and> length (conv xs) = m * length made"
  using assms
proof (induction "length cs" arbitrary: s cs bs n rule: less_induct)
  case less
  show ?case
  proof (cases "length cs \<le> k")
    case True
    then show ?thesis using less.prems conv_empty by (intro exI[of _ s] exI[of _ "[]"] exI[of _ cs]) (simp add: loop[of "length cs"])
  next
    case False
    define zs where "zs = drop k cs"
    have c: "cs = take k cs @ zs" "length (take k cs) = k" using False by (simp_all add: zs_def)
    from less.prems have g: "\<forall>c \<in> set (take k cs). good c" "\<forall>c \<in> set zs. good c" unfolding zs_def by (auto dest: in_set_takeD in_set_dropD)
    obtain s1 where s1: "run s = Some (s1, conv (take k cs))" "feeds s1 zs" "length (conv (take k cs)) = m"
      using run[OF _ c(2) g(1), of s zs] less.prems(1) c(1) by metis
    let ?b = "\<lparr>BLen = m, BChars = Some (conv (take k cs))\<rparr>"
    have z: "length zs < length cs" "length cs - k = length zs" "zs \<noteq> []" using False positive(1) by (auto simp: zs_def)
    obtain s' xs ys made where IH: "loop (length zs) s1 (bs @ [?b]) (n + m) = Some (length ys, s', (bs @ [?b]) @ made, n + m + m * length made)"
      "feeds s' ys" "zs = xs @ ys" "length xs = k * length made" "length ys \<le> k" "ys = [] \<longrightarrow> zs = []"
      "\<forall>b \<in> set made. full_block b" "text_of made = conv xs" "length (conv xs) = m * length made"
      using less.hyps[OF z(1) s1(2) g(2), of "bs @ [?b]" "n + m"] by blast
    have l: "loop (length cs) s bs n = Some (length ys, s', bs @ ?b # made, n + m * length (?b # made))"
      using IH(1) False s1(1) by (simp add: loop[of "length cs"] z(2))
    have f: "\<forall>b \<in> set (?b # made). full_block b" using s1(3) positive(2) IH(7) by (simp add: full_block_def)
    have x: "text_of (?b # made) = conv (take k cs @ xs)" using s1(3) positive(2) conv_append[OF c(2), of xs] IH(8) by simp
    have cx: "cs = (take k cs @ xs) @ ys" unfolding append_assoc IH(3)[symmetric] by (rule c(1))
    have lx: "length (take k cs @ xs) = k * length (?b # made)" using c(2) IH(4) by simp
    have lc: "length (conv (take k cs @ xs)) = m * length (?b # made)" using s1(3) IH(9) conv_append[OF c(2), of xs] by simp
    have "ys \<noteq> []" using IH(6) z(3) by blast
    then show ?thesis using l IH(2) cx lx IH(5) f x lc by blast
  qed
qed

end

interpretation encoder: block_loop "\<lambda>s. encode_groups 16 s []" 48 64 base64 "\<lambda>_. True" encode_full
proof unfold_locales
  fix s :: "byte cursor" and xs ys :: "byte list"
  assume "feeds s (xs @ ys)" and l: "length xs = 48"
  then show "\<exists>s'. encode_groups 16 s [] = Some (s', base64 xs) \<and> feeds s' ys \<and> length (base64 xs) = 64"
    using encode_groups_spec[of s xs ys 16 "[]"] by (simp add: length_base64)
next
  fix left n and s :: "byte cursor" and bs :: "byte block list"
  show "encode_full left s bs n =
    (if left \<le> 48 then Some (left, s, bs, n)
     else do {
       (s, out) \<leftarrow> encode_groups 16 s [];
       encode_full (left - 48) s (bs @ [\<lparr>BLen = 64, BChars = Some out\<rparr>]) (n + 64) })"
    by (rule encode_full.simps)
qed (simp_all add: base64_append[where k = 16])

text \<open>The string that is made: \<open>k\<close> blocks, the last of which may have characters that do not count.\<close>

lemma allocated_full:
  assumes "\<forall>b \<in> set bs. full_block b" and "n = length (text_of bs)" and "n < 2147483648"
  shows "allocated (length bs) bs n = Some (alloc_with bs n)"
  using assms(3) by (simp add: allocated_def alloc_with_def)

lemma groups_up: "(n + 2) div 3 = n div 3 + (if n mod 3 = 0 then 0 else 1 :: nat)"
  by presburger

lemma block_count:
  assumes "0 < l" and "l \<le> b"
  shows "(b * m + l + (b - 1)) div b = m + (1 :: nat)"
proof -
  obtain j where j: "l = Suc j" "j < b" using assms by (cases l) auto
  then have "b * m + l + (b - 1) = j + b * (m + 1)" by simp
  then show ?thesis using j(2) by (simp only: div_mult_self2) simp
qed

lemma Encode64_spec:
  assumes "wf_str s" and "SLen s < 1073741824"
  shows "\<exists>h. Encode64 s = Some (SUCCESS h) \<and> wf_str h \<and> chars_of h = base64 (chars_of s)"
proof -
  note len = wf_length[OF assms(1)]
  obtain cur where cur: "open_block (SBlocks s) = Some cur" "feeds cur (chars_of s)" using feeds_open[OF assms(1)] by blast
  obtain cur' xs ys made where
    full: "encode_full (SLen s) cur [] 0 = Some (length ys, cur', made, 64 * length made)" and f: "feeds cur' ys" and c: "chars_of s = xs @ ys"
    and l: "length xs = 48 * length made" "length ys \<le> 48" "ys = [] \<longrightarrow> chars_of s = []"
    and m: "\<forall>b \<in> set made. full_block b" "text_of made = base64 xs" "length (base64 xs) = 64 * length made"
    using encoder.blocks[OF cur(2), of "[]" 0] len by auto
  have b: "base64 (chars_of s) = base64 xs @ base64 ys" using base64_append[of xs "16 * length made" ys] l(1) c by simp
  have ls: "SLen s = 48 * length made + length ys" using len c l(1) by simp
  show ?thesis
  proof (cases "ys = []")
    case True
    then have "made = []" "chars_of s = []" using l(1,3) c by simp_all
    then show ?thesis using full cur(1) assms(2) True allocated_full[of "[]" 0] alloc_string[of "[]" 0] ls
      by (intro exI[of _ "alloc_with [] 0"]) (simp add: Encode64_def)
  next
    case False
    obtain us vs where u: "ys = us @ vs" "length us = 3 * (length ys div 3)" "length vs = length ys mod 3" "length vs < 3"
      by (rule triples_rest)
    obtain cur2 where g: "encode_groups (length ys div 3) cur' [] = Some (cur2, base64 us)" "feeds cur2 vs"
      using encode_groups_spec[OF f[unfolded u(1)] u(2), of "[]"] by auto
    have e: "encode_rest (length ys mod 3) cur2 (base64 us) = Some (base64 ys)"
      using encode_rest_spec[OF g(2) u(4), of "base64 us"] by (simp only: u(3) base64_append[OF u(2), symmetric] u(1)[symmetric])
    define k where "k = length ys div 3 * 4 + (if length ys mod 3 = 0 then 0 else 4)"
    have y: "0 < length ys" using False by simp
    have k: "k = length (base64 ys)" unfolding k_def length_base64 groups_up by simp
    have "0 < k" using y unfolding k length_base64 by (simp add: div_greater_zero_iff Suc_le_eq)
    have "k \<le> 4 * (length ys + 2)" unfolding k length_base64 using div_le_dividend[of "length ys + 2" 3] by simp
    let ?bs = "made @ [\<lparr>BLen = k, BChars = Some (base64 ys)\<rparr>]"
    have bs: "\<forall>b \<in> set ?bs. full_block b" "text_of ?bs = base64 (chars_of s)" 
      using m \<open>0 < k\<close> k b by (simp_all add: full_block_def text_append)
    have n: "64 * length made + k = length (text_of ?bs)" "64 * length made + k < 2147483648"
      using bs(2) b m(3) k ls assms(2) l(2) \<open>k \<le> 4 * (length ys + 2)\<close> by simp_all
    have cnt: "(SLen s + 47) div 48 = length ?bs" using block_count[OF y l(2), of "length made"] by (simp add: ls)
    have z: "(length ys = 0) = False" "(2 ^ 31 \<le> SLen s + 47) = False" using False assms(2) by simp_all
    have "Encode64 s = map_option SUCCESS (allocated (length ?bs) ?bs (64 * length made + k))"
      unfolding Encode64_def Let_def k_def[symmetric] by (simp only: z if_False cur(1) full bind.bind_lunit prod.case g(1) e cnt k_def[symmetric])
    then show ?thesis using allocated_full[OF bs(1) n] alloc_string[OF bs(1) n] bs(2) by simp
  qed
qed

section \<open>Decoding\<close>

text \<open>What groups of four characters stand for.\<close>

definition digit64 :: "byte \<Rightarrow> byte" where
  "digit64 c = base64_value ! unat c"

fun unbase64 :: "byte list \<Rightarrow> byte list" where
  "unbase64 (c1 # c2 # c3 # c4 # cs) = triple (digit64 c1) (digit64 c2) (digit64 c3) (digit64 c4) @ unbase64 cs"
| "unbase64 _ = []"

abbreviation ascii :: "byte \<Rightarrow> bool" where
  "ascii c \<equiv> unat c < 128"

lemma value_ascii: "ascii c \<Longrightarrow> value64 c = Some (digit64 c)"
  by (simp add: value64_def digit64_def)

lemma digit_pad: "ascii c \<Longrightarrow> digit64 c = 255 \<longleftrightarrow> c = 61"
proof -
  assume "ascii c"
  then have "digit64 c = 255 \<longleftrightarrow> unat c = 61" using value_pads by (simp add: digit64_def)
  also have "\<dots> \<longleftrightarrow> c = 61" by (simp add: word_unat_eq_iff)
  finally show ?thesis .
qed

lemma list_quad:
  assumes "length xs = 4 * Suc k"
  obtains c1 c2 c3 c4 ys where "xs = c1 # c2 # c3 # c4 # ys" "length ys = 4 * k"
proof -
  from assms have "length xs = Suc (Suc (Suc (Suc (4 * k))))" by simp
  then show ?thesis using that by (auto simp: length_Suc_conv)
qed

lemma unbase64_append: "length xs = 4 * k \<Longrightarrow> unbase64 (xs @ ys) = unbase64 xs @ unbase64 ys"
proof (induction k arbitrary: xs)
  case (Suc k)
  from list_quad[OF Suc.prems] obtain c1 c2 c3 c4 zs where "xs = c1 # c2 # c3 # c4 # zs" "length zs = 4 * k" by metis
  then show ?case using Suc.IH by simp
qed simp

lemma length_unbase64: "length xs = 4 * k \<Longrightarrow> length (unbase64 xs) = 3 * k"
proof (induction k arbitrary: xs)
  case (Suc k)
  from list_quad[OF Suc.prems] obtain c1 c2 c3 c4 zs where "xs = c1 # c2 # c3 # c4 # zs" "length zs = 4 * k" by metis
  then show ?case using Suc.IH by (simp add: triple_def)
qed simp

lemma feeds_quad:
  assumes "feeds s (c1 # c2 # c3 # c4 # xs)"
  obtains s1 s2 s3 s4 where "next_char s = Some (c1, s1)" "next_char s1 = Some (c2, s2)" "next_char s2 = Some (c3, s3)"
    "next_char s3 = Some (c4, s4)" "feeds s4 xs"
proof -
  obtain s1 where s1: "next_char s = Some (c1, s1)" "feeds s1 (c2 # c3 # c4 # xs)" using feeds_step[OF assms] by blast
  obtain s2 where s2: "next_char s1 = Some (c2, s2)" "feeds s2 (c3 # c4 # xs)" using feeds_step[OF s1(2)] by blast
  obtain s3 where s3: "next_char s2 = Some (c3, s3)" "feeds s3 (c4 # xs)" using feeds_step[OF s2(2)] by blast
  obtain s4 where s4: "next_char s3 = Some (c4, s4)" "feeds s4 xs" using feeds_step[OF s3(2)] by blast
  show ?thesis by (rule that[OF s1(1) s2(1) s3(1) s4])
qed

lemma decode_block_spec:
  "feeds s (xs @ ys) \<Longrightarrow> length xs = 4 * k \<Longrightarrow> \<forall>c \<in> set xs. ascii c \<Longrightarrow>
   \<exists>s'. decode_block k s out = Some (s', out @ unbase64 xs) \<and> feeds s' ys"
proof (induction k arbitrary: s xs out)
  case (Suc k)
  from list_quad[OF Suc.prems(2)] obtain c1 c2 c3 c4 zs where x: "xs = c1 # c2 # c3 # c4 # zs" "length zs = 4 * k" by metis
  from Suc.prems(1) have f: "feeds s (c1 # c2 # c3 # c4 # zs @ ys)" by (simp add: x(1))
  from f obtain s1 s2 s3 s4 where n: "next_char s = Some (c1, s1)" "next_char s1 = Some (c2, s2)" "next_char s2 = Some (c3, s3)"
    "next_char s3 = Some (c4, s4)" and f4: "feeds s4 (zs @ ys)" by (rule feeds_quad)
  have v: "value64 c1 = Some (digit64 c1)" "value64 c2 = Some (digit64 c2)" "value64 c3 = Some (digit64 c3)"
    "value64 c4 = Some (digit64 c4)" "\<forall>c \<in> set zs. ascii c" using Suc.prems(3) x(1) by (simp_all add: value_ascii)
  let ?t = "triple (digit64 c1) (digit64 c2) (digit64 c3) (digit64 c4)"
  obtain s' where "decode_block k s4 (out @ ?t) = Some (s', (out @ ?t) @ unbase64 zs)" "feeds s' ys"
    using Suc.IH[OF f4 x(2) v(5)] by blast
  then show ?case using n v by (simp add: x(1))
qed simp

text \<open>Where the padding can only be in the last group, the loops of \<^verbatim>\<open>Decode\<close> do what that of \<^verbatim>\<open>_decode\<close> does.\<close>

lemma decode_groups_spec:
  "feeds s (xs @ r) \<Longrightarrow> length xs = 4 * k \<Longrightarrow> \<forall>c \<in> set xs. ascii c \<Longrightarrow> 61 \<notin> set (take (4 * (k - 1)) xs) \<Longrightarrow>
   \<exists>out' less. decode_groups k s out = Some (out', less) \<and> unflat_groups k (xs @ r) out = Some out' \<and>
     length out' + less = length out + 3 * k \<and> less \<le> 3 * k"
proof (induction k arbitrary: s xs out)
  case (Suc k)
  from list_quad[OF Suc.prems(2)] obtain c1 c2 c3 c4 zs where x: "xs = c1 # c2 # c3 # c4 # zs" "length zs = 4 * k" by metis
  from Suc.prems(1) have f: "feeds s (c1 # c2 # c3 # c4 # zs @ r)" by (simp add: x(1))
  from f obtain s1 s2 s3 s4 where n: "next_char s = Some (c1, s1)" "next_char s1 = Some (c2, s2)" "next_char s2 = Some (c3, s3)"
    "next_char s3 = Some (c4, s4)" and f4: "feeds s4 (zs @ r)" by (rule feeds_quad)
  have v: "value64 c1 = Some (digit64 c1)" "value64 c2 = Some (digit64 c2)" "value64 c3 = Some (digit64 c3)"
    "value64 c4 = Some (digit64 c4)" "\<forall>c \<in> set zs. ascii c" using Suc.prems(3) x(1) by (simp_all add: value_ascii)
  let ?t = "triple (digit64 c1) (digit64 c2) (digit64 c3) (digit64 c4)"
  have t: "take (4 * Suc j) (c1 # c2 # c3 # c4 # zs) = c1 # c2 # c3 # c4 # take (4 * j) zs" for j by (simp add: take_Cons')
  have pr: "61 \<notin> set (take (4 * k) (c1 # c2 # c3 # c4 # zs))" by (rule Suc.prems(4)[unfolded x(1) diff_Suc_1])
  show ?case
  proof (cases "255 \<in> {digit64 c1, digit64 c2, digit64 c3, digit64 c4}")
    case True
    have "k = 0"
    proof (rule ccontr)
      assume "k \<noteq> 0"
      then obtain j where "k = Suc j" by (cases k) auto
      then have "61 \<notin> {c1, c2, c3, c4}" using pr unfolding \<open>k = Suc j\<close> t by simp
      then show False using True digit_pad Suc.prems(3) by (auto simp: x(1))
    qed
    then show ?thesis using n v True by (auto simp: x(1))
  next
    case False
    have p: "61 \<notin> set (take (4 * (k - 1)) zs)" using pr t[of "k - 1"] by (cases k) simp_all
    obtain out' less where "decode_groups k s4 (out @ ?t) = Some (out', less)" "unflat_groups k (zs @ r) (out @ ?t) = Some out'"
      "length out' + less = length (out @ ?t) + 3 * k" "less \<le> 3 * k"
      using Suc.IH[OF f4 x(2) v(5) p] by blast
    then show ?thesis using n v False by (simp add: x(1) triple_def)
  qed
qed simp

lemma unflat_groups_spec:
  "length xs = 4 * k \<Longrightarrow> \<forall>c \<in> set xs. ascii c \<and> c \<noteq> 61 \<Longrightarrow>
   unflat_groups (k + j) (xs @ ys) out = unflat_groups j ys (out @ unbase64 xs)"
proof (induction k arbitrary: xs out)
  case (Suc k)
  from list_quad[OF Suc.prems(1)] obtain c1 c2 c3 c4 zs where x: "xs = c1 # c2 # c3 # c4 # zs" "length zs = 4 * k" by metis
  then show ?case using Suc.prems(2) Suc.IH[OF x(2)] by (simp add: value_ascii digit_pad)
qed simp

interpretation decoder: block_loop "\<lambda>s. decode_block 16 s []" 64 48 unbase64 ascii decode_full
proof unfold_locales
  fix s :: "byte cursor" and xs ys :: "byte list"
  assume "feeds s (xs @ ys)" and l: "length xs = 64" and "\<forall>c \<in> set xs. ascii c"
  then show "\<exists>s'. decode_block 16 s [] = Some (s', unbase64 xs) \<and> feeds s' ys \<and> length (unbase64 xs) = 48"
    using decode_block_spec[of s xs ys 16 "[]"] length_unbase64[of xs 16] by simp
next
  fix left n and s :: "byte cursor" and bs :: "byte block list"
  show "decode_full left s bs n =
    (if left \<le> 64 then Some (left, s, bs, n)
     else do {
       (s, out) \<leftarrow> decode_block 16 s [];
       decode_full (left - 64) s (bs @ [\<lparr>BLen = 48, BChars = Some out\<rparr>]) (n + 48) })"
    by (rule decode_full.simps)
qed (simp_all add: unbase64_append[where k = 16])

lemma unflat_out: "unflat_groups k cs out = map_option ((@) out) (unflat_groups k cs [])"
proof (induction k arbitrary: cs out)
  case (Suc k)
  have IH: "unflat_groups k r (out @ triple a b c d) = map_option ((@) out) (unflat_groups k r (triple a b c d))" for r a b c d
    unfolding Suc.IH[of r "out @ triple a b c d"] Suc.IH[of r "triple a b c d"] by (cases "unflat_groups k r []") simp_all
  have step: "map_option ((@) out) (do { x \<leftarrow> a; h x }) = do { x \<leftarrow> a; map_option ((@) out) (h x) }" for a :: "'z option" and h
    by (cases a) simp_all
  show ?case
    by (simp only: unflat_groups.simps step IH if_distrib[of "map_option ((@) out)"] prod.case_distrib[of "map_option ((@) out)"] append_Nil option.map append_Nil2)
qed simp

lemma decode_flat_parts:
  assumes "length xs = 4 * k" and "\<forall>c \<in> set xs. ascii c \<and> c \<noteq> 61" and "unflat_groups (length ys div 4) ys [] = Some out"
  shows "decode_flat (xs @ ys) (length (xs @ ys)) = Some (unbase64 xs @ out)"
proof -
  have "length (xs @ ys) div 4 = k + length ys div 4" using assms(1) by simp
  then show ?thesis
    using unflat_groups_spec[OF assms(1,2), of "length ys div 4" ys "[]"] unflat_out[of "length ys div 4" ys "unbase64 xs"] assms(3)
    by (simp only: decode_flat_def) simp
qed

text \<open>The string that is made: its last block may be empty, and is then counted all the same.\<close>

lemma last_block_string:
  assumes "\<forall>b \<in> set bs. full_block b" and "length (text_of bs) + length out < 2147483648"
    and t: "t = alloc_with (bs @ [\<lparr>BLen = length out, BChars = Some (out @ cs)\<rparr>]) (length (text_of bs) + length out)"
  shows "SLen t = length (text_of bs @ out)" and "chars_of t = text_of bs @ out" and "wf_str t \<longleftrightarrow> out \<noteq> []"
proof -
  show "SLen t = length (text_of bs @ out)" "chars_of t = text_of bs @ out"
    using assms(1) by (simp_all add: t alloc_with_def chars_of_def text_append)
  show "wf_str t \<longleftrightarrow> out \<noteq> []"
  proof (cases "out = []")
    case True
    have "used_blocks (SBlocks t) = length bs" using assms(1) True by (simp add: t alloc_with_def used_append)
    then show ?thesis using True by (simp add: wf_str_def t alloc_with_def)
  next
    case False
    let ?bs = "bs @ [\<lparr>BLen = length out, BChars = Some (out @ cs)\<rparr>]"
    have "\<forall>b \<in> set ?bs. full_block b" "length (text_of bs) + length out = length (text_of ?bs)"
      using assms(1) False by (simp_all add: full_block_def text_append)
    from alloc_string(1)[OF this assms(2)] show ?thesis using False by (simp add: t)
  qed
qed

lemma Decode64_spec:
  assumes wf: "wf_str s" and small: "SLen s < 2147483584" and asc: "\<forall>c \<in> set (chars_of s). ascii c"
    and pad: "61 \<notin> set (take (4 * ((SLen s - 1) div 4)) (chars_of s))"
  shows "\<exists>out t. decode_flat (chars_of s) (SLen s) = Some out \<and> Decode64 fresh s = Some (SUCCESS t) \<and>
    SLen t = length out \<and> chars_of t = out \<and> (wf_str t \<longleftrightarrow> SLen s = 0 \<or> 48 * ((SLen s - 1) div 64) < length out)"
proof -
  note len = wf_length[OF wf]
  obtain cur where cur: "open_block (SBlocks s) = Some cur" "feeds cur (chars_of s)" using feeds_open[OF wf] by blast
  obtain cur' xs ys made where
    full: "decode_full (SLen s) cur [] 0 = Some (length ys, cur', made, 48 * length made)" and f: "feeds cur' ys" and c: "chars_of s = xs @ ys"
    and l: "length xs = 64 * length made" "length ys \<le> 64" "ys = [] \<longrightarrow> chars_of s = []"
    and m: "\<forall>b \<in> set made. full_block b" "text_of made = unbase64 xs" "length (unbase64 xs) = 48 * length made"
    using decoder.blocks[OF cur(2) asc, of "[]" 0] len by auto
  have ls: "SLen s = 64 * length made + length ys" using len c l(1) by simp
  have b: "(2 ^ 31 \<le> SLen s + 63) = False" using small by simp
  show ?thesis
  proof (cases "ys = []")
    case True
    then have "made = []" "chars_of s = []" "xs = []" using l(1,3) c by simp_all
    then have "SLen s = 0" using ls True by simp
    then show ?thesis using full cur(1) True allocated_full[of "[]" 0] alloc_string[of "[]" 0] \<open>made = []\<close> \<open>chars_of s = []\<close>
      by (intro exI[of _ "[]"] exI[of _ "alloc_with [] 0"]) (simp add: Decode64_def decode_flat_def alloc_with_def)
  next
    case False
    define k where "k = length ys div 4"
    define us where "us = take (4 * k) ys"
    define vs where "vs = drop (4 * k) ys"
    have y: "ys = us @ vs" "length us = 4 * k" "0 < length ys" using False by (simp_all add: us_def vs_def k_def)
    obtain j where j: "length ys = Suc j" using y(3) by (cases "length ys") auto
    have "SLen s - 1 = j + 4 * (16 * length made)" "SLen s - 1 = j + 64 * length made" using ls j by simp_all
    then have q: "(SLen s - 1) div 4 = 16 * length made + j div 4" "(SLen s - 1) div 64 = length made"
      using l(2) j by (simp_all only: div_mult_self2)
    have "4 * ((SLen s - 1) div 4) = length xs + 4 * (j div 4)" unfolding q(1) using l(1) by simp
    then have "take (4 * ((SLen s - 1) div 4)) (chars_of s) = xs @ take (4 * (j div 4)) ys" using c by simp
    then have xp: "61 \<notin> set xs" and yp: "61 \<notin> set (take (4 * (j div 4)) ys)" using pad by simp_all
    have "k - 1 \<le> j div 4" unfolding k_def j by presburger
    then have "set (take (4 * (k - 1)) ys) \<subseteq> set (take (4 * (j div 4)) ys)" by (intro set_take_subset_set_take) simp
    then have up: "61 \<notin> set (take (4 * (k - 1)) us)" using yp by (auto simp: us_def)
    have xa: "\<forall>c \<in> set xs. ascii c \<and> c \<noteq> 61" and ua: "\<forall>c \<in> set us. ascii c" using asc c xp y(1) by auto
    obtain out less where g: "decode_groups k cur' [] = Some (out, less)" "unflat_groups k ys [] = Some out"
      "length out + less = 3 * k" "less \<le> 3 * k"
      using decode_groups_spec[OF f[unfolded y(1)] y(2) ua up, of "[]"] by (auto simp: y(1)[symmetric])
    have flat: "decode_flat (chars_of s) (SLen s) = Some (unbase64 xs @ out)"
      using decode_flat_parts[of xs "16 * length made" ys out] l(1) xa g(2) c len by (simp add: k_def)
    have d: "3 * k - less = length out" "48 * length made + 3 * k - less = length (text_of made) + length out"
      using g(3) m(2,3) by simp_all
    let ?bs = "made @ [\<lparr>BLen = length out, BChars = Some (out @ drop (length out) (fresh (3 * k)))\<rparr>]"
    have "length out \<le> length ys" using g(3) by (simp add: k_def)
    then have small': "length (text_of made) + length out < 2147483648" using m(2,3) ls small by simp
    have cnt: "(SLen s + 63) div 64 = length ?bs" using block_count[OF y(3) l(2), of "length made"] by (simp add: ls)
    have z: "(length ys = 0) = False" using False by simp
    have "Decode64 fresh s = map_option SUCCESS (allocated (length ?bs) ?bs (length (text_of made) + length out))"
      unfolding Decode64_def Let_def k_def[symmetric]
      by (simp only: z b if_False cur(1) full bind.bind_lunit prod.case g(1) cnt k_def[symmetric] d mult.commute[of _ 3])
    moreover have "allocated (length ?bs) ?bs (length (text_of made) + length out) = Some (alloc_with ?bs (length (text_of made) + length out))"
      using small' by (simp add: allocated_def alloc_with_def)
    moreover note last_block_string[OF m(1) small' refl, of "drop (length out) (fresh (3 * k))"]
    moreover have "out \<noteq> [] \<longleftrightarrow> SLen s = 0 \<or> 48 * ((SLen s - 1) div 64) < length (unbase64 xs @ out)"
      unfolding q(2) using m(3) ls y(3) by auto
    ultimately show ?thesis using flat m(2) by (intro exI[of _ "unbase64 xs @ out"]) simp
  qed
qed

section \<open>Round trips\<close>

lemma digit_chars: "i < 64 \<Longrightarrow> ascii (base64_chars ! i) \<and> base64_chars ! i \<noteq> 61"
proof -
  assume "i < 64"
  then have "base64_chars ! i \<in> set base64_chars" using length_chars nth_mem[of i base64_chars] by simp
  then show ?thesis using chars_table unfolding list_all_iff by blast
qed

lemma base64_ascii: "\<forall>c \<in> set (base64 cs). ascii c"
  by (induction cs rule: base64.induct) (simp_all add: quads_digits digit_chars sextets)

lemma base64_plain: "length xs = 3 * k \<Longrightarrow> 61 \<notin> set (base64 xs)"
proof (induction k arbitrary: xs)
  case (Suc k)
  from list_triple[OF Suc.prems] obtain c1 c2 c3 zs where x: "xs = c1 # c2 # c3 # zs" "length zs = 3 * k" by metis
  have "base64_chars ! i \<noteq> 61" if "i < 64" for i using digit_chars[OF that] by simp
  then show ?case using Suc.IH[OF x(2)] x(1) sextets by (simp add: quads_digits)
qed simp

lemma base64_padding: "61 \<notin> set (take (4 * ((length (base64 cs) - 1) div 4)) (base64 cs))"
proof -
  obtain xs ys where c: "cs = xs @ ys" "length xs = 3 * (length cs div 3)" "length ys = length cs mod 3" "length ys < 3"
    by (rule triples_rest)
  note b = base64_append[OF c(2), of ys] and n = base64_plain[OF c(2)]
  show ?thesis
  proof (cases "ys = []")
    case True
    then show ?thesis using n c(1) by (auto dest: in_set_takeD)
  next
    case False
    then have l: "length (base64 ys) = 4" using c(4) by (cases ys rule: base64.cases) simp_all
    define g where "g = length cs div 3"
    have "length (base64 xs) = 4 * g" using c(2) by (simp add: length_base64 g_def[symmetric])
    then have "4 * ((length (base64 cs) - 1) div 4) = length (base64 xs)" using l b unfolding c(1) by simp
    then have "take (4 * ((length (base64 cs) - 1) div 4)) (base64 cs) = base64 xs" using b unfolding c(1) by simp
    then show ?thesis using n by simp
  qed
qed

lemma unflat_base64: "unflat_groups (length (base64 cs) div 4) (base64 cs) out = Some (out @ cs)"
proof (induction cs arbitrary: out rule: base64.induct)
  case (4 c1 c2 c3 cs)
  have k: "length (base64 (c1 # c2 # c3 # cs)) div 4 = Suc (length (base64 cs) div 4)" by simp
  show ?case unfolding k using 4[of "out @ [c1, c2, c3]"]
    by (simp add: quads_digits value_digit sextets triple_def triple_digits)
qed (simp_all add: quads_digits value_digit sextets value_pad triple_digits)

lemma decode_base64: "decode_flat (base64 cs) (length (base64 cs)) = Some cs"
  by (simp add: decode_flat_def unflat_base64)

lemma base64_blocks: "cs \<noteq> [] \<Longrightarrow> 48 * ((length (base64 cs) - 1) div 64) < length cs"
proof -
  assume "cs \<noteq> []"
  then have "0 < length cs" by simp
  define q where "q = (length (base64 cs) - 1) div 64"
  define g where "g = (length cs + 2) div 3"
  have "64 * q \<le> length (base64 cs) - 1" unfolding q_def by simp
  moreover have l: "length (base64 cs) = 4 * g" by (simp add: length_base64 g_def)
  moreover have g: "0 < g" using \<open>0 < length cs\<close> by (simp add: g_def div_greater_zero_iff Suc_le_eq)
  ultimately have "64 * q < 4 * g" by simp
  then have "16 * q + 1 \<le> g" by simp
  moreover have "3 * g \<le> length cs + 2" unfolding g_def by simp
  ultimately show ?thesis unfolding q_def[symmetric] by simp
qed

text \<open>
  C40: Base 64: \<open>Encode\<close> makes of the blocks of any string the blocks of its base 64 text: it agrees with \<open>_encode\<close>, and \<open>Decode\<close>
  and \<open>_decode\<close> give the string back. All strings that are made are well-formed.
\<close>

theorem base64_round_trip:
  assumes "wf_str s" and "SLen s < 1073741824"
  shows "\<exists>h t. Encode64 s = Some (SUCCESS h) \<and> wf_str h \<and> encode_flat (chars_of s) (SLen s) = Some (chars_of h) \<and>
    Decode64 fresh h = Some (SUCCESS t) \<and> wf_str t \<and> chars_of t = chars_of s \<and> decode_flat (chars_of h) (SLen h) = Some (chars_of s)"
proof -
  obtain h where h: "Encode64 s = Some (SUCCESS h)" "wf_str h" "chars_of h = base64 (chars_of s)"
    using Encode64_spec[OF assms] by blast
  note lh = wf_length[OF h(2)] and ls = wf_length[OF assms(1)]
  have "(SLen s + 2) div 3 \<le> 357913942" using assms(2) div_le_mono[of "SLen s + 2" 1073741826 3] by simp
  then have small: "SLen h < 2147483584" using lh h(3) ls by (simp add: length_base64)
  have len: "SLen h = length (base64 (chars_of s))" using lh h(3) by simp
  obtain t where t: "Decode64 fresh h = Some (SUCCESS t)" "chars_of t = chars_of s"
    "wf_str t \<longleftrightarrow> SLen h = 0 \<or> 48 * ((SLen h - 1) div 64) < length (chars_of s)"
    using Decode64_spec[OF h(2) small, of fresh] base64_ascii base64_padding[of "chars_of s"] decode_base64[of "chars_of s"]
    unfolding h(3) len by auto
  have "wf_str t" unfolding t(3) len using base64_blocks[of "chars_of s"] by (cases "chars_of s = []") simp_all
  moreover have "encode_flat (chars_of s) (SLen s) = Some (chars_of h)" using encode_flat_spec[of "chars_of s"] ls h(3) by simp
  moreover have "decode_flat (chars_of h) (SLen h) = Some (chars_of s)" using decode_base64[of "chars_of s"] len h(3) by simp
  ultimately show ?thesis using h(1,2) t(1,2) by blast
qed

theorem base64_round_trip_witness:
  "\<exists>h t. Encode64 (str_of [[77, 97], [110, 77]]) = Some (SUCCESS h) \<and> chars_of h = [84, 87, 70, 117, 84, 81, 61, 61] \<and>
    Decode64 (\<lambda>k. replicate k 7) h = Some (SUCCESS t) \<and> chars_of t = [77, 97, 110, 77]"
proof -
  let ?s = "str_of [[77, 97], [110, 77 :: byte]]"
  have wf: "wf_str ?s" "SLen ?s < 1073741824" by (simp_all add: wf_str_def str_of_def)
  have c: "chars_of ?s = [77, 97, 110, 77]" "SLen ?s = length [77, 97, 110, 77 :: byte]" by (simp_all add: chars_of_def str_of_def)
  have e: "base64 [77, 97, 110, 77] = [84, 87, 70, 117, 84, 81, 61, 61]" by code_simp
  show ?thesis using base64_round_trip[OF wf, of "\<lambda>k. replicate k 7"] unfolding c encode_flat_spec e by auto
qed

text \<open>
  Padding before the last group: \<^verbatim>\<open>_decode\<close> stops there, but \<^verbatim>\<open>Decode\<close> makes a string whose length takes account of
  the last group only, and the characters that have not been written are what the memory held before.
\<close>

lemma Decode64_early_padding:
  assumes "length (fresh 6) = 6"
  shows "decode_flat [65, 65, 61, 61, 65, 65, 65, 65] 8 = Some [0]"
    and "\<exists>t. Decode64 fresh (str_of [[65, 65, 61, 61, 65, 65, 65, 65]]) = Some (SUCCESS t) \<and> chars_of t = 0 # take 3 (drop 1 (fresh 6))"
proof -
  have v: "value64 65 = Some 0" "value64 61 = Some 255" by (simp_all add: value64_def base64_value_list)
  have two: "8 div 4 = Suc (Suc 0)" by simp
  show "decode_flat [65, 65, 61, 61, 65, 65, 65, 65] 8 = Some [0]"
    unfolding decode_flat_def two by (simp add: v)
  let ?s = "str_of [[65, 65, 61, 61, 65, 65, 65, 65 :: byte]]"
  obtain c r where cr: "open_block (SBlocks ?s) = Some c" "feeds c [65, 65, 61, 61, 65, 65, 65, 65]"
    using feeds_open[of ?s] by (auto simp: wf_str_def str_of_def chars_of_def)
  obtain s1 s2 s3 s4 where n: "next_char c = Some (65, s1)" "next_char s1 = Some (65, s2)" "next_char s2 = Some (61, s3)"
    using feeds_quad[OF cr(2)] by metis
  have "decode_groups (Suc (Suc 0)) c [] = Some ([0], 2)" using n v by simp
  then have g: "decode_groups 2 c [] = Some ([0], 2)" by (simp only: numeral_2_eq_2)
  have l: "SLen ?s = 8" by (simp add: str_of_def)
  obtain x xs where "fresh 6 = x # xs" "length xs = 5" using assms by (cases "fresh 6") auto
  then show "\<exists>t. Decode64 fresh ?s = Some (SUCCESS t) \<and> chars_of t = 0 # take 3 (drop 1 (fresh 6))"
    using cr(1) g by (simp add: Decode64_def l decode_full.simps allocated_def chars_of_def zero_block_def)
qed

end
