(* ===== verification/Spec2Isabelle.thy ===== *)
theory Spec2Isabelle
  imports ListTape TableRemove StringSplit UtilBase16 UtilBase64
begin

text \<open>
  A model of the data types of Riva, the run-time system of the programming language Wrapl: the lists, the
  tables and the strings that every Wrapl program uses.

  \<^bold>\<open>The program.\<close> Riva loads modules and links them; Wrapl is a language compiled to Riva modules.
  The library under \<^verbatim>\<open>dev/src/lib/\<close> is a set of such modules in C and assembly. Its types are given
  methods by \<^verbatim>\<open>METHOD\<close>, \<^verbatim>\<open>TYPED_INSTANCE\<close> and \<^verbatim>\<open>SYMBOL\<close> declarations; a method is a C function that gets its
  arguments and a result structure and returns one of the codes \<^verbatim>\<open>SUSPEND\<close>, \<^verbatim>\<open>SUCCESS\<close>, \<^verbatim>\<open>FAILURE\<close> and
  \<^verbatim>\<open>MESSAGE\<close>. After \<^verbatim>\<open>SUSPEND\<close> it can be resumed: that is how generators work.
  \<^verbatim>\<open>Agg/List.c\<close> has the doubly linked lists with a cached position and an index array; \<^verbatim>\<open>Agg/Table.c\<close>
  has the AVL trees with hashes, parents kept on stacks, and traversers that notice changes. \<^verbatim>\<open>ThrList.c\<close> and
  \<^verbatim>\<open>ThrTable.c\<close> include them with \<^verbatim>\<open>THREADED\<close> defined, which adds a reader-writer lock to every operation; that
  build is the one modelled. The methods call each other and functions of the user by \<^verbatim>\<open>Std$Function$call\<close>;
  \<^verbatim>\<open>Std/Methods2.c\<close> has the methods of strings, which are immutable sequences of blocks of characters;
  a table method that makes a list calls \<^verbatim>\<open>Agg/List.c\<close>, and the comparison of lists keeps its results in a cache
  object.

  \<^bold>\<open>Conventions.\<close>
  \<^item> The outer option type of every operation says whether the C code has a defined behaviour: \<^const>\<open>None\<close> is the
    use of a null or wild pointer, of an array out of bounds, a stack overflow, a lock that can never be
    had, an exhausted memory, or a loop without end. Loops over pointers are \<^theory_text>\<open>partial_function (option)\<close>, so
    that not ending is \<^const>\<open>None\<close>; every theorem that gives a result \<^const>\<open>Some\<close> therefore says that the
    code ends and is defined there. No fuel is used anywhere.
  \<^item> Riva is a 32-bit x86 system: \<^verbatim>\<open>long\<close>, \<^verbatim>\<open>unsigned long\<close>, \<^verbatim>\<open>size_t\<close> and pointers have 32 bits
    (\<^const>\<open>ul\<close>, \<^const>\<open>s32\<close>, \<^const>\<open>inc32\<close>, \<^const>\<open>dec32\<close>).
  \<^item> Memory is a finite map from addresses to cells and a next free address (the collector never reuses memory
    that is still reachable). \<^const>\<open>max_nodes\<close> and \<^const>\<open>max_cells\<close> are the numbers of list and table nodes that fit
    into 32 bits of address space; an allocation beyond them is \<^const>\<open>None\<close>. A theorem with enough room as a
    hypothesis states it as a number of free cells.
  \<^item> A function of the user is a parameter from argument values to a reply, without a state of its own. What the
    code relies on of a comparison function is a named hypothesis (\<^const>\<open>key_order\<close> for tables).
  \<^item> Two lists or two tables given to one operation are two different objects. An operation that
    is given the same object twice is not covered by the models that take two.
  \<^item> A lock is what one thread sees: a number of readers, or a writer. Asking for a lock that the thread
    itself keeps from being free is \<^const>\<open>None\<close>. Other threads are not modelled.

  \<^bold>\<open>Theories.\<close> \<^verbatim>\<open>Prelude\<close> has the replies, the 32-bit arithmetic and lemmas shared by all.

  Lists, \<^verbatim>\<open>dev/src/lib/Agg/List.c\<close>:
  \<^item> \<^verbatim>\<open>ListHeap\<close>: nodes in memory and chains of them; \<^verbatim>\<open>ListCore\<close>: the structure \<^verbatim>\<open>_list\<close>, the locks, the
    representation predicate: right links in both directions, right length, a cache that is the node its index
    says, an index array that holds the nodes of its window.
  \<^item> \<^verbatim>\<open>ListBuild\<close>: \<^verbatim>\<open>_new0\<close>, \<^verbatim>\<open>_new\<close>, \<^verbatim>\<open>_newv\<close>, \<^verbatim>\<open>New\<close>, \<^verbatim>\<open>Make\<close>, \<^verbatim>\<open>empty\<close>, \<^verbatim>\<open>copy\<close>, \<^verbatim>\<open>+\<close>. \<^verbatim>\<open>ListDeque\<close>: \<^verbatim>\<open>push\<close>, \<^verbatim>\<open>put\<close>,
    \<^verbatim>\<open>pop\<close>, \<^verbatim>\<open>pull\<close>. \<^verbatim>\<open>ListIndex\<close>: \<^verbatim>\<open>build_index_array\<close>, \<^verbatim>\<open>_find_node\<close>, \<^verbatim>\<open>[]\<close> with one and two positions.
    \<^verbatim>\<open>ListEdit\<close>: \<^verbatim>\<open>delete\<close>, \<^verbatim>\<open>insert\<close>, \<^verbatim>\<open>splice\<close>. \<^verbatim>\<open>ListSplit\<close>: \<^verbatim>\<open>split\<close>, \<^verbatim>\<open>shift\<close>, \<^verbatim>\<open>separate\<close>.
  \<^item> \<^verbatim>\<open>ListFind\<close>: \<^verbatim>\<open>in\<close>, the generators \<^verbatim>\<open>find\<close>, \<^verbatim>\<open>rfind\<close>, \<^verbatim>\<open>where\<close>, \<^verbatim>\<open>rwhere\<close> and their variants, \<^verbatim>\<open>bsearch\<close>.
    \<^verbatim>\<open>ListRemove\<close>: \<^verbatim>\<open>remove\<close>, \<^verbatim>\<open>remove_object\<close>, \<^verbatim>\<open>filter\<close>. \<^verbatim>\<open>ListCheck\<close>: \<^verbatim>\<open>_check\<close>, \<^verbatim>\<open>_validate\<close>, \<^verbatim>\<open>length\<close>,
    \<^verbatim>\<open>#\<close>, \<^verbatim>\<open>?\<close>, \<^verbatim>\<open>=\<close>, \<^verbatim>\<open>[]=\<close>, strings. \<^verbatim>\<open>ListFold\<close>: \<^verbatim>\<open>loop\<close>, \<^verbatim>\<open>fill\<close>, \<^verbatim>\<open>apply\<close>, \<^verbatim>\<open>map\<close>, \<^verbatim>\<open>foldl\<close>, \<^verbatim>\<open>foldr\<close>,
    \<^verbatim>\<open>collect\<close>. \<^verbatim>\<open>ListSort\<close> and \<^verbatim>\<open>ListTape\<close>: the two merge sorts \<^verbatim>\<open>sort\<close> and \<^verbatim>\<open>sort2\<close>.

  Tables, \<^verbatim>\<open>dev/src/lib/Agg/Table.c\<close>:
  \<^item> \<^verbatim>\<open>TableTree\<close>: AVL trees as a data type with zippers; \<^verbatim>\<open>TableHeap\<close>: the nodes and which tree they form.
  \<^item> \<^verbatim>\<open>TableProbe\<close>: \<^verbatim>\<open>avl_create\<close>, \<^verbatim>\<open>avl_find\<close>, \<^verbatim>\<open>avl_probe\<close>; \<^verbatim>\<open>TableDelete\<close>: \<^verbatim>\<open>avl_delete\<close>; each is shown to do
    on the nodes what insertion and deletion do on the data type. \<^verbatim>\<open>TableOrder\<close>: the search order and the entry of
    a key; \<^verbatim>\<open>TableMap\<close> and \<^verbatim>\<open>TableOps\<close>: the methods on one key as operations of a finite map;
    \<^verbatim>\<open>TableBounds\<close>: the invariant for any comparison function and the sizes of the stacks.
  \<^item> \<^verbatim>\<open>TableIter\<close>: traversers and \<^verbatim>\<open>trav_refresh\<close>; \<^verbatim>\<open>TableWhole\<close> has the operations on whole tables, \<^verbatim>\<open>TableEach\<close>
    and \<^verbatim>\<open>TableCopy\<close> what they do; \<^verbatim>\<open>TableRemove\<close>: \<^verbatim>\<open>remove\<close>, \<^verbatim>\<open>remove_if\<close> and \<^verbatim>\<open>remove_all\<close>, which delete
    under a traverser.

  Strings, \<^verbatim>\<open>dev/src/lib/Std/Methods2.c\<close>:
  \<^item> \<^verbatim>\<open>StringBlocks\<close>: blocks, strings, what they denote (\<^const>\<open>chars_of\<close>), when they are well-formed
    (\<^const>\<open>wf_str\<close>: what \<^verbatim>\<open>Std$String$alloc\<close> and \<^verbatim>\<open>new\<close> make; the literal for an empty string, whose count of
    blocks is 1, is not), and the reading of a string character by character. A pointer to characters is the list of the characters
    from there to the end of the memory, a pointer to a block the list of the blocks from there on.
  \<^item> \<^verbatim>\<open>StringSearch\<close>: \<^verbatim>\<open>in\<close>, \<^verbatim>\<open>begins\<close>, \<^verbatim>\<open>ends\<close> and the generators \<^verbatim>\<open>find\<close>; \<^verbatim>\<open>StringSets\<close>: masks of
    256 bits and the generators \<^verbatim>\<open>any\<close> and \<^verbatim>\<open>skip\<close>; each generator is shown to give all positions, in order, when
    it is resumed to its end (\<^const>\<open>gives\<close>).
  \<^item> \<^verbatim>\<open>StringMake\<close>: \<^verbatim>\<open>lower\<close>, \<^verbatim>\<open>upper\<close>, \<^verbatim>\<open>map\<close>, \<^verbatim>\<open>reverse\<close>, \<^verbatim>\<open>centre\<close>; \<^verbatim>\<open>StringSplit\<close>: \<^verbatim>\<open>chars\<close>
    and \<^verbatim>\<open>split\<close>, whose parts share the characters of the string; \<^verbatim>\<open>StringDistance\<close>: \<^verbatim>\<open>~\<close> and
    \<^verbatim>\<open>distance\<close>, shown to be the least numbers of edits.
  \<^item> \<^verbatim>\<open>UtilBase16\<close> and \<^verbatim>\<open>UtilBase64\<close> (\<^verbatim>\<open>dev/src/lib/Util/Base16.c\<close> and \<^verbatim>\<open>Base64.c\<close>): the encoders and decoders of
    strings, which read from blocks and make blocks, shown to be inverse to each other; \<^verbatim>\<open>Decode\<close> of base 64 stops at padding in
    the last groups only.

  \<^bold>\<open>Interfaces.\<close> \<^verbatim>\<open>node_finder\<close> (an operation that finds the node of a position; provided by \<^const>\<open>seek\<close>,
  \<^const>\<open>find_node\<close> and \<^const>\<open>locate\<close>), \<^verbatim>\<open>list_generator\<close> (a generator of positions; provided by eleven methods)
  \<^verbatim>\<open>position_generator\<close> (a generator that goes on from a place in a string; provided by \<^verbatim>\<open>find\<close>, \<^verbatim>\<open>any\<close> and \<^verbatim>\<open>skip\<close>)
  \<^verbatim>\<open>block_loop\<close> (a loop that makes full blocks from a place in a string; provided by \<^verbatim>\<open>Encode\<close> and \<^verbatim>\<open>Decode\<close> of base 64)
  and \<^verbatim>\<open>keyed_store\<close> (a map with put and delete; provided by insertion and by insertion with a created value).
  Their laws are discharged for the models of the code, and the properties rest on the facts they give.

  \<^bold>\<open>Bounds.\<close> The stacks of \<^verbatim>\<open>avl_find\<close>, \<^verbatim>\<open>avl_probe\<close> and \<^verbatim>\<open>avl_delete\<close> have 32 places. A table of at most
  \<^const>\<open>max_entries\<close> (5702885) entries has a height of at most 31, for which they suffice; an AVL tree of height 32
  overflows that of \<^verbatim>\<open>avl_delete\<close>. The stack of a traverser suffices up to height 32. The theorems about tables
  therefore ask for at most \<^const>\<open>max_entries\<close> entries. The length of a string is a positive \<^verbatim>\<open>long\<close>; the rows of the
  distances are assumed to fit on the stack.

  \<^bold>\<open>Not modelled.\<close> Of the methods of strings, \<^verbatim>\<open>map\<close> with two lists, \<^verbatim>\<open>before\<close>, \<^verbatim>\<open>after\<close> and the conversions to and from
  numbers rest on assembly routines or on GMP. The other modules are assembly or C++ with generated machine code (the tables by object, string and
  type, arrays and grids, the compiler of Wrapl), bindings of libraries that are not in the repository (GMP, libbfd,
  minilang, GTK, igraph, CRoaring, parser libraries), wrappers of system calls (streams, files, threads, the
  module loader) or floating point (Math). Their code computes little of its own, or computes in terms
  of code that cannot be read here.
\<close>

end
